(* ===== verification/Prelude.thy ===== *)
theory Prelude
  imports Complex_Main "HOL-Library.Word"
begin

text \<open>
  The vocabulary the component theories share: the outcome of a fallible Rust function
  (\<open>Ok\<close>, \<open>Err\<close> or a panic), its sequencing (\<open>?\<close> is \<open>and_then\<close>), loops that stop at
  the first error, 64-bit \<open>usize\<close>/\<open>u64\<close> arithmetic in its checked, wrapping and
  saturating forms, decimal formatting of unsigned numbers, and the interface of a
  component whose operations all keep one invariant.

  Unchecked \<open>+\<close> and \<open>*\<close> wrap, as in the release profile (Cargo.toml sets no
  \<open>overflow-checks\<close>); a debug build panics at the same inputs.
\<close>

section \<open>Outcomes of fallible functions\<close>

datatype ('e, 'a) res = Ok 'a | Err 'e | Panic

named_theorems res_simps \<open>evaluation of outcomes, checked arithmetic and indexing\<close>

primrec and_then :: "('e, 'a) res \<Rightarrow> ('a \<Rightarrow> ('e, 'b) res) \<Rightarrow> ('e, 'b) res" where
  "and_then (Ok x) f = f x"
| "and_then (Err e) f = Err e"
| "and_then Panic f = Panic"

definition ensure :: "bool \<Rightarrow> 'e \<Rightarrow> ('e, unit) res" where
  "ensure b e = (if b then Ok () else Err e)"

definition ok_or :: "'a option \<Rightarrow> 'e \<Rightarrow> ('e, 'a) res" where
  "ok_or x e = (case x of None \<Rightarrow> Err e | Some y \<Rightarrow> Ok y)"

primrec map_err :: "('e \<Rightarrow> 'f) \<Rightarrow> ('e, 'a) res \<Rightarrow> ('f, 'a) res" where
  "map_err g (Ok x) = Ok x"
| "map_err g (Err e) = Err (g e)"
| "map_err g Panic = Panic"

primrec is_ok :: "('e, 'a) res \<Rightarrow> bool" where
  "is_ok (Ok x) = True"
| "is_ok (Err e) = False"
| "is_ok Panic = False"

text \<open>Indexing a slice: out of range is a panic.\<close>

definition idx :: "'a list \<Rightarrow> nat \<Rightarrow> ('e, 'a) res" where
  "idx xs i = (if i < length xs then Ok (xs ! i) else Panic)"

text \<open>\<open>&xs[a..b]\<close>: a panic unless \<open>a <= b <= xs.len()\<close>.\<close>

definition slice :: "'a list \<Rightarrow> nat \<Rightarrow> nat \<Rightarrow> ('e, 'a list) res" where
  "slice xs a b = (if a \<le> b \<and> b \<le> length xs then Ok (take (b - a) (drop a xs)) else Panic)"

text \<open>A sequence of array stores \<open>xs[i] = v\<close>, in order, all at indices in range.\<close>

definition apply_writes :: "(nat \<times> 'a) list \<Rightarrow> 'a list \<Rightarrow> 'a list" where
  "apply_writes ws xs = fold (\<lambda>(i, v) xs. xs[i := v]) ws xs"

lemma length_apply_writes [simp]: "length (apply_writes ws xs) = length xs"
  by (induction ws arbitrary: xs) (auto simp: apply_writes_def split: prod.splits)

text \<open>
  When every store writes a function of its index, the order does not matter: a stored
  position holds that function's value.
\<close>

lemma nth_apply_writes:
  assumes "\<And>j v. (j, v) \<in> set ws \<Longrightarrow> v = g j" and "i < length xs"
  shows "apply_writes ws xs ! i = (if i \<in> fst ` set ws then g i else xs ! i)"
  using assms
proof (induction ws arbitrary: xs)
  case (Cons w ws)
  obtain j v where w: "w = (j, v)" by (cases w)
  have "apply_writes (w # ws) xs = apply_writes ws (xs[j := v])"
    by (simp add: apply_writes_def w)
  moreover have "v = g j" using Cons.prems(1) w by simp
  moreover have "apply_writes ws (xs[j := v]) ! i =
      (if i \<in> fst ` set ws then g i else xs[j := v] ! i)"
    by (rule Cons.IH) (use Cons.prems in auto)
  ultimately show ?case using Cons.prems(2) w
    by (cases "i = j") simp_all
qed (simp add: apply_writes_def)

lemma apply_writes_covering:
  assumes "length xs = n" and "\<And>j v. (j, v) \<in> set ws \<Longrightarrow> v = g j" and "{..<n} \<subseteq> fst ` set ws"
  shows "apply_writes ws xs = map g [0..<n]"
proof (rule nth_equalityI)
  fix i assume "i < length (apply_writes ws xs)"
  then have i: "i < n" "i < length xs" using assms(1) by simp_all
  with assms(3) have "i \<in> fst ` set ws" by blast
  with nth_apply_writes [of ws g i xs, OF assms(2) i(2)] i show "apply_writes ws xs ! i = map g [0..<n] ! i"
    by simp
qed (simp add: assms(1))

text \<open>The \<open>i\<close>-th element of a concatenation of pieces of one length.\<close>

lemma nth_concat_uniform:
  assumes "\<And>xs. xs \<in> set xss \<Longrightarrow> length xs = k" and "i < length xss * k"
  shows "concat xss ! i = xss ! (i div k) ! (i mod k)"
  using assms
proof (induction xss arbitrary: i)
  case (Cons xs xss)
  then have l: "length xs = k" by simp
  show ?case
  proof (cases "i < k")
    case False
    then have "i - k < length xss * k" using Cons.prems(2) by simp
    then have "concat xss ! (i - k) = xss ! ((i - k) div k) ! ((i - k) mod k)"
      using Cons.prems(1) by (intro Cons.IH) simp_all
    moreover have "i div k = Suc ((i - k) div k)" "(i - k) mod k = i mod k"
      using False Cons.prems(2) by (cases "k = 0"; simp add: le_div_geq le_mod_geq)+
    ultimately show ?thesis using False l by (simp add: nth_append)
  qed (simp add: nth_append l)
qed simp

lemma length_concat_uniform:
  "(\<And>xs. xs \<in> set xss \<Longrightarrow> length xs = k) \<Longrightarrow> length (concat xss) = length xss * k"
  by (induction xss) simp_all

lemma upt_append: "i \<le> j \<Longrightarrow> j \<le> k \<Longrightarrow> [i..<j] @ [j..<k] = [i..<k]"
  by (metis le_iff_add upt_add_eq_append)

lemma slice_Ok: "(slice xs a b = Ok ys) = (a \<le> b \<and> b \<le> length xs \<and> ys = take (b - a) (drop a xs))"
  by (auto simp: slice_def)

lemma and_then_eq_Ok [simp]:
  "(and_then m f = Ok y) = (\<exists>x. m = Ok x \<and> f x = Ok y)"
  by (cases m) auto

lemma and_then_eq_Err:
  "(and_then m f = Err e) = (m = Err e \<or> (\<exists>x. m = Ok x \<and> f x = Err e))"
  by (cases m) auto

lemma and_then_eq_Panic:
  "(and_then m f = Panic) = (m = Panic \<or> (\<exists>x. m = Ok x \<and> f x = Panic))"
  by (cases m) auto

lemma ensure_Ok [simp]: "(ensure b e = Ok u) = b"
  by (simp add: ensure_def)

lemma ensure_Err [simp]: "(ensure b e = Err e') = (\<not> b \<and> e' = e)"
  by (auto simp: ensure_def)

lemma ensure_no_panic [simp]: "ensure b e \<noteq> Panic"
  by (simp add: ensure_def)

lemma ensure_True [simp]: "ensure True e = Ok ()"
  by (simp add: ensure_def)

lemma ensure_False [simp]: "ensure False e = Err e"
  by (simp add: ensure_def)

lemma ok_or_Ok [simp]: "(ok_or x e = Ok y) = (x = Some y)"
  by (simp add: ok_or_def split: option.split)

lemma ok_or_Err [simp]: "(ok_or x e = Err e') = (x = None \<and> e' = e)"
  by (auto simp: ok_or_def split: option.split)

lemma ok_or_no_panic [simp]: "ok_or x e \<noteq> Panic"
  by (simp add: ok_or_def split: option.split)

lemma ok_or_eval [res_simps]: "ok_or (Some y) e = Ok y" "ok_or None e = Err e"
  by (simp_all add: ok_or_def)

lemma map_err_Ok [simp]: "(map_err g m = Ok x) = (m = Ok x)"
  by (cases m) auto

lemma map_err_Panic [simp]: "(map_err g m = Panic) = (m = Panic)"
  by (cases m) auto

lemma idx_Ok [simp]: "(idx xs i = Ok x) = (i < length xs \<and> xs ! i = x)"
  by (simp add: idx_def)

lemma idx_in [res_simps]: "i < length xs \<Longrightarrow> idx xs i = Ok (xs ! i)"
  by (simp add: idx_def)

lemma idx_not_Err [simp]: "idx xs i \<noteq> Err e"
  by (simp add: idx_def)

lemma is_ok_iff: "is_ok m = (\<exists>x. m = Ok x)"
  by (cases m) auto

section \<open>Loops that stop at the first error\<close>

text \<open>
  \<open>traverse f xs\<close> is \<open>xs.iter().map(f).collect::<Result<Vec<_>>>()\<close>, and a \<open>for\<close> loop
  that pushes one result per iteration and uses \<open>?\<close>; \<open>for_each\<close> keeps no result;
  \<open>fold_res\<close> threads a state.
\<close>

fun traverse :: "('a \<Rightarrow> ('e, 'b) res) \<Rightarrow> 'a list \<Rightarrow> ('e, 'b list) res" where
  "traverse f [] = Ok []"
| "traverse f (x # xs) =
     and_then (f x) (\<lambda>y. and_then (traverse f xs) (\<lambda>ys. Ok (y # ys)))"

fun for_each :: "('a \<Rightarrow> ('e, unit) res) \<Rightarrow> 'a list \<Rightarrow> ('e, unit) res" where
  "for_each f [] = Ok ()"
| "for_each f (x # xs) = and_then (f x) (\<lambda>_. for_each f xs)"

fun fold_res :: "('a \<Rightarrow> 's \<Rightarrow> ('e, 's) res) \<Rightarrow> 'a list \<Rightarrow> 's \<Rightarrow> ('e, 's) res" where
  "fold_res f [] s = Ok s"
| "fold_res f (x # xs) s = and_then (f x s) (fold_res f xs)"

lemma traverse_Ok_iff:
  "(traverse f xs = Ok ys) = list_all2 (\<lambda>x y. f x = Ok y) xs ys"
  by (induction xs arbitrary: ys) (auto simp: list_all2_Cons1)

lemma traverse_length: "traverse f xs = Ok ys \<Longrightarrow> length ys = length xs"
  by (simp add: traverse_Ok_iff list_all2_lengthD)

lemma traverse_nth:
  "traverse f xs = Ok ys \<Longrightarrow> i < length xs \<Longrightarrow> f (xs ! i) = Ok (ys ! i)"
  using list_all2_nthD by (fastforce simp: traverse_Ok_iff)

lemma traverse_map_Ok: "(\<And>x. x \<in> set xs \<Longrightarrow> f x = Ok (g x)) \<Longrightarrow> traverse f xs = Ok (map g xs)"
  by (induction xs) auto

lemma for_each_Ok [simp]: "(for_each f xs = Ok u) = (\<forall>x\<in>set xs. f x = Ok ())"
  by (induction xs) auto

lemma and_then_Ok_right [simp]: "and_then m Ok = m"
  by (cases m) auto

lemma fold_res_Nil [simp]: "fold_res f [] = Ok"
  by (rule ext) simp

lemma fold_res_single: "fold_res f [x] = f x"
  by (rule ext) (simp add: fold_res_Nil)

lemma fold_res_append:
  "fold_res f (xs @ ys) s = and_then (fold_res f xs s) (fold_res f ys)"
proof (induction xs arbitrary: s)
  case (Cons x xs)
  then show ?case by (cases "f x s") simp_all
qed simp

lemma traverse_ex:
  "\<forall>x\<in>set xs. \<exists>y. f x = Ok y \<and> P x y \<Longrightarrow> \<exists>ys. traverse f xs = Ok ys \<and> list_all2 P xs ys"
proof (induction xs)
  case (Cons x xs)
  then obtain y ys where "f x = Ok y" "P x y" "traverse f xs = Ok ys" "list_all2 P xs ys" by auto
  then show ?case by (simp del: and_then_eq_Ok)
qed simp

lemma concat_pieces:
  "list_all2 (\<lambda>x ys. map f ys = g x) xs yss \<Longrightarrow> map f (concat yss) = concat (map g xs)"
  by (induction rule: list_all2_induct) simp_all

lemma and_then_no_panic: "r \<noteq> Panic \<Longrightarrow> (\<And>x. f x \<noteq> Panic) \<Longrightarrow> and_then r f \<noteq> Panic"
  by (simp add: and_then_eq_Panic)

lemma if_no_panic: "a \<noteq> Panic \<Longrightarrow> b \<noteq> Panic \<Longrightarrow> (if c then a else b) \<noteq> Panic"
  by simp

lemma for_each_no_panic: "(\<And>x. f x \<noteq> Panic) \<Longrightarrow> for_each f xs \<noteq> Panic"
  by (induction xs) (auto simp: and_then_eq_Panic)

lemma fold_res_no_panic: "(\<And>x s. f x s \<noteq> Panic) \<Longrightarrow> fold_res f xs s \<noteq> Panic"
  by (induction xs arbitrary: s) (auto simp: and_then_eq_Panic)

lemma fold_res_inv:
  assumes "fold_res f xs s = Ok s'" and "I s"
    and "\<And>x s s'. x \<in> set xs \<Longrightarrow> I s \<Longrightarrow> f x s = Ok s' \<Longrightarrow> I s'"
  shows "I s'"
  using assms by (induction xs arbitrary: s) auto

section \<open>64-bit unsigned arithmetic\<close>

text \<open>
  A \<open>usize\<close> or \<open>u64\<close> is a \<open>nat\<close> below \<open>u64_range\<close>; the target is 64-bit. The results
  of every operation are reduced or checked here, so the model never holds a larger one
  where the code could not.
\<close>

definition u64_range :: nat where
  "u64_range = 2 ^ 64"

definition u32_range :: nat where
  "u32_range = 2 ^ 32"

definition checked_add :: "nat \<Rightarrow> nat \<Rightarrow> nat option" where
  "checked_add a b = (if a + b < u64_range then Some (a + b) else None)"

definition checked_mul :: "nat \<Rightarrow> nat \<Rightarrow> nat option" where
  "checked_mul a b = (if a * b < u64_range then Some (a * b) else None)"

definition checked_sub :: "nat \<Rightarrow> nat \<Rightarrow> nat option" where
  "checked_sub a b = (if b \<le> a then Some (a - b) else None)"

definition wadd :: "nat \<Rightarrow> nat \<Rightarrow> nat" where
  "wadd a b = (a + b) mod u64_range"

definition wmul :: "nat \<Rightarrow> nat \<Rightarrow> nat" where
  "wmul a b = (a * b) mod u64_range"

definition wsub :: "nat \<Rightarrow> nat \<Rightarrow> nat" where
  "wsub a b = (a + u64_range - b) mod u64_range"

text \<open>\<open>a.div_ceil(b)\<close>; a zero divisor panics, so the callers below never pass one.\<close>

definition div_ceil :: "nat \<Rightarrow> nat \<Rightarrow> nat" where
  "div_ceil a b = (if a mod b = 0 then a div b else a div b + 1)"

text \<open>\<open>dims.iter().product()\<close>: a left fold of the wrapping product.\<close>

definition usize_product :: "nat list \<Rightarrow> nat" where
  "usize_product xs = foldl wmul 1 xs"

lemma u64_range_pos [simp]: "0 < u64_range" "1 < u64_range" "Suc 0 < u64_range"
  by (simp_all add: u64_range_def)

lemma checked_add_Some [simp]: "(checked_add a b = Some c) = (c = a + b \<and> a + b < u64_range)"
  by (auto simp: checked_add_def)

lemma checked_add_None [simp]: "(checked_add a b = None) = (u64_range \<le> a + b)"
  by (auto simp: checked_add_def)

lemma checked_mul_Some [simp]: "(checked_mul a b = Some c) = (c = a * b \<and> a * b < u64_range)"
  by (auto simp: checked_mul_def)

lemma checked_mul_None [simp]: "(checked_mul a b = None) = (u64_range \<le> a * b)"
  by (auto simp: checked_mul_def)

lemma checked_sub_Some [simp]: "(checked_sub a b = Some c) = (b \<le> a \<and> c = a - b)"
  by (auto simp: checked_sub_def)

lemma checked_sub_None [simp]: "(checked_sub a b = None) = (a < b)"
  by (auto simp: checked_sub_def)

lemma wadd_small [simp]: "a + b < u64_range \<Longrightarrow> wadd a b = a + b"
  by (simp add: wadd_def)

lemma wmul_small [simp]: "a * b < u64_range \<Longrightarrow> wmul a b = a * b"
  by (simp add: wmul_def)

lemma wsub_small [simp]: "b \<le> a \<Longrightarrow> a < u64_range \<Longrightarrow> wsub a b = a - b"
  by (simp add: wsub_def mod_if)

lemma wadd_less [simp]: "wadd a b < u64_range" and wmul_less [simp]: "wmul a b < u64_range"
  by (simp_all add: wadd_def wmul_def)

lemma foldl_wmul: "foldl wmul (a mod u64_range) xs = (a * prod_list xs) mod u64_range"
proof (induction xs arbitrary: a)
  case (Cons x xs)
  have "wmul (a mod u64_range) x = (a * x) mod u64_range"
    by (simp add: wmul_def mod_mult_left_eq)
  with Cons.IH [of "a * x"] show ?case by (simp add: mult.assoc)
qed simp

lemma usize_product_eq: "usize_product xs = prod_list xs mod u64_range"
  using foldl_wmul [of 1 xs] by (simp add: usize_product_def del: One_nat_def)

lemma usize_product_small: "prod_list xs < u64_range \<Longrightarrow> usize_product xs = prod_list xs"
  by (simp add: usize_product_eq)

lemma div_ceil_mult_ge: "0 < b \<Longrightarrow> a \<le> div_ceil a b * b"
proof -
  have e: "a = a div b * b + a mod b" by simp
  assume "0 < b"
  then have "a mod b \<le> b" by (simp add: less_imp_le)
  with e have "a \<le> a div b * b + b" by linarith
  moreover from e have "a mod b = 0 \<Longrightarrow> a \<le> a div b * b" by linarith
  ultimately show ?thesis by (simp add: div_ceil_def)
qed

lemma div_ceil_mult_less: "0 < b \<Longrightarrow> 0 < a \<Longrightarrow> (div_ceil a b - 1) * b < a"
proof -
  assume b: "0 < b" and a: "0 < a"
  have e: "a = a div b * b + a mod b" by simp
  show ?thesis
  proof (cases "a mod b = 0")
    case True
    with e a have "0 < a div b" by (cases "a div b") auto
    with True e b show ?thesis
      by (simp add: div_ceil_def diff_mult_distrib) (metis diff_less mult_pos_pos)
  next
    case False
    with e have "a div b * b < a" by linarith
    with False show ?thesis by (simp add: div_ceil_def)
  qed
qed

lemma div_ceil_le: "0 < b \<Longrightarrow> a \<le> k * b \<Longrightarrow> div_ceil a b \<le> k"
proof (cases "a = 0")
  case False
  assume b: "0 < b" and k: "a \<le> k * b"
  with False div_ceil_mult_less [OF b, of a] have "(div_ceil a b - 1) * b < k * b"
    by (metis neq0_conv order_less_le_trans)
  with b have "div_ceil a b - 1 < k" by (simp only: mult_less_cancel2)
  then show ?thesis by linarith
qed (simp add: div_ceil_def)

lemma div_ceil_block: "0 < b \<Longrightarrow> i < a \<Longrightarrow> i div b < div_ceil a b"
  using div_ceil_mult_ge [of b a]
  by (metis less_mult_imp_div_less order_less_le_trans)

lemma div_ceil_0 [simp]: "div_ceil 0 b = 0"
  by (simp add: div_ceil_def)

lemma unat_word_of_nat_small:
  "n < 2 ^ LENGTH('a) \<Longrightarrow> unat (word_of_nat n :: 'a::len word) = n"
  by (simp add: unat_of_nat)

section \<open>Decimal formatting\<close>

text \<open>\<open>format!("{}", n)\<close> for an unsigned \<open>n\<close>, and its inverse on the digits it writes.\<close>

fun dec :: "nat \<Rightarrow> string" where
  "dec n = (if n < 10 then [char_of (48 + n)] else dec (n div 10) @ [char_of (48 + n mod 10)])"

declare dec.simps [simp del]

text \<open>\<open>format!("{:x}", n)\<close>: lower-case hexadecimal.\<close>

fun hex :: "nat \<Rightarrow> string" where
  "hex n = (let d = n mod 16; c = (if d < 10 then char_of (48 + d) else char_of (87 + d)) in
     if n < 16 then [c] else hex (n div 16) @ [c])"

declare hex.simps [simp del]

definition undec :: "string \<Rightarrow> nat" where
  "undec s = foldl (\<lambda>a c. a * 10 + (of_char c - 48)) 0 s"

lemma undec_dec [simp]: "undec (dec n) = n"
proof (induction n rule: dec.induct)
  case (1 n)
  show ?case
  proof (cases "n < 10")
    case True
    then show ?thesis by (simp add: dec.simps [of n] undec_def)
  next
    case False
    with 1 have "undec (dec (n div 10)) = n div 10" by simp
    moreover have "(48 + n mod 10) mod 256 = 48 + n mod 10" by simp
    ultimately show ?thesis
      using False by (simp add: dec.simps [of n] undec_def)
  qed
qed

lemma dec_inject [simp]: "(dec m = dec n) = (m = n)"
  by (metis undec_dec)

definition is_digit :: "char \<Rightarrow> bool" where
  "is_digit c = (48 \<le> (of_char c :: nat) \<and> (of_char c :: nat) \<le> 57)"

lemma dec_digits: "c \<in> set (dec n) \<Longrightarrow> is_digit c"
proof (induction n rule: dec.induct)
  case (1 n)
  have d: "is_digit (char_of (48 + k))" if "k < 10" for k :: nat
    using that by (simp add: is_digit_def)
  show ?case
  proof (cases "n < 10")
    case True
    with 1 d [of n] show ?thesis by (simp add: dec.simps [of n])
  next
    case False
    with 1 d [of "n mod 10"] show ?thesis by (auto simp: dec.simps [of n])
  qed
qed

lemma dec_nonempty [simp]: "dec n \<noteq> []"
  by (subst dec.simps) simp

text \<open>
  A decimal number followed by a character that is no digit can be read back: names such
  as \<open>blk.12.attn_q.weight\<close> determine the layer and the suffix.
\<close>

lemma dec_append_inject:
  assumes "dec m @ c # s = dec n @ d # t" and "\<not> is_digit c" and "\<not> is_digit d"
  shows "m = n \<and> c = d \<and> s = t"
proof -
  have tw: "takeWhile is_digit (dec k @ e # u) = dec k" if "\<not> is_digit e" for k e u
    using that dec_digits [of _ k] by (subst takeWhile_append2) auto
  from assms have "dec m = dec n" by (metis tw)
  with assms(1) show ?thesis by simp
qed

text \<open>\<open>format!("{:?}", dims)\<close> of a \<open>Vec<usize>\<close>\<close>

fun join_dims :: "nat list \<Rightarrow> string" where
  "join_dims [] = ''''"
| "join_dims [d] = dec d"
| "join_dims (d # ds) = dec d @ '', '' @ join_dims ds"

definition debug_dims :: "nat list \<Rightarrow> string" where
  "debug_dims ds = ''['' @ join_dims ds @ '']''"

section \<open>Strings\<close>

text \<open>Substring tests of \<open>str\<close>: \<open>starts_with\<close>, \<open>ends_with\<close>, \<open>contains\<close>.\<close>

definition starts_with :: "string \<Rightarrow> string \<Rightarrow> bool" where
  "starts_with s p = (take (length p) s = p)"

definition ends_with :: "string \<Rightarrow> string \<Rightarrow> bool" where
  "ends_with s p = (length p \<le> length s \<and> drop (length s - length p) s = p)"

fun contains :: "string \<Rightarrow> string \<Rightarrow> bool" where
  "contains [] p = (p = [])"
| "contains (c # s) p = (starts_with (c # s) p \<or> contains s p)"

lemma starts_with_append [simp]: "starts_with (p @ s) p"
  by (simp add: starts_with_def)

lemma starts_with_iff: "starts_with s p = (\<exists>t. s = p @ t)"
  by (metis append_take_drop_id starts_with_append starts_with_def)

lemma ends_with_append [simp]: "ends_with (s @ p) p"
  by (simp add: ends_with_def)

section \<open>Components that keep an invariant\<close>

text \<open>
  Several components are a state with operations that a caller may invoke in any order.
  \<open>run_ops\<close> is such a use; the interface promises that every operation keeps the
  invariant, whatever its result, and the client gets it for every state of a run.
\<close>

definition run_ops :: "('op \<Rightarrow> 's \<Rightarrow> 's) \<Rightarrow> 'op list \<Rightarrow> 's \<Rightarrow> 's" where
  "run_ops step ops s = foldl (\<lambda>s op. step op s) s ops"

lemma run_ops_simps [simp]:
  "run_ops step [] s = s"
  "run_ops step (op # ops) s = run_ops step ops (step op s)"
  "run_ops step (ops1 @ ops2) s = run_ops step ops2 (run_ops step ops1 s)"
  by (simp_all add: run_ops_def)

locale invariant_component =
  fixes step :: "'op \<Rightarrow> 's \<Rightarrow> 's"
    and inv :: "'s \<Rightarrow> bool"
  assumes step_inv: "inv s \<Longrightarrow> inv (step op s)"
begin

lemma run_inv: "inv s \<Longrightarrow> inv (run_ops step ops s)"
  by (induction ops arbitrary: s) (auto intro: step_inv)

lemma run_measure_mono:
  assumes "\<And>s op. inv s \<Longrightarrow> (f s :: nat) \<le> f (step op s)" and "inv s"
  shows "f s \<le> f (run_ops step ops s)"
  using assms(2)
proof (induction ops arbitrary: s)
  case (Cons op ops)
  from Cons.prems have "f s \<le> f (step op s)" by (rule assms(1))
  also from Cons.prems have "\<dots> \<le> f (run_ops step ops (step op s))"
    by (intro Cons.IH step_inv)
  finally show ?case by simp
qed simp

lemma run_frame:
  assumes "\<And>s op. g (step op s) = g s"
  shows "g (run_ops step ops s) = g s"
  by (induction ops arbitrary: s) (simp_all add: assms)

end

end
