(* ===== verification/Float32.thy ===== *)
theory Float32
  imports Prelude
begin

unbundle bit_operations_syntax

text \<open>
  Rust's \<open>f32\<close>: IEEE 754 binary32, as its 32 bits, with the operations the modelled
  code uses. Every operation decodes its arguments to an integer mantissa and a binary
  exponent, computes exactly, and rounds once to nearest, ties to even. NaN results are
  the canonical quiet NaN: Rust leaves their payload open, and no statement of the
  development depends on it.

  The lemmas show that rounding is exact on every representable value (\<open>round_bits_exact\<close>)
  and off by at most half a unit in the last place otherwise (\<open>round_error\<close>), and lift
  exactness to the operations.
\<close>

type_synonym f32 = "32 word"

section \<open>Decoding\<close>

datatype fdec = FNan | FInf bool | FFin bool nat int
  \<comment> \<open>sign, mantissa, exponent: the value is \<open>(-1)^sign * mantissa * 2^exponent\<close>\<close>

definition decode :: "f32 \<Rightarrow> fdec" where
  "decode x =
     (let n = unat x; s = (2 ^ 31 \<le> n); e = n div 2 ^ 23 mod 256; f = n mod 2 ^ 23 in
      if e = 255 then (if f = 0 then FInf s else FNan)
      else if e = 0 then FFin s f (-149)
      else FFin s (f + 2 ^ 23) (int e - 150))"

definition f32_is_finite :: "f32 \<Rightarrow> bool" where
  "f32_is_finite x = (case decode x of FFin _ _ _ \<Rightarrow> True | _ \<Rightarrow> False)"

definition f32_is_nan :: "f32 \<Rightarrow> bool" where
  "f32_is_nan x = (decode x = FNan)"

definition sgn_val :: "bool \<Rightarrow> int" where
  "sgn_val s = (if s then -1 else 1)"

text \<open>The real number a finite float stands for (not used by any executable definition).\<close>

definition f32_real :: "f32 \<Rightarrow> real" where
  "f32_real x = (case decode x of FFin s m e \<Rightarrow> of_int (sgn_val s) * real m * 2 powi e | _ \<Rightarrow> 0)"

section \<open>Rounding\<close>

fun nbits :: "nat \<Rightarrow> nat" where
  "nbits n = (if n = 0 then 0 else Suc (nbits (n div 2)))"

declare nbits.simps [simp del]

definition rne_shift :: "nat \<Rightarrow> nat \<Rightarrow> nat" where
  "rne_shift m k =
     (let q = m div 2 ^ k; r = m mod 2 ^ k in
      if 2 ^ k < 2 * r \<or> (2 * r = 2 ^ k \<and> odd q) then q + 1 else q)"

text \<open>The exponent of the unit in the last place: 24 significant bits, at least \<open>2^-149\<close>.\<close>

definition ulp_exp :: "nat \<Rightarrow> int \<Rightarrow> int" where
  "ulp_exp m e = max (e + int (nbits m) - 24) (-149)"

definition round_mant :: "nat \<Rightarrow> int \<Rightarrow> nat" where
  "round_mant m e =
     (let q = ulp_exp m e in
      if q \<le> e then m * 2 ^ nat (e - q) else rne_shift m (nat (q - e)))"

definition inf_bits :: nat where
  "inf_bits = 255 * 2 ^ 23"

text \<open>
  Biased exponent and fraction are adjacent fields, so \<open>(q + 149) * 2^23 + M\<close> is the
  magnitude in all cases: subnormal, normal, and the carry of a mantissa rounded up to \<open>2^24\<close>.
\<close>

definition round_mag :: "nat \<Rightarrow> int \<Rightarrow> nat" where
  "round_mag m e =
     (if m = 0 then 0
      else min inf_bits (nat (ulp_exp m e + 149) * 2 ^ 23 + round_mant m e))"

definition round_bits :: "bool \<Rightarrow> nat \<Rightarrow> int \<Rightarrow> f32" where
  "round_bits s m e = word_of_nat ((if s then 2 ^ 31 else 0) + round_mag m e)"

section \<open>Operations\<close>

definition f32_one :: f32 where "f32_one = 0x3F800000"
definition f32_nan :: f32 where "f32_nan = 0x7FC00000"
definition f32_neg_infinity :: f32 where "f32_neg_infinity = 0xFF800000"

definition f32_inf :: "bool \<Rightarrow> f32" where
  "f32_inf s = word_of_nat ((if s then 2 ^ 31 else 0) + inf_bits)"

text \<open>Negation flips the top bit, which adding \<open>2^31\<close> modulo \<open>2^32\<close> does.\<close>

definition f32_neg :: "f32 \<Rightarrow> f32" where
  "f32_neg x = x + 0x80000000"

text \<open>\<open>z as f32\<close> for the integer types of the code (i8, u8, i32, u32, usize).\<close>

definition f32_of_int :: "int \<Rightarrow> f32" where
  "f32_of_int z = round_bits (z < 0) (nat \<bar>z\<bar>) 0"

definition f32_mul :: "f32 \<Rightarrow> f32 \<Rightarrow> f32" where
  "f32_mul a b =
     (case (decode a, decode b) of
        (FNan, _) \<Rightarrow> f32_nan
      | (_, FNan) \<Rightarrow> f32_nan
      | (FInf s, FInf t) \<Rightarrow> f32_inf (s \<noteq> t)
      | (FInf s, FFin t m _) \<Rightarrow> if m = 0 then f32_nan else f32_inf (s \<noteq> t)
      | (FFin s m _, FInf t) \<Rightarrow> if m = 0 then f32_nan else f32_inf (s \<noteq> t)
      | (FFin s m e, FFin t n f) \<Rightarrow> round_bits (s \<noteq> t) (m * n) (e + f))"

definition scaled :: "bool \<Rightarrow> nat \<Rightarrow> int \<Rightarrow> int \<Rightarrow> int" where
  "scaled s m e e0 = sgn_val s * int m * 2 ^ nat (e - e0)"

definition f32_add :: "f32 \<Rightarrow> f32 \<Rightarrow> f32" where
  "f32_add a b =
     (case (decode a, decode b) of
        (FNan, _) \<Rightarrow> f32_nan
      | (_, FNan) \<Rightarrow> f32_nan
      | (FInf s, FInf t) \<Rightarrow> if s = t then f32_inf s else f32_nan
      | (FInf s, FFin _ _ _) \<Rightarrow> f32_inf s
      | (FFin _ _ _, FInf t) \<Rightarrow> f32_inf t
      | (FFin s m e, FFin t n f) \<Rightarrow>
          (let e0 = min e f; z = scaled s m e e0 + scaled t n f e0 in
           if z = 0 then round_bits (s \<and> t) 0 0 else round_bits (z < 0) (nat \<bar>z\<bar>) e0))"

definition f32_sub :: "f32 \<Rightarrow> f32 \<Rightarrow> f32" where
  "f32_sub a b = f32_add a (f32_neg b)"

text \<open>\<open>a < b\<close>, false when either is NaN; both zeros are equal.\<close>

definition f32_lt :: "f32 \<Rightarrow> f32 \<Rightarrow> bool" where
  "f32_lt a b =
     (case (decode a, decode b) of
        (FNan, _) \<Rightarrow> False
      | (_, FNan) \<Rightarrow> False
      | (FInf s, FInf t) \<Rightarrow> s \<and> \<not> t
      | (FInf s, FFin _ _ _) \<Rightarrow> s
      | (FFin _ _ _, FInf t) \<Rightarrow> \<not> t
      | (FFin s m e, FFin t n f) \<Rightarrow>
          (let e0 = min e f in scaled s m e e0 < scaled t n f e0))"

definition f32_eq :: "f32 \<Rightarrow> f32 \<Rightarrow> bool" where
  "f32_eq a b = (\<not> f32_is_nan a \<and> \<not> f32_is_nan b \<and> \<not> f32_lt a b \<and> \<not> f32_lt b a)"

section \<open>Number of bits\<close>

lemma nbits_0 [simp]: "nbits 0 = 0"
  by (simp add: nbits.simps)

lemma nbits_bounds: "0 < n \<Longrightarrow> 2 ^ (nbits n - 1) \<le> n \<and> n < 2 ^ nbits n"
proof (induction n rule: nbits.induct)
  case (1 n)
  show ?case
  proof (cases "n div 2 = 0")
    case True
    with 1 have "n = 1" by linarith
    then show ?thesis by (simp add: nbits.simps)
  next
    case False
    with 1 have h: "2 ^ (nbits (n div 2) - 1) \<le> n div 2" "n div 2 < 2 ^ nbits (n div 2)" by auto
    from False have p: "0 < nbits (n div 2)" by (subst nbits.simps) simp
    from p have "2 ^ nbits (n div 2) = 2 * (2::nat) ^ (nbits (n div 2) - 1)"
      by (cases "nbits (n div 2)") simp_all
    moreover have "nbits n = Suc (nbits (n div 2))"
      using 1 by (subst nbits.simps) simp
    moreover have "n < 2 * (n div 2) + 2" and "2 * (n div 2) \<le> n" by arith+
    ultimately show ?thesis using h by (simp only: diff_Suc_1 power_Suc) linarith
  qed
qed

lemma nbits_less: "n < 2 ^ nbits n"
  by (cases "n = 0") (simp_all add: nbits_bounds)

lemma nbits_leI: "n < 2 ^ k \<Longrightarrow> nbits n \<le> k"
proof (rule ccontr)
  assume n: "n < 2 ^ k" and "\<not> nbits n \<le> k"
  then have "k \<le> nbits n - 1" and "0 < n" by (auto intro: ccontr)
  then have "2 ^ k \<le> (2::nat) ^ (nbits n - 1)" by simp
  with nbits_bounds [OF \<open>0 < n\<close>] n show False by linarith
qed

section \<open>Rounding is correct\<close>

lemma rne_shift_exact: "2 ^ k dvd m \<Longrightarrow> rne_shift m k = m div 2 ^ k"
  by (auto simp: rne_shift_def Let_def dvd_eq_mod_eq_0)

lemma rne_shift_error: "2 * \<bar>int (rne_shift m k) * 2 ^ k - int m\<bar> \<le> 2 ^ k"
proof -
  define q r p where "q = m div 2 ^ k" and "r = m mod 2 ^ k" and "p = (2::nat) ^ k"
  have m: "m = q * p + r" unfolding q_def r_def p_def by (rule div_mult_mod_eq [symmetric])
  have r: "r < p" by (simp add: r_def p_def)
  have e: "rne_shift m k = (if p < 2 * r \<or> (2 * r = p \<and> odd q) then q + 1 else q)"
    by (simp add: rne_shift_def Let_def q_def r_def p_def)
  have "2 * \<bar>int (rne_shift m k) * int p - int m\<bar> \<le> int p"
    unfolding e using r by (auto simp: m algebra_simps)
  then show ?thesis by (simp add: p_def)
qed

lemma rne_shift_le: "m < 2 ^ (k + n) \<Longrightarrow> rne_shift m k \<le> 2 ^ n"
proof -
  assume "m < 2 ^ (k + n)"
  then have "m div 2 ^ k < 2 ^ n"
    by (metis less_mult_imp_div_less mult.commute power_add)
  then show ?thesis by (simp add: rne_shift_def Let_def)
qed

lemma rne_shift_ge: "2 ^ (k + n) \<le> m \<Longrightarrow> 2 ^ n \<le> rne_shift m k"
proof -
  assume "2 ^ (k + n) \<le> m"
  then have "2 ^ n \<le> m div 2 ^ k"
    by (metis div_le_mono nonzero_mult_div_cancel_left power_add power_not_zero zero_neq_numeral)
  then show ?thesis by (simp add: rne_shift_def Let_def)
qed

text \<open>The rounded mantissa has at most 24 bits (or is \<open>2^24\<close>), and is normalised above the subnormals.\<close>

lemma round_mant_range:
  assumes "0 < m"
  shows "round_mant m e \<le> 2 ^ 24" and "-149 < ulp_exp m e \<Longrightarrow> 2 ^ 23 \<le> round_mant m e"
proof -
  let ?q = "ulp_exp m e"
  have b: "2 ^ (nbits m - 1) \<le> m" "m < 2 ^ nbits m" and p: "0 < nbits m"
    using nbits_bounds [OF assms] assms by (auto simp: nbits.simps [of m])
  have q: "e + int (nbits m) - 24 \<le> ?q" by (simp add: ulp_exp_def)
  show "round_mant m e \<le> 2 ^ 24"
  proof (cases "?q \<le> e")
    case True
    with q have "nbits m + nat (e - ?q) \<le> 24" by linarith
    then have "(2::nat) ^ (nbits m + nat (e - ?q)) \<le> 2 ^ 24" by (rule power_increasing) simp
    moreover have "m * 2 ^ nat (e - ?q) \<le> 2 ^ nbits m * 2 ^ nat (e - ?q)" using b by simp
    ultimately have "m * 2 ^ nat (e - ?q) \<le> 2 ^ 24" by (simp only: power_add)
    with True show ?thesis by (simp add: round_mant_def Let_def)
  next
    case False
    with q have "nbits m \<le> nat (?q - e) + 24" by linarith
    with b(2) have "m < 2 ^ (nat (?q - e) + 24)"
      by (meson order_less_le_trans power_increasing one_le_numeral)
    then have "rne_shift m (nat (?q - e)) \<le> 2 ^ 24" by (rule rne_shift_le)
    with False show ?thesis by (simp add: round_mant_def Let_def)
  qed
  assume "-149 < ?q"
  then have q: "?q = e + int (nbits m) - 24" by (simp add: ulp_exp_def split: if_splits)
  show "2 ^ 23 \<le> round_mant m e"
  proof (cases "?q \<le> e")
    case True
    with q p have "23 = (nbits m - 1) + nat (e - ?q)" by linarith
    then have "(2::nat) ^ 23 = 2 ^ (nbits m - 1) * 2 ^ nat (e - ?q)" by (metis power_add)
    also have "\<dots> \<le> m * 2 ^ nat (e - ?q)" using b by simp
    finally show ?thesis using True by (simp add: round_mant_def Let_def)
  next
    case False
    with q p have "nat (?q - e) + 23 = nbits m - 1" by linarith
    with b(1) have "2 ^ (nat (?q - e) + 23) \<le> m" by simp
    then have "2 ^ 23 \<le> rne_shift m (nat (?q - e))" by (rule rne_shift_ge)
    with False show ?thesis by (simp add: round_mant_def Let_def)
  qed
qed

lemma ulp_exp_ge: "-149 \<le> ulp_exp m e"
  by (simp add: ulp_exp_def)

lemma decode_mag:
  assumes "b < inf_bits"
  shows "decode (word_of_nat ((if s then 2 ^ 31 else 0) + b)) =
    (if b < 2 ^ 23 then FFin s b (-149)
     else FFin s (b mod 2 ^ 23 + 2 ^ 23) (int (b div 2 ^ 23) - 150))"
proof -
  let ?n = "(if s then 2 ^ 31 else 0) + b"
  have n: "unat (word_of_nat ?n :: f32) = ?n"
    by (rule unat_word_of_nat_small) (use assms in \<open>simp add: inf_bits_def\<close>)
  have s: "(2 ^ 31 \<le> ?n) = s" using assms by (simp add: inf_bits_def)
  have f: "?n mod 2 ^ 23 = b mod 2 ^ 23"
  proof (cases s)
    case True
    have "(2 ^ 31 + b) mod 2 ^ 23 = (256 * 2 ^ 23 + b) mod (2 ^ 23 :: nat)" by simp
    also have "\<dots> = b mod 2 ^ 23" by (simp only: mod_mult_self3)
    finally show ?thesis using True by simp
  qed simp
  have d: "b div 2 ^ 23 < 255" using assms by (simp add: inf_bits_def less_mult_imp_div_less)
  have e: "?n div 2 ^ 23 mod 256 = b div 2 ^ 23"
  proof (cases s)
    case True
    have "(2 ^ 31 + b) div 2 ^ 23 = (b + 256 * 2 ^ 23) div (2 ^ 23 :: nat)" by simp
    also have "\<dots> = 256 + b div 2 ^ 23" by (rule div_mult_self1) simp
    finally show ?thesis using True d by simp
  next
    case False
    with d show ?thesis by simp
  qed
  have z: "(b div 2 ^ 23 = 0) = (b < 2 ^ 23)" by (simp add: div_eq_0_iff)
  have "decode (word_of_nat ?n) =
    (if b div 2 ^ 23 = 255 then (if b mod 2 ^ 23 = 0 then FInf s else FNan)
     else if b div 2 ^ 23 = 0 then FFin s (b mod 2 ^ 23) (-149)
     else FFin s (b mod 2 ^ 23 + 2 ^ 23) (int (b div 2 ^ 23) - 150))"
    unfolding decode_def Let_def n s e f ..
  with d z show ?thesis by auto
qed

lemma f32_real_mag:
  assumes b: "j * 2 ^ 23 + M < inf_bits" and M: "M \<le> 2 ^ 24" and j: "0 < j \<Longrightarrow> 2 ^ 23 \<le> M"
  shows "f32_is_finite (word_of_nat ((if s then 2 ^ 31 else 0) + (j * 2 ^ 23 + M)))"
    and "f32_real (word_of_nat ((if s then 2 ^ 31 else 0) + (j * 2 ^ 23 + M))) =
      of_int (sgn_val s) * real M * 2 powi (int j - 149)"
proof -
  let ?b = "j * 2 ^ 23 + M"
  show "f32_is_finite (word_of_nat ((if s then 2 ^ 31 else 0) + ?b))"
    unfolding f32_is_finite_def decode_mag [OF b] by simp
  have r: "f32_real (word_of_nat ((if s then 2 ^ 31 else 0) + ?b)) = of_int (sgn_val s) *
      (if ?b < 2 ^ 23 then real ?b * 2 powi (-149)
       else real (?b mod 2 ^ 23 + 2 ^ 23) * 2 powi (int (?b div 2 ^ 23) - 150))"
    unfolding f32_real_def decode_mag [OF b] by simp
  consider "M < 2 ^ 23" | "2 ^ 23 \<le> M" "M < 2 ^ 24" | "M = 2 ^ 24" using M by linarith
  then show "f32_real (word_of_nat ((if s then 2 ^ 31 else 0) + ?b)) =
      of_int (sgn_val s) * real M * 2 powi (int j - 149)"
  proof cases
    case 1
    with j have "j = 0" by (cases j) auto
    with 1 show ?thesis by (subst r) simp
  next
    case 2
    define R where "R = M - 2 ^ 23"
    with 2 have "M = R + 2 ^ 23" and R: "R < 2 ^ 23" by simp_all
    then have eq: "?b = R + (j + 1) * 2 ^ 23" by (simp add: algebra_simps)
    have "?b div 2 ^ 23 = j + 1" "?b mod 2 ^ 23 = R"
      unfolding eq using R by (simp_all only: div_mult_self1 mod_mult_self1) simp_all
    moreover have "\<not> ?b < 2 ^ 23" using eq by simp
    ultimately show ?thesis using \<open>M = R + 2 ^ 23\<close> by (subst r) (simp add: algebra_simps)
  next
    case 3
    then have eq: "?b = 0 + (j + 2) * 2 ^ 23" by (simp add: algebra_simps)
    have "?b div 2 ^ 23 = j + 2" "?b mod 2 ^ 23 = 0"
      unfolding eq by (simp_all only: div_mult_self1 mod_mult_self1) simp_all
    moreover have "\<not> ?b < 2 ^ 23" using eq by simp
    moreover have "2 powi (int (j + 2) - 150) = 2 * (2::real) powi (int j - 149)"
      by (subst power_int_add [symmetric, of 2 1, simplified]) (simp_all add: algebra_simps)
    ultimately show ?thesis using 3 by (subst r) simp
  qed
qed

lemma round_bits_real:
  assumes m: "0 < m" and b: "nat (ulp_exp m e + 149) * 2 ^ 23 + round_mant m e < inf_bits"
  shows "f32_is_finite (round_bits s m e)"
    and "f32_real (round_bits s m e) =
      of_int (sgn_val s) * real (round_mant m e) * 2 powi ulp_exp m e"
proof -
  have r: "round_bits s m e = word_of_nat ((if s then 2 ^ 31 else 0) +
      (nat (ulp_exp m e + 149) * 2 ^ 23 + round_mant m e))"
    using m b by (simp add: round_bits_def round_mag_def)
  have j: "0 < nat (ulp_exp m e + 149) \<Longrightarrow> 2 ^ 23 \<le> round_mant m e"
    using round_mant_range(2) [OF m] by simp
  show "f32_is_finite (round_bits s m e)"
    unfolding r by (rule f32_real_mag(1) [OF b round_mant_range(1) [OF m] j])
  show "f32_real (round_bits s m e) =
      of_int (sgn_val s) * real (round_mant m e) * 2 powi ulp_exp m e"
    unfolding r using f32_real_mag(2) [OF b round_mant_range(1) [OF m] j, of s] ulp_exp_ge [of m e]
    by simp
qed

text \<open>Rounding moves a value by at most half a unit in the last place.\<close>

lemma round_error:
  "\<bar>real (round_mant m e) * 2 powi ulp_exp m e - real m * 2 powi e\<bar> \<le> 2 powi ulp_exp m e / 2"
proof -
  let ?q = "ulp_exp m e"
  show ?thesis
  proof (cases "?q \<le> e")
    case True
    then have "(2::real) powi e = 2 ^ nat (e - ?q) * 2 powi ?q"
      by (simp add: power_int_add [symmetric] flip: power_int_of_nat)
    with True show ?thesis by (simp add: round_mant_def Let_def)
  next
    case False
    define k where "k = nat (?q - e)"
    with False have q: "(2::real) powi ?q = 2 ^ k * 2 powi e"
      by (simp add: power_int_add [symmetric] flip: power_int_of_nat)
    have M: "round_mant m e = rne_shift m k" using False by (simp add: round_mant_def Let_def k_def)
    have "2 * \<bar>real (rne_shift m k) * 2 ^ k - real m\<bar> \<le> 2 ^ k"
      using rne_shift_error [of m k]
      by (simp only: flip: of_int_le_iff [where 'a = real]) simp
    then have "2 * \<bar>real (rne_shift m k) * 2 ^ k - real m\<bar> * 2 powi e \<le> 2 ^ k * 2 powi e"
      by (intro mult_right_mono) auto
    moreover have "\<bar>real (rne_shift m k) * (2 ^ k * 2 powi e) - real m * 2 powi e\<bar> =
        \<bar>real (rne_shift m k) * 2 ^ k - real m\<bar> * 2 powi e"
      by (simp add: abs_mult flip: left_diff_distrib mult.assoc)
    ultimately show ?thesis by (simp add: M q)
  qed
qed

text \<open>
  A value is representable when it is an integer below \<open>2^24\<close> times a power of two that
  is at least \<open>2^-149\<close>, and below the overflow threshold. Rounding does not change it.
\<close>

definition representable :: "real \<Rightarrow> bool" where
  "representable v = (\<exists>z p. \<bar>v\<bar> = real z * 2 powi p \<and> z < 2 ^ 24 \<and> -149 \<le> p \<and> \<bar>v\<bar> < 2 ^ 128)"

lemma representable_factor:
  assumes v: "real m * 2 powi e = real z * 2 powi p" and z: "z < 2 ^ 24" and p: "-149 \<le> p"
    and m: "0 < m"
  shows "\<exists>m' t. m = m' * 2 ^ t \<and> m' < 2 ^ 24 \<and> -149 \<le> e + int t"
proof (cases "e \<le> p")
  case True
  then have "(2::real) powi p = 2 ^ nat (p - e) * 2 powi e"
    by (simp add: power_int_add [symmetric] flip: power_int_of_nat)
  with v have "real m = real (z * 2 ^ nat (p - e))" by simp
  then have "m = z * 2 ^ nat (p - e)" by (simp only: of_nat_eq_iff)
  with True z p show ?thesis by (intro exI [of _ z] exI [of _ "nat (p - e)"]) simp
next
  case False
  then have "(2::real) powi e = 2 ^ nat (e - p) * 2 powi p"
    by (simp add: power_int_add [symmetric] flip: power_int_of_nat)
  with v have "real (m * 2 ^ nat (e - p)) = real z" by simp
  then have "m * 2 ^ nat (e - p) = z" by (simp only: of_nat_eq_iff)
  moreover have "m * 1 \<le> m * 2 ^ nat (e - p)" by (rule mult_le_mono2) simp
  ultimately have "m \<le> z" by simp
  with False z p show ?thesis by (intro exI [of _ m] exI [of _ 0]) simp
qed

lemma round_mant_exact:
  assumes "m = m' * 2 ^ t" and "m' < 2 ^ 24" and "-149 \<le> e + int t"
  shows "real (round_mant m e) * 2 powi ulp_exp m e = real m * 2 powi e"
proof (cases "ulp_exp m e \<le> e")
  case True
  then have "(2::real) powi e = 2 ^ nat (e - ulp_exp m e) * 2 powi ulp_exp m e"
    by (simp add: power_int_add [symmetric] flip: power_int_of_nat)
  with True show ?thesis by (simp add: round_mant_def Let_def)
next
  case False
  have "m < 2 ^ (24 + t)" using assms by (simp add: power_add)
  then have "nbits m \<le> 24 + t" by (rule nbits_leI)
  with assms(3) have "ulp_exp m e \<le> e + int t" by (simp add: ulp_exp_def)
  then have "nat (ulp_exp m e - e) \<le> t" by linarith
  then have d: "2 ^ nat (ulp_exp m e - e) dvd m"
    using assms(1) by (metis dvd_triv_right le_imp_power_dvd dvd_trans)
  have q: "(2::real) powi ulp_exp m e = 2 ^ nat (ulp_exp m e - e) * 2 powi e"
    using False by (simp add: power_int_add [symmetric] flip: power_int_of_nat)
  have "real (m div 2 ^ nat (ulp_exp m e - e)) * 2 ^ nat (ulp_exp m e - e) = real m"
    using d by (simp add: real_of_nat_div)
  with False d q show ?thesis
    by (simp add: round_mant_def Let_def rne_shift_exact flip: mult.assoc)
qed

lemma round_overflow:
  assumes "0 < m" and "inf_bits \<le> nat (ulp_exp m e + 149) * 2 ^ 23 + round_mant m e"
  shows "2 ^ 128 \<le> real (round_mant m e) * 2 powi ulp_exp m e"
proof -
  let ?q = "ulp_exp m e" and ?M = "round_mant m e"
  note M = round_mant_range [OF assms(1), of e]
  have "104 \<le> ?q" using assms(2) M(1) by (simp add: inf_bits_def)
  then have M2: "2 ^ 23 \<le> ?M" using M(2) by simp
  have "?M = 2 ^ 24 \<or> 105 \<le> ?q" using assms(2) M(1) by (simp add: inf_bits_def) linarith
  then show ?thesis
  proof
    assume h: "?M = 2 ^ 24"
    have "(2::real) powi 104 \<le> 2 powi ?q" using \<open>104 \<le> ?q\<close> by (intro power_int_increasing) auto
    with h show ?thesis by simp
  next
    assume h: "105 \<le> ?q"
    have "(2::real) powi 105 \<le> 2 powi ?q" using h by (intro power_int_increasing) auto
    then have "2 ^ 105 \<le> (2::real) powi ?q" by simp
    moreover have "(2::real) ^ 23 \<le> real ?M" using of_nat_mono [OF M2, where ?'a = real] by simp
    ultimately have "(2::real) ^ 23 * 2 ^ 105 \<le> real ?M * 2 powi ?q"
      by (intro mult_mono) auto
    then show ?thesis by simp
  qed
qed

theorem round_bits_exact:
  assumes "representable (real m * 2 powi e)"
  shows "f32_is_finite (round_bits s m e)"
    and "f32_real (round_bits s m e) = of_int (sgn_val s) * real m * 2 powi e"
proof -
  have "f32_is_finite (round_bits s m e) \<and>
      f32_real (round_bits s m e) = of_int (sgn_val s) * real m * 2 powi e"
  proof (cases "m = 0")
    case True
    then have r: "round_bits s m e = word_of_nat ((if s then 2 ^ 31 else 0) + (0 * 2 ^ 23 + 0))"
      by (simp add: round_bits_def round_mag_def)
    have i: "0 * 2 ^ 23 + 0 < inf_bits" by (simp add: inf_bits_def)
    show ?thesis unfolding r using f32_real_mag [OF i, of s] True by simp
  next
    case False
    then have m: "0 < m" by simp
    from assms obtain z p where "real m * 2 powi e = real z * 2 powi p" "z < 2 ^ 24" "-149 \<le> p"
      and big: "real m * 2 powi e < 2 ^ 128" by (auto simp: representable_def abs_mult)
    from representable_factor [OF this(1-3) m] obtain m' t where
      "m = m' * 2 ^ t" "m' < 2 ^ 24" "-149 \<le> e + int t" by blast
    from round_mant_exact [OF this]
    have x: "real (round_mant m e) * 2 powi ulp_exp m e = real m * 2 powi e" .
    with big round_overflow [OF m, of e]
    have "nat (ulp_exp m e + 149) * 2 ^ 23 + round_mant m e < inf_bits" by linarith
    from round_bits_real [OF m this, of s] x show ?thesis by (simp add: mult.assoc)
  qed
  then show "f32_is_finite (round_bits s m e)"
    and "f32_real (round_bits s m e) = of_int (sgn_val s) * real m * 2 powi e" by auto
qed

section \<open>Operations on representable results\<close>

lemma f32_finite_cases:
  assumes "f32_is_finite x"
  obtains s m e where "decode x = FFin s m e" and "f32_real x = of_int (sgn_val s) * real m * 2 powi e"
  using assms by (auto simp: f32_is_finite_def f32_real_def split: fdec.splits)

lemma sgn_val_mult: "of_int (sgn_val (s \<noteq> t)) = (of_int (sgn_val s) * of_int (sgn_val t) :: real)"
  by (simp add: sgn_val_def)

lemma abs_sgn_val [simp]: "\<bar>of_int (sgn_val s) :: real\<bar> = 1"
  by (simp add: sgn_val_def)

lemma representable_abs: "representable \<bar>v\<bar> = representable v"
  by (simp add: representable_def)

lemma f32_mul_comm: "f32_mul a b = f32_mul b a"
proof -
  have x: "(s \<noteq> t) = (t \<noteq> s)" for s t :: bool by auto
  show ?thesis
    by (cases "decode a"; cases "decode b")
      (simp_all only: f32_mul_def fdec.case prod.case mult.commute add.commute x)
qed

theorem f32_mul_exact:
  assumes "f32_is_finite a" and "f32_is_finite b" and r: "representable (f32_real a * f32_real b)"
  shows "f32_is_finite (f32_mul a b)" and "f32_real (f32_mul a b) = f32_real a * f32_real b"
proof -
  obtain s m e where a: "decode a = FFin s m e" "f32_real a = of_int (sgn_val s) * real m * 2 powi e"
    using assms(1) by (rule f32_finite_cases)
  obtain t n f where b: "decode b = FFin t n f" "f32_real b = of_int (sgn_val t) * real n * 2 powi f"
    using assms(2) by (rule f32_finite_cases)
  have p: "f32_real a * f32_real b =
      of_int (sgn_val (s \<noteq> t)) * real (m * n) * 2 powi (e + f)"
    unfolding a b sgn_val_mult by (simp add: power_int_add)
  have "\<bar>f32_real a * f32_real b\<bar> = real (m * n) * 2 powi (e + f)"
    unfolding p by (simp add: abs_mult)
  with r have "representable (real (m * n) * 2 powi (e + f))"
    by (metis representable_abs)
  from round_bits_exact [OF this, of "s \<noteq> t"]
  show "f32_is_finite (f32_mul a b)" and "f32_real (f32_mul a b) = f32_real a * f32_real b"
    unfolding p by (simp_all add: f32_mul_def a b)
qed

lemma scaled_real:
  "e0 \<le> e \<Longrightarrow> of_int (scaled s m e e0) * 2 powi e0 = (of_int (sgn_val s) * real m * 2 powi e :: real)"
proof -
  assume "e0 \<le> e"
  then have "(2::real) powi e = 2 ^ nat (e - e0) * 2 powi e0"
    by (simp add: power_int_add [symmetric] flip: power_int_of_nat)
  then show ?thesis by (simp add: scaled_def)
qed

lemma sgn_val_abs [simp]: "of_int (sgn_val (z < 0)) * \<bar>of_int z\<bar> = (of_int z :: real)"
  by (simp add: sgn_val_def)

theorem f32_add_exact:
  assumes "f32_is_finite a" and "f32_is_finite b" and r: "representable (f32_real a + f32_real b)"
  shows "f32_is_finite (f32_add a b)" and "f32_real (f32_add a b) = f32_real a + f32_real b"
proof -
  obtain s m e where a: "decode a = FFin s m e" "f32_real a = of_int (sgn_val s) * real m * 2 powi e"
    using assms(1) by (rule f32_finite_cases)
  obtain t n f where b: "decode b = FFin t n f" "f32_real b = of_int (sgn_val t) * real n * 2 powi f"
    using assms(2) by (rule f32_finite_cases)
  define e0 where "e0 = min e f"
  define z where "z = scaled s m e e0 + scaled t n f e0"
  have v: "f32_real a + f32_real b = of_int z * 2 powi e0"
    unfolding a b z_def using scaled_real [of e0 e s m] scaled_real [of e0 f t n]
    by (simp add: e0_def distrib_right)
  have "\<bar>f32_real a + f32_real b\<bar> = real (nat \<bar>z\<bar>) * 2 powi e0" by (simp add: v abs_mult)
  with r have r': "representable (real (nat \<bar>z\<bar>) * 2 powi e0)" by (metis representable_abs)
  have d: "f32_add a b =
      (if z = 0 then round_bits (s \<and> t) 0 0 else round_bits (z < 0) (nat \<bar>z\<bar>) e0)"
    by (simp add: f32_add_def a b Let_def e0_def z_def)
  show "f32_is_finite (f32_add a b)" and "f32_real (f32_add a b) = f32_real a + f32_real b"
    unfolding d v using round_bits_exact [OF r', of "z < 0"] round_bits_exact [of 0 0 "s \<and> t"]
    by (auto simp: representable_def sgn_val_abs intro: exI [of _ "0::nat"] exI [of _ "0::int"])
qed

lemma representable_of_int: "\<bar>z\<bar> < 2 ^ 24 \<Longrightarrow> representable (of_int z)"
proof -
  assume h: "\<bar>z\<bar> < 2 ^ 24"
  then have "\<bar>z\<bar> < 2 ^ 128" by (rule order_less_trans) simp
  then have "\<bar>real_of_int z\<bar> < 2 ^ 128" by (simp flip: of_int_abs)
  with h show ?thesis
    by (auto simp: representable_def intro!: exI [of _ "nat \<bar>z\<bar>"] exI [of _ "0::int"])
qed

lemma f32_of_int_exact:
  assumes "\<bar>z\<bar> < 2 ^ 24"
  shows "f32_is_finite (f32_of_int z)" and "f32_real (f32_of_int z) = of_int z"
proof -
  have "representable (real (nat \<bar>z\<bar>) * 2 powi 0)"
    using representable_of_int [OF assms] representable_abs [of "of_int z"] by simp
  from round_bits_exact [OF this, of "z < 0"]
  show "f32_is_finite (f32_of_int z)" and "f32_real (f32_of_int z) = of_int z"
    by (simp_all add: f32_of_int_def sgn_val_abs)
qed

section \<open>Rounding depends on the value only\<close>

text \<open>
  Two ways to write the same magnitude round to the same bits, so sums and products of
  small integers are bit for bit the floats of the integer results.
\<close>

lemma nbits_double: "0 < n \<Longrightarrow> nbits (2 * n) = Suc (nbits n)"
  by (subst nbits.simps) simp

lemma nbits_shift: "0 < n \<Longrightarrow> nbits (n * 2 ^ k) = nbits n + k"
proof (induction k)
  case (Suc k)
  then have "nbits (2 * (n * 2 ^ k)) = Suc (nbits n + k)" by (subst nbits_double) simp_all
  then show ?case by (simp add: algebra_simps)
qed simp

lemma rne_shift_scale: "k \<le> j \<Longrightarrow> rne_shift (n * 2 ^ k) j = rne_shift n (j - k)"
proof -
  assume "k \<le> j"
  then have j: "(2::nat) ^ j = 2 ^ k * 2 ^ (j - k)" by (simp flip: power_add)
  define a b where "a = (2::nat) ^ k" and "b = (2::nat) ^ (j - k)"
  have a: "0 < a" by (simp add: a_def)
  have ab: "2 ^ j = a * b" by (simp add: j a_def b_def)
  have d: "n * a div (a * b) = n div b" using a by (metis div_mult_mult1 mult.commute less_not_refl)
  have r: "n * a mod (a * b) = a * (n mod b)" by (subst mult.commute [of n a]) (rule mult_mod_right [symmetric])
  have c: "2 * (a * (n mod b)) = a * (2 * (n mod b))" by (rule mult.left_commute)
  have "(a * b < a * (2 * (n mod b))) = (b < 2 * (n mod b))"
    and "(a * (2 * (n mod b)) = a * b) = (2 * (n mod b) = b)" using a by simp_all
  then have "rne_shift (n * a) j = rne_shift n (j - k)"
    unfolding rne_shift_def Let_def ab b_def [symmetric] d r c by (simp only:)
  then show ?thesis by (simp add: a_def)
qed

lemma round_bits_scale: "round_bits s (n * 2 ^ k) e = round_bits s n (e + int k)"
proof (cases "n = 0")
  case False
  then have n: "0 < n" by simp
  have q: "ulp_exp (n * 2 ^ k) e = ulp_exp n (e + int k)"
    by (simp add: ulp_exp_def nbits_shift [OF n] algebra_simps)
  let ?q = "ulp_exp n (e + int k)"
  consider "?q \<le> e" | "e < ?q" "?q \<le> e + int k" | "e + int k < ?q" by linarith
  then have "round_mant (n * 2 ^ k) e = round_mant n (e + int k)"
  proof cases
    case 1
    then have "nat (e + int k - ?q) = k + nat (e - ?q)" by linarith
    with 1 show ?thesis by (simp add: round_mant_def Let_def q power_add)
  next
    case 2
    define j where "j = nat (?q - e)"
    with 2 have j: "j \<le> k" "nat (e + int k - ?q) = k - j" by linarith+
    then have "n * 2 ^ k = n * 2 ^ (k - j) * 2 ^ j" by (simp flip: power_add)
    then have "2 ^ j dvd n * 2 ^ k" by (metis dvd_triv_right)
    then have "rne_shift (n * 2 ^ k) j = n * 2 ^ k div 2 ^ j" by (rule rne_shift_exact)
    also have "\<dots> = n * 2 ^ (k - j)"
      by (subst \<open>n * 2 ^ k = n * 2 ^ (k - j) * 2 ^ j\<close>) simp
    finally have "rne_shift (n * 2 ^ k) j = n * 2 ^ (k - j)" .
    with 2 j show ?thesis by (simp add: round_mant_def Let_def q flip: j_def)
  next
    case 3
    then have "k \<le> nat (?q - e)" "nat (?q - e) - k = nat (?q - (e + int k))" by linarith+
    with 3 show ?thesis by (simp add: round_mant_def Let_def q rne_shift_scale)
  qed
  with q n show ?thesis by (simp add: round_bits_def round_mag_def)
qed (simp add: round_bits_def round_mag_def)

lemma round_bits_value:
  assumes "real m * 2 powi e = real n * 2 powi f"
  shows "round_bits s m e = round_bits s n f"
proof -
  have *: "round_bits s a c = round_bits s b d"
    if "c \<le> d" and v: "real a * 2 powi c = real b * 2 powi d" for a b c d
  proof -
    from that have "(2::real) powi d = 2 ^ nat (d - c) * 2 powi c"
      by (simp add: power_int_add [symmetric] flip: power_int_of_nat)
    with v have "real a = real (b * 2 ^ nat (d - c))" by simp
    then have "a = b * 2 ^ nat (d - c)" by (simp only: of_nat_eq_iff)
    with that round_bits_scale [of s b "nat (d - c)" c] show ?thesis by simp
  qed
  show ?thesis
    using *[of e f m n] *[of f e n m] assms by (cases "e \<le> f") auto
qed

lemma f32_of_int_decode:
  assumes "\<bar>a\<bar> < 2 ^ 24"
  obtains s m e where "decode (f32_of_int a) = FFin s m e"
    and "of_int (sgn_val s) * real m * 2 powi e = of_int a" and "a = 0 \<Longrightarrow> \<not> s"
proof -
  obtain s m e where d: "decode (f32_of_int a) = FFin s m e"
    "f32_real (f32_of_int a) = of_int (sgn_val s) * real m * 2 powi e"
    using f32_of_int_exact(1) [OF assms] by (rule f32_finite_cases)
  moreover have "\<not> s" if "a = 0"
    using d(1) that by (simp add: f32_of_int_def round_bits_def round_mag_def decode_def)
  ultimately show ?thesis using that f32_of_int_exact(2) [OF assms] by metis
qed

theorem f32_add_of_int:
  assumes "\<bar>a\<bar> < 2 ^ 24" and "\<bar>b\<bar> < 2 ^ 24"
  shows "f32_add (f32_of_int a) (f32_of_int b) = f32_of_int (a + b)"
proof -
  obtain s m e where a: "decode (f32_of_int a) = FFin s m e"
    "of_int (sgn_val s) * real m * 2 powi e = of_int a" "a = 0 \<Longrightarrow> \<not> s"
    using f32_of_int_decode [OF assms(1)] by blast
  obtain t n f where b: "decode (f32_of_int b) = FFin t n f"
    "of_int (sgn_val t) * real n * 2 powi f = of_int b" "b = 0 \<Longrightarrow> \<not> t"
    using f32_of_int_decode [OF assms(2)] by blast
  define e0 where "e0 = min e f"
  define z where "z = scaled s m e e0 + scaled t n f e0"
  have v: "of_int z * (2::real) powi e0 = of_int (a + b)"
    unfolding z_def using scaled_real [of e0 e s m] scaled_real [of e0 f t n] a b
    by (simp add: e0_def distrib_right)
  have p: "0 < (2::real) powi e0" by simp
  have z0: "(z = 0) = (a + b = 0)"
    using v p by (metis mult_eq_0_iff of_int_0_eq_iff order_less_irrefl)
  have zs: "(z < 0) = (a + b < 0)"
    using v p by (metis mult_less_0_iff of_int_less_0_iff order_less_asym)
  have "real (nat \<bar>z\<bar>) * 2 powi e0 = real (nat \<bar>a + b\<bar>) * 2 powi 0"
    using arg_cong [OF v, of abs] by (simp add: abs_mult)
  then have r: "round_bits (a + b < 0) (nat \<bar>z\<bar>) e0 = round_bits (a + b < 0) (nat \<bar>a + b\<bar>) 0"
    by (rule round_bits_value)
  have st: "\<not> (s \<and> t)" if "a + b = 0"
  proof
    assume "s \<and> t"
    then have "of_int a \<le> (0::real)" "of_int b \<le> (0::real)"
      unfolding a(2) [symmetric] b(2) [symmetric] by (simp_all add: sgn_val_def)
    with that have "a = 0" by simp
    with a(3) \<open>s \<and> t\<close> show False by simp
  qed
  have "f32_add (f32_of_int a) (f32_of_int b) =
      (if z = 0 then round_bits (s \<and> t) 0 0 else round_bits (z < 0) (nat \<bar>z\<bar>) e0)"
    by (simp only: f32_add_def a(1) b(1) prod.case fdec.case Let_def e0_def z_def)
  also have "\<dots> = round_bits (a + b < 0) (nat \<bar>a + b\<bar>) 0"
  proof (cases "a + b = 0")
    case True
    with z0 st have "z = 0" and "(s \<and> t) = False" by blast+
    with True show ?thesis by (simp only:) simp
  next
    case False
    with z0 r zs show ?thesis by (simp only:) simp
  qed
  finally show ?thesis by (simp only: f32_of_int_def)
qed

lemma f32_neg_of_int: "0 < b \<Longrightarrow> f32_neg (f32_of_int b) = f32_of_int (- b)"
proof -
  assume "0 < b"
  then show ?thesis by (simp add: f32_neg_def f32_of_int_def round_bits_def)
qed

lemma f32_sub_of_int:
  assumes "\<bar>a\<bar> < 2 ^ 24" and "0 < b" and "b < 2 ^ 24"
  shows "f32_sub (f32_of_int a) (f32_of_int b) = f32_of_int (a - b)"
  using f32_add_of_int [of a "- b"] assms by (simp add: f32_sub_def f32_neg_of_int)

text \<open>A product of natural numbers (no signed zero can arise).\<close>

lemma f32_mul_of_nat:
  assumes "a < 2 ^ 24" and "b < 2 ^ 24"
  shows "f32_mul (f32_of_int (int a)) (f32_of_int (int b)) = f32_of_int (int (a * b))"
proof -
  have a': "\<bar>int a\<bar> < 2 ^ 24" and b': "\<bar>int b\<bar> < 2 ^ 24" using assms by auto
  obtain s m e where a: "decode (f32_of_int (int a)) = FFin s m e"
    "of_int (sgn_val s) * real m * 2 powi e = of_int (int a)" "int a = 0 \<Longrightarrow> \<not> s"
    using f32_of_int_decode [OF a'] by blast
  obtain t n f where b: "decode (f32_of_int (int b)) = FFin t n f"
    "of_int (sgn_val t) * real n * 2 powi f = of_int (int b)" "int b = 0 \<Longrightarrow> \<not> t"
    using f32_of_int_decode [OF b'] by blast
  have pos: "\<not> s'" if "of_int (sgn_val s') * real m' * 2 powi e' = real c" "int c = 0 \<Longrightarrow> \<not> s'"
    for s' m' e' c
  proof
    assume "s'"
    with that(2) have "0 < real c" by (cases c) auto
    moreover have "of_int (sgn_val s') * real m' * 2 powi e' \<le> 0" using \<open>s'\<close> by (simp add: sgn_val_def)
    ultimately show False using that(1) by linarith
  qed
  have st: "\<not> s" "\<not> t" using pos [of s m e a] pos [of t n f b] a b by auto
  have "real (m * n) * 2 powi (e + f) = (real m * 2 powi e) * (real n * 2 powi f)"
    by (simp add: power_int_add)
  also have "\<dots> = real (a * b) * 2 powi 0" using a(2) b(2) st by (simp add: sgn_val_def)
  finally have "round_bits False (m * n) (e + f) = round_bits False (a * b) 0" by (rule round_bits_value)
  moreover have "f32_mul (f32_of_int (int a)) (f32_of_int (int b)) = round_bits False (m * n) (e + f)"
    using st by (simp only: f32_mul_def a b prod.case fdec.case) simp
  moreover have "f32_of_int (int (a * b)) = round_bits False (a * b) 0"
    unfolding f32_of_int_def by (simp only: of_nat_less_0_iff abs_of_nat nat_int)
  ultimately show ?thesis by (simp only:)
qed

end
