(* ===== verification/Errors.thy ===== *)
theory Errors
  imports Float32
begin

text \<open>
  \<open>LibshimmyError\<close> (src/src/core/error.rs): the error values of the core. Messages the
  code formats from integers and names are modelled as the very string; the three messages
  that print floats keep the printed values instead (\<open>dequant_reason\<close>), because float
  formatting is not modelled. The variants that wrap an I/O, JSON or validation error
  belong to code outside the model.
\<close>

datatype dequant_reason =
    Reason_Text string
  | Reason_Block nat dequant_reason          \<comment> \<open>\<open>block_idx={}: {}\<close>\<close>
  | Reason_NonFinite_Scale f32 f32           \<comment> \<open>\<open>non-finite d/dmin: d={} dmin={}\<close>\<close>
  | Reason_NonFinite_Element nat f32         \<comment> \<open>\<open>non-finite value at element_idx={} value={}\<close>\<close>

datatype lib_error =
    Unsupported string
  | InvariantViolation string
  | InvalidModelSpec string string string
  | MissingTensor string
  | ShapeMismatch string "nat list" "nat list"
  | QuantUnsupported string nat string
  | TensorBounds string nat string nat nat
  | FixtureError string
  | WeightMissing string
  | GgmlTypeError nat string
  | DequantizationError string nat string dequant_reason

type_synonym 'a lib_res = "(lib_error, 'a) res"

end
