(* ===== verification/Tensor.thy ===== *)
theory Tensor
  imports Errors
begin

text \<open>
  src/src/core/tensor.rs: a dense tensor is flat \<open>f32\<close> data with a shape. Construction
  checks the length against the product of the dimensions; \<open>get_nd\<close> walks the indices
  from the last dimension to the first, accumulating the stride.
\<close>

record tensor =
  t_data :: "f32 list"
  t_shape :: "nat list"

definition tensor_new :: "f32 list \<Rightarrow> nat list \<Rightarrow> tensor lib_res" where
  "tensor_new data shape =
     (let expected_len = usize_product shape in
      if length data \<noteq> expected_len
      then Err (ShapeMismatch ''new_tensor'' [expected_len] [length data])
      else Ok \<lparr>t_data = data, t_shape = shape\<rparr>)"

definition tensor_filled :: "f32 \<Rightarrow> nat list \<Rightarrow> tensor" where
  "tensor_filled v shape = \<lparr>t_data = replicate (usize_product shape) v, t_shape = shape\<rparr>"

definition f32_zero :: f32 where "f32_zero = 0"

definition tensor_zeros :: "nat list \<Rightarrow> tensor" where
  "tensor_zeros shape = tensor_filled f32_zero shape"

definition tensor_ones :: "nat list \<Rightarrow> tensor" where
  "tensor_ones shape = tensor_filled f32_one shape"

definition tensor_len :: "tensor \<Rightarrow> nat" where
  "tensor_len t = length (t_data t)"

definition tensor_is_empty :: "tensor \<Rightarrow> bool" where
  "tensor_is_empty t = (t_data t = [])"

definition tensor_ndim :: "tensor \<Rightarrow> nat" where
  "tensor_ndim t = length (t_shape t)"

definition tensor_get :: "tensor \<Rightarrow> nat \<Rightarrow> f32 option" where
  "tensor_get t i = (if i < length (t_data t) then Some (t_data t ! i) else None)"

text \<open>The loop body of \<open>nd_to_flat_index\<close>, on the state \<open>(flat_index, stride)\<close>.\<close>

definition flat_step :: "nat list \<Rightarrow> nat \<times> nat \<Rightarrow> nat \<times> nat \<Rightarrow> (nat \<times> nat) lib_res" where
  "flat_step shape = (\<lambda>(i, ix) (flat, stride).
     and_then (idx shape i) (\<lambda>d.
       if d \<le> ix
       then Err (Unsupported (''Index '' @ dec ix @ '' >= shape '' @ dec d @ '' at dimension '' @ dec i))
       else Ok (wadd flat (wmul ix stride), wmul stride d)))"

definition nd_to_flat_index :: "tensor \<Rightarrow> nat list \<Rightarrow> nat lib_res" where
  "nd_to_flat_index t indices =
     and_then (fold_res (flat_step (t_shape t)) (rev (enumerate 0 indices)) (0, 1))
       (\<lambda>(flat, _). Ok flat)"

definition tensor_get_nd :: "tensor \<Rightarrow> nat list \<Rightarrow> f32 lib_res" where
  "tensor_get_nd t indices =
     (if length indices \<noteq> length (t_shape t)
      then Err (ShapeMismatch ''index'' [length (t_shape t)] [length indices])
      else and_then (nd_to_flat_index t indices) (\<lambda>flat.
        ok_or (tensor_get t flat) (Unsupported (''Index '' @ dec flat @ '' out of bounds''))))"

definition validate_shape_eq :: "tensor \<Rightarrow> tensor \<Rightarrow> unit lib_res" where
  "validate_shape_eq t u =
     (if t_shape t \<noteq> t_shape u
      then Err (ShapeMismatch ''shape_validation'' (t_shape t) (t_shape u)) else Ok ())"

section \<open>The flat index is the row-major index\<close>

text \<open>A tensor built by the checked constructor, whose element count does not wrap.\<close>

definition wf_tensor :: "tensor \<Rightarrow> bool" where
  "wf_tensor t = (prod_list (t_shape t) < u64_range \<and> length (t_data t) = prod_list (t_shape t))"

fun row_major :: "nat list \<Rightarrow> nat list \<Rightarrow> nat" where
  "row_major (d # ds) (i # is) = i * prod_list ds + row_major ds is"
| "row_major _ _ = 0"

lemma tensor_new_Ok: "(tensor_new d s = Ok t) = (t = \<lparr>t_data = d, t_shape = s\<rparr> \<and> length d = usize_product s)"
  by (auto simp: tensor_new_def Let_def)

lemma tensor_new_wf: "tensor_new d s = Ok t \<Longrightarrow> prod_list s < u64_range \<Longrightarrow> wf_tensor t"
  by (simp add: tensor_new_Ok wf_tensor_def usize_product_small)

lemma row_major_bound:
  "list_all2 (<) is ds \<Longrightarrow> row_major ds is < prod_list ds"
proof (induction "is" ds rule: list_all2_induct)
  case (Cons i "is" d ds)
  then have "i * prod_list ds + row_major ds is < Suc i * prod_list ds" by simp
  also have "\<dots> \<le> d * prod_list ds" using Cons.hyps by (intro mult_le_mono1) simp
  finally show ?case by simp
qed simp

lemma row_major_inject:
  "list_all2 (<) is ds \<Longrightarrow> list_all2 (<) js ds \<Longrightarrow> row_major ds is = row_major ds js \<Longrightarrow> is = js"
proof (induction "is" ds arbitrary: js rule: list_all2_induct)
  case (Cons i "is" d ds)
  then obtain j ks where js: "js = j # ks" "list_all2 (<) ks ds" by (auto simp: list_all2_Cons2)
  let ?P = "prod_list ds"
  note b = row_major_bound [OF Cons.hyps(2)] row_major_bound [OF js(2)]
  have eq: "i * ?P + row_major ds is = j * ?P + row_major ds ks" using Cons.prems(2) js by simp
  have "(i * ?P + row_major ds is) div ?P = i" "(j * ?P + row_major ds ks) div ?P = j"
    using b by simp_all
  with eq have "i = j" by metis
  with eq have "row_major ds is = row_major ds ks" by simp
  with Cons.IH js \<open>i = j\<close> show ?case by simp
qed simp

lemma flat_fold:
  assumes "length is = length ds" and "length pre = n"
  shows "if list_all2 (<) is ds
    then fold_res (flat_step (pre @ ds)) (rev (enumerate n is)) (0, 1) =
      Ok (row_major ds is mod u64_range, prod_list ds mod u64_range)
    else \<exists>msg. fold_res (flat_step (pre @ ds)) (rev (enumerate n is)) (0, 1) = Err (Unsupported msg)"
  using assms
proof (induction "is" ds arbitrary: pre n rule: list_induct2)
  case Nil
  have "1 mod u64_range = 1" by (rule mod_less) simp
  then show ?case by simp
next
  case (Cons i "is" d ds)
  let ?run = "fold_res (flat_step ((pre @ [d]) @ ds)) (rev (enumerate (Suc n) is)) (0, 1)"
  have run: "fold_res (flat_step (pre @ d # ds)) (rev (enumerate n (i # is))) (0, 1) =
      and_then ?run (flat_step (pre @ d # ds) (n, i))"
    by (simp add: fold_res_append fold_res_single)
  have at: "idx (pre @ d # ds) n = Ok d" using Cons.prems by (auto simp: idx_def nth_append)
  have IH: "if list_all2 (<) is ds
    then ?run = Ok (row_major ds is mod u64_range, prod_list ds mod u64_range)
    else \<exists>msg. ?run = Err (Unsupported msg)"
    by (rule Cons.IH) (use Cons.prems in simp)
  show ?case
  proof (cases "list_all2 (<) is ds")
    case False
    with IH show ?thesis unfolding run by auto
  next
    case True
    have w: "wadd (row_major ds is mod u64_range) (wmul i (prod_list ds mod u64_range)) =
        (i * prod_list ds + row_major ds is) mod u64_range"
      by (simp add: wadd_def wmul_def mod_simps add.commute)
    have p: "wmul (prod_list ds mod u64_range) d = d * prod_list ds mod u64_range"
      by (simp add: wmul_def mod_simps mult.commute)
    from True IH show ?thesis unfolding run by (auto simp: flat_step_def at w p)
  qed
qed

lemma nd_to_flat_index_eq:
  assumes "length indices = length (t_shape t)" and "prod_list (t_shape t) < u64_range"
  shows "if list_all2 (<) indices (t_shape t)
    then nd_to_flat_index t indices = Ok (row_major (t_shape t) indices)
    else \<exists>msg. nd_to_flat_index t indices = Err (Unsupported msg)"
proof -
  have "row_major (t_shape t) indices mod u64_range = row_major (t_shape t) indices"
    if "list_all2 (<) indices (t_shape t)"
    using row_major_bound [OF that] assms(2) by simp
  with flat_fold [of indices "t_shape t" "[]" 0] assms(1) show ?thesis
    by (auto simp: nd_to_flat_index_def)
qed

lemma get_nd_eq:
  assumes "wf_tensor t"
  shows "length indices = length (t_shape t) \<Longrightarrow> list_all2 (<) indices (t_shape t) \<Longrightarrow>
      tensor_get_nd t indices = Ok (t_data t ! row_major (t_shape t) indices)"
    and "\<not> list_all2 (<) indices (t_shape t) \<Longrightarrow> \<exists>e. tensor_get_nd t indices = Err e"
proof -
  assume l: "length indices = length (t_shape t)" and a: "list_all2 (<) indices (t_shape t)"
  have "row_major (t_shape t) indices < length (t_data t)"
    using row_major_bound [OF a] assms by (simp add: wf_tensor_def)
  with l a nd_to_flat_index_eq [OF l] assms
  show "tensor_get_nd t indices = Ok (t_data t ! row_major (t_shape t) indices)"
    by (simp add: tensor_get_nd_def tensor_get_def wf_tensor_def ok_or_def)
next
  assume "\<not> list_all2 (<) indices (t_shape t)"
  with nd_to_flat_index_eq [of indices t] assms
  show "\<exists>e. tensor_get_nd t indices = Err e"
    by (cases "length indices = length (t_shape t)")
      (auto simp: tensor_get_nd_def wf_tensor_def)
qed

text \<open>
  C29: Indexing a well-formed tensor by a list of coordinates succeeds exactly when there is
  one coordinate per dimension and each is below its dimension; it then returns the element
  at the row-major position, and two different coordinate lists never share a position.
\<close>

theorem get_nd_row_major:
  assumes "wf_tensor t"
  shows "is_ok (tensor_get_nd t is) = list_all2 (<) is (t_shape t) \<and>
    (list_all2 (<) is (t_shape t) \<longrightarrow>
      tensor_get_nd t is = Ok (t_data t ! row_major (t_shape t) is)) \<and>
    (list_all2 (<) is (t_shape t) \<and> list_all2 (<) js (t_shape t) \<and> is \<noteq> js \<longrightarrow>
      row_major (t_shape t) is \<noteq> row_major (t_shape t) js)"
proof (cases "list_all2 (<) is (t_shape t)")
  case True
  with get_nd_eq(1) [OF assms list_all2_lengthD [OF True] True] row_major_inject [OF True, of js]
  show ?thesis by auto
next
  case False
  with get_nd_eq(2) [OF assms False] show ?thesis by auto
qed

theorem get_nd_row_major_witness:
  "tensor_get_nd \<lparr>t_data = [1, 2, 3, 4, 5, 6], t_shape = [2, 3]\<rparr> [1, 2] = Ok 6 \<and>
   row_major [2, 3] [1, 2] \<noteq> row_major [2, 3] [0, 1]"
proof -
  have "wf_tensor \<lparr>t_data = [1, 2, 3, 4, 5, 6], t_shape = [2, 3]\<rparr>"
    by (simp add: wf_tensor_def u64_range_def)
  from get_nd_row_major [OF this, of "[1, 2]" "[0, 1]"] show ?thesis by simp
qed

end
