(* ===== verification/Kv_Cache.thy ===== *)
theory Kv_Cache
  imports Tensor
begin

text \<open>
  src/src/runtime/kvcache.rs: the key-value cache of the CPU path, one key and one value
  tensor per layer, written row by row and read back as the prefix of \<open>current_len\<close> rows.
  Every error return of the code precedes the first store, so an operation is a function
  to the new cache or an error that leaves the old one.
\<close>

record kv_snapshot =
  ks_len :: nat
  ks_version :: nat

definition kv_snapshot_empty :: kv_snapshot where
  "kv_snapshot_empty = \<lparr>ks_len = 0, ks_version = 0\<rparr>"

record kv_cache =
  kc_key :: "tensor list"
  kc_value :: "tensor list"
  kc_current_len :: nat
  kc_max_seq_len :: nat
  kc_n_layer :: nat
  kc_n_head_kv :: nat
  kc_head_dim :: nat
  kc_snapshot :: kv_snapshot

definition kv_new :: "nat \<Rightarrow> nat \<Rightarrow> nat \<Rightarrow> nat \<Rightarrow> kv_cache" where
  "kv_new max_seq_len n_layer n_head_kv head_dim =
     \<lparr>kc_key = replicate n_layer (tensor_zeros [max_seq_len, n_head_kv, head_dim]),
      kc_value = replicate n_layer (tensor_zeros [max_seq_len, n_head_kv, head_dim]),
      kc_current_len = 0, kc_max_seq_len = max_seq_len, kc_n_layer = n_layer,
      kc_n_head_kv = n_head_kv, kc_head_dim = head_dim, kc_snapshot = kv_snapshot_empty\<rparr>"

definition kv_reset :: "kv_cache \<Rightarrow> kv_cache" where
  "kv_reset c = c\<lparr>kc_current_len := 0, kc_snapshot := kv_snapshot_empty\<rparr>"

definition kv_is_empty :: "kv_cache \<Rightarrow> bool" where
  "kv_is_empty c = (kc_current_len c = 0)"

definition kv_is_full :: "kv_cache \<Rightarrow> bool" where
  "kv_is_full c = (kc_max_seq_len c \<le> kc_current_len c)"

definition kv_remaining_capacity :: "kv_cache \<Rightarrow> nat" where
  "kv_remaining_capacity c = kc_max_seq_len c - kc_current_len c"

section \<open>Validation\<close>

definition validate_layer :: "kv_cache \<Rightarrow> nat \<Rightarrow> unit lib_res" where
  "validate_layer c layer =
     (if kc_n_layer c \<le> layer
      then Err (Unsupported (''Layer '' @ dec layer @ '' >= n_layer '' @ dec (kc_n_layer c)))
      else Ok ())"

definition validate_kv_shapes :: "kv_cache \<Rightarrow> tensor \<Rightarrow> tensor \<Rightarrow> unit lib_res" where
  "validate_kv_shapes c k v =
     (if t_shape k \<noteq> t_shape v then Err (ShapeMismatch ''kv_shapes'' (t_shape k) (t_shape v))
      else if tensor_ndim k \<noteq> 3 then Err (ShapeMismatch ''kv_ndim'' [3] [tensor_ndim k])
      else if tl (t_shape k) \<noteq> [kc_n_head_kv c, kc_head_dim c]
        then Err (ShapeMismatch ''kv_head_dims'' [kc_n_head_kv c, kc_head_dim c] (tl (t_shape k)))
      else Ok ())"

section \<open>Copying rows\<close>

definition head_size :: "kv_cache \<Rightarrow> nat" where
  "head_size c = wmul (kc_n_head_kv c) (kc_head_dim c)"

text \<open>\<open>dst[j] = v\<close>, a panic out of range\<close>

definition store :: "'a list \<Rightarrow> nat \<Rightarrow> 'a \<Rightarrow> ('e, 'a list) res" where
  "store xs j v = (if j < length xs then Ok (xs[j := v]) else Panic)"

text \<open>\<open>for i in 0..head_size { dst[dst_offset + i] = src[src_offset + i] }\<close>\<close>

definition copy_row :: "f32 list \<Rightarrow> nat \<Rightarrow> nat \<Rightarrow> nat \<Rightarrow> f32 list \<Rightarrow> f32 list lib_res" where
  "copy_row src src_offset dst_offset n dst =
     fold_res (\<lambda>i d. and_then (idx src (wadd src_offset i)) (\<lambda>v. store d (wadd dst_offset i) v)) [0..<n] dst"

definition copy_token :: "nat \<Rightarrow> tensor \<Rightarrow> tensor \<Rightarrow> nat \<Rightarrow> nat \<Rightarrow> kv_cache \<Rightarrow> kv_cache lib_res" where
  "copy_token layer k v start_pos seq_idx c =
     (let cache_pos = wadd start_pos seq_idx;
          src_offset = wmul seq_idx (head_size c);
          dst_offset = wmul cache_pos (head_size c) in
      and_then (idx (kc_key c) layer) (\<lambda>kt.
      and_then (copy_row (t_data k) src_offset dst_offset (head_size c) (t_data kt)) (\<lambda>kd.
      and_then (idx (kc_value c) layer) (\<lambda>vt.
      and_then (copy_row (t_data v) src_offset dst_offset (head_size c) (t_data vt)) (\<lambda>vd.
        Ok (c\<lparr>kc_key := (kc_key c)[layer := kt\<lparr>t_data := kd\<rparr>],
              kc_value := (kc_value c)[layer := vt\<lparr>t_data := vd\<rparr>]\<rparr>))))))"

definition copy_to_cache :: "nat \<Rightarrow> tensor \<Rightarrow> tensor \<Rightarrow> nat \<Rightarrow> nat \<Rightarrow> kv_cache \<Rightarrow> kv_cache lib_res" where
  "copy_to_cache layer k v start_pos seq_len c =
     fold_res (copy_token layer k v start_pos) [0..<seq_len] c"

definition extract_cache_data :: "kv_cache \<Rightarrow> tensor \<Rightarrow> nat \<Rightarrow> f32 list lib_res" where
  "extract_cache_data c t len =
     (let total_size = wmul len (head_size c) in
      if length (t_data t) < total_size
      then Err (Unsupported (''Extract size '' @ dec total_size @ '' > cache size '' @ dec (length (t_data t))))
      else Ok (take total_size (t_data t)))"

section \<open>Operations\<close>

definition prefill_layer :: "nat \<Rightarrow> tensor \<Rightarrow> tensor \<Rightarrow> kv_cache \<Rightarrow> kv_cache lib_res" where
  "prefill_layer layer k v c =
     and_then (validate_layer c layer) (\<lambda>_.
     and_then (validate_kv_shapes c k v) (\<lambda>_.
     and_then (idx (t_shape k) 0) (\<lambda>seq_len.
       if kc_max_seq_len c < wadd (kc_current_len c) seq_len
       then Err (Unsupported (''Cannot prefill '' @ dec seq_len @ '' tokens: would exceed max_seq_len '' @
              dec (kc_max_seq_len c) @ '' (current: '' @ dec (kc_current_len c) @ '')''))
       else copy_to_cache layer k v (kc_current_len c) seq_len c)))"

definition set_len :: "nat \<Rightarrow> kv_cache \<Rightarrow> kv_cache" where
  "set_len n c = c\<lparr>kc_current_len := n, kc_snapshot := \<lparr>ks_len = n, ks_version = n\<rparr>\<rparr>"

definition complete_prefill :: "nat \<Rightarrow> kv_cache \<Rightarrow> kv_cache lib_res" where
  "complete_prefill seq_len c =
     (if kc_max_seq_len c < wadd (kc_current_len c) seq_len
      then Err (Unsupported (''Prefill would exceed capacity: '' @ dec (kc_current_len c) @ '' + '' @
             dec seq_len @ '' > '' @ dec (kc_max_seq_len c)))
      else Ok (set_len (wadd (kc_current_len c) seq_len) c))"

definition append_layer :: "nat \<Rightarrow> tensor \<Rightarrow> tensor \<Rightarrow> kv_cache \<Rightarrow> kv_cache lib_res" where
  "append_layer layer k v c =
     and_then (validate_layer c layer) (\<lambda>_.
     and_then (validate_kv_shapes c k v) (\<lambda>_.
     and_then (idx (t_shape k) 0) (\<lambda>seq_len.
       if seq_len \<noteq> 1
       then Err (ShapeMismatch ''decode_k_state'' [1, kc_n_head_kv c, kc_head_dim c] (t_shape k))
       else if kv_is_full c then Err (Unsupported ''KV cache is full, cannot append more tokens'')
       else copy_to_cache layer k v (kc_current_len c) 1 c)))"

definition complete_decode :: "kv_cache \<Rightarrow> kv_cache lib_res" where
  "complete_decode c =
     (if kv_is_full c then Err (Unsupported ''Cannot complete decode: cache is full'')
      else Ok (set_len (wadd (kc_current_len c) 1) c))"

definition get_layer_cache :: "nat \<Rightarrow> kv_cache \<Rightarrow> (tensor \<times> tensor) lib_res" where
  "get_layer_cache layer c =
     and_then (validate_layer c layer) (\<lambda>_.
       if kc_current_len c = 0
       then Ok (tensor_zeros [0, kc_n_head_kv c, kc_head_dim c], tensor_zeros [0, kc_n_head_kv c, kc_head_dim c])
       else
         and_then (idx (kc_key c) layer) (\<lambda>kt.
         and_then (extract_cache_data c kt (kc_current_len c)) (\<lambda>kd.
         and_then (idx (kc_value c) layer) (\<lambda>vt.
         and_then (extract_cache_data c vt (kc_current_len c)) (\<lambda>vd.
         and_then (tensor_new kd [kc_current_len c, kc_n_head_kv c, kc_head_dim c]) (\<lambda>k.
         and_then (tensor_new vd [kc_current_len c, kc_n_head_kv c, kc_head_dim c]) (\<lambda>v.
           Ok (k, v))))))))"

text \<open>\<open>truncate\<close> sets the length and leaves the snapshot as it is.\<close>

definition kv_truncate :: "nat \<Rightarrow> kv_cache \<Rightarrow> kv_cache lib_res" where
  "kv_truncate new_len c =
     (if kc_current_len c < new_len
      then Err (Unsupported (''Cannot truncate to '' @ dec new_len @ '' > current length '' @ dec (kc_current_len c)))
      else Ok (c\<lparr>kc_current_len := new_len\<rparr>))"

section \<open>What the copy loops compute\<close>

text \<open>\<open>xs\<close> with \<open>ys\<close> written over it from position \<open>off\<close>.\<close>

definition overwrite :: "'a list \<Rightarrow> nat \<Rightarrow> 'a list \<Rightarrow> 'a list" where
  "overwrite xs off ys = take off xs @ ys @ drop (off + length ys) xs"

lemma length_overwrite [simp]: "off + length ys \<le> length xs \<Longrightarrow> length (overwrite xs off ys) = length xs"
  by (simp add: overwrite_def)

lemma overwrite_Nil [simp]: "overwrite xs off [] = xs"
  by (simp add: overwrite_def)

lemma overwrite_append:
  "off + length ys + length zs \<le> length xs \<Longrightarrow>
   overwrite (overwrite xs off ys) (off + length ys) zs = overwrite xs off (ys @ zs)"
  by (simp add: overwrite_def ac_simps)

lemma overwrite_single: "off < length xs \<Longrightarrow> overwrite xs off [v] = xs[off := v]"
  by (simp add: overwrite_def upd_conv_take_nth_drop)

lemma take_overwrite: "off + length ys \<le> length xs \<Longrightarrow> take (off + length ys) (overwrite xs off ys) = take off xs @ ys"
  by (simp add: overwrite_def)

lemma take_overwrite_before: "n \<le> off \<Longrightarrow> off \<le> length xs \<Longrightarrow> take n (overwrite xs off ys) = take n xs"
  by (simp add: overwrite_def min_def)

lemma copy_row_eq:
  assumes "src_offset + n \<le> length src" "dst_offset + n \<le> length dst"
    and "length src < u64_range" "length dst < u64_range"
  shows "copy_row src src_offset dst_offset n dst = Ok (overwrite dst dst_offset (take n (drop src_offset src)))"
  using assms(1,2)
proof (induction n)
  case (Suc n)
  let ?ys = "take n (drop src_offset src)"
  have r: "wadd src_offset n = src_offset + n" "wadd dst_offset n = dst_offset + n"
    using Suc.prems assms(3,4) by simp_all
  have "take (Suc n) (drop src_offset src) = ?ys @ [src ! (src_offset + n)]"
    using Suc.prems(1) by (simp add: take_Suc_conv_app_nth)
  moreover have "overwrite (overwrite dst dst_offset ?ys) (dst_offset + length ?ys) [src ! (src_offset + n)] =
      overwrite dst dst_offset (?ys @ [src ! (src_offset + n)])"
    using Suc.prems by (intro overwrite_append) simp
  ultimately show ?case
    using Suc by (simp add: copy_row_def fold_res_append fold_res_single r idx_def store_def overwrite_single)
qed (simp add: copy_row_def)

section \<open>Well-formed caches\<close>

definition kv_tensor_ok :: "kv_cache \<Rightarrow> tensor \<Rightarrow> bool" where
  "kv_tensor_ok c t =
     (t_shape t = [kc_max_seq_len c, kc_n_head_kv c, kc_head_dim c] \<and>
      length (t_data t) = kc_max_seq_len c * (kc_n_head_kv c * kc_head_dim c))"

definition kv_geometry_ok :: "nat \<Rightarrow> nat \<Rightarrow> nat \<Rightarrow> bool" where
  "kv_geometry_ok max_seq_len heads hdim =
     (2 * max_seq_len + 1 < u64_range \<and> heads * hdim < u64_range \<and> max_seq_len * (heads * hdim) < u64_range)"

definition kv_inv :: "kv_cache \<Rightarrow> bool" where
  "kv_inv c =
     (length (kc_key c) = kc_n_layer c \<and> length (kc_value c) = kc_n_layer c \<and>
      (\<forall>t \<in> set (kc_key c) \<union> set (kc_value c). kv_tensor_ok c t) \<and>
      kv_geometry_ok (kc_max_seq_len c) (kc_n_head_kv c) (kc_head_dim c) \<and>
      kc_current_len c \<le> kc_max_seq_len c)"

lemma kv_inv_new:
  assumes "kv_geometry_ok max_seq_len heads hdim"
  shows "kv_inv (kv_new max_seq_len n_layer heads hdim)"
proof -
  have "usize_product [max_seq_len, heads, hdim] = max_seq_len * (heads * hdim)"
    using assms by (subst usize_product_small) (simp_all add: kv_geometry_ok_def)
  with assms show ?thesis
    by (auto simp: kv_inv_def kv_new_def kv_tensor_ok_def tensor_zeros_def tensor_filled_def)
qed

lemma kv_inv_head_size: "kv_inv c \<Longrightarrow> head_size c = kc_n_head_kv c * kc_head_dim c"
  by (simp add: kv_inv_def kv_geometry_ok_def head_size_def)

lemma kv_inv_layer:
  assumes "kv_inv c" "layer < kc_n_layer c"
  shows "kv_tensor_ok c (kc_key c ! layer)" "kv_tensor_ok c (kc_value c ! layer)"
    and "layer < length (kc_key c)" "layer < length (kc_value c)"
  using assms by (auto simp: kv_inv_def)

text \<open>An input of \<open>n\<close> rows for this cache.\<close>

definition kv_rows :: "kv_cache \<Rightarrow> nat \<Rightarrow> tensor \<Rightarrow> bool" where
  "kv_rows c n t =
     (t_shape t = [n, kc_n_head_kv c, kc_head_dim c] \<and> length (t_data t) = n * (kc_n_head_kv c * kc_head_dim c))"

definition write_rows :: "nat \<Rightarrow> nat \<Rightarrow> f32 list \<Rightarrow> f32 list \<Rightarrow> kv_cache \<Rightarrow> kv_cache" where
  "write_rows layer off ks vs c =
     c\<lparr>kc_key := (kc_key c)[layer := (kc_key c ! layer)\<lparr>t_data := overwrite (t_data (kc_key c ! layer)) off ks\<rparr>],
       kc_value := (kc_value c)[layer := (kc_value c ! layer)\<lparr>t_data := overwrite (t_data (kc_value c ! layer)) off vs\<rparr>]\<rparr>"

lemma write_rows_fields [simp]:
  "kc_current_len (write_rows layer off ks vs c) = kc_current_len c"
  "kc_max_seq_len (write_rows layer off ks vs c) = kc_max_seq_len c"
  "kc_n_layer (write_rows layer off ks vs c) = kc_n_layer c"
  "kc_n_head_kv (write_rows layer off ks vs c) = kc_n_head_kv c"
  "kc_head_dim (write_rows layer off ks vs c) = kc_head_dim c"
  "kc_snapshot (write_rows layer off ks vs c) = kc_snapshot c"
  "head_size (write_rows layer off ks vs c) = head_size c"
  by (simp_all add: write_rows_def head_size_def)

lemma kv_inv_write_rows:
  assumes "kv_inv c" "layer < kc_n_layer c"
    and "off + length ks \<le> kc_max_seq_len c * (kc_n_head_kv c * kc_head_dim c)"
    and "length vs = length ks"
  shows "kv_inv (write_rows layer off ks vs c)"
proof -
  have t: "kv_tensor_ok (write_rows layer off ks vs c) x = kv_tensor_ok c x" for x
    by (simp add: kv_tensor_ok_def)
  have u: "kv_tensor_ok c (x\<lparr>t_data := overwrite (t_data x) off zs\<rparr>)"
    if "kv_tensor_ok c x" "length zs = length ks" for x zs
    using that assms(3) by (simp add: kv_tensor_ok_def)
  from assms(1) kv_inv_layer [OF assms(1,2)] u assms(4) show ?thesis
    unfolding kv_inv_def t write_rows_fields
    by (auto simp: write_rows_def dest!: set_update_subset_insert [THEN subsetD])
qed

lemma copy_token_eq:
  assumes inv: "kv_inv c" "layer < kc_n_layer c" and r: "kv_rows c n k" "kv_rows c n v"
    and "start + n \<le> kc_max_seq_len c" "s < n"
  shows "copy_token layer k v start s c = Ok (write_rows layer ((start + s) * head_size c)
      (take (head_size c) (drop (s * head_size c) (t_data k)))
      (take (head_size c) (drop (s * head_size c) (t_data v))) c)"
proof -
  let ?h = "head_size c" and ?M = "kc_max_seq_len c"
  have h: "?h = kc_n_head_kv c * kc_head_dim c" by (rule kv_inv_head_size [OF inv(1)])
  have g: "?M < u64_range" "?M * ?h < u64_range" using inv(1) by (simp_all add: kv_inv_def kv_geometry_ok_def h)
  have "(start + s + 1) * ?h \<le> ?M * ?h" using assms(5,6) by (intro mult_le_mono1) simp
  then have dst: "(start + s) * ?h + ?h \<le> ?M * ?h" by simp
  have "(s + 1) * ?h \<le> n * ?h" using assms(6) by (intro mult_le_mono1) simp
  then have src: "s * ?h + ?h \<le> n * ?h" by simp
  have "n * ?h \<le> ?M * ?h" using assms(5) by (intro mult_le_mono1) simp
  then have n: "n * ?h < u64_range" using g(2) by (rule order_le_less_trans)
  have lens: "length (t_data k) = n * ?h" "length (t_data v) = n * ?h" using r by (simp_all add: kv_rows_def h)
  note lay = kv_inv_layer [OF inv]
  have kl: "length (t_data (kc_key c ! layer)) = ?M * ?h" "length (t_data (kc_value c ! layer)) = ?M * ?h"
    using lay(1,2) by (simp_all add: kv_tensor_ok_def h)
  have offs: "wadd start s = start + s" "wmul s ?h = s * ?h" "wmul (start + s) ?h = (start + s) * ?h"
    using assms(5,6) g dst src n by simp_all
  show ?thesis
    unfolding copy_token_def Let_def offs using lay(3,4)
    by (simp add: idx_in copy_row_eq lens kl src dst g(2) n write_rows_def)
qed

lemma copy_to_cache_eq:
  assumes inv: "kv_inv c" "layer < kc_n_layer c" and r: "kv_rows c n k" "kv_rows c n v"
    and "start + n \<le> kc_max_seq_len c"
  shows "copy_to_cache layer k v start n c = Ok (write_rows layer (start * head_size c) (t_data k) (t_data v) c)"
proof -
  let ?h = "head_size c"
  have h: "?h = kc_n_head_kv c * kc_head_dim c" by (rule kv_inv_head_size [OF inv(1)])
  have lens: "length (t_data k) = n * ?h" "length (t_data v) = n * ?h" using r by (simp_all add: kv_rows_def h)
  have "m \<le> n \<Longrightarrow> fold_res (copy_token layer k v start) [0..<m] c =
      Ok (write_rows layer (start * ?h) (take (m * ?h) (t_data k)) (take (m * ?h) (t_data v)) c)" for m
  proof (induction m)
    case 0
    then show ?case by (simp add: write_rows_def)
  next
    case (Suc m)
    let ?c = "write_rows layer (start * ?h) (take (m * ?h) (t_data k)) (take (m * ?h) (t_data v)) c"
    have "m * ?h \<le> n * ?h" using Suc.prems by (intro mult_le_mono1) simp
    then have lm: "length (take (m * ?h) (t_data k)) = m * ?h" "length (take (m * ?h) (t_data v)) = m * ?h"
      using lens by simp_all
    have "(start + n) * ?h \<le> kc_max_seq_len c * ?h" using assms(5) by (rule mult_le_mono1)
    moreover have "(m + 1) * ?h \<le> n * ?h" using Suc.prems by (intro mult_le_mono1) simp
    ultimately have b: "start * ?h + m * ?h + ?h \<le> kc_max_seq_len c * ?h" by (simp add: add_mult_distrib)
    have ic: "kv_inv ?c"
      using inv b lm by (intro kv_inv_write_rows) (simp_all add: h)
    have rc: "kv_rows ?c n k" "kv_rows ?c n v" using r by (simp_all add: kv_rows_def)
    have "copy_token layer k v start m ?c = Ok (write_rows layer ((start + m) * ?h)
        (take ?h (drop (m * ?h) (t_data k))) (take ?h (drop (m * ?h) (t_data v))) ?c)"
      using copy_token_eq [OF ic _ rc] inv(2) assms(5) Suc.prems by simp
    moreover have "write_rows layer ((start + m) * ?h) (take ?h (drop (m * ?h) (t_data k)))
        (take ?h (drop (m * ?h) (t_data v))) ?c =
      write_rows layer (start * ?h) (take (Suc m * ?h) (t_data k)) (take (Suc m * ?h) (t_data v)) c"
    proof -
      have sp: "take (Suc m * ?h) xs = take (m * ?h) xs @ take ?h (drop (m * ?h) xs)" for xs :: "f32 list"
      proof -
        have "Suc m * ?h = m * ?h + ?h" by simp
        then show ?thesis by (simp only: take_add)
      qed
      have ow: "overwrite (overwrite xs (start * ?h) (take (m * ?h) ys)) ((start + m) * ?h) (take ?h (drop (m * ?h) ys)) =
          overwrite xs (start * ?h) (take (Suc m * ?h) ys)"
        if "length ys = n * ?h" "length xs = kc_max_seq_len c * ?h" for xs ys :: "f32 list"
        unfolding sp using overwrite_append [of "start * ?h" "take (m * ?h) ys" "take ?h (drop (m * ?h) ys)" xs]
          that b \<open>m * ?h \<le> n * ?h\<close> by (simp add: add_mult_distrib)
      note lay = kv_inv_layer [OF inv]
      have kl: "length (t_data (kc_key c ! layer)) = kc_max_seq_len c * ?h"
        "length (t_data (kc_value c ! layer)) = kc_max_seq_len c * ?h"
        using lay(1,2) by (simp_all add: kv_tensor_ok_def h)
      show ?thesis using lay(3,4) ow [OF lens(1) kl(1)] ow [OF lens(2) kl(2)]
        by (simp add: write_rows_def)
    qed
    ultimately show ?case using Suc by (simp add: fold_res_append fold_res_single)
  qed
  from this [of n] show ?thesis using lens by (simp add: copy_to_cache_def)
qed

section \<open>Reading back\<close>

lemma get_layer_cache_eq:
  assumes "kv_inv c" "layer < kc_n_layer c"
  shows "get_layer_cache layer c =
    Ok (\<lparr>t_data = take (kc_current_len c * head_size c) (t_data (kc_key c ! layer)),
         t_shape = [kc_current_len c, kc_n_head_kv c, kc_head_dim c]\<rparr>,
        \<lparr>t_data = take (kc_current_len c * head_size c) (t_data (kc_value c ! layer)),
         t_shape = [kc_current_len c, kc_n_head_kv c, kc_head_dim c]\<rparr>)"
proof (cases "kc_current_len c = 0")
  case True
  with assms(2) show ?thesis
    by (simp add: get_layer_cache_def validate_layer_def tensor_zeros_def tensor_filled_def usize_product_eq)
next
  case False
  let ?h = "head_size c" and ?n = "kc_current_len c"
  have h: "?h = kc_n_head_kv c * kc_head_dim c" by (rule kv_inv_head_size [OF assms(1)])
  have le: "?n * ?h \<le> kc_max_seq_len c * ?h" using assms(1) by (intro mult_le_mono1) (simp add: kv_inv_def)
  also have g: "kc_max_seq_len c * ?h < u64_range" using assms(1) by (simp add: kv_inv_def kv_geometry_ok_def h)
  finally have lt: "?n * ?h < u64_range" .
  note lay = kv_inv_layer [OF assms]
  have kl: "length (t_data (kc_key c ! layer)) = kc_max_seq_len c * ?h"
    "length (t_data (kc_value c ! layer)) = kc_max_seq_len c * ?h"
    using lay(1,2) by (simp_all add: kv_tensor_ok_def h)
  have ex: "extract_cache_data c t ?n = Ok (take (?n * ?h) (t_data t))"
    if "length (t_data t) = kc_max_seq_len c * ?h" for t
    using that lt le by (auto simp: extract_cache_data_def Let_def not_less)
  have pr: "usize_product [?n, kc_n_head_kv c, kc_head_dim c] = ?n * ?h"
    using lt by (subst usize_product_small) (simp_all add: h)
  show ?thesis using False assms(2) lay(3,4) le
    by (simp add: get_layer_cache_def validate_layer_def idx_in ex kl tensor_new_def pr)
qed

definition layer_keys :: "nat \<Rightarrow> kv_cache \<Rightarrow> f32 list" where
  "layer_keys layer c = take (kc_current_len c * head_size c) (t_data (kc_key c ! layer))"

definition layer_values :: "nat \<Rightarrow> kv_cache \<Rightarrow> f32 list" where
  "layer_values layer c = take (kc_current_len c * head_size c) (t_data (kc_value c ! layer))"

section \<open>Prefilling every layer\<close>

definition prefill_layers :: "tensor list \<Rightarrow> tensor list \<Rightarrow> nat \<Rightarrow> kv_cache \<Rightarrow> kv_cache lib_res" where
  "prefill_layers ks vs m c = fold_res (\<lambda>l c. prefill_layer l (ks ! l) (vs ! l) c) [0..<m] c"

lemma prefill_layer_eq:
  assumes inv: "kv_inv c" "layer < kc_n_layer c" and r: "kv_rows c n k" "kv_rows c n v"
    and "kc_current_len c + n \<le> kc_max_seq_len c"
  shows "prefill_layer layer k v c =
    Ok (write_rows layer (kc_current_len c * head_size c) (t_data k) (t_data v) c)"
proof -
  have "kc_max_seq_len c < u64_range" using inv(1) by (simp add: kv_inv_def kv_geometry_ok_def)
  with assms(5) have w: "wadd (kc_current_len c) n = kc_current_len c + n" by simp
  from inv(2) r have "validate_layer c layer = Ok ()" "validate_kv_shapes c k v = Ok ()"
    by (simp_all add: validate_layer_def validate_kv_shapes_def kv_rows_def tensor_ndim_def)
  then show ?thesis using r(1) assms(5) copy_to_cache_eq [OF assms]
    by (simp add: prefill_layer_def kv_rows_def idx_def w)
qed

lemma rows_fit:
  assumes "kv_inv c" "kv_rows c n k" "kc_current_len c + n \<le> kc_max_seq_len c"
  shows "kc_current_len c * head_size c + length (t_data k) \<le> kc_max_seq_len c * head_size c"
proof -
  have "(kc_current_len c + n) * head_size c \<le> kc_max_seq_len c * head_size c"
    using assms(3) by (rule mult_le_mono1)
  with assms(2) kv_inv_head_size [OF assms(1)] show ?thesis by (simp add: kv_rows_def add_mult_distrib)
qed

lemma prefill_layers_eq:
  assumes inv: "kv_inv c" and r: "\<And>l. l < kc_n_layer c \<Longrightarrow> kv_rows c n (ks ! l) \<and> kv_rows c n (vs ! l)"
    and fit: "kc_current_len c + n \<le> kc_max_seq_len c" and "m \<le> kc_n_layer c"
  shows "\<exists>c'. prefill_layers ks vs m c = Ok c' \<and> kv_inv c' \<and>
    kc_current_len c' = kc_current_len c \<and> kc_max_seq_len c' = kc_max_seq_len c \<and> kc_n_layer c' = kc_n_layer c \<and>
    kc_n_head_kv c' = kc_n_head_kv c \<and> kc_head_dim c' = kc_head_dim c \<and>
    (\<forall>l < kc_n_layer c.
      t_data (kc_key c' ! l) = (if l < m then overwrite (t_data (kc_key c ! l)) (kc_current_len c * head_size c) (t_data (ks ! l))
        else t_data (kc_key c ! l)) \<and>
      t_data (kc_value c' ! l) = (if l < m then overwrite (t_data (kc_value c ! l)) (kc_current_len c * head_size c) (t_data (vs ! l))
        else t_data (kc_value c ! l)))"
  using assms(4)
proof (induction m)
  case 0
  with inv show ?case by (simp add: prefill_layers_def)
next
  case (Suc m)
  then obtain c1 where c1: "prefill_layers ks vs m c = Ok c1" "kv_inv c1"
    "kc_current_len c1 = kc_current_len c" "kc_max_seq_len c1 = kc_max_seq_len c" "kc_n_layer c1 = kc_n_layer c"
    "kc_n_head_kv c1 = kc_n_head_kv c" "kc_head_dim c1 = kc_head_dim c"
    and d: "\<And>l. l < kc_n_layer c \<Longrightarrow>
      t_data (kc_key c1 ! l) = (if l < m then overwrite (t_data (kc_key c ! l)) (kc_current_len c * head_size c) (t_data (ks ! l))
        else t_data (kc_key c ! l)) \<and>
      t_data (kc_value c1 ! l) = (if l < m then overwrite (t_data (kc_value c ! l)) (kc_current_len c * head_size c) (t_data (vs ! l))
        else t_data (kc_value c ! l))"
    by auto
  have m: "m < kc_n_layer c1" using Suc.prems c1 by simp
  have hs: "head_size c1 = head_size c" by (simp add: head_size_def c1)
  have rw: "kv_rows c1 n (ks ! m)" "kv_rows c1 n (vs ! m)"
    using r [of m] m c1 by (simp_all add: kv_rows_def)
  have f1: "kc_current_len c1 + n \<le> kc_max_seq_len c1" using fit c1 by simp
  let ?c2 = "write_rows m (kc_current_len c1 * head_size c1) (t_data (ks ! m)) (t_data (vs ! m)) c1"
  have step: "prefill_layers ks vs (Suc m) c = Ok ?c2"
    using c1(1) prefill_layer_eq [OF c1(2) m rw f1]
    by (simp add: prefill_layers_def fold_res_append fold_res_single)
  have i2: "kv_inv ?c2"
    using kv_inv_write_rows [OF c1(2) m] rows_fit [OF c1(2) rw(1) f1] rw kv_inv_head_size [OF c1(2)]
    by (simp add: kv_rows_def)
  have "t_data (kc_key ?c2 ! l) = (if l < Suc m then overwrite (t_data (kc_key c ! l)) (kc_current_len c * head_size c) (t_data (ks ! l))
        else t_data (kc_key c ! l)) \<and>
      t_data (kc_value ?c2 ! l) = (if l < Suc m then overwrite (t_data (kc_value c ! l)) (kc_current_len c * head_size c) (t_data (vs ! l))
        else t_data (kc_value c ! l))" if l: "l < kc_n_layer c" for l
    using d [OF l] l kv_inv_layer(3,4) [OF c1(2), of l] c1(3,5) hs
    by (cases "l = m") (auto simp: write_rows_def)
  with step i2 c1 show ?case by simp
qed

text \<open>
  C19: Prefilling every layer with \<open>n\<close> rows and completing the prefill extends the cached
  prefix of every layer by exactly those rows: reading a layer afterwards gives the rows it
  held before followed by the new ones, keys and values alike, and no row of any layer is
  lost or mixed with another layer's.
\<close>

theorem prefill_extends_prefix:
  assumes "kv_inv c" and "\<forall>l < kc_n_layer c. kv_rows c n (ks ! l) \<and> kv_rows c n (vs ! l)"
    and "kc_current_len c + n \<le> kc_max_seq_len c"
  shows "\<exists>c'. and_then (prefill_layers ks vs (kc_n_layer c) c) (complete_prefill n) = Ok c' \<and> kv_inv c' \<and>
    kc_current_len c' = kc_current_len c + n \<and>
    (\<forall>l < kc_n_layer c. \<exists>k v k' v'. get_layer_cache l c = Ok (k, v) \<and> get_layer_cache l c' = Ok (k', v') \<and>
      t_data k' = t_data k @ t_data (ks ! l) \<and> t_data v' = t_data v @ t_data (vs ! l))"
proof -
  let ?h = "head_size c" and ?n = "kc_current_len c"
  obtain c1 where c1: "prefill_layers ks vs (kc_n_layer c) c = Ok c1" "kv_inv c1"
    "kc_current_len c1 = ?n" "kc_max_seq_len c1 = kc_max_seq_len c" "kc_n_layer c1 = kc_n_layer c"
    "kc_n_head_kv c1 = kc_n_head_kv c" "kc_head_dim c1 = kc_head_dim c"
    and d: "\<And>l. l < kc_n_layer c \<Longrightarrow>
      t_data (kc_key c1 ! l) = overwrite (t_data (kc_key c ! l)) (?n * ?h) (t_data (ks ! l)) \<and>
      t_data (kc_value c1 ! l) = overwrite (t_data (kc_value c ! l)) (?n * ?h) (t_data (vs ! l))"
    using prefill_layers_eq [OF assms(1) _ assms(3) order_refl, of ks vs] assms(2) by auto
  have "kc_max_seq_len c < u64_range" using assms(1) by (simp add: kv_inv_def kv_geometry_ok_def)
  with assms(3) have w: "wadd ?n n = ?n + n" by simp
  let ?c = "set_len (?n + n) c1"
  have comp: "complete_prefill n c1 = Ok ?c" using assms(3) by (simp add: complete_prefill_def c1 w)
  have ic: "kv_inv ?c"
    using c1(2,4) assms(3) by (auto simp: kv_inv_def set_len_def kv_tensor_ok_def)
  have "get_layer_cache l ?c = Ok (k', v') \<Longrightarrow> get_layer_cache l c = Ok (k, v) \<Longrightarrow>
      t_data k' = t_data k @ t_data (ks ! l) \<and> t_data v' = t_data v @ t_data (vs ! l)"
    if l: "l < kc_n_layer c" for l k v k' v'
  proof -
    assume g: "get_layer_cache l ?c = Ok (k', v')" "get_layer_cache l c = Ok (k, v)"
    have l': "l < kc_n_layer ?c" using l c1 by (simp add: set_len_def)
    have h: "?h = kc_n_head_kv c * kc_head_dim c" by (rule kv_inv_head_size [OF assms(1)])
    have lens: "length (t_data (ks ! l)) = n * ?h" "length (t_data (vs ! l)) = n * ?h"
      using assms(2) l by (simp_all add: kv_rows_def h)
    have fit: "?n * ?h + n * ?h \<le> kc_max_seq_len c * ?h"
      using mult_le_mono1 [OF assms(3), of ?h] by (simp add: add_mult_distrib)
    have kl: "length (t_data (kc_key c ! l)) = kc_max_seq_len c * ?h"
      "length (t_data (kc_value c ! l)) = kc_max_seq_len c * ?h"
      using kv_inv_layer(1,2) [OF assms(1) l] by (simp_all add: kv_tensor_ok_def h)
    from g(2) have kv: "t_data k = take (?n * ?h) (t_data (kc_key c ! l))"
      "t_data v = take (?n * ?h) (t_data (kc_value c ! l))"
      by (auto simp: get_layer_cache_eq [OF assms(1) l])
    from g(1) have kv': "t_data k' = take ((?n + n) * ?h) (t_data (kc_key c1 ! l))"
      "t_data v' = take ((?n + n) * ?h) (t_data (kc_value c1 ! l))"
      unfolding get_layer_cache_eq [OF ic l'] by (auto simp: set_len_def head_size_def c1)
    show ?thesis
      using d [OF l] take_overwrite [of "?n * ?h" "t_data (ks ! l)" "t_data (kc_key c ! l)"]
        take_overwrite [of "?n * ?h" "t_data (vs ! l)" "t_data (kc_value c ! l)"] lens fit kl
      by (simp add: kv kv' add_mult_distrib)
  qed
  moreover have "\<exists>k v k' v'. get_layer_cache l c = Ok (k, v) \<and> get_layer_cache l ?c = Ok (k', v')"
    if "l < kc_n_layer c" for l
    using that get_layer_cache_eq [OF assms(1) that] get_layer_cache_eq [OF ic, of l] c1
    by (simp add: set_len_def)
  ultimately show ?thesis
    using c1(1) comp ic by (intro exI [of _ ?c]) (fastforce simp: set_len_def)
qed

section \<open>Decoding one token\<close>

theorem prefill_extends_prefix_witness:
  "\<exists>c' k' v'. and_then (prefill_layers [\<lparr>t_data = [5, 6], t_shape = [1, 1, 2]\<rparr>] [\<lparr>t_data = [7, 8], t_shape = [1, 1, 2]\<rparr>]
      1 (kv_new 4 1 1 2)) (complete_prefill 1) = Ok c' \<and>
    get_layer_cache 0 c' = Ok (k', v') \<and> t_data k' = [5, 6] \<and> t_data v' = [7, 8]"
proof -
  have g: "kv_geometry_ok 4 1 2" by (simp add: kv_geometry_ok_def u64_range_def)
  have e: "get_layer_cache 0 (kv_new 4 1 1 2) = Ok (\<lparr>t_data = [], t_shape = [0, 1, 2]\<rparr>, \<lparr>t_data = [], t_shape = [0, 1, 2]\<rparr>)"
    using get_layer_cache_eq [OF kv_inv_new [OF g, of 1], of 0] by (simp add: kv_new_def)
  from prefill_extends_prefix [OF kv_inv_new [OF g, of 1], of 1 "[\<lparr>t_data = [5, 6], t_shape = [1, 1, 2]\<rparr>]"
      "[\<lparr>t_data = [7, 8], t_shape = [1, 1, 2]\<rparr>]"] e
  show ?thesis by (auto simp: kv_new_def kv_rows_def)
qed

text \<open>
  C24: A decode step is a prefill of one row: on a one-row input \<open>append_layer\<close> and
  \<open>prefill_layer\<close> have the same effect on every cache with room, and so have
  \<open>complete_decode\<close> and \<open>complete_prefill\<close>; on a full cache both kinds of step are refused.
\<close>

theorem decode_is_one_row_prefill:
  assumes "kv_inv c" and "kv_rows c 1 k" and "kv_rows c 1 v" and "layer < kc_n_layer c"
  shows "(if kv_is_full c
    then (\<exists>e. append_layer layer k v c = Err e) \<and> (\<exists>e. prefill_layer layer k v c = Err e) \<and>
      (\<exists>e. complete_decode c = Err e) \<and> (\<exists>e. complete_prefill 1 c = Err e)
    else append_layer layer k v c = prefill_layer layer k v c \<and> is_ok (append_layer layer k v c) \<and>
      complete_decode c = complete_prefill 1 c \<and> is_ok (complete_decode c))"
proof -
  have ok: "validate_layer c layer = Ok ()" "validate_kv_shapes c k v = Ok ()"
    using assms by (simp_all add: validate_layer_def validate_kv_shapes_def kv_rows_def tensor_ndim_def)
  have le: "kc_current_len c \<le> kc_max_seq_len c" "2 * kc_max_seq_len c + 1 < u64_range"
    using assms(1) by (simp_all add: kv_inv_def kv_geometry_ok_def)
  show ?thesis
  proof (cases "kv_is_full c")
    case True
    with le have eq: "kc_current_len c = kc_max_seq_len c" by (simp add: kv_is_full_def)
    with le have w: "wadd (kc_max_seq_len c) 1 = kc_max_seq_len c + 1" by simp
    show ?thesis using True ok(1,2) assms(2) eq w
      by (simp add: append_layer_def prefill_layer_def complete_decode_def complete_prefill_def
          idx_def kv_rows_def)
  next
    case False
    then have lt: "kc_current_len c + 1 \<le> kc_max_seq_len c" by (simp add: kv_is_full_def)
    with le have "wadd (kc_current_len c) 1 = kc_current_len c + 1" by simp
    then show ?thesis using False ok(1,2) assms(2) lt prefill_layer_eq [OF assms(1,4,2,3) lt]
      by (simp add: append_layer_def prefill_layer_def complete_decode_def complete_prefill_def
          idx_def kv_rows_def)
  qed
qed

theorem decode_is_one_row_prefill_witness:
  "append_layer 0 \<lparr>t_data = [5, 6], t_shape = [1, 1, 2]\<rparr> \<lparr>t_data = [7, 8], t_shape = [1, 1, 2]\<rparr> (kv_new 4 1 1 2) =
   prefill_layer 0 \<lparr>t_data = [5, 6], t_shape = [1, 1, 2]\<rparr> \<lparr>t_data = [7, 8], t_shape = [1, 1, 2]\<rparr> (kv_new 4 1 1 2)"
proof -
  have g: "kv_geometry_ok 4 1 2" by (simp add: kv_geometry_ok_def u64_range_def)
  from decode_is_one_row_prefill [OF kv_inv_new [OF g, of 1],
      of "\<lparr>t_data = [5, 6], t_shape = [1, 1, 2]\<rparr>" "\<lparr>t_data = [7, 8], t_shape = [1, 1, 2]\<rparr>" 0]
  show ?thesis by (simp add: kv_new_def kv_rows_def kv_is_full_def)
qed

section \<open>Every operation keeps a cache well formed\<close>

lemma store_length: "store xs j v = Ok ys \<Longrightarrow> length ys = length xs"
  by (auto simp: store_def split: if_splits)

lemma copy_row_length: "copy_row src a b n dst = Ok ys \<Longrightarrow> length ys = length dst"
  unfolding copy_row_def
  by (erule fold_res_inv [where I = "\<lambda>d. length d = length dst"]) (auto simp: store_length)

text \<open>Same geometry, same number of tensors of the same size.\<close>

definition kv_same :: "kv_cache \<Rightarrow> kv_cache \<Rightarrow> bool" where
  "kv_same c d =
     (kc_current_len d = kc_current_len c \<and> kc_snapshot d = kc_snapshot c \<and> (kv_inv c \<longrightarrow> kv_inv d))"

lemma copy_token_same: "copy_token layer k v start s c = Ok d \<Longrightarrow> kv_same c d"
proof -
  assume "copy_token layer k v start s c = Ok d"
  then obtain kd vd where l: "layer < length (kc_key c)" "layer < length (kc_value c)"
    and kd: "length kd = length (t_data (kc_key c ! layer))" and vd: "length vd = length (t_data (kc_value c ! layer))"
    and d: "d = c\<lparr>kc_key := (kc_key c)[layer := (kc_key c ! layer)\<lparr>t_data := kd\<rparr>],
        kc_value := (kc_value c)[layer := (kc_value c ! layer)\<lparr>t_data := vd\<rparr>]\<rparr>"
    by (auto simp: copy_token_def Let_def dest: copy_row_length)
  have t: "kv_tensor_ok d x = kv_tensor_ok c x" for x by (simp add: d kv_tensor_ok_def)
  have "kv_inv d" if inv: "kv_inv c"
  proof -
    have "kv_tensor_ok c ((kc_key c ! layer)\<lparr>t_data := kd\<rparr>)" "kv_tensor_ok c ((kc_value c ! layer)\<lparr>t_data := vd\<rparr>)"
      using inv l kd vd by (auto simp: kv_inv_def kv_tensor_ok_def)
    with inv show ?thesis unfolding kv_inv_def t
      by (auto simp: d dest!: set_update_subset_insert [THEN subsetD])
  qed
  then show ?thesis by (simp add: kv_same_def d)
qed

lemma copy_to_cache_same: "copy_to_cache layer k v start n c = Ok d \<Longrightarrow> kv_same c d"
  unfolding copy_to_cache_def
  by (erule fold_res_inv [where I = "kv_same c"]) (auto simp: kv_same_def dest!: copy_token_same)

datatype kv_op =
    Op_Reset
  | Op_Prefill nat tensor tensor
  | Op_Complete_Prefill nat
  | Op_Append nat tensor tensor
  | Op_Complete_Decode
  | Op_Truncate nat

fun kv_exec :: "kv_op \<Rightarrow> kv_cache \<Rightarrow> kv_cache lib_res" where
  "kv_exec Op_Reset c = Ok (kv_reset c)"
| "kv_exec (Op_Prefill l k v) c = prefill_layer l k v c"
| "kv_exec (Op_Complete_Prefill n) c = complete_prefill n c"
| "kv_exec (Op_Append l k v) c = append_layer l k v c"
| "kv_exec Op_Complete_Decode c = complete_decode c"
| "kv_exec (Op_Truncate n) c = kv_truncate n c"

definition kv_step :: "kv_op \<Rightarrow> kv_cache \<Rightarrow> kv_cache" where
  "kv_step op c = (case kv_exec op c of Ok d \<Rightarrow> d | _ \<Rightarrow> c)"

lemma kv_exec_cases:
  assumes "kv_exec op c = Ok d"
  shows "kv_same c d \<or> d = kv_reset c \<or>
    (\<exists>n \<le> kc_max_seq_len c. d = set_len n c) \<or>
    (\<exists>n \<le> kc_current_len c. op = Op_Truncate n \<and> d = c\<lparr>kc_current_len := n\<rparr>)"
proof (cases op)
  case (Op_Prefill l k v)
  with assms show ?thesis
    by (auto simp: prefill_layer_def split: if_splits dest: copy_to_cache_same)
next
  case (Op_Append l k v)
  with assms show ?thesis
    by (auto simp: append_layer_def split: if_splits dest: copy_to_cache_same)
next
  case (Op_Complete_Prefill n)
  with assms show ?thesis by (auto simp: complete_prefill_def not_less split: if_splits)
next
  case Op_Complete_Decode
  have "wadd a 1 \<le> m" if "a < m" for a m
    using order_trans [OF mod_less_eq_dividend [of "a + 1" u64_range]] that by (simp add: wadd_def)
  with assms Op_Complete_Decode show ?thesis
    by (auto simp: complete_decode_def kv_is_full_def not_le split: if_splits)
next
  case (Op_Truncate n)
  with assms show ?thesis by (auto simp: kv_truncate_def split: if_splits)
qed (use assms in simp)

lemma kv_inv_len: "kv_inv c \<Longrightarrow> n \<le> kc_max_seq_len c \<Longrightarrow> kv_inv (c\<lparr>kc_current_len := n, kc_snapshot := sn\<rparr>)"
  and kv_inv_len': "kv_inv c \<Longrightarrow> n \<le> kc_max_seq_len c \<Longrightarrow> kv_inv (c\<lparr>kc_current_len := n\<rparr>)"
  by (simp_all add: kv_inv_def kv_tensor_ok_def)

lemma kv_step_inv: "kv_inv c \<Longrightarrow> kv_inv (kv_step op c)"
proof (cases "kv_exec op c")
  case (Ok d)
  assume inv: "kv_inv c"
  then have le: "kc_current_len c \<le> kc_max_seq_len c" by (simp add: kv_inv_def)
  from kv_exec_cases [OF Ok] inv le Ok show ?thesis
    by (auto simp: kv_step_def kv_same_def kv_reset_def set_len_def intro: kv_inv_len kv_inv_len')
qed (simp_all add: kv_step_def)

interpretation kv: invariant_component kv_step kv_inv
  by unfold_locales (rule kv_step_inv)

lemma kv_step_mirror:
  assumes "\<forall>n. op \<noteq> Op_Truncate n"
    and "kc_snapshot c = \<lparr>ks_len = kc_current_len c, ks_version = kc_current_len c\<rparr>"
  shows "kc_snapshot (kv_step op c) =
    \<lparr>ks_len = kc_current_len (kv_step op c), ks_version = kc_current_len (kv_step op c)\<rparr>"
proof (cases "kv_exec op c")
  case (Ok d)
  from kv_exec_cases [OF Ok] assms Ok show ?thesis
    by (auto simp: kv_step_def kv_same_def kv_reset_def kv_snapshot_empty_def set_len_def)
qed (simp_all add: kv_step_def assms)

text \<open>
  C23: From a new cache, no sequence of operations, with any arguments, takes the cache out
  of its invariant: the length stays within the capacity and every layer keeps its tensors
  at full size. As long as no \<open>truncate\<close> is used the snapshot mirrors the length; a
  \<open>truncate\<close> to a smaller length leaves the snapshot at the old one.
\<close>

theorem kv_cache_invariant:
  assumes "kv_geometry_ok max_seq_len heads hdim"
  shows "kv_inv (run_ops kv_step ops (kv_new max_seq_len n_layer heads hdim)) \<and>
    ((\<forall>op\<in>set ops. \<forall>n. op \<noteq> Op_Truncate n) \<longrightarrow>
      (let c = run_ops kv_step ops (kv_new max_seq_len n_layer heads hdim) in
        ks_len (kc_snapshot c) = kc_current_len c \<and> ks_version (kc_snapshot c) = kc_current_len c)) \<and>
    (let c = run_ops kv_step (ops @ [Op_Truncate n]) (kv_new max_seq_len n_layer heads hdim) in
      kc_snapshot c = kc_snapshot (run_ops kv_step ops (kv_new max_seq_len n_layer heads hdim)))"
proof -
  let ?new = "kv_new max_seq_len n_layer heads hdim"
  have "kv_inv (run_ops kv_step ops ?new)" by (rule kv.run_inv [OF kv_inv_new [OF assms]])
  moreover have "kc_snapshot (run_ops kv_step ops c) =
      \<lparr>ks_len = kc_current_len (run_ops kv_step ops c), ks_version = kc_current_len (run_ops kv_step ops c)\<rparr>"
    if "\<forall>op\<in>set ops. \<forall>n. op \<noteq> Op_Truncate n"
      "kc_snapshot c = \<lparr>ks_len = kc_current_len c, ks_version = kc_current_len c\<rparr>" for c
    using that by (induction ops arbitrary: c) (simp_all add: kv_step_mirror)
  moreover have "kc_snapshot (kv_step (Op_Truncate n) c) = kc_snapshot c" for c
    by (simp add: kv_step_def kv_truncate_def)
  ultimately show ?thesis
    by (auto simp: Let_def kv_new_def kv_snapshot_empty_def)
qed

theorem kv_cache_invariant_witness:
  "kv_inv (run_ops kv_step [Op_Complete_Prefill 3, Op_Truncate 1] (kv_new 4 1 1 2)) \<and>
   kc_current_len (run_ops kv_step [Op_Complete_Prefill 3, Op_Truncate 1] (kv_new 4 1 1 2)) = 1 \<and>
   ks_len (kc_snapshot (run_ops kv_step [Op_Complete_Prefill 3, Op_Truncate 1] (kv_new 4 1 1 2))) = 3"
proof -
  have g: "kv_geometry_ok 4 1 2" by (simp add: kv_geometry_ok_def u64_range_def)
  have "run_ops kv_step [Op_Complete_Prefill 3] (kv_new 4 1 1 2) = set_len 3 (kv_new 4 1 1 2)"
    by (simp add: kv_step_def complete_prefill_def kv_new_def wadd_def u64_range_def)
  moreover have "kc_current_len (kv_step (Op_Truncate 1) (set_len 3 c)) = 1" for c
    by (simp add: kv_step_def kv_truncate_def set_len_def)
  ultimately show ?thesis
    using kv_cache_invariant [OF g, of "[Op_Complete_Prefill 3, Op_Truncate 1]" 1]
      kv_cache_invariant [OF g, of "[Op_Complete_Prefill 3]" 1 1]
    by (simp add: Let_def) (simp add: set_len_def)
qed

end
