(* ===== verification/Float_Div.thy ===== *)
theory Float_Div
  imports Float32
begin

text \<open>
  Division and square root of \<open>f32\<close>: the quotient or root is computed to at least 56 bits
  with one more bit that says whether anything was cut off, and that value is rounded
  once. The lemmas bound the results between powers of two.
\<close>

definition f32_div :: "f32 \<Rightarrow> f32 \<Rightarrow> f32" where
  "f32_div a b =
     (case (decode a, decode b) of
        (FNan, _) \<Rightarrow> f32_nan
      | (_, FNan) \<Rightarrow> f32_nan
      | (FInf s, FInf t) \<Rightarrow> f32_nan
      | (FInf s, FFin t _ _) \<Rightarrow> f32_inf (s \<noteq> t)
      | (FFin s _ _, FInf t) \<Rightarrow> round_bits (s \<noteq> t) 0 0
      | (FFin s m e, FFin t n f) \<Rightarrow>
          if n = 0 then (if m = 0 then f32_nan else f32_inf (s \<noteq> t))
          else let w = m * 2 ^ 80; q = w div n; rest = (if w mod n = 0 then 0 else 1) in
            round_bits (s \<noteq> t) (2 * q + rest) (e - f - 81))"

text \<open>The integer square root, two bits of the argument at a time.\<close>

fun isqrt :: "nat \<Rightarrow> nat" where
  "isqrt n = (if n = 0 then 0
     else let r = 2 * isqrt (n div 4) in if (r + 1) * (r + 1) \<le> n then r + 1 else r)"

declare isqrt.simps [simp del]

definition f32_sqrt :: "f32 \<Rightarrow> f32" where
  "f32_sqrt a =
     (case decode a of
        FNan \<Rightarrow> f32_nan
      | FInf s \<Rightarrow> if s then f32_nan else f32_inf False
      | FFin s m e \<Rightarrow>
          if m = 0 then a
          else if s then f32_nan
          else let k = (if even e then 80 else 81); w = m * 2 ^ k; q = isqrt w;
                   rest = (if q * q = w then 0 else 1) in
            round_bits False (2 * q + rest) ((e - int k) div 2 - 1))"


lemma decode_one: "decode f32_one = FFin False (2 ^ 23) (-23)"
  by (simp add: decode_def f32_one_def)

lemma isqrt_bounds: "isqrt n * isqrt n \<le> n \<and> n < (isqrt n + 1) * (isqrt n + 1)"
proof (induction n rule: isqrt.induct)
  case (1 n)
  show ?case
  proof (cases "n = 0")
    case False
    let ?s = "isqrt (n div 4)"
    have IH: "?s * ?s \<le> n div 4" "n div 4 < (?s + 1) * (?s + 1)" using 1 False by auto
    have lo: "4 * (?s * ?s) \<le> n" using IH(1) by linarith
    have "n div 4 + 1 \<le> (?s + 1) * (?s + 1)" using IH(2) by simp
    then have hi: "n < 4 * ((?s + 1) * (?s + 1))" by linarith
    have "isqrt n = (if (2 * ?s + 1) * (2 * ?s + 1) \<le> n then 2 * ?s + 1 else 2 * ?s)"
      using False by (subst isqrt.simps) (simp add: Let_def)
    then show ?thesis using lo hi by (simp add: algebra_simps not_le)
  qed (simp add: isqrt.simps)
qed

section \<open>Rounding between powers of two\<close>

lemma powi_mono: "a \<le> b \<Longrightarrow> (2 :: real) powi a \<le> 2 powi b"
  by (rule power_int_increasing) auto

lemma mult_grid_le:
  assumes "\<bar>real M * u - v\<bar> \<le> u / 2" and "0 < u" and "real k * u \<le> v"
  shows "real k * u \<le> real M * u"
proof (rule ccontr)
  assume "\<not> real k * u \<le> real M * u"
  then have "M < k" using assms(2) by (simp add: mult_less_cancel_right not_le)
  then have "real M + 1 \<le> real k" by simp
  then have "(real M + 1) * u \<le> real k * u" using assms(2) by (intro mult_right_mono) simp_all
  then show False using assms by (simp add: algebra_simps)
qed

lemma mult_grid_ge:
  assumes "\<bar>real M * u - v\<bar> \<le> u / 2" and "0 < u" and "v \<le> real k * u"
  shows "real M * u \<le> real k * u"
proof (rule ccontr)
  assume "\<not> real M * u \<le> real k * u"
  then have "k < M" using assms(2) by (simp add: mult_less_cancel_right not_le)
  then have "real k + 1 \<le> real M" by simp
  then have "(real k + 1) * u \<le> real M * u" using assms(2) by (intro mult_right_mono) simp_all
  then show False using assms by (simp add: algebra_simps)
qed

lemma powi_grid: "q \<le> a \<Longrightarrow> (2 :: real) powi a = real (2 ^ nat (a - q)) * 2 powi q"
  by (simp add: power_int_add [symmetric] flip: power_int_of_nat)

lemma round_between:
  assumes m: "0 < m" and a: "-149 \<le> a" and lo: "2 powi a \<le> real m * 2 powi e"
    and hi: "real m * 2 powi e \<le> 2 powi b" and b: "b \<le> 127"
  shows "f32_is_finite (round_bits s m e)"
    and "\<exists>v. f32_real (round_bits s m e) = of_int (sgn_val s) * v \<and> 2 powi a \<le> v \<and> v \<le> 2 powi b"
proof -
  let ?q = "ulp_exp m e" and ?M = "round_mant m e" and ?v = "real m * 2 powi e"
  note err = round_error [of m e]
  have nb: "2 ^ (nbits m - 1) \<le> m" "m < 2 ^ nbits m" "0 < nbits m"
    using nbits_bounds [OF m] m by (auto simp: nbits.simps [of m])
  have up: "?v < 2 powi (e + int (nbits m))"
  proof -
    have "real m < 2 ^ nbits m" using nb(2) by (metis of_nat_less_iff of_nat_numeral of_nat_power)
    then show ?thesis by (simp add: power_int_add flip: power_int_of_nat)
  qed
  have down: "2 powi (e + int (nbits m) - 1) \<le> ?v"
  proof -
    have "(2 :: real) ^ (nbits m - 1) \<le> real m" using nb(1) by (metis of_nat_le_iff of_nat_numeral of_nat_power)
    moreover have "(2 :: real) powi (e + int (nbits m) - 1) = 2 ^ (nbits m - 1) * 2 powi e"
      using nb(3) by (simp add: power_int_add [symmetric] algebra_simps of_nat_diff flip: power_int_of_nat)
    ultimately show ?thesis by simp
  qed
  have L: "2 powi a \<le> real ?M * 2 powi ?q"
  proof (cases "?q \<le> a")
    case True
    show ?thesis unfolding powi_grid [OF True]
      by (rule mult_grid_le [OF err]) (use lo powi_grid [OF True] in simp_all)
  next
    case False
    then have "2 ^ 23 \<le> ?M" using round_mant_range(2) [OF m, of e] a by linarith
    then have "(2 :: real) ^ 23 \<le> real ?M" by (metis of_nat_le_iff of_nat_numeral of_nat_power)
    then have "2 ^ 23 * 2 powi ?q \<le> real ?M * 2 powi ?q" by (intro mult_right_mono) auto
    moreover have "(2 :: real) powi a \<le> 2 powi (23 + ?q)" using False by (intro powi_mono) simp
    moreover have "(2 :: real) powi (23 + ?q) = 2 ^ 23 * 2 powi ?q" by (simp add: power_int_add)
    ultimately show ?thesis by linarith
  qed
  have U: "real ?M * 2 powi ?q \<le> 2 powi b"
  proof (cases "?q \<le> b")
    case True
    show ?thesis unfolding powi_grid [OF True]
      by (rule mult_grid_ge [OF err]) (use hi powi_grid [OF True] in simp_all)
  next
    case False
    have "(2 :: real) powi a \<le> 2 powi b" using lo hi by (rule order_trans)
    then have "a \<le> b" using power_int_strict_increasing [of b a "2 :: real"] by linarith
    with False a have "?q = e + int (nbits m) - 24" by (simp add: ulp_exp_def max_def split: if_splits)
    with False have "(2 :: real) powi b < 2 powi (e + int (nbits m) - 1)" by (intro power_int_strict_increasing) auto
    with down hi show ?thesis by linarith
  qed
  have "real ?M * 2 powi ?q < 2 ^ 128"
  proof -
    have "(2 :: real) powi b \<le> 2 powi 127" using b by (rule powi_mono)
    also have "\<dots> < 2 ^ 128" by simp
    finally show ?thesis using U by linarith
  qed
  with round_overflow [OF m, of e] have fin: "nat (?q + 149) * 2 ^ 23 + ?M < inf_bits" by linarith
  from round_bits_real [OF m fin, of s] L U
  show "f32_is_finite (round_bits s m e)"
    "\<exists>v. f32_real (round_bits s m e) = of_int (sgn_val s) * v \<and> 2 powi a \<le> v \<and> v \<le> 2 powi b"
    by (auto simp: mult.assoc)
qed

definition f32_between :: "int \<Rightarrow> int \<Rightarrow> f32 \<Rightarrow> bool" where
  "f32_between a b x = (f32_is_finite x \<and> 2 powi a \<le> f32_real x \<and> f32_real x \<le> 2 powi b)"

lemma f32_between_decode:
  assumes "f32_between a b x"
  obtains m e where "decode x = FFin False m e" and "0 < m"
    and "2 powi a \<le> real m * 2 powi e" and "real m * 2 powi e \<le> 2 powi b"
proof -
  obtain s m e where d: "decode x = FFin s m e"
    using assms by (auto simp: f32_between_def f32_is_finite_def split: fdec.splits)
  have r: "f32_real x = of_int (sgn_val s) * real m * 2 powi e" by (simp add: f32_real_def d)
  have "(0 :: real) < 2 powi a" by simp
  also have "\<dots> \<le> f32_real x" using assms by (simp add: f32_between_def)
  finally have pos: "0 < f32_real x" .
  have "0 \<le> real m * 2 powi e" by (intro mult_nonneg_nonneg zero_le_power_int) auto
  moreover have "f32_real x = - (real m * 2 powi e)" if s using that by (simp add: r sgn_val_def)
  ultimately have "\<not> s" using pos by linarith
  moreover have "0 < m" using pos by (cases m) (simp_all add: r)
  ultimately show thesis using that d assms r by (simp add: f32_between_def sgn_val_def)
qed

lemma f32_between_round:
  assumes "0 < m" and "-149 \<le> a" and "b \<le> 127"
    and "2 powi a \<le> real m * 2 powi e" and "real m * 2 powi e \<le> 2 powi b"
  shows "f32_between a b (round_bits False m e)"
  using round_between [OF assms(1,2,4,5,3), of False] by (auto simp: f32_between_def sgn_val_def)

lemma f32_between_of_nat: "0 < n \<Longrightarrow> n \<le> 2 ^ k \<Longrightarrow> k \<le> 127 \<Longrightarrow> f32_between 0 (int k) (f32_of_int (int n))"
  unfolding f32_of_int_def
  using of_nat_mono [of n "2 ^ k", where ?'a = real] by (auto intro!: f32_between_round)

lemma sticky_le:
  fixes y u :: real
  assumes "real q * u \<le> y" and "y < (real q + 1) * u" and "(rest = 0) = (real q * u = y)"
    and "rest \<le> (1 :: nat)" and "0 < u"
  shows "real K * u \<le> y \<Longrightarrow> real K * u \<le> real (2 * q + rest) * (u / 2)"
    and "y \<le> real K * u \<Longrightarrow> real (2 * q + rest) * (u / 2) \<le> real K * u"
proof -
  show "real K * u \<le> real (2 * q + rest) * (u / 2)" if "real K * u \<le> y"
  proof -
    have "real K < real q + 1" using that assms(2,5) by (metis le_less_trans mult_less_cancel_right_pos)
    then have "K \<le> q" by linarith
    then have "real K * u \<le> real q * u" using assms(5) by simp
    also have "\<dots> \<le> real (2 * q + rest) * (u / 2)" using assms(5) by (simp add: algebra_simps)
    finally show ?thesis .
  qed
  show "real (2 * q + rest) * (u / 2) \<le> real K * u" if "y \<le> real K * u"
  proof (cases "rest = 0")
    case True
    then show ?thesis using assms(3) that by simp
  next
    case False
    then have r: "rest = 1" and "real q * u < y" using assms(1,3,4) by auto
    then have "real q * u < real K * u" using that by linarith
    then have "q + 1 \<le> K" using assms(5) by simp
    then have "(real q + 1) * u \<le> real K * u" using assms(5) by (intro mult_right_mono) auto
    moreover have "real (2 * q + rest) * (u / 2) \<le> (real q + 1) * u" using assms(5) by (simp add: r algebra_simps)
    ultimately show ?thesis by linarith
  qed
qed

lemma decode_mant: "decode x = FFin s m e \<Longrightarrow> m < 2 ^ 24"
proof -
  have "unat x mod 8388608 < 8388608" by simp
  then have "unat x mod 2 ^ 23 < 2 ^ 24" "unat x mod 2 ^ 23 + 2 ^ 23 < 2 ^ 24" by simp_all
  then show "decode x = FFin s m e \<Longrightarrow> m < 2 ^ 24"
    by (auto simp only: decode_def Let_def fdec.inject fdec.distinct split: if_splits)
qed

lemma sqrt_between:
  assumes "f32_between 0 (2 * int c) x" and "c \<le> 39"
  shows "f32_between 0 (int c) (f32_sqrt x)"
proof -
  obtain m e where d: "decode x = FFin False m e" "0 < m"
    and v: "1 \<le> real m * 2 powi e" "real m * 2 powi e \<le> 2 powi (2 * int c)"
    using f32_between_decode [OF assms(1)] by auto
  define k where "k = (if even e then 80 else 81 :: nat)"
  define w where "w = m * 2 ^ k"
  define q where "q = isqrt w"
  define rest where "rest = (if q * q = w then 0 else 1 :: nat)"
  define j where "j = (e - int k) div 2"
  define u where "u = (2 :: real) powi j"
  have "even (e - int k)" by (simp add: k_def)
  then have j: "e = int k + (j + j)" by (simp add: j_def)
  have u: "0 < u" by (simp add: u_def)
  have vw: "real m * 2 powi e = real w * (u * u)"
  proof -
    have "(2 :: real) powi e = 2 ^ k * (2 powi j * 2 powi j)"
      unfolding j by (simp only: power_int_add [OF disjI1] zero_neq_numeral not_False_eq_True power_int_of_nat)
    then show ?thesis by (simp add: w_def u_def)
  qed
  define y where "y = sqrt (real m * 2 powi e)"
  have y: "y = sqrt (real w) * u" using u by (simp add: y_def vw real_sqrt_mult)
  have q: "q * q \<le> w" "w < (q + 1) * (q + 1)" using isqrt_bounds [of w] by (simp_all add: q_def)
  have "real (q * q) \<le> real w" using q(1) by (simp only: of_nat_le_iff)
  then have "real q \<le> sqrt (real w)" by (intro real_le_rsqrt) (simp add: power2_eq_square)
  then have lo: "real q * u \<le> y" using u by (simp add: y)
  have "real w < real ((q + 1) * (q + 1))" using q(2) by (simp only: of_nat_less_iff)
  then have "sqrt (real w) < real q + 1" by (intro real_less_lsqrt) (simp_all add: power2_eq_square algebra_simps)
  then have hi: "y < (real q + 1) * u" using u by (simp add: y)
  have "(rest = 0) = (real (q * q) = real w)" by (simp add: rest_def del: of_nat_mult)
  also have "\<dots> = (real q = sqrt (real w))"
    by (metis abs_of_nat of_nat_mult real_sqrt_abs2 real_sqrt_mult_self)
  finally have ex: "(rest = 0) = (real q * u = y)" using u by (simp add: y)
  have r1: "rest \<le> 1" by (simp add: rest_def)
  have "(2 :: real) powi e \<le> real m * 2 powi e" using d(2) by simp
  then have "(2 :: real) powi e \<le> 2 powi (2 * int c)" using v(2) by (rule order_trans)
  then have "e \<le> 2 * int c" using power_int_strict_increasing [of "2 * int c" e "2 :: real"] by linarith
  then have j0: "j \<le> 0" using assms(2) by (auto simp: j_def k_def)
  have y1: "1 \<le> y" using v(1) by (simp add: y_def)
  have y2: "y \<le> 2 powi int c"
  proof -
    have "(2 :: real) powi (2 * int c) = (2 ^ c)\<^sup>2"
      by (metis mult.commute of_nat_mult of_nat_numeral power_int_of_nat power_mult)
    with v(2) have "sqrt (real m * 2 powi e) \<le> sqrt ((2 ^ c)\<^sup>2)" by (intro real_sqrt_le_mono) linarith
    then show ?thesis by (simp add: y_def)
  qed
  have g0: "1 = real (2 ^ nat (- j)) * u" using powi_grid [OF j0] by (simp add: u_def)
  have gc: "2 powi int c = real (2 ^ nat (int c - j)) * u"
    unfolding u_def by (rule powi_grid) (use j0 in simp)
  have val: "real (2 * q + rest) * 2 powi (j - 1) = real (2 * q + rest) * (u / 2)"
    by (simp add: u_def power_int_diff)
  have l: "1 \<le> real (2 * q + rest) * 2 powi (j - 1)"
    using sticky_le(1) [OF lo hi ex r1 u, of "2 ^ nat (- j)"] y1 by (simp only: val g0 [symmetric])
  have h: "real (2 * q + rest) * 2 powi (j - 1) \<le> 2 powi int c"
    using sticky_le(2) [OF lo hi ex r1 u, of "2 ^ nat (int c - j)"] y2 by (simp only: val gc [symmetric])
  have pos: "0 < 2 * q + rest" using l by (cases "2 * q + rest") auto
  have "f32_sqrt x = round_bits False (2 * q + rest) (j - 1)"
    using d by (simp add: f32_sqrt_def Let_def k_def w_def q_def rest_def j_def)
  then show ?thesis
    using f32_between_round [OF pos, of 0 "int c" "j - 1"] l h assms(2) by simp
qed

lemma recip_between:
  assumes "f32_between 0 (int c) x" and "c \<le> 39"
  shows "f32_between (- int c) 0 (f32_div f32_one x)"
proof -
  obtain n f where d: "decode x = FFin False n f" "0 < n"
    and v: "1 \<le> real n * 2 powi f" "real n * 2 powi f \<le> 2 powi int c"
    using f32_between_decode [OF assms(1)] by auto
  define w where "w = (2 ^ 103 :: nat)"
  define q where "q = w div n"
  define rest where "rest = (if w mod n = 0 then 0 else 1 :: nat)"
  define j where "j = - 103 - f"
  define u where "u = (2 :: real) powi j"
  have u: "0 < u" by (simp add: u_def)
  have n24: "n < 2 ^ 24" using decode_mant [OF d(1)] .
  define y where "y = real w / real n * u"
  have y: "y = 1 / (real n * 2 powi f)"
  proof -
    have "real w * u = 2 powi (- f)"
      using powi_grid [of j "- f"] by (simp add: u_def j_def w_def)
    then show ?thesis by (simp add: y_def power_int_minus divide_inverse)
  qed
  have qn: "q * n \<le> w" "w < (q + 1) * n" "(rest = 0) = (q * n = w)"
  proof -
    have e: "w = q * n + w mod n" and m: "w mod n < n" using d(2) by (simp_all add: q_def)
    show "q * n \<le> w" using e by linarith
    show "w < (q + 1) * n" using e m by (simp add: algebra_simps) 
    show "(rest = 0) = (q * n = w)" using e by (simp add: rest_def)
  qed
  have "real (q * n) \<le> real w" using qn(1) by (simp only: of_nat_le_iff)
  then have lo: "real q * u \<le> y" using u d(2) by (simp add: y_def field_simps)
  have "real w < real ((q + 1) * n)" using qn(2) by (simp only: of_nat_less_iff)
  then have "real w / real n < real q + 1" using d(2) by (simp add: divide_less_eq algebra_simps)
  then have hi: "y < (real q + 1) * u" unfolding y_def using u by (rule mult_strict_right_mono)
  have "(rest = 0) = (real (q * n) = real w)" using qn(3) by (simp only: of_nat_eq_iff)
  then have ex: "(rest = 0) = (real q * u = y)" using u d(2) by (simp add: y_def field_simps)
  have r1: "rest \<le> 1" by (simp add: rest_def)
  have fge: "-24 \<le> f"
  proof (rule ccontr)
    assume "\<not> -24 \<le> f"
    then have "(2 :: real) powi f \<le> 2 powi (-24)" by (intro powi_mono) simp
    moreover have "real n < 2 ^ 24" using n24 by (metis of_nat_less_iff of_nat_numeral of_nat_power)
    ultimately have "real n * 2 powi f < 2 ^ 24 * 2 powi (-24)"
      by (intro mult_less_le_imp_less) auto
    then show False using v(1) by simp
  qed
  have jc: "j \<le> - int c" using fge assms(2) by (simp add: j_def)
  have y1: "y \<le> 1" using v(1) by (simp add: y)
  have y2: "2 powi (- int c) \<le> y"
    using le_imp_inverse_le [OF v(2)] v(1) unfolding y power_int_minus divide_inverse mult_1_left by linarith
  have g0: "1 = real (2 ^ nat (- j)) * u" using powi_grid [of j 0] jc by (simp add: u_def)
  have gc: "2 powi (- int c) = real (2 ^ nat (- int c - j)) * u"
    unfolding u_def by (rule powi_grid [OF jc])
  have val: "real (2 * q + rest) * 2 powi (j - 1) = real (2 * q + rest) * (u / 2)"
    by (simp add: u_def power_int_diff)
  have l: "2 powi (- int c) \<le> real (2 * q + rest) * 2 powi (j - 1)"
    using sticky_le(1) [OF lo hi ex r1 u, of "2 ^ nat (- int c - j)"] y2 by (simp only: val gc [symmetric])
  have h: "real (2 * q + rest) * 2 powi (j - 1) \<le> 1"
    using sticky_le(2) [OF lo hi ex r1 u, of "2 ^ nat (- j)"] y1 by (simp only: val g0 [symmetric])
  have "(0 :: real) < 2 powi (- int c)" by simp
  also note l
  finally have pos: "0 < 2 * q + rest" by (cases "2 * q + rest") auto
  have "(2 :: nat) ^ 23 * 2 ^ 80 = w" by (simp add: w_def)
  then have "f32_div f32_one x = round_bits False (2 * q + rest) (j - 1)"
    using d by (simp add: f32_div_def decode_one Let_def q_def rest_def j_def)
  then show ?thesis
    using f32_between_round [OF pos, of "- int c" 0 "j - 1"] l h assms(2) by simp
qed

text \<open>The test \<open>x.is_finite() && x > 0.0\<close> holds of every float between powers of two.\<close>

lemma f32_between_positive:
  assumes "f32_between a b x"
  shows "f32_is_finite x \<and> f32_lt 0 x"
proof -
  obtain m e where d: "decode x = FFin False m e" "0 < m" using f32_between_decode [OF assms] by metis
  moreover have "decode 0 = FFin False 0 (- 149)" by (simp add: decode_def)
  ultimately show ?thesis
    using assms by (simp add: f32_between_def f32_lt_def scaled_def sgn_val_def Let_def)
qed

lemma rsqrt_between:
  assumes "0 < n" and "n < 2 ^ 64"
  shows "f32_between (- 32) 0 (f32_div f32_one (f32_sqrt (f32_of_int (int n))))"
proof -
  have "f32_between 0 64 (f32_of_int (int n))"
    using f32_between_of_nat [of n 64] assms by simp
  then have "f32_between 0 32 (f32_sqrt (f32_of_int (int n)))"
    using sqrt_between [of 32 "f32_of_int (int n)"] by simp
  then show ?thesis using recip_between [of 32] by simp
qed

end
