(* ===== verification/Ggml_Types.thy ===== *)
theory Ggml_Types
  imports Errors
begin

text \<open>
  src/src/core/ggml_types.rs: the supported GGML tensor types, their ids and names, the
  byte size of a tensor, and the check of a tensor's extent against the file.
\<close>

datatype ggml_type = F32 | F16 | Q4_0 | Q5_0 | Q8_0 | Q4_K | Q5_K | Q6_K

definition from_u32 :: "nat \<Rightarrow> ggml_type lib_res" where
  "from_u32 type_id =
     (if type_id = 0 then Ok F32
      else if type_id = 1 then Ok F16
      else if type_id = 2 then Ok Q4_0
      else if type_id = 6 then Ok Q5_0
      else if type_id = 8 then Ok Q8_0
      else if type_id = 12 then Ok Q4_K
      else if type_id = 13 then Ok Q5_K
      else if type_id = 14 then Ok Q6_K
      else Err (QuantUnsupported ''unknown'' type_id (''UNKNOWN_'' @ dec type_id)))"

fun ggml_name :: "ggml_type \<Rightarrow> string" where
  "ggml_name F32 = ''F32''"
| "ggml_name F16 = ''F16''"
| "ggml_name Q4_0 = ''Q4_0''"
| "ggml_name Q5_0 = ''Q5_0''"
| "ggml_name Q8_0 = ''Q8_0''"
| "ggml_name Q4_K = ''Q4_K''"
| "ggml_name Q5_K = ''Q5_K''"
| "ggml_name Q6_K = ''Q6_K''"

fun ggml_type_id :: "ggml_type \<Rightarrow> nat" where
  "ggml_type_id F32 = 0"
| "ggml_type_id F16 = 1"
| "ggml_type_id Q4_0 = 2"
| "ggml_type_id Q5_0 = 6"
| "ggml_type_id Q8_0 = 8"
| "ggml_type_id Q4_K = 12"
| "ggml_type_id Q5_K = 13"
| "ggml_type_id Q6_K = 14"

definition ggml_type_name :: "nat \<Rightarrow> string lib_res" where
  "ggml_type_name type_id = and_then (from_u32 type_id) (\<lambda>t. Ok (ggml_name t))"

definition calculate_q4_k_superblock_size :: nat where
  "calculate_q4_k_superblock_size = 144"

definition calculate_q6_k_superblock_size :: nat where
  "calculate_q6_k_superblock_size = 210"

definition ggml_type_bytes_per_tensor :: "nat \<Rightarrow> nat \<Rightarrow> nat lib_res" where
  "ggml_type_bytes_per_tensor type_id element_count =
     and_then (from_u32 type_id) (\<lambda>t. case t of
        F32 \<Rightarrow> Ok (wmul element_count 4)
      | F16 \<Rightarrow> Ok (wmul element_count 2)
      | Q4_0 \<Rightarrow> Ok (wmul (div_ceil element_count 32) 18)
      | Q5_0 \<Rightarrow> Ok (wmul (div_ceil element_count 32) 22)
      | Q8_0 \<Rightarrow> Ok (wmul (div_ceil element_count 32) 34)
      | Q4_K \<Rightarrow> Ok (wmul (div_ceil element_count 256) calculate_q4_k_superblock_size)
      | Q5_K \<Rightarrow> Ok (wmul (div_ceil element_count 256) 176)
      | Q6_K \<Rightarrow> Ok (wmul (div_ceil element_count 256) calculate_q6_k_superblock_size))"

text \<open>\<open>ggml_type_name(t).unwrap_or_else(|_| format!("UNKNOWN_{}", t))\<close>\<close>

definition type_name_or_unknown :: "nat \<Rightarrow> string" where
  "type_name_or_unknown type_id =
     (case ggml_type_name type_id of Ok s \<Rightarrow> s | _ \<Rightarrow> ''UNKNOWN_'' @ dec type_id)"

definition validate_tensor_bounds :: "string \<Rightarrow> nat \<Rightarrow> nat \<Rightarrow> nat \<Rightarrow> nat \<Rightarrow> unit lib_res" where
  "validate_tensor_bounds tensor_name type_id computed_size tensor_offset file_size =
     (let data_end = wadd tensor_offset computed_size in
      if file_size < data_end
      then Err (TensorBounds tensor_name type_id (type_name_or_unknown type_id) data_end file_size)
      else Ok ())"

section \<open>Ids and sizes\<close>

lemma from_u32_type_id [simp]: "from_u32 (ggml_type_id t) = Ok t"
  by (cases t) (simp_all add: from_u32_def)

lemma from_u32_Ok_iff: "(from_u32 n = Ok t) = (n = ggml_type_id t)"
  by (cases t) (auto simp: from_u32_def split: if_splits)

lemma from_u32_not_panic [simp]: "from_u32 n \<noteq> Panic"
  by (simp add: from_u32_def)

lemma ggml_type_id_inject [simp]: "(ggml_type_id s = ggml_type_id t) = (s = t)"
  using from_u32_type_id [of s] from_u32_type_id [of t] by (metis res.inject(1))

lemma ggml_name_inject: "(ggml_name s = ggml_name t) = (s = t)"
  by (cases s; cases t) simp_all

definition supported_ids :: "nat set" where
  "supported_ids = {0, 1, 2, 6, 8, 12, 13, 14}"

lemma is_ok_from_u32: "is_ok (from_u32 n) = (n \<in> supported_ids)"
  by (simp add: from_u32_def supported_ids_def)

lemma supported_ids_range: "supported_ids = range ggml_type_id"
  using is_ok_from_u32 by (auto simp: is_ok_iff from_u32_Ok_iff)

text \<open>Elements and bytes of one block of each type, as the size formulas have them.\<close>

fun type_block_elems :: "ggml_type \<Rightarrow> nat" where
  "type_block_elems F32 = 1"
| "type_block_elems F16 = 1"
| "type_block_elems Q4_0 = 32"
| "type_block_elems Q5_0 = 32"
| "type_block_elems Q8_0 = 32"
| "type_block_elems t = 256"

fun type_block_bytes :: "ggml_type \<Rightarrow> nat" where
  "type_block_bytes F32 = 4"
| "type_block_bytes F16 = 2"
| "type_block_bytes Q4_0 = 18"
| "type_block_bytes Q5_0 = 22"
| "type_block_bytes Q8_0 = 34"
| "type_block_bytes Q4_K = 144"
| "type_block_bytes Q5_K = 176"
| "type_block_bytes Q6_K = 210"

lemma div_ceil_1 [simp]: "div_ceil n (Suc 0) = n"
  by (simp add: div_ceil_def)

lemma ggml_type_bytes_eq:
  "ggml_type_bytes_per_tensor (ggml_type_id t) n =
   Ok (wmul (div_ceil n (type_block_elems t)) (type_block_bytes t))"
  unfolding ggml_type_bytes_per_tensor_def from_u32_type_id and_then.simps
  by (cases t) (simp_all add: calculate_q4_k_superblock_size_def calculate_q6_k_superblock_size_def)

lemma type_block_pos [simp]: "0 < type_block_elems t" "0 < type_block_bytes t"
  by (cases t; simp)+

text \<open>A block never holds more than four bytes per element, so a size that fits for F32 fits for all.\<close>

lemma type_block_ratio: "type_block_bytes t \<le> 4 * type_block_elems t"
  by (cases t) simp_all

lemma ggml_size_no_overflow:
  assumes "4 * (n + 256) < u64_range"
  shows "div_ceil n (type_block_elems t) * type_block_bytes t < u64_range"
proof -
  have "div_ceil n (type_block_elems t) * type_block_elems t \<le> n + 256"
  proof (cases "n = 0")
    case False
    have "(div_ceil n (type_block_elems t) - 1) * type_block_elems t < n"
      using False by (intro div_ceil_mult_less) auto
    moreover have "type_block_elems t \<le> 256" by (cases t) simp_all
    ultimately show ?thesis by (simp add: diff_mult_distrib)
  qed simp
  then have "div_ceil n (type_block_elems t) * (4 * type_block_elems t) \<le> 4 * (n + 256)"
    by (simp add: mult.left_commute)
  moreover have "div_ceil n (type_block_elems t) * type_block_bytes t \<le>
      div_ceil n (type_block_elems t) * (4 * type_block_elems t)"
    using type_block_ratio by (rule mult_le_mono2)
  ultimately show ?thesis using assms by linarith
qed

end
