(* ===== verification/Dequant.thy ===== *)
theory Dequant
  imports Ggml_Types Tensor
begin

text \<open>
  src/src/core/dequant: the six block formats of quantized tensors (q4_0, q5_0, q8_0, q4_k,
  q5_k, q6_k). Each function reads the blocks of one tensor from the mapped file and pushes
  their elements, the last block truncated to the element count.

  \<open>half::f16::to_f32\<close> is a function of the \<open>half\<close> crate: it is the parameter \<open>h\<close> here.
  The interface \<open>block_format\<close> states what the loop needs of one block; its client lemma
  gives the whole tensor, and the interpretations discharge it for each format.
\<close>

type_synonym bytes = "8 word list"

record gguf_tensor_info =
  ti_name :: string
  ti_dimensions :: "nat list"
  ti_ggml_type :: nat
  ti_offset :: nat

text \<open>\<open>u16::from_le_bytes\<close>, \<open>u32::from_le_bytes\<close>\<close>

definition le16 :: "8 word \<Rightarrow> 8 word \<Rightarrow> 16 word" where
  "le16 a b = ucast a OR push_bit 8 (ucast b)"

definition le32 :: "8 word \<Rightarrow> 8 word \<Rightarrow> 8 word \<Rightarrow> 8 word \<Rightarrow> 32 word" where
  "le32 a b c d = ucast a OR push_bit 8 (ucast b) OR push_bit 16 (ucast c) OR push_bit 24 (ucast d)"

section \<open>The interface of a block format\<close>

text \<open>
  \<open>block_dec\<close> turns the bytes of one block into its elements (None when the format rejects the
  block); \<open>body mmap start tot k out\<close> is the body of the loop over block \<open>k\<close>.
\<close>

definition block_at :: "nat \<Rightarrow> bytes \<Rightarrow> nat \<Rightarrow> nat \<Rightarrow> bytes" where
  "block_at bsize mmap start k = take bsize (drop (start + k * bsize) mmap)"

locale block_format =
  fixes elems bsize :: nat
    and block_dec :: "bytes \<Rightarrow> f32 list option"
    and body :: "gguf_tensor_info \<Rightarrow> bytes \<Rightarrow> nat \<Rightarrow> nat \<Rightarrow> nat \<Rightarrow> f32 list \<Rightarrow> f32 list lib_res"
  assumes elems_pos: "0 < elems" and elems_le: "elems \<le> 256"
    and dec_length: "length blk = bsize \<Longrightarrow> block_dec blk = Some v \<Longrightarrow> length v = elems"
    and body_Some: "\<lbrakk>start + (k + 1) * bsize \<le> length mmap; length mmap < u64_range;
      length out = k * elems; k * elems < tot; tot + 256 \<le> u64_range;
      block_dec (block_at bsize mmap start k) = Some v\<rbrakk> \<Longrightarrow>
      body info mmap start tot k out = Ok (out @ take (tot - k * elems) v)"
    and body_None: "\<lbrakk>start + (k + 1) * bsize \<le> length mmap; length mmap < u64_range;
      length out = k * elems; k * elems < tot; tot + 256 \<le> u64_range;
      block_dec (block_at bsize mmap start k) = None\<rbrakk> \<Longrightarrow>
      \<exists>e. body info mmap start tot k out = Err e"
begin

definition decoded :: "bytes \<Rightarrow> nat \<Rightarrow> nat \<Rightarrow> bool" where
  "decoded mmap start n = (\<forall>k<n. block_dec (block_at bsize mmap start k) \<noteq> None)"

definition elements :: "bytes \<Rightarrow> nat \<Rightarrow> nat \<Rightarrow> f32 list" where
  "elements mmap start n = concat (map (\<lambda>k. the (block_dec (block_at bsize mmap start k))) [0..<n])"

lemma block_length:
  "start + n * bsize \<le> length mmap \<Longrightarrow> k < n \<Longrightarrow> length (block_at bsize mmap start k) = bsize"
proof -
  assume a: "start + n * bsize \<le> length mmap" and "k < n"
  then have "(k + 1) * bsize \<le> n * bsize" by (intro mult_le_mono1) simp
  with a show ?thesis by (simp add: block_at_def)
qed

lemma elements_Suc: "elements mmap start (Suc n) = elements mmap start n @ the (block_dec (block_at bsize mmap start n))"
  by (simp add: elements_def)

lemma elements_props:
  assumes "start + n * bsize \<le> length mmap" and "decoded mmap start n"
  shows "length (elements mmap start n) = n * elems \<and>
    (\<forall>i < n * elems. elements mmap start n ! i =
      the (block_dec (block_at bsize mmap start (i div elems))) ! (i mod elems))"
  using assms
proof (induction n)
  case (Suc n)
  let ?v = "the (block_dec (block_at bsize mmap start n))"
  have IH: "length (elements mmap start n) = n * elems"
    "\<And>i. i < n * elems \<Longrightarrow> elements mmap start n ! i =
      the (block_dec (block_at bsize mmap start (i div elems))) ! (i mod elems)"
    using Suc by (auto simp: decoded_def)
  have v: "length ?v = elems"
    using dec_length [OF block_length [OF Suc.prems(1)], of n] Suc.prems(2) by (auto simp: decoded_def)
  have "elements mmap start (Suc n) ! i =
      the (block_dec (block_at bsize mmap start (i div elems))) ! (i mod elems)" if i: "i < Suc n * elems" for i
  proof (cases "i < n * elems")
    case True
    then show ?thesis using IH by (simp add: elements_Suc nth_append)
  next
    case False
    then have "i = n * elems + (i - n * elems)" "i - n * elems < elems" using i by simp_all
    then have "i div elems = n" "i mod elems = i - n * elems"
      by (metis add.right_neutral div_less div_mult_self3 elems_pos less_not_refl2, metis mod_less mod_mult_self3)
    then show ?thesis using False IH by (simp add: elements_Suc nth_append)
  qed
  then show ?case using IH v by (simp add: elements_Suc)
qed (simp add: elements_def)

lemma decoded_Suc:
  "decoded mmap start (Suc n) = (decoded mmap start n \<and> block_dec (block_at bsize mmap start n) \<noteq> None)"
  by (auto simp: decoded_def less_Suc_eq)

lemma run_prefix:
  assumes "start + n * bsize \<le> length mmap" "length mmap < u64_range" "tot + 256 \<le> u64_range"
    and "n \<le> div_ceil tot elems"
  shows "if decoded mmap start n
    then fold_res (body info mmap start tot) [0..<n] [] = Ok (take tot (elements mmap start n))
    else \<exists>e. fold_res (body info mmap start tot) [0..<n] [] = Err e"
  using assms
proof (induction n)
  case (Suc n)
  have bounds: "start + (n + 1) * bsize \<le> length mmap" using Suc.prems(1) by simp
  have "n * elems \<le> (div_ceil tot elems - 1) * elems" using Suc.prems(4) by (intro mult_le_mono1) simp
  moreover have "0 < tot" using Suc.prems(4) by (cases "tot = 0") auto
  then have "(div_ceil tot elems - 1) * elems < tot"
    by (rule div_ceil_mult_less [OF elems_pos])
  ultimately have lt: "n * elems < tot" by (rule le_less_trans)
  have IH: "if decoded mmap start n
    then fold_res (body info mmap start tot) [0..<n] [] = Ok (take tot (elements mmap start n))
    else \<exists>e. fold_res (body info mmap start tot) [0..<n] [] = Err e"
    using Suc by simp
  show ?case
  proof (cases "decoded mmap start n")
    case False
    with IH have "\<exists>e. fold_res (body info mmap start tot) [0..<Suc n] [] = Err e"
      by (auto simp: fold_res_append)
    moreover have "\<not> decoded mmap start (Suc n)" using False by (simp add: decoded_Suc)
    ultimately show ?thesis by simp
  next
    case True
    have len: "length (elements mmap start n) = n * elems"
      using elements_props [of start n mmap] True Suc.prems(1) by simp
    with lt have tk: "take tot (elements mmap start n) = elements mmap start n" by simp
    have step: "fold_res (body info mmap start tot) [0..<Suc n] [] =
        body info mmap start tot n (elements mmap start n)"
      using IH True by (simp add: fold_res_append fold_res_single tk)
    show ?thesis
    proof (cases "block_dec (block_at bsize mmap start n)")
      case None
      with body_None [OF bounds Suc.prems(2) len lt Suc.prems(3) None] step
      show ?thesis by (auto simp: decoded_Suc)
    next
      case (Some v)
      with True have d: "decoded mmap start (Suc n)" by (simp add: decoded_Suc)
      show ?thesis
        using body_Some [OF bounds Suc.prems(2) len lt Suc.prems(3) Some] step d lt len
        by (simp add: elements_Suc Some)
    qed
  qed
qed (simp add: decoded_def elements_def)

text \<open>
  The loop over all blocks: it fails exactly when a block is rejected, and otherwise the
  result holds \<open>tot\<close> values, the \<open>i\<close>-th being element \<open>i mod elems\<close> of block \<open>i div elems\<close>.
\<close>

lemma run_all:
  assumes "start + div_ceil tot elems * bsize \<le> length mmap" "length mmap < u64_range"
    and "tot + 256 \<le> u64_range"
  shows "if decoded mmap start (div_ceil tot elems)
    then \<exists>vs. fold_res (body info mmap start tot) [0..<div_ceil tot elems] [] = Ok vs \<and>
      length vs = tot \<and>
      (\<forall>i<tot. \<exists>blk. block_dec (block_at bsize mmap start (i div elems)) = Some blk \<and>
        vs ! i = blk ! (i mod elems))
    else \<exists>e. fold_res (body info mmap start tot) [0..<div_ceil tot elems] [] = Err e"
proof -
  let ?n = "div_ceil tot elems"
  have ge: "tot \<le> ?n * elems" using div_ceil_mult_ge [OF elems_pos] .
  show ?thesis
  proof (cases "decoded mmap start ?n")
    case True
    note p = elements_props [OF assms(1) True]
    have "\<exists>blk. block_dec (block_at bsize mmap start (i div elems)) = Some blk \<and>
        take tot (elements mmap start ?n) ! i = blk ! (i mod elems)" if i: "i < tot" for i
    proof -
      from div_ceil_block [OF elems_pos i] True
      obtain blk where b: "block_dec (block_at bsize mmap start (i div elems)) = Some blk"
        by (auto simp: decoded_def)
      have "i < ?n * elems" using i ge by simp
      with p b i show ?thesis by auto
    qed
    with True run_prefix [OF assms order_refl, of info] p ge show ?thesis by simp
  next
    case False
    with run_prefix [OF assms order_refl, of info] show ?thesis by simp
  qed
qed

end

section \<open>Reading a tensor's blocks\<close>

text \<open>Every format computes its extent in the same four lines.\<close>

definition data_start_of :: "gguf_tensor_info \<Rightarrow> nat \<Rightarrow> nat" where
  "data_start_of info base = wadd base (ti_offset info)"

definition data_end_of :: "gguf_tensor_info \<Rightarrow> nat \<Rightarrow> nat \<Rightarrow> nat \<Rightarrow> nat" where
  "data_end_of info base nb bsize = wadd (data_start_of info base) (wmul nb bsize)"

text \<open>\<open>[mmap[p], mmap[p + 1]]\<close> as a half-precision number\<close>

definition read_scale :: "(16 word \<Rightarrow> f32) \<Rightarrow> bytes \<Rightarrow> nat \<Rightarrow> f32 lib_res" where
  "read_scale h mmap p =
     and_then (idx mmap p) (\<lambda>a. and_then (idx mmap (wadd p 1)) (\<lambda>b. Ok (h (le16 a b))))"

text \<open>\<open>for (i, &val) in block_values.iter().enumerate() { if block_base + i < total { push } }\<close>\<close>

definition push_block :: "nat \<Rightarrow> nat \<Rightarrow> f32 list \<Rightarrow> f32 list \<Rightarrow> f32 list" where
  "push_block tot block_base vals out =
     out @ map snd (filter (\<lambda>(i, _). wadd block_base i < tot) (enumerate 0 vals))"

section \<open>Q4\_0\<close>

definition q4_0_low :: "f32 \<Rightarrow> 8 word \<Rightarrow> f32" where
  "q4_0_low scale b = f32_mul (f32_of_int (uint (b AND 0x0F) - 8)) scale"

definition q4_0_high :: "f32 \<Rightarrow> 8 word \<Rightarrow> f32" where
  "q4_0_high scale b = f32_mul (f32_of_int (uint (drop_bit 4 b AND 0x0F) - 8)) scale"

definition q4_0_body ::
  "(16 word \<Rightarrow> f32) \<Rightarrow> gguf_tensor_info \<Rightarrow> bytes \<Rightarrow> nat \<Rightarrow> nat \<Rightarrow> nat \<Rightarrow> f32 list \<Rightarrow> f32 list lib_res" where
  "q4_0_body h info mmap data_start tot block_idx out =
     (let block_start = wadd data_start (wmul block_idx 18) in
      and_then (read_scale h mmap block_start) (\<lambda>scale.
      and_then (traverse (\<lambda>j. idx mmap (wadd (wadd block_start 2) j)) [0..<16]) (\<lambda>qs.
        let block_values = apply_writes
          (concat (map (\<lambda>j. [(j, q4_0_low scale (qs ! j)), (j + 16, q4_0_high scale (qs ! j))]) [0..<16]))
          (replicate 32 0)
        in Ok (push_block tot (wmul block_idx 32) block_values out))))"

definition dequantize_q4_0 :: "(16 word \<Rightarrow> f32) \<Rightarrow> gguf_tensor_info \<Rightarrow> bytes \<Rightarrow> nat \<Rightarrow> tensor lib_res" where
  "dequantize_q4_0 h info mmap base =
     (let tot = usize_product (ti_dimensions info); num_blocks = div_ceil tot 32;
          data_start = data_start_of info base; data_end = data_end_of info base num_blocks 18 in
      if length mmap < data_end then Err (FixtureError ''Tensor data extends beyond file'')
      else and_then (fold_res (q4_0_body h info mmap data_start tot) [0..<num_blocks] []) (\<lambda>vs.
        tensor_new (take tot vs) (ti_dimensions info)))"

text \<open>Element \<open>i\<close> of a block, from the block's own bytes.\<close>

definition q4_0_elem :: "(16 word \<Rightarrow> f32) \<Rightarrow> bytes \<Rightarrow> nat \<Rightarrow> f32" where
  "q4_0_elem h blk i =
     (let scale = h (le16 (blk ! 0) (blk ! 1)) in
      if i < 16 then q4_0_low scale (blk ! (2 + i)) else q4_0_high scale (blk ! (2 + (i - 16))))"

section \<open>Reads inside a block\<close>

lemma block_start_eq:
  assumes "start + (k + 1) * bsize \<le> length mmap" "length mmap < u64_range"
  shows "wadd start (wmul k bsize) = start + k * bsize"
proof -
  have "start + k * bsize < u64_range" using assms by simp
  then have "k * bsize < u64_range" by simp
  with \<open>start + k * bsize < u64_range\<close> show ?thesis by simp
qed

lemma block_read:
  assumes "start + (k + 1) * bsize \<le> length mmap" "length mmap < u64_range" and "j < bsize"
  shows "wadd (start + k * bsize) j = start + k * bsize + j"
    and "idx mmap (start + k * bsize + j) = Ok (block_at bsize mmap start k ! j)"
  using assms by (simp_all add: idx_def block_at_def)

lemma block_slice:
  assumes "start + (k + 1) * bsize \<le> length mmap" "length mmap < u64_range"
  shows "slice mmap (start + k * bsize) (wadd (start + k * bsize) bsize) = Ok (block_at bsize mmap start k)"
  using assms by (simp add: slice_def block_at_def)

lemma read_scale_block:
  assumes "start + (k + 1) * bsize \<le> length mmap" "length mmap < u64_range" and "2 \<le> bsize"
  shows "read_scale h mmap (start + k * bsize) =
    Ok (h (le16 (block_at bsize mmap start k ! 0) (block_at bsize mmap start k ! 1)))"
  using block_read [OF assms(1,2), of 0] block_read [OF assms(1,2), of 1] assms(3)
  by (simp add: read_scale_def)

lemma traverse_block:
  assumes "start + (k + 1) * bsize \<le> length mmap" "length mmap < u64_range" and "p + n \<le> bsize"
  shows "traverse (\<lambda>j. idx mmap (wadd (wadd (start + k * bsize) p) j)) [0..<n] =
    Ok (map (\<lambda>j. block_at bsize mmap start k ! (p + j)) [0..<n])"
proof (rule traverse_map_Ok)
  fix j assume "j \<in> set [0..<n]"
  with assms(3) have j: "p + j < bsize" by simp
  with assms(1,2) have "start + k * bsize + (p + j) < u64_range" by simp
  then have "wadd (wadd (start + k * bsize) p) j = start + k * bsize + (p + j)" by simp
  with block_read(2) [OF assms(1,2) j]
  show "idx mmap (wadd (wadd (start + k * bsize) p) j) = Ok (block_at bsize mmap start k ! (p + j))"
    by simp
qed

lemma push_enumerate:
  "base + n + length vals \<le> u64_range \<Longrightarrow>
   map snd (filter (\<lambda>(i, _). wadd base i < tot) (enumerate n vals)) = take (tot - (base + n)) vals"
proof (induction vals arbitrary: n)
  case (Cons v vals)
  then have "base + n < u64_range" by simp
  moreover have "map snd (filter (\<lambda>(i, _). wadd base i < tot) (enumerate (Suc n) vals)) =
      take (tot - (base + Suc n)) vals"
    using Cons by (intro Cons.IH) simp
  ultimately show ?case by (cases "tot - (base + n)") (auto simp: Suc_diff_Suc dest: arg_cong [where f = "\<lambda>m. m - 1"])
qed simp

lemma push_block_eq:
  assumes "k * elems < tot" "tot + 256 \<le> u64_range" "elems \<le> 256" "length vals = elems"
  shows "push_block tot (wmul k elems) vals out = out @ take (tot - k * elems) vals"
proof -
  have "wmul k elems = k * elems" using assms by simp
  with push_enumerate [of "k * elems" 0 vals tot] assms show ?thesis by (simp add: push_block_def)
qed

lemma q4_0_body_eq:
  assumes b: "start + (k + 1) * 18 \<le> length mmap" "length mmap < u64_range"
    and "k * 32 < tot" "tot + 256 \<le> u64_range"
  shows "q4_0_body h info mmap start tot k out =
    Ok (out @ take (tot - k * 32) (map (q4_0_elem h (block_at 18 mmap start k)) [0..<32]))"
proof -
  let ?blk = "block_at 18 mmap start k"
  let ?scale = "h (le16 (?blk ! 0) (?blk ! 1))"
  let ?qs = "map (\<lambda>j. ?blk ! (2 + j)) [0..<16]"
  let ?ws = "concat (map (\<lambda>j. [(j, q4_0_low ?scale (?qs ! j)), (j + 16, q4_0_high ?scale (?qs ! j))]) [0..<16])"
  have w: "apply_writes ?ws (replicate 32 0) = map (q4_0_elem h ?blk) [0..<32]"
  proof (rule apply_writes_covering)
    show "{..<32} \<subseteq> fst ` set ?ws"
    proof
      fix i :: nat assume "i \<in> {..<32}"
      then have "i < 16 \<or> (\<exists>j<16. i = j + 16)" by (auto intro: exI [of _ "i - 16"])
      then show "i \<in> fst ` set ?ws" by (auto simp: image_iff)
    qed
  qed (auto simp: q4_0_elem_def Let_def)
  have r: "read_scale h mmap (start + k * 18) = Ok ?scale"
    by (rule read_scale_block [OF b]) simp
  have t: "traverse (\<lambda>j. idx mmap (wadd (wadd (start + k * 18) 2) j)) [0..<16] = Ok ?qs"
    by (rule traverse_block [OF b]) simp
  show ?thesis
    unfolding q4_0_body_def Let_def block_start_eq [OF b] r t and_then.simps w
    using push_block_eq [OF assms(3,4)] by simp
qed

interpretation q4_0: block_format 32 18 "\<lambda>blk. Some (map (q4_0_elem h blk) [0..<32])" "q4_0_body h" for h
  by unfold_locales (auto simp: q4_0_body_eq)

section \<open>Q5\_0\<close>

text \<open>\<open>((low | (high << 4)) as i32 - 16) as f32 * scale\<close> on the \<open>u32\<close> values of the code\<close>

definition q5_0_value :: "f32 \<Rightarrow> 32 word \<Rightarrow> 32 word \<Rightarrow> f32" where
  "q5_0_value scale low high = f32_mul (f32_of_int (sint (low OR push_bit 4 high) - 16)) scale"

definition q5_0_first :: "f32 \<Rightarrow> 32 word \<Rightarrow> nat \<Rightarrow> 8 word \<Rightarrow> f32" where
  "q5_0_first scale qh j b = q5_0_value scale (ucast (b AND 0x0F)) (drop_bit j qh AND 1)"

definition q5_0_second :: "f32 \<Rightarrow> 32 word \<Rightarrow> nat \<Rightarrow> 8 word \<Rightarrow> f32" where
  "q5_0_second scale qh j b = q5_0_value scale (ucast (drop_bit 4 b AND 0x0F)) (drop_bit (j + 16) qh AND 1)"

definition q5_0_body ::
  "(16 word \<Rightarrow> f32) \<Rightarrow> gguf_tensor_info \<Rightarrow> bytes \<Rightarrow> nat \<Rightarrow> nat \<Rightarrow> nat \<Rightarrow> f32 list \<Rightarrow> f32 list lib_res" where
  "q5_0_body h info mmap data_start tot block_idx out =
     (let block_start = wadd data_start (wmul block_idx 22) in
      and_then (read_scale h mmap block_start) (\<lambda>scale.
      and_then (traverse (\<lambda>j. idx mmap (wadd (wadd block_start 2) j)) [0..<4]) (\<lambda>hs.
      and_then (traverse (\<lambda>j. idx mmap (wadd (wadd block_start 6) j)) [0..<16]) (\<lambda>qs.
        let qh = le32 (hs ! 0) (hs ! 1) (hs ! 2) (hs ! 3);
            block_values = apply_writes
              (concat (map (\<lambda>j. [(j, q5_0_first scale qh j (qs ! j)),
                                   (j + 16, q5_0_second scale qh j (qs ! j))]) [0..<16]))
              (replicate 32 0)
        in Ok (push_block tot (wmul block_idx 32) block_values out)))))"

definition dequantize_q5_0 :: "(16 word \<Rightarrow> f32) \<Rightarrow> gguf_tensor_info \<Rightarrow> bytes \<Rightarrow> nat \<Rightarrow> tensor lib_res" where
  "dequantize_q5_0 h info mmap base =
     (let tot = usize_product (ti_dimensions info); num_blocks = div_ceil tot 32;
          data_start = data_start_of info base; data_end = data_end_of info base num_blocks 22 in
      if length mmap < data_end then Err (FixtureError ''Q5_0 tensor data extends beyond file'')
      else and_then (fold_res (q5_0_body h info mmap data_start tot) [0..<num_blocks] []) (\<lambda>vs.
        tensor_new (take tot vs) (ti_dimensions info)))"

definition q5_0_elem :: "(16 word \<Rightarrow> f32) \<Rightarrow> bytes \<Rightarrow> nat \<Rightarrow> f32" where
  "q5_0_elem h blk i =
     (let scale = h (le16 (blk ! 0) (blk ! 1)); qh = le32 (blk ! 2) (blk ! 3) (blk ! 4) (blk ! 5) in
      if i < 16 then q5_0_first scale qh i (blk ! (6 + i))
      else q5_0_second scale qh (i - 16) (blk ! (6 + (i - 16))))"

lemma q5_0_body_eq:
  assumes b: "start + (k + 1) * 22 \<le> length mmap" "length mmap < u64_range"
    and "k * 32 < tot" "tot + 256 \<le> u64_range"
  shows "q5_0_body h info mmap start tot k out =
    Ok (out @ take (tot - k * 32) (map (q5_0_elem h (block_at 22 mmap start k)) [0..<32]))"
proof -
  let ?blk = "block_at 22 mmap start k"
  let ?scale = "h (le16 (?blk ! 0) (?blk ! 1))"
  let ?hs = "map (\<lambda>j. ?blk ! (2 + j)) [0..<4]"
  let ?qh = "le32 (?blk ! 2) (?blk ! 3) (?blk ! 4) (?blk ! 5)"
  let ?qs = "map (\<lambda>j. ?blk ! (6 + j)) [0..<16]"
  let ?ws = "concat (map (\<lambda>j. [(j, q5_0_first ?scale ?qh j (?qs ! j)),
    (j + 16, q5_0_second ?scale ?qh j (?qs ! j))]) [0..<16])"
  have w: "apply_writes ?ws (replicate 32 0) = map (q5_0_elem h ?blk) [0..<32]"
  proof (rule apply_writes_covering)
    show "{..<32} \<subseteq> fst ` set ?ws"
    proof
      fix i :: nat assume "i \<in> {..<32}"
      then have "i < 16 \<or> (\<exists>j<16. i = j + 16)" by (auto intro: exI [of _ "i - 16"])
      then show "i \<in> fst ` set ?ws" by (auto simp: image_iff)
    qed
  qed (auto simp: q5_0_elem_def Let_def)
  have qh: "le32 (?hs ! 0) (?hs ! 1) (?hs ! 2) (?hs ! 3) = ?qh" by (simp add: eval_nat_numeral)
  have r: "read_scale h mmap (start + k * 22) = Ok ?scale"
    by (rule read_scale_block [OF b]) simp
  have t1: "traverse (\<lambda>j. idx mmap (wadd (wadd (start + k * 22) 2) j)) [0..<4] = Ok ?hs"
    by (rule traverse_block [OF b]) simp
  have t2: "traverse (\<lambda>j. idx mmap (wadd (wadd (start + k * 22) 6) j)) [0..<16] = Ok ?qs"
    by (rule traverse_block [OF b]) simp
  show ?thesis
    unfolding q5_0_body_def Let_def block_start_eq [OF b] r t1 t2 and_then.simps qh w
    using push_block_eq [OF assms(3,4)] by simp
qed

interpretation q5_0: block_format 32 22 "\<lambda>blk. Some (map (q5_0_elem h blk) [0..<32])" "q5_0_body h" for h
  by unfold_locales (auto simp: q5_0_body_eq)

section \<open>Q8\_0\<close>

definition q8_0_push ::
  "bytes \<Rightarrow> nat \<Rightarrow> f32 \<Rightarrow> nat \<Rightarrow> f32 list \<Rightarrow> f32 list lib_res" where
  "q8_0_push mmap block_start scale i out =
     and_then (idx mmap (wadd (wadd block_start 2) i)) (\<lambda>b.
       Ok (out @ [f32_mul (f32_of_int (sint b)) scale]))"

text \<open>The inner loop breaks at the first index past the element count.\<close>

definition q8_0_body ::
  "(16 word \<Rightarrow> f32) \<Rightarrow> gguf_tensor_info \<Rightarrow> bytes \<Rightarrow> nat \<Rightarrow> nat \<Rightarrow> nat \<Rightarrow> f32 list \<Rightarrow> f32 list lib_res" where
  "q8_0_body h info mmap data_start tot block_idx out =
     (let block_start = wadd data_start (wmul block_idx 34) in
      and_then (read_scale h mmap block_start) (\<lambda>scale.
        let block_base = wmul block_idx 32 in
        fold_res (q8_0_push mmap block_start scale)
          (takeWhile (\<lambda>i. wadd block_base i < tot) [0..<32]) out))"

definition dequantize_q8_0 :: "(16 word \<Rightarrow> f32) \<Rightarrow> gguf_tensor_info \<Rightarrow> bytes \<Rightarrow> nat \<Rightarrow> tensor lib_res" where
  "dequantize_q8_0 h info mmap base =
     (let tot = usize_product (ti_dimensions info); num_blocks = div_ceil tot 32;
          data_start = data_start_of info base; data_end = data_end_of info base num_blocks 34 in
      if length mmap < data_end then Err (FixtureError ''Q8_0 tensor data extends beyond file'')
      else and_then (fold_res (q8_0_body h info mmap data_start tot) [0..<num_blocks] []) (\<lambda>vs.
        tensor_new (take tot vs) (ti_dimensions info)))"

definition q8_0_elem :: "(16 word \<Rightarrow> f32) \<Rightarrow> bytes \<Rightarrow> nat \<Rightarrow> f32" where
  "q8_0_elem h blk i = f32_mul (f32_of_int (sint (blk ! (2 + i)))) (h (le16 (blk ! 0) (blk ! 1)))"

lemma fold_push:
  assumes "\<And>i out. i \<in> set is \<Longrightarrow> f i out = Ok (out @ [g i])"
  shows "fold_res f is out = Ok (out @ map g is)"
  using assms by (induction "is" arbitrary: out) auto

lemma takeWhile_upt: "takeWhile (\<lambda>i. i < m) [a..<b] = [a..<min m b]"
proof (induction b)
  case (Suc b)
  show ?case
  proof (cases "a \<le> b")
    case True
    then have s: "[a..<Suc b] = [a..<b] @ [b]" by simp
    show ?thesis
    proof (cases "b \<le> m")
      case True
      then have "takeWhile (\<lambda>i. i < m) [a..<Suc b] = [a..<b] @ takeWhile (\<lambda>i. i < m) [b]"
        unfolding s by (intro takeWhile_append2) simp
      with True \<open>a \<le> b\<close> show ?thesis by (cases "b = m") simp_all
    next
      case False
      show ?thesis
      proof (cases "a \<le> m")
        case True
        then have "takeWhile (\<lambda>i. i < m) ([a..<b] @ [b]) = takeWhile (\<lambda>i. i < m) [a..<b]"
          using False by (intro takeWhile_append1 [of m]) auto
        with Suc False \<open>a \<le> b\<close> show ?thesis by simp
      next
        case False
        then show ?thesis using \<open>a \<le> b\<close> by (simp add: upt_rec)
      qed
    qed
  qed simp
qed simp

lemma q8_0_body_eq:
  assumes b: "start + (k + 1) * 34 \<le> length mmap" "length mmap < u64_range"
    and t: "k * 32 < tot" "tot + 256 \<le> u64_range"
  shows "q8_0_body h info mmap start tot k out =
    Ok (out @ take (tot - k * 32) (map (q8_0_elem h (block_at 34 mmap start k)) [0..<32]))"
proof -
  let ?blk = "block_at 34 mmap start k"
  let ?scale = "h (le16 (?blk ! 0) (?blk ! 1))"
  have r: "read_scale h mmap (start + k * 34) = Ok ?scale"
    by (rule read_scale_block [OF b]) simp
  have kb: "wmul k 32 = k * 32" using t by simp
  have "takeWhile (\<lambda>i. wadd (k * 32) i < tot) [0..<32] = takeWhile (\<lambda>i. i < tot - k * 32) [0..<32]"
    using t by (intro takeWhile_cong) auto
  then have tw: "takeWhile (\<lambda>i. wadd (k * 32) i < tot) [0..<32] = [0..<min (tot - k * 32) 32]"
    by (simp add: takeWhile_upt)
  have p: "q8_0_push mmap (start + k * 34) ?scale i out = Ok (out @ [q8_0_elem h ?blk i])"
    if "i \<in> set [0..<min (tot - k * 32) 32]" for i out
  proof -
    have j: "2 + i < 34" using that by simp
    with b have a: "wadd (wadd (start + k * 34) 2) i = start + k * 34 + (2 + i)" by simp
    show ?thesis unfolding q8_0_push_def a block_read(2) [OF b j] and_then.simps q8_0_elem_def ..
  qed
  have "take (tot - k * 32) (map (q8_0_elem h ?blk) [0..<32]) = map (q8_0_elem h ?blk) [0..<min (tot - k * 32) 32]"
    by (simp add: take_map min_def)
  with fold_push [of "[0..<min (tot - k * 32) 32]", OF p] show ?thesis
    unfolding q8_0_body_def Let_def block_start_eq [OF b] r and_then.simps kb tw by simp
qed

interpretation q8_0: block_format 32 34 "\<lambda>blk. Some (map (q8_0_elem h blk) [0..<32])" "q8_0_body h" for h
  by unfold_locales (auto simp: q8_0_body_eq)

section \<open>Q4\_K\<close>

text \<open>The 6-bit scale and minimum of sub-block \<open>j < 8\<close> from the 12 scale bytes.\<close>

definition get_scale_min_k4 :: "nat \<Rightarrow> bytes \<Rightarrow> 8 word \<times> 8 word" where
  "get_scale_min_k4 j q =
     (if j < 4 then (q ! j AND 63, q ! (j + 4) AND 63)
      else ((q ! (j + 4) AND 0x0F) OR push_bit 4 (drop_bit 6 (q ! (j - 4)) AND 0x03),
            (drop_bit 4 (q ! (j + 4)) AND 0x0F) OR push_bit 4 (drop_bit 6 (q ! j) AND 0x03)))"

definition u8_f32 :: "8 word \<Rightarrow> f32" where
  "u8_f32 b = f32_of_int (uint b)"

text \<open>
  One round of the loop over 64 elements: \<open>q\<close> is the rest of the quantized bytes, \<open>is\<close> the
  sub-block. The stores \<open>out[out_idx] = ..; out_idx += 1\<close> append.
\<close>

definition q4_k_round ::
  "f32 \<Rightarrow> f32 \<Rightarrow> bytes \<Rightarrow> bytes \<times> nat \<times> f32 list \<Rightarrow> bytes \<times> nat \<times> f32 list" where
  "q4_k_round d dmin scales = (\<lambda>(q, is, out).
     let (sc0, m0) = get_scale_min_k4 is scales;
         d1 = f32_mul d (u8_f32 sc0); m1 = f32_mul dmin (u8_f32 m0);
         (sc1, m1u) = get_scale_min_k4 (is + 1) scales;
         d2 = f32_mul d (u8_f32 sc1); m2 = f32_mul dmin (u8_f32 m1u)
     in (drop 32 q, is + 2,
         out @ map (\<lambda>qb. f32_sub (f32_mul d1 (u8_f32 (qb AND 0x0F))) m1) (take 32 q)
             @ map (\<lambda>qb. f32_sub (f32_mul d2 (u8_f32 (drop_bit 4 qb))) m2) (take 32 q)))"

definition dequantize_q4_k_block :: "(16 word \<Rightarrow> f32) \<Rightarrow> bytes \<Rightarrow> (dequant_reason, f32 list) res" where
  "dequantize_q4_k_block h block =
     (if length block \<noteq> 144
      then Err (Reason_Text (''Q4_K block should be '' @ dec 144 @ '' bytes, got '' @ dec (length block)))
      else let d = h (le16 (block ! 0) (block ! 1)); dmin = h (le16 (block ! 2) (block ! 3)) in
        if \<not> f32_is_finite d \<or> \<not> f32_is_finite dmin then Err (Reason_NonFinite_Scale d dmin)
        else let scales = take 12 (drop 4 block); q = take 128 (drop 16 block) in
          Ok (snd (snd ((q4_k_round d dmin scales ^^ 4) (q, 0, [])))))"

text \<open>The first non-finite element with its index.\<close>

fun find_non_finite :: "nat \<Rightarrow> f32 list \<Rightarrow> (nat \<times> f32) option" where
  "find_non_finite i [] = None"
| "find_non_finite i (v # vs) = (if f32_is_finite v then find_non_finite (i + 1) vs else Some (i, v))"

text \<open>Both readers with a minimum end alike: reject a non-finite element, else build the tensor.\<close>

definition finite_tensor :: "gguf_tensor_info \<Rightarrow> string \<Rightarrow> f32 list \<Rightarrow> tensor lib_res" where
  "finite_tensor info T vs =
     (case find_non_finite 0 vs of
        Some (i, v) \<Rightarrow> Err (DequantizationError (ti_name info) (ti_ggml_type info) T
          (Reason_NonFinite_Element i v))
      | None \<Rightarrow> tensor_new vs (ti_dimensions info))"

definition q4_k_body ::
  "(16 word \<Rightarrow> f32) \<Rightarrow> gguf_tensor_info \<Rightarrow> bytes \<Rightarrow> nat \<Rightarrow> nat \<Rightarrow> nat \<Rightarrow> f32 list \<Rightarrow> f32 list lib_res" where
  "q4_k_body h info mmap data_start tot block_idx out =
     (let block_start = wadd data_start (wmul block_idx 144) in
      and_then (slice mmap block_start (wadd block_start 144)) (\<lambda>block.
      and_then (map_err (\<lambda>e. DequantizationError (ti_name info) (ti_ggml_type info) ''Q4_K''
                  (Reason_Block block_idx e)) (dequantize_q4_k_block h block)) (\<lambda>block_fp32.
      and_then (slice block_fp32 0 (min 256 (tot - length out))) (\<lambda>vs. Ok (out @ vs)))))"

definition dequantize_q4_k :: "(16 word \<Rightarrow> f32) \<Rightarrow> gguf_tensor_info \<Rightarrow> bytes \<Rightarrow> nat \<Rightarrow> tensor lib_res" where
  "dequantize_q4_k h info mmap base =
     (let tot = usize_product (ti_dimensions info); num_blocks = div_ceil tot 256;
          data_start = data_start_of info base; data_end = data_end_of info base num_blocks 144 in
      if length mmap < data_end
      then Err (TensorBounds (ti_name info) (ti_ggml_type info) ''Q4_K'' data_end (length mmap))
      else and_then (fold_res (q4_k_body h info mmap data_start tot) [0..<num_blocks] []) 
        (finite_tensor info ''Q4_K''))"

section \<open>Q5\_K\<close>

definition q5_k_elem :: "f32 \<Rightarrow> f32 \<Rightarrow> 8 word \<Rightarrow> 8 word \<Rightarrow> nat \<Rightarrow> f32" where
  "q5_k_elem d m nibble qh_byte bt =
     (let high_bit = u8_f32 (drop_bit bt qh_byte AND 1);
          q5 = f32_add (u8_f32 nibble) (f32_mul high_bit (f32_of_int 16))
      in f32_sub (f32_mul d q5) m)"

definition q5_k_group ::
  "f32 \<Rightarrow> f32 \<Rightarrow> bytes \<Rightarrow> bytes \<Rightarrow> bytes \<Rightarrow> nat \<Rightarrow> (nat \<times> f32) list" where
  "q5_k_group d dmin scales qh qs grp =
     (let is = 2 * grp;
          (sc0, m0) = get_scale_min_k4 is scales;
          (sc1, m1u) = get_scale_min_k4 (is + 1) scales;
          d1 = f32_mul d (u8_f32 sc0); m1 = f32_mul dmin (u8_f32 m0);
          d2 = f32_mul d (u8_f32 sc1); m2 = f32_mul dmin (u8_f32 m1u);
          bit0 = grp * 2; bit1 = grp * 2 + 1
      in map (\<lambda>l. (grp * 64 + l, q5_k_elem d1 m1 (qs ! (grp * 32 + l) AND 0x0F) (qh ! l) bit0)) [0..<32] @
         map (\<lambda>l. (grp * 64 + 32 + l, q5_k_elem d2 m2 (drop_bit 4 (qs ! (grp * 32 + l))) (qh ! l) bit1)) [0..<32])"

text \<open>The stores of the four groups, in order.\<close>

definition dequantize_q5_k_block :: "(16 word \<Rightarrow> f32) \<Rightarrow> bytes \<Rightarrow> (dequant_reason, f32 list) res" where
  "dequantize_q5_k_block h block =
     (if length block \<noteq> 176
      then Err (Reason_Text (''Q5_K block should be '' @ dec 176 @ '' bytes, got '' @ dec (length block)))
      else let d = h (le16 (block ! 0) (block ! 1)); dmin = h (le16 (block ! 2) (block ! 3)) in
        if \<not> f32_is_finite d \<or> \<not> f32_is_finite dmin then Err (Reason_NonFinite_Scale d dmin)
        else let scales = take 12 (drop 4 block); qh = take 32 (drop 16 block); qs = take 128 (drop 48 block) in
          Ok (apply_writes (concat (map (q5_k_group d dmin scales qh qs) [0..<4])) (replicate 256 0)))"

definition q5_k_body ::
  "(16 word \<Rightarrow> f32) \<Rightarrow> gguf_tensor_info \<Rightarrow> bytes \<Rightarrow> nat \<Rightarrow> nat \<Rightarrow> nat \<Rightarrow> f32 list \<Rightarrow> f32 list lib_res" where
  "q5_k_body h info mmap data_start tot block_idx out =
     (let block_start = wadd data_start (wmul block_idx 176) in
      and_then (slice mmap block_start (wadd block_start 176)) (\<lambda>block.
      and_then (map_err (\<lambda>e. DequantizationError (ti_name info) (ti_ggml_type info) ''Q5_K''
                  (Reason_Block block_idx e)) (dequantize_q5_k_block h block)) (\<lambda>block_fp32.
      and_then (slice block_fp32 0 (min 256 (tot - length out))) (\<lambda>vs. Ok (out @ vs)))))"

definition dequantize_q5_k :: "(16 word \<Rightarrow> f32) \<Rightarrow> gguf_tensor_info \<Rightarrow> bytes \<Rightarrow> nat \<Rightarrow> tensor lib_res" where
  "dequantize_q5_k h info mmap base =
     (let tot = usize_product (ti_dimensions info); num_blocks = div_ceil tot 256;
          data_start = data_start_of info base; data_end = data_end_of info base num_blocks 176 in
      if length mmap < data_end
      then Err (TensorBounds (ti_name info) (ti_ggml_type info) ''Q5_K'' data_end (length mmap))
      else and_then (fold_res (q5_k_body h info mmap data_start tot) [0..<num_blocks] []) 
        (finite_tensor info ''Q5_K''))"

section \<open>Q6\_K\<close>

text \<open>\<open>(bits as i8 - 32) as f32\<close>; the six bits never reach the sign of the \<open>i8\<close>.\<close>

definition q6_value :: "8 word \<Rightarrow> f32" where
  "q6_value w = f32_of_int (sint w - 32)"

definition q6_scaled :: "f32 \<Rightarrow> 8 word \<Rightarrow> 8 word \<Rightarrow> f32" where
  "q6_scaled d sc q = f32_mul (f32_mul d (f32_of_int (sint sc))) (q6_value q)"

definition q6_k_stores :: "f32 \<Rightarrow> bytes \<Rightarrow> bytes \<Rightarrow> bytes \<Rightarrow> nat \<Rightarrow> nat \<Rightarrow> (nat \<times> f32) list" where
  "q6_k_stores d ql qh scales n l =
     (let y_offset = n * 128; ql_idx = n * 64 + l; qh_idx = n * 32 + l; sc_offset = n * 8; is = l div 16;
          q1 = (ql ! ql_idx AND 0x0F) OR push_bit 4 (qh ! qh_idx AND 0x03);
          q2 = (ql ! (ql_idx + 32) AND 0x0F) OR push_bit 4 (drop_bit 2 (qh ! qh_idx) AND 0x03);
          q3 = drop_bit 4 (ql ! ql_idx) OR push_bit 4 (drop_bit 4 (qh ! qh_idx) AND 0x03);
          q4 = drop_bit 4 (ql ! (ql_idx + 32)) OR push_bit 4 (drop_bit 6 (qh ! qh_idx) AND 0x03)
      in [(y_offset + l, q6_scaled d (scales ! (sc_offset + is)) q1),
          (y_offset + l + 32, q6_scaled d (scales ! (sc_offset + is + 2)) q2),
          (y_offset + l + 64, q6_scaled d (scales ! (sc_offset + is + 4)) q3),
          (y_offset + l + 96, q6_scaled d (scales ! (sc_offset + is + 6)) q4)])"

text \<open>The caller passes a slice of exactly 210 bytes.\<close>

definition dequantize_q6_k_superblock :: "(16 word \<Rightarrow> f32) \<Rightarrow> bytes \<Rightarrow> f32 list" where
  "dequantize_q6_k_superblock h data =
     (let ql = take 128 data; qh = take 64 (drop 128 data); scales = take 16 (drop 192 data);
          d = h (le16 (data ! 208) (data ! 209))
      in apply_writes (concat (map (\<lambda>n. concat (map (q6_k_stores d ql qh scales n) [0..<32])) [0..<2]))
           (replicate 256 0))"

definition q6_k_body ::
  "(16 word \<Rightarrow> f32) \<Rightarrow> gguf_tensor_info \<Rightarrow> bytes \<Rightarrow> nat \<Rightarrow> nat \<Rightarrow> nat \<Rightarrow> f32 list \<Rightarrow> f32 list lib_res" where
  "q6_k_body h info mmap data_start tot block_idx out =
     (let block_start = wadd data_start (wmul block_idx 210) in
      and_then (slice mmap block_start (wadd block_start 210)) (\<lambda>block.
      and_then (slice (dequantize_q6_k_superblock h block) 0 (min 256 (tot - length out))) (\<lambda>vs.
        Ok (out @ vs))))"

definition dequantize_q6_k :: "(16 word \<Rightarrow> f32) \<Rightarrow> gguf_tensor_info \<Rightarrow> bytes \<Rightarrow> nat \<Rightarrow> tensor lib_res" where
  "dequantize_q6_k h info mmap base =
     (let tot = usize_product (ti_dimensions info); num_blocks = div_ceil tot 256;
          data_start = data_start_of info base; data_end = data_end_of info base num_blocks 210 in
      if length mmap < data_end
      then Err (TensorBounds (ti_name info) (ti_ggml_type info) (type_name_or_unknown (ti_ggml_type info))
             data_end (length mmap))
      else and_then (fold_res (q6_k_body h info mmap data_start tot) [0..<num_blocks] []) (\<lambda>vs.
        tensor_new vs (ti_dimensions info)))"

section \<open>The K formats satisfy the interface\<close>

definition ok_value :: "('e, 'a) res \<Rightarrow> 'a option" where
  "ok_value m = (case m of Ok v \<Rightarrow> Some v | _ \<Rightarrow> None)"

lemma length_q4_k_rounds:
  "length q = n * 32 \<Longrightarrow>
   length (snd (snd ((q4_k_round d dmin scales ^^ n) (q, is, out)))) = length out + n * 64"
proof (induction n arbitrary: q "is" out)
  case (Suc n)
  obtain q' is' out' where r: "q4_k_round d dmin scales (q, is, out) = (q', is', out')"
    by (cases "q4_k_round d dmin scales (q, is, out)") auto
  then have "length q' = n * 32" "length out' = length out + 64"
    using Suc.prems by (auto simp: q4_k_round_def Let_def split: prod.splits)
  with Suc.IH [of q' is' out'] r show ?case by (simp add: funpow_Suc_right del: funpow.simps)
qed simp

lemma q4_k_length: "dequantize_q4_k_block h blk = Ok v \<Longrightarrow> length v = 256"
  using length_q4_k_rounds [of "take 128 (drop 16 blk)" 4]
  by (auto simp: dequantize_q4_k_block_def Let_def split: if_splits)

lemma q5_k_length: "dequantize_q5_k_block h blk = Ok v \<Longrightarrow> length v = 256"
  by (auto simp: dequantize_q5_k_block_def Let_def split: if_splits)

lemma q6_k_length [simp]: "length (dequantize_q6_k_superblock h blk) = 256"
  by (simp add: dequantize_q6_k_superblock_def Let_def)

lemma q4_k_not_panic [simp]: "dequantize_q4_k_block h blk \<noteq> Panic"
  by (simp add: dequantize_q4_k_block_def Let_def)

lemma q5_k_not_panic [simp]: "dequantize_q5_k_block h blk \<noteq> Panic"
  by (simp add: dequantize_q5_k_block_def Let_def)

lemma slice_prefix: "n \<le> length xs \<Longrightarrow> slice xs 0 n = Ok (take n xs)"
  by (simp add: slice_def)

lemma k_push:
  assumes "length out = k * 256" "length v = 256"
  shows "and_then (slice v 0 (min 256 (tot - length out))) (\<lambda>vs. Ok (out @ vs)) =
    Ok (out @ take (tot - k * 256) v)"
  using assms by (simp add: slice_prefix min_def)

interpretation q4_k: block_format 256 144 "\<lambda>blk. ok_value (dequantize_q4_k_block h blk)" "q4_k_body h" for h
proof unfold_locales
  fix start k and mmap :: bytes and out :: "f32 list" and tot info v
  assume b: "start + (k + 1) * 144 \<le> length mmap" "length mmap < u64_range"
    and o: "length out = k * 256"
  let ?r = "dequantize_q4_k_block h (block_at 144 mmap start k)"
  show "ok_value ?r = Some v \<Longrightarrow> q4_k_body h info mmap start tot k out = Ok (out @ take (tot - k * 256) v)"
    by (cases ?r) (simp_all add: q4_k_body_def block_start_eq [OF b] block_slice [OF b] ok_value_def
        k_push [OF o q4_k_length])
  show "ok_value ?r = None \<Longrightarrow> \<exists>e. q4_k_body h info mmap start tot k out = Err e"
    by (cases ?r) (simp_all add: q4_k_body_def block_start_eq [OF b] block_slice [OF b] ok_value_def)
qed (auto simp: ok_value_def q4_k_length split: res.splits)

interpretation q5_k: block_format 256 176 "\<lambda>blk. ok_value (dequantize_q5_k_block h blk)" "q5_k_body h" for h
proof unfold_locales
  fix start k and mmap :: bytes and out :: "f32 list" and tot info v
  assume b: "start + (k + 1) * 176 \<le> length mmap" "length mmap < u64_range"
    and o: "length out = k * 256"
  let ?r = "dequantize_q5_k_block h (block_at 176 mmap start k)"
  show "ok_value ?r = Some v \<Longrightarrow> q5_k_body h info mmap start tot k out = Ok (out @ take (tot - k * 256) v)"
    by (cases ?r) (simp_all add: q5_k_body_def block_start_eq [OF b] block_slice [OF b] ok_value_def
        k_push [OF o q5_k_length])
  show "ok_value ?r = None \<Longrightarrow> \<exists>e. q5_k_body h info mmap start tot k out = Err e"
    by (cases ?r) (simp_all add: q5_k_body_def block_start_eq [OF b] block_slice [OF b] ok_value_def)
qed (auto simp: ok_value_def q5_k_length split: res.splits)

lemma q6_k_body_eq:
  assumes b: "start + (k + 1) * 210 \<le> length mmap" "length mmap < u64_range"
    and o: "length out = k * 256"
  shows "q6_k_body h info mmap start tot k out =
    Ok (out @ take (tot - k * 256) (dequantize_q6_k_superblock h (block_at 210 mmap start k)))"
  by (simp add: q6_k_body_def block_start_eq [OF b] block_slice [OF b] k_push [OF o q6_k_length])

interpretation q6_k: block_format 256 210 "\<lambda>blk. Some (dequantize_q6_k_superblock h blk)" "q6_k_body h" for h
  by unfold_locales (auto simp: q6_k_body_eq)

section \<open>Whole tensors\<close>

text \<open>The extent of a tensor does not wrap around 64 bits.\<close>

definition extent_fits :: "nat \<Rightarrow> nat \<Rightarrow> gguf_tensor_info \<Rightarrow> bytes \<Rightarrow> nat \<Rightarrow> bool" where
  "extent_fits elems bsize info mmap base =
     (prod_list (ti_dimensions info) + 256 \<le> u64_range \<and> length mmap < u64_range \<and>
      base + ti_offset info + div_ceil (prod_list (ti_dimensions info)) elems * bsize < u64_range)"

text \<open>The tensor lies inside the file.\<close>

definition in_file :: "nat \<Rightarrow> nat \<Rightarrow> gguf_tensor_info \<Rightarrow> bytes \<Rightarrow> nat \<Rightarrow> bool" where
  "in_file elems bsize info mmap base =
     (base + ti_offset info + div_ceil (prod_list (ti_dimensions info)) elems * bsize \<le> length mmap)"

text \<open>
  \<open>t\<close> has the declared shape, and its \<open>i\<close>-th element is element \<open>i mod elems\<close> of block
  \<open>i div elems\<close> of the file.
\<close>

definition tensor_of_blocks ::
  "nat \<Rightarrow> nat \<Rightarrow> (bytes \<Rightarrow> f32 list option) \<Rightarrow> gguf_tensor_info \<Rightarrow> bytes \<Rightarrow> nat \<Rightarrow> tensor \<Rightarrow> bool" where
  "tensor_of_blocks elems bsize block_dec info mmap base t =
     (t_shape t = ti_dimensions info \<and> length (t_data t) = prod_list (ti_dimensions info) \<and>
      (\<forall>i < length (t_data t). \<exists>blk.
        block_dec (block_at bsize mmap (base + ti_offset info) (i div elems)) = Some blk \<and>
        t_data t ! i = blk ! (i mod elems)))"

lemma extent_fits_eqs:
  assumes "extent_fits elems bsize info mmap base"
  shows "usize_product (ti_dimensions info) = prod_list (ti_dimensions info)"
    and "data_start_of info base = base + ti_offset info"
    and "data_end_of info base (div_ceil (prod_list (ti_dimensions info)) elems) bsize =
      base + ti_offset info + div_ceil (prod_list (ti_dimensions info)) elems * bsize"
    and "length mmap < u64_range" and "prod_list (ti_dimensions info) + 256 \<le> u64_range"
  using assms
  by (simp_all add: extent_fits_def usize_product_small data_start_of_def data_end_of_def)

lemma tensor_new_product:
  "extent_fits elems bsize info mmap base \<Longrightarrow> length vs = prod_list (ti_dimensions info) \<Longrightarrow>
   tensor_new vs (ti_dimensions info) = Ok \<lparr>t_data = vs, t_shape = ti_dimensions info\<rparr>"
  by (simp add: tensor_new_Ok extent_fits_eqs)

context block_format
begin

lemma run_tensor:
  assumes "extent_fits elems bsize info mmap base" and "in_file elems bsize info mmap base"
  shows "(\<exists>vs. fold_res (body info mmap (base + ti_offset info) (prod_list (ti_dimensions info)))
        [0..<div_ceil (prod_list (ti_dimensions info)) elems] [] = Ok vs \<and>
      length vs = prod_list (ti_dimensions info) \<and>
      tensor_of_blocks elems bsize block_dec info mmap base \<lparr>t_data = vs, t_shape = ti_dimensions info\<rparr>) \<or>
    (\<exists>e. fold_res (body info mmap (base + ti_offset info) (prod_list (ti_dimensions info)))
        [0..<div_ceil (prod_list (ti_dimensions info)) elems] [] = Err e) \<and>
      (\<exists>k < div_ceil (prod_list (ti_dimensions info)) elems.
        block_dec (block_at bsize mmap (base + ti_offset info) k) = None)"
  using run_all [of "base + ti_offset info" "prod_list (ti_dimensions info)" mmap info]
    extent_fits_eqs [OF assms(1)] assms(2)
  by (auto simp: in_file_def tensor_of_blocks_def decoded_def split: if_splits)

end

text \<open>
  The Q4\_0, Q5\_0, Q8\_0 and Q6\_K readers reject no block: they succeed exactly on the
  tensors that lie inside the file.
\<close>

lemma dequantize_q4_0_result:
  assumes "extent_fits 32 18 info mmap base"
  shows "if in_file 32 18 info mmap base
    then \<exists>t. dequantize_q4_0 h info mmap base = Ok t \<and>
      tensor_of_blocks 32 18 (\<lambda>blk. Some (map (q4_0_elem h blk) [0..<32])) info mmap base t
    else dequantize_q4_0 h info mmap base = Err (FixtureError ''Tensor data extends beyond file'')"
proof (cases "in_file 32 18 info mmap base")
  case True
  from q4_0.run_tensor [OF assms True, of h] True show ?thesis
    by (auto simp: dequantize_q4_0_def Let_def extent_fits_eqs [OF assms] in_file_def
        tensor_new_product [OF assms])
qed (auto simp: dequantize_q4_0_def Let_def extent_fits_eqs [OF assms] in_file_def)

lemma dequantize_q5_0_result:
  assumes "extent_fits 32 22 info mmap base"
  shows "if in_file 32 22 info mmap base
    then \<exists>t. dequantize_q5_0 h info mmap base = Ok t \<and>
      tensor_of_blocks 32 22 (\<lambda>blk. Some (map (q5_0_elem h blk) [0..<32])) info mmap base t
    else dequantize_q5_0 h info mmap base = Err (FixtureError ''Q5_0 tensor data extends beyond file'')"
proof (cases "in_file 32 22 info mmap base")
  case True
  from q5_0.run_tensor [OF assms True, of h] True show ?thesis
    by (auto simp: dequantize_q5_0_def Let_def extent_fits_eqs [OF assms] in_file_def
        tensor_new_product [OF assms])
qed (auto simp: dequantize_q5_0_def Let_def extent_fits_eqs [OF assms] in_file_def)

lemma dequantize_q8_0_result:
  assumes "extent_fits 32 34 info mmap base"
  shows "if in_file 32 34 info mmap base
    then \<exists>t. dequantize_q8_0 h info mmap base = Ok t \<and>
      tensor_of_blocks 32 34 (\<lambda>blk. Some (map (q8_0_elem h blk) [0..<32])) info mmap base t
    else dequantize_q8_0 h info mmap base = Err (FixtureError ''Q8_0 tensor data extends beyond file'')"
proof (cases "in_file 32 34 info mmap base")
  case True
  from q8_0.run_tensor [OF assms True, of h] True show ?thesis
    by (auto simp: dequantize_q8_0_def Let_def extent_fits_eqs [OF assms] in_file_def
        tensor_new_product [OF assms])
qed (auto simp: dequantize_q8_0_def Let_def extent_fits_eqs [OF assms] in_file_def)

lemma dequantize_q6_k_result:
  assumes "extent_fits 256 210 info mmap base"
  shows "if in_file 256 210 info mmap base
    then \<exists>t. dequantize_q6_k h info mmap base = Ok t \<and>
      tensor_of_blocks 256 210 (\<lambda>blk. Some (dequantize_q6_k_superblock h blk)) info mmap base t
    else \<exists>e. dequantize_q6_k h info mmap base = Err e"
proof (cases "in_file 256 210 info mmap base")
  case True
  from q6_k.run_tensor [OF assms True, of h] True show ?thesis
    by (auto simp: dequantize_q6_k_def Let_def extent_fits_eqs [OF assms] in_file_def
        tensor_new_product [OF assms])
qed (auto simp: dequantize_q6_k_def Let_def extent_fits_eqs [OF assms] in_file_def)

text \<open>The Q4\_K and Q5\_K readers also reject non-finite scales and non-finite results.\<close>

lemma find_non_finite_None: "(find_non_finite i vs = None) = (\<forall>v\<in>set vs. f32_is_finite v)"
  by (induction vs arbitrary: i) auto

lemma finite_tensor_cases:
  assumes "extent_fits elems bsize info mmap base" and "length vs = prod_list (ti_dimensions info)"
  shows "((\<forall>v\<in>set vs. f32_is_finite v) \<and>
      finite_tensor info T vs = Ok \<lparr>t_data = vs, t_shape = ti_dimensions info\<rparr>) \<or>
    (\<exists>e. finite_tensor info T vs = Err e)"
  using find_non_finite_None [of 0 vs] tensor_new_product [OF assms]
  by (cases "find_non_finite 0 vs") (auto simp: finite_tensor_def)

lemma dequantize_q4_k_result:
  assumes "extent_fits 256 144 info mmap base"
  shows "(\<exists>t. dequantize_q4_k h info mmap base = Ok t \<and> in_file 256 144 info mmap base \<and>
      tensor_of_blocks 256 144 (\<lambda>blk. ok_value (dequantize_q4_k_block h blk)) info mmap base t \<and>
      (\<forall>v\<in>set (t_data t). f32_is_finite v)) \<or>
    (\<exists>e. dequantize_q4_k h info mmap base = Err e)"
proof (cases "in_file 256 144 info mmap base")
  case True
  have eq: "dequantize_q4_k h info mmap base = and_then (fold_res
      (q4_k_body h info mmap (base + ti_offset info) (prod_list (ti_dimensions info)))
      [0..<div_ceil (prod_list (ti_dimensions info)) 256] []) (finite_tensor info ''Q4_K'')"
    using True by (simp add: dequantize_q4_k_def Let_def extent_fits_eqs [OF assms] in_file_def)
  from q4_k.run_tensor [OF assms True, of h] show ?thesis
    unfolding eq
    using finite_tensor_cases [OF assms, of _ "''Q4_K''"] True by fastforce
qed (auto simp: dequantize_q4_k_def Let_def extent_fits_eqs [OF assms] in_file_def)

lemma dequantize_q5_k_result:
  assumes "extent_fits 256 176 info mmap base"
  shows "(\<exists>t. dequantize_q5_k h info mmap base = Ok t \<and> in_file 256 176 info mmap base \<and>
      tensor_of_blocks 256 176 (\<lambda>blk. ok_value (dequantize_q5_k_block h blk)) info mmap base t \<and>
      (\<forall>v\<in>set (t_data t). f32_is_finite v)) \<or>
    (\<exists>e. dequantize_q5_k h info mmap base = Err e)"
proof (cases "in_file 256 176 info mmap base")
  case True
  have eq: "dequantize_q5_k h info mmap base = and_then (fold_res
      (q5_k_body h info mmap (base + ti_offset info) (prod_list (ti_dimensions info)))
      [0..<div_ceil (prod_list (ti_dimensions info)) 256] []) (finite_tensor info ''Q5_K'')"
    using True by (simp add: dequantize_q5_k_def Let_def extent_fits_eqs [OF assms] in_file_def)
  from q5_k.run_tensor [OF assms True, of h] show ?thesis
    unfolding eq
    using finite_tensor_cases [OF assms, of _ "''Q5_K''"] True by fastforce
qed (auto simp: dequantize_q5_k_def Let_def extent_fits_eqs [OF assms] in_file_def)

end
