(* ===== verification/Quant_Formula.thy ===== *)
theory Quant_Formula
  imports Dequant
begin

text \<open>
  src/crates/airframe\_observe/src/quant\_formula.rs: the registry of block formats, one
  formula per GGML type that dequantizes a single element of one block, and the dispatch
  slot of each type. The lemmas show that \<open>f16_to_f32\<close> is the IEEE half-to-single
  conversion, that the registry agrees with the sizes of Ggml\_Types, and that every
  formula computes the element the block readers of Dequant compute.
\<close>

section \<open>Half precision\<close>

definition f16_to_f32 :: "16 word \<Rightarrow> f32" where
  "f16_to_f32 bits =
     (let sign = drop_bit 15 bits AND 1; ex = drop_bit 10 bits AND 0x1f; mant = bits AND 0x3ff;
          sign_bit = push_bit 31 (ucast sign) :: 32 word in
      if ex = 0 then
        if mant = 0 then sign_bit
        else let v = f32_mul (f32_of_int (uint mant)) 0x33800000 in if sign = 1 then f32_neg v else v
      else if ex = 0x1f then sign_bit OR 0x7f800000 OR push_bit 13 (ucast mant)
      else sign_bit OR push_bit 23 (ucast ex + (127 - 15)) OR push_bit 13 (ucast mant))"

text \<open>
  \<open>2f32.powi(-24)\<close> is \<open>0x33800000\<close>. The IEEE meaning of the 16 bits, and the contract of
  \<open>half::f16::to_f32\<close>: the single of that value, and some NaN for a NaN.
\<close>

definition half_decode :: "16 word \<Rightarrow> fdec" where
  "half_decode b =
     (let n = unat b; s = (2 ^ 15 \<le> n); e = n div 2 ^ 10 mod 32; m = n mod 2 ^ 10 in
      if e = 31 then (if m = 0 then FInf s else FNan)
      else if e = 0 then FFin s m (-24)
      else FFin s (m + 2 ^ 10) (int e - 25))"

definition half_spec :: "16 word \<Rightarrow> f32 \<Rightarrow> bool" where
  "half_spec b x =
     (case half_decode b of
        FNan \<Rightarrow> f32_is_nan x
      | FInf s \<Rightarrow> x = f32_inf s
      | FFin s m e \<Rightarrow> x = round_bits s m e)"

definition half_contract :: "(16 word \<Rightarrow> f32) \<Rightarrow> bool" where
  "half_contract h = (\<forall>b. half_spec b (h b))"

lemma uint_or_push:
  fixes x y :: "'a::len word"
  assumes "uint x < 2 ^ n" and "uint y * 2 ^ n < 2 ^ LENGTH('a)"
  shows "uint (push_bit n y OR x) = uint y * 2 ^ n + uint x"
proof -
  have "uint (push_bit n y) = uint y * 2 ^ n"
    unfolding unsigned_push_bit_eq using assms(2)
    by (subst take_bit_int_eq_self) (simp_all add: push_bit_eq_mult)
  moreover have "push_bit n (uint y) OR uint x = uint y * 2 ^ n + uint x"
    using assms(1) concat_bit_eq [of n "uint x" "uint y"]
    by (simp add: concat_bit_def take_bit_int_eq_self push_bit_eq_mult or.commute ac_simps)
  ultimately show ?thesis by (simp add: unsigned_or_eq push_bit_eq_mult)
qed

lemma uint_and_mask: "uint (x AND y) = uint x AND uint y"
  by (simp add: unsigned_and_eq)

lemma half_fields:
  fixes b :: "16 word"
  shows "uint (b AND 0x3ff) = uint b mod 2 ^ 10"
    and "uint (drop_bit 10 b AND 0x1f) = uint b div 2 ^ 10 mod 32"
    and "uint (drop_bit 15 b AND 1) = uint b div 2 ^ 15"
proof -
  have "(0x3ff :: int) = mask 10" "(0x1f :: int) = mask 5" "(1 :: int) = mask 1"
    by (simp_all add: mask_eq_exp_minus_1)
  note m = this
  have lt: "uint b < 2 ^ 16" using uint_bounded [of b] by simp
  then have red: "uint b mod 65536 = uint b" by simp
  show "uint (b AND 0x3ff) = uint b mod 2 ^ 10"
    by (simp add: unsigned_and_eq m(1) flip: take_bit_eq_mask) (simp add: take_bit_eq_mod)
  show "uint (drop_bit 10 b AND 0x1f) = uint b div 2 ^ 10 mod 32"
    by (simp add: unsigned_and_eq m(2) unsigned_drop_bit_eq flip: take_bit_eq_mask)
      (simp add: take_bit_eq_mod drop_bit_eq_div red)
  have "uint b div 32768 < 2" using lt by simp
  moreover have "0 \<le> uint b div 32768" by (simp add: pos_imp_zdiv_nonneg_iff)
  ultimately have e: "uint b div 32768 mod 2 = uint b div 32768" by simp
  have "uint (drop_bit 15 b AND 1) = uint (drop_bit 15 b) AND 1"
    by (subst unsigned_and_eq) simp
  then show "uint (drop_bit 15 b AND 1) = uint b div 2 ^ 15"
    unfolding unsigned_drop_bit_eq and_one_eq by (simp add: drop_bit_eq_div take_bit_eq_mod red e)
qed

text \<open>The bit patterns assembled from disjoint fields are sums of the fields.\<close>

lemma single_fields:
  assumes "uint s \<le> 1" and "uint e < 2 ^ 8" and "uint f < 2 ^ 10"
  shows "uint (push_bit 31 s OR push_bit 23 e OR push_bit 13 f :: f32) =
    uint s * 2 ^ 31 + uint e * 2 ^ 23 + uint f * 2 ^ 13"
proof -
  have f: "uint (push_bit 13 f) = uint f * 2 ^ 13"
    using uint_or_push [of "0 :: f32" 13 f] assms(3) by simp
  have e: "uint (push_bit 23 e OR push_bit 13 f) = uint e * 2 ^ 23 + uint f * 2 ^ 13"
    using uint_or_push [of "push_bit 13 f" 23 e] assms f by simp
  then have "uint (push_bit 23 e OR push_bit 13 f) < 2 ^ 31" using assms by simp
  from uint_or_push [OF this, of s] e assms show ?thesis by simp
qed

lemma half_unat:
  fixes b :: "16 word"
  shows "unat (b AND 0x3ff) = unat b mod 2 ^ 10"
    and "unat (drop_bit 10 b AND 0x1f) = unat b div 2 ^ 10 mod 32"
    and "unat (drop_bit 15 b AND 1) = unat b div 2 ^ 15"
  unfolding unat_eq_nat_uint half_fields by (simp_all add: nat_mod_distrib nat_div_distrib pos_imp_zdiv_nonneg_iff)

lemma uint_word_of_nat: "uint w = int n \<Longrightarrow> w = word_of_nat n"
  by (metis of_int_of_nat_eq word_of_int_uint)

lemma round_bits_half:
  assumes "m < 2 ^ 10" and "0 < e" and "e < 31"
  shows "round_bits s (m + 2 ^ 10) (int e - 25) =
    word_of_nat ((if s then 2 ^ 31 else 0) + ((e + 112) * 2 ^ 23 + m * 2 ^ 13))"
proof -
  have "nbits (m + 2 ^ 10) \<le> 11" by (rule nbits_leI) (use assms in simp)
  moreover have "\<not> nbits (m + 2 ^ 10) \<le> 10"
  proof
    assume le: "nbits (m + 2 ^ 10) \<le> 10"
    have "m + 2 ^ 10 < 2 ^ nbits (m + 2 ^ 10)" by (rule nbits_less)
    also have "\<dots> \<le> 2 ^ 10" by (rule power_increasing [OF le]) simp
    finally show False by simp
  qed
  ultimately have n: "nbits (m + 2 ^ 10) = 11" by simp
  have u: "ulp_exp (m + 2 ^ 10) (int e - 25) = int e - 38"
    unfolding ulp_exp_def n using assms by simp
  have "round_mant (m + 2 ^ 10) (int e - 25) = (m + 2 ^ 10) * 2 ^ 13"
    unfolding round_mant_def u Let_def by simp
  moreover have "nat (int e - 38 + 149) = e + 111" by simp
  ultimately show ?thesis
    unfolding round_bits_def round_mag_def u using assms by (simp add: inf_bits_def add_mult_distrib)
qed

lemma f32_neg_round_bits: "f32_neg (round_bits False m e) = round_bits True m e"
  by (simp add: f32_neg_def round_bits_def add.commute)

text \<open>The subnormal case: the product with \<open>2^-24\<close> is exact.\<close>

lemma subnormal_half:
  assumes "m < 2 ^ 10"
  shows "f32_mul (f32_of_int (int m)) 0x33800000 = round_bits False m (-24)"
proof -
  have a: "\<bar>int m\<bar> < 2 ^ 24" using assms by simp
  obtain s k e where d: "decode (f32_of_int (int m)) = FFin s k e"
    "of_int (sgn_val s) * real k * 2 powi e = of_int (int m)" "int m = 0 \<Longrightarrow> \<not> s"
    using f32_of_int_decode [OF a] by blast
  have s: "\<not> s"
  proof
    assume s
    have "0 \<le> real k * 2 powi e" by simp
    moreover have "- (real k * 2 powi e) = real m" using d(2) \<open>s\<close> by (simp add: sgn_val_def)
    ultimately have "real m \<le> 0" by linarith
    with d(3) \<open>s\<close> show False by simp
  qed
  have c: "decode 0x33800000 = FFin False (2 ^ 23) (-47)"
    by (simp add: decode_def Let_def)
  have "real (k * 2 ^ 23) * 2 powi (e + - 47) = real m * 2 powi (- 24)"
  proof -
    have "real (k * 2 ^ 23) * 2 powi (e + - 47) = (real k * 2 powi e) * (2 ^ 23 * 2 powi (- 47))"
      by (simp add: power_int_diff power_int_minus)
    also have "real k * 2 powi e = real m" using d(2) s by (simp add: sgn_val_def)
    also have "(2 ^ 23 * 2 powi (- 47) :: real) = 2 powi (- 24)"
      by (simp add: power_int_def field_simps flip: power_add)
    finally show ?thesis .
  qed
  then have "round_bits False (k * 2 ^ 23) (e + - 47) = round_bits False m (- 24)"
    by (rule round_bits_value)
  with s show ?thesis by (simp add: f32_mul_def d(1) c)
qed

lemma f32_inf_bits: "f32_inf s = word_of_nat ((if s then 2 ^ 31 else 0) + 255 * 2 ^ 23)"
  by (simp add: f32_inf_def inf_bits_def)

lemma split_fields:
  "n = q * 2 ^ 10 + r \<Longrightarrow> q = a * 32 + c \<Longrightarrow> n = a * 2 ^ 15 + c * 2 ^ 10 + (r :: nat)"
  by simp

lemma half_cases:
  fixes b :: "16 word"
  obtains s e m where "unat b = (if s then 2 ^ 15 else 0) + e * 2 ^ 10 + m"
    and "e < 32" and "m < 2 ^ 10"
    and "unat (b AND 0x3ff) = m" and "unat (drop_bit 10 b AND 0x1f) = e"
    and "unat (drop_bit 15 b AND 1) = (if s then 1 else 0)"
    and "half_decode b = (if e = 31 then (if m = 0 then FInf s else FNan)
      else if e = 0 then FFin s m (-24) else FFin s (m + 2 ^ 10) (int e - 25))"
proof (rule that)
  have lt: "unat b < 2 ^ 16" using unsigned_less [of b] by simp
  let ?s = "(2 ^ 15 \<le> unat b)" and ?e = "unat b div 2 ^ 10 mod 32" and ?m = "unat b mod 2 ^ 10"
  have d: "unat b div 2 ^ 15 = (if ?s then 1 else 0)"
  proof (cases ?s)
    case True
    then show ?thesis using lt by (auto simp: div_nat_eqI)
  qed auto
  have "unat b = unat b div 2 ^ 10 * 2 ^ 10 + ?m" by simp
  moreover have "unat b div 2 ^ 10 = unat b div 2 ^ 10 div 32 * 32 + ?e" by simp
  ultimately have "unat b = unat b div 2 ^ 10 div 32 * 2 ^ 15 + ?e * 2 ^ 10 + ?m" by (rule split_fields)
  moreover have "unat b div 2 ^ 10 div 32 = unat b div 2 ^ 15" by (simp flip: div_mult2_eq)
  ultimately show "unat b = (if ?s then 2 ^ 15 else 0) + ?e * 2 ^ 10 + ?m"
    using d by (auto split: if_splits)
  show "unat (drop_bit 15 b AND 1) = (if ?s then 1 else 0)" using half_unat(3) [of b] d by simp
  show "unat (b AND 0x3ff) = ?m" by (rule half_unat)
  show "unat (drop_bit 10 b AND 0x1f) = ?e" by (rule half_unat)
qed (simp_all add: half_decode_def Let_def)

text \<open>\<open>f16_to_f32\<close> is the IEEE conversion; a NaN stays a NaN.\<close>

theorem f16_to_f32_correct: "half_spec b (f16_to_f32 b)"
proof -
  obtain s e m where b: "unat b = (if s then 2 ^ 15 else 0) + e * 2 ^ 10 + m" "e < 32" "m < 2 ^ 10"
    "unat (b AND 0x3ff) = m" "unat (drop_bit 10 b AND 0x1f) = e"
    "unat (drop_bit 15 b AND 1) = (if s then 1 else 0)"
    and dec: "half_decode b = (if e = 31 then (if m = 0 then FInf s else FNan)
      else if e = 0 then FFin s m (-24) else FFin s (m + 2 ^ 10) (int e - 25))"
    by (rule half_cases)
  let ?sg = "drop_bit 15 b AND 1" and ?ex = "drop_bit 10 b AND 0x1f" and ?mt = "b AND 0x3ff"
  let ?S = "ucast ?sg :: f32" and ?M = "ucast ?mt :: f32" and ?E = "ucast ?ex :: f32"
  have u: "uint ?S = (if s then 1 else 0)" "uint ?M = int m" "uint ?E = int e"
    using b by (simp_all add: uint_nat unsigned_ucast_eq take_bit_eq_mod)
  have tests: "(?ex = 0) = (e = 0)" "(?ex = 0x1f) = (e = 31)" "(?mt = 0) = (m = 0)" "(?sg = 1) = s"
    using b by (simp_all add: word_unat_eq_iff)
  let ?k = "if s then 2 ^ 31 else 0 :: nat"
  have fields: "push_bit 31 ?S OR push_bit 23 w OR push_bit 13 ?M = word_of_nat (?k + (c * 2 ^ 23 + m * 2 ^ 13))"
    if "uint w = int c" "c < 2 ^ 8" for w :: f32 and c
  proof (rule uint_word_of_nat)
    show "uint (push_bit 31 ?S OR push_bit 23 w OR push_bit 13 ?M) = int (?k + (c * 2 ^ 23 + m * 2 ^ 13))"
      using single_fields [of ?S w ?M] u b(3) that by simp
  qed
  consider "e = 31" | "e = 0" "m = 0" | "e = 0" "m \<noteq> 0" | "0 < e" "e < 31" using b(2) by linarith
  then show ?thesis
  proof cases
    case 1
    have w: "f16_to_f32 b = push_bit 31 ?S OR push_bit 23 255 OR push_bit 13 ?M"
      using 1 tests by (simp add: f16_to_f32_def Let_def)
    have r: "f16_to_f32 b = word_of_nat (?k + (255 * 2 ^ 23 + m * 2 ^ 13))"
      unfolding w by (rule fields) simp_all
    show ?thesis
    proof (cases "m = 0")
      case True
      with 1 show ?thesis by (simp add: half_spec_def dec r f32_inf_bits)
    next
      case False
      let ?n = "?k + (255 * 2 ^ 23 + m * 2 ^ 13)"
      have n: "unat (word_of_nat ?n :: f32) = ?n"
        by (rule unat_word_of_nat_small) (use b(3) in simp)
      define c where "c = (if s then 511 else 255 :: nat)"
      have nc: "?n = m * 2 ^ 13 + c * 2 ^ 23" by (simp add: c_def)
      have m: "m * 2 ^ 13 < 2 ^ 23" using b(3) by simp
      have f: "?n mod 2 ^ 23 = m * 2 ^ 13" unfolding nc mod_mult_self1 by (rule mod_less [OF m])
      have "?n div 2 ^ 23 = c" unfolding nc using div_less [OF m] by simp
      then have "?n div 2 ^ 23 mod 256 = 255" by (simp add: c_def)
      with f have "decode (word_of_nat ?n) = FNan"
        unfolding decode_def n Let_def using False by simp
      with 1 False show ?thesis by (simp add: half_spec_def dec r f32_is_nan_def)
    qed
  next
    case 2
    have "f16_to_f32 b = push_bit 31 ?S OR push_bit 23 0 OR push_bit 13 ?M"
      using 2 tests by (simp add: f16_to_f32_def Let_def)
    also have "\<dots> = word_of_nat (?k + (0 * 2 ^ 23 + m * 2 ^ 13))" by (rule fields) simp_all
    finally show ?thesis using 2 by (simp add: half_spec_def dec round_bits_def round_mag_def)
  next
    case 3
    have "f16_to_f32 b = (if s then f32_neg (round_bits False m (- 24)) else round_bits False m (- 24))"
      using 3 tests subnormal_half [OF b(3)] b(4) by (simp add: f16_to_f32_def Let_def uint_nat)
    with 3 show ?thesis by (simp add: half_spec_def dec f32_neg_round_bits)
  next
    case 4
    have "f16_to_f32 b = push_bit 31 ?S OR push_bit 23 (?E + 112) OR push_bit 13 ?M"
      using 4 tests by (simp add: f16_to_f32_def Let_def)
    also have "\<dots> = word_of_nat (?k + ((e + 112) * 2 ^ 23 + m * 2 ^ 13))"
    proof (rule fields)
      show "uint (?E + 112) = int (e + 112)" using 4 u(3) by (simp add: uint_word_ariths)
    qed (use 4 in simp)
    finally show ?thesis using 4 round_bits_half [OF b(3) 4] by (simp add: half_spec_def dec)
  qed
qed

section \<open>The formulas\<close>

text \<open>
  A formula indexes the bytes of one block; an index past the slice panics. Shift amounts
  are reduced to the width of the shifted value, as the release profile does.
\<close>

definition rd_u16 :: "bytes \<Rightarrow> nat \<Rightarrow> 16 word lib_res" where
  "rd_u16 block off =
     and_then (idx block off) (\<lambda>a. and_then (idx block (wadd off 1)) (\<lambda>b. Ok (le16 a b)))"

definition rd_u32 :: "bytes \<Rightarrow> nat \<Rightarrow> 32 word lib_res" where
  "rd_u32 block off =
     and_then (idx block off) (\<lambda>a. and_then (idx block (wadd off 1)) (\<lambda>b.
     and_then (idx block (wadd off 2)) (\<lambda>c. and_then (idx block (wadd off 3)) (\<lambda>d.
       Ok (le32 a b c d)))))"

definition u32_f32 :: "32 word \<Rightarrow> f32" where
  "u32_f32 w = f32_of_int (uint w)"

text \<open>\<open>get_scale_min_k4\<close> of this file, over \<open>u32\<close> results.\<close>

definition scale_min_k4 :: "nat \<Rightarrow> bytes \<Rightarrow> (32 word \<times> 32 word) lib_res" where
  "scale_min_k4 j scales =
     (if j < 4 then
        and_then (idx scales j) (\<lambda>a. and_then (idx scales (j + 4)) (\<lambda>b.
          Ok (ucast (a AND 63), ucast (b AND 63))))
      else
        and_then (idx scales (j + 4)) (\<lambda>a. and_then (idx scales (j - 4)) (\<lambda>b.
        and_then (idx scales j) (\<lambda>c.
          Ok (ucast (a AND 0x0f) OR push_bit 4 (ucast (drop_bit 6 b AND 3)),
              ucast (drop_bit 4 a AND 0x0f) OR push_bit 4 (ucast (drop_bit 6 c AND 3)))))))"

definition dequant_f32 :: "bytes \<Rightarrow> nat \<Rightarrow> f32 lib_res" where
  "dequant_f32 block el = rd_u32 block (wmul el 4)"

definition dequant_f16 :: "bytes \<Rightarrow> nat \<Rightarrow> f32 lib_res" where
  "dequant_f16 block el = and_then (rd_u16 block (wmul el 2)) (\<lambda>w. Ok (f16_to_f32 w))"

definition dequant_q4_0 :: "bytes \<Rightarrow> nat \<Rightarrow> f32 lib_res" where
  "dequant_q4_0 block el =
     and_then (rd_u16 block 0) (\<lambda>w. let d = f16_to_f32 w in
     and_then (idx block (2 + el mod 16)) (\<lambda>qs_byte.
       let nib = if el < 16 then qs_byte AND 0x0f else drop_bit 4 qs_byte in
       Ok (f32_mul (f32_sub (u8_f32 nib) (f32_of_int 8)) d)))"

definition dequant_q5_0 :: "bytes \<Rightarrow> nat \<Rightarrow> f32 lib_res" where
  "dequant_q5_0 block el =
     and_then (rd_u16 block 0) (\<lambda>w. let d = f16_to_f32 w in
     and_then (rd_u32 block 2) (\<lambda>qh. let high_bit = drop_bit (el mod 32) qh AND 1 in
     and_then (idx block (6 + el mod 16)) (\<lambda>qs_byte.
       let low = if el < 16 then qs_byte AND 0x0f else drop_bit 4 qs_byte;
           val5 = ucast low OR push_bit 4 high_bit in
       Ok (f32_mul (f32_sub (u32_f32 val5) (f32_of_int 16)) d))))"

definition dequant_q8_0 :: "bytes \<Rightarrow> nat \<Rightarrow> f32 lib_res" where
  "dequant_q8_0 block el =
     and_then (rd_u16 block 0) (\<lambda>w. let d = f16_to_f32 w in
     and_then (idx block (wadd 2 el)) (\<lambda>raw. Ok (f32_mul d (f32_of_int (sint raw)))))"

definition dequant_q4_k :: "bytes \<Rightarrow> nat \<Rightarrow> f32 lib_res" where
  "dequant_q4_k block el =
     and_then (rd_u16 block 0) (\<lambda>w. let d = f16_to_f32 w in
     and_then (rd_u16 block 2) (\<lambda>w'. let dmin = f16_to_f32 w' in
     and_then (slice block 4 16) (\<lambda>scales.
     and_then (slice block 16 144) (\<lambda>qs.
       let grp = el div 64; in_grp = el mod 64; sub = in_grp div 32; l = in_grp mod 32;
           is = grp * 2 + sub in
     and_then (scale_min_k4 is scales) (\<lambda>(sc, m).
       let sc_val = f32_mul d (u32_f32 sc); m_val = f32_mul dmin (u32_f32 m) in
     and_then (idx qs (grp * 32 + l)) (\<lambda>qs_byte.
       let nibble = if sub = 0 then qs_byte AND 0x0f else drop_bit 4 qs_byte in
       Ok (f32_sub (f32_mul sc_val (u8_f32 nibble)) m_val)))))))"

definition dequant_q5_k :: "bytes \<Rightarrow> nat \<Rightarrow> f32 lib_res" where
  "dequant_q5_k block el =
     and_then (rd_u16 block 0) (\<lambda>w. let d = f16_to_f32 w in
     and_then (rd_u16 block 2) (\<lambda>w'. let dmin = f16_to_f32 w' in
     and_then (slice block 4 16) (\<lambda>scales.
     and_then (slice block 16 48) (\<lambda>qh.
     and_then (slice block 48 176) (\<lambda>qs.
       let grp = el div 64; in_grp = el mod 64; sub = in_grp div 32; l = in_grp mod 32;
           is = grp * 2 + sub in
     and_then (scale_min_k4 is scales) (\<lambda>(sc, m).
       let sc_val = f32_mul d (u32_f32 sc); m_val = f32_mul dmin (u32_f32 m) in
     and_then (idx qs (grp * 32 + l)) (\<lambda>qs_byte.
       let nibble = if sub = 0 then qs_byte AND 0x0f else drop_bit 4 qs_byte in
     and_then (idx qh l) (\<lambda>qh_byte.
       let high_bit = drop_bit (el div 32 mod 8) qh_byte AND 1;
           q5 = ucast nibble OR push_bit 4 (ucast high_bit) in
       Ok (f32_sub (f32_mul sc_val (u32_f32 q5)) m_val)))))))))"

definition dequant_q6_k :: "bytes \<Rightarrow> nat \<Rightarrow> f32 lib_res" where
  "dequant_q6_k block el =
     and_then (rd_u16 block 208) (\<lambda>w. let d = f16_to_f32 w;
       half = el div 128; half_e = el mod 128; l = half_e mod 32; quarter = half_e div 32;
       ql_rel = if quarter = 0 \<or> quarter = 2 then half * 64 + l else half * 64 + l + 32 in
     and_then (idx block ql_rel) (\<lambda>ql_byte.
       let lower4 = if quarter < 2 then ql_byte AND 0x0f else drop_bit 4 ql_byte in
     and_then (idx block (128 + half * 32 + l)) (\<lambda>qh_byte.
       let upper2 = drop_bit (quarter * 2) qh_byte AND 3;
           q6 = ucast lower4 OR push_bit 4 (ucast upper2) :: 32 word;
           signed_q = sint q6 - 32;
           sc_idx = half * 8 + l div 16 + quarter * 2 in
     and_then (idx block (192 + sc_idx)) (\<lambda>sc_raw.
       Ok (f32_mul (f32_mul d (f32_of_int (sint sc_raw))) (f32_of_int signed_q))))))"

section \<open>The registry\<close>

record quant_formula =
  qf_type_id :: nat
  qf_name :: string
  qf_block_elems :: nat
  qf_block_bytes :: nat
  qf_dequant :: "bytes \<Rightarrow> nat \<Rightarrow> f32 lib_res"

definition quant_formulas :: "quant_formula list" where
  "quant_formulas =
    [\<lparr>qf_type_id = 0, qf_name = ''F32'', qf_block_elems = 1, qf_block_bytes = 4, qf_dequant = dequant_f32\<rparr>,
     \<lparr>qf_type_id = 1, qf_name = ''F16'', qf_block_elems = 1, qf_block_bytes = 2, qf_dequant = dequant_f16\<rparr>,
     \<lparr>qf_type_id = 2, qf_name = ''Q4_0'', qf_block_elems = 32, qf_block_bytes = 18, qf_dequant = dequant_q4_0\<rparr>,
     \<lparr>qf_type_id = 6, qf_name = ''Q5_0'', qf_block_elems = 32, qf_block_bytes = 22, qf_dequant = dequant_q5_0\<rparr>,
     \<lparr>qf_type_id = 8, qf_name = ''Q8_0'', qf_block_elems = 32, qf_block_bytes = 34, qf_dequant = dequant_q8_0\<rparr>,
     \<lparr>qf_type_id = 12, qf_name = ''Q4_K'', qf_block_elems = 256, qf_block_bytes = 144, qf_dequant = dequant_q4_k\<rparr>,
     \<lparr>qf_type_id = 13, qf_name = ''Q5_K'', qf_block_elems = 256, qf_block_bytes = 176, qf_dequant = dequant_q5_k\<rparr>,
     \<lparr>qf_type_id = 14, qf_name = ''Q6_K'', qf_block_elems = 256, qf_block_bytes = 210, qf_dequant = dequant_q6_k\<rparr>]"

datatype formula_slot = Slot_F32 | Slot_F16 | Slot_Q4_0 | Slot_Q5_0 | Slot_Q8_0 | Slot_Q4_K | Slot_Q5_K | Slot_Q6_K

fun slot_as_u32 :: "formula_slot \<Rightarrow> nat" where
  "slot_as_u32 Slot_F32 = 0"
| "slot_as_u32 Slot_F16 = 1"
| "slot_as_u32 Slot_Q4_0 = 2"
| "slot_as_u32 Slot_Q5_0 = 3"
| "slot_as_u32 Slot_Q8_0 = 4"
| "slot_as_u32 Slot_Q4_K = 5"
| "slot_as_u32 Slot_Q5_K = 6"
| "slot_as_u32 Slot_Q6_K = 7"

definition slot_for_type :: "nat \<Rightarrow> formula_slot option" where
  "slot_for_type type_id =
     (if type_id = 0 then Some Slot_F32
      else if type_id = 1 then Some Slot_F16
      else if type_id = 2 then Some Slot_Q4_0
      else if type_id = 6 then Some Slot_Q5_0
      else if type_id = 8 then Some Slot_Q8_0
      else if type_id = 12 then Some Slot_Q4_K
      else if type_id = 13 then Some Slot_Q5_K
      else if type_id = 14 then Some Slot_Q6_K
      else None)"

definition formula_for_type :: "nat \<Rightarrow> quant_formula option" where
  "formula_for_type type_id = find (\<lambda>f. qf_type_id f = type_id) quant_formulas"

definition block_elems :: "nat \<Rightarrow> nat option" where
  "block_elems type_id = map_option qf_block_elems (formula_for_type type_id)"

definition block_bytes :: "nat \<Rightarrow> nat option" where
  "block_bytes type_id = map_option qf_block_bytes (formula_for_type type_id)"

definition dequant_elem :: "nat \<Rightarrow> bytes \<Rightarrow> nat \<Rightarrow> f32 lib_res option" where
  "dequant_elem type_id block el = map_option (\<lambda>f. qf_dequant f block el) (formula_for_type type_id)"

fun formula_of :: "ggml_type \<Rightarrow> bytes \<Rightarrow> nat \<Rightarrow> f32 lib_res" where
  "formula_of F32 = dequant_f32"
| "formula_of F16 = dequant_f16"
| "formula_of Q4_0 = dequant_q4_0"
| "formula_of Q5_0 = dequant_q5_0"
| "formula_of Q8_0 = dequant_q8_0"
| "formula_of Q4_K = dequant_q4_k"
| "formula_of Q5_K = dequant_q5_k"
| "formula_of Q6_K = dequant_q6_k"

lemma dequant_elem_type: "dequant_elem (ggml_type_id t) block el = Some (formula_of t block el)"
  by (cases t) (simp_all add: dequant_elem_def formula_for_type_def quant_formulas_def)

lemma formula_for_type_Some:
  "(\<exists>f. formula_for_type n = Some f) = (n \<in> supported_ids)"
  by (simp add: formula_for_type_def quant_formulas_def supported_ids_def)

text \<open>
  C27: The registry, the dispatch slots and the size formulas of the loader agree: a type
  has a formula exactly when the loader knows the type, its slot is the formula's index,
  and the formula's block geometry gives the loader's tensor size.
\<close>

theorem registry_agrees:
  "(case formula_for_type n of
      None \<Rightarrow> \<not> is_ok (from_u32 n) \<and> slot_for_type n = None
    | Some f \<Rightarrow> ggml_type_name n = Ok (qf_name f) \<and>
        (case slot_for_type n of
           None \<Rightarrow> False
         | Some sl \<Rightarrow> slot_as_u32 sl < length quant_formulas \<and> quant_formulas ! slot_as_u32 sl = f) \<and>
        ggml_type_bytes_per_tensor n count =
          Ok (wmul (div_ceil count (qf_block_elems f)) (qf_block_bytes f)))"
proof (cases "n \<in> supported_ids")
  case True
  then obtain t where t: "n = ggml_type_id t" by (auto simp: supported_ids_range)
  show ?thesis unfolding t ggml_type_bytes_eq
    by (cases t) (simp_all add: formula_for_type_def quant_formulas_def slot_for_type_def
        ggml_type_name_def from_u32_def)
next
  case False
  then have "formula_for_type n = None" using formula_for_type_Some [of n] by (cases "formula_for_type n") auto
  with False show ?thesis
    by (simp add: is_ok_from_u32) (simp add: supported_ids_def slot_for_type_def)
qed

section \<open>Formulas and block readers compute the same elements\<close>

lemma half_agree:
  assumes "half_contract h"
  shows "h b = f16_to_f32 b \<or> decode (h b) = FNan \<and> decode (f16_to_f32 b) = FNan"
proof -
  have "half_spec b (h b)" using assms by (simp add: half_contract_def)
  with f16_to_f32_correct [of b] show ?thesis
    by (auto simp: half_spec_def f32_is_nan_def split: fdec.splits)
qed

lemma mul_half:
  assumes "half_contract h"
  shows "f32_mul x (h b) = f32_mul x (f16_to_f32 b)" and "f32_mul (h b) x = f32_mul (f16_to_f32 b) x"
proof -
  show r: "f32_mul x (h b) = f32_mul x (f16_to_f32 b)" for x
    using half_agree [OF assms, of b] by (auto simp: f32_mul_def split: fdec.splits)
  show "f32_mul (h b) x = f32_mul (f16_to_f32 b) x" using r [of x] by (simp add: f32_mul_comm)
qed

lemma finite_half: "half_contract h \<Longrightarrow> f32_is_finite (h b) = f32_is_finite (f16_to_f32 b)"
  using half_agree [of h b] by (auto simp: f32_is_finite_def)

lemma rd_u16_in: "off + 1 < length blk \<Longrightarrow> length blk < u64_range \<Longrightarrow>
    rd_u16 blk off = Ok (le16 (blk ! off) (blk ! (off + 1)))"
  by (simp add: rd_u16_def idx_in)

lemma rd_u32_in: "off + 3 < length blk \<Longrightarrow> length blk < u64_range \<Longrightarrow>
    rd_u32 blk off = Ok (le32 (blk ! off) (blk ! (off + 1)) (blk ! (off + 2)) (blk ! (off + 3)))"
  by (simp add: rd_u32_def idx_in)

lemma mask_consts: "(15 :: 'a::len word) = mask 4" "(3 :: 'a word) = mask 2" "(63 :: 'a word) = mask 6"
  "(1 :: 'a word) = mask 1"
  by (simp_all add: mask_eq_exp_minus_1)

lemma high_nibble: "drop_bit 4 (b :: 8 word) AND 0x0f = drop_bit 4 b"
  unfolding mask_consts by (rule bit_word_eqI) (auto simp: bit_simps dest: bit_imp_le_length)

lemma uint_and_le: "uint (x AND mask n :: 'a::len word) < 2 ^ n"
  by (simp add: unsigned_and_eq flip: take_bit_eq_mask) (simp add: unsigned_take_bit_eq)

lemma nibble_less: "uint (b AND 0x0f :: 8 word) < 16" "uint (drop_bit 4 b :: 8 word) < 16"
proof -
  show l: "uint (c AND 0x0f) < 16" for c :: "8 word"
    using uint_and_le [of c 4] unfolding mask_consts(1) by simp
  show "uint (drop_bit 4 b) < 16" using l [of "drop_bit 4 b"] by (simp only: high_nibble)
qed

lemma bit_less: "uint (w AND 1 :: 'a::len word) < 2"
  using uint_and_le [of w 1, folded mask_consts(4)] by (simp only: power_one_right)

text \<open>A nibble with a fifth bit above it.\<close>

lemma five_bits:
  fixes low :: "8 word" and hb :: "32 word"
  assumes "uint low < 16" and "uint hb < 2"
  shows "uint (ucast low OR push_bit 4 hb) = uint hb * 16 + uint low"
proof -
  have "uint (ucast low :: 32 word) = uint low"
    using assms(1) by (simp add: unsigned_ucast_eq take_bit_int_eq_self)
  with uint_or_push [of "ucast low :: 32 word" 4 hb] assms show ?thesis by (simp add: or.commute)
qed

lemma sint_small: "uint (w :: 'a::len word) < 2 ^ (LENGTH('a) - 1) \<Longrightarrow> sint w = uint w"
  unfolding sint_uint using uint_ge_0 [of w]
  by (intro signed_take_bit_int_eq_self) (auto intro: order_trans [of _ 0])

lemma u8_f32_sub: "0 < k \<Longrightarrow> k < 256 \<Longrightarrow> f32_sub (u8_f32 w) (f32_of_int k) = f32_of_int (uint w - k)"
  unfolding u8_f32_def by (rule f32_sub_of_int) (use uint_bounded [of w] in simp_all)

lemma dequant_q4_0_eq:
  assumes h: "half_contract h" and "length blk = 18" and "i < 32"
  shows "dequant_q4_0 blk i = Ok (q4_0_elem h blk i)"
proof -
  have r: "rd_u16 blk 0 = Ok (le16 (blk ! 0) (blk ! 1))" using rd_u16_in [of 0 blk] assms by (simp add: u64_range_def)
  have m: "i mod 16 = (if i < 16 then i else i - 16)" using assms by (auto simp: le_mod_geq)
  have x: "idx blk (2 + i mod 16) = Ok (blk ! (2 + i mod 16))" by (rule idx_in) (use assms m in auto)
  show ?thesis
    unfolding dequant_q4_0_def r and_then.simps Let_def x
    by (simp add: u8_f32_sub q4_0_elem_def q4_0_low_def q4_0_high_def Let_def mul_half [OF h] m high_nibble)
qed

lemma dequant_q5_0_eq:
  assumes h: "half_contract h" and "length blk = 22" and "i < 32"
  shows "dequant_q5_0 blk i = Ok (q5_0_elem h blk i)"
proof -
  have r: "rd_u16 blk 0 = Ok (le16 (blk ! 0) (blk ! 1))" using rd_u16_in [of 0 blk] assms by (simp add: u64_range_def)
  have r4: "rd_u32 blk 2 = Ok (le32 (blk ! 2) (blk ! 3) (blk ! 4) (blk ! 5))"
    using rd_u32_in [of 2 blk] assms(2) by (simp add: u64_range_def)
  have m: "i mod 16 = (if i < 16 then i else i - 16)" using assms by (auto simp: le_mod_geq)
  have x: "idx blk (6 + i mod 16) = Ok (blk ! (6 + i mod 16))" by (rule idx_in) (use assms m in auto)
  have v: "f32_sub (u32_f32 (ucast low OR push_bit 4 (w AND 1))) (f32_of_int 16) =
      f32_of_int (sint (ucast low OR push_bit 4 (w AND 1) :: 32 word) - 16)"
    if "uint low < 16" for low :: "8 word" and w :: "32 word"
  proof -
    have u: "uint (ucast low OR push_bit 4 (w AND 1) :: 32 word) < 32"
      using five_bits [OF that bit_less] that bit_less [of w] by simp
    then have "sint (ucast low OR push_bit 4 (w AND 1) :: 32 word) = uint (ucast low OR push_bit 4 (w AND 1) :: 32 word)"
      by (intro sint_small) simp
    with u show ?thesis unfolding u32_f32_def by (subst f32_sub_of_int) simp_all
  qed
  show ?thesis
    unfolding dequant_q5_0_def r r4 and_then.simps Let_def x
    using assms(3) v [OF nibble_less(1)] v [OF nibble_less(2)]
    by (simp add: q5_0_elem_def q5_0_first_def q5_0_second_def q5_0_value_def Let_def
        mul_half [OF h] m high_nibble)
qed

lemma dequant_q8_0_eq:
  assumes h: "half_contract h" and "length blk = 34" and "i < 32"
  shows "dequant_q8_0 blk i = Ok (q8_0_elem h blk i)"
proof -
  have r: "rd_u16 blk 0 = Ok (le16 (blk ! 0) (blk ! 1))" using rd_u16_in [of 0 blk] assms by (simp add: u64_range_def)
  have x: "idx blk (wadd 2 i) = Ok (blk ! (2 + i))"
  proof -
    have "wadd 2 i = 2 + i" using assms(3) by (simp add: u64_range_def)
    moreover have "idx blk (2 + i) = Ok (blk ! (2 + i))" by (rule idx_in) (use assms in simp)
    ultimately show ?thesis by simp
  qed
  show ?thesis
    unfolding dequant_q8_0_def r and_then.simps Let_def x
    by (simp add: q8_0_elem_def mul_half [OF h] f32_mul_comm)
qed

text \<open>The K formats: scales and minima, then the position of each element.\<close>

lemma ucast_join:
  "ucast (a AND 0x0f) OR push_bit 4 (ucast (x AND 3)) =
   (ucast ((a AND 0x0f) OR push_bit 4 (x AND 3) :: 8 word) :: 32 word)"
  unfolding mask_consts(1,2)
  by (rule bit_word_eqI) (auto simp: bit_simps)

lemma scale_min_k4_eq:
  assumes "length sc = 12" and "j < 8"
  shows "scale_min_k4 j sc = Ok (ucast (fst (get_scale_min_k4 j sc)), ucast (snd (get_scale_min_k4 j sc)))"
  using assms by (simp add: scale_min_k4_def get_scale_min_k4_def idx_in ucast_join)

lemma u32_f32_ucast: "u32_f32 (ucast (w :: 8 word)) = u8_f32 w"
proof -
  have "uint (ucast w :: 32 word) = uint w"
    using uint_bounded [of w] by (simp add: unsigned_ucast_eq take_bit_int_eq_self)
  then show ?thesis by (simp add: u32_f32_def u8_f32_def)
qed

definition q4_k_part :: "f32 \<Rightarrow> f32 \<Rightarrow> bytes \<Rightarrow> nat \<Rightarrow> bytes \<Rightarrow> f32 list" where
  "q4_k_part d dmin scales is q =
     map (\<lambda>qb. f32_sub (f32_mul (f32_mul d (u8_f32 (fst (get_scale_min_k4 is scales)))) (u8_f32 (qb AND 0x0F)))
       (f32_mul dmin (u8_f32 (snd (get_scale_min_k4 is scales))))) q @
     map (\<lambda>qb. f32_sub (f32_mul (f32_mul d (u8_f32 (fst (get_scale_min_k4 (is + 1) scales)))) (u8_f32 (drop_bit 4 qb)))
       (f32_mul dmin (u8_f32 (snd (get_scale_min_k4 (is + 1) scales))))) q"

lemma q4_k_round_eq:
  "q4_k_round d dmin scales (q, is, out) = (drop 32 q, is + 2, out @ q4_k_part d dmin scales is (take 32 q))"
  by (simp add: q4_k_round_def q4_k_part_def Let_def case_prod_beta)

lemma q4_k_rounds:
  "(q4_k_round d dmin scales ^^ n) (q, is, out) =
   (drop (32 * n) q, is + 2 * n,
    out @ concat (map (\<lambda>g. q4_k_part d dmin scales (is + 2 * g) (take 32 (drop (32 * g) q))) [0..<n]))"
  by (induction n) (simp_all add: q4_k_round_eq add.commute)

lemma length_q4_k_part: "length (q4_k_part d dmin scales is q) = 2 * length q"
  by (simp add: q4_k_part_def)

lemma dequant_q4_k_eq:
  assumes h: "half_contract h" and "length blk = 144" and i: "i < 256"
    and ok: "dequantize_q4_k_block h blk = Ok vs"
  shows "dequant_q4_k blk i = Ok (vs ! i)"
proof -
  let ?d = "h (le16 (blk ! 0) (blk ! 1))" and ?dmin = "h (le16 (blk ! 2) (blk ! 3))"
  let ?sc = "take 12 (drop 4 blk)" and ?q = "take 128 (drop 16 blk)"
  let ?part = "\<lambda>g. q4_k_part ?d ?dmin ?sc (2 * g) (take 32 (drop (32 * g) ?q))"
  define g where "g = i div 64"
  define l where "l = i mod 64 mod 32"
  have g4: "g < 4" and l32: "l < 32" using i by (simp_all add: g_def l_def)
  have vs: "vs = concat (map ?part [0..<4])"
    using ok by (simp add: dequantize_q4_k_block_def Let_def assms(2) q4_k_rounds split: if_splits)
  have len: "length (?part k) = 64" if "k < 4" for k
    using that assms(2) by (simp add: length_q4_k_part)
  have "vs ! i = map ?part [0..<4] ! (i div 64) ! (i mod 64)"
    unfolding vs by (rule nth_concat_uniform) (use i len in auto)
  then have at: "vs ! i = ?part g ! (i mod 64)" using g4 by (simp add: g_def)
  have r0: "rd_u16 blk 0 = Ok (le16 (blk ! 0) (blk ! 1))" and r2: "rd_u16 blk 2 = Ok (le16 (blk ! 2) (blk ! 3))"
    using rd_u16_in [of 0 blk] rd_u16_in [of 2 blk] assms(2) by (simp_all add: u64_range_def)
  have s1: "slice blk 4 16 = Ok ?sc" "slice blk 16 144 = Ok ?q" using assms(2) by (simp_all add: slice_def)
  have sub: "i mod 64 div 32 = (if i mod 64 < 32 then 0 else 1)"
    using mod_less_divisor [of 64 i] by (auto simp: div_nat_eqI)
  have sm: "scale_min_k4 (g * 2 + i mod 64 div 32) ?sc = Ok (ucast (fst (get_scale_min_k4 (g * 2 + i mod 64 div 32) ?sc)),
      ucast (snd (get_scale_min_k4 (g * 2 + i mod 64 div 32) ?sc)))"
    by (rule scale_min_k4_eq) (use assms(2) g4 sub in auto)
  have x: "idx ?q (g * 32 + l) = Ok (?q ! (g * 32 + l))"
    by (rule idx_in) (use g4 l32 assms(2) in simp)
  have qx: "take 32 (drop (32 * g) ?q) ! l = ?q ! (g * 32 + l)" "length (take 32 (drop (32 * g) ?q)) = 32"
    using g4 l32 assms(2) by (simp_all add: ac_simps)
  let ?is = "g * 2 + i mod 64 div 32"
  let ?qb = "?q ! (g * 32 + l)"
  have pl: "vs ! i = f32_sub
      (f32_mul (f32_mul ?d (u8_f32 (fst (get_scale_min_k4 ?is ?sc))))
        (u8_f32 (if i mod 64 div 32 = 0 then ?qb AND 0x0f else drop_bit 4 ?qb)))
      (f32_mul ?dmin (u8_f32 (snd (get_scale_min_k4 ?is ?sc))))"
  proof (cases "i mod 64 < 32")
    case True
    then have "i mod 64 = l" "i mod 64 div 32 = 0" by (simp_all add: l_def)
    then show ?thesis unfolding at q4_k_part_def using l32 qx by (simp add: nth_append mult.commute)
  next
    case False
    moreover have "i mod 64 < 64" by simp
    ultimately have m: "i mod 64 = 32 + l" by (simp add: l_def le_mod_geq)
    then have "(32 + l) div 32 = 1" using l32 by (auto simp: div_nat_eqI)
    with m show ?thesis unfolding at q4_k_part_def m using l32 qx by (simp add: nth_append mult.commute)
  qed
  show ?thesis
    unfolding dequant_q4_k_def r0 r2 and_then.simps Let_def s1 g_def [symmetric] l_def [symmetric] sm x
      pl prod.case u32_f32_ucast mul_half [OF h] ..
qed

lemma q5_float:
  assumes "uint nb < 16" and "uint hb < 2"
  shows "f32_add (u8_f32 nb) (f32_mul (u8_f32 hb) (f32_of_int 16)) = u32_f32 (ucast nb OR push_bit 4 (ucast hb))"
proof -
  have u: "uint (ucast hb :: 32 word) = uint hb"
    using assms(2) by (simp add: unsigned_ucast_eq take_bit_int_eq_self)
  have "f32_mul (u8_f32 hb) (f32_of_int 16) = f32_of_int (uint hb * 16)"
  proof -
    define a where "a = nat (uint hb)"
    then have a': "uint hb = int a" by simp
    with assms(2) have a: "uint hb = int a" "a < 2 ^ 24" by simp_all
    show ?thesis unfolding u8_f32_def a(1) using f32_mul_of_nat [OF a(2), of 16] by simp
  qed
  moreover have "f32_add (f32_of_int (uint nb)) (f32_of_int (uint hb * 16)) = f32_of_int (uint nb + uint hb * 16)"
    by (rule f32_add_of_int) (use assms in auto)
  ultimately show ?thesis
    unfolding u8_f32_def [of nb] u32_f32_def using five_bits [OF assms(1), of "ucast hb"] assms(2) u
    by (simp add: add.commute)
qed

lemma fst_q5_k_group: "fst ` set (q5_k_group d dmin sc qh qs g) = {g * 64..<g * 64 + 64}"
proof -
  have "fst ` set (q5_k_group d dmin sc qh qs g) =
      (\<lambda>l. g * 64 + l) ` {0..<32} \<union> (\<lambda>l. g * 64 + 32 + l) ` {0..<32}"
    by (simp add: q5_k_group_def Let_def case_prod_beta image_Un image_image)
  also have "\<dots> = {g * 64..<g * 64 + 64}"
    by (simp add: image_add_atLeastLessThan) auto
  finally show ?thesis .
qed

lemma dequant_q5_k_eq:
  assumes h: "half_contract h" and "length blk = 176" and i: "i < 256"
    and ok: "dequantize_q5_k_block h blk = Ok vs"
  shows "dequant_q5_k blk i = Ok (vs ! i)"
proof -
  let ?d = "h (le16 (blk ! 0) (blk ! 1))" and ?dmin = "h (le16 (blk ! 2) (blk ! 3))"
  let ?sc = "take 12 (drop 4 blk)" and ?qh = "take 32 (drop 16 blk)" and ?qs = "take 128 (drop 48 blk)"
  define el where "el = (\<lambda>i. let g = i div 64; l = i mod 64 mod 32; sub = i mod 64 div 32; is = g * 2 + sub;
      b = ?qs ! (g * 32 + l) in
    q5_k_elem (f32_mul ?d (u8_f32 (fst (get_scale_min_k4 is ?sc)))) (f32_mul ?dmin (u8_f32 (snd (get_scale_min_k4 is ?sc))))
      (if sub = 0 then b AND 0x0F else drop_bit 4 b) (?qh ! l) is)"
  let ?ws = "concat (map (q5_k_group ?d ?dmin ?sc ?qh ?qs) [0..<4])"
  have vs: "vs = apply_writes ?ws (replicate 256 0)"
    using ok by (simp add: dequantize_q5_k_block_def Let_def assms(2) split: if_splits)
  have "apply_writes ?ws (replicate 256 0) = map el [0..<256]"
  proof (rule apply_writes_covering)
    show "length (replicate 256 0) = (256::nat)" by simp
    show "v = el j" if "(j, v) \<in> set ?ws" for j v
    proof -
      from that obtain g where g: "g < 4" "(j, v) \<in> set (q5_k_group ?d ?dmin ?sc ?qh ?qs g)" by auto
      then obtain l where l: "l < 32"
        "j = g * 64 + l \<and> v = q5_k_elem (f32_mul ?d (u8_f32 (fst (get_scale_min_k4 (2 * g) ?sc))))
            (f32_mul ?dmin (u8_f32 (snd (get_scale_min_k4 (2 * g) ?sc)))) (?qs ! (g * 32 + l) AND 0x0F) (?qh ! l) (g * 2) \<or>
         j = g * 64 + 32 + l \<and> v = q5_k_elem (f32_mul ?d (u8_f32 (fst (get_scale_min_k4 (2 * g + 1) ?sc))))
            (f32_mul ?dmin (u8_f32 (snd (get_scale_min_k4 (2 * g + 1) ?sc)))) (drop_bit 4 (?qs ! (g * 32 + l))) (?qh ! l) (g * 2 + 1)"
        by (auto simp: q5_k_group_def Let_def case_prod_beta)
      have "(g * 64 + l) div 64 = g" "(g * 64 + l) mod 64 = l" using l(1) by simp_all
      moreover have "(g * 64 + 32 + l) div 64 = g" "(g * 64 + 32 + l) mod 64 = 32 + l"
        unfolding add.assoc using l(1) by simp_all
      moreover have "(32 + l) div 32 = 1" "(32 + l) mod 32 = l" using l(1) by (simp_all add: div_nat_eqI)
      ultimately show ?thesis using l by (elim disjE conjE) (simp_all add: el_def Let_def mult.commute)
    qed
    show "{..<256} \<subseteq> fst ` set ?ws"
    proof
      fix i :: nat assume "i \<in> {..<256}"
      then have "i div 64 < 4" by simp
      moreover have "i \<in> {i div 64 * 64..<i div 64 * 64 + 64}" using div_mult_mod_eq [of i 64] mod_less_divisor [of 64 i]
        by (auto simp only: atLeastLessThan_iff)
      ultimately show "i \<in> fst ` set ?ws"
        by (auto simp: image_UN fst_q5_k_group intro!: bexI [of _ "i div 64"])
    qed
  qed
  then have at: "vs ! i = el i" unfolding vs using i by simp
  define g where "g = i div 64"
  define l where "l = i mod 64 mod 32"
  define sb where "sb = i mod 64 div 32"
  have g4: "g < 4" and l32: "l < 32" and sb: "sb < 2" using i by (simp_all add: g_def l_def sb_def less_mult_imp_div_less)
  have bt: "i div 32 mod 8 = g * 2 + sb"
  proof -
    have "i div 64 = i div 32 div 2" by (simp flip: div_mult2_eq)
    moreover have "i mod 64 = 32 * (i div 32 mod 2) + i mod 32" using mod_mult2_eq [of i 32 2] by simp
    then have "i mod 64 div 32 = i div 32 mod 2" by simp
    ultimately have "i div 32 = i div 64 * 2 + i mod 64 div 32" by simp
    then show ?thesis using g4 sb by (simp add: g_def sb_def)
  qed
  have r0: "rd_u16 blk 0 = Ok (le16 (blk ! 0) (blk ! 1))" and r2: "rd_u16 blk 2 = Ok (le16 (blk ! 2) (blk ! 3))"
    using rd_u16_in [of 0 blk] rd_u16_in [of 2 blk] assms(2) by (simp_all add: u64_range_def)
  have s1: "slice blk 4 16 = Ok ?sc" "slice blk 16 48 = Ok ?qh" "slice blk 48 176 = Ok ?qs"
    using assms(2) by (simp_all add: slice_def)
  have sm: "scale_min_k4 (g * 2 + sb) ?sc = Ok (ucast (fst (get_scale_min_k4 (g * 2 + sb) ?sc)),
      ucast (snd (get_scale_min_k4 (g * 2 + sb) ?sc)))"
    by (rule scale_min_k4_eq) (use assms(2) g4 sb in auto)
  have x: "idx ?qs (g * 32 + l) = Ok (?qs ! (g * 32 + l))" "idx ?qh l = Ok (?qh ! l)"
    by (rule idx_in; use g4 l32 assms(2) in simp)+
  let ?nb = "if sb = 0 then ?qs ! (g * 32 + l) AND 0x0f else drop_bit 4 (?qs ! (g * 32 + l))"
  have nb: "uint ?nb < 16" using nibble_less by simp
  show ?thesis
    unfolding dequant_q5_k_def r0 r2 and_then.simps Let_def s1 g_def [symmetric] l_def [symmetric]
      sb_def [symmetric] sm x prod.case bt at el_def q5_k_elem_def q5_float [OF nb bit_less]
    by (simp add: mul_half [OF h] u32_f32_ucast)
qed

text \<open>The value a Q6\_K reader stores for half \<open>n\<close>, column \<open>l\<close>, quarter \<open>c\<close>.\<close>

definition q6_at :: "f32 \<Rightarrow> bytes \<Rightarrow> bytes \<Rightarrow> bytes \<Rightarrow> nat \<Rightarrow> nat \<Rightarrow> nat \<Rightarrow> f32" where
  "q6_at d ql qh sc n l c =
     (let lo = ql ! (n * 64 + l + (if c = 0 \<or> c = 2 then 0 else 32)) in
      q6_scaled d (sc ! (n * 8 + l div 16 + c * 2))
        ((if c < 2 then lo AND 0x0f else drop_bit 4 lo) OR push_bit 4 (drop_bit (c * 2) (qh ! (n * 32 + l)) AND 3)))"

lemma q6_k_stores_eq:
  "q6_k_stores d ql qh sc n l = map (\<lambda>c. (n * 128 + (l + c * 32), q6_at d ql qh sc n l c)) [0..<4]"
  by (simp add: q6_k_stores_def q6_at_def Let_def upt_rec)

lemma nested_writes:
  "(z \<in> set (concat (map (\<lambda>n. concat (map (\<lambda>l. map (f n l) [0..<k]) [0..<m])) [0..<p]))) =
   (\<exists>n<p. \<exists>l<m. \<exists>c<k. z = f n l c)"
proof -
  have "(z \<in> set (concat (map (\<lambda>n. concat (map (\<lambda>l. map (f n l) [0..<k]) [0..<m])) [0..<p]))) =
      (\<exists>n\<in>{0..<p}. \<exists>l\<in>{0..<m}. \<exists>c\<in>{0..<k}. z = f n l c)"
    unfolding set_concat set_map set_upt image_image by blast
  then show ?thesis by (simp only: Bex_def atLeastLessThan_iff le0 simp_thms)
qed

lemma q6_pos:
  fixes n l c :: nat
  assumes "l < 32" "c < 4"
  shows "(n * 128 + (l + c * 32)) div 128 = n" and "(n * 128 + (l + c * 32)) mod 128 mod 32 = l"
    and "(n * 128 + (l + c * 32)) mod 128 div 32 = c"
proof -
  have lt: "l + c * 32 < 128" using assms by simp
  then show "(n * 128 + (l + c * 32)) div 128 = n" by simp
  from lt have "(n * 128 + (l + c * 32)) mod 128 = l + c * 32" by simp
  then show "(n * 128 + (l + c * 32)) mod 128 mod 32 = l" "(n * 128 + (l + c * 32)) mod 128 div 32 = c"
    using assms by simp_all
qed

lemma dequantize_q6_k_superblock_eq:
  "dequantize_q6_k_superblock h blk =
   map (\<lambda>i. q6_at (h (le16 (blk ! 208) (blk ! 209))) (take 128 blk) (take 64 (drop 128 blk))
     (take 16 (drop 192 blk)) (i div 128) (i mod 128 mod 32) (i mod 128 div 32)) [0..<256]"
proof -
  have "apply_writes (concat (map (\<lambda>n. concat (map (q6_k_stores d ql qh sc n) [0..<32])) [0..<2])) (replicate 256 0) =
      map (\<lambda>i. q6_at d ql qh sc (i div 128) (i mod 128 mod 32) (i mod 128 div 32)) [0..<256]" for d ql qh sc
  proof (rule apply_writes_covering)
    let ?ws = "concat (map (\<lambda>n. concat (map (q6_k_stores d ql qh sc n) [0..<32])) [0..<2])"
    have ws: "((j, v) \<in> set ?ws) = (\<exists>n<2. \<exists>l<32. \<exists>c<4.
        j = n * 128 + (l + c * 32) \<and> v = q6_at d ql qh sc n l c)" for j v
      unfolding q6_k_stores_eq nested_writes by simp
    show "length (replicate 256 (0::f32)) = 256" by simp
    show "v = q6_at d ql qh sc (j div 128) (j mod 128 mod 32) (j mod 128 div 32)" if jv: "(j, v) \<in> set ?ws" for j v
    proof -
      from jv obtain n l c where "n < 2" and lc: "l < 32" "c < 4"
        and j: "j = n * 128 + (l + c * 32)" and v: "v = q6_at d ql qh sc n l c"
        unfolding ws by blast
      show ?thesis unfolding j v q6_pos [OF lc] ..
    qed
    show "{..<256} \<subseteq> fst ` set ?ws"
    proof
      fix i :: nat assume i: "i \<in> {..<256}"
      have "i = i div 128 * 128 + (i mod 128 mod 32 + i mod 128 div 32 * 32)" by simp
      moreover have "i div 128 < 2" "i mod 128 mod 32 < 32" "i mod 128 div 32 < 4"
        using i by (simp_all add: less_mult_imp_div_less)
      ultimately have "(i, q6_at d ql qh sc (i div 128) (i mod 128 mod 32) (i mod 128 div 32)) \<in> set ?ws"
        unfolding ws by blast
      then show "i \<in> fst ` set ?ws" by (rule image_eqI [rotated]) simp
    qed
  qed
  then show ?thesis by (simp add: dequantize_q6_k_superblock_def Let_def)
qed

lemma six_bits:
  fixes a x :: "8 word"
  assumes "uint a < 16"
  shows "f32_of_int (sint (ucast a OR push_bit 4 (ucast (x AND 3)) :: 32 word) - 32) = q6_value (a OR push_bit 4 (x AND 3))"
proof -
  let ?y = "x AND 3"
  have y: "uint ?y < 4" using uint_and_le [of x 2] unfolding mask_consts(2) by simp
  have small: "uint (a OR push_bit 4 ?y) = uint ?y * 16 + uint a"
    using uint_or_push [of a 4 ?y] assms y by (simp add: or.commute)
  have up: "uint (ucast a :: 32 word) = uint a" "uint (ucast ?y :: 32 word) = uint ?y"
    using assms y by (simp_all add: unsigned_ucast_eq take_bit_int_eq_self)
  then have big: "uint (ucast a OR push_bit 4 (ucast ?y) :: 32 word) = uint ?y * 16 + uint a"
    using uint_or_push [of "ucast a :: 32 word" 4 "ucast ?y"] assms y by (simp add: or.commute)
  have "sint (a OR push_bit 4 ?y) = uint (a OR push_bit 4 ?y)"
    by (rule sint_small) (use small assms y in simp)
  moreover have "sint (ucast a OR push_bit 4 (ucast ?y) :: 32 word) = uint (ucast a OR push_bit 4 (ucast ?y) :: 32 word)"
    by (rule sint_small) (use big assms y in simp)
  ultimately show ?thesis unfolding q6_value_def small big by simp
qed

lemma dequant_q6_k_eq:
  assumes h: "half_contract h" and len: "length blk = 210" and i: "i < 256"
  shows "dequant_q6_k blk i = Ok (dequantize_q6_k_superblock h blk ! i)"
proof -
  define n where "n = i div 128"
  define l where "l = i mod 128 mod 32"
  define c where "c = i mod 128 div 32"
  have b: "n < 2" "l < 32" "c < 4" using i by (simp_all add: n_def l_def c_def less_mult_imp_div_less)
  have l16: "l div 16 < 2" using b(2) by simp
  have at: "dequantize_q6_k_superblock h blk ! i = q6_at (h (le16 (blk ! 208) (blk ! 209))) (take 128 blk)
      (take 64 (drop 128 blk)) (take 16 (drop 192 blk)) n l c"
    unfolding dequantize_q6_k_superblock_eq n_def l_def c_def using i by simp
  have r: "rd_u16 blk 208 = Ok (le16 (blk ! 208) (blk ! 209))"
    using rd_u16_in [of 208 blk] len by (simp add: u64_range_def)
  let ?p = "if c = 0 \<or> c = 2 then n * 64 + l else n * 64 + l + 32"
  let ?lo = "if c < 2 then blk ! ?p AND 0x0f else drop_bit 4 (blk ! ?p)"
  have x: "idx blk ?p = Ok (blk ! ?p)" "idx blk (128 + n * 32 + l) = Ok (blk ! (128 + n * 32 + l))"
    "idx blk (192 + (n * 8 + l div 16 + c * 2)) = Ok (blk ! (192 + (n * 8 + l div 16 + c * 2)))"
    using len b l16 by (auto intro!: idx_in)
  have ixs: "take 128 blk ! (n * 64 + l + (if c = 0 \<or> c = 2 then 0 else 32)) = blk ! ?p"
    "take 64 (drop 128 blk) ! (n * 32 + l) = blk ! (128 + n * 32 + l)"
    "take 16 (drop 192 blk) ! (n * 8 + l div 16 + c * 2) = blk ! (192 + (n * 8 + l div 16 + c * 2))"
    using len b l16 by (auto simp: add.assoc)
  have lo: "uint ?lo < 16" using nibble_less by simp
  show ?thesis
    unfolding dequant_q6_k_def r and_then.simps Let_def n_def [symmetric] l_def [symmetric] c_def [symmetric] x
      six_bits [OF lo] at q6_at_def ixs q6_scaled_def mul_half [OF h] ..
qed

end
