(* ===== verification/Window.thy ===== *)
theory Window
  imports Quant_Formula
begin

text \<open>
  The model file in GPU memory: \<open>src/src/backend/bindless/loader.rs\<close> splits it into
  blob chunks and selects, for one dispatch, a window of at most eight of them;
  \<open>src/src/backend/bindless/pipeline/mod.rs\<close> packs tensor offsets into \<open>u32\<close> and plans
  the window of a layer. A \<open>u32\<close> is a \<open>32 word\<close>, whose arithmetic wraps as the code's does;
  \<open>u64\<close> and \<open>usize\<close> are \<open>nat\<close> with the Prelude's wrapping and checked operations.
\<close>

type_synonym u32 = "32 word"
type_synonym 'a str_res = "(string, 'a) res"

section \<open>Chunk plan\<close>

definition blob_chunk_bytes :: nat where "blob_chunk_bytes = 2000000000"
definition blob_binding_slots :: nat where "blob_binding_slots = 8"
definition max_storage_buffer_binding_size :: nat where
  "max_storage_buffer_binding_size = 2000000000"
definition required_alignment :: nat where "required_alignment = 256"

text \<open>
  \<open>assert_invariant\<close> panics on a violation. The thread-local log of the messages it
  has checked serves the contract tests only and is not part of the model.
\<close>

definition assert_invariant :: "bool \<Rightarrow> ('e, unit) res" where
  "assert_invariant b = (if b then Ok () else Panic)"

definition assert_buffer_within_limit :: "nat \<Rightarrow> ('e, unit) res" where
  "assert_buffer_within_limit n = assert_invariant (n \<le> max_storage_buffer_binding_size)"

definition assert_alignment :: "nat \<Rightarrow> ('e, unit) res" where
  "assert_alignment n = assert_invariant (n mod required_alignment = 0)"

definition assert_word_index_in_range :: "u32 \<Rightarrow> u32 \<Rightarrow> ('e, unit) res" where
  "assert_word_index_in_range w n = assert_invariant (w < n)"

record chunk_plan =
  effective_chunk :: nat
  num_chunks :: nat

definition u32_div :: "u32 \<Rightarrow> u32 \<Rightarrow> ('e, u32) res" where
  "u32_div a b = (if b = 0 then Panic else Ok (a div b))"

definition plan_buffer_for_word :: "chunk_plan \<Rightarrow> u32 \<Rightarrow> (nat \<times> u32) str_res" where
  "plan_buffer_for_word p word_idx =
     (let chunk_words = word_of_nat (effective_chunk p div 4);
          total_words = word_of_nat (wmul (effective_chunk p) (num_chunks p) div 4)
      in and_then (assert_word_index_in_range word_idx total_words) (\<lambda>_.
         and_then (u32_div word_idx chunk_words) (\<lambda>q. Ok (unat q, word_idx mod chunk_words))))"

definition compute_chunk_plan :: "nat \<Rightarrow> nat \<Rightarrow> chunk_plan str_res" where
  "compute_chunk_plan file_size adapter_limit =
     (let cap = min blob_chunk_bytes adapter_limit;
          eff = (cap div required_alignment) * required_alignment
      in and_then (assert_alignment eff) (\<lambda>_.
         and_then (assert_buffer_within_limit eff) (\<lambda>_.
         if eff = 0 then Panic
         else Ok \<lparr>effective_chunk = eff, num_chunks = div_ceil file_size eff\<rparr>)))"

definition quant_block_geometry :: "nat \<Rightarrow> (nat \<times> nat) option" where
  "quant_block_geometry type_id =
     (case block_elems type_id of None \<Rightarrow> None
      | Some elems \<Rightarrow> (case block_bytes type_id of None \<Rightarrow> None
        | Some bs \<Rightarrow> Some (elems, bs)))"

text \<open>
  The upload loop of \<open>try_load_prepared\<close>: chunk \<open>i\<close> holds the file's bytes from
  \<open>i * effective_chunk\<close> on, at most \<open>effective_chunk\<close> of them.
\<close>

definition chunk_contents :: "chunk_plan \<Rightarrow> 'b list \<Rightarrow> nat \<Rightarrow> 'b list str_res" where
  "chunk_contents p mmap i =
     (let offset = wmul i (effective_chunk p);
          chunk_size = min (wsub (length mmap) offset) (effective_chunk p)
      in and_then (assert_buffer_within_limit chunk_size) (\<lambda>_.
         and_then (assert_invariant (chunk_size mod 4 = 0)) (\<lambda>_.
         slice mmap offset (wadd offset chunk_size))))"

definition upload_chunks :: "chunk_plan \<Rightarrow> 'b list \<Rightarrow> 'b list list str_res" where
  "upload_chunks p mmap = traverse (chunk_contents p mmap) [0..<num_chunks p]"

section \<open>Windows\<close>

record blob_window =
  start_chunk :: nat
  slot_count :: nat
  chunk_words :: u32
  total_resident_chunks :: nat

definition window_new :: "nat \<Rightarrow> nat \<Rightarrow> u32 \<Rightarrow> nat \<Rightarrow> blob_window str_res" where
  "window_new start slots cw resident =
     (if resident \<le> start then
        Err (''window start_chunk '' @ dec start @ '' >= total_resident_chunks '' @ dec resident)
      else if slots = 0 \<or> blob_binding_slots < slots then
        Err (''slot_count '' @ dec slots @ '' must be in [1, BLOB_BINDING_SLOTS='' @
             dec blob_binding_slots @ '']'')
      else if resident < wadd start slots then
        Err (''window ['' @ dec start @ '', '' @ dec (wadd start slots) @
             '') exceeds total_resident_chunks '' @ dec resident)
      else Ok \<lparr>start_chunk = start, slot_count = slots, chunk_words = cw,
               total_resident_chunks = resident\<rparr>)"

definition window_for_range :: "u32 \<Rightarrow> u32 \<Rightarrow> u32 \<Rightarrow> nat \<Rightarrow> blob_window str_res" where
  "window_for_range start_word end_word cw resident =
     and_then (u32_div start_word cw) (\<lambda>s.
     and_then (u32_div end_word cw) (\<lambda>e.
     window_new (unat s) (wadd (wsub (unat e) (unat s)) 1) cw resident))"

definition window_full :: "nat \<Rightarrow> u32 \<Rightarrow> nat \<Rightarrow> blob_window str_res" where
  "window_full start cw resident = window_new start blob_binding_slots cw resident"

definition window_base_words :: "blob_window \<Rightarrow> u32" where
  "window_base_words w = word_of_nat (start_chunk w) * chunk_words w"

definition window_end :: "blob_window \<Rightarrow> u32" where
  "window_end w = window_base_words w + word_of_nat (slot_count w) * chunk_words w"

definition absolute_to_local :: "blob_window \<Rightarrow> u32 \<Rightarrow> (nat \<times> u32) str_res" where
  "absolute_to_local w a =
     (if a < window_base_words w then
        Err (''word '' @ dec (unat a) @ '' before window base '' @ dec (unat (window_base_words w)))
      else if window_end w \<le> a then
        Err (''word '' @ dec (unat a) @ '' at/after window end '' @ dec (unat (window_end w)) @
             '' (slot_count='' @ dec (slot_count w) @ '', chunk_words='' @
             dec (unat (chunk_words w)) @ '')'')
      else
        (let rel = a - window_base_words w in
         and_then (u32_div rel (chunk_words w)) (\<lambda>slot.
         and_then (assert_word_index_in_range (rel mod chunk_words w) (chunk_words w)) (\<lambda>_.
         Ok (unat slot, rel mod chunk_words w)))))"

definition local_to_absolute :: "blob_window \<Rightarrow> nat \<Rightarrow> u32 \<Rightarrow> u32" where
  "local_to_absolute w slot l =
     window_base_words w + word_of_nat slot * chunk_words w + l"

definition window_contains :: "blob_window \<Rightarrow> u32 \<Rightarrow> bool" where
  "window_contains w a = (window_base_words w \<le> a \<and> a < window_end w)"

text \<open>
  \<open>binding_resources\<close>: slot \<open>i\<close> binds resident chunk \<open>start_chunk + i\<close>; the other slots
  of the eight bind the dummy buffer.
\<close>

definition binding_resources :: "blob_window \<Rightarrow> 'b list \<Rightarrow> 'b \<Rightarrow> 'b list" where
  "binding_resources w gpu_buffers dummy =
     map (\<lambda>i. if i < slot_count w \<and> start_chunk w + i < length gpu_buffers
              then gpu_buffers ! (start_chunk w + i) else dummy) [0..<blob_binding_slots]"


section \<open>The plan and the upload\<close>

lemma assert_invariant_Ok [simp]: "(assert_invariant b = Ok u) = b"
  by (simp add: assert_invariant_def)

lemma assert_invariant_True [simp]: "assert_invariant True = Ok ()"
  by (simp add: assert_invariant_def)

lemma compute_chunk_plan_eq:
  "compute_chunk_plan file_size limit =
     (if limit < 256 then Panic
      else Ok \<lparr>effective_chunk = min blob_chunk_bytes limit div 256 * 256,
               num_chunks = div_ceil file_size (min blob_chunk_bytes limit div 256 * 256)\<rparr>)"
proof -
  let ?c = "min blob_chunk_bytes limit"
  have le: "?c div 256 * 256 \<le> 2000000000"
    using div_times_less_eq_dividend [of ?c 256] by (simp add: blob_chunk_bytes_def)
  have "(?c div 256 = 0) = (limit < 256)"
    by (auto simp: blob_chunk_bytes_def min_def)
  with le show ?thesis
    by (simp add: compute_chunk_plan_def Let_def required_alignment_def assert_alignment_def
        assert_buffer_within_limit_def assert_invariant_def max_storage_buffer_binding_size_def)
qed

definition plan_ok :: "nat \<Rightarrow> chunk_plan \<Rightarrow> bool" where
  "plan_ok file_size p =
     (0 < effective_chunk p \<and> effective_chunk p \<le> 2000000000 \<and> effective_chunk p mod 256 = 0 \<and>
      num_chunks p = div_ceil file_size (effective_chunk p))"

lemma compute_chunk_plan_ok:
  assumes "compute_chunk_plan file_size limit = Ok p"
  shows "plan_ok file_size p \<and> effective_chunk p \<le> limit"
proof -
  let ?c = "min blob_chunk_bytes limit"
  from assms have l: "256 \<le> limit"
    and p: "p = \<lparr>effective_chunk = ?c div 256 * 256, num_chunks = div_ceil file_size (?c div 256 * 256)\<rparr>"
    by (simp_all add: compute_chunk_plan_eq split: if_splits)
  have "?c div 256 * 256 \<le> ?c" by (rule div_times_less_eq_dividend)
  moreover have "0 < ?c div 256 * 256"
    using l by (simp add: blob_chunk_bytes_def div_greater_zero_iff)
  ultimately show ?thesis
    by (simp add: plan_ok_def p) (simp add: blob_chunk_bytes_def)
qed

lemma plan_chunks_cover:
  assumes "plan_ok n p" and "0 < n"
  shows "n \<le> num_chunks p * effective_chunk p"
    and "(num_chunks p - 1) * effective_chunk p < n" and "0 < num_chunks p"
proof -
  have e: "0 < effective_chunk p" "num_chunks p = div_ceil n (effective_chunk p)"
    using assms(1) by (simp_all add: plan_ok_def)
  show c: "n \<le> num_chunks p * effective_chunk p"
    unfolding e(2) by (rule div_ceil_mult_ge [OF e(1)])
  show "(num_chunks p - 1) * effective_chunk p < n"
    unfolding e(2) by (rule div_ceil_mult_less [OF e(1) assms(2)])
  from c assms(2) show "0 < num_chunks p" by (cases "num_chunks p") simp_all
qed

lemma plan_chunk_start: "plan_ok n p \<Longrightarrow> i < num_chunks p \<Longrightarrow> i * effective_chunk p < n"
proof -
  assume p: "plan_ok n p" and i: "i < num_chunks p"
  then have n: "0 < n" by (cases n) (auto simp: plan_ok_def)
  have "i * effective_chunk p \<le> (num_chunks p - 1) * effective_chunk p"
    using i by (intro mult_le_mono1) simp
  with plan_chunks_cover(2) [OF p n] show ?thesis by linarith
qed

definition chunk_of :: "chunk_plan \<Rightarrow> 'b list \<Rightarrow> nat \<Rightarrow> 'b list" where
  "chunk_of p mmap i = take (effective_chunk p) (drop (i * effective_chunk p) mmap)"

lemma chunk_contents_eq:
  assumes "plan_ok (length mmap) p" and "length mmap < u64_range" and "length mmap mod 4 = 0"
    and "i < num_chunks p"
  shows "chunk_contents p mmap i = Ok (chunk_of p mmap i)"
proof -
  let ?e = "effective_chunk p" and ?n = "length mmap"
  let ?o = "i * ?e"
  have o: "?o < ?n" using plan_chunk_start [OF assms(1,4)] .
  have w: "wmul i ?e = ?o" using o assms(2) by simp
  have s: "wsub ?n ?o = ?n - ?o" using o assms(2) by simp
  define k where "k = min (?n - ?o) ?e"
  have k: "k \<le> ?n - ?o" "k \<le> 2000000000" using assms(1) by (auto simp: k_def plan_ok_def)
  have e4: "?e mod 4 = 0" using assms(1) by (auto simp: plan_ok_def)
  then have "?o mod 4 = 0" by auto
  with assms(3) have "(?n - ?o) mod 4 = 0" by auto
  with e4 have k4: "k mod 4 = 0" by (simp add: k_def min_def)
  have a: "wadd ?o k = ?o + k" using k o assms(2) by simp
  have "slice mmap ?o (?o + k) = (Ok (take k (drop ?o mmap)) :: 'a list str_res)"
    using k o by (simp add: slice_def)
  moreover have "take k (drop ?o mmap) = chunk_of p mmap i"
    by (simp add: k_def chunk_of_def min_def)
  ultimately show ?thesis
    using k k4 a by (simp add: chunk_contents_def Let_def w s k_def [symmetric]
        assert_buffer_within_limit_def max_storage_buffer_binding_size_def)
qed

lemma upload_chunks_eq:
  assumes "plan_ok (length mmap) p" and "length mmap < u64_range" and "length mmap mod 4 = 0"
  shows "upload_chunks p mmap = Ok (map (chunk_of p mmap) [0..<num_chunks p])"
  unfolding upload_chunks_def by (rule traverse_map_Ok) (simp add: chunk_contents_eq [OF assms])

lemma concat_chunks:
  assumes "0 < e"
  shows "length xs \<le> k * e \<Longrightarrow> concat (map (\<lambda>i. take e (drop (i * e) xs)) [0..<k]) = xs"
proof (induction k arbitrary: xs)
  case (Suc k)
  have "map (\<lambda>i. take e (drop (i * e) xs)) [0..<Suc k] =
      take e xs # map (\<lambda>i. take e (drop (i * e) (drop e xs))) [0..<k]"
    by (simp add: upt_conv_Cons map_Suc_upt [symmetric] add.commute del: upt_Suc)
  moreover have "length (drop e xs) \<le> k * e" using Suc.prems by simp
  ultimately show ?case using Suc.IH [of "drop e xs"] by simp
qed simp

section \<open>Window arithmetic\<close>

text \<open>A window whose end is addressable: the arithmetic on it does not wrap.\<close>

definition window_ok :: "blob_window \<Rightarrow> bool" where
  "window_ok w = (0 < chunk_words w \<and> 0 < slot_count w \<and> slot_count w \<le> 8 \<and>
     start_chunk w + slot_count w \<le> total_resident_chunks w \<and>
     (start_chunk w + slot_count w) * unat (chunk_words w) < 2 ^ 32)"

lemma unat_add_small: "unat a + unat b < 2 ^ 32 \<Longrightarrow> unat (a + b :: u32) = unat a + unat b"
  by (simp add: unat_word_ariths)

lemma unat_mult_chunk:
  fixes c :: u32
  assumes "k * unat c < 2 ^ 32"
  shows "unat (word_of_nat k * c) = k * unat c"
proof -
  have "unat (word_of_nat k * c) = (k * unat c) mod 2 ^ 32"
    by (simp add: unat_word_ariths unat_of_nat mod_mult_left_eq)
  with assms show ?thesis by simp
qed

lemma window_base_nat: "window_ok w \<Longrightarrow> unat (window_base_words w) = start_chunk w * unat (chunk_words w)"
  unfolding window_base_words_def
  by (rule unat_mult_chunk) (auto simp: window_ok_def add_mult_distrib)

lemma window_end_nat:
  assumes "window_ok w"
  shows "unat (window_end w) = (start_chunk w + slot_count w) * unat (chunk_words w)"
proof -
  have l: "start_chunk w * unat (chunk_words w) + slot_count w * unat (chunk_words w) < 2 ^ 32"
    using assms by (simp add: window_ok_def add_mult_distrib)
  then have "unat (word_of_nat (slot_count w) * chunk_words w) = slot_count w * unat (chunk_words w)"
    by (intro unat_mult_chunk) linarith
  with window_base_nat [OF assms] l show ?thesis
    by (simp add: window_end_def unat_add_small add_mult_distrib)
qed

lemma diff_mult_div: "s * c \<le> a \<Longrightarrow> 0 < c \<Longrightarrow> (a - s * c) div c = a div c - (s :: nat)"
proof -
  assume "s * c \<le> a" and "0 < c"
  then obtain d where "a = s * c + d" using le_Suc_ex by blast
  then show ?thesis using \<open>0 < c\<close> by simp
qed

lemma diff_mult_mod: "s * c \<le> a \<Longrightarrow> (a - s * c) mod c = a mod (c :: nat)"
proof -
  assume "s * c \<le> a"
  then obtain d where "a = s * c + d" using le_Suc_ex by blast
  then show ?thesis by simp
qed

lemma absolute_to_local_eq:
  assumes "window_ok w" and "start_chunk w \<le> unat a div unat (chunk_words w)"
    and "unat a div unat (chunk_words w) < start_chunk w + slot_count w"
  shows "absolute_to_local w a =
    Ok (unat a div unat (chunk_words w) - start_chunk w, a mod chunk_words w)"
proof -
  let ?c = "unat (chunk_words w)" and ?s = "start_chunk w" and ?a = "unat a"
  have c: "0 < ?c" using assms(1) by (simp add: window_ok_def unat_gt_0 word_gt_0)
  have lo: "?s * ?c \<le> ?a"
    using assms(2) c by (simp add: less_eq_div_iff_mult_less_eq)
  have hi: "?a < (?s + slot_count w) * ?c"
    using assms(3) c by (simp add: div_less_iff_less_mult)
  note b = window_base_nat [OF assms(1)] and e = window_end_nat [OF assms(1)]
  have nlt: "\<not> a < window_base_words w" using lo b by (simp add: word_less_nat_alt)
  have nle: "\<not> window_end w \<le> a" using hi e by (simp add: word_le_nat_alt)
  have rel: "unat (a - window_base_words w) = ?a - ?s * ?c"
    using lo b by (simp add: unat_sub word_le_nat_alt)
  have q: "unat ((a - window_base_words w) div chunk_words w) = ?a div ?c - ?s"
    using diff_mult_div [OF lo c] by (simp add: unat_div rel)
  have m: "(a - window_base_words w) mod chunk_words w = a mod chunk_words w"
  proof (rule word_unat_eq_iff [THEN iffD2])
    show "unat ((a - window_base_words w) mod chunk_words w) = unat (a mod chunk_words w)"
      using diff_mult_mod [OF lo] by (simp add: unat_mod rel)
  qed
  have z: "chunk_words w \<noteq> 0" using c by auto
  have "a mod chunk_words w < chunk_words w"
    using c by (simp add: word_less_nat_alt unat_mod)
  with z show ?thesis
    by (simp add: absolute_to_local_def nlt nle Let_def u32_div_def q m assert_word_index_in_range_def)
qed

text \<open>A range of words gets a window exactly when it spans at most eight resident chunks.\<close>

lemma window_for_range_eq:
  assumes "0 < cw" and "lo \<le> hi"
  shows "window_for_range lo hi cw resident =
    window_new (unat lo div unat cw) (unat hi div unat cw - unat lo div unat cw + 1) cw resident"
proof -
  let ?s = "unat lo div unat cw" and ?e = "unat hi div unat cw"
  have le: "?s \<le> ?e" using assms(2) by (simp add: div_le_mono word_le_nat_alt)
  have "?e \<le> unat hi" by (rule div_le_dividend)
  also have "\<dots> < 2 ^ 32" using unsigned_less [of hi] by simp
  finally have e: "?e < 2 ^ 32" .
  have "wsub ?e ?s = ?e - ?s" using le e by (simp add: u64_range_def)
  moreover have "wadd (?e - ?s) 1 = ?e - ?s + 1" using e by (intro wadd_small) (simp add: u64_range_def)
  moreover have "cw \<noteq> 0" using assms(1) by (metis less_irrefl)
  ultimately show ?thesis
    by (simp add: window_for_range_def u32_div_def unat_div)
qed

lemma window_for_range_Ok:
  assumes "0 < cw" and "lo \<le> hi"
  shows "(window_for_range lo hi cw resident = Ok w) =
    (unat hi div unat cw < resident \<and> unat hi div unat cw - unat lo div unat cw < 8 \<and>
     w = \<lparr>start_chunk = unat lo div unat cw,
          slot_count = unat hi div unat cw - unat lo div unat cw + 1,
          chunk_words = cw, total_resident_chunks = resident\<rparr>)"
proof -
  let ?s = "unat lo div unat cw" and ?e = "unat hi div unat cw"
  have le: "?s \<le> ?e" using assms(2) by (simp add: div_le_mono word_le_nat_alt)
  have "?e \<le> unat hi" by (rule div_le_dividend)
  also have "\<dots> < 2 ^ 32" using unsigned_less [of hi] by simp
  finally have e: "?e < 2 ^ 32" .
  have "wadd ?s (?e - ?s + 1) = ?s + (?e - ?s + 1)"
    using le e by (intro wadd_small) (simp add: u64_range_def)
  with le have a: "wadd ?s (?e - ?s + 1) = ?e + 1" by simp
  have "(window_new ?s (?e - ?s + 1) cw resident = Ok w) = (?e < resident \<and> ?e - ?s < 8 \<and>
     w = \<lparr>start_chunk = ?s, slot_count = ?e - ?s + 1, chunk_words = cw, total_resident_chunks = resident\<rparr>)"
    using le unfolding window_new_def a blob_binding_slots_def by auto
  then show ?thesis by (simp add: window_for_range_eq [OF assms])
qed

lemma local_to_absolute_eq:
  assumes "window_ok w" and "start_chunk w \<le> unat a div unat (chunk_words w)"
  shows "local_to_absolute w (unat a div unat (chunk_words w) - start_chunk w) (a mod chunk_words w) = a"
proof -
  let ?c = "unat (chunk_words w)"
  let ?q = "unat a div ?c"
  have "word_of_nat (start_chunk w) + word_of_nat (?q - start_chunk w) = (word_of_nat ?q :: u32)"
    using assms(2) by (simp flip: of_nat_add)
  then have "local_to_absolute w (?q - start_chunk w) (a mod chunk_words w) =
      word_of_nat ?q * chunk_words w + a mod chunk_words w"
    by (simp add: local_to_absolute_def window_base_words_def flip: distrib_right)
  also have "word_of_nat ?q = a div chunk_words w" by (simp flip: unat_div)
  finally show ?thesis by (simp add: div_mult_mod_eq)
qed

definition chunk_words_of :: "chunk_plan \<Rightarrow> u32" where
  "chunk_words_of p = word_of_nat (effective_chunk p div 4)"

lemma chunk_words_of_nat: "plan_ok n p \<Longrightarrow> unat (chunk_words_of p) = effective_chunk p div 4"
  unfolding chunk_words_of_def
  by (rule unat_word_of_nat_small) (auto simp: plan_ok_def)

lemma chunk_words_of_pos: "plan_ok n p \<Longrightarrow> 0 < chunk_words_of p"
proof -
  assume p: "plan_ok n p"
  then have "4 \<le> effective_chunk p" by (auto simp: plan_ok_def dvd_imp_le mod_eq_0_iff_dvd)
  with chunk_words_of_nat [OF p] show ?thesis by (simp add: word_less_nat_alt)
qed

lemma plan_ok_words:
  assumes "plan_ok n p"
  obtains c where "effective_chunk p = 4 * c" and "0 < c" and "c \<le> 500000000"
    and "unat (chunk_words_of p) = c" and "effective_chunk p div 4 = c"
proof -
  have "effective_chunk p mod 4 = 0" using assms by (auto simp: plan_ok_def)
  then obtain c where c: "effective_chunk p = 4 * c" by auto
  show thesis
    by (rule that [of c]) (use assms c chunk_words_of_nat [OF assms] in \<open>auto simp: plan_ok_def\<close>)
qed

lemma plan_chunk_of_word:
  assumes "plan_ok n p" and "4 * a < n"
  shows "a div (effective_chunk p div 4) < num_chunks p"
proof -
  obtain c where c: "effective_chunk p = 4 * c" "0 < c" "effective_chunk p div 4 = c"
    using plan_ok_words [OF assms(1)] by metis
  have "n \<le> num_chunks p * (4 * c)"
    using plan_chunks_cover(1) [OF assms(1)] assms(2) c(1) by simp
  with assms(2) have "a < num_chunks p * c" by linarith
  then show ?thesis unfolding c(3) by (rule less_mult_imp_div_less)
qed

text \<open>
  The windows of a file that the executor admits (at most \<open>u32::MAX\<close> bytes) never wrap.
\<close>

lemma planned_window_ok:
  assumes p: "plan_ok n p" and n: "n < 2 ^ 32" and hi: "4 * unat hi < n" and le: "lo \<le> hi"
    and w: "window_for_range lo hi (chunk_words_of p) (num_chunks p) = Ok w"
  shows "window_ok w"
proof -
  obtain c where c: "0 < c" "c \<le> 500000000" "unat (chunk_words_of p) = c"
    using plan_ok_words [OF p] by metis
  note wf = w [unfolded window_for_range_Ok [OF chunk_words_of_pos [OF p] le] c(3)]
  have d: "unat lo div c \<le> unat hi div c" using le by (simp add: div_le_mono word_le_nat_alt)
  have "(unat hi div c + 1) * c \<le> unat hi + c"
    by (simp add: add_mult_distrib div_times_less_eq_dividend)
  moreover have "unat hi + c < 2 ^ 32" using hi n c(2) by simp
  ultimately have "(unat hi div c + 1) * c < 2 ^ 32" by (rule le_less_trans)
  then show ?thesis
    using wf d chunk_words_of_pos [OF p] c(3) by (simp add: window_ok_def)
qed

text \<open>Four bytes of the file, as the shader's \<open>read_blob\<close> takes them from a bound chunk.\<close>

definition word_at :: "'b list \<Rightarrow> nat \<Rightarrow> 'b list" where
  "word_at xs a = take 4 (drop (4 * a) xs)"

lemma word_at_chunk:
  assumes p: "plan_ok n p"
  shows "word_at (chunk_of p mmap (a div (effective_chunk p div 4))) (a mod (effective_chunk p div 4)) =
    word_at mmap a"
proof -
  obtain c where c: "effective_chunk p = 4 * c" "0 < c" "effective_chunk p div 4 = c"
    using plan_ok_words [OF p] by metis
  have r: "a mod c < c" using c(2) by simp
  have "a = a mod c + a div c * c" by simp
  then have a: "4 * (a mod c) + a div c * (4 * c) = 4 * a" by linarith
  have m: "min 4 (4 * c - 4 * (a mod c)) = 4" using r by simp
  have "word_at (chunk_of p mmap (a div c)) (a mod c) =
      take (min 4 (4 * c - 4 * (a mod c))) (drop (4 * (a mod c) + a div c * (4 * c)) mmap)"
    by (simp only: word_at_def chunk_of_def c(1) drop_take take_take drop_drop)
  then show ?thesis by (simp only: m a c(3) word_at_def)
qed

text \<open>
  C21: A shader that reads a word of the model file through the window of a dispatch gets
  the four bytes of the file: for the chunk plan of a file the executor admits, the chunks
  the loader uploads, and the window of any range of words, \<open>absolute_to_local\<close> finds
  every word of the range in one of the bound slots, at an offset inside that slot's chunk
  whose content is the file's, and \<open>local_to_absolute\<close> inverts it.
\<close>

theorem window_reads_file:
  assumes "compute_chunk_plan (length mmap) limit = Ok p"
    and "length mmap < 2 ^ 32" and "length mmap mod 4 = 0"
    and "upload_chunks p mmap = Ok buffers"
    and "lo \<le> a" and "a \<le> hi" and "4 * unat hi < length mmap"
    and "window_for_range lo hi (chunk_words_of p) (num_chunks p) = Ok w"
  shows "\<exists>slot off. absolute_to_local w a = Ok (slot, off) \<and> slot < slot_count w \<and>
    off < chunk_words w \<and> local_to_absolute w slot off = a \<and> window_contains w a \<and>
    word_at (binding_resources w buffers dummy ! slot) (unat off) = word_at mmap (unat a)"
proof -
  have p: "plan_ok (length mmap) p" using compute_chunk_plan_ok [OF assms(1)] by simp
  obtain c where c: "effective_chunk p = 4 * c" "0 < c" "unat (chunk_words_of p) = c"
    "effective_chunk p div 4 = c" using plan_ok_words [OF p] by metis
  have le: "lo \<le> hi" using assms(5,6) by (rule order_trans)
  have ok: "window_ok w" by (rule planned_window_ok [OF p assms(2,7) le assms(8)])
  note wf = assms(8) [unfolded window_for_range_Ok [OF chunk_words_of_pos [OF p] le] c(3)]
  have b: "buffers = map (chunk_of p mmap) [0..<num_chunks p]"
    using assms(4) upload_chunks_eq [OF p _ assms(3)] assms(2) by (simp add: u64_range_def)
  let ?q = "unat a div c" and ?s = "unat lo div c"
  have q: "?s \<le> ?q" "?q \<le> unat hi div c"
    using assms(5,6) by (simp_all add: div_le_mono word_le_nat_alt)
  have w: "start_chunk w = ?s" "slot_count w = unat hi div c - ?s + 1" "chunk_words w = chunk_words_of p"
    using wf by simp_all
  have slot: "?q - ?s < slot_count w" using q by (simp add: w)
  have loc: "absolute_to_local w a = Ok (?q - ?s, a mod chunk_words w)"
    using absolute_to_local_eq [OF ok, of a] q by (simp add: w c(3))
  have inv: "local_to_absolute w (?q - ?s) (a mod chunk_words w) = a"
    using local_to_absolute_eq [OF ok, of a] q by (simp add: w c(3))
  have off: "a mod chunk_words w < chunk_words w"
    using c by (simp add: w word_less_nat_alt unat_mod)
  have "window_contains w a"
    using loc unfolding absolute_to_local_def window_contains_def
    by (simp add: not_less not_le split: if_splits)
  moreover have "binding_resources w buffers dummy ! (?q - ?s) = chunk_of p mmap ?q"
  proof -
    have "?q < num_chunks p" using wf q by simp
    moreover have "?q - ?s < 8" using wf q by linarith
    ultimately show ?thesis
      using slot q by (simp add: binding_resources_def blob_binding_slots_def b w(1))
  qed
  then have "word_at (binding_resources w buffers dummy ! (?q - ?s)) (unat (a mod chunk_words w)) =
      word_at mmap (unat a)"
    using word_at_chunk [OF p, of mmap "unat a"] c(3,4) by (simp add: unat_mod w(3))
  ultimately show ?thesis using loc slot off inv by blast
qed

definition sample_plan :: chunk_plan where
  "sample_plan = \<lparr>effective_chunk = 256, num_chunks = 4\<rparr>"

definition sample_window :: blob_window where
  "sample_window = \<lparr>start_chunk = 0, slot_count = 3, chunk_words = 64, total_resident_chunks = 4\<rparr>"

lemma sample_plan_ok: "plan_ok 1024 sample_plan"
  by (simp add: plan_ok_def sample_plan_def div_ceil_def)

lemma sample_chunk_words: "chunk_words_of sample_plan = 64"
  by (simp add: chunk_words_of_def sample_plan_def)

lemma window_reads_file_witness:
  "\<exists>slot off. absolute_to_local sample_window 100 = Ok (slot, off) \<and> slot < slot_count sample_window \<and>
    off < chunk_words sample_window \<and> local_to_absolute sample_window slot off = 100 \<and>
    window_contains sample_window 100 \<and>
    word_at (binding_resources sample_window (map (chunk_of sample_plan [0..<1024]) [0..<4]) [] ! slot)
      (unat off) = word_at [0..<1024] (unat (100 :: u32))"
proof (rule window_reads_file [where limit = 300 and lo = 60 and hi = 130 and p = sample_plan])
  show "compute_chunk_plan (length [0..<1024]) 300 = Ok sample_plan"
    by (simp add: compute_chunk_plan_eq sample_plan_def blob_chunk_bytes_def div_ceil_def)
  show "upload_chunks sample_plan [0..<1024] = Ok (map (chunk_of sample_plan [0..<1024]) [0..<4])"
    using upload_chunks_eq [of "[0..<1024]" sample_plan] sample_plan_ok
    by (simp add: sample_plan_def u64_range_def)
  have "(60 :: u32) \<le> 130" and "(0 :: u32) < 64" by simp_all
  then show "window_for_range 60 130 (chunk_words_of sample_plan) (num_chunks sample_plan) = Ok sample_window"
    unfolding sample_chunk_words
    by (subst window_for_range_Ok) (simp_all add: sample_plan_def sample_window_def)
qed simp_all

end
