(* ===== verification/Facts.thy ===== *)
theory Facts
  imports Float_Div Window
begin

text \<open>
  \<open>src/crates/airframe_observe/src/facts.rs\<close>: the facts of an inference run, the keys the
  rules are indexed by, and the statistics of a row of activations.
\<close>

datatype halt_reason = EosToken | MaxTokensReached | ExtraStopToken | ControlHalt

datatype kernel_kind = KK_Qkv | KK_AttnOut | KK_FfnDown | KK_FfnProj | KK_FullLayer

datatype yield_reason = TdrBudgetExceeded | LayerBoundary

type_synonym i64 = "64 word"

datatype inference_fact =
    LayerOutput u32 u32 u32 i64
  | FinalLogits u32 u32 i64
  | OutputToken u32 u32
  | LayerOutputStable u32
  | LogitsClean
  | WriteOracleRow u32
  | TriggerCandleCompare u32 i64
  | DispatchTiming u32 kernel_kind u32
  | DispatchCompleted u32 kernel_kind u32
  | TdrRiskHigh u32
  | TdrRiskLow u32
  | YieldNow u32 yield_reason
  | PromptToken u32 u32
  | EmbeddingRequest u32
  | EmbeddingReady u32 u32
  | PrefillBatchReady u32
  | PrefillComplete u32
  | DecodeStep u32 u32 u32
  | DecodeLogitsReady u32
  | KvAdvance u32
  | KvWritten
  | GenerationHalt halt_reason
  | FamilyContext string string bool
  | PerTensorOutput u32 u32 "u32 list" "i64 list"
  | TensorFact u32 "u32 list" nat string
  | DispatchFact u32 u32 nat
  | VaultOracle u32 int u32 u32 i64
  | CertificationPass u32 u32 u32
  | CertificationFail u32 u32 u32 u32 u32 bool

section \<open>Keys\<close>

type_synonym alpha_key = nat

definition key_layer_output :: alpha_key where "key_layer_output = 1"
definition key_final_logits :: alpha_key where "key_final_logits = 2"
definition key_output_token :: alpha_key where "key_output_token = 3"
definition key_layer_stable :: alpha_key where "key_layer_stable = 4"
definition key_logits_clean :: alpha_key where "key_logits_clean = 5"
definition key_family_context :: alpha_key where "key_family_context = 8"
definition key_per_tensor_output :: alpha_key where "key_per_tensor_output = 9"
definition key_dispatch_timing :: alpha_key where "key_dispatch_timing = 10"
definition key_tdr_risk_high :: alpha_key where "key_tdr_risk_high = 11"
definition key_prompt_token :: alpha_key where "key_prompt_token = 12"
definition key_embedding_ready :: alpha_key where "key_embedding_ready = 13"
definition key_prefill_batch_ready :: alpha_key where "key_prefill_batch_ready = 14"
definition key_prefill_complete :: alpha_key where "key_prefill_complete = 15"
definition key_decode_step :: alpha_key where "key_decode_step = 16"
definition key_decode_logits_ready :: alpha_key where "key_decode_logits_ready = 17"
definition key_dispatch_completed :: alpha_key where "key_dispatch_completed = 18"
definition key_embedding_request :: alpha_key where "key_embedding_request = 19"
definition key_tensor_fact :: alpha_key where "key_tensor_fact = 20"
definition key_dispatch_fact :: alpha_key where "key_dispatch_fact = 21"
definition key_vault_oracle :: alpha_key where "key_vault_oracle = 22"
definition key_cert_pass :: alpha_key where "key_cert_pass = 23"
definition key_cert_fail :: alpha_key where "key_cert_fail = 24"
definition key_kv_advance :: alpha_key where "key_kv_advance = 25"

lemmas key_defs = key_layer_output_def key_final_logits_def key_output_token_def key_layer_stable_def
  key_logits_clean_def key_family_context_def key_per_tensor_output_def key_dispatch_timing_def key_tdr_risk_high_def
  key_prompt_token_def key_embedding_ready_def key_prefill_batch_ready_def key_prefill_complete_def key_decode_step_def
  key_decode_logits_ready_def key_dispatch_completed_def key_embedding_request_def key_tensor_fact_def
  key_dispatch_fact_def key_vault_oracle_def key_cert_pass_def key_cert_fail_def key_kv_advance_def

text \<open>Facts without a key trigger no rule.\<close>

definition alpha_key_of :: "inference_fact \<Rightarrow> alpha_key option" where
  "alpha_key_of ft =
     (case ft of
        LayerOutput _ _ _ _ \<Rightarrow> Some key_layer_output
      | FinalLogits _ _ _ \<Rightarrow> Some key_final_logits
      | OutputToken _ _ \<Rightarrow> Some key_output_token
      | LayerOutputStable _ \<Rightarrow> Some key_layer_stable
      | LogitsClean \<Rightarrow> Some key_logits_clean
      | FamilyContext _ _ _ \<Rightarrow> Some key_family_context
      | PerTensorOutput _ _ _ _ \<Rightarrow> Some key_per_tensor_output
      | TensorFact _ _ _ _ \<Rightarrow> Some key_tensor_fact
      | DispatchFact _ _ _ \<Rightarrow> Some key_dispatch_fact
      | DispatchTiming _ _ _ \<Rightarrow> Some key_dispatch_timing
      | DispatchCompleted _ _ _ \<Rightarrow> Some key_dispatch_completed
      | TdrRiskHigh _ \<Rightarrow> Some key_tdr_risk_high
      | TdrRiskLow _ \<Rightarrow> None
      | PromptToken _ _ \<Rightarrow> Some key_prompt_token
      | EmbeddingRequest _ \<Rightarrow> Some key_embedding_request
      | EmbeddingReady _ _ \<Rightarrow> Some key_embedding_ready
      | PrefillBatchReady _ \<Rightarrow> Some key_prefill_batch_ready
      | PrefillComplete _ \<Rightarrow> Some key_prefill_complete
      | DecodeStep _ _ _ \<Rightarrow> Some key_decode_step
      | DecodeLogitsReady _ \<Rightarrow> Some key_decode_logits_ready
      | KvAdvance _ \<Rightarrow> Some key_kv_advance
      | KvWritten \<Rightarrow> None
      | WriteOracleRow _ \<Rightarrow> None
      | TriggerCandleCompare _ _ \<Rightarrow> None
      | YieldNow _ _ \<Rightarrow> None
      | GenerationHalt _ \<Rightarrow> None
      | VaultOracle _ _ _ _ _ \<Rightarrow> Some key_vault_oracle
      | CertificationPass _ _ _ \<Rightarrow> Some key_cert_pass
      | CertificationFail _ _ _ _ _ _ \<Rightarrow> Some key_cert_fail)"

section \<open>Statistics\<close>

text \<open>
  The sum of squares in the order of the slice. The standard library's sum starts at a zero
  whose sign makes no difference before a square.
\<close>

definition rms :: "f32 list \<Rightarrow> f32" where
  "rms v = (if v = [] then 0
     else f32_sqrt (f32_div (fold (\<lambda>x acc. f32_add acc (f32_mul x x)) v 0) (f32_of_int (int (length v)))))"

text \<open>The sum of the bit patterns, wrapping in 64 bits.\<close>

definition checksum :: "f32 list \<Rightarrow> i64" where
  "checksum v = fold (\<lambda>x acc. acc + ucast x) v 0"

end
