(* ===== verification/Fabric.thy ===== *)
theory Fabric
  imports Facts
begin

text \<open>
  \<open>src/crates/airframe_observe/src/isf.rs\<close>: generation as a reactive program. The state the
  rules share, the rules as registered, and \<open>try_generate\<close>. The closures a session is given
  (the GPU, the tokenizer, the sampler, the hooks, the clock) are parameters that act on a
  world of their own; the hooks of \<open>ISFState\<close>, which no rule changes, are kept with them.
  The engine that schedules the rules is the external crate dzero: it is a parameter too,
  and \<open>engine_ok\<close> states what is relied on.
\<close>

datatype isf_run_error = BudgetOverflow | BudgetExhausted | MissingTerminalReason

record run_budget =
  rb_max_facts :: nat
  rb_max_rounds :: nat

definition request_run_budget :: "nat \<Rightarrow> nat \<Rightarrow> nat \<Rightarrow> (isf_run_error, run_budget) res" where
  "request_run_budget prompt_tokens max_tokens existing_facts =
     and_then (ok_or (Option.bind (checked_mul prompt_tokens 6) (\<lambda>n.
        Option.bind (Option.bind (checked_mul max_tokens 16) (checked_add n)) (\<lambda>n.
        Option.bind (Option.bind (checked_mul existing_facts 2) (checked_add n)) (\<lambda>n.
        Option.bind (checked_add n 64) (\<lambda>n. if n < 2 ^ 32 then Some n else None))))) BudgetOverflow) (\<lambda>work.
      Ok \<lparr>rb_max_facts = work, rb_max_rounds = work\<rparr>)"

datatype control_decision = CD_Allow | CD_Force nat | CD_EarlyExit | CD_Block string

record isf_state =
  is_embeddings :: "f32 list option list"
  is_prompt_len :: u32
  is_generated_text :: string
  is_logits :: "f32 list"
  is_halt :: "halt_reason option"
  is_max_tokens :: u32
  is_eos_token :: u32
  is_extra_stop_ids :: "u32 list"
  is_recent_tokens :: "u32 list"
  is_block_reason :: "string option"
  is_all_token_ids :: "u32 list"
  is_tdr_accumulated_ms :: nat
  is_tdr_budget_ms :: nat
  is_tdr_yield_count :: u32
  is_embedding_cache :: "u32 \<rightharpoonup> f32 list"
  is_prompt_token_ids :: "u32 list"

text \<open>A new state; the budget is the one of the platform or of the environment.\<close>

definition isf_state_new :: "u32 \<Rightarrow> u32 \<Rightarrow> u32 \<Rightarrow> u32 list \<Rightarrow> nat \<Rightarrow> isf_state" where
  "isf_state_new prompt_len max_tokens eos extra budget =
     \<lparr>is_embeddings = replicate (unat prompt_len) None, is_prompt_len = prompt_len, is_generated_text = [],
      is_logits = [], is_halt = None, is_max_tokens = max_tokens, is_eos_token = eos, is_extra_stop_ids = extra,
      is_recent_tokens = [], is_block_reason = None, is_all_token_ids = [], is_tdr_accumulated_ms = 0,
      is_tdr_budget_ms = budget, is_tdr_yield_count = 0, is_embedding_cache = (\<lambda>_. None), is_prompt_token_ids = []\<rparr>"

definition all_embeddings_ready :: "isf_state \<Rightarrow> bool" where
  "all_embeddings_ready s = list_all (\<lambda>e. e \<noteq> None) (is_embeddings s)"

definition all_embeddings_cached :: "isf_state \<Rightarrow> u32 list \<Rightarrow> bool" where
  "all_embeddings_cached s ids = list_all (\<lambda>i. is_embedding_cache s i \<noteq> None) (remdups ids)"

definition unwrap_embedding :: "f32 list option \<Rightarrow> ('e, f32 list) res" where
  "unwrap_embedding e = (case e of Some v \<Rightarrow> Ok v | None \<Rightarrow> Panic)"

definition batched_embeddings :: "isf_state \<Rightarrow> ('e, f32 list) res" where
  "batched_embeddings s =
     (if is_prompt_token_ids s \<noteq> [] \<and> is_embedding_cache s \<noteq> (\<lambda>_. None)
      then Ok (concat (map (\<lambda>i. case is_embedding_cache s i of Some v \<Rightarrow> v | None \<Rightarrow> []) (is_prompt_token_ids s)))
      else and_then (traverse unwrap_embedding (is_embeddings s)) (\<lambda>es. Ok (concat es)))"

section \<open>The closures\<close>

record 'w closures =
  ic_dequant :: "'w \<Rightarrow> u32 \<Rightarrow> u32 \<Rightarrow> 'w \<times> f32 list"
  ic_prefill :: "'w \<Rightarrow> f32 list \<Rightarrow> u32 \<Rightarrow> 'w \<times> f32 list \<times> f32 list"
  ic_forward :: "'w \<Rightarrow> f32 list \<Rightarrow> u32 \<Rightarrow> 'w \<times> f32 list \<times> f32 list"
  ic_sample :: "'w \<Rightarrow> f32 list \<Rightarrow> u32 list \<Rightarrow> 'w \<times> f32 list \<times> u32"
  ic_decode :: "'w \<Rightarrow> u32 \<Rightarrow> 'w \<times> string"
  ic_kv_increment :: "'w \<Rightarrow> 'w"
  ic_dim :: u32
  ic_elapsed_ms :: "'w \<Rightarrow> 'w \<Rightarrow> u32"
  ic_mask :: "('w \<Rightarrow> f32 list \<Rightarrow> 'w \<times> f32 list) option"
  ic_control :: "('w \<Rightarrow> nat \<Rightarrow> string \<Rightarrow> nat \<Rightarrow> u32 list \<Rightarrow> nat \<Rightarrow> 'w \<times> control_decision) option"
  ic_trace :: "('w \<Rightarrow> nat \<Rightarrow> f32 list \<Rightarrow> u32 \<Rightarrow> 'w) option"
  ic_on_token :: "('w \<Rightarrow> string \<Rightarrow> 'w) option"

definition apply_mask :: "'w closures \<Rightarrow> 'w \<Rightarrow> f32 list \<Rightarrow> 'w \<times> f32 list" where
  "apply_mask cl w logits = (case ic_mask cl of None \<Rightarrow> (w, logits) | Some m \<Rightarrow> m w logits)"

definition apply_control :: "'w closures \<Rightarrow> 'w \<Rightarrow> nat \<Rightarrow> string \<Rightarrow> nat \<Rightarrow> u32 list \<Rightarrow> nat \<Rightarrow> 'w \<times> control_decision" where
  "apply_control cl w candidate txt step ids kv_len =
     (case ic_control cl of None \<Rightarrow> (w, CD_Allow) | Some c \<Rightarrow> c w candidate txt step ids kv_len)"

definition apply_trace :: "'w closures \<Rightarrow> 'w \<Rightarrow> nat \<Rightarrow> f32 list \<Rightarrow> u32 \<Rightarrow> 'w" where
  "apply_trace cl w step logits ms = (case ic_trace cl of None \<Rightarrow> w | Some t \<Rightarrow> t w step logits ms)"

definition emit_piece :: "'w closures \<Rightarrow> 'w \<Rightarrow> string \<Rightarrow> 'w" where
  "emit_piece cl w piece = (case ic_on_token cl of None \<Rightarrow> w | Some f \<Rightarrow> f w piece)"

section \<open>The rules\<close>

text \<open>A rule's outcome: the facts it asserts and the state and world it leaves; it may panic.\<close>

type_synonym 'w fired = "(string, inference_fact list \<times> isf_state \<times> 'w) res"

definition halt_with :: "halt_reason \<Rightarrow> isf_state \<Rightarrow> 'w \<Rightarrow> 'w fired" where
  "halt_with reason s w = Ok ([GenerationHalt reason], s\<lparr>is_halt := Some reason\<rparr>, w)"

definition rule_prompt_token :: "inference_fact \<Rightarrow> isf_state \<Rightarrow> 'w \<Rightarrow> 'w fired" where
  "rule_prompt_token ft s w =
     (case ft of PromptToken position token_id \<Rightarrow> Ok ([EmbeddingRequest token_id], s, w) | _ \<Rightarrow> Ok ([], s, w))"

definition rule_embedding_request :: "'w closures \<Rightarrow> inference_fact \<Rightarrow> isf_state \<Rightarrow> 'w \<Rightarrow> 'w fired" where
  "rule_embedding_request cl ft s w =
     (case ft of EmbeddingRequest token_id \<Rightarrow>
     (let (w, embedding) = ic_dequant cl w token_id (ic_dim cl) in
      Ok ([EmbeddingReady 0 token_id], s\<lparr>is_embedding_cache := (is_embedding_cache s)(token_id \<mapsto> embedding)\<rparr>, w))
      | _ \<Rightarrow> Ok ([], s, w))"

definition rule_embedding_ready :: "isf_state \<Rightarrow> 'w \<Rightarrow> 'w fired" where
  "rule_embedding_ready s w =
     (let all_ready = (if is_prompt_token_ids s \<noteq> [] then all_embeddings_cached s (is_prompt_token_ids s)
                       else all_embeddings_ready s)
      in Ok (if all_ready then [PrefillBatchReady (is_prompt_len s)] else [], s, w))"

definition kv_advances :: "u32 \<Rightarrow> inference_fact list" where
  "kv_advances n = map (\<lambda>pos. KvAdvance (word_of_nat pos)) [0..<unat n]"

definition rule_prefill :: "'w closures \<Rightarrow> inference_fact \<Rightarrow> isf_state \<Rightarrow> 'w \<Rightarrow> 'w fired" where
  "rule_prefill cl ft s w =
     (case ft of PrefillBatchReady token_count \<Rightarrow>
     and_then (batched_embeddings s) (\<lambda>batched.
     let (w', hidden, logits) = ic_prefill cl w batched token_count; ms = ic_elapsed_ms cl w w' in
     Ok (kv_advances token_count @
           [PrefillComplete token_count, LayerOutput 0 token_count (rms hidden) (checksum hidden),
            FinalLogits token_count (rms logits) (checksum logits), DispatchCompleted 0 KK_FullLayer ms],
         s\<lparr>is_logits := logits\<rparr>, w'))
      | _ \<Rightarrow> Ok ([], s, w))"

text \<open>The last 64 tokens are kept for the repetition penalty.\<close>

definition push_recent :: "u32 \<Rightarrow> u32 list \<Rightarrow> u32 list" where
  "push_recent t recent = (let r = recent @ [t] in if 64 < length r then tl r else r)"

text \<open>The first token, once the control has let it or another through.\<close>

definition first_token :: "'w closures \<Rightarrow> u32 \<Rightarrow> isf_state \<Rightarrow> 'w \<Rightarrow> 'w fired" where
  "first_token cl token_id s w =
     (let s = s\<lparr>is_recent_tokens := push_recent token_id (is_recent_tokens s),
              is_all_token_ids := is_all_token_ids s @ [token_id]\<rparr> in
      if token_id = is_eos_token s then halt_with EosToken s w
      else if token_id \<in> set (is_extra_stop_ids s) then halt_with ExtraStopToken s w
      else (let (w, piece) = ic_decode cl w token_id in
            Ok ([DecodeStep 0 token_id (is_prompt_len s)],
                s\<lparr>is_generated_text := is_generated_text s @ piece\<rparr>, emit_piece cl w piece)))"

definition rule_prefill_complete :: "'w closures \<Rightarrow> isf_state \<Rightarrow> 'w \<Rightarrow> 'w fired" where
  "rule_prefill_complete cl s w =
     (let (w, logits) = apply_mask cl w (is_logits s);
          (w, logits, token_id) = ic_sample cl w logits (is_recent_tokens s);
          s = s\<lparr>is_logits := logits\<rparr>;
          (w, d) = apply_control cl w (unat token_id) (is_generated_text s) 0 (is_all_token_ids s) (unat (is_prompt_len s))
      in case d of
           CD_Allow \<Rightarrow> first_token cl token_id s w
         | CD_Force t \<Rightarrow> first_token cl (word_of_nat t) s w
         | CD_EarlyExit \<Rightarrow> halt_with ControlHalt s w
         | CD_Block r \<Rightarrow> halt_with ControlHalt (s\<lparr>is_block_reason := Some r\<rparr>) w)"

definition rule_kv_advance :: "'w closures \<Rightarrow> inference_fact \<Rightarrow> isf_state \<Rightarrow> 'w \<Rightarrow> 'w fired" where
  "rule_kv_advance cl ft s w =
     (case ft of KvAdvance position \<Rightarrow> Ok ([KvWritten], s, ic_kv_increment cl w)
      | _ \<Rightarrow> Ok ([], s, w))"

text \<open>A decoded token, once the control has let it or another through.\<close>

definition next_token ::
    "'w closures \<Rightarrow> u32 \<Rightarrow> u32 \<Rightarrow> f32 list \<Rightarrow> u32 \<Rightarrow> i64 \<Rightarrow> u32 \<Rightarrow> u32 \<Rightarrow> isf_state \<Rightarrow> 'w \<Rightarrow> 'w fired" where
  "next_token cl step position logits rms_bits sum_bits ms token_id s w =
     (if token_id = is_eos_token s
      then halt_with EosToken (s\<lparr>is_all_token_ids := is_all_token_ids s @ [token_id]\<rparr>) w
      else if token_id \<in> set (is_extra_stop_ids s)
      then halt_with ExtraStopToken (s\<lparr>is_all_token_ids := is_all_token_ids s @ [token_id]\<rparr>) w
      else
        (let (w, piece) = ic_decode cl w token_id in
         Ok ([KvAdvance position, DecodeStep (step + 1) token_id (position + 1),
              FinalLogits position rms_bits sum_bits, DispatchCompleted position KK_FullLayer ms],
             s\<lparr>is_generated_text := is_generated_text s @ piece, is_logits := logits,
               is_recent_tokens := push_recent token_id (is_recent_tokens s),
               is_all_token_ids := is_all_token_ids s @ [token_id]\<rparr>,
             emit_piece cl w piece)))"

definition tokens_so_far :: "isf_state \<Rightarrow> nat" where
  "tokens_so_far s = length (is_all_token_ids s) - unat (is_prompt_len s)"

definition rule_decode_step :: "'w closures \<Rightarrow> inference_fact \<Rightarrow> isf_state \<Rightarrow> 'w \<Rightarrow> 'w fired" where
  "rule_decode_step cl ft s w =
     (case ft of DecodeStep step token_id position \<Rightarrow>
     (if is_max_tokens s \<le> step + 1 then halt_with MaxTokensReached s w
      else
        (let (w1, hidden, logits) = ic_forward cl w [f32_of_int (uint token_id)] position; ms = ic_elapsed_ms cl w w1 in
         if logits = []
         then halt_with ControlHalt (s\<lparr>is_block_reason := Some ''GPU forward pass returned empty logits''\<rparr>) w1
         else
           (let (w2, logits) = apply_mask cl w1 logits;
                w3 = apply_trace cl w2 (tokens_so_far s) logits ms;
                rms_bits = rms logits; sum_bits = checksum logits;
                (w4, logits, candidate) = ic_sample cl w3 logits (is_recent_tokens s);
                (w5, d) = apply_control cl w4 (unat candidate) (is_generated_text s) (tokens_so_far s)
                  (is_all_token_ids s) (length (is_all_token_ids s))
            in case d of
                 CD_Allow \<Rightarrow> next_token cl step position logits rms_bits sum_bits ms candidate s w5
               | CD_Force t \<Rightarrow> next_token cl step position logits rms_bits sum_bits ms (word_of_nat t) s w5
               | CD_EarlyExit \<Rightarrow> halt_with ControlHalt s w5
               | CD_Block r \<Rightarrow> halt_with ControlHalt (s\<lparr>is_block_reason := Some r\<rparr>) w5)))
      | _ \<Rightarrow> Ok ([], s, w))"

definition rule_dispatch_completed :: "inference_fact \<Rightarrow> isf_state \<Rightarrow> 'w \<Rightarrow> 'w fired" where
  "rule_dispatch_completed ft s w =
     (case ft of DispatchCompleted layer kern ms \<Rightarrow>
     (let s = s\<lparr>is_tdr_accumulated_ms := is_tdr_accumulated_ms s + unat ms\<rparr> in
      Ok (if is_tdr_budget_ms s \<le> is_tdr_accumulated_ms s then [TdrRiskHigh layer] else [], s, w))
      | _ \<Rightarrow> Ok ([], s, w))"

definition rule_tdr_risk_high :: "inference_fact \<Rightarrow> isf_state \<Rightarrow> 'w \<Rightarrow> 'w fired" where
  "rule_tdr_risk_high ft s w =
     (case ft of TdrRiskHigh layer \<Rightarrow>
     Ok ([YieldNow layer TdrBudgetExceeded],
         s\<lparr>is_tdr_accumulated_ms := 0, is_tdr_yield_count := is_tdr_yield_count s + 1\<rparr>, w)
      | _ \<Rightarrow> Ok ([], s, w))"

definition tensor_fact_dispatch_rule :: "inference_fact \<Rightarrow> inference_fact list" where
  "tensor_fact_dispatch_rule ft =
     (case ft of
        TensorFact quant_type shp offset arch \<Rightarrow>
          (case slot_for_type (unat quant_type) of
             Some slot \<Rightarrow> [DispatchFact quant_type (word_of_nat (slot_as_u32 slot)) offset]
           | None \<Rightarrow> [])
      | _ \<Rightarrow> [])"

text \<open>The program: the rule registered under each key.\<close>

definition isf_rule :: "'w closures \<Rightarrow> alpha_key \<Rightarrow> inference_fact \<Rightarrow> isf_state \<Rightarrow> 'w \<Rightarrow> 'w fired" where
  "isf_rule cl key ft s w =
     (if key = key_prompt_token then rule_prompt_token ft s w
      else if key = key_embedding_request then rule_embedding_request cl ft s w
      else if key = key_embedding_ready then rule_embedding_ready s w
      else if key = key_prefill_batch_ready then rule_prefill cl ft s w
      else if key = key_prefill_complete then rule_prefill_complete cl s w
      else if key = key_kv_advance then rule_kv_advance cl ft s w
      else if key = key_decode_step then rule_decode_step cl ft s w
      else if key = key_dispatch_completed then rule_dispatch_completed ft s w
      else if key = key_tdr_risk_high then rule_tdr_risk_high ft s w
      else if key = key_tensor_fact then Ok (tensor_fact_dispatch_rule ft, s, w)
      else Ok ([], s, w))"

definition isf_program :: "'w closures \<Rightarrow> inference_fact \<Rightarrow> isf_state \<Rightarrow> 'w \<Rightarrow> 'w fired" where
  "isf_program cl ft s w =
     (case alpha_key_of ft of None \<Rightarrow> Ok ([], s, w) | Some key \<Rightarrow> isf_rule cl key ft s w)"

section \<open>The fabric\<close>

text \<open>
  The facts asserted, those not processed yet, and the shared state. Asserting a fact a
  second time has no effect.
\<close>

record 'w fabric =
  fb_store :: "inference_fact list"
  fb_pending :: "inference_fact list"
  fb_state :: isf_state
  fb_world :: 'w

definition fabric_new :: "isf_state \<Rightarrow> 'w \<Rightarrow> 'w fabric" where
  "fabric_new s w = \<lparr>fb_store = [], fb_pending = [], fb_state = s, fb_world = w\<rparr>"

definition fabric_assert :: "inference_fact \<Rightarrow> 'w fabric \<Rightarrow> 'w fabric" where
  "fabric_assert ft fb =
     (if ft \<in> set (fb_store fb) then fb
      else fb\<lparr>fb_store := fb_store fb @ [ft], fb_pending := fb_pending fb @ [ft]\<rparr>)"

text \<open>Processing a pending fact fires its rule and asserts what the rule derives.\<close>

definition fire :: "'w closures \<Rightarrow> inference_fact \<Rightarrow> 'w fabric \<Rightarrow> (string, 'w fabric) res" where
  "fire cl ft fb =
     and_then (isf_program cl ft (fb_state fb) (fb_world fb)) (\<lambda>(facts, s, w).
     Ok (fold fabric_assert facts (fb\<lparr>fb_pending := removeAll ft (fb_pending fb), fb_state := s, fb_world := w\<rparr>)))"

text \<open>\<open>n\<close> facts are processed, in any order.\<close>

inductive processes :: "'w closures \<Rightarrow> nat \<Rightarrow> 'w fabric \<Rightarrow> 'w fabric \<Rightarrow> bool" for cl where
  processes_none: "processes cl 0 fb fb"
| processes_one: "ft \<in> set (fb_pending fb) \<Longrightarrow> fire cl ft fb = Ok fb' \<Longrightarrow> processes cl n fb' fb'' \<Longrightarrow>
    processes cl (Suc n) fb fb''"

text \<open>A run's result: the facts processed and whether none is pending.\<close>

type_synonym 'w engine = "run_budget \<Rightarrow> 'w fabric \<Rightarrow> (string, 'w fabric \<times> nat \<times> bool) res"

text \<open>
  What is relied on of \<open>run_to_fixpoint\<close>: it processes pending facts, one per round and at
  most as many as the budget allows, until none is pending; it says so exactly then, and
  stops early only with its budget used up. It panics only if a rule does.
\<close>

definition engine_ok :: "'w closures \<Rightarrow> 'w engine \<Rightarrow> bool" where
  "engine_ok cl run =
     (\<forall>budget fb. case run budget fb of
        Ok (fb', n, saturated) \<Rightarrow> processes cl n fb fb' \<and> (saturated = (fb_pending fb' = [])) \<and>
          n \<le> min (rb_max_facts budget) (rb_max_rounds budget) \<and>
          (saturated \<or> n = min (rb_max_facts budget) (rb_max_rounds budget))
      | Err e \<Rightarrow> False
      | Panic \<Rightarrow> (\<exists>n fb' ft. processes cl n fb fb' \<and> ft \<in> set (fb_pending fb') \<and> fire cl ft fb' = Panic))"

section \<open>Generation\<close>

record generate_output =
  go_text :: string
  go_tokens_generated :: nat
  go_halt_reason :: halt_reason

definition is_tensor_fact :: "inference_fact \<Rightarrow> bool" where
  "is_tensor_fact ft = (case ft of TensorFact _ _ _ _ \<Rightarrow> True | _ \<Rightarrow> False)"

definition assert_tensor_facts :: "inference_fact list \<Rightarrow> 'w fabric \<Rightarrow> 'w fabric" where
  "assert_tensor_facts facts fb = fold fabric_assert (filter is_tensor_fact facts) fb"

definition prompt_facts :: "u32 list \<Rightarrow> inference_fact list" where
  "prompt_facts ids = map (\<lambda>(pos, i). PromptToken (word_of_nat pos) i) (enumerate 0 ids)"

definition try_generate :: "'w engine \<Rightarrow> u32 list \<Rightarrow> 'w fabric \<Rightarrow> 'w fabric \<times> (isf_run_error, generate_output) res" where
  "try_generate run ids fb =
     (case request_run_budget (length ids) (unat (is_max_tokens (fb_state fb))) (length (fb_store fb)) of
        Err e \<Rightarrow> (fb, Err e)
      | Panic \<Rightarrow> (fb, Panic)
      | Ok budget \<Rightarrow>
          (let fb = fold fabric_assert (prompt_facts ids) fb in
           case run budget fb of
             Ok (fb, n, saturated) \<Rightarrow>
               (fb, if \<not> saturated then Err BudgetExhausted
                    else case is_halt (fb_state fb) of
                           None \<Rightarrow> Err MissingTerminalReason
                         | Some reason \<Rightarrow>
                             Ok \<lparr>go_text = is_generated_text (fb_state fb),
                                 go_tokens_generated = tokens_so_far (fb_state fb), go_halt_reason = reason\<rparr>)
           | _ \<Rightarrow> (fb, Panic)))"

text \<open>
  The state a caller hands over: the tokens of the prompt are recorded before they are
  asserted, as the runtime does.
\<close>

definition session_state :: "u32 list \<Rightarrow> u32 \<Rightarrow> u32 \<Rightarrow> u32 list \<Rightarrow> nat \<Rightarrow> isf_state" where
  "session_state ids max_tokens eos extra budget =
     (isf_state_new (word_of_nat (length ids)) max_tokens eos extra budget)
       \<lparr>is_all_token_ids := ids, is_prompt_token_ids := ids\<rparr>"

text \<open>A first-in first-out engine, which processes one fact per round.\<close>

fun fifo_run :: "'w closures \<Rightarrow> nat \<Rightarrow> 'w fabric \<Rightarrow> (string, 'w fabric \<times> nat) res" where
  "fifo_run cl 0 fb = Ok (fb, 0)"
| "fifo_run cl (Suc n) fb =
     (case fb_pending fb of
        [] \<Rightarrow> Ok (fb, 0)
      | ft # _ \<Rightarrow> and_then (fire cl ft fb) (\<lambda>fb'. and_then (fifo_run cl n fb') (\<lambda>(fb'', k). Ok (fb'', Suc k))))"

definition fifo_engine :: "'w closures \<Rightarrow> 'w engine" where
  "fifo_engine cl budget fb =
     and_then (fifo_run cl (min (rb_max_facts budget) (rb_max_rounds budget)) fb) (\<lambda>(fb', n).
     Ok (fb', n, fb_pending fb' = []))"

end
