(* ===== verification/Generation.thy ===== *)
theory Generation
  imports Fabric
begin

text \<open>
  What the inference fabric guarantees, whatever order the engine processes the facts in:
  the work bound of \<open>request_run_budget\<close> is never reached, a run ends with a reason, and the
  closures are called as a sequential generation would call them.
\<close>

section \<open>The rule of each fact\<close>

lemma program_simps:
  "isf_program cl (PromptToken position token_id) s w = Ok ([EmbeddingRequest token_id], s, w)"
  "isf_program cl (EmbeddingReady position token_id) s w = rule_embedding_ready s w"
  "isf_program cl (PrefillComplete position) s w = rule_prefill_complete cl s w"
  "isf_program cl (KvAdvance position) s w = Ok ([KvWritten], s, ic_kv_increment cl w)"
  "isf_program cl (TdrRiskHigh layer) s w = Ok ([YieldNow layer TdrBudgetExceeded],
     s\<lparr>is_tdr_accumulated_ms := 0, is_tdr_yield_count := is_tdr_yield_count s + 1\<rparr>, w)"
  "isf_program cl (TensorFact q d off a) s w = Ok (tensor_fact_dispatch_rule (TensorFact q d off a), s, w)"
  by (simp_all add: isf_program_def alpha_key_of_def isf_rule_def key_defs rule_prompt_token_def rule_kv_advance_def
      rule_tdr_risk_high_def)

lemma program_rules:
  "isf_program cl (EmbeddingRequest token_id) = rule_embedding_request cl (EmbeddingRequest token_id)"
  "isf_program cl (PrefillBatchReady n) = rule_prefill cl (PrefillBatchReady n)"
  "isf_program cl (DecodeStep step token_id position) = rule_decode_step cl (DecodeStep step token_id position)"
  "isf_program cl (DispatchCompleted layer kern ms) = rule_dispatch_completed (DispatchCompleted layer kern ms)"
  by (intro ext, simp add: isf_program_def alpha_key_of_def isf_rule_def key_defs)+

text \<open>The facts whose rule is the program's.\<close>

definition triggers :: "inference_fact \<Rightarrow> bool" where
  "triggers ft = (case ft of
      PromptToken _ _ \<Rightarrow> True | EmbeddingRequest _ \<Rightarrow> True | EmbeddingReady _ _ \<Rightarrow> True
    | PrefillBatchReady _ \<Rightarrow> True | PrefillComplete _ \<Rightarrow> True | KvAdvance _ \<Rightarrow> True | DecodeStep _ _ _ \<Rightarrow> True
    | DispatchCompleted _ _ _ \<Rightarrow> True | TdrRiskHigh _ \<Rightarrow> True | TensorFact _ _ _ _ \<Rightarrow> True | _ \<Rightarrow> False)"

lemma program_quiet: "\<not> triggers ft \<Longrightarrow> isf_program cl ft s w = Ok ([], s, w)"
  by (cases ft) (simp_all add: triggers_def isf_program_def alpha_key_of_def isf_rule_def key_defs)

lemma prefill_rule_Ok:
  assumes "isf_program cl (PrefillBatchReady n) s w = Ok (fs, s', w')"
  obtains b h ls ms where "batched_embeddings s = (Ok b :: (string, f32 list) res)" and "ic_prefill cl w b n = (w', h, ls)"
    and "s' = s\<lparr>is_logits := ls\<rparr>"
    and "fs = kv_advances n @ [PrefillComplete n, LayerOutput 0 n (rms h) (checksum h),
      FinalLogits n (rms ls) (checksum ls), DispatchCompleted 0 KK_FullLayer ms]"
proof -
  obtain b where b: "batched_embeddings s = (Ok b :: (string, f32 list) res)"
    using assms by (auto simp: program_rules rule_prefill_def)
  obtain w1 h ls where 1: "ic_prefill cl w b n = (w1, h, ls)" by (rule prod_cases3)
  show thesis
    by (rule that [OF b, of h ls]) (use assms in \<open>auto simp: program_rules rule_prefill_def b 1 Let_def simp del: and_then_eq_Ok\<close>)
qed

section \<open>Asserting and firing\<close>

lemma assert_fields [simp]:
  "fb_state (fold fabric_assert fs fb) = fb_state fb" "fb_world (fold fabric_assert fs fb) = fb_world fb"
  by (induction fs arbitrary: fb) (simp_all add: fabric_assert_def)

lemma assert_store: "set (fb_store (fold fabric_assert fs fb)) = set (fb_store fb) \<union> set fs"
  by (induction fs arbitrary: fb) (auto simp: fabric_assert_def)

lemma assert_pending:
  "set (fb_pending (fold fabric_assert fs fb)) = set (fb_pending fb) \<union> (set fs - set (fb_store fb))"
  by (induction fs arbitrary: fb) (auto simp: fabric_assert_def)

lemma fireE:
  assumes "fire cl ft fb = Ok fb'"
  obtains fs s w where "isf_program cl ft (fb_state fb) (fb_world fb) = Ok (fs, s, w)"
    and "fb_state fb' = s" and "fb_world fb' = w"
    and "set (fb_store fb') = set (fb_store fb) \<union> set fs"
    and "set (fb_pending fb') = (set (fb_pending fb) - {ft}) \<union> (set fs - set (fb_store fb))"
    and "fb' = fold fabric_assert fs (fb\<lparr>fb_pending := removeAll ft (fb_pending fb), fb_state := s, fb_world := w\<rparr>)"
proof -
  obtain fs s w where p: "isf_program cl ft (fb_state fb) (fb_world fb) = Ok (fs, s, w)"
    "fb' = fold fabric_assert fs (fb\<lparr>fb_pending := removeAll ft (fb_pending fb), fb_state := s, fb_world := w\<rparr>)"
    using assms by (auto simp: fire_def)
  show thesis by (rule that [OF p(1)]) (simp_all add: p(2) assert_store assert_pending)
qed

section \<open>The work of a request\<close>

text \<open>
  The weight of a fact bounds the facts that processing it and what it leads to can take,
  for a request of at most \<open>g\<close> tokens; the facts of a prefill are counted once.
\<close>

definition decode_weight :: "nat \<Rightarrow> nat \<Rightarrow> nat" where
  "decode_weight g k = 2 + 7 * (g - 1 - k)"

definition prefill_weight :: "nat \<Rightarrow> nat \<Rightarrow> nat" where
  "prefill_weight g n = 2 * n + decode_weight g 0 + 7"

definition weight :: "nat \<Rightarrow> inference_fact \<Rightarrow> nat" where
  "weight g ft = (case ft of
      PromptToken _ _ \<Rightarrow> 3 | EmbeddingRequest _ \<Rightarrow> 2 | EmbeddingReady _ _ \<Rightarrow> 1
    | PrefillBatchReady n \<Rightarrow> prefill_weight g (unat n) | PrefillComplete _ \<Rightarrow> 1 + decode_weight g 0
    | DecodeStep k _ _ \<Rightarrow> decode_weight g (unat k) | KvAdvance _ \<Rightarrow> 2 | DispatchCompleted _ _ _ \<Rightarrow> 3
    | TdrRiskHigh _ \<Rightarrow> 2 | TensorFact _ _ _ _ \<Rightarrow> 2 | _ \<Rightarrow> 1)"

definition pending_weight :: "nat \<Rightarrow> 'w fabric \<Rightarrow> nat" where
  "pending_weight g fb = sum_list (map (weight g) (fb_pending fb))"

text \<open>The work left: the pending facts, and the prefill while it has not been asked for.\<close>

definition work_left :: "'w fabric \<Rightarrow> nat" where
  "work_left fb =
     (let g = unat (is_max_tokens (fb_state fb)); n = is_prompt_len (fb_state fb) in
      pending_weight g fb + (if PrefillBatchReady n \<in> set (fb_store fb) then 0 else prefill_weight g (unat n)))"

lemma weight_pos: "0 < weight g ft"
  by (cases ft) (simp_all add: weight_def decode_weight_def prefill_weight_def)

lemma assert_weight: "pending_weight g (fold fabric_assert fs fb) \<le> pending_weight g fb + sum_list (map (weight g) fs)"
proof (induction fs arbitrary: fb)
  case (Cons f fs)
  have "pending_weight g (fabric_assert f fb) \<le> pending_weight g fb + weight g f"
    by (simp add: pending_weight_def fabric_assert_def)
  with Cons.IH [of "fabric_assert f fb"] show ?case by simp
qed simp

lemma remove_weight: "x \<in> set xs \<Longrightarrow> sum_list (map w (removeAll x xs)) + w x \<le> (sum_list (map w xs) :: nat)"
proof (induction xs)
  case (Cons y ys)
  have "sum_list (map w (removeAll x ys)) \<le> sum_list (map w ys)" by (induction ys) auto
  with Cons show ?case by auto
qed simp

definition step_bounded :: "isf_state \<Rightarrow> inference_fact \<Rightarrow> bool" where
  "step_bounded s ft = (case ft of DecodeStep k _ _ \<Rightarrow> k = 0 \<or> k < is_max_tokens s | _ \<Rightarrow> True)"

text \<open>No rule changes the request, and what it derives weighs less than its fact.\<close>

definition same_request :: "isf_state \<Rightarrow> isf_state \<Rightarrow> bool" where
  "same_request s s' = (is_prompt_len s' = is_prompt_len s \<and> is_max_tokens s' = is_max_tokens s \<and>
     is_prompt_token_ids s' = is_prompt_token_ids s)"

lemma halt_with_Ok: "(halt_with r s w = Ok (fs, s', w')) =
    (fs = [GenerationHalt r] \<and> s' = s\<lparr>is_halt := Some r\<rparr> \<and> w' = w)"
  by (auto simp: halt_with_def)

text \<open>What the two rules that choose a token leave.\<close>

definition keeps :: "isf_state \<Rightarrow> isf_state \<Rightarrow> bool" where
  "keeps s s' = (same_request s s' \<and> is_embedding_cache s' = is_embedding_cache s)"

definition halted :: "isf_state \<Rightarrow> inference_fact list \<Rightarrow> isf_state \<Rightarrow> bool" where
  "halted s fs s' = (\<exists>r. fs = [GenerationHalt r] \<and> is_halt s' = Some r \<and>
     (is_all_token_ids s' = is_all_token_ids s \<or> (\<exists>t. is_all_token_ids s' = is_all_token_ids s @ [t])))"

lemma haltedE:
  assumes "halted s fs s'"
  obtains r ts where "fs = [GenerationHalt r]" and "is_halt s' = Some r" and "is_all_token_ids s' = is_all_token_ids s @ ts"
    and "length ts \<le> 1"
  using assms that [of _ "[]"] that [of _ "[_]"] by (fastforce simp: halted_def)

text \<open>The next step of a bounded one does not wrap.\<close>

lemma next_step:
  assumes "k = 0 \<or> k < (g :: u32)"
  shows "unat (k + 1) = Suc (unat k)" and "k < k + 1"
proof -
  have "unat g < 2 ^ LENGTH(32)" by (rule unsigned_less)
  then have "unat k < 2 ^ 32 - 1" using assms by (auto simp: word_less_nat_alt)
  then show u: "unat (k + 1) = Suc (unat k)" by (intro trans [OF unat_add_small]) simp_all
  then show "k < k + 1" unfolding word_less_nat_alt by simp
qed

section \<open>Recorded closures\<close>

text \<open>The calls that reach the GPU.\<close>

datatype isf_call =
    Call_Dequant u32 "f32 list"
  | Call_Prefill "f32 list" u32
  | Call_Forward "f32 list" u32
  | Call_Kv

text \<open>
  Closures whose world shows the calls made: the GPU closures append theirs, the others
  leave them alone.
\<close>

locale recorded =
  fixes cl :: "'w closures" and obs :: "'w \<Rightarrow> isf_call list"
  assumes obs_dequant: "ic_dequant cl w t d = (w', e) \<Longrightarrow> obs w' = obs w @ [Call_Dequant t e]"
    and obs_prefill: "ic_prefill cl w b n = (w', h, ls) \<Longrightarrow> obs w' = obs w @ [Call_Prefill b n]"
    and obs_forward: "ic_forward cl w b pos = (w', h, ls) \<Longrightarrow> obs w' = obs w @ [Call_Forward b pos]"
    and obs_kv: "obs (ic_kv_increment cl w) = obs w @ [Call_Kv]"
    and obs_sample: "ic_sample cl w ls r = (w', ls', t) \<Longrightarrow> obs w' = obs w"
    and obs_decode: "ic_decode cl w t = (w', p) \<Longrightarrow> obs w' = obs w"
    and obs_mask: "apply_mask cl w ls = (w', ls') \<Longrightarrow> obs w' = obs w"
    and obs_control: "apply_control cl w c txt k ids kv = (w', dn) \<Longrightarrow> obs w' = obs w"
    and obs_trace: "obs (apply_trace cl w k ls ms) = obs w"
    and obs_on_token: "obs (emit_piece cl w p) = obs w"
begin

lemma first_token_cases:
  assumes "first_token cl t s w = Ok (fs, s', w')"
  shows "keeps s s' \<and> obs w' = obs w \<and>
    (halted s fs s' \<or> fs = [DecodeStep 0 t (is_prompt_len s)] \<and> is_all_token_ids s' = is_all_token_ids s @ [t] \<and> is_halt s' = is_halt s)"
  using assms by (auto simp: first_token_def Let_def halt_with_Ok keeps_def same_request_def halted_def obs_on_token
      dest: obs_decode split: if_splits prod.splits)

lemma prefill_complete_cases:
  assumes "rule_prefill_complete cl s w = Ok (fs, s', w')"
  shows "keeps s s' \<and> obs w' = obs w \<and>
    (halted s fs s' \<or> (\<exists>t. fs = [DecodeStep 0 t (is_prompt_len s)] \<and> is_all_token_ids s' = is_all_token_ids s @ [t] \<and> is_halt s' = is_halt s))"
proof -
  obtain w1 l1 where 1: "apply_mask cl w (is_logits s) = (w1, l1)" by fastforce
  obtain w2 l2 t where 2: "ic_sample cl w1 l1 (is_recent_tokens s) = (w2, l2, t)" by (rule prod_cases3)
  let ?s = "s\<lparr>is_logits := l2\<rparr>"
  obtain w3 d where 3: "apply_control cl w2 (unat t) (is_generated_text s) 0 (is_all_token_ids s) (unat (is_prompt_len s)) = (w3, d)"
    by fastforce
  have o: "obs w3 = obs w" using obs_mask [OF 1] obs_sample [OF 2] obs_control [OF 3] by simp
  note r = assms [unfolded rule_prefill_complete_def Let_def 1 prod.case 2]
  show ?thesis
  proof (cases d)
    case CD_Allow
    then have "first_token cl t ?s w3 = Ok (fs, s', w')" using r 3 by simp
    from first_token_cases [OF this] o show ?thesis by (auto simp: keeps_def same_request_def halted_def)
  next
    case (CD_Force t')
    then have "first_token cl (word_of_nat t') ?s w3 = Ok (fs, s', w')" using r 3 by simp
    from first_token_cases [OF this] o show ?thesis by (auto simp: keeps_def same_request_def halted_def)
  qed (use r 3 o in \<open>auto simp: halt_with_Ok keeps_def same_request_def halted_def\<close>)
qed

lemma next_token_cases:
  assumes "next_token cl k pos ls rb sb ms t s w = Ok (fs, s', w')"
  shows "keeps s s' \<and> obs w' = obs w \<and>
    (halted s fs s' \<or>
     fs = [KvAdvance pos, DecodeStep (k + 1) t (pos + 1), FinalLogits pos rb sb, DispatchCompleted pos KK_FullLayer ms] \<and>
     is_all_token_ids s' = is_all_token_ids s @ [t] \<and> is_halt s' = is_halt s)"
  using assms by (auto simp: next_token_def Let_def halt_with_Ok keeps_def same_request_def halted_def obs_on_token
      dest: obs_decode split: if_splits prod.splits)

lemma decode_step_cases:
  assumes "rule_decode_step cl (DecodeStep k t pos) s w = Ok (fs, s', w')"
  shows "keeps s s' \<and>
    (is_max_tokens s \<le> k + 1 \<and> obs w' = obs w \<and> fs = [GenerationHalt MaxTokensReached] \<and>
       is_halt s' = Some MaxTokensReached \<and> is_all_token_ids s' = is_all_token_ids s \<or>
     k + 1 < is_max_tokens s \<and> obs w' = obs w @ [Call_Forward [f32_of_int (uint t)] pos] \<and>
       (halted s fs s' \<or> (\<exists>t' rb sb ms.
          fs = [KvAdvance pos, DecodeStep (k + 1) t' (pos + 1), FinalLogits pos rb sb, DispatchCompleted pos KK_FullLayer ms] \<and>
          is_all_token_ids s' = is_all_token_ids s @ [t'] \<and> is_halt s' = is_halt s)))"
proof (cases "is_max_tokens s \<le> k + 1")
  case True
  then show ?thesis using assms
    by (auto simp: rule_decode_step_def halt_with_Ok keeps_def same_request_def)
next
  case False
  then have lt: "k + 1 < is_max_tokens s" by simp
  obtain w1 h ls where 1: "ic_forward cl w [f32_of_int (uint t)] pos = (w1, h, ls)" by (rule prod_cases3)
  let ?ms = "ic_elapsed_ms cl w w1"
  have o1: "obs w1 = obs w @ [Call_Forward [f32_of_int (uint t)] pos]" by (rule obs_forward [OF 1])
  note r = assms [unfolded rule_decode_step_def inference_fact.case if_not_P [OF False] Let_def 1 prod.case]
  show ?thesis
  proof (cases "ls = []")
    case True
    then have "halted s fs s' \<and> keeps s s' \<and> w' = w1" using r by (simp add: halt_with_Ok keeps_def same_request_def halted_def)
    then show ?thesis using lt o1 by blast
  next
    case ne: False
    obtain w2 l2 where 2: "apply_mask cl w1 ls = (w2, l2)" by fastforce
    let ?w3 = "apply_trace cl w2 (tokens_so_far s) l2 ?ms"
    obtain w4 l4 c where 4: "ic_sample cl ?w3 l2 (is_recent_tokens s) = (w4, l4, c)" by (rule prod_cases3)
    obtain w5 d where 5: "apply_control cl w4 (unat c) (is_generated_text s) (tokens_so_far s) (is_all_token_ids s)
        (length (is_all_token_ids s)) = (w5, d)" by fastforce
    have o: "obs w5 = obs w @ [Call_Forward [f32_of_int (uint t)] pos]"
      using obs_mask [OF 2] obs_trace obs_sample [OF 4] obs_control [OF 5] o1 by simp
    note r = r [unfolded if_not_P [OF ne] 2 prod.case 4 5]
    show ?thesis
    proof (cases d)
      case CD_Allow
      then have "next_token cl k pos l4 (rms l2) (checksum l2) ?ms c s w5 = Ok (fs, s', w')" using r by simp
      from next_token_cases [OF this] lt o show ?thesis by auto
    next
      case (CD_Force t')
      then have "next_token cl k pos l4 (rms l2) (checksum l2) ?ms (word_of_nat t') s w5 = Ok (fs, s', w')" using r by simp
      from next_token_cases [OF this] lt o show ?thesis by auto
    qed (use r lt o in \<open>auto simp: halt_with_Ok keeps_def same_request_def halted_def\<close>)
  qed
qed

lemma decode_continues_weight:
  assumes "k + 1 < gw" and "k = 0 \<or> k < gw"
  shows "6 + decode_weight (unat gw) (unat (k + 1 :: u32)) < decode_weight (unat gw) (unat k)"
  using next_step [OF assms(2)] assms(1) by (simp add: decode_weight_def word_less_nat_alt)

lemma rule_weight:
  assumes "isf_program cl ft s w = Ok (fs, s', w')" and "step_bounded s ft"
  shows "same_request s s' \<and> (fs = [PrefillBatchReady (is_prompt_len s)] \<or>
    sum_list (map (weight (unat (is_max_tokens s))) fs) < weight (unat (is_max_tokens s)) ft)"
proof (cases "triggers ft")
  case False
  then show ?thesis using assms(1) by (simp add: program_quiet same_request_def weight_pos)
next
  case True
  let ?g = "unat (is_max_tokens s)"
  have halt_w: "sum_list (map (weight ?g) [GenerationHalt r]) = 1" for r by (simp add: weight_def)
  show ?thesis
  proof (cases ft)
    case (PrefillBatchReady n)
    have kv: "sum_list (map (weight ?g) (kv_advances n)) = 2 * unat n"
      by (simp add: kv_advances_def o_def weight_def sum_list_triv)
    show ?thesis
      by (rule prefill_rule_Ok [OF assms(1) [unfolded PrefillBatchReady]])
        (simp add: PrefillBatchReady kv same_request_def weight_def prefill_weight_def)
  next
    case (PrefillComplete n)
    from prefill_complete_cases [OF assms(1) [unfolded PrefillComplete program_simps]] show ?thesis
      by (auto simp: PrefillComplete keeps_def halted_def weight_def decode_weight_def)
  next
    case (DecodeStep k t q)
    from decode_step_cases [OF assms(1) [unfolded DecodeStep program_rules]]
    show ?thesis using decode_continues_weight [of k "is_max_tokens s"] assms(2)
      by (auto simp: DecodeStep step_bounded_def keeps_def halted_def weight_def decode_weight_def)
  next
    case (TensorFact q d off a)
    then show ?thesis using assms(1)
      by (auto simp: program_simps tensor_fact_dispatch_rule_def same_request_def weight_def split: option.splits)
  qed (use True assms(1) in \<open>auto simp: triggers_def program_simps program_rules rule_embedding_request_def
      rule_embedding_ready_def rule_dispatch_completed_def Let_def same_request_def weight_def split: prod.splits if_splits\<close>)
qed

lemma rule_steps_bounded:
  assumes "isf_program cl ft s w = Ok (fs, s', w')" and "f \<in> set fs"
  shows "step_bounded s f"
proof (cases "triggers ft")
  case False
  then show ?thesis using assms by (simp add: program_quiet)
next
  case True
  show ?thesis
  proof (cases ft)
    case (PrefillBatchReady n)
    show ?thesis
      by (rule prefill_rule_Ok [OF assms(1) [unfolded PrefillBatchReady]])
        (use assms(2) in \<open>auto simp: kv_advances_def step_bounded_def\<close>)
  next
    case (PrefillComplete n)
    from prefill_complete_cases [OF assms(1) [unfolded PrefillComplete program_simps]] assms(2) show ?thesis
      by (auto simp: halted_def step_bounded_def)
  next
    case (DecodeStep k t q)
    from decode_step_cases [OF assms(1) [unfolded DecodeStep program_rules]] assms(2) show ?thesis
      by (auto simp: halted_def step_bounded_def)
  qed (use True assms in \<open>auto simp: triggers_def program_simps program_rules rule_embedding_request_def
      rule_embedding_ready_def rule_dispatch_completed_def tensor_fact_dispatch_rule_def Let_def step_bounded_def
      split: prod.splits if_splits option.splits\<close>)
qed

lemma fire_work:
  assumes "fire cl ft fb = Ok fb'" and "ft \<in> set (fb_pending fb)" and "\<forall>f\<in>set (fb_store fb). step_bounded (fb_state fb) f"
    and "set (fb_pending fb) \<subseteq> set (fb_store fb)"
  shows "work_left fb' < work_left fb" and "same_request (fb_state fb) (fb_state fb')"
    and "\<forall>f\<in>set (fb_store fb'). step_bounded (fb_state fb') f" and "set (fb_pending fb') \<subseteq> set (fb_store fb')"
proof -
  let ?g = "unat (is_max_tokens (fb_state fb))" and ?n = "is_prompt_len (fb_state fb)"
  obtain fs s w where r: "isf_program cl ft (fb_state fb) (fb_world fb) = Ok (fs, s, w)" "fb_state fb' = s"
    "set (fb_store fb') = set (fb_store fb) \<union> set fs"
    "fb' = fold fabric_assert fs (fb\<lparr>fb_pending := removeAll ft (fb_pending fb), fb_state := s, fb_world := w\<rparr>)"
    "set (fb_pending fb') = (set (fb_pending fb) - {ft}) \<union> (set fs - set (fb_store fb))"
    by (rule fireE [OF assms(1)])
  have bd: "step_bounded (fb_state fb) ft" using assms(2-4) by blast
  let ?fb = "fb\<lparr>fb_pending := removeAll ft (fb_pending fb), fb_state := s, fb_world := w\<rparr>"
  have same: "same_request (fb_state fb) s" using rule_weight [OF r(1) bd] by simp
  then show "same_request (fb_state fb) (fb_state fb')" by (simp add: r(2))
  have "step_bounded (fb_state fb') f = step_bounded (fb_state fb) f" for f
    using same by (cases f) (simp_all add: r(2) same_request_def step_bounded_def)
  then show "\<forall>f\<in>set (fb_store fb'). step_bounded (fb_state fb') f"
    using assms(3) rule_steps_bounded [OF r(1)] by (auto simp: r(3))
  show "set (fb_pending fb') \<subseteq> set (fb_store fb')" using assms(4) unfolding r(3,5) by blast
  have drop: "pending_weight ?g ?fb + weight ?g ft \<le> pending_weight ?g fb"
    using remove_weight [OF assms(2), of "weight ?g"] by (simp add: pending_weight_def)
  have left: "work_left fb' = pending_weight ?g fb' + (if PrefillBatchReady ?n \<in> set (fb_store fb') then 0 else prefill_weight ?g (unat ?n))"
    using same by (simp add: work_left_def r(2) same_request_def Let_def)
  have "0 < weight ?g ft" by (rule weight_pos)
  from rule_weight [OF r(1) bd] show "work_left fb' < work_left fb"
  proof (elim conjE disjE)
    assume fs: "fs = [PrefillBatchReady ?n]"
    show ?thesis
    proof (cases "PrefillBatchReady ?n \<in> set (fb_store fb)")
      case True
      then have "fb' = ?fb" using r(4) by (simp add: fs fabric_assert_def)
      with True drop \<open>0 < weight ?g ft\<close> show ?thesis unfolding left by (simp add: work_left_def Let_def)
    next
      case False
      have "pending_weight ?g fb' \<le> pending_weight ?g ?fb + prefill_weight ?g (unat ?n)"
        using assert_weight [of ?g fs ?fb] unfolding r(4) by (simp add: fs weight_def)
      with False drop \<open>0 < weight ?g ft\<close> show ?thesis unfolding left by (simp add: work_left_def Let_def r(3) fs)
    qed
  next
    assume "sum_list (map (weight ?g) fs) < weight ?g ft"
    moreover have "pending_weight ?g fb' \<le> pending_weight ?g ?fb + sum_list (map (weight ?g) fs)"
      unfolding r(4) by (rule assert_weight)
    ultimately have "pending_weight ?g fb' < pending_weight ?g fb" using drop by linarith
    then show ?thesis unfolding left by (auto simp: work_left_def Let_def r(3))
  qed
qed

lemma processes_work:
  assumes "processes cl n fb fb'" and "\<forall>f\<in>set (fb_store fb). step_bounded (fb_state fb) f"
    and "set (fb_pending fb) \<subseteq> set (fb_store fb)"
  shows "work_left fb' + n \<le> work_left fb"
  using assms
proof (induction rule: processes.induct)
  case (processes_one ft fb fb' n fb'')
  note w = fire_work [OF processes_one(2,1,5,6)]
  from processes_one(4) [OF w(3,4)] w(1) show ?case by simp
qed simp

end

section \<open>The state of a run\<close>

fun dequants :: "isf_call list \<Rightarrow> (u32 \<times> f32 list) list" where
  "dequants [] = []"
| "dequants (Call_Dequant t e # cs) = (t, e) # dequants cs"
| "dequants (_ # cs) = dequants cs"

fun prefills :: "isf_call list \<Rightarrow> (f32 list \<times> u32) list" where
  "prefills [] = []"
| "prefills (Call_Prefill b n # cs) = (b, n) # prefills cs"
| "prefills (_ # cs) = prefills cs"

fun forwards :: "isf_call list \<Rightarrow> (f32 list \<times> u32) list" where
  "forwards [] = []"
| "forwards (Call_Forward b pos # cs) = (b, pos) # forwards cs"
| "forwards (_ # cs) = forwards cs"

lemma calls_append [simp]:
  "dequants (xs @ ys) = dequants xs @ dequants ys" "prefills (xs @ ys) = prefills xs @ prefills ys"
  "forwards (xs @ ys) = forwards xs @ forwards ys"
proof -
  show "dequants (xs @ ys) = dequants xs @ dequants ys" by (induction xs rule: dequants.induct) simp_all
  show "prefills (xs @ ys) = prefills xs @ prefills ys" by (induction xs rule: prefills.induct) simp_all
  show "forwards (xs @ ys) = forwards xs @ forwards ys" by (induction xs rule: forwards.induct) simp_all
qed

text \<open>
  The passes of a sequential generation: token \<open>j\<close> of those generated, at the position
  \<open>j\<close> after the prompt.
\<close>

definition expected_forwards :: "u32 \<Rightarrow> u32 list \<Rightarrow> nat \<Rightarrow> (f32 list \<times> u32) list" where
  "expected_forwards plen gen m = map (\<lambda>j. ([f32_of_int (uint (gen ! j))], plen + word_of_nat j)) [0..<m]"

text \<open>The facts that drive a run from one phase to the next.\<close>

definition isf_driver :: "inference_fact \<Rightarrow> bool" where
  "isf_driver ft = (case ft of PrefillBatchReady _ \<Rightarrow> True | PrefillComplete _ \<Rightarrow> True | DecodeStep _ _ _ \<Rightarrow> True | _ \<Rightarrow> False)"

definition drivers :: "inference_fact set \<Rightarrow> inference_fact set" where
  "drivers X = {f \<in> X. isf_driver f}"

definition tracked :: "inference_fact \<Rightarrow> bool" where
  "tracked ft = (isf_driver ft \<or> (case ft of PromptToken _ _ \<Rightarrow> True | EmbeddingRequest _ \<Rightarrow> True
     | EmbeddingReady _ _ \<Rightarrow> True | _ \<Rightarrow> False))"

lemma driver_simps [simp]:
  "isf_driver (PrefillBatchReady n)" "isf_driver (PrefillComplete n)" "isf_driver (DecodeStep k t q)"
  "\<not> isf_driver (PromptToken q t)" "\<not> isf_driver (EmbeddingRequest t)" "\<not> isf_driver (EmbeddingReady q t)"
  "\<not> isf_driver (KvAdvance q)" "\<not> isf_driver (FinalLogits q rb sb)" "\<not> isf_driver (GenerationHalt r)"
  "\<not> isf_driver (LayerOutput l q rb sb)" "\<not> isf_driver (DispatchCompleted l kn ms)"
  by (simp_all add: isf_driver_def)

lemma drivers_simps [simp]:
  "drivers (A \<union> B) = drivers A \<union> drivers B" "drivers (A - B) = drivers A - B" "drivers {} = {}"
  "drivers (insert f A) = (if isf_driver f then insert f (drivers A) else drivers A)"
  by (auto simp: drivers_def)

lemma drivers_remove [simp]: "\<not> isf_driver f \<Longrightarrow> drivers A - {f} = drivers A"
  by (auto simp: drivers_def)

lemma driversI: "f \<in> X \<Longrightarrow> isf_driver f \<Longrightarrow> f \<in> drivers X"
  and driversD: "f \<in> drivers X \<Longrightarrow> f \<in> X"
  by (simp_all add: drivers_def)

definition all_cached :: "u32 list \<Rightarrow> isf_state \<Rightarrow> bool" where
  "all_cached ids s = (\<forall>i\<in>set ids. is_embedding_cache s i \<noteq> None)"

definition embed_inv :: "u32 list \<Rightarrow> inference_fact set \<Rightarrow> inference_fact set \<Rightarrow> isf_state \<Rightarrow> isf_call list \<Rightarrow> bool" where
  "embed_inv ids S Q s calls =
     ((\<forall>i. EmbeddingRequest i \<in> S \<longrightarrow> i \<in> set ids) \<and> (\<forall>q i. PromptToken q i \<in> Q \<longrightarrow> i \<in> set ids) \<and>
      (\<forall>i. EmbeddingRequest i \<in> Q \<longleftrightarrow> EmbeddingRequest i \<in> S \<and> is_embedding_cache s i = None) \<and>
      (\<forall>i. is_embedding_cache s i \<noteq> None \<longrightarrow> EmbeddingRequest i \<in> S) \<and>
      (\<forall>q i. EmbeddingReady q i \<in> S \<longrightarrow> is_embedding_cache s i \<noteq> None) \<and>
      (\<forall>i\<in>set ids. is_embedding_cache s i \<noteq> None \<or> EmbeddingRequest i \<in> Q \<or> (\<exists>q. PromptToken q i \<in> Q)) \<and>
      distinct (map fst (dequants calls)) \<and> map_of (dequants calls) = is_embedding_cache s)"

definition request_inv :: "u32 list \<Rightarrow> u32 \<Rightarrow> isf_state \<Rightarrow> bool" where
  "request_inv ids g s = (is_prompt_len s = word_of_nat (length ids) \<and> is_max_tokens s = g \<and> is_prompt_token_ids s = ids)"

definition before_prefill :: "u32 list \<Rightarrow> inference_fact set \<Rightarrow> inference_fact set \<Rightarrow> isf_state \<Rightarrow> isf_call list \<Rightarrow> bool" where
  "before_prefill ids S Q s calls =
     (drivers S = {} \<and> is_halt s = None \<and> is_all_token_ids s = ids \<and> prefills calls = [] \<and> forwards calls = [] \<and>
      (all_cached ids s \<longrightarrow> (\<exists>q i. EmbeddingReady q i \<in> Q)))"

definition prefill_due :: "u32 list \<Rightarrow> inference_fact set \<Rightarrow> inference_fact set \<Rightarrow> isf_state \<Rightarrow> isf_call list \<Rightarrow> bool" where
  "prefill_due ids S Q s calls =
     (drivers S = {PrefillBatchReady (is_prompt_len s)} \<and> PrefillBatchReady (is_prompt_len s) \<in> Q \<and> is_halt s = None \<and>
      is_all_token_ids s = ids \<and> prefills calls = [] \<and> forwards calls = [] \<and> all_cached ids s)"

definition after_prefill :: "u32 list \<Rightarrow> inference_fact set \<Rightarrow> isf_state \<Rightarrow> isf_call list \<Rightarrow> bool" where
  "after_prefill ids S s calls =
     (PrefillBatchReady (is_prompt_len s) \<in> S \<and> PrefillComplete (is_prompt_len s) \<in> S \<and> all_cached ids s \<and>
      prefills calls = [(concat (map (\<lambda>i. the (is_embedding_cache s i)) ids), is_prompt_len s)])"

definition sample_due :: "u32 list \<Rightarrow> inference_fact set \<Rightarrow> inference_fact set \<Rightarrow> isf_state \<Rightarrow> isf_call list \<Rightarrow> bool" where
  "sample_due ids S Q s calls =
     (drivers S = {PrefillBatchReady (is_prompt_len s), PrefillComplete (is_prompt_len s)} \<and>
      drivers Q = {PrefillComplete (is_prompt_len s)} \<and> is_halt s = None \<and> is_all_token_ids s = ids \<and> forwards calls = [])"

definition decode_due ::
    "u32 list \<Rightarrow> u32 \<Rightarrow> u32 \<Rightarrow> u32 list \<Rightarrow> inference_fact set \<Rightarrow> inference_fact set \<Rightarrow> isf_state \<Rightarrow> isf_call list \<Rightarrow> bool" where
  "decode_due ids g k gen S Q s calls =
     (drivers Q = {DecodeStep k (last gen) (is_prompt_len s + k)} \<and>
      (\<forall>j t q. DecodeStep j t q \<in> S \<longrightarrow> j \<le> k) \<and> is_halt s = None \<and> is_all_token_ids s = ids @ gen \<and>
      length gen = Suc (unat k) \<and> (k = 0 \<or> k < g) \<and> forwards calls = expected_forwards (is_prompt_len s) gen (unat k))"

definition run_ended ::
    "u32 list \<Rightarrow> u32 \<Rightarrow> u32 list \<Rightarrow> nat \<Rightarrow> inference_fact set \<Rightarrow> isf_state \<Rightarrow> isf_call list \<Rightarrow> bool" where
  "run_ended ids g gen m Q s calls =
     (drivers Q = {} \<and> is_halt s \<noteq> None \<and> is_all_token_ids s = ids @ gen \<and>
      forwards calls = expected_forwards (is_prompt_len s) gen m \<and> m \<le> length gen \<and> length gen \<le> Suc m \<and>
      length gen \<le> max 1 (unat g) \<and> m < max 1 (unat g))"

definition run_phase ::
    "u32 list \<Rightarrow> u32 \<Rightarrow> inference_fact set \<Rightarrow> inference_fact set \<Rightarrow> isf_state \<Rightarrow> isf_call list \<Rightarrow> bool" where
  "run_phase ids g S Q s calls =
     (before_prefill ids S Q s calls \<or> prefill_due ids S Q s calls \<or>
      after_prefill ids S s calls \<and> (sample_due ids S Q s calls \<or> (\<exists>k gen. decode_due ids g k gen S Q s calls) \<or>
        (\<exists>gen m. run_ended ids g gen m Q s calls)))"

definition isf_inv ::
    "u32 list \<Rightarrow> u32 \<Rightarrow> inference_fact set \<Rightarrow> inference_fact set \<Rightarrow> isf_state \<Rightarrow> isf_call list \<Rightarrow> bool" where
  "isf_inv ids g S Q s calls = (request_inv ids g s \<and> Q \<subseteq> S \<and> embed_inv ids S Q s calls \<and> run_phase ids g S Q s calls)"

text \<open>What the invariant says depends on the tracked facts, four fields and the calls.\<close>

lemma isf_inv_cong:
  assumes "isf_inv ids g S Q s calls" and "Q' \<subseteq> S'"
    and "\<And>f. tracked f \<Longrightarrow> (f \<in> S') = (f \<in> S)" and "\<And>f. tracked f \<Longrightarrow> (f \<in> Q') = (f \<in> Q)"
    and "same_request s s'" and "is_embedding_cache s' = is_embedding_cache s" and "is_halt s' = is_halt s"
    and "is_all_token_ids s' = is_all_token_ids s"
    and "dequants calls' = dequants calls" and "prefills calls' = prefills calls" and "forwards calls' = forwards calls"
  shows "isf_inv ids g S' Q' s' calls'"
proof -
  have d: "drivers S' = drivers S" "drivers Q' = drivers Q"
    using assms(3,4) by (auto simp: drivers_def tracked_def)
  have t: "tracked (EmbeddingRequest i)" "tracked (PromptToken q i)" "tracked (EmbeddingReady q i)"
    "tracked (PrefillBatchReady i)" "tracked (PrefillComplete i)" "tracked (DecodeStep k i q)" for i q k
    by (simp_all add: tracked_def)
  have e: "is_prompt_len s' = is_prompt_len s" "is_max_tokens s' = is_max_tokens s" "is_prompt_token_ids s' = is_prompt_token_ids s"
    using assms(5) by (simp_all add: same_request_def)
  have "request_inv ids g s' \<and> embed_inv ids S' Q' s' calls' \<and> run_phase ids g S' Q' s' calls'"
    using assms(1) unfolding isf_inv_def request_inv_def embed_inv_def run_phase_def before_prefill_def
      prefill_due_def after_prefill_def sample_due_def decode_due_def run_ended_def all_cached_def
      d t [THEN assms(3)] t [THEN assms(4)] e assms(6-11) by (elim conjE, intro conjI) assumption+
  with assms(2) show ?thesis by (simp add: isf_inv_def)
qed

text \<open>The steps of the invariant, fact by fact.\<close>

lemma inert_step:
  assumes "isf_inv ids g S Q s calls" and "\<not> tracked ft" and "\<forall>f\<in>set fs. \<not> tracked f"
    and "same_request s s'" and "is_embedding_cache s' = is_embedding_cache s" and "is_halt s' = is_halt s"
    and "is_all_token_ids s' = is_all_token_ids s"
    and "dequants calls' = dequants calls" and "prefills calls' = prefills calls" and "forwards calls' = forwards calls"
  shows "isf_inv ids g (S \<union> set fs) (Q - {ft} \<union> (set fs - S)) s' calls'"
proof (rule isf_inv_cong [OF assms(1) _ _ _ assms(4-10)])
  show "Q - {ft} \<union> (set fs - S) \<subseteq> S \<union> set fs" using assms(1) by (auto simp: isf_inv_def)
qed (use assms(2,3) in auto)

lemma prompt_step:
  assumes inv: "isf_inv ids g S Q s calls" and Q: "PromptToken q i \<in> Q"
  shows "isf_inv ids g (S \<union> {EmbeddingRequest i}) (Q - {PromptToken q i} \<union> ({EmbeddingRequest i} - S)) s calls"
proof -
  have e: "embed_inv ids S Q s calls" "i \<in> set ids" "Q \<subseteq> S"
    using inv Q by (auto simp: isf_inv_def embed_inv_def)
  have "embed_inv ids (S \<union> {EmbeddingRequest i}) (Q - {PromptToken q i} \<union> ({EmbeddingRequest i} - S)) s calls"
    using e unfolding embed_inv_def by (intro conjI) auto
  moreover have "run_phase ids g (S \<union> {EmbeddingRequest i}) (Q - {PromptToken q i} \<union> ({EmbeddingRequest i} - S)) s calls"
  proof -
    have d: "drivers (S \<union> {EmbeddingRequest i}) = drivers S"
      "drivers (Q - {PromptToken q i} \<union> ({EmbeddingRequest i} - S)) = drivers Q"
      by (auto simp: drivers_def)
    have m: "f \<in> Q - {PromptToken q i} \<union> ({EmbeddingRequest i} - S) \<longleftrightarrow> f \<in> Q"
      "f \<in> S \<union> {EmbeddingRequest i} \<longleftrightarrow> f \<in> S"
      if "f \<noteq> PromptToken q i" "f \<noteq> EmbeddingRequest i" for f
      using that by auto
    have "run_phase ids g S Q s calls" using inv by (simp add: isf_inv_def)
    then show ?thesis
      unfolding run_phase_def before_prefill_def prefill_due_def after_prefill_def sample_due_def decode_due_def
        run_ended_def d by (simp only: m inference_fact.distinct simp_thms not_False_eq_True)
  qed
  ultimately show ?thesis using inv by (auto simp: isf_inv_def)
qed

lemma request_step:
  assumes inv: "isf_inv ids g S Q s calls" and Q: "EmbeddingRequest i \<in> Q" and c: "dequants calls' = dequants calls @ [(i, e)]"
    "prefills calls' = prefills calls" "forwards calls' = forwards calls"
  shows "isf_inv ids g (S \<union> {EmbeddingReady 0 i}) (Q - {EmbeddingRequest i} \<union> ({EmbeddingReady 0 i} - S))
    (s\<lparr>is_embedding_cache := (is_embedding_cache s)(i \<mapsto> e)\<rparr>) calls'"
proof -
  have ei: "embed_inv ids S Q s calls" and i: "i \<in> set ids" and QS: "Q \<subseteq> S" and none: "is_embedding_cache s i = None"
    using inv Q by (auto simp: isf_inv_def embed_inv_def)
  let ?s = "s\<lparr>is_embedding_cache := (is_embedding_cache s)(i \<mapsto> e)\<rparr>"
  let ?S = "S \<union> {EmbeddingReady 0 i}" and ?Q = "Q - {EmbeddingRequest i} \<union> ({EmbeddingReady 0 i} - S)"
  have "\<forall>q i. EmbeddingReady q i \<in> S \<longrightarrow> is_embedding_cache s i \<noteq> None" using ei by (simp add: embed_inv_def)
  then have new: "EmbeddingReady 0 i \<notin> S" using none by blast
  have ncached: "\<not> all_cached ids s" using i none by (auto simp: all_cached_def)
  then have bp: "before_prefill ids S Q s calls" using inv
    by (auto simp: isf_inv_def run_phase_def prefill_due_def after_prefill_def)
  have map: "map_of (dequants calls) = is_embedding_cache s" "distinct (map fst (dequants calls))"
    using ei by (simp_all add: embed_inv_def)
  have fresh: "i \<notin> set (map fst (dequants calls))" using none unfolding map(1) [symmetric] by (simp add: map_of_eq_None_iff)
  then have "distinct (map fst (dequants calls'))" "map_of (dequants calls') = is_embedding_cache ?s"
    using map none by (auto simp: c map_of_append fun_eq_iff map_add_def split: option.splits)
  then have "embed_inv ids ?S ?Q ?s calls'"
    using ei QS Q unfolding embed_inv_def by (intro conjI) auto
  moreover have "before_prefill ids ?S ?Q ?s calls'"
  proof -
    have "EmbeddingReady 0 i \<in> ?Q" using new by simp
    then have "\<exists>q i'. EmbeddingReady q i' \<in> ?Q" by blast
    then show ?thesis using bp by (simp add: before_prefill_def c)
  qed
  ultimately show ?thesis using inv by (auto simp: isf_inv_def request_inv_def run_phase_def)
qed

lemma all_cached_test: "all_embeddings_cached s ids = all_cached ids s"
  by (simp add: all_embeddings_cached_def all_cached_def list_all_iff)

lemma ready_step:
  assumes inv: "isf_inv ids g S Q s calls" and ids: "ids \<noteq> []" and Q: "EmbeddingReady q i \<in> Q"
    and r: "rule_embedding_ready s w = Ok (fs, s', w')"
  shows "s' = s \<and> w' = w \<and> isf_inv ids g (S \<union> set fs) (Q - {EmbeddingReady q i} \<union> (set fs - S)) s calls"
proof -
  have pt: "is_prompt_token_ids s = ids" and ei: "embed_inv ids S Q s calls" and QS: "Q \<subseteq> S"
    and req: "request_inv ids g s" and ph: "run_phase ids g S Q s calls"
    using inv by (auto simp: isf_inv_def request_inv_def)
  have fs: "fs = (if all_cached ids s then [PrefillBatchReady (is_prompt_len s)] else [])" and sw: "s' = s" "w' = w"
    using r ids by (auto simp: rule_embedding_ready_def pt all_cached_test Let_def)
  let ?S = "S \<union> set fs" and ?Q = "Q - {EmbeddingReady q i} \<union> (set fs - S)"
  have "embed_inv ids ?S ?Q s calls"
    using ei unfolding embed_inv_def fs by (intro conjI) (auto split: if_splits)
  moreover have "run_phase ids g ?S ?Q s calls"
  proof (cases "before_prefill ids S Q s calls")
    case True
    show ?thesis
    proof (cases "all_cached ids s")
      case True
      have "PrefillBatchReady (is_prompt_len s) \<notin> S"
        using \<open>before_prefill ids S Q s calls\<close> driversI [of _ S] by (fastforce simp: before_prefill_def)
      then have "prefill_due ids ?S ?Q s calls"
        using \<open>before_prefill ids S Q s calls\<close> True by (simp add: before_prefill_def prefill_due_def fs)
      then show ?thesis by (simp add: run_phase_def)
    next
      case False
      then show ?thesis using \<open>before_prefill ids S Q s calls\<close> by (simp add: before_prefill_def run_phase_def fs)
    qed
  next
    case False
    then have p: "prefill_due ids S Q s calls \<or> after_prefill ids S s calls" "all_cached ids s"
      using ph by (auto simp: run_phase_def prefill_due_def after_prefill_def)
    then have "PrefillBatchReady (is_prompt_len s) \<in> S"
      using QS by (auto simp: prefill_due_def after_prefill_def)
    then have "?S = S" "?Q = Q - {EmbeddingReady q i}" by (auto simp: fs)
    then show ?thesis using ph False
      by (simp add: run_phase_def prefill_due_def sample_due_def decode_due_def run_ended_def)
  qed
  ultimately show ?thesis using QS req sw by (auto simp: isf_inv_def)
qed

lemma batched_prompt:
  assumes "is_prompt_token_ids s = ids" and "ids \<noteq> []" and "all_cached ids s"
  shows "batched_embeddings s = Ok (concat (map (\<lambda>i. the (is_embedding_cache s i)) ids))"
proof -
  obtain i where "i \<in> set ids" using assms(2) by (cases ids) auto
  then have "is_embedding_cache s \<noteq> (\<lambda>_. None)" using assms(3) by (auto simp: all_cached_def)
  moreover have "map (\<lambda>i. case is_embedding_cache s i of Some v \<Rightarrow> v | None \<Rightarrow> []) ids = map (\<lambda>i. the (is_embedding_cache s i)) ids"
    (is "?a = ?b") using assms(3) by (intro map_cong refl) (auto simp: all_cached_def)
  then have "concat ?a = concat ?b" by (rule arg_cong)
  ultimately show ?thesis using assms(2) unfolding batched_embeddings_def assms(1) by (simp del: map_eq_conv)
qed

text \<open>The embedding part does not look at the drivers.\<close>

lemma embed_inv_drivers:
  assumes "embed_inv ids S Q s calls" and "isf_driver ft" and "\<forall>f\<in>set fs. tracked f \<longrightarrow> isf_driver f"
    and "is_embedding_cache s' = is_embedding_cache s" and "dequants calls' = dequants calls"
  shows "embed_inv ids (S \<union> set fs) (Q - {ft} \<union> (set fs - S)) s' calls'"
proof -
  have m: "f \<in> S \<union> set fs \<longleftrightarrow> f \<in> S" "f \<in> Q - {ft} \<union> (set fs - S) \<longleftrightarrow> f \<in> Q" if "tracked f" "\<not> isf_driver f" for f
    using that assms(2,3) by auto
  have t: "tracked (EmbeddingRequest i)" "tracked (PromptToken q i)" "tracked (EmbeddingReady q i)" for i q
    by (simp_all add: tracked_def)
  show ?thesis using assms(1) unfolding embed_inv_def assms(4,5)
    by (simp only: m t driver_simps not_False_eq_True simp_thms) blast
qed

lemma untracked_facts [simp]:
  "\<not> tracked (KvAdvance q)" "\<not> tracked (FinalLogits q rb sb)" "\<not> tracked (GenerationHalt r)"
  "\<not> tracked (LayerOutput l q rb sb)" "\<not> tracked (DispatchCompleted l kn ms)"
  by (simp_all add: tracked_def)

lemma prefill_step:
  assumes inv: "isf_inv ids g S Q s calls" and ids: "ids \<noteq> []" and Q: "PrefillBatchReady n \<in> Q"
    and fs: "fs = kv_advances n @ [PrefillComplete n, LayerOutput 0 n rb sb, FinalLogits n rb' sb', DispatchCompleted 0 KK_FullLayer ms]"
    and c: "dequants calls' = dequants calls" "prefills calls' = prefills calls @ [(b, n)]" "forwards calls' = forwards calls"
    and b: "batched_embeddings s = (Ok b :: (string, f32 list) res)"
  shows "isf_inv ids g (S \<union> set fs) (Q - {PrefillBatchReady n} \<union> (set fs - S)) (s\<lparr>is_logits := ls\<rparr>) calls'"
proof -
  let ?S = "S \<union> set fs" and ?Q = "Q - {PrefillBatchReady n} \<union> (set fs - S)" and ?s = "s\<lparr>is_logits := ls\<rparr>"
  have ei: "embed_inv ids S Q s calls" and QS: "Q \<subseteq> S" and req: "request_inv ids g s" and ph: "run_phase ids g S Q s calls"
    using inv by (auto simp: isf_inv_def)
  have dQ: "PrefillBatchReady n \<in> drivers Q" "drivers Q \<subseteq> drivers S" using Q QS by (auto simp: drivers_def)
  then have due: "prefill_due ids S Q s calls" and n: "n = is_prompt_len s"
    using ph by (auto simp: run_phase_def before_prefill_def prefill_due_def sample_due_def decode_due_def run_ended_def)
  have dr: "drivers (set fs) = {PrefillComplete n}" by (auto simp: fs kv_advances_def drivers_def)
  have PC: "PrefillComplete n \<notin> S" using due driversI [of "PrefillComplete n" S] by (auto simp: prefill_due_def)
  have "(batched_embeddings s :: (string, f32 list) res) = Ok (concat (map (\<lambda>i. the (is_embedding_cache s i)) ids))"
    by (rule batched_prompt [OF _ ids]) (use req due in \<open>simp_all add: request_inv_def prefill_due_def\<close>)
  then have b': "b = concat (map (\<lambda>i. the (is_embedding_cache s i)) ids)" using b by simp
  have "drivers Q = {PrefillBatchReady n}" using dQ due by (auto simp: prefill_due_def n)
  then have "drivers ?Q = {PrefillComplete n}" using PC by (auto simp: dr)
  moreover have "drivers ?S = {PrefillBatchReady n, PrefillComplete n}" using due by (auto simp: dr prefill_due_def n)
  moreover have "after_prefill ids ?S ?s calls'"
    using due Q QS by (auto simp: after_prefill_def prefill_due_def all_cached_def c b' n fs)
  ultimately have "run_phase ids g ?S ?Q ?s calls'"
    using due by (simp add: run_phase_def sample_due_def prefill_due_def c n)
  moreover have "embed_inv ids ?S ?Q ?s calls'"
    by (rule embed_inv_drivers [OF ei]) (auto simp: fs kv_advances_def c)
  ultimately show ?thesis using req QS by (auto simp: isf_inv_def request_inv_def)
qed

lemma expected_forwards_0 [simp]: "expected_forwards plen gen 0 = []"
  by (simp add: expected_forwards_def)

lemma expected_forwards_append: "m \<le> length gen \<Longrightarrow> expected_forwards plen (gen @ ts) m = expected_forwards plen gen m"
  by (simp add: expected_forwards_def nth_append)

lemma expected_forwards_Suc:
  "expected_forwards plen gen (Suc m) = expected_forwards plen gen m @ [([f32_of_int (uint (gen ! m))], plen + word_of_nat m)]"
  by (simp add: expected_forwards_def)

lemma complete_step:
  assumes inv: "isf_inv ids g S Q s calls" and Q: "PrefillComplete n \<in> Q" and k: "keeps s s'"
    and out: "halted s fs s' \<or> (\<exists>t. fs = [DecodeStep 0 t (is_prompt_len s)] \<and>
      is_all_token_ids s' = is_all_token_ids s @ [t] \<and> is_halt s' = is_halt s)"
  shows "isf_inv ids g (S \<union> set fs) (Q - {PrefillComplete n} \<union> (set fs - S)) s' calls"
proof -
  let ?S = "S \<union> set fs" and ?Q = "Q - {PrefillComplete n} \<union> (set fs - S)"
  have ei: "embed_inv ids S Q s calls" and QS: "Q \<subseteq> S" and req: "request_inv ids g s" and ph: "run_phase ids g S Q s calls"
    using inv by (auto simp: isf_inv_def)
  have same: "is_prompt_len s' = is_prompt_len s" "is_embedding_cache s' = is_embedding_cache s" "request_inv ids g s'"
    using k req by (auto simp: keeps_def same_request_def request_inv_def)
  have "PrefillComplete n \<in> drivers Q" "drivers Q \<subseteq> drivers S" using Q QS by (auto simp: drivers_def)
  then have ap: "after_prefill ids S s calls" and due: "sample_due ids S Q s calls" and n: "n = is_prompt_len s"
    using ph by (auto simp: run_phase_def before_prefill_def prefill_due_def sample_due_def decode_due_def run_ended_def)
  have ap': "after_prefill ids ?S s' calls" using ap by (simp add: after_prefill_def all_cached_def same)
  have dQ: "drivers Q = {PrefillComplete (is_prompt_len s)}" using due by (simp add: sample_due_def)
  have fs: "\<forall>f\<in>set fs. tracked f \<longrightarrow> isf_driver f" using out by (auto simp: halted_def)
  have "(\<exists>k gen. decode_due ids g k gen ?S ?Q s' calls) \<or> (\<exists>gen m. run_ended ids g gen m ?Q s' calls)"
    using out
  proof (elim disjE exE conjE)
    assume "halted s fs s'"
    then obtain r ts where h: "fs = [GenerationHalt r]" "is_halt s' = Some r" "is_all_token_ids s' = ids @ ts" "length ts \<le> 1"
      using due by (elim haltedE) (simp add: sample_due_def)
    have "drivers ?Q = {}" using dQ by (simp add: h(1) n)
    then have "run_ended ids g ts 0 ?Q s' calls"
      using h due by (simp add: run_ended_def sample_due_def le_max_iff_disj less_max_iff_disj)
    then show ?thesis by blast
  next
    fix t
    assume t: "fs = [DecodeStep 0 t (is_prompt_len s)]" "is_all_token_ids s' = is_all_token_ids s @ [t]" "is_halt s' = is_halt s"
    have new: "DecodeStep j t' q \<notin> S" for j t' q
      using due driversI [of "DecodeStep j t' q" S] by (auto simp: sample_due_def)
    have "drivers ?Q = {DecodeStep 0 t (is_prompt_len s')}" using dQ new by (simp add: t(1) n same insert_Diff_if)
    then have "decode_due ids g 0 [t] ?S ?Q s' calls"
      using due new t(2,3) by (simp add: decode_due_def sample_due_def same t(1))
    then show ?thesis by blast
  qed
  then have "run_phase ids g ?S ?Q s' calls" using ap' by (simp add: run_phase_def)
  moreover have "embed_inv ids ?S ?Q s' calls"
    by (rule embed_inv_drivers [OF ei _ fs]) (simp_all add: same)
  ultimately show ?thesis using same QS by (auto simp: isf_inv_def)
qed

lemma decode_step:
  assumes inv: "isf_inv ids g S Q s calls" and Q: "DecodeStep k t q \<in> Q" and kp: "keeps s s'"
    and c: "dequants calls' = dequants calls" "prefills calls' = prefills calls"
    and out: "is_max_tokens s \<le> k + 1 \<and> forwards calls' = forwards calls \<and> fs = [GenerationHalt MaxTokensReached] \<and>
        is_halt s' = Some MaxTokensReached \<and> is_all_token_ids s' = is_all_token_ids s \<or>
      k + 1 < is_max_tokens s \<and> forwards calls' = forwards calls @ [([f32_of_int (uint t)], q)] \<and>
        (halted s fs s' \<or> (\<exists>t' rb sb ms.
          fs = [KvAdvance q, DecodeStep (k + 1) t' (q + 1), FinalLogits q rb sb, DispatchCompleted q KK_FullLayer ms] \<and>
          is_all_token_ids s' = is_all_token_ids s @ [t'] \<and> is_halt s' = is_halt s))"
  shows "isf_inv ids g (S \<union> set fs) (Q - {DecodeStep k t q} \<union> (set fs - S)) s' calls'"
proof -
  let ?S = "S \<union> set fs" and ?Q = "Q - {DecodeStep k t q} \<union> (set fs - S)"
  have ei: "embed_inv ids S Q s calls" and QS: "Q \<subseteq> S" and req: "request_inv ids g s" and ph: "run_phase ids g S Q s calls"
    using inv by (auto simp: isf_inv_def)
  have same: "is_prompt_len s' = is_prompt_len s" "is_embedding_cache s' = is_embedding_cache s" "request_inv ids g s'"
    "is_max_tokens s = g"
    using kp req by (auto simp: keeps_def same_request_def request_inv_def)
  have dk: "DecodeStep k t q \<in> drivers Q" "drivers Q \<subseteq> drivers S" using Q QS by (auto simp: drivers_def)
  then obtain gen where ap: "after_prefill ids S s calls" and due: "decode_due ids g k gen S Q s calls"
    and tq: "t = last gen" "q = is_prompt_len s + k"
    using ph by (auto simp: run_phase_def before_prefill_def prefill_due_def sample_due_def decode_due_def run_ended_def)
  have dQ: "drivers Q = {DecodeStep k t q}" and len: "length gen = Suc (unat k)" and kb: "k = 0 \<or> k < g"
    and ids: "is_all_token_ids s = ids @ gen" and fw: "forwards calls = expected_forwards (is_prompt_len s) gen (unat k)"
    and old: "\<And>j t q. DecodeStep j t q \<in> S \<Longrightarrow> j \<le> k" and hn: "is_halt s = None"
    using due by (auto simp: decode_due_def tq)
  note nk = next_step [OF kb]
  have t: "t = gen ! unat k" using len last_conv_nth [of gen] by (cases gen) (auto simp: tq)
  have ap': "after_prefill ids ?S s' calls'" using ap by (simp add: after_prefill_def all_cached_def same c)
  have fs: "\<forall>f\<in>set fs. tracked f \<longrightarrow> isf_driver f" using out by (auto simp: halted_def)
  have fw': "forwards calls @ [([f32_of_int (uint t)], q)] = expected_forwards (is_prompt_len s) (gen @ ts) (Suc (unat k))" for ts
    using len by (simp add: fw expected_forwards_Suc expected_forwards_append nth_append t tq(2))
  have "(\<exists>k gen. decode_due ids g k gen ?S ?Q s' calls') \<or> (\<exists>gen m. run_ended ids g gen m ?Q s' calls')"
    using out
  proof (elim disjE conjE)
    assume h: "forwards calls' = forwards calls" "fs = [GenerationHalt MaxTokensReached]" "is_halt s' = Some MaxTokensReached"
      "is_all_token_ids s' = is_all_token_ids s"
    have "drivers ?Q = {}" using dQ by (simp add: h(2))
    then have "run_ended ids g gen (unat k) ?Q s' calls'"
      using h kb by (auto simp: run_ended_def ids fw len same word_less_nat_alt)
    then show ?thesis by blast
  next
    assume k1: "k + 1 < is_max_tokens s" and f: "forwards calls' = forwards calls @ [([f32_of_int (uint t)], q)]"
      and "halted s fs s'"
    then obtain r ts where h: "fs = [GenerationHalt r]" "is_halt s' = Some r" "is_all_token_ids s' = ids @ gen @ ts" "length ts \<le> 1"
      by (elim haltedE) (simp add: ids)
    have "drivers ?Q = {}" using dQ by (simp add: h(1))
    moreover have "Suc (unat k) < unat g" using k1 nk(1) by (simp add: same word_less_nat_alt)
    ultimately have "run_ended ids g (gen @ ts) (Suc (unat k)) ?Q s' calls'"
      using h unfolding run_ended_def f fw' [of ts] same by (simp add: len)
    then show ?thesis by blast
  next
    assume k1: "k + 1 < is_max_tokens s" and f: "forwards calls' = forwards calls @ [([f32_of_int (uint t)], q)]"
      and "\<exists>t' rb sb ms. fs = [KvAdvance q, DecodeStep (k + 1) t' (q + 1), FinalLogits q rb sb, DispatchCompleted q KK_FullLayer ms] \<and>
        is_all_token_ids s' = is_all_token_ids s @ [t'] \<and> is_halt s' = is_halt s"
    then obtain t' rb sb ms where h: "fs = [KvAdvance q, DecodeStep (k + 1) t' (q + 1), FinalLogits q rb sb, DispatchCompleted q KK_FullLayer ms]"
      "is_all_token_ids s' = ids @ gen @ [t']" "is_halt s' = None" by (auto simp: ids hn)
    have new: "DecodeStep (k + 1) t' (q + 1) \<notin> S" using old [of "k + 1" t' "q + 1"] nk(2) by auto
    have "drivers (set fs - S) = {DecodeStep (k + 1) t' (q + 1)}" using new by (auto simp: h(1) drivers_def)
    then have d: "drivers ?Q = {DecodeStep (k + 1) (last (gen @ [t'])) (is_prompt_len s' + (k + 1))}"
      using dQ by (simp add: tq(2) same add.assoc del: drivers_remove)
    have "\<forall>j t q. DecodeStep j t q \<in> ?S \<longrightarrow> j \<le> k + 1"
      using old nk(2) by (auto simp: h(1) dest!: old)
    then have "decode_due ids g (k + 1) (gen @ [t']) ?S ?Q s' calls'"
      using h(2,3) d k1 unfolding decode_due_def f fw' [of "[t']"] nk(1) same by (simp add: len)
    then show ?thesis by blast
  qed
  then have "run_phase ids g ?S ?Q s' calls'" using ap' by (simp add: run_phase_def)
  moreover have "embed_inv ids ?S ?Q s' calls'"
    by (rule embed_inv_drivers [OF ei _ fs]) (simp_all add: same c)
  ultimately show ?thesis using same QS by (auto simp: isf_inv_def)
qed

section \<open>Runs keep the invariant\<close>

definition fabric_inv :: "('w \<Rightarrow> isf_call list) \<Rightarrow> u32 list \<Rightarrow> u32 \<Rightarrow> 'w fabric \<Rightarrow> bool" where
  "fabric_inv obs ids g fb =
     isf_inv ids g (set (fb_store fb)) (set (fb_pending fb)) (fb_state fb) (obs (fb_world fb))"

context recorded begin

lemma rule_inert:
  assumes "isf_program cl ft s w = Ok (fs, s', w')" and "\<not> tracked ft"
  shows "(\<forall>f\<in>set fs. \<not> tracked f) \<and> same_request s s' \<and> is_embedding_cache s' = is_embedding_cache s \<and>
    is_halt s' = is_halt s \<and> is_all_token_ids s' = is_all_token_ids s \<and> dequants (obs w') = dequants (obs w) \<and>
    prefills (obs w') = prefills (obs w) \<and> forwards (obs w') = forwards (obs w)"
proof (cases "triggers ft")
  case False
  then show ?thesis using assms(1) by (simp add: program_quiet same_request_def)
next
  case True
  then show ?thesis using assms
    by (cases ft) (auto simp: triggers_def tracked_def isf_driver_def program_simps program_rules rule_dispatch_completed_def
        tensor_fact_dispatch_rule_def same_request_def obs_kv Let_def split: if_splits option.splits)
qed

lemma fire_inv:
  assumes inv: "fabric_inv obs ids g fb" and ids: "ids \<noteq> []" and Q: "ft \<in> set (fb_pending fb)"
    and fire: "fire cl ft fb = Ok fb'"
  shows "fabric_inv obs ids g fb'"
proof -
  let ?S = "set (fb_store fb)" and ?Q = "set (fb_pending fb)"
  obtain fs s w where r: "isf_program cl ft (fb_state fb) (fb_world fb) = Ok (fs, s, w)" "fb_state fb' = s" "fb_world fb' = w"
    "set (fb_store fb') = ?S \<union> set fs" "set (fb_pending fb') = (?Q - {ft}) \<union> (set fs - ?S)"
    by (rule fireE [OF fire])
  note inv = inv [unfolded fabric_inv_def]
  have "isf_inv ids g (?S \<union> set fs) (?Q - {ft} \<union> (set fs - ?S)) s (obs w)"
  proof (cases "tracked ft")
    case False
    from rule_inert [OF r(1) this] show ?thesis by (intro inert_step [OF inv False]) simp_all
  next
    case True
    show ?thesis
    proof (cases ft)
      case (PromptToken q i)
      have "fs = [EmbeddingRequest i]" "s = fb_state fb" "w = fb_world fb"
        using r(1) by (simp_all add: PromptToken program_simps)
      with prompt_step [OF inv, of q i] Q show ?thesis by (simp add: PromptToken)
    next
      case (EmbeddingRequest i)
      obtain w1 e where d: "ic_dequant cl (fb_world fb) i (ic_dim cl) = (w1, e)" by fastforce
      have "fs = [EmbeddingReady 0 i]" "s = (fb_state fb)\<lparr>is_embedding_cache := (is_embedding_cache (fb_state fb))(i \<mapsto> e)\<rparr>" "w = w1"
        using r(1) by (simp_all add: EmbeddingRequest program_rules rule_embedding_request_def d)
      with request_step [OF inv, of i "obs w1" e] Q obs_dequant [OF d] show ?thesis by (simp add: EmbeddingRequest)
    next
      case (EmbeddingReady q i)
      have "EmbeddingReady q i \<in> ?Q" "rule_embedding_ready (fb_state fb) (fb_world fb) = Ok (fs, s, w)"
        using Q r(1) by (simp_all only: EmbeddingReady program_simps)
      from ready_step [OF inv ids this] show ?thesis unfolding EmbeddingReady by (elim conjE) simp
    next
      case (PrefillBatchReady n)
      obtain b h ls ms where "batched_embeddings (fb_state fb) = (Ok b :: (string, f32 list) res)"
        "ic_prefill cl (fb_world fb) b n = (w, h, ls)" "s = (fb_state fb)\<lparr>is_logits := ls\<rparr>"
        "fs = kv_advances n @ [PrefillComplete n, LayerOutput 0 n (rms h) (checksum h),
          FinalLogits n (rms ls) (checksum ls), DispatchCompleted 0 KK_FullLayer ms]"
        by (rule prefill_rule_Ok [OF r(1) [unfolded PrefillBatchReady]])
      with prefill_step [OF inv ids, of n] Q obs_prefill show ?thesis by (simp add: PrefillBatchReady)
    next
      case (PrefillComplete n)
      from prefill_complete_cases [OF r(1) [unfolded PrefillComplete program_simps]] complete_step [OF inv, of n s fs] Q
      show ?thesis by (simp add: PrefillComplete)
    next
      case (DecodeStep k t q)
      from decode_step_cases [OF r(1) [unfolded DecodeStep program_rules]]
      show ?thesis unfolding DecodeStep
        by (intro decode_step [OF inv]) (use Q in \<open>auto simp: DecodeStep\<close>)
    qed (use True in \<open>simp_all add: tracked_def isf_driver_def\<close>)
  qed
  then show ?thesis by (simp add: fabric_inv_def r)
qed

lemma fire_no_panic:
  assumes inv: "fabric_inv obs ids g fb" and ids: "ids \<noteq> []" and Q: "ft \<in> set (fb_pending fb)"
  shows "fire cl ft fb \<noteq> Panic"
proof -
  have due: "is_prompt_token_ids (fb_state fb) = ids \<and> all_cached ids (fb_state fb)" if "PrefillBatchReady n \<in> set (fb_pending fb)" for n
  proof -
    have "PrefillBatchReady n \<in> drivers (set (fb_store fb))"
      using inv that by (auto simp: fabric_inv_def isf_inv_def drivers_def)
    then show ?thesis using inv
      by (auto simp: fabric_inv_def isf_inv_def request_inv_def run_phase_def before_prefill_def prefill_due_def after_prefill_def)
  qed
  have pre: "rule_prefill cl (PrefillBatchReady n) (fb_state fb) (fb_world fb) \<noteq> Panic"
    if "PrefillBatchReady n \<in> set (fb_pending fb)" for n
    using batched_prompt [OF conjunct1 [OF due [OF that]] ids conjunct2 [OF due [OF that]], where 'a = string]
    by (simp add: rule_prefill_def Let_def split: prod.split del: and_then_eq_Ok)
  have "isf_program cl ft (fb_state fb) (fb_world fb) \<noteq> Panic"
  proof (cases "triggers ft")
    case True
    then show ?thesis using Q
      by (cases ft) (auto simp: triggers_def program_simps program_rules rule_embedding_request_def rule_embedding_ready_def
          rule_prefill_complete_def first_token_def rule_decode_step_def next_token_def halt_with_def rule_dispatch_completed_def
          Let_def pre split: prod.split control_decision.split)
  qed (simp add: program_quiet)
  then show ?thesis by (auto simp: fire_def and_then_eq_Panic)
qed

lemma processes_inv:
  assumes "processes cl n fb fb'" and "fabric_inv obs ids g fb" and "ids \<noteq> []"
  shows "fabric_inv obs ids g fb'"
  using assms by (induction rule: processes.induct) (auto dest: fire_inv)

end

text \<open>When nothing is pending the run has ended.\<close>

lemma saturated_ended:
  assumes "isf_inv ids g S {} s calls" and "ids \<noteq> []"
  obtains gen m where "after_prefill ids S s calls" and "run_ended ids g gen m {} s calls"
proof -
  have "\<forall>i\<in>set ids. is_embedding_cache s i \<noteq> None \<or> EmbeddingRequest i \<in> {} \<or> (\<exists>q. PromptToken q i \<in> {})"
    using assms(1) unfolding isf_inv_def embed_inv_def by (elim conjE) assumption
  then have "all_cached ids s" by (simp add: all_cached_def)
  then have "\<not> before_prefill ids S {} s calls" unfolding before_prefill_def by blast
  moreover have "\<not> prefill_due ids S {} s calls" unfolding prefill_due_def by blast
  moreover have "\<not> sample_due ids S {} s calls" "\<not> decode_due ids g k gen S {} s calls" for k gen
    by (simp_all add: sample_due_def decode_due_def)
  moreover have "run_phase ids g S {} s calls" using assms(1) by (simp add: isf_inv_def)
  ultimately show thesis unfolding run_phase_def using that by blast
qed

section \<open>Recording the calls\<close>

text \<open>Closures that keep a list of the calls next to their world.\<close>

definition with_log :: "('w \<Rightarrow> 'w \<times> 'a) \<Rightarrow> isf_call list \<times> 'w \<Rightarrow> (isf_call list \<times> 'w) \<times> 'a" where
  "with_log f lw = (let (w', x) = f (snd lw) in ((fst lw, w'), x))"

definition logging :: "'w closures \<Rightarrow> (isf_call list \<times> 'w) closures" where
  "logging cl =
     \<lparr>ic_dequant = (\<lambda>lw t d. let (w', e) = ic_dequant cl (snd lw) t d in ((fst lw @ [Call_Dequant t e], w'), e)),
      ic_prefill = (\<lambda>lw b n. let (w', x) = ic_prefill cl (snd lw) b n in ((fst lw @ [Call_Prefill b n], w'), x)),
      ic_forward = (\<lambda>lw b q. let (w', x) = ic_forward cl (snd lw) b q in ((fst lw @ [Call_Forward b q], w'), x)),
      ic_sample = (\<lambda>lw ls r. with_log (\<lambda>w. ic_sample cl w ls r) lw),
      ic_decode = (\<lambda>lw t. with_log (\<lambda>w. ic_decode cl w t) lw),
      ic_kv_increment = (\<lambda>lw. (fst lw @ [Call_Kv], ic_kv_increment cl (snd lw))),
      ic_dim = ic_dim cl,
      ic_elapsed_ms = (\<lambda>lw lw'. ic_elapsed_ms cl (snd lw) (snd lw')),
      ic_mask = map_option (\<lambda>m lw ls. with_log (\<lambda>w. m w ls) lw) (ic_mask cl),
      ic_control = map_option (\<lambda>c lw t txt k ids kv. with_log (\<lambda>w. c w t txt k ids kv) lw) (ic_control cl),
      ic_trace = map_option (\<lambda>t lw k ls ms. (fst lw, t (snd lw) k ls ms)) (ic_trace cl),
      ic_on_token = map_option (\<lambda>f lw p. (fst lw, f (snd lw) p)) (ic_on_token cl)\<rparr>"

lemma logging_simps:
  "ic_dequant (logging cl) (l, w) t d = ((l @ [Call_Dequant t (snd (ic_dequant cl w t d))], fst (ic_dequant cl w t d)), snd (ic_dequant cl w t d))"
  "ic_prefill (logging cl) (l, w) b n = ((l @ [Call_Prefill b n], fst (ic_prefill cl w b n)), snd (ic_prefill cl w b n))"
  "ic_forward (logging cl) (l, w) b q = ((l @ [Call_Forward b q], fst (ic_forward cl w b q)), snd (ic_forward cl w b q))"
  "ic_sample (logging cl) (l, w) ls r = ((l, fst (ic_sample cl w ls r)), snd (ic_sample cl w ls r))"
  "ic_decode (logging cl) (l, w) t = ((l, fst (ic_decode cl w t)), snd (ic_decode cl w t))"
  "ic_kv_increment (logging cl) (l, w) = (l @ [Call_Kv], ic_kv_increment cl w)" "ic_dim (logging cl) = ic_dim cl"
  "ic_elapsed_ms (logging cl) (l, w) (l', w') = ic_elapsed_ms cl w w'"
  "apply_mask (logging cl) (l, w) ls = ((l, fst (apply_mask cl w ls)), snd (apply_mask cl w ls))"
  "apply_control (logging cl) (l, w) c txt k ids kv = ((l, fst (apply_control cl w c txt k ids kv)), snd (apply_control cl w c txt k ids kv))"
  "apply_trace (logging cl) (l, w) k ls ms = (l, apply_trace cl w k ls ms)"
  "emit_piece (logging cl) (l, w) p = (l, emit_piece cl w p)"
  by (simp_all add: logging_def with_log_def case_prod_beta apply_mask_def apply_control_def apply_trace_def
      emit_piece_def split: option.split)

interpretation logged: recorded "logging cl" fst for cl :: "'w closures"
proof unfold_locales
  fix lw :: "isf_call list \<times> 'w"
  obtain l w where "lw = (l, w)" by fastforce
  then show
    "\<And>t d w' e. ic_dequant (logging cl) lw t d = (w', e) \<Longrightarrow> fst w' = fst lw @ [Call_Dequant t e]"
    "\<And>b n w' h ls. ic_prefill (logging cl) lw b n = (w', h, ls) \<Longrightarrow> fst w' = fst lw @ [Call_Prefill b n]"
    "\<And>b pos w' h ls. ic_forward (logging cl) lw b pos = (w', h, ls) \<Longrightarrow> fst w' = fst lw @ [Call_Forward b pos]"
    "fst (ic_kv_increment (logging cl) lw) = fst lw @ [Call_Kv]"
    "\<And>ls r w' ls' t. ic_sample (logging cl) lw ls r = (w', ls', t) \<Longrightarrow> fst w' = fst lw"
    "\<And>t w' p. ic_decode (logging cl) lw t = (w', p) \<Longrightarrow> fst w' = fst lw"
    "\<And>ls w' ls'. apply_mask (logging cl) lw ls = (w', ls') \<Longrightarrow> fst w' = fst lw"
    "\<And>c txt k ids kv w' dn. apply_control (logging cl) lw c txt k ids kv = (w', dn) \<Longrightarrow> fst w' = fst lw"
    "\<And>k ls ms. fst (apply_trace (logging cl) lw k ls ms) = fst lw"
    "\<And>p. fst (emit_piece (logging cl) lw p) = fst lw"
    by (auto simp: logging_simps)
qed

text \<open>Recording changes nothing else: a rule, a step and a run have a recorded counterpart.\<close>

definition recorded_as :: "'w fired \<Rightarrow> (isf_call list \<times> 'w) fired \<Rightarrow> bool" where
  "recorded_as r r' = (case r of Ok (fs, s, w) \<Rightarrow> \<exists>l. r' = Ok (fs, s, (l, w)) | Err e \<Rightarrow> r' = Err e | Panic \<Rightarrow> r' = Panic)"

lemma recorded_rule: "recorded_as (isf_program cl ft s w) (isf_program (logging cl) ft s (l, w))"
proof (cases "triggers ft")
  case True
  show ?thesis
  proof (cases ft)
    case (PrefillBatchReady n)
    show ?thesis
      by (cases "batched_embeddings s :: (string, f32 list) res")
        (simp_all add: PrefillBatchReady program_rules rule_prefill_def logging_simps recorded_as_def case_prod_beta Let_def
          del: and_then_eq_Ok)
  qed (use True in \<open>auto simp: triggers_def program_simps program_rules rule_embedding_request_def rule_embedding_ready_def
        rule_prefill_complete_def first_token_def rule_decode_step_def next_token_def halt_with_def rule_dispatch_completed_def
        logging_simps recorded_as_def case_prod_beta Let_def split: control_decision.split\<close>)
qed (simp add: program_quiet recorded_as_def)

definition log_fabric :: "isf_call list \<Rightarrow> 'w fabric \<Rightarrow> (isf_call list \<times> 'w) fabric" where
  "log_fabric l fb = \<lparr>fb_store = fb_store fb, fb_pending = fb_pending fb, fb_state = fb_state fb, fb_world = (l, fb_world fb)\<rparr>"

lemma log_fabric_simps [simp]:
  "fb_store (log_fabric l fb) = fb_store fb" "fb_pending (log_fabric l fb) = fb_pending fb"
  "fb_state (log_fabric l fb) = fb_state fb" "fb_world (log_fabric l fb) = (l, fb_world fb)"
  by (simp_all add: log_fabric_def)

lemma log_fabric_assert:
  fixes fb :: "'w fabric"
  shows "fold fabric_assert fs (log_fabric l fb) = log_fabric l (fold fabric_assert fs fb)"
proof -
  have "fabric_assert f (log_fabric l fb) = log_fabric l (fabric_assert f fb)" for f and fb :: "'w fabric"
    by (simp add: fabric_assert_def log_fabric_def)
  then show ?thesis by (induction fs arbitrary: fb) simp_all
qed

lemma recorded_fire:
  shows "fire cl ft fb = Ok fb' \<Longrightarrow> \<exists>l'. fire (logging cl) ft (log_fabric l fb) = Ok (log_fabric l' fb')"
    and "fire cl ft fb = Panic \<Longrightarrow> fire (logging cl) ft (log_fabric l fb) = Panic"
proof -
  note r = recorded_rule [of cl ft "fb_state fb" "fb_world fb" l, unfolded recorded_as_def]
  show "\<exists>l'. fire (logging cl) ft (log_fabric l fb) = Ok (log_fabric l' fb')" if fire: "fire cl ft fb = Ok fb'"
  proof -
    obtain fs s w where p: "isf_program cl ft (fb_state fb) (fb_world fb) = Ok (fs, s, w)"
      "fb' = fold fabric_assert fs (fb\<lparr>fb_pending := removeAll ft (fb_pending fb), fb_state := s, fb_world := w\<rparr>)"
      using fire by (auto simp: fire_def)
    then obtain l' where l': "isf_program (logging cl) ft (fb_state fb) (l, fb_world fb) = Ok (fs, s, (l', w))"
      using r by auto
    have e: "(log_fabric l fb)\<lparr>fb_pending := removeAll ft (fb_pending fb), fb_state := s, fb_world := (l', w)\<rparr> =
        log_fabric l' (fb\<lparr>fb_pending := removeAll ft (fb_pending fb), fb_state := s, fb_world := w\<rparr>)"
      by (simp add: log_fabric_def)
    have "fire (logging cl) ft (log_fabric l fb) = Ok (fold fabric_assert fs
        ((log_fabric l fb)\<lparr>fb_pending := removeAll ft (fb_pending fb), fb_state := s, fb_world := (l', w)\<rparr>))"
      using l' by (simp add: fire_def)
    then show ?thesis unfolding e log_fabric_assert p(2) by blast
  qed
  show "fire (logging cl) ft (log_fabric l fb) = Panic" if "fire cl ft fb = Panic"
    using that r by (auto simp: fire_def and_then_eq_Panic split: res.splits)
qed

lemma recorded_run:
  assumes "processes cl n fb fb'"
  shows "\<exists>l'. processes (logging cl) n (log_fabric l fb) (log_fabric l' fb')"
  using assms
proof (induction arbitrary: l rule: processes.induct)
  case (processes_one ft fb fb' n fb'')
  obtain l1 where l1: "fire (logging cl) ft (log_fabric l fb) = Ok (log_fabric l1 fb')"
    using recorded_fire(1) [OF processes_one(2)] by blast
  obtain l2 where "processes (logging cl) n (log_fabric l1 fb') (log_fabric l2 fb'')" using processes_one(4) by blast
  with l1 processes_one(1) show ?case by (intro exI [of _ l2] processes.processes_one) simp_all
qed (blast intro: processes.processes_none)

section \<open>A session from its start\<close>

text \<open>The fabric after the tensor facts of the model and the tokens of the prompt are asserted.\<close>

definition session_fabric :: "inference_fact list \<Rightarrow> u32 list \<Rightarrow> u32 \<Rightarrow> u32 \<Rightarrow> u32 list \<Rightarrow> nat \<Rightarrow> 'w \<Rightarrow> 'w fabric" where
  "session_fabric tensors ids g eos extra budget w =
     assert_tensor_facts tensors (fabric_new (session_state ids g eos extra budget) w)"

lemma session_fabric_props:
  shows "set (fb_store (session_fabric tensors ids g eos extra budget w)) = {f \<in> set tensors. is_tensor_fact f}"
    and "fb_pending (session_fabric tensors ids g eos extra budget w) = fb_store (session_fabric tensors ids g eos extra budget w)"
    and "fb_state (session_fabric tensors ids g eos extra budget w) = session_state ids g eos extra budget"
    and "fb_world (session_fabric tensors ids g eos extra budget w) = w"
    and "length (fb_store (session_fabric tensors ids g eos extra budget w)) \<le> length tensors"
proof -
  have p: "fb_pending (fold fabric_assert fs fb) = fb_store (fold fabric_assert fs fb)" if "fb_pending fb = fb_store fb"
    for fs and fb :: "'w fabric"
    using that by (induction fs arbitrary: fb) (simp_all add: fabric_assert_def)
  have len: "length (fb_store (fold fabric_assert fs fb)) \<le> length (fb_store fb) + length fs" for fs and fb :: "'w fabric"
  proof (induction fs arbitrary: fb)
    case (Cons f fs)
    from Cons.IH [of "fabric_assert f fb"] show ?case by (simp add: fabric_assert_def split: if_splits)
  qed simp
  show "fb_pending (session_fabric tensors ids g eos extra budget w) = fb_store (session_fabric tensors ids g eos extra budget w)"
    unfolding session_fabric_def assert_tensor_facts_def by (rule p) (simp add: fabric_new_def)
  show "length (fb_store (session_fabric tensors ids g eos extra budget w)) \<le> length tensors"
    using le_trans [OF len [of "filter is_tensor_fact tensors" "fabric_new (session_state ids g eos extra budget) w"]]
      length_filter_le [of is_tensor_fact tensors]
    unfolding session_fabric_def assert_tensor_facts_def by (simp add: fabric_new_def)
qed (simp_all add: session_fabric_def assert_tensor_facts_def assert_store fabric_new_def)

definition started :: "inference_fact list \<Rightarrow> u32 list \<Rightarrow> u32 \<Rightarrow> u32 \<Rightarrow> u32 list \<Rightarrow> nat \<Rightarrow> 'w \<Rightarrow> 'w fabric" where
  "started tensors ids g eos extra budget w =
     fold fabric_assert (prompt_facts ids) (session_fabric tensors ids g eos extra budget w)"

lemma prompt_facts_props:
  "set (map fst (enumerate n ids)) = {n..<n + length ids}" "f \<in> set (prompt_facts ids) \<Longrightarrow> \<exists>q i. f = PromptToken q i \<and> i \<in> set ids"
  "i \<in> set ids \<Longrightarrow> \<exists>q. PromptToken q i \<in> set (prompt_facts ids)" "length (prompt_facts ids) = length ids"
proof -
  show "f \<in> set (prompt_facts ids) \<Longrightarrow> \<exists>q i. f = PromptToken q i \<and> i \<in> set ids"
    by (force simp: prompt_facts_def in_set_enumerate_eq)
  show "\<exists>q. PromptToken q i \<in> set (prompt_facts ids)" if i: "i \<in> set ids"
  proof -
    obtain k where "k < length ids" "ids ! k = i" using i by (auto simp: in_set_conv_nth)
    then have "(k, i) \<in> set (enumerate 0 ids)" by (simp add: in_set_enumerate_eq)
    then show ?thesis unfolding prompt_facts_def by force
  qed
qed (simp_all add: prompt_facts_def)

lemma started_props:
  fixes tensors ids g eos extra budget and w :: 'w
  defines "fb \<equiv> started tensors ids g eos extra budget w"
  shows "set (fb_store fb) = {f \<in> set tensors. is_tensor_fact f} \<union> set (prompt_facts ids)"
    and "set (fb_pending fb) = set (fb_store fb)" and "fb_state fb = session_state ids g eos extra budget" and "fb_world fb = w"
proof -
  have "{f \<in> set tensors. is_tensor_fact f} \<inter> set (prompt_facts ids) = {}"
    using prompt_facts_props(2) by (fastforce simp: is_tensor_fact_def)
  then show "set (fb_pending fb) = set (fb_store fb)"
    by (auto simp: fb_def started_def assert_pending assert_store session_fabric_props(1,2))
qed (simp_all add: fb_def started_def assert_store session_fabric_props)

lemma tensor_not_tracked: "is_tensor_fact f \<Longrightarrow> \<not> tracked f"
  by (cases f) (simp_all add: is_tensor_fact_def tracked_def isf_driver_def)

lemma started_inv:
  assumes "ids \<noteq> []" and "obs w = []"
  shows "fabric_inv obs ids g (started tensors ids g eos extra budget w)"
proof -
  let ?s = "session_state ids g eos extra budget" and ?T = "{f \<in> set tensors. is_tensor_fact f}"
  let ?S = "?T \<union> set (prompt_facts ids)"
  have nt: "f \<notin> ?T" if "tracked f" for f using that tensor_not_tracked by auto
  have np: "EmbeddingRequest i \<notin> set (prompt_facts ids)" "EmbeddingReady q i \<notin> set (prompt_facts ids)" for q i
    using prompt_facts_props(2) by fastforce+
  have ns: "EmbeddingRequest i \<notin> ?S" "EmbeddingReady q i \<notin> ?S" for q i
    using np nt [of "EmbeddingRequest i"] nt [of "EmbeddingReady q i"] by (auto simp: tracked_def)
  have st: "is_embedding_cache ?s = (\<lambda>_. None)" "is_halt ?s = None" "is_all_token_ids ?s = ids" "request_inv ids g ?s"
    by (simp_all add: session_state_def isf_state_new_def request_inv_def)
  have pt: "PromptToken q i \<in> ?S \<Longrightarrow> i \<in> set ids" "i \<in> set ids \<Longrightarrow> \<exists>q. PromptToken q i \<in> ?S" for q i
    using nt [of "PromptToken q i"] prompt_facts_props(2) [of "PromptToken q i" ids] prompt_facts_props(3) [of i ids]
    by (auto simp: tracked_def)
  have d: "drivers ?S = {}"
    using nt prompt_facts_props(2) by (fastforce simp: drivers_def tracked_def)
  have "embed_inv ids ?S ?S ?s []"
    using ns pt unfolding embed_inv_def st dequants.simps by (intro conjI allI impI ballI) auto
  moreover have "before_prefill ids ?S ?S ?s []"
    using assms(1) d unfolding before_prefill_def st all_cached_def by simp
  ultimately show ?thesis
    by (simp add: fabric_inv_def isf_inv_def run_phase_def started_props assms(2) st)
qed

lemma started_work:
  fixes tensors ids g eos extra budget and w :: 'w
  defines "fb \<equiv> started tensors ids g eos extra budget w"
  shows "work_left fb \<le> 2 * length (fb_store (session_fabric tensors ids g eos extra budget w)) + 5 * length ids + 7 * unat g + 9"
    and "\<forall>f\<in>set (fb_store fb). step_bounded (fb_state fb) f" and "set (fb_pending fb) \<subseteq> set (fb_store fb)"
proof -
  let ?fb0 = "session_fabric tensors ids g eos extra budget w" and ?g = "unat g"
  have st: "is_max_tokens (fb_state fb) = g" "is_prompt_len (fb_state fb) = word_of_nat (length ids)"
    by (simp_all add: fb_def started_props session_state_def isf_state_new_def)
  have "sum_list (map (weight ?g) fs) = 3 * length fs" if "\<forall>f\<in>set fs. \<exists>q i. f = PromptToken q i" for fs
    using that by (induction fs) (auto simp: weight_def)
  then have p: "sum_list (map (weight ?g) (prompt_facts ids)) = 3 * length ids"
    using prompt_facts_props(2) [of _ ids] prompt_facts_props(4) [of ids] by fastforce
  have "sum_list (map (weight ?g) fs) = 2 * length fs" if "\<forall>f\<in>set fs. is_tensor_fact f" for fs
    using that by (induction fs) (auto simp: weight_def is_tensor_fact_def split: inference_fact.splits)
  then have "pending_weight ?g ?fb0 = 2 * length (fb_store ?fb0)"
    using session_fabric_props(1) [of tensors ids g eos extra budget w]
    by (simp add: pending_weight_def session_fabric_props(2))
  then have "pending_weight ?g fb \<le> 2 * length (fb_store ?fb0) + 3 * length ids"
    using assert_weight [of ?g "prompt_facts ids" ?fb0] p by (simp add: fb_def started_def)
  moreover have "unat (word_of_nat (length ids) :: u32) \<le> length ids" by (simp add: unsigned_of_nat take_bit_nat_eq_self_iff take_bit_eq_mod)
  then have "prefill_weight ?g (unat (word_of_nat (length ids) :: u32)) \<le> 2 * length ids + 7 * unat g + 9"
    by (simp add: prefill_weight_def decode_weight_def)
  ultimately show "work_left fb \<le> 2 * length (fb_store ?fb0) + 5 * length ids + 7 * unat g + 9"
    by (simp add: work_left_def st Let_def)
  show "\<forall>f\<in>set (fb_store fb). step_bounded (fb_state fb) f"
    using prompt_facts_props(2) by (fastforce simp: fb_def started_props is_tensor_fact_def step_bounded_def split: inference_fact.splits)
  show "set (fb_pending fb) \<subseteq> set (fb_store fb)" by (simp add: fb_def started_props)
qed

lemma budget_cases:
  "request_run_budget p g e =
     (if p * 6 + g * 16 + e * 2 + 64 < 2 ^ 32
      then Ok \<lparr>rb_max_facts = p * 6 + g * 16 + e * 2 + 64, rb_max_rounds = p * 6 + g * 16 + e * 2 + 64\<rparr> else Err BudgetOverflow)"
  by (simp add: request_run_budget_def checked_mul_def checked_add_def u64_range_def ok_or_def del: and_then_eq_Ok)

section \<open>What a run guarantees\<close>

lemma log_session:
  "session_fabric tensors ids g eos extra budget (l, w) = log_fabric l (session_fabric tensors ids g eos extra budget w)"
  "started tensors ids g eos extra budget (l, w) = log_fabric l (started tensors ids g eos extra budget w)"
proof -
  show s: "session_fabric tensors ids g eos extra budget (l, w) = log_fabric l (session_fabric tensors ids g eos extra budget w)"
    by (simp add: session_fabric_def assert_tensor_facts_def fabric_new_def flip: log_fabric_assert) (simp add: log_fabric_def)
  show "started tensors ids g eos extra budget (l, w) = log_fabric l (started tensors ids g eos extra budget w)"
    by (simp add: started_def s log_fabric_assert)
qed

text \<open>Every state a run reaches has a recorded counterpart in the invariant, and little work left.\<close>

lemma run_recorded:
  assumes "processes cl n (started tensors ids g eos extra budget w) fb'" and "ids \<noteq> []"
  obtains l where "fabric_inv fst ids g (log_fabric l fb')"
    and "n \<le> 2 * length (fb_store (session_fabric tensors ids g eos extra budget w)) + 5 * length ids + 7 * unat g + 9"
proof -
  obtain l where l: "processes (logging cl) n (started tensors ids g eos extra budget ([], w)) (log_fabric l fb')"
    using recorded_run [OF assms(1), of "[]"] unfolding log_session by blast
  have "fabric_inv fst ids g (log_fabric l fb')"
    by (rule logged.processes_inv [OF l started_inv [OF assms(2)] assms(2)]) simp
  moreover have "n \<le> work_left (started tensors ids g eos extra budget ([] :: isf_call list, w))"
    using logged.processes_work [OF l started_work(2,3)] by simp
  then have "n \<le> 2 * length (fb_store (session_fabric tensors ids g eos extra budget w)) + 5 * length ids + 7 * unat g + 9"
    using started_work(1) [of tensors ids g eos extra budget "([] :: isf_call list, w)"] by (simp add: log_session(1))
  ultimately show thesis using that by blast
qed

lemma run_saturates:
  assumes eng: "engine_ok cl run" and ids: "ids \<noteq> []"
    and b: "request_run_budget (length ids) (unat g) (length (fb_store (session_fabric tensors ids g eos extra budget w))) = Ok b"
  shows "\<exists>fb' n. run b (started tensors ids g eos extra budget w) = Ok (fb', n, True) \<and>
    processes cl n (started tensors ids g eos extra budget w) fb' \<and> fb_pending fb' = []"
proof -
  let ?fb = "started tensors ids g eos extra budget w"
  have m: "min (rb_max_facts b) (rb_max_rounds b) =
      length ids * 6 + unat g * 16 + length (fb_store (session_fabric tensors ids g eos extra budget w)) * 2 + 64"
    using b by (auto simp: budget_cases split: if_splits)
  have work: "n < min (rb_max_facts b) (rb_max_rounds b)" if "processes cl n ?fb fb'" for n fb'
    by (rule run_recorded [OF that ids]) (simp add: m)
  have no_panic: "fire cl ft fb' \<noteq> Panic" if p: "processes cl n ?fb fb'" and ft: "ft \<in> set (fb_pending fb')" for n fb' ft
  proof (rule run_recorded [OF p ids])
    fix l assume "fabric_inv fst ids g (log_fabric l fb')"
    from logged.fire_no_panic [OF this ids] ft recorded_fire(2) [of cl ft fb' l] show ?thesis by auto
  qed
  have "case run b ?fb of
        Ok (fb', n, saturated) \<Rightarrow> processes cl n ?fb fb' \<and> (saturated = (fb_pending fb' = [])) \<and>
          n \<le> min (rb_max_facts b) (rb_max_rounds b) \<and> (saturated \<or> n = min (rb_max_facts b) (rb_max_rounds b))
      | Err e \<Rightarrow> False
      | Panic \<Rightarrow> (\<exists>n fb' ft. processes cl n ?fb fb' \<and> ft \<in> set (fb_pending fb') \<and> fire cl ft fb' = Panic)"
    using eng unfolding engine_ok_def by blast
  then show ?thesis using no_panic by (cases "run b ?fb") (auto dest: work)
qed

lemma session_max: "is_max_tokens (fb_state (session_fabric tensors ids g eos extra budget w)) = g"
  by (simp add: session_fabric_props session_state_def isf_state_new_def)

lemma tokens_counted:
  assumes "request_inv ids g s" and "is_all_token_ids s = ids @ gen" and "length ids < 2 ^ 32"
  shows "tokens_so_far s = length gen"
  using assms by (simp add: tokens_so_far_def request_inv_def unat_word_of_nat_small)

lemma generation_outcome:
  assumes "engine_ok cl run" and "ids \<noteq> []"
  shows "case snd (try_generate run ids (session_fabric tensors ids g eos extra budget w)) of
      Ok out \<Rightarrow> go_tokens_generated out \<le> max 1 (unat g)
    | Err e \<Rightarrow> e = BudgetOverflow \<and> 2 ^ 32 \<le> length ids * 6 + unat g * 16 + length tensors * 2 + 64
    | Panic \<Rightarrow> False"
proof (cases "request_run_budget (length ids) (unat g) (length (fb_store (session_fabric tensors ids g eos extra budget w)))")
  case (Ok b)
  obtain fb' n where r: "run b (started tensors ids g eos extra budget w) = Ok (fb', n, True)"
    "processes cl n (started tensors ids g eos extra budget w) fb'" "fb_pending fb' = []"
    using run_saturates [OF assms Ok] by blast
  obtain l where "fabric_inv fst ids g (log_fabric l fb')" by (rule run_recorded [OF r(2) assms(2)])
  then have inv: "isf_inv ids g (set (fb_store fb')) {} (fb_state fb') l" using r(3) by (simp add: fabric_inv_def)
  obtain gen m where e: "run_ended ids g gen m {} (fb_state fb') l" by (rule saturated_ended [OF inv assms(2)])
  have "length ids < 2 ^ 32" using Ok by (auto simp: budget_cases split: if_splits)
  then have "tokens_so_far (fb_state fb') = length gen"
    using tokens_counted [of ids g] inv e by (simp add: isf_inv_def run_ended_def)
  then show ?thesis using e r(1) Ok
    by (auto simp: try_generate_def session_max started_def [symmetric] run_ended_def)
next
  case (Err e)
  then show ?thesis using session_fabric_props(5) [of tensors ids g eos extra budget w]
    by (auto simp: try_generate_def session_max budget_cases split: if_splits)
qed (simp add: budget_cases split: if_splits)

text \<open>The first-in first-out engine is one that can be relied on.\<close>

lemma traverse_never_err: "(\<And>x. f x \<noteq> Err e) \<Longrightarrow> traverse f xs \<noteq> Err e"
  by (induction xs) (auto simp: and_then_eq_Err)

lemma program_never_err: "isf_program cl ft s w \<noteq> Err e"
proof (cases "triggers ft")
  case True
  have b: "batched_embeddings s \<noteq> (Err e :: (string, f32 list) res)"
    unfolding batched_embeddings_def
    using traverse_never_err [of unwrap_embedding e] by (auto simp: and_then_eq_Err unwrap_embedding_def split: option.split)
  show ?thesis
  proof (cases ft)
    case (PrefillBatchReady n)
    then show ?thesis using b
      by (cases "batched_embeddings s :: (string, f32 list) res")
        (simp_all add: program_rules rule_prefill_def case_prod_beta Let_def del: and_then_eq_Ok)
  qed (use True in \<open>auto simp: triggers_def program_simps program_rules rule_embedding_request_def rule_embedding_ready_def
        rule_prefill_complete_def first_token_def rule_decode_step_def next_token_def halt_with_def rule_dispatch_completed_def
        case_prod_beta Let_def split: control_decision.split\<close>)
qed (simp add: program_quiet)

lemma fire_never_err: "fire cl ft fb \<noteq> Err e"
  by (auto simp: fire_def and_then_eq_Err program_never_err)

lemma fifo_run_sound:
  "case fifo_run cl k fb of
     Ok (fb', n) \<Rightarrow> processes cl n fb fb' \<and> n \<le> k \<and> (fb_pending fb' = [] \<or> n = k)
   | Err e \<Rightarrow> False
   | Panic \<Rightarrow> \<exists>n fb' ft. processes cl n fb fb' \<and> ft \<in> set (fb_pending fb') \<and> fire cl ft fb' = Panic"
proof (induction k arbitrary: fb)
  case 0
  then show ?case by (simp add: processes.processes_none)
next
  case (Suc k)
  show ?case
  proof (cases "fb_pending fb")
    case Nil
    then show ?thesis by (simp add: processes.processes_none)
  next
    case (Cons ft fts)
    then have ft: "ft \<in> set (fb_pending fb)" by simp
    show ?thesis
    proof (cases "fire cl ft fb")
      case (Ok fb1)
      note one = processes.processes_one [OF ft Ok]
      have run: "fifo_run cl (Suc k) fb = and_then (fifo_run cl k fb1) (\<lambda>(fb'', k). Ok (fb'', Suc k))"
        by (simp add: Cons Ok del: and_then_eq_Ok)
      show ?thesis
      proof (cases "fifo_run cl k fb1")
        case r: (Ok x)
        obtain fb2 n where x: "x = (fb2, n)" by fastforce
        with Suc.IH [of fb1] one [of n fb2] show ?thesis by (simp add: run r del: fifo_run.simps)
      next
        case r: (Err e)
        with Suc.IH [of fb1] show ?thesis by simp
      next
        case r: Panic
        with Suc.IH [of fb1] obtain n fb' f where "processes cl n fb1 fb'" "f \<in> set (fb_pending fb')" "fire cl f fb' = Panic"
          by auto
        with one [of n fb'] show ?thesis by (simp add: run r del: fifo_run.simps) blast
      qed
    next
      case Panic
      then have "fifo_run cl (Suc k) fb = Panic" by (simp add: Cons)
      moreover have "\<exists>n fb' ft. processes cl n fb fb' \<and> ft \<in> set (fb_pending fb') \<and> fire cl ft fb' = Panic"
        using Panic ft processes.processes_none by blast
      ultimately show ?thesis by simp
    qed (simp add: fire_never_err)
  qed
qed

lemma fifo_engine_ok: "engine_ok cl (fifo_engine cl)"
proof -
  have "case fifo_engine cl b fb of
        Ok (fb', n, saturated) \<Rightarrow> processes cl n fb fb' \<and> (saturated = (fb_pending fb' = [])) \<and>
          n \<le> min (rb_max_facts b) (rb_max_rounds b) \<and> (saturated \<or> n = min (rb_max_facts b) (rb_max_rounds b))
      | Err e \<Rightarrow> False
      | Panic \<Rightarrow> (\<exists>n fb' ft. processes cl n fb fb' \<and> ft \<in> set (fb_pending fb') \<and> fire cl ft fb' = Panic)" for b fb
    using fifo_run_sound [where cl = cl and fb = fb and k = "min (rb_max_facts b) (rb_max_rounds b)"]
    by (cases "fifo_run cl (min (rb_max_facts b) (rb_max_rounds b)) fb") (auto simp: fifo_engine_def)
  then show ?thesis unfolding engine_ok_def by blast
qed

text \<open>Closures of a model that always answers the token 5.\<close>

definition sample_closures :: "nat closures" where
  "sample_closures = \<lparr>ic_dequant = (\<lambda>w t d. (w, [f32_one])), ic_prefill = (\<lambda>w b n. (w, [f32_one], [f32_one])),
     ic_forward = (\<lambda>w b q. (Suc w, [f32_one], [f32_one])), ic_sample = (\<lambda>w ls r. (w, ls, 5)), ic_decode = (\<lambda>w t. (w, ''x'')),
     ic_kv_increment = (\<lambda>w. w), ic_dim = 1, ic_elapsed_ms = (\<lambda>w w'. 3), ic_mask = None, ic_control = None,
     ic_trace = None, ic_on_token = None\<rparr>"

text \<open>
  C3: Generation completes. Whatever order the engine processes the facts in, and whatever
  the model computes, samples or its hooks decide, a request with a nonempty prompt returns
  an answer: the work bound of the request is never used up, a terminal reason is set when
  nothing is left to do, and no rule panics. The answer has at most \<open>max_tokens\<close> tokens
  (one, when none was asked for). The only error is a bound that exceeds 32 bits, before
  anything runs.
\<close>

theorem generation_completes:
  assumes "engine_ok cl run" and "ids \<noteq> []"
  shows "case snd (try_generate run ids (session_fabric tensors ids g eos extra budget w)) of
      Ok out \<Rightarrow> go_tokens_generated out \<le> max 1 (unat g)
    | Err e \<Rightarrow> e = BudgetOverflow \<and> 2 ^ 32 \<le> length ids * 6 + unat g * 16 + length tensors * 2 + 64
    | Panic \<Rightarrow> False"
  by (rule generation_outcome [OF assms])

lemma generation_completes_witness:
  "\<exists>out. snd (try_generate (fifo_engine sample_closures) [7, 8, 7]
       (session_fabric [TensorFact 2 [32] 0 ''llama''] [7, 8, 7] 4 0 [] 30000 0)) = Ok out \<and> go_tokens_generated out \<le> 4"
proof -
  have "[7, 8, 7 :: u32] \<noteq> []" by simp
  from generation_completes [OF fifo_engine_ok this, where cl = sample_closures and tensors = "[TensorFact 2 [32] 0 ''llama'']"
      and g = 4 and eos = 0 and extra = "[]" and budget = 30000 and w = 0]
  show ?thesis by (simp split: res.splits)
qed

text \<open>
  C4: The calls that reach the GPU are those of a sequential generation: one dequantisation
  for each distinct token of the prompt, one prefill with the embeddings of the prompt in
  order, and one forward pass for each token generated but possibly the last, in the order
  they were generated, at consecutive positions from the end of the prompt.
\<close>

theorem generation_calls_sequential:
  assumes "engine_ok (logging cl) run" and "ids \<noteq> []"
    and "try_generate run ids (session_fabric tensors ids g eos extra budget ([], w)) = (fb', Ok out)"
  shows "\<exists>calls w' gen m. fb_world fb' = (calls, w') \<and> distinct (map fst (dequants calls)) \<and>
    set (map fst (dequants calls)) = set ids \<and>
    prefills calls = [(concat (map (\<lambda>i. the (map_of (dequants calls) i)) ids), word_of_nat (length ids))] \<and>
    is_all_token_ids (fb_state fb') = ids @ gen \<and> go_tokens_generated out = length gen \<and>
    forwards calls = expected_forwards (word_of_nat (length ids)) gen m \<and> m \<le> length gen \<and> length gen \<le> Suc m \<and>
    length gen \<le> max 1 (unat g)"
proof -
  let ?fb = "session_fabric tensors ids g eos extra budget ([] :: isf_call list, w)"
  obtain b where b: "request_run_budget (length ids) (unat g) (length (fb_store ?fb)) = Ok b"
    using assms(3) by (auto simp: try_generate_def session_max split: res.splits)
  obtain n where r: "run b (started tensors ids g eos extra budget ([], w)) = Ok (fb', n, True)"
    "processes (logging cl) n (started tensors ids g eos extra budget ([], w)) fb'" "fb_pending fb' = []"
    and out: "go_tokens_generated out = tokens_so_far (fb_state fb')"
    using run_saturates [OF assms(1,2) b] assms(3) b
    by (auto simp: try_generate_def session_max started_def [symmetric] split: option.splits)
  obtain calls w' where cw: "fb_world fb' = (calls, w')" by fastforce
  have "fabric_inv fst ids g fb'" by (rule logged.processes_inv [OF r(2) started_inv [OF assms(2)] assms(2)]) simp
  then have inv: "isf_inv ids g (set (fb_store fb')) {} (fb_state fb') calls" using r(3) by (simp add: fabric_inv_def cw)
  obtain gen m where ap: "after_prefill ids (set (fb_store fb')) (fb_state fb') calls"
    and e: "run_ended ids g gen m {} (fb_state fb') calls" by (rule saturated_ended [OF inv assms(2)])
  have ei: "embed_inv ids (set (fb_store fb')) {} (fb_state fb') calls" and req: "request_inv ids g (fb_state fb')"
    using inv by (simp_all add: isf_inv_def)
  have mo: "map_of (dequants calls) = is_embedding_cache (fb_state fb')" and dis: "distinct (map fst (dequants calls))"
    using ei by (simp_all only: embed_inv_def)
  have plen: "is_prompt_len (fb_state fb') = word_of_nat (length ids)" using req by (simp add: request_inv_def)
  have "i \<in> set (map fst (dequants calls)) \<longleftrightarrow> i \<in> set ids" for i
  proof -
    have "i \<in> set (map fst (dequants calls)) \<longleftrightarrow> is_embedding_cache (fb_state fb') i \<noteq> None"
      unfolding mo [symmetric] by (simp add: map_of_eq_None_iff)
    also have "\<dots> \<longleftrightarrow> i \<in> set ids" using ei ap unfolding embed_inv_def after_prefill_def all_cached_def by blast
    finally show ?thesis .
  qed
  then have "set (map fst (dequants calls)) = set ids" by blast
  moreover have "length ids < 2 ^ 32" using b by (auto simp: budget_cases split: if_splits)
  then have "go_tokens_generated out = length gen"
    using tokens_counted [OF req] e by (simp add: out run_ended_def)
  moreover have "prefills calls = [(concat (map (\<lambda>i. the (map_of (dequants calls) i)) ids), word_of_nat (length ids))]"
    using ap unfolding mo after_prefill_def plen by blast
  ultimately show ?thesis using dis e cw unfolding run_ended_def plen
    by (intro exI [of _ calls] exI [of _ w'] exI [of _ gen] exI [of _ m]) simp
qed

lemma generation_calls_sequential_witness:
  "\<exists>fb' out calls w'. try_generate (fifo_engine (logging sample_closures)) [7, 8, 7]
       (session_fabric [] [7, 8, 7] 4 0 [] 30000 ([], 0)) = (fb', Ok out) \<and> fb_world fb' = (calls, w') \<and>
     set (map fst (dequants calls)) = {7, 8} \<and> length (dequants calls) = 2 \<and> length (prefills calls) = 1 \<and>
     length (forwards calls) \<le> go_tokens_generated out"
proof -
  have ne: "[7, 8, 7 :: u32] \<noteq> []" by simp
  let ?r = "try_generate (fifo_engine (logging sample_closures)) [7, 8, 7] (session_fabric [] [7, 8, 7] 4 0 [] 30000 ([], 0))"
  obtain out where "snd ?r = Ok out"
    using generation_outcome [OF fifo_engine_ok ne, where cl = "logging sample_closures" and tensors = "[]"
      and g = 4 and eos = 0 and extra = "[]" and budget = 30000 and w = "([], 0)"] by (simp split: res.splits)
  then have r: "?r = (fst ?r, Ok out)" by (metis prod.collapse)
  from generation_calls_sequential [OF fifo_engine_ok ne r]
  obtain calls w' gen m where c: "fb_world (fst ?r) = (calls, w')" "distinct (map fst (dequants calls))"
    "set (map fst (dequants calls)) = set [7, 8, 7]" "length (prefills calls) = 1" "go_tokens_generated out = length gen"
    "forwards calls = expected_forwards (word_of_nat (length [7, 8, 7 :: u32])) gen m" "m \<le> length gen"
    by (metis length_Cons list.size(3) One_nat_def)
  have "length (dequants calls) = card (set (map fst (dequants calls)))"
    using distinct_card [OF c(2)] by simp
  also have "set (map fst (dequants calls)) = {7, 8}" unfolding c(3) by auto
  finally have "length (dequants calls) = 2" by simp
  with r c show ?thesis by (intro exI [of _ "fst ?r"] exI [of _ out] exI [of _ calls] exI [of _ w']) (auto simp: expected_forwards_def)
qed

end
