(* ===== verification/Manifest.thy ===== *)
theory Manifest
  imports Quant_Formula
begin

text \<open>
  The parsed GGUF file as the program sees it. The parser is the external crate
  \<open>shimmytok\<close>; the records below hold what its accessors return (\<open>TensorDescriptor\<close>:
  \<open>name\<close>, \<open>dimensions\<close>, \<open>ggml_type\<close>, \<open>absolute_offset\<close>, \<open>byte_len\<close>; \<open>ModelManifest\<close>:
  \<open>header().values\<close>, \<open>tensors\<close>, \<open>tensor\<close>, \<open>file_len\<close>, \<open>data_start\<close>) and are arguments of every definition
  that reads a manifest. \<open>manifest_ok\<close> states what a manifest of a well-formed file
  satisfies; only theorems that need it assume it.
\<close>

text \<open>The variants of \<open>shimmytok::gguf::GGUFValue\<close> the code matches on.\<close>

datatype gguf_value =
    V_U8 "8 word" | V_I8 "8 word" | V_U16 "16 word" | V_I16 "16 word"
  | V_U32 "32 word" | V_I32 "32 word" | V_U64 "64 word" | V_I64 "64 word"
  | V_F32 f32 | V_F64 "64 word" | V_Bool bool | V_String string | V_Array "gguf_value list"

record tensor_descriptor =
  td_name :: string
  td_dimensions :: "nat list"
  td_ggml_type :: nat
  td_absolute_offset :: nat
  td_byte_len :: nat

text \<open>
  \<open>mf_values\<close> lists the metadata in the order the map iterates it; the order is the
  crate's choice and the model takes it as given.
\<close>

record model_manifest =
  mf_version :: nat
  mf_tensor_count :: nat
  mf_values :: "(string \<times> gguf_value) list"
  mf_tensors :: "tensor_descriptor list"
  mf_file_len :: nat
  mf_data_start :: nat

definition mf_value :: "model_manifest \<Rightarrow> string \<Rightarrow> gguf_value option" where
  "mf_value m key = map_of (mf_values m) key"

definition mf_tensor :: "model_manifest \<Rightarrow> string \<Rightarrow> tensor_descriptor option" where
  "mf_tensor m name = find (\<lambda>t. td_name t = name) (mf_tensors m)"

text \<open>
  A tensor of a well-formed file: nonzero dimensions, of a known type in whole blocks, its
  bytes the blocks of its rows, word-aligned after the header and inside the file.
\<close>

definition descriptor_ok :: "nat \<Rightarrow> tensor_descriptor \<Rightarrow> bool" where
  "descriptor_ok file_len t =
     (td_dimensions t \<noteq> [] \<and> (\<forall>d\<in>set (td_dimensions t). 0 < d) \<and>
      td_absolute_offset t mod 4 = 0 \<and> 4 \<le> td_absolute_offset t \<and>
      td_absolute_offset t + td_byte_len t \<le> file_len \<and>
      (case (block_elems (td_ggml_type t), block_bytes (td_ggml_type t)) of
         (Some e, Some b) \<Rightarrow> hd (td_dimensions t) mod e = 0 \<and>
            td_byte_len t = hd (td_dimensions t) div e * b * prod_list (tl (td_dimensions t))
       | _ \<Rightarrow> True))"

text \<open>A file has less than \<open>2^63\<close> bytes, and tensor names are unique.\<close>

definition manifest_ok :: "model_manifest \<Rightarrow> bool" where
  "manifest_ok m =
     (mf_file_len m < 2 ^ 63 \<and> distinct (map td_name (mf_tensors m)) \<and>
      (\<forall>t\<in>set (mf_tensors m). descriptor_ok (mf_file_len m) t))"

lemma mf_tensor_Some: "mf_tensor m name = Some t \<Longrightarrow> t \<in> set (mf_tensors m) \<and> td_name t = name"
  by (auto simp: mf_tensor_def find_Some_iff)

lemma mf_tensor_ok: "manifest_ok m \<Longrightarrow> mf_tensor m name = Some t \<Longrightarrow> descriptor_ok (mf_file_len m) t"
  using mf_tensor_Some by (fastforce simp: manifest_ok_def)

text \<open>The supported types store at least two bytes per element pair: rows times four stay small.\<close>

definition supported_type :: "nat \<Rightarrow> bool" where
  "supported_type t = (t \<in> {0, 1, 2, 6, 8, 12, 13, 14})"

lemma supported_geometry:
  assumes "supported_type t"
  obtains e b where "block_elems t = Some e" and "block_bytes t = Some b" and "0 < e"
    and "e \<le> 2 * b" and "2 \<le> b"
proof -
  have "\<exists>e b. block_elems t = Some e \<and> block_bytes t = Some b \<and> 0 < e \<and> e \<le> 2 * b \<and> 2 \<le> b"
    using assms by (auto simp: supported_type_def block_elems_def block_bytes_def formula_for_type_def
        quant_formulas_def)
  then show ?thesis using that by blast
qed

lemma descriptor_bytes:
  assumes "descriptor_ok n t" and "supported_type (td_ggml_type t)" and "td_dimensions t = [d, r]"
  shows "d \<le> 2 * td_byte_len t" and "2 * r \<le> td_byte_len t" and "td_byte_len t \<le> n"
proof -
  obtain e b where g: "block_elems (td_ggml_type t) = Some e" "block_bytes (td_ggml_type t) = Some b"
    "0 < e" "e \<le> 2 * b" "2 \<le> b" using supported_geometry [OF assms(2)] .
  have d: "0 < d" "0 < r" "d mod e = 0" and b: "td_byte_len t = d div e * b * r"
    using assms(1,3) g by (simp_all add: descriptor_ok_def)
  show "td_byte_len t \<le> n" using assms(1) by (simp add: descriptor_ok_def)
  define q where "q = d div e"
  have dq: "d = q * e" using d(3) unfolding q_def by (metis add.right_neutral div_mult_mod_eq)
  with d(1) have q: "0 < q" by (cases q) simp_all
  have len: "td_byte_len t = q * b * r" by (simp add: b q_def)
  have "q * e \<le> q * (2 * b)" using g(4) by simp
  also have "\<dots> \<le> q * (2 * b) * r" using d(2) by simp
  finally show "d \<le> 2 * td_byte_len t" by (simp add: dq len mult_ac)
  have "2 \<le> q * b" using q g(5) by (metis One_nat_def Suc_leI mult_le_mono nat_mult_1)
  then show "2 * r \<le> td_byte_len t" unfolding len by (rule mult_le_mono1)
qed

lemma descriptor_bytes_f32:
  assumes "descriptor_ok n t" and "td_ggml_type t = 0" and "td_dimensions t = [d]"
  shows "4 * d = td_byte_len t" and "td_byte_len t \<le> n"
  using assms by (simp_all add: descriptor_ok_def block_elems_def block_bytes_def formula_for_type_def
      quant_formulas_def)

end
