(* ===== verification/State_Lease.thy ===== *)
theory State_Lease
  imports Prelude
begin

text \<open>
  src/src/runtime/state.rs: the byte budget of a key-value state, and the lease protocol
  that gives one request at a time exclusive use of it. A lease moves through its phases by
  writes that extend the committed prefix; the controller hands out leases with two atomic
  steps, so begins of several threads interleave.
\<close>

section \<open>Specification and budget\<close>

record state_identity =
  si_model_sha256 :: string
  si_plan_sha256 :: string

datatype kv_precision = KP_F32 | KP_F32WithInt4Shadow

datatype state_kind = DenseKv | WindowedKv | LatentKv | DeltaNet | Mamba | Rwkv | EncoderMemory

fun state_kind_debug :: "state_kind \<Rightarrow> string" where
  "state_kind_debug DenseKv = ''DenseKv''"
| "state_kind_debug WindowedKv = ''WindowedKv''"
| "state_kind_debug LatentKv = ''LatentKv''"
| "state_kind_debug DeltaNet = ''DeltaNet''"
| "state_kind_debug Mamba = ''Mamba''"
| "state_kind_debug Rwkv = ''Rwkv''"
| "state_kind_debug EncoderMemory = ''EncoderMemory''"

record state_spec =
  ss_kind :: state_kind
  ss_layers :: nat
  ss_kv_heads :: nat
  ss_head_dim :: nat
  ss_capacity :: nat
  ss_precision :: kv_precision

record state_budget =
  sb_per_tensor_bytes :: nat
  sb_total_bytes :: nat

datatype state_error =
    SE_Unsupported string
  | SE_Bounds string
  | SE_Identity
  | SE_Busy
  | SE_Phase string
  | SE_Epoch

type_synonym 'a state_res = "(state_error, 'a) res"

text \<open>\<open>iter().try_fold(1, |a, b| a.checked_mul(b))\<close>\<close>

fun checked_product :: "nat \<Rightarrow> nat list \<Rightarrow> nat option" where
  "checked_product a [] = Some a"
| "checked_product a (b # bs) = Option.bind (checked_mul a b) (\<lambda>c. checked_product c bs)"

definition shadow_bytes :: "state_spec \<Rightarrow> nat \<Rightarrow> nat \<Rightarrow> nat state_res" where
  "shadow_bytes spec elements per_layer =
     (if ss_head_dim spec mod 8 \<noteq> 0 then Err (SE_Unsupported ''INT4 head dimension must divide 8'')
      else let packed = elements div 8 * 4 in
        and_then (ok_or (Option.bind (checked_mul (ss_capacity spec) (ss_kv_heads spec)) (\<lambda>x. checked_mul x 4))
          (SE_Bounds ''scale byte overflow'')) (\<lambda>scales.
        and_then (ok_or (checked_mul packed 2) (SE_Bounds ''packed bytes'')) (\<lambda>packed2.
        ok_or (Option.bind (checked_add per_layer packed2) (\<lambda>x.
            Option.bind (checked_mul scales 2) (\<lambda>y. checked_add x y)))
          (SE_Bounds ''shadow byte overflow''))))"

definition spec_budget :: "state_spec \<Rightarrow> nat \<Rightarrow> nat \<Rightarrow> state_budget state_res" where
  "spec_budget spec max_buffer max_total =
     (if ss_kind spec \<noteq> DenseKv then Err (SE_Unsupported (state_kind_debug (ss_kind spec)))
      else if 0 \<in> set [ss_layers spec, ss_kv_heads spec, ss_head_dim spec, ss_capacity spec]
        then Err (SE_Bounds ''zero geometry'')
      else
        and_then (ok_or (checked_product 1 [ss_capacity spec, ss_kv_heads spec, ss_head_dim spec])
          (SE_Bounds ''KV product overflow'')) (\<lambda>elements.
        and_then (ok_or (checked_mul elements 4) (SE_Bounds ''KV byte overflow'')) (\<lambda>byts.
        and_then (ok_or (checked_mul byts 2) (SE_Bounds ''KV byte overflow'')) (\<lambda>per_layer.
        and_then (if ss_precision spec = KP_F32WithInt4Shadow then shadow_bytes spec elements per_layer
          else Ok per_layer) (\<lambda>per_layer.
        and_then (ok_or (checked_mul per_layer (ss_layers spec)) (SE_Bounds ''layer byte overflow'')) (\<lambda>tot.
          if max_buffer < byts \<or> max_total < tot
          then Err (SE_Bounds (''KV budget per-buffer='' @ dec byts @ '', total='' @ dec tot))
          else Ok \<lparr>sb_per_tensor_bytes = byts, sb_total_bytes = tot\<rparr>))))))"

text \<open>The bytes a layer needs, as plain arithmetic.\<close>

definition kv_elements :: "state_spec \<Rightarrow> nat" where
  "kv_elements s = ss_capacity s * ss_kv_heads s * ss_head_dim s"

definition layer_bytes :: "state_spec \<Rightarrow> nat" where
  "layer_bytes s = 2 * (4 * kv_elements s) +
     (if ss_precision s = KP_F32WithInt4Shadow
      then 2 * (kv_elements s div 2) + 2 * (4 * (ss_capacity s * ss_kv_heads s)) else 0)"

lemma checked_product3:
  assumes "0 < a" "0 < b" "0 < c"
  shows "checked_product 1 [a, b, c] = (if a * b * c < u64_range then Some (a * b * c) else None)"
proof (cases "a * b * c < u64_range")
  case True
  have "a * b \<le> a * b * c" "a \<le> a * (b * c)" using assms by simp_all
  with True have "a * b < u64_range" "a < u64_range" by (simp_all only: mult.assoc order_le_less_trans)
  with True show ?thesis by (simp add: checked_mul_def)
next
  case False
  then show ?thesis by (auto simp: checked_mul_def)
qed

lemma packed_bytes: "ss_head_dim s mod 8 = 0 \<Longrightarrow> kv_elements s div 8 * 4 = kv_elements s div 2"
proof -
  assume "ss_head_dim s mod 8 = 0"
  then obtain k where "ss_head_dim s = 8 * k" by auto
  then have "kv_elements s = 8 * (ss_capacity s * ss_kv_heads s * k)" by (simp add: kv_elements_def)
  then show ?thesis by simp
qed

lemma shadow_bytes_Ok:
  "(shadow_bytes s (kv_elements s) per = Ok x) =
   (ss_head_dim s mod 8 = 0 \<and>
    x = per + 2 * (kv_elements s div 2) + 2 * (4 * (ss_capacity s * ss_kv_heads s)) \<and> x < u64_range)"
proof (cases "ss_head_dim s mod 8 = 0")
  case True
  let ?w = "ss_capacity s * ss_kv_heads s"
  show ?thesis unfolding shadow_bytes_def packed_bytes [OF True] Let_def using True
    by (auto simp: bind_eq_Some_conv)
qed (simp add: shadow_bytes_def)

lemma spec_budget_Ok:
  assumes "max_buffer < u64_range" and "max_total < u64_range"
  shows "(spec_budget s max_buffer max_total = Ok b) =
    (ss_kind s = DenseKv \<and> 0 < ss_layers s \<and> 0 < ss_kv_heads s \<and> 0 < ss_head_dim s \<and> 0 < ss_capacity s \<and>
     (ss_precision s = KP_F32WithInt4Shadow \<longrightarrow> ss_head_dim s mod 8 = 0) \<and>
     4 * kv_elements s \<le> max_buffer \<and> ss_layers s * layer_bytes s \<le> max_total \<and>
     b = \<lparr>sb_per_tensor_bytes = 4 * kv_elements s, sb_total_bytes = ss_layers s * layer_bytes s\<rparr>)"
proof (cases "ss_kind s = DenseKv \<and> 0 < ss_layers s \<and> 0 < ss_kv_heads s \<and> 0 < ss_head_dim s \<and> 0 < ss_capacity s")
  case False
  then show ?thesis by (auto simp: spec_budget_def)
next
  case True
  let ?e = "kv_elements s" and ?L = "layer_bytes s" and ?n = "ss_layers s"
  have cp: "checked_product 1 [ss_capacity s, ss_kv_heads s, ss_head_dim s] =
      (if ?e < u64_range then Some ?e else None)"
    using checked_product3 [of "ss_capacity s" "ss_kv_heads s" "ss_head_dim s"] True
    by (simp add: kv_elements_def)
  have L: "(and_then (if ss_precision s = KP_F32WithInt4Shadow then shadow_bytes s ?e (?e * 4 * 2) else Ok (?e * 4 * 2)) k = Ok b) =
      (\<exists>x. k x = Ok b \<and> x = ?L \<and> (ss_precision s = KP_F32WithInt4Shadow \<longrightarrow> ss_head_dim s mod 8 = 0 \<and> x < u64_range))" for k
    by (auto simp: shadow_bytes_Ok layer_bytes_def add.assoc)
  have "?L \<le> ?L * ?n" "?e * 4 * 2 \<le> ?L" using True by (simp_all add: layer_bytes_def)
  then have small: "?e < u64_range \<and> ?e * 4 < u64_range \<and> ?e * 4 * 2 < u64_range \<and> ?L < u64_range \<and> ?L * ?n < u64_range"
    if "?L * ?n \<le> max_total"
  proof -
    have "?L < u64_range" using \<open>?L \<le> ?L * ?n\<close> that assms(2) by linarith
    moreover have "?L * ?n < u64_range" using that assms(2) by simp
    ultimately show ?thesis using \<open>?e * 4 * 2 \<le> ?L\<close> by linarith
  qed
  have "(spec_budget s max_buffer max_total = Ok b) =
      (?e < u64_range \<and> ?e * 4 < u64_range \<and> ?e * 4 * 2 < u64_range \<and>
       (ss_precision s = KP_F32WithInt4Shadow \<longrightarrow> ss_head_dim s mod 8 = 0 \<and> ?L < u64_range) \<and> ?L * ?n < u64_range \<and>
       \<not> max_buffer < ?e * 4 \<and> \<not> max_total < ?L * ?n \<and>
       b = \<lparr>sb_per_tensor_bytes = ?e * 4, sb_total_bytes = ?L * ?n\<rparr>)"
  proof -
    have nz: "0 \<notin> set [?n, ss_kv_heads s, ss_head_dim s, ss_capacity s]" "\<not> ss_kind s \<noteq> DenseKv" using True by simp_all
    have fin: "((if P then Err m else Ok y) = Ok b) = (\<not> P \<and> b = y)" for P y and m :: state_error
      by auto
    show ?thesis
    proof (cases "?e < u64_range \<and> ?e * 4 < u64_range \<and> ?e * 4 * 2 < u64_range")
      case True
      then have o: "ok_or (if ?e < u64_range then Some ?e else None) x = Ok ?e"
        "ok_or (checked_mul ?e 4) x = Ok (?e * 4)" "ok_or (checked_mul (?e * 4) 2) x = Ok (?e * 4 * 2)" for x
        by (simp_all only: ok_or_def checked_mul_def if_True option.case)
      show ?thesis unfolding spec_budget_def if_not_P [OF nz(1)] if_not_P [OF nz(2)] cp o and_then.simps L
        unfolding and_then_eq_Ok ok_or_Ok checked_mul_Some fin de_Morgan_disj using True by (simp add: not_less) (rule iffI; elim conjE; intro conjI; assumption)
    next
      case False
      then show ?thesis unfolding spec_budget_def if_not_P [OF nz(1)] if_not_P [OF nz(2)] cp
        by (simp only: and_then_eq_Ok ok_or_Ok checked_mul_Some if_distrib [of "\<lambda>x. x = Some _"]) auto
    qed
  qed
  then have eq: "(spec_budget s max_buffer max_total = Ok b) =
      (?e < u64_range \<and> ?e * 4 < u64_range \<and> ?e * 4 * 2 < u64_range \<and>
       (ss_precision s = KP_F32WithInt4Shadow \<longrightarrow> ss_head_dim s mod 8 = 0 \<and> ?L < u64_range) \<and> ?L * ?n < u64_range \<and>
       ?e * 4 \<le> max_buffer \<and> ?L * ?n \<le> max_total \<and>
       b = \<lparr>sb_per_tensor_bytes = ?e * 4, sb_total_bytes = ?L * ?n\<rparr>)"
    unfolding not_less .
  show ?thesis unfolding eq mult.commute [of 4 ?e] mult.commute [of ?n ?L]
  proof (cases "?L * ?n \<le> max_total", goal_cases)
    case 1
    then show ?case using True small [OF 1] by (simp only: simp_thms)
  next
    case 2
    then show ?case by (simp only: simp_thms)
  qed
qed

text \<open>
  C25: A budget is granted exactly to a dense state of nonzero geometry, with a head
  dimension that packs into 4 bits where a shadow is kept, whose layers fit the limits; it
  states the exact byte counts, and no intermediate product can overflow unnoticed.
\<close>

theorem budget_exact:
  assumes "max_buffer < u64_range" and "max_total < u64_range"
  shows "(spec_budget s max_buffer max_total = Ok b) =
    (ss_kind s = DenseKv \<and> 0 < ss_layers s \<and> 0 < ss_kv_heads s \<and> 0 < ss_head_dim s \<and> 0 < ss_capacity s \<and>
     (ss_precision s = KP_F32WithInt4Shadow \<longrightarrow> ss_head_dim s mod 8 = 0) \<and>
     4 * kv_elements s \<le> max_buffer \<and> ss_layers s * layer_bytes s \<le> max_total \<and>
     b = \<lparr>sb_per_tensor_bytes = 4 * kv_elements s, sb_total_bytes = ss_layers s * layer_bytes s\<rparr>)"
  by (rule spec_budget_Ok [OF assms])

theorem budget_exact_witness:
  "spec_budget \<lparr>ss_kind = DenseKv, ss_layers = 2, ss_kv_heads = 4, ss_head_dim = 64, ss_capacity = 16,
      ss_precision = KP_F32WithInt4Shadow\<rparr> 16384 80000 =
    Ok \<lparr>sb_per_tensor_bytes = 16384, sb_total_bytes = 74752\<rparr>"
proof -
  have "(16384 :: nat) < u64_range" "(80000 :: nat) < u64_range" by (simp_all add: u64_range_def)
  from budget_exact [OF this] show ?thesis by (simp add: kv_elements_def layer_bytes_def)
qed

section \<open>One lease\<close>

datatype phase = Fresh | Prefill | Ready | Decode | Finished | Aborted

record state_write =
  sw_epoch :: nat
  sw_start :: nat
  sw_count :: nat
  sw_phase :: phase

record state_lease =
  sl_epoch :: nat
  sl_phase :: phase
  sl_processed :: nat
  sl_prompt :: nat
  sl_pending :: "state_write option"
  sl_closed :: bool

definition new_lease :: "nat \<Rightarrow> state_lease" where
  "new_lease epoch = \<lparr>sl_epoch = epoch, sl_phase = Fresh, sl_processed = 0, sl_prompt = 0,
     sl_pending = None, sl_closed = False\<rparr>"

text \<open>Operations take the capacity of the owner's spec and return the lease and the outcome.\<close>

definition start_prefill :: "nat \<Rightarrow> nat \<Rightarrow> state_lease \<Rightarrow> state_lease \<times> unit state_res" where
  "start_prefill capacity tokens l =
     (if sl_phase l \<noteq> Fresh \<or> tokens = 0 \<or> capacity < tokens
      then (l, Err (SE_Phase ''prefill requires fresh lease and fitting nonempty prompt''))
      else (l\<lparr>sl_prompt := tokens, sl_phase := Prefill\<rparr>, Ok ()))"

definition prepare :: "nat \<Rightarrow> nat \<Rightarrow> nat \<Rightarrow> nat \<Rightarrow> state_lease \<Rightarrow> state_lease \<times> state_write state_res" where
  "prepare capacity start count limit l =
     (if sl_closed l \<or> sl_pending l \<noteq> None \<or> count = 0 \<or> start \<noteq> sl_processed l \<or>
         (case checked_add start count of None \<Rightarrow> True | Some n \<Rightarrow> limit < n \<or> capacity < n)
      then (l, Err (SE_Bounds ''write must extend exactly the committed prefix within capacity''))
      else let w = \<lparr>sw_epoch = sl_epoch l, sw_start = start, sw_count = count, sw_phase = sl_phase l\<rparr> in
        (l\<lparr>sl_pending := Some w\<rparr>, Ok w))"

definition prepare_prefill_chunk ::
  "nat \<Rightarrow> nat \<Rightarrow> nat \<Rightarrow> state_lease \<Rightarrow> state_lease \<times> state_write state_res" where
  "prepare_prefill_chunk capacity start count l =
     (if sl_phase l \<noteq> Prefill then (l, Err (SE_Phase ''not prefilling''))
      else prepare capacity start count (sl_prompt l) l)"

definition prepare_decode :: "nat \<Rightarrow> nat \<Rightarrow> state_lease \<Rightarrow> state_lease \<times> state_write state_res" where
  "prepare_decode capacity start l =
     (if sl_phase l \<noteq> Ready then (l, Err (SE_Phase ''decode requires complete prefill''))
      else case prepare capacity start 1 capacity (l\<lparr>sl_phase := Decode\<rparr>) of
        (l', Ok w) \<Rightarrow> (l', Ok w)
      | (l', r) \<Rightarrow> (l'\<lparr>sl_phase := Ready\<rparr>, r))"

definition commit :: "state_write \<Rightarrow> state_lease \<Rightarrow> state_lease \<times> unit state_res" where
  "commit w l =
     (if sl_pending l \<noteq> Some w \<or> sw_epoch w \<noteq> sl_epoch l \<or> sl_closed l then (l, Err SE_Identity)
      else let processed = wadd (sw_start w) (sw_count w);
               l1 = l\<lparr>sl_processed := processed, sl_pending := None\<rparr> in
        (if sl_phase l = Decode \<or> processed = sl_prompt l then l1\<lparr>sl_phase := Ready\<rparr> else l1, Ok ()))"

definition require_read :: "nat \<Rightarrow> nat \<Rightarrow> state_lease \<Rightarrow> unit state_res" where
  "require_read start hi l =
     (if sl_closed l \<or> hi < start \<or> sl_processed l < hi
      then Err (SE_Bounds ''read outside committed prefix'') else Ok ())"

text \<open>\<open>close\<close> also clears the owner's \<open>active\<close> flag, once (\<open>closes\<close> below).\<close>

definition close_lease :: "phase \<Rightarrow> state_lease \<Rightarrow> state_lease" where
  "close_lease ph l =
     (if sl_closed l then l
      else l\<lparr>sl_phase := ph, sl_processed := 0, sl_pending := None, sl_closed := True\<rparr>)"

definition finish :: "state_lease \<Rightarrow> state_lease \<times> unit state_res" where
  "finish l =
     (if sl_phase l \<noteq> Ready \<or> sl_pending l \<noteq> None
      then (l, Err (SE_Phase ''cannot finish incomplete/failed state''))
      else (close_lease Finished l, Ok ()))"

definition abort :: "state_lease \<Rightarrow> state_lease" where
  "abort l = close_lease Aborted l"

definition rollback :: "nat \<Rightarrow> state_lease \<Rightarrow> unit state_res" where
  "rollback positions l = Err (SE_Unsupported ''prefix rollback/checkpoint reuse is not certified'')"

text \<open>Dropping a lease aborts it if it is still open.\<close>

definition drop_lease :: "state_lease \<Rightarrow> state_lease" where
  "drop_lease l = (if sl_closed l then l else abort l)"

datatype lease_op =
    LO_Start_Prefill nat
  | LO_Prepare_Chunk nat nat
  | LO_Prepare_Decode nat
  | LO_Commit state_write
  | LO_Finish
  | LO_Abort
  | LO_Drop

fun lease_step :: "nat \<Rightarrow> lease_op \<Rightarrow> state_lease \<Rightarrow> state_lease" where
  "lease_step capacity (LO_Start_Prefill n) l = fst (start_prefill capacity n l)"
| "lease_step capacity (LO_Prepare_Chunk s n) l = fst (prepare_prefill_chunk capacity s n l)"
| "lease_step capacity (LO_Prepare_Decode s) l = fst (prepare_decode capacity s l)"
| "lease_step capacity (LO_Commit w) l = fst (commit w l)"
| "lease_step capacity LO_Finish l = fst (finish l)"
| "lease_step capacity LO_Abort l = abort l"
| "lease_step capacity LO_Drop l = drop_lease l"

section \<open>The invariant of a lease\<close>

definition pending_ok :: "nat \<Rightarrow> state_lease \<Rightarrow> bool" where
  "pending_ok limit l =
     (case sl_pending l of None \<Rightarrow> True
      | Some w \<Rightarrow> sw_epoch w = sl_epoch l \<and> sw_start w = sl_processed l \<and> 0 < sw_count w \<and>
          sw_phase w = sl_phase l \<and> sw_start w + sw_count w \<le> limit)"

definition lease_inv :: "nat \<Rightarrow> state_lease \<Rightarrow> bool" where
  "lease_inv capacity l =
     (case sl_phase l of
        Fresh \<Rightarrow> \<not> sl_closed l \<and> sl_processed l = 0 \<and> sl_prompt l = 0 \<and> sl_pending l = None
      | Prefill \<Rightarrow> \<not> sl_closed l \<and> sl_processed l < sl_prompt l \<and> sl_prompt l \<le> capacity \<and> pending_ok (sl_prompt l) l
      | Ready \<Rightarrow> \<not> sl_closed l \<and> 0 < sl_prompt l \<and> sl_prompt l \<le> sl_processed l \<and> sl_processed l \<le> capacity \<and> sl_pending l = None
      | Decode \<Rightarrow> \<not> sl_closed l \<and> 0 < sl_prompt l \<and> sl_prompt l \<le> sl_processed l \<and> pending_ok capacity l \<and>
          (\<exists>w. sl_pending l = Some w \<and> sw_count w = 1)
      | Finished \<Rightarrow> sl_closed l \<and> sl_processed l = 0 \<and> sl_pending l = None
      | Aborted \<Rightarrow> sl_closed l \<and> sl_processed l = 0 \<and> sl_pending l = None)"

lemma lease_inv_new: "lease_inv capacity (new_lease epoch)"
  by (simp add: lease_inv_def new_lease_def)

lemma lease_inv_bounds:
  "lease_inv capacity l \<Longrightarrow> sl_processed l \<le> capacity"
  "lease_inv capacity l \<Longrightarrow> sl_closed l = (sl_phase l = Finished \<or> sl_phase l = Aborted)"
  by (auto simp: lease_inv_def pending_ok_def split: phase.splits)

lemma lease_step_inv:
  assumes "capacity < u64_range" and "lease_inv capacity l"
  shows "lease_inv capacity (lease_step capacity op l)"
proof (cases op)
  case (LO_Start_Prefill n)
  with assms show ?thesis
    by (auto simp: start_prefill_def lease_inv_def pending_ok_def split: phase.splits)
next
  case (LO_Prepare_Chunk s n)
  with assms show ?thesis
    by (auto simp: prepare_prefill_chunk_def prepare_def Let_def lease_inv_def pending_ok_def
        split: phase.splits option.splits)
next
  case (LO_Prepare_Decode s)
  with assms show ?thesis
    by (auto simp: prepare_decode_def prepare_def Let_def lease_inv_def pending_ok_def
        split: phase.splits option.splits)
next
  case (LO_Commit w)
  with assms show ?thesis
    by (auto simp: commit_def Let_def lease_inv_def pending_ok_def split: phase.splits option.splits)
qed (use assms in \<open>auto simp: finish_def abort_def drop_lease_def close_lease_def lease_inv_def
    split: phase.splits\<close>)

lemma run_lease_inv:
  "capacity < u64_range \<Longrightarrow> lease_inv capacity l \<Longrightarrow> lease_inv capacity (run_ops (lease_step capacity) ops l)"
  by (induction ops arbitrary: l) (simp_all add: lease_step_inv)

lemma closed_stays: "sl_closed l \<Longrightarrow> lease_inv capacity l \<Longrightarrow> lease_step capacity op l = l"
  by (cases op) (auto simp: lease_inv_def start_prefill_def prepare_prefill_chunk_def prepare_decode_def
      commit_def finish_def abort_def drop_lease_def close_lease_def split: phase.splits)

section \<open>What has been committed\<close>

text \<open>The positions of the writes committed by a sequence of operations, in order.\<close>

fun committed :: "nat \<Rightarrow> lease_op list \<Rightarrow> state_lease \<Rightarrow> nat list" where
  "committed capacity [] l = []"
| "committed capacity (op # ops) l =
     (case op of
        LO_Commit w \<Rightarrow> (if snd (commit w l) = Ok () then [sw_start w..<sw_start w + sw_count w] else [])
      | _ \<Rightarrow> []) @ committed capacity ops (lease_step capacity op l)"

lemma commit_ok:
  assumes "lease_inv capacity l" "capacity < u64_range" "snd (commit w l) = Ok ()"
  shows "sw_start w = sl_processed l" "sl_processed (fst (commit w l)) = sl_processed l + sw_count w"
  using assms by (auto simp: commit_def Let_def lease_inv_def pending_ok_def split: if_splits phase.splits)

lemma step_processed:
  assumes "\<not> sl_closed (lease_step capacity op l)" and "\<forall>w. op = LO_Commit w \<longrightarrow> snd (commit w l) \<noteq> Ok ()"
  shows "sl_processed (lease_step capacity op l) = sl_processed l"
  using assms
  by (cases op) (auto simp: start_prefill_def prepare_prefill_chunk_def prepare_decode_def prepare_def
      commit_def Let_def finish_def abort_def drop_lease_def close_lease_def split: if_splits)

lemma committed_prefix:
  assumes "capacity < u64_range" "lease_inv capacity l"
    and "\<not> sl_closed (run_ops (lease_step capacity) ops l)"
  shows "committed capacity ops l = [sl_processed l..<sl_processed (run_ops (lease_step capacity) ops l)] \<and>
    sl_processed l \<le> sl_processed (run_ops (lease_step capacity) ops l)"
  using assms(2,3)
proof (induction ops arbitrary: l)
  case (Cons op ops)
  let ?l = "lease_step capacity op l"
  have inv: "lease_inv capacity ?l" by (rule lease_step_inv [OF assms(1) Cons.prems(1)])
  have run: "\<not> sl_closed (run_ops (lease_step capacity) ops ?l)" using Cons.prems(2) by simp
  note IH = Cons.IH [OF inv run]
  have open': "\<not> sl_closed ?l"
  proof
    assume c: "sl_closed ?l"
    have "run_ops (lease_step capacity) ops ?l = ?l"
      using closed_stays [OF c inv] by (induction ops) simp_all
    with run c show False by simp
  qed
  show ?case
  proof (cases "\<exists>w. op = LO_Commit w \<and> snd (commit w l) = Ok ()")
    case True
    then obtain w where w: "op = LO_Commit w" "snd (commit w l) = Ok ()" by blast
    with IH commit_ok [OF Cons.prems(1) assms(1) w(2)] show ?thesis
      by (simp add: upt_add_eq_append [symmetric] le_iff_add) (metis add.assoc upt_add_eq_append le_add1)
  next
    case False
    then have "sl_processed ?l = sl_processed l" by (intro step_processed [OF open']) blast
    with False IH show ?thesis by (auto split: lease_op.splits)
  qed
qed simp

text \<open>
  C7: Whatever operations a request performs on its lease, the positions it has committed
  are exactly \<open>0 .. processed - 1\<close>, each once and in order, never beyond the capacity, and a
  read is allowed exactly inside them; a closed lease allows no read.
\<close>

theorem committed_prefix_readable:
  assumes "capacity < u64_range"
  shows "(let l = run_ops (lease_step capacity) ops (new_lease epoch) in
    sl_processed l \<le> capacity \<and>
    (if sl_closed l then require_read start hi l \<noteq> Ok ()
     else committed capacity ops (new_lease epoch) = [0..<sl_processed l] \<and>
       (require_read start hi l = Ok ()) =
         (start \<le> hi \<and> (\<forall>p \<in> {start..<hi}. p \<in> set (committed capacity ops (new_lease epoch))) \<and>
          hi \<le> sl_processed l)))"
proof -
  let ?l = "run_ops (lease_step capacity) ops (new_lease epoch)"
  have inv: "lease_inv capacity ?l" by (rule run_lease_inv [OF assms lease_inv_new])
  have "committed capacity ops (new_lease epoch) = [0..<sl_processed ?l]" if "\<not> sl_closed ?l"
    using committed_prefix [OF assms lease_inv_new that] by (simp add: new_lease_def)
  then show ?thesis using lease_inv_bounds(1) [OF inv]
    by (auto simp: Let_def require_read_def)
qed

theorem committed_prefix_readable_witness:
  "(let w = \<lparr>sw_epoch = 1, sw_start = 0, sw_count = 2, sw_phase = Prefill\<rparr>;
        ops = [LO_Start_Prefill 2, LO_Prepare_Chunk 0 2, LO_Commit w];
        l = run_ops (lease_step 8) ops (new_lease 1) in
    \<not> sl_closed l \<and> committed 8 ops (new_lease 1) = [0..<2] \<and> require_read 0 2 l = Ok ())"
proof -
  let ?ops = "[LO_Start_Prefill 2, LO_Prepare_Chunk 0 2,
    LO_Commit \<lparr>sw_epoch = 1, sw_start = 0, sw_count = 2, sw_phase = Prefill\<rparr>]"
  have l: "run_ops (lease_step 8) ?ops (new_lease 1) =
      \<lparr>sl_epoch = 1, sl_phase = Ready, sl_processed = 2, sl_prompt = 2, sl_pending = None, sl_closed = False\<rparr>"
    by (simp add: start_prefill_def new_lease_def prepare_prefill_chunk_def prepare_def commit_def
        checked_add_def wadd_def u64_range_def Let_def)
  have "(8 :: nat) < u64_range" by (simp add: u64_range_def)
  from committed_prefix_readable [OF this, of ?ops 1 0 2] show ?thesis
    unfolding l Let_def by (simp add: require_read_def)
qed

section \<open>The controller and its threads\<close>

text \<open>
  \<open>begin\<close> is two atomic steps: the compare-exchange on \<open>active\<close> and the checked increment of
  \<open>epoch\<close>. \<open>cw_starting\<close> counts the threads between the two. The leases handed out are kept
  in order of creation.
\<close>

record controller =
  cw_identity :: state_identity
  cw_capacity :: nat
  cw_epoch :: nat
  cw_active :: bool
  cw_starting :: nat
  cw_leases :: "state_lease list"

definition new_controller :: "state_identity \<Rightarrow> state_spec \<Rightarrow> controller state_res" where
  "new_controller ident spec =
     and_then (spec_budget spec (u64_range - 1) (u64_range - 1)) (\<lambda>_.
       Ok \<lparr>cw_identity = ident, cw_capacity = ss_capacity spec, cw_epoch = 0, cw_active = False,
            cw_starting = 0, cw_leases = []\<rparr>)"

definition begin_acquire :: "controller \<Rightarrow> controller \<times> unit state_res" where
  "begin_acquire c =
     (if cw_active c then (c, Err SE_Busy)
      else (c\<lparr>cw_active := True, cw_starting := cw_starting c + 1\<rparr>, Ok ()))"

definition begin_epoch :: "controller \<Rightarrow> controller \<times> unit state_res" where
  "begin_epoch c =
     (case checked_add (cw_epoch c) 1 of
        Some e \<Rightarrow> (c\<lparr>cw_epoch := e, cw_starting := cw_starting c - 1,
          cw_leases := cw_leases c @ [new_lease e]\<rparr>, Ok ())
      | None \<Rightarrow> (c\<lparr>cw_active := False, cw_starting := cw_starting c - 1\<rparr>, Err SE_Epoch))"

text \<open>An operation on the \<open>i\<close>-th lease; closing it releases the controller.\<close>

definition lease_call :: "nat \<Rightarrow> lease_op \<Rightarrow> controller \<Rightarrow> controller" where
  "lease_call i op c =
     (let l = cw_leases c ! i; l' = lease_step (cw_capacity c) op l in
      c\<lparr>cw_leases := (cw_leases c)[i := l'],
        cw_active := (if sl_closed l' \<and> \<not> sl_closed l then False else cw_active c)\<rparr>)"

definition check_identity :: "state_identity \<Rightarrow> controller \<Rightarrow> state_lease \<Rightarrow> unit state_res" where
  "check_identity expected c l =
     (if cw_identity c \<noteq> expected \<or> cw_epoch c \<noteq> sl_epoch l \<or> sl_closed l then Err SE_Identity else Ok ())"

inductive controller_step :: "controller \<Rightarrow> controller \<Rightarrow> bool" where
  acquire: "controller_step c (fst (begin_acquire c))"
| enter: "0 < cw_starting c \<Longrightarrow> controller_step c (fst (begin_epoch c))"
| call: "i < length (cw_leases c) \<Longrightarrow> controller_step c (lease_call i op c)"

inductive controller_reachable :: "controller \<Rightarrow> bool" where
  initial: "new_controller ident spec = Ok c \<Longrightarrow> controller_reachable c"
| step: "controller_reachable c \<Longrightarrow> controller_step c d \<Longrightarrow> controller_reachable d"

definition open_leases :: "controller \<Rightarrow> nat" where
  "open_leases c = length (filter (\<lambda>l. \<not> sl_closed l) (cw_leases c))"

definition controller_inv :: "controller \<Rightarrow> bool" where
  "controller_inv c =
     (cw_starting c + open_leases c = (if cw_active c then 1 else 0) \<and>
      sorted_wrt (<) (map sl_epoch (cw_leases c)) \<and>
      (\<forall>l \<in> set (cw_leases c). sl_epoch l \<le> cw_epoch c \<and> (\<not> sl_closed l \<longrightarrow> sl_epoch l = cw_epoch c) \<and>
        lease_inv (cw_capacity c) l) \<and>
      cw_capacity c < u64_range)"

lemma budget_capacity: "spec_budget s a b = Ok x \<Longrightarrow> ss_capacity s < u64_range"
  by (auto simp: spec_budget_def checked_mul_def ok_or_def bind_eq_Some_conv split: if_splits)

lemma lease_step_epoch: "sl_epoch (lease_step cap op l) = sl_epoch l"
  by (cases op) (auto simp: start_prefill_def prepare_prefill_chunk_def prepare_decode_def prepare_def
      commit_def Let_def finish_def abort_def drop_lease_def close_lease_def)

lemma open_leases_update:
  "i < length ls \<Longrightarrow>
   length (filter P (ls[i := x])) + (if P (ls ! i) then 1 else 0) = length (filter P ls) + (if P x then 1 else 0)"
proof (induction ls arbitrary: i)
  case (Cons l ls)
  then show ?case by (cases i) auto
qed simp

lemma controller_step_inv:
  assumes "controller_step c d" and "controller_inv c"
  shows "controller_inv d"
  using assms
proof cases
  case acquire
  with assms(2) show ?thesis
    by (simp add: begin_acquire_def controller_inv_def open_leases_def)
next
  case enter
  from assms(2) enter(2) have st: "cw_starting c = 1" "open_leases c = 0" "cw_active c"
    by (auto simp: controller_inv_def split: if_splits)
  show ?thesis
  proof (cases "cw_epoch c + 1 < u64_range")
    case True
    have all: "\<forall>l \<in> set (cw_leases c). sl_epoch l \<le> cw_epoch c \<and> sl_closed l \<and> lease_inv (cw_capacity c) l"
      using assms(2) st(2) by (auto simp: controller_inv_def open_leases_def filter_empty_conv)
    then have none: "filter (\<lambda>l. \<not> sl_closed l) (cw_leases c) = []" by (auto simp: filter_empty_conv)
    have d: "d = c\<lparr>cw_epoch := cw_epoch c + 1, cw_starting := cw_starting c - 1,
        cw_leases := cw_leases c @ [new_lease (cw_epoch c + 1)]\<rparr>"
      using True enter(1) by (simp add: begin_epoch_def checked_add_def)
    have "sorted_wrt (<) (map sl_epoch (cw_leases c))" "cw_capacity c < u64_range"
      using assms(2) by (simp_all add: controller_inv_def)
    then show ?thesis unfolding d controller_inv_def open_leases_def using all none st
      by (auto simp: sorted_wrt_append lease_inv_new less_Suc_eq_le) (auto simp: new_lease_def)
  next
    case False
    with enter(1) assms(2) st show ?thesis
      by (simp add: begin_epoch_def checked_add_def controller_inv_def open_leases_def)
  qed
next
  case (call i op)
  let ?l = "cw_leases c ! i" and ?l' = "lease_step (cw_capacity c) op (cw_leases c ! i)"
  have mem: "?l \<in> set (cw_leases c)" using call(2) by simp
  have inv': "lease_inv (cw_capacity c) ?l'"
    using assms(2) mem by (intro lease_step_inv) (auto simp: controller_inv_def)
  have stay: "sl_closed ?l \<Longrightarrow> ?l' = ?l"
    using assms(2) mem by (intro closed_stays) (auto simp: controller_inv_def)
  have epochs: "map sl_epoch ((cw_leases c)[i := ?l']) = map sl_epoch (cw_leases c)"
  proof (rule nth_equalityI)
    fix k assume "k < length (map sl_epoch ((cw_leases c)[i := ?l']))"
    then show "map sl_epoch ((cw_leases c)[i := ?l']) ! k = map sl_epoch (cw_leases c) ! k"
      by (cases "k = i") (simp_all add: lease_step_epoch)
  qed simp
  have n: "length (filter (\<lambda>l. \<not> sl_closed l) ((cw_leases c)[i := ?l'])) + (if \<not> sl_closed ?l then 1 else 0) =
      open_leases c + (if \<not> sl_closed ?l' then 1 else 0)"
    unfolding open_leases_def by (rule open_leases_update [OF call(2)])
  have all: "\<forall>l \<in> set ((cw_leases c)[i := ?l']). sl_epoch l \<le> cw_epoch c \<and>
      (\<not> sl_closed l \<longrightarrow> sl_epoch l = cw_epoch c) \<and> lease_inv (cw_capacity c) l"
  proof
    fix l assume "l \<in> set ((cw_leases c)[i := ?l'])"
    then have "l = ?l' \<or> l \<in> set (cw_leases c)" by (auto dest!: set_update_subset_insert [THEN subsetD])
    with assms(2) mem inv' stay show "sl_epoch l \<le> cw_epoch c \<and>
      (\<not> sl_closed l \<longrightarrow> sl_epoch l = cw_epoch c) \<and> lease_inv (cw_capacity c) l"
      by (auto simp: controller_inv_def lease_step_epoch)
  qed
  have cnt: "cw_starting c + open_leases c = (if cw_active c then 1 else 0)"
    using assms(2) by (simp add: controller_inv_def)
  define N where "N = length (filter (\<lambda>l. \<not> sl_closed l) ((cw_leases c)[i := ?l']))"
  have "cw_starting c + N = (if (if sl_closed ?l' \<and> \<not> sl_closed ?l then False else cw_active c) then 1 else 0)"
    using n cnt stay unfolding N_def [symmetric] by (auto split: if_splits)
  then have "cw_starting c + length (filter (\<lambda>l. \<not> sl_closed l) ((cw_leases c)[i := ?l'])) =
      (if (if sl_closed ?l' \<and> \<not> sl_closed ?l then False else cw_active c) then 1 else 0)"
    by (simp only: N_def)
  with all epochs assms(2) show ?thesis
    unfolding call(1) controller_inv_def open_leases_def lease_call_def Let_def by simp
qed

lemma reachable_inv: "controller_reachable c \<Longrightarrow> controller_inv c"
proof (induction rule: controller_reachable.induct)
  case (initial ident spec c)
  then show ?case by (auto simp: new_controller_def controller_inv_def open_leases_def intro: budget_capacity)
qed (rule controller_step_inv)

lemma open_unique:
  assumes "length (filter P ls) \<le> 1" "i < length ls" "j < length ls" "P (ls ! i)" "P (ls ! j)"
  shows "i = j"
proof (rule ccontr)
  assume ne: "i \<noteq> j"
  have "card {k. k < length ls \<and> P (ls ! k)} = length (filter P ls)"
    by (simp add: length_filter_conv_card)
  moreover have "card {i, j} \<le> card {k. k < length ls \<and> P (ls ! k)}"
    using assms by (intro card_mono) auto
  ultimately show False using ne assms(1) by simp
qed

text \<open>
  C6: However the atomic steps of the threads interleave, at most one lease is open at any
  time, every lease has an epoch of its own, and the identity check accepts a lease exactly
  when it is the open one and the identity matches: a stale lease is never accepted.
\<close>

theorem lease_exclusive:
  assumes "controller_reachable c" and "i < length (cw_leases c)" and "j < length (cw_leases c)"
  shows "(\<not> sl_closed (cw_leases c ! i) \<and> \<not> sl_closed (cw_leases c ! j) \<longrightarrow> i = j) \<and>
    (sl_epoch (cw_leases c ! i) = sl_epoch (cw_leases c ! j) \<longrightarrow> i = j) \<and>
    (check_identity expected c (cw_leases c ! i) = Ok ()) =
      (\<not> sl_closed (cw_leases c ! i) \<and> expected = cw_identity c) \<and>
    (\<not> sl_closed (cw_leases c ! i) \<longrightarrow> cw_active c \<and> snd (begin_acquire c) = Err SE_Busy)"
proof -
  have inv: "controller_inv c" by (rule reachable_inv [OF assms(1)])
  have le: "open_leases c \<le> 1" and act: "0 < open_leases c \<longrightarrow> cw_active c"
    using inv by (auto simp: controller_inv_def split: if_splits)
  have "i = j" if "\<not> sl_closed (cw_leases c ! i)" "\<not> sl_closed (cw_leases c ! j)"
    by (rule open_unique [OF le [unfolded open_leases_def] assms(2,3)]) (use that in simp_all)
  moreover have "i = j" if e: "sl_epoch (cw_leases c ! i) = sl_epoch (cw_leases c ! j)"
  proof -
    have "distinct (map sl_epoch (cw_leases c))"
      using inv strict_sorted_iff by (auto simp: controller_inv_def)
    with e assms(2,3) show ?thesis by (auto simp: distinct_conv_nth)
  qed
  moreover have "cw_epoch c = sl_epoch (cw_leases c ! i)" if "\<not> sl_closed (cw_leases c ! i)"
    using inv that nth_mem [OF assms(2)] by (auto simp: controller_inv_def)
  moreover have "cw_active c" if "\<not> sl_closed (cw_leases c ! i)"
  proof -
    have "filter (\<lambda>l. \<not> sl_closed l) (cw_leases c) \<noteq> []"
      using that nth_mem [OF assms(2)] by (auto simp: filter_empty_conv)
    with act show ?thesis by (simp add: open_leases_def)
  qed
  ultimately show ?thesis by (auto simp: check_identity_def begin_acquire_def)
qed

definition sample_identity :: state_identity where
  "sample_identity = \<lparr>si_model_sha256 = ''m'', si_plan_sha256 = ''p''\<rparr>"

definition sample_spec :: state_spec where
  "sample_spec = \<lparr>ss_kind = DenseKv, ss_layers = 1, ss_kv_heads = 1, ss_head_dim = 1, ss_capacity = 4,
     ss_precision = KP_F32\<rparr>"

definition sample_controller :: controller where
  "sample_controller = \<lparr>cw_identity = sample_identity, cw_capacity = 4, cw_epoch = 2, cw_active = True,
     cw_starting = 0, cw_leases = [abort (new_lease 1), new_lease 2]\<rparr>"

lemma sample_reachable: "controller_reachable sample_controller"
proof -
  let ?c0 = "\<lparr>cw_identity = sample_identity, cw_capacity = 4, cw_epoch = 0, cw_active = False,
    cw_starting = 0, cw_leases = []\<rparr>"
  have "new_controller sample_identity sample_spec = Ok ?c0"
    by (simp add: new_controller_def spec_budget_def sample_spec_def checked_mul_def ok_or_def u64_range_def Let_def)
  note r0 = controller_reachable.initial [OF this]
  note r1 = controller_reachable.step [OF r0 controller_step.acquire]
  have e1: "0 < cw_starting (fst (begin_acquire ?c0))" by (simp add: begin_acquire_def)
  note r2 = controller_reachable.step [OF r1 controller_step.enter [OF e1]]
  let ?c2 = "fst (begin_epoch (fst (begin_acquire ?c0)))"
  have e2: "0 < length (cw_leases ?c2)"
    by (simp add: begin_acquire_def begin_epoch_def checked_add_def u64_range_def)
  note r3 = controller_reachable.step [OF r2 controller_step.call [OF e2, of LO_Abort]]
  let ?c3 = "lease_call 0 LO_Abort ?c2"
  note r4 = controller_reachable.step [OF r3 controller_step.acquire]
  have e4: "0 < cw_starting (fst (begin_acquire ?c3))"
    by (simp add: begin_acquire_def begin_epoch_def checked_add_def u64_range_def lease_call_def Let_def
        abort_def close_lease_def new_lease_def)
  note r5 = controller_reachable.step [OF r4 controller_step.enter [OF e4]]
  moreover have "fst (begin_epoch (fst (begin_acquire ?c3))) = sample_controller"
    by (simp add: begin_acquire_def begin_epoch_def checked_add_def u64_range_def lease_call_def Let_def
        abort_def close_lease_def new_lease_def sample_controller_def)
  ultimately show ?thesis by simp
qed

theorem lease_exclusive_witness:
  "check_identity sample_identity sample_controller (cw_leases sample_controller ! 1) = Ok () \<and>
   check_identity sample_identity sample_controller (cw_leases sample_controller ! 0) \<noteq> Ok ()"
proof -
  have "0 < length (cw_leases sample_controller)" "1 < length (cw_leases sample_controller)"
    by (simp_all add: sample_controller_def)
  from lease_exclusive [OF sample_reachable this(2,1), of sample_identity]
    lease_exclusive [OF sample_reachable this(1,1), of sample_identity]
  show ?thesis by (simp add: sample_controller_def abort_def close_lease_def new_lease_def)
qed

end
