(* ===== verification/Operators.thy ===== *)
theory Operators
  imports Manifest Float_Div State_Lease
begin

text \<open>
  \<open>src/src/execution/operators.rs\<close>: the contracts of the dense operators, their shape
  inference and the validation in front of the existing kernels. A \<open>usize\<close> dimension is a
  \<open>nat\<close>; products and sums are the code's checked ones.
\<close>

datatype precision = Prec_F32

datatype norm_kind = Norm_Rms | Norm_Layer

datatype affine_scale = Scale_Weight | Scale_OnePlusWeight

datatype activation = Act_Silu | Act_GeluTanh

datatype pairing = Pair_Adjacent | Pair_SplitHalf

datatype operator_error =
    OE_Shape string
  | OE_Bounds string
  | OE_Precision string
  | OE_Unsupported string
  | OE_Parameter string

type_synonym 'a op_res = "(operator_error, 'a) res"

record tensor_view =
  tv_name :: string
  tv_dimensions :: "nat list"
  tv_ggml_type :: nat
  tv_offset :: nat
  tv_bytes :: nat

definition view_activation :: "string \<Rightarrow> nat list \<Rightarrow> tensor_view op_res" where
  "view_activation name dimensions =
     (if dimensions = [] \<or> 0 \<in> set dimensions then Err (OE_Shape name)
      else and_then (ok_or (checked_product 1 dimensions) (OE_Bounds name)) (\<lambda>count.
           and_then (ok_or (checked_mul count 4) (OE_Bounds name)) (\<lambda>bytes.
           Ok \<lparr>tv_name = name, tv_dimensions = dimensions, tv_ggml_type = 0, tv_offset = 0,
                tv_bytes = bytes\<rparr>)))"

text \<open>The conversions of the dimensions to \<open>usize\<close> cannot fail on a 64-bit target.\<close>

definition view_weight :: "tensor_descriptor \<Rightarrow> nat \<Rightarrow> tensor_view op_res" where
  "view_weight t file_bytes =
     and_then (ok_or (checked_add (td_absolute_offset t) (td_byte_len t)) (OE_Bounds (td_name t))) (\<lambda>stop.
     if file_bytes < stop then Err (OE_Bounds (td_name t))
     else if td_dimensions t = [] \<or> 0 \<in> set (td_dimensions t) then Err (OE_Shape (td_name t))
     else Ok \<lparr>tv_name = td_name t, tv_dimensions = td_dimensions t, tv_ggml_type = td_ggml_type t,
               tv_offset = td_absolute_offset t, tv_bytes = td_byte_len t\<rparr>)"

definition require_f32 :: "tensor_view \<Rightarrow> unit op_res" where
  "require_f32 t = (if tv_ggml_type t = 0 then Ok () else Err (OE_Precision (tv_name t)))"

datatype state_effects =
    Eff_None
  | Eff_ReadDenseKv nat
  | Eff_WriteDenseKv nat nat

datatype operator_contract =
    OC_Norm norm_kind f32 affine_scale bool
  | OC_Linear bool
  | OC_HeadNorm nat nat f32
  | OC_RelativeRopeAttention nat nat nat nat f32 pairing f32 "f32 option" nat
      \<comment> \<open>query_heads, kv_heads, head_dim, rope_dim, base, pairing, scale, softcap, query_start\<close>
  | OC_GateMultiply activation
  | OC_ResidualAdd
  | OC_CacheWrite nat nat nat
  | OC_Unsupported string

record output_contract =
  out_dimensions :: "nat list"
  out_precision :: precision
  out_effects :: state_effects

definition positive :: "string \<Rightarrow> f32 \<Rightarrow> unit op_res" where
  "positive name x = (if f32_is_finite x \<and> f32_lt 0 x then Ok () else Err (OE_Parameter name))"

definition arity :: "tensor_view list \<Rightarrow> nat \<Rightarrow> unit op_res" where
  "arity inputs n =
     (if length inputs = n then Ok ()
      else Err (OE_Shape (''expected '' @ dec n @ '' inputs, got '' @ dec (length inputs))))"

definition shape :: "tensor_view \<Rightarrow> nat list \<Rightarrow> unit op_res" where
  "shape t expected =
     (if tv_dimensions t = expected then Ok ()
      else Err (OE_Shape (tv_name t @ '' expected '' @ debug_dims expected @ '', got '' @
             debug_dims (tv_dimensions t))))"

section \<open>Shape inference\<close>

definition infer_norm :: "f32 \<Rightarrow> bool \<Rightarrow> tensor_view list \<Rightarrow> nat list op_res" where
  "infer_norm epsilon bias inputs =
     and_then (arity inputs (2 + (if bias then 1 else 0))) (\<lambda>_.
     and_then (positive ''norm epsilon'' epsilon) (\<lambda>_.
     and_then (idx inputs 0) (\<lambda>x.
     and_then (require_f32 x) (\<lambda>_.
     and_then (idx inputs 1) (\<lambda>w.
     and_then (require_f32 w) (\<lambda>_.
     if tv_dimensions x = [] then Err (OE_Shape (tv_name x))
     else let width = last (tv_dimensions x) in
     and_then (shape w [width]) (\<lambda>_.
     and_then (if bias then and_then (idx inputs 2) (\<lambda>b. and_then (require_f32 b) (\<lambda>_. shape b [width]))
               else Ok ()) (\<lambda>_.
     Ok (tv_dimensions x)))))))))"

definition linear_type_ok :: "nat \<Rightarrow> bool" where
  "linear_type_ok t = (t = 0 \<or> t = 1 \<or> t = 2 \<or> t = 6 \<or> t = 8 \<or> t = 12 \<or> t = 13 \<or> t = 14)"

definition infer_linear :: "bool \<Rightarrow> tensor_view list \<Rightarrow> nat list op_res" where
  "infer_linear bias inputs =
     and_then (arity inputs (2 + (if bias then 1 else 0))) (\<lambda>_.
     and_then (idx inputs 0) (\<lambda>x.
     and_then (idx inputs 1) (\<lambda>w.
     and_then (require_f32 x) (\<lambda>_.
     if length (tv_dimensions x) \<noteq> 2 \<or> length (tv_dimensions w) \<noteq> 2 then
       Err (OE_Shape ''linear expects activation [batch,input] and GGUF weight [input,output]'')
     else if tv_dimensions x ! 1 \<noteq> tv_dimensions w ! 0 then
       Err (OE_Shape ''linear inner dimensions differ'')
     else if \<not> linear_type_ok (tv_ggml_type w) then
       Err (OE_Unsupported (''linear GGML type '' @ dec (tv_ggml_type w)))
     else
     and_then (if bias then and_then (idx inputs 2) (\<lambda>b. and_then (require_f32 b) (\<lambda>_. shape b [tv_dimensions w ! 1]))
               else Ok ()) (\<lambda>_.
     Ok [tv_dimensions x ! 0, tv_dimensions w ! 1])))))"

definition infer_head_norm :: "nat \<Rightarrow> nat \<Rightarrow> f32 \<Rightarrow> tensor_view list \<Rightarrow> nat list op_res" where
  "infer_head_norm heads head_dim epsilon inputs =
     and_then (arity inputs 2) (\<lambda>_.
     and_then (positive ''head norm epsilon'' epsilon) (\<lambda>_.
     and_then (idx inputs 0) (\<lambda>x.
     and_then (require_f32 x) (\<lambda>_.
     and_then (idx inputs 1) (\<lambda>w.
     and_then (require_f32 w) (\<lambda>_.
     if heads = 0 \<or> head_dim = 0 \<or> length (tv_dimensions x) \<noteq> 3 \<or> tl (tv_dimensions x) \<noteq> [heads, head_dim] then
       Err (OE_Shape ''head norm expects [batch,heads,head_dim]'')
     else
     and_then (shape w [head_dim]) (\<lambda>_.
     Ok (tv_dimensions x))))))))"

definition infer_attention ::
    "nat \<Rightarrow> nat \<Rightarrow> nat \<Rightarrow> nat \<Rightarrow> f32 \<Rightarrow> f32 \<Rightarrow> f32 option \<Rightarrow> nat \<Rightarrow> tensor_view list \<Rightarrow>
     (nat list \<times> state_effects) op_res" where
  "infer_attention query_heads kv_heads head_dim rope_dim base scale softcap query_start inputs =
     and_then (arity inputs 3) (\<lambda>_.
     and_then (positive ''rope base'' base) (\<lambda>_.
     and_then (positive ''attention scale'' scale) (\<lambda>_.
     and_then (case softcap of None \<Rightarrow> Ok () | Some cap \<Rightarrow> positive ''softcap'' cap) (\<lambda>_.
     if kv_heads = 0 \<or> query_heads = 0 \<or> head_dim = 0 \<or> query_heads mod kv_heads \<noteq> 0 \<or>
        rope_dim = 0 \<or> rope_dim mod 2 \<noteq> 0 \<or> head_dim < rope_dim then
       Err (OE_Parameter ''invalid attention geometry'')
     else
     and_then (for_each require_f32 inputs) (\<lambda>_.
     and_then (idx inputs 0) (\<lambda>q.
     and_then (idx inputs 1) (\<lambda>k.
     and_then (idx inputs 2) (\<lambda>v.
     if length (tv_dimensions q) \<noteq> 3 \<or> length (tv_dimensions k) \<noteq> 3 then
       Err (OE_Shape ''attention expects rank 3 Q/K/V'')
     else let batch = tv_dimensions q ! 0; positions = tv_dimensions k ! 0 in
     and_then (shape q [batch, query_heads, head_dim]) (\<lambda>_.
     and_then (shape k [positions, kv_heads, head_dim]) (\<lambda>_.
     and_then (shape v (tv_dimensions k)) (\<lambda>_.
     if checked_add query_start batch \<noteq> Some positions then
       Err (OE_Bounds ''causal query extent must equal initialized KV extent'')
     else Ok ([batch, query_heads, head_dim], Eff_ReadDenseKv positions))))))))))))"

text \<open>\<open>GateMultiply\<close> and \<open>ResidualAdd\<close>: two F32 operands of one shape.\<close>

definition infer_pointwise :: "tensor_view list \<Rightarrow> nat list op_res" where
  "infer_pointwise inputs =
     and_then (arity inputs 2) (\<lambda>_.
     and_then (idx inputs 0) (\<lambda>x.
     and_then (require_f32 x) (\<lambda>_.
     and_then (idx inputs 1) (\<lambda>y.
     and_then (require_f32 y) (\<lambda>_.
     and_then (shape y (tv_dimensions x)) (\<lambda>_.
     Ok (tv_dimensions x)))))))"

definition infer_cache_write :: "nat \<Rightarrow> nat \<Rightarrow> nat \<Rightarrow> tensor_view list \<Rightarrow> (nat list \<times> state_effects) op_res" where
  "infer_cache_write start count capacity inputs =
     and_then (infer_pointwise inputs) (\<lambda>dims.
     if count = 0 \<or> length dims \<noteq> 3 \<or> dims ! 0 \<noteq> count \<or>
        (case checked_add start count of None \<Rightarrow> True | Some stop \<Rightarrow> capacity < stop) then
       Err (OE_Bounds ''KV write extent'')
     else Ok (dims, Eff_WriteDenseKv start count))"

definition plain_effects :: "nat list op_res \<Rightarrow> (nat list \<times> state_effects) op_res" where
  "plain_effects r = and_then r (\<lambda>dims. Ok (dims, Eff_None))"

definition infer_shapes :: "operator_contract \<Rightarrow> tensor_view list \<Rightarrow> output_contract op_res" where
  "infer_shapes c inputs =
     and_then
       (case c of
          OC_Norm kind epsilon affine bias \<Rightarrow> plain_effects (infer_norm epsilon bias inputs)
        | OC_Linear bias \<Rightarrow> plain_effects (infer_linear bias inputs)
        | OC_HeadNorm heads head_dim epsilon \<Rightarrow> plain_effects (infer_head_norm heads head_dim epsilon inputs)
        | OC_RelativeRopeAttention qh kh dim1 rd base pairing scale softcap start \<Rightarrow>
            infer_attention qh kh dim1 rd base scale softcap start inputs
        | OC_GateMultiply act \<Rightarrow> plain_effects (infer_pointwise inputs)
        | OC_ResidualAdd \<Rightarrow> plain_effects (infer_pointwise inputs)
        | OC_CacheWrite start count capacity \<Rightarrow> infer_cache_write start count capacity inputs
        | OC_Unsupported operation \<Rightarrow> Err (OE_Unsupported operation))
       (\<lambda>(dims, effects). Ok \<lparr>out_dimensions = dims, out_precision = Prec_F32, out_effects = effects\<rparr>)"

fun required_features :: "operator_contract \<Rightarrow> string list op_res" where
  "required_features (OC_Unsupported operation) = Err (OE_Unsupported operation)"
| "required_features (OC_RelativeRopeAttention _ _ _ _ _ _ _ _ _) =
     Ok [''f32_storage'', ''unrotated_dense_kv'', ''relative_rope'']"
| "required_features (OC_CacheWrite _ _ _) = Ok [''f32_storage'', ''dense_kv'']"
| "required_features _ = Ok [''f32_storage'']"

text \<open>The operators the first dense adapter refuses although they are contracts.\<close>

fun uncertified :: "operator_contract \<Rightarrow> bool" where
  "uncertified (OC_Norm kind _ affine _) = (kind = Norm_Layer \<or> affine = Scale_OnePlusWeight)"
| "uncertified (OC_GateMultiply act) = (act = Act_GeluTanh)"
| "uncertified (OC_RelativeRopeAttention _ _ _ _ _ _ _ softcap _) = (softcap \<noteq> None)"
| "uncertified _ = False"

record validated_operator =
  vo_contract :: operator_contract
  vo_output :: output_contract

definition validate_legacy ::
    "operator_contract \<Rightarrow> tensor_view list \<Rightarrow> tensor_view \<Rightarrow> validated_operator op_res" where
  "validate_legacy c inputs output =
     and_then (required_features c) (\<lambda>_.
     and_then (infer_shapes c inputs) (\<lambda>inferred.
     and_then (require_f32 output) (\<lambda>_.
     and_then (shape output (out_dimensions inferred)) (\<lambda>_.
     if uncertified c then
       Err (OE_Unsupported ''first dense adapter certifies RMSNorm(weight), SiLU and uncapped attention only'')
     else Ok \<lparr>vo_contract = c, vo_output = inferred\<rparr>))))"

text \<open>\<open>encode\<close> hands the checked contract to the caller's encoder.\<close>

definition encode :: "(operator_contract \<Rightarrow> output_contract \<Rightarrow> 'a op_res) \<Rightarrow> validated_operator \<Rightarrow> 'a op_res" where
  "encode f v = f (vo_contract v) (vo_output v)"

section \<open>What validation accepts\<close>

text \<open>
  The specification: the geometry each certified operator needs of its operands and its
  output, and the state it reads or writes.
\<close>

definition f32_view :: "tensor_view \<Rightarrow> nat list \<Rightarrow> bool" where
  "f32_view t dims = (tv_ggml_type t = 0 \<and> tv_dimensions t = dims)"

definition positive_f32 :: "f32 \<Rightarrow> bool" where
  "positive_f32 x = (f32_is_finite x \<and> f32_lt 0 x)"

fun op_accepts :: "operator_contract \<Rightarrow> tensor_view list \<Rightarrow> tensor_view \<Rightarrow> bool" where
  "op_accepts (OC_Norm kind epsilon affine bias) inputs out =
     (kind = Norm_Rms \<and> affine = Scale_Weight \<and> positive_f32 epsilon \<and>
      (\<exists>x w bs. inputs = x # w # bs \<and> length bs = (if bias then 1 else 0) \<and> tv_dimensions x \<noteq> [] \<and>
         tv_ggml_type x = 0 \<and> (\<forall>t\<in>set (w # bs). f32_view t [last (tv_dimensions x)]) \<and>
         f32_view out (tv_dimensions x)))"
| "op_accepts (OC_Linear bias) inputs out =
     (\<exists>x w bs n i j. inputs = x # w # bs \<and> length bs = (if bias then 1 else 0) \<and>
        f32_view x [n, i] \<and> tv_dimensions w = [i, j] \<and> supported_type (tv_ggml_type w) \<and>
        (\<forall>t\<in>set bs. f32_view t [j]) \<and> f32_view out [n, j])"
| "op_accepts (OC_HeadNorm heads head_dim epsilon) inputs out =
     (positive_f32 epsilon \<and> 0 < heads \<and> 0 < head_dim \<and>
      (\<exists>x w n. inputs = [x, w] \<and> f32_view x [n, heads, head_dim] \<and> f32_view w [head_dim] \<and>
         f32_view out [n, heads, head_dim]))"
| "op_accepts (OC_RelativeRopeAttention qh kh dim1 rd base pairing scale softcap start) inputs out =
     (softcap = None \<and> positive_f32 base \<and> positive_f32 scale \<and> 0 < kh \<and> 0 < qh \<and> qh mod kh = 0 \<and>
      0 < rd \<and> even rd \<and> rd \<le> dim1 \<and>
      (\<exists>q k v n. inputs = [q, k, v] \<and> f32_view q [n, qh, dim1] \<and> start + n < u64_range \<and>
         f32_view k [start + n, kh, dim1] \<and> f32_view v [start + n, kh, dim1] \<and> f32_view out [n, qh, dim1]))"
| "op_accepts (OC_GateMultiply act) inputs out =
     (act = Act_Silu \<and> (\<exists>x y. inputs = [x, y] \<and> tv_ggml_type x = 0 \<and> f32_view y (tv_dimensions x) \<and>
        f32_view out (tv_dimensions x)))"
| "op_accepts OC_ResidualAdd inputs out =
     (\<exists>x y. inputs = [x, y] \<and> tv_ggml_type x = 0 \<and> f32_view y (tv_dimensions x) \<and>
        f32_view out (tv_dimensions x))"
| "op_accepts (OC_CacheWrite start count capacity) inputs out =
     (0 < count \<and> start + count \<le> capacity \<and> start + count < u64_range \<and>
      (\<exists>x y h d. inputs = [x, y] \<and> f32_view x [count, h, d] \<and> f32_view y [count, h, d] \<and>
         f32_view out [count, h, d]))"
| "op_accepts (OC_Unsupported operation) inputs out = False"

fun op_effects :: "operator_contract \<Rightarrow> tensor_view list \<Rightarrow> state_effects" where
  "op_effects (OC_RelativeRopeAttention _ _ _ _ _ _ _ _ start) inputs =
     Eff_ReadDenseKv (start + hd (tv_dimensions (hd inputs)))"
| "op_effects (OC_CacheWrite start count _) _ = Eff_WriteDenseKv start count"
| "op_effects _ _ = Eff_None"

lemma require_f32_Ok [simp]: "(require_f32 t = Ok u) = (tv_ggml_type t = 0)"
  and require_f32_no_panic [simp]: "require_f32 t \<noteq> Panic"
  and shape_Ok [simp]: "(shape t dims = Ok u) = (tv_dimensions t = dims)"
  and shape_no_panic [simp]: "shape t dims \<noteq> Panic"
  and arity_Ok [simp]: "(arity inputs n = Ok u) = (length inputs = n)"
  and arity_no_panic [simp]: "arity inputs n \<noteq> Panic"
  and positive_Ok [simp]: "(positive name x = Ok u) = positive_f32 x"
  and positive_no_panic [simp]: "positive name x \<noteq> Panic"
  by (simp_all add: require_f32_def shape_def arity_def positive_def positive_f32_def)

lemma linear_type_supported: "linear_type_ok t = supported_type t"
  by (auto simp: linear_type_ok_def supported_type_def)

lemma length_2: "(length xs = 2) = (\<exists>a b. xs = [a, b])"
  by (auto simp: numeral_2_eq_2 length_Suc_conv)

lemma length_3: "(length xs = 3) = (\<exists>a b c. xs = [a, b, c])"
  by (auto simp: numeral_3_eq_3 length_Suc_conv)

lemma infer_norm_Ok:
  "(infer_norm epsilon bias inputs = Ok dims) =
     (positive_f32 epsilon \<and> (\<exists>x w bs. inputs = x # w # bs \<and> length bs = (if bias then 1 else 0) \<and>
        tv_dimensions x \<noteq> [] \<and> tv_ggml_type x = 0 \<and>
        (\<forall>t\<in>set (w # bs). f32_view t [last (tv_dimensions x)]) \<and> dims = tv_dimensions x))"
proof (cases bias)
  case True
  show ?thesis
    by (auto simp: infer_norm_def True f32_view_def Let_def length_Suc_conv numeral_2_eq_2 split: if_splits)
next
  case False
  show ?thesis
    by (auto simp: infer_norm_def False f32_view_def Let_def length_2 split: if_splits)
qed

lemma infer_linear_Ok:
  "(infer_linear bias inputs = Ok dims) =
     (\<exists>x w bs n i j. inputs = x # w # bs \<and> length bs = (if bias then 1 else 0) \<and>
        f32_view x [n, i] \<and> tv_dimensions w = [i, j] \<and> supported_type (tv_ggml_type w) \<and>
        (\<forall>t\<in>set bs. f32_view t [j]) \<and> dims = [n, j])"
proof (cases bias)
  case True
  show ?thesis
    by (auto simp: infer_linear_def True f32_view_def length_2 length_3 linear_type_supported length_Suc_conv split: if_splits)
next
  case False
  show ?thesis
    by (auto simp: infer_linear_def False f32_view_def length_2 linear_type_supported split: if_splits)
qed

lemma infer_head_norm_Ok:
  "(infer_head_norm heads head_dim epsilon inputs = Ok dims) =
     (positive_f32 epsilon \<and> 0 < heads \<and> 0 < head_dim \<and>
      (\<exists>x w n. inputs = [x, w] \<and> f32_view x [n, heads, head_dim] \<and> f32_view w [head_dim] \<and>
         dims = [n, heads, head_dim]))"
  by (auto simp: infer_head_norm_def f32_view_def length_2 length_3 split: if_splits)

lemma infer_pointwise_Ok:
  "(infer_pointwise inputs = Ok dims) =
     (\<exists>x y. inputs = [x, y] \<and> tv_ggml_type x = 0 \<and> f32_view y (tv_dimensions x) \<and> dims = tv_dimensions x)"
  by (auto simp: infer_pointwise_def f32_view_def length_2)

lemma infer_attention_Ok:
  "(infer_attention qh kh dim1 rd base scale softcap start inputs = Ok (dims, eff)) =
     (positive_f32 base \<and> positive_f32 scale \<and> (\<forall>cap. softcap = Some cap \<longrightarrow> positive_f32 cap) \<and>
      0 < kh \<and> 0 < qh \<and> qh mod kh = 0 \<and> 0 < rd \<and> even rd \<and> rd \<le> dim1 \<and>
      (\<exists>q k v n. inputs = [q, k, v] \<and> f32_view q [n, qh, dim1] \<and> start + n < u64_range \<and>
         f32_view k [start + n, kh, dim1] \<and> f32_view v [start + n, kh, dim1] \<and>
         dims = [n, qh, dim1] \<and> eff = Eff_ReadDenseKv (start + n)))"
  by (auto simp: infer_attention_def f32_view_def length_3 Let_def even_iff_mod_2_eq_zero
      split: if_splits option.splits)

lemma infer_cache_write_Ok:
  "(infer_cache_write start count capacity inputs = Ok (dims, eff)) =
     (0 < count \<and> start + count \<le> capacity \<and> start + count < u64_range \<and>
      (\<exists>x y h d. inputs = [x, y] \<and> f32_view x [count, h, d] \<and> f32_view y [count, h, d] \<and>
         dims = [count, h, d] \<and> eff = Eff_WriteDenseKv start count))"
proof -
  have d: "(length dims = 3 \<and> dims ! 0 = count) = (\<exists>h d. dims = [count, h, d])" for dims
    by (auto simp: length_3)
  have "(infer_cache_write start count capacity inputs = Ok (dims, eff)) =
     (infer_pointwise inputs = Ok dims \<and> 0 < count \<and> (length dims = 3 \<and> dims ! 0 = count) \<and>
      start + count \<le> capacity \<and> start + count < u64_range \<and> eff = Eff_WriteDenseKv start count)"
    by (auto simp: infer_cache_write_def checked_add_def split: if_splits)
  also have "\<dots> = (0 < count \<and> start + count \<le> capacity \<and> start + count < u64_range \<and>
      (\<exists>x y h d. inputs = [x, y] \<and> f32_view x [count, h, d] \<and> f32_view y [count, h, d] \<and>
         dims = [count, h, d] \<and> eff = Eff_WriteDenseKv start count))"
    unfolding d infer_pointwise_Ok f32_view_def by (intro iffI; elim conjE exE) simp_all
  finally show ?thesis .
qed

lemma idx_arity: "length inputs = n \<Longrightarrow> i < n \<Longrightarrow> idx inputs i = Ok (inputs ! i)"
  by (simp add: idx_def)

lemma infer_shapes_no_panic: "infer_shapes c inputs \<noteq> Panic"
proof -
  have n: "infer_norm epsilon bias inputs \<noteq> Panic" for epsilon bias
    by (auto simp: infer_norm_def and_then_eq_Panic idx_def Let_def split: if_splits)
  have l: "infer_linear bias inputs \<noteq> Panic" for bias
    by (auto simp: infer_linear_def and_then_eq_Panic idx_def split: if_splits)
  have h: "infer_head_norm heads head_dim epsilon inputs \<noteq> Panic" for heads head_dim epsilon
    by (auto simp: infer_head_norm_def and_then_eq_Panic idx_def split: if_splits)
  have fe: "for_each require_f32 xs \<noteq> Panic" for xs
    by (induction xs) (auto simp: and_then_eq_Panic)
  have a: "infer_attention qh kh dim1 rd base scale softcap start inputs \<noteq> Panic"
    for qh kh dim1 rd base scale softcap start
    by (auto simp: infer_attention_def and_then_eq_Panic idx_def fe Let_def split: if_splits option.splits)
  have p: "infer_pointwise inputs \<noteq> Panic"
    by (auto simp: infer_pointwise_def and_then_eq_Panic idx_def split: if_splits)
  have c: "infer_cache_write start count capacity inputs \<noteq> Panic" for start count capacity
    using p by (auto simp: infer_cache_write_def and_then_eq_Panic split: if_splits)
  show ?thesis
    using n l h a p c
    by (cases c) (auto simp: infer_shapes_def plain_effects_def and_then_eq_Panic)
qed

lemma infer_shapes_Ok:
  "(infer_shapes c inputs = Ok oc) = (\<exists>dims eff. oc = \<lparr>out_dimensions = dims, out_precision = Prec_F32, out_effects = eff\<rparr> \<and>
     (case c of
          OC_Norm kind epsilon affine bias \<Rightarrow> infer_norm epsilon bias inputs = Ok dims \<and> eff = Eff_None
        | OC_Linear bias \<Rightarrow> infer_linear bias inputs = Ok dims \<and> eff = Eff_None
        | OC_HeadNorm heads head_dim epsilon \<Rightarrow> infer_head_norm heads head_dim epsilon inputs = Ok dims \<and> eff = Eff_None
        | OC_RelativeRopeAttention qh kh dim1 rd base pairing scale softcap start \<Rightarrow>
            infer_attention qh kh dim1 rd base scale softcap start inputs = Ok (dims, eff)
        | OC_GateMultiply act \<Rightarrow> infer_pointwise inputs = Ok dims \<and> eff = Eff_None
        | OC_ResidualAdd \<Rightarrow> infer_pointwise inputs = Ok dims \<and> eff = Eff_None
        | OC_CacheWrite start count capacity \<Rightarrow> infer_cache_write start count capacity inputs = Ok (dims, eff)
        | OC_Unsupported operation \<Rightarrow> False))"
  by (cases c) (auto simp: infer_shapes_def plain_effects_def)

lemma validate_legacy_no_panic: "validate_legacy c inputs out \<noteq> Panic"
proof -
  have rf: "required_features c \<noteq> Panic" by (cases c) simp_all
  show ?thesis
    using rf infer_shapes_no_panic by (auto simp: validate_legacy_def and_then_eq_Panic split: if_splits)
qed

lemma validate_legacy_Ok:
  "(validate_legacy c inputs out = Ok v) =
     (op_accepts c inputs out \<and>
      v = \<lparr>vo_contract = c, vo_output = \<lparr>out_dimensions = tv_dimensions out, out_precision = Prec_F32,
             out_effects = op_effects c inputs\<rparr>\<rparr>)"
proof -
  have rf': "(\<exists>fs. required_features c = Ok fs) = (\<forall>operation. c \<noteq> OC_Unsupported operation)"
    by (cases c) simp_all
  have eq: "(validate_legacy c inputs out = Ok v) =
     ((\<forall>operation. c \<noteq> OC_Unsupported operation) \<and> \<not> uncertified c \<and> tv_ggml_type out = 0 \<and>
      (\<exists>oc. infer_shapes c inputs = Ok oc \<and> tv_dimensions out = out_dimensions oc \<and>
         v = \<lparr>vo_contract = c, vo_output = oc\<rparr>))"
    unfolding rf' [symmetric] by (auto simp: validate_legacy_def split: if_splits)
  show ?thesis
    unfolding eq infer_shapes_Ok
  proof (cases c, goal_cases)
    case (1 kind epsilon affine bias)
    then show ?case
      by (cases kind; cases affine) (auto simp: infer_norm_Ok f32_view_def)
  next
    case (2 bias)
    then show ?case by (auto simp: infer_linear_Ok f32_view_def)
  next
    case (3 heads head_dim epsilon)
    then show ?case by (auto simp: infer_head_norm_Ok f32_view_def)
  next
    case (4 qh kh dim1 rd base pairing scale softcap start)
    then show ?case by (auto simp: infer_attention_Ok f32_view_def)
  next
    case (5 act)
    then show ?case by (cases act) (auto simp: infer_pointwise_Ok f32_view_def)
  next
    case 6
    then show ?case by (auto simp: infer_pointwise_Ok f32_view_def)
  next
    case (7 start count capacity)
    then show ?case by (auto simp: infer_cache_write_Ok f32_view_def)
  qed simp
qed

text \<open>
  C22: Operator validation is exactly the contract of the dense kernels: on any operands it
  returns a value or an error and never indexes out of range; it accepts an operator
  exactly when it is certified (RMS norm, linear, head norm, uncapped attention, SiLU gate,
  residual, cache write) and its operands and output have the geometry, element type and
  parameters of \<open>op_accepts\<close>, and the accepted operator carries the inferred output
  dimensions and the state it reads or writes.
\<close>

theorem validate_legacy_exact:
  "validate_legacy c inputs out \<noteq> Panic \<and>
   (validate_legacy c inputs out = Ok v) =
     (op_accepts c inputs out \<and>
      v = \<lparr>vo_contract = c, vo_output = \<lparr>out_dimensions = tv_dimensions out, out_precision = Prec_F32,
             out_effects = op_effects c inputs\<rparr>\<rparr>)"
  using validate_legacy_no_panic validate_legacy_Ok by blast

end
