(* ===== verification/Layer_Window.thy ===== *)
theory Layer_Window
  imports Window
begin

text \<open>
  Packed tensor offsets and the window of a layer dispatch
  (\<open>src/src/backend/bindless/pipeline/mod.rs\<close>), and the windows of the single-tensor
  dispatches (\<open>dequant_window\<close>, \<open>rmsnorm_window\<close>, \<open>lm_head_window\<close> of
  \<open>src/src/backend/bindless/loader.rs\<close>).
\<close>

section \<open>Packed offsets\<close>

lemma unat_u32_less: "unat (x :: u32) < 4294967296"
  using unsigned_less [of x] by simp

definition pack_blob_offset :: "nat \<Rightarrow> u32 str_res" where
  "pack_blob_offset byte_offset =
     (if byte_offset = 0 then Ok 0
      else and_then (assert_invariant (byte_offset mod 2 = 0)) (\<lambda>_.
        let packed = byte_offset div 2
        in and_then (assert_invariant (packed < u32_range)) (\<lambda>_. Ok (word_of_nat packed))))"

definition relative_packed_offset :: "nat \<Rightarrow> nat \<Rightarrow> u32 str_res" where
  "relative_packed_offset a base =
     (if a = 0 then Ok 0
      else and_then (ok_or (checked_sub a base)
             (''underflow: abs='' @ dec a @ '' (0x'' @ hex a @ '') < base='' @ dec base @
              '' (0x'' @ hex base @ '')'')) (\<lambda>rel.
        if rel mod 2 \<noteq> 0 then
          Err (''relative offset '' @ dec rel @ '' (0x'' @ hex rel @ '') is not 2-byte aligned'')
        else if u32_range \<le> rel div 2 then
          Err (''relative offset '' @ dec rel @ '' (0x'' @ hex rel @ '') packs to '' @
               dec (rel div 2) @ '' which exceeds u32::MAX'')
        else Ok (word_of_nat (rel div 2))))"

section \<open>The tensors of a layer\<close>

record layer_offsets =
  attn_norm :: u32
  attn_norm_bias :: u32
  attn_q :: u32
  attn_k :: u32
  attn_v :: u32
  attn_out :: u32
  ffn_norm :: u32
  ffn_norm_bias :: u32
  ffn_gate :: u32
  ffn_down :: u32
  ffn_up :: u32
  layer_idx :: u32
  attn_q_norm :: u32
  attn_k_norm :: u32
  attn_q_bias :: u32
  attn_k_bias :: u32
  attn_v_bias :: u32
  v_is_q4k :: u32
  ffn_down_is_q4k :: u32

definition span_check :: "u32 \<Rightarrow> u32 \<Rightarrow> u32 \<times> u32 \<times> bool \<Rightarrow> u32 \<times> u32 \<times> bool" where
  "span_check base packed acc =
     (case acc of (min_word, max_word, has_tensor) \<Rightarrow>
        if packed \<noteq> 0 then
          (let word = packed div 2 + base in (min min_word word, max max_word word, True))
        else (min_word, max_word, has_tensor))"

definition span_of :: "u32 \<Rightarrow> u32 list \<Rightarrow> (u32 \<times> u32) option" where
  "span_of base packs =
     (case fold (span_check base) packs (0xFFFFFFFF, 0, False) of
        (min_word, max_word, has_tensor) \<Rightarrow>
          if has_tensor then Some (min_word, max_word) else None)"

definition layer_packs :: "layer_offsets \<Rightarrow> u32 list" where
  "layer_packs o1 = [attn_norm o1, attn_norm_bias o1, attn_q o1, attn_k o1, attn_v o1,
     attn_out o1, ffn_norm o1, ffn_norm_bias o1, ffn_gate o1, ffn_down o1, ffn_up o1,
     attn_q_norm o1, attn_k_norm o1, attn_q_bias o1, attn_k_bias o1, attn_v_bias o1]"

definition word_span :: "layer_offsets \<Rightarrow> u32 \<Rightarrow> (u32 \<times> u32) option" where
  "word_span o1 base = span_of base (layer_packs o1)"

definition attention_packs :: "layer_offsets \<Rightarrow> u32 list" where
  "attention_packs o1 = [attn_norm o1, attn_norm_bias o1, attn_q o1, attn_k o1, attn_v o1,
     attn_out o1, attn_q_norm o1, attn_k_norm o1, attn_q_bias o1, attn_k_bias o1, attn_v_bias o1]"

definition word_span_attention :: "layer_offsets \<Rightarrow> u32 \<Rightarrow> (u32 \<times> u32) option" where
  "word_span_attention o1 base = span_of base (attention_packs o1)"

definition ffn_packs :: "layer_offsets \<Rightarrow> u32 list" where
  "ffn_packs o1 = [ffn_norm o1, ffn_norm_bias o1, ffn_gate o1, ffn_up o1, ffn_down o1]"

definition word_span_ffn :: "layer_offsets \<Rightarrow> u32 \<Rightarrow> (u32 \<times> u32) option" where
  "word_span_ffn o1 base = span_of base (ffn_packs o1)"

section \<open>Planning the window of a layer\<close>

definition saturating_sub_u32 :: "u32 \<Rightarrow> u32 \<Rightarrow> u32" where
  "saturating_sub_u32 a b = (if b \<le> a then a - b else 0)"

definition plan_layer_window ::
    "layer_offsets \<Rightarrow> u32 \<Rightarrow> u32 \<Rightarrow> nat \<Rightarrow> (blob_window option \<times> u32) str_res" where
  "plan_layer_window offsets base cw resident =
     (case word_span offsets base of None \<Rightarrow> Ok (None, base)
      | Some (min_word, max_word) \<Rightarrow>
          and_then (window_for_range min_word max_word cw resident) (\<lambda>w.
          Ok (Some w, saturating_sub_u32 base (window_base_words w))))"

definition try_u32 :: "nat \<Rightarrow> string \<Rightarrow> u32 str_res" where
  "try_u32 n msg = (if n < u32_range then Ok (word_of_nat n) else Err msg)"

text \<open>One iteration of the loop over the tensor byte ranges.\<close>

definition widen_span :: "nat \<times> nat \<Rightarrow> u32 \<times> u32 \<Rightarrow> (u32 \<times> u32) str_res" where
  "widen_span sp acc =
     (case sp of (start, bytes) \<Rightarrow> case acc of (min_word, max_word) \<Rightarrow>
        and_then (ok_or (checked_sub bytes 1) ''empty tensor span'') (\<lambda>n.
        and_then (ok_or (checked_add start n) ''tensor span overflow'') (\<lambda>final.
        and_then (try_u32 (start div 4) ''tensor start exceeds word address space'') (\<lambda>first_word.
        and_then (try_u32 (final div 4) ''tensor end exceeds word address space'') (\<lambda>last_word.
        Ok (min min_word first_word, max max_word last_word))))))"

definition plan_layer_tensor_window ::
    "layer_offsets \<Rightarrow> u32 \<Rightarrow> u32 \<Rightarrow> nat \<Rightarrow> (nat \<times> nat) list \<Rightarrow> (blob_window option \<times> u32) str_res" where
  "plan_layer_tensor_window offsets base cw resident tensor_spans =
     (case word_span offsets base of
        None \<Rightarrow>
          if tensor_spans = [] then Ok (None, base)
          else Err ''descriptor tensors present but layer offsets are empty''
      | Some (min_word, max_word) \<Rightarrow>
          if tensor_spans = [] then
            Err ''active layer offsets have no validated descriptor tensor spans''
          else and_then (fold_res widen_span tensor_spans (min min_word base, max_word)) (\<lambda>(lo, hi).
               and_then (window_for_range lo hi cw resident) (\<lambda>w.
               if window_base_words w \<le> base then Ok (Some w, base - window_base_words w)
               else Err ''window starts after layer base'')))"

text \<open>
  \<open>try_resolve_layer_window\<close>: the tensors of layer \<open>layer_idx\<close> are the descriptor's bindings
  (name, offset, bytes) whose name starts with \<open>blk.<layer_idx>.\<close>.
\<close>

definition layer_spans :: "(string \<times> nat \<times> nat) list \<Rightarrow> nat \<Rightarrow> (nat \<times> nat) list" where
  "layer_spans bindings layer =
     map snd (filter (\<lambda>t. starts_with (fst t) (''blk.'' @ dec layer @ ''.'')) bindings)"

definition try_resolve_layer_window ::
    "chunk_plan \<Rightarrow> (string \<times> nat \<times> nat) list \<Rightarrow> layer_offsets \<Rightarrow> u32 \<Rightarrow> nat \<Rightarrow>
     (blob_window option \<times> u32) str_res" where
  "try_resolve_layer_window p bindings offsets base layer =
     map_err (\<lambda>e. ''layer '' @ dec layer @ '' window planning failed: '' @ e)
       (plan_layer_tensor_window offsets base (chunk_words_of p) (num_chunks p)
          (layer_spans bindings layer))"

text \<open>\<open>resolve_layer_window\<close> turns the error into a panic.\<close>

definition resolve_layer_window ::
    "chunk_plan \<Rightarrow> (string \<times> nat \<times> nat) list \<Rightarrow> layer_offsets \<Rightarrow> u32 \<Rightarrow> nat \<Rightarrow>
     (blob_window option \<times> u32) str_res" where
  "resolve_layer_window p bindings offsets base layer =
     (case try_resolve_layer_window p bindings offsets base layer of
        Ok r \<Rightarrow> Ok r | Err e \<Rightarrow> Panic | Panic \<Rightarrow> Panic)"

definition plan_half :: "(u32 \<times> u32) option \<Rightarrow> u32 \<Rightarrow> u32 \<Rightarrow> nat \<Rightarrow> (blob_window \<times> u32) option str_res" where
  "plan_half sp base cw resident =
     (case sp of None \<Rightarrow> Ok None
      | Some (lo, hi) \<Rightarrow> and_then (window_for_range lo hi cw resident) (\<lambda>w.
          Ok (Some (w, base - window_base_words w))))"

definition plan_layer_half_windows ::
    "layer_offsets \<Rightarrow> u32 \<Rightarrow> u32 \<Rightarrow> nat \<Rightarrow>
     ((blob_window \<times> u32) option \<times> (blob_window \<times> u32) option) str_res" where
  "plan_layer_half_windows offsets base cw resident =
     and_then (plan_half (word_span_attention offsets base) base cw resident) (\<lambda>attn.
     and_then (plan_half (word_span_ffn offsets base) base cw resident) (\<lambda>ffn.
     Ok (attn, ffn)))"

definition rebase_head_weight_off :: "u32 \<Rightarrow> blob_window \<Rightarrow> u32" where
  "rebase_head_weight_off weight_off w = weight_off - window_base_words w"

text \<open>\<open>blob_binding_0\<close> to \<open>blob_binding_7\<close>.\<close>

definition blob_binding :: "'b list \<Rightarrow> 'b \<Rightarrow> nat \<Rightarrow> 'b" where
  "blob_binding gpu_buffers dummy i = (if i < length gpu_buffers then gpu_buffers ! i else dummy)"

text \<open>
  \<open>blob_bindings_for\<close>: with no window, slot \<open>i\<close> binds chunk \<open>i\<close> where it exists.
\<close>

definition blob_bindings_for :: "blob_window option \<Rightarrow> 'b list \<Rightarrow> 'b \<Rightarrow> 'b list" where
  "blob_bindings_for window gpu_buffers dummy =
     (case window of
        Some w \<Rightarrow> binding_resources w gpu_buffers dummy
      | None \<Rightarrow> map (blob_binding gpu_buffers dummy) [0..<blob_binding_slots])"

section \<open>Windows of single-tensor dispatches\<close>

definition dequant_window :: "chunk_plan \<Rightarrow> u32 \<Rightarrow> u32 \<Rightarrow> nat \<Rightarrow> blob_window str_res" where
  "dequant_window p offset_words count quant_type =
     and_then (ok_or (quant_block_geometry quant_type)
        (''unknown quant type '' @ dec quant_type @ '' for dequant window'')) (\<lambda>(elems, bytes).
       let blocks = div_ceil (unat count) elems;
           span_bytes = wmul blocks bytes;
           last_word = wadd (unat offset_words) ((span_bytes - 1) div 4)
       in window_for_range offset_words (word_of_nat last_word) (chunk_words_of p) (num_chunks p))"

definition saturating_add_u32 :: "u32 \<Rightarrow> u32 \<Rightarrow> u32" where
  "saturating_add_u32 a b = (if unat a + unat b < u32_range then a + b else 0xFFFFFFFF)"

definition rmsnorm_window :: "chunk_plan \<Rightarrow> u32 \<Rightarrow> u32 option \<Rightarrow> u32 \<Rightarrow> blob_window str_res" where
  "rmsnorm_window p weight_offset bias_offset count =
     (let final = saturating_sub_u32 count 1;
          start_word = min weight_offset (case bias_offset of None \<Rightarrow> weight_offset | Some b \<Rightarrow> b);
          end_word = max (saturating_add_u32 weight_offset final)
            (case bias_offset of None \<Rightarrow> 0 | Some b \<Rightarrow> saturating_add_u32 b final)
      in window_for_range start_word end_word (chunk_words_of p) (num_chunks p))"

definition lm_head_window ::
    "chunk_plan \<Rightarrow> (string \<Rightarrow> nat option) \<Rightarrow> (string \<Rightarrow> nat option) \<Rightarrow> u32 \<Rightarrow> u32 \<Rightarrow> u32 \<Rightarrow>
     blob_window str_res" where
  "lm_head_window p get_tensor_type get_tensor_offset base_row rows dim1 =
     (let name = (if get_tensor_type ''output.weight'' \<noteq> None then ''output.weight''
                  else ''token_embd.weight'');
          weight_bytes = (case get_tensor_offset name of None \<Rightarrow> 0 | Some n \<Rightarrow> n);
          quant_type = (case get_tensor_type name of None \<Rightarrow> 0 | Some t \<Rightarrow> t)
      in and_then (ok_or (quant_block_geometry quant_type)
           (''unknown quant type '' @ dec quant_type @ '' for '' @ name)) (\<lambda>(elems, bytes).
         if unat dim1 mod elems \<noteq> 0 then
           Err (name @ '' row dim '' @ dec (unat dim1) @ '' is not a multiple of block_elems '' @
                dec elems @ '' for quant type '' @ dec quant_type)
         else
           (let row_bytes = wmul (unat dim1 div elems) bytes;
                start_byte = wadd weight_bytes (wmul (unat base_row) row_bytes);
                end_byte = wsub (wadd weight_bytes (wmul (wadd (unat base_row) (unat rows)) row_bytes))
                  (if rows = 0 then 0 else 1)
            in window_for_range (word_of_nat (start_byte div 4)) (word_of_nat (end_byte div 4))
                 (chunk_words_of p) (num_chunks p))))"

section \<open>Spans\<close>

lemma fold_span_check:
  "fold (span_check base) packs (mn, mx, h) =
     (let ws = map (\<lambda>q. q div 2 + base) (filter (\<lambda>q. q \<noteq> 0) packs) in
      (fold min ws mn, fold max ws mx, h \<or> ws \<noteq> []))"
  by (induction packs arbitrary: mn mx h) (auto simp: span_check_def Let_def min.commute max.commute)

definition words_of :: "u32 \<Rightarrow> u32 list \<Rightarrow> u32 set" where
  "words_of base packs = (\<lambda>q. q div 2 + base) ` {q \<in> set packs. q \<noteq> 0}"

lemma finite_words_of [simp]: "finite (words_of base packs)"
  by (simp add: words_of_def)

lemma fold_min_set: "fold min ws (a :: 'a :: linorder) = Min (insert a (set ws))"
  by (simp flip: Min.set_eq_fold add: list.set(2) [symmetric] del: list.set(2))

lemma fold_max_set: "fold max ws (a :: 'a :: linorder) = Max (insert a (set ws))"
  by (simp flip: Max.set_eq_fold add: list.set(2) [symmetric] del: list.set(2))

lemma span_of_eq:
  "span_of base packs = (if words_of base packs = {} then None
     else Some (Min (words_of base packs), Max (words_of base packs)))"
proof -
  let ?ws = "map (\<lambda>q. q div 2 + base) (filter (\<lambda>q. q \<noteq> 0) packs)"
  have s: "set ?ws = words_of base packs" by (simp add: words_of_def)
  then have e: "(?ws = []) = (words_of base packs = {})" by (metis set_empty)
  have max_word: "(0xFFFFFFFF :: u32) = - 1" by simp
  have top: "Min (insert (- 1) S) = Min S" "Max (insert 0 S) = Max S"
    if "finite S" "S \<noteq> {}" for S :: "u32 set"
  proof -
    have "Min (insert (- 1) S) = min (- 1) (Min S)" "Max (insert 0 S) = max 0 (Max S)" using that by simp_all
    then show "Min (insert (- 1) S) = Min S" "Max (insert 0 S) = Max S"
      using word_order.extremum [of "Min S"] by (simp_all add: min_def max_def)
  qed
  show ?thesis
    unfolding span_of_def fold_span_check Let_def fold_min_set fold_max_set s e max_word
    using top [of "words_of base packs"] by simp
qed

lemma span_of_bounds:
  assumes "span_of base packs = Some (mn, mx)" and "q \<in> set packs" and "q \<noteq> 0"
  shows "mn \<le> q div 2 + base" and "q div 2 + base \<le> mx"
proof -
  have "q div 2 + base \<in> words_of base packs" using assms(2,3) by (simp add: words_of_def)
  then show "mn \<le> q div 2 + base" "q div 2 + base \<le> mx"
    using assms(1) by (auto simp: span_of_eq split: if_splits)
qed

lemma span_of_attained:
  assumes "span_of base packs = Some (mn, mx)"
  shows "\<exists>q\<in>set packs. q \<noteq> 0 \<and> mn = q div 2 + base" "\<exists>q\<in>set packs. q \<noteq> 0 \<and> mx = q div 2 + base"
proof -
  have "mn \<in> words_of base packs" "mx \<in> words_of base packs"
    using assms by (simp_all add: span_of_eq split: if_splits) (metis Min_in Max_in finite_words_of)+
  then show "\<exists>q\<in>set packs. q \<noteq> 0 \<and> mn = q div 2 + base" "\<exists>q\<in>set packs. q \<noteq> 0 \<and> mx = q div 2 + base"
    by (auto simp: words_of_def)
qed

definition span_in :: "nat \<Rightarrow> nat \<times> nat \<Rightarrow> bool" where
  "span_in n sp = (0 < snd sp \<and> fst sp + snd sp \<le> n)"

lemma widen_span_eq:
  assumes "span_in n sp" and "n < 2 ^ 32"
  shows "widen_span sp (a, b) =
    Ok (min a (word_of_nat (fst sp div 4)), max b (word_of_nat ((fst sp + snd sp - 1) div 4)))"
  using assms
  by (auto simp: widen_span_def span_in_def checked_sub_def checked_add_def res_simps try_u32_def
      u64_range_def u32_range_def split: prod.splits)

lemma widen_spans_eq:
  assumes "\<And>sp. sp \<in> set spans \<Longrightarrow> span_in n sp" and "n < 2 ^ 32"
  shows "fold_res widen_span spans (a, b) =
    Ok (fold min (map (\<lambda>sp. word_of_nat (fst sp div 4)) spans) a,
        fold max (map (\<lambda>sp. word_of_nat ((fst sp + snd sp - 1) div 4)) spans) b)"
  using assms(1)
proof (induction spans arbitrary: a b)
  case (Cons sp spans)
  have "widen_span sp (a, b) =
    Ok (min a (word_of_nat (fst sp div 4)), max b (word_of_nat ((fst sp + snd sp - 1) div 4)))"
    by (rule widen_span_eq [OF Cons.prems assms(2)]) simp
  with Cons show ?case by (simp add: min.commute max.commute)
qed simp

section \<open>What the planned windows cover\<close>

lemma fold_min_le: "fold min ws a \<le> (a :: 'a :: linorder)" and fold_min_le_mem: "x \<in> set ws \<Longrightarrow> fold min ws a \<le> x"
  by (simp_all add: fold_min_set)

lemma fold_max_ge: "(a :: 'a :: linorder) \<le> fold max ws a" and fold_max_ge_mem: "x \<in> set ws \<Longrightarrow> x \<le> fold max ws a"
  by (simp_all add: fold_max_set)

lemma fold_max_le: "a \<le> (b :: 'a :: linorder) \<Longrightarrow> (\<And>x. x \<in> set ws \<Longrightarrow> x \<le> b) \<Longrightarrow> fold max ws a \<le> b"
  by (simp add: fold_max_set)

text \<open>
  A word \<open>a\<close> between the two ends of a range lies in the range's window; its distance
  to the window's base is its position in the bound chunks.
\<close>

lemma window_of_range:
  assumes p: "plan_ok n p" and n: "n < 2 ^ 32" and hi: "4 * unat hi < n"
    and w: "window_for_range lo hi (chunk_words_of p) (num_chunks p) = Ok w"
    and a: "lo \<le> a" "a \<le> hi"
  shows "window_contains w a" and "window_base_words w \<le> lo"
    and "unat (a - window_base_words w) = unat a - unat (window_base_words w)"
proof -
  have le: "lo \<le> hi" using a by (rule order_trans)
  obtain c where c: "0 < c" "unat (chunk_words_of p) = c" using plan_ok_words [OF p] by metis
  have ok: "window_ok w" by (rule planned_window_ok [OF p n hi le w])
  note wf = w [unfolded window_for_range_Ok [OF chunk_words_of_pos [OF p] le] c(2)]
  have q: "unat lo div c \<le> unat a div c" "unat a div c \<le> unat hi div c"
    using a by (simp_all add: div_le_mono word_le_nat_alt)
  have "absolute_to_local w a = Ok (unat a div c - start_chunk w, a mod chunk_words w)"
    using absolute_to_local_eq [OF ok, of a] wf c(2) q by simp
  then show "window_contains w a"
    unfolding absolute_to_local_def window_contains_def
    by (simp add: not_less not_le split: if_splits)
  show b: "window_base_words w \<le> lo"
    using window_base_nat [OF ok] wf c by (simp add: word_le_nat_alt div_times_less_eq_dividend)
  show "unat (a - window_base_words w) = unat a - unat (window_base_words w)"
    using order_trans [OF b a(1)] by (simp add: unat_sub word_le_nat_alt)
qed

lemma word_of_nat_le: "m \<le> n \<Longrightarrow> n < 2 ^ 32 \<Longrightarrow> (word_of_nat m :: u32) \<le> word_of_nat n"
  by (simp add: word_le_nat_alt unat_of_nat)

text \<open>
  C14: The window of a layer covers every byte of every tensor of the layer: when
  \<open>plan_layer_tensor_window\<close> returns a window for a file the executor admits, the words
  of all the tensor byte ranges and of all packed offsets lie in it, and adding the
  window-local base the shader receives to \<open>packed / 2\<close> gives the distance to the
  window's start, with no wrap-around.
\<close>

theorem layer_window_covers_tensors:
  assumes "compute_chunk_plan n limit = Ok p" and n: "n < 2 ^ 32"
    and plan: "plan_layer_tensor_window offsets base (chunk_words_of p) (num_chunks p) spans =
      Ok (Some w, adjusted)"
    and spans: "\<forall>sp\<in>set spans. span_in n sp"
    and packs: "\<forall>q\<in>set (layer_packs offsets). q \<noteq> 0 \<longrightarrow> 4 * unat (q div 2 + base) < n"
  shows "(\<forall>(start, bytes)\<in>set spans. \<forall>i\<in>{start..<start + bytes}.
           window_contains w (word_of_nat (i div 4))) \<and>
    (\<forall>q\<in>set (layer_packs offsets). q \<noteq> 0 \<longrightarrow> window_contains w (q div 2 + base) \<and>
       unat (q div 2 + adjusted) = unat (q div 2 + base) - unat (window_base_words w))"
proof -
  have p: "plan_ok n p" using compute_chunk_plan_ok [OF assms(1)] by simp
  obtain mn mx where sp: "word_span offsets base = Some (mn, mx)"
    using plan by (auto simp: plan_layer_tensor_window_def split: option.splits if_splits)
  let ?first = "\<lambda>s :: nat \<times> nat. word_of_nat (fst s div 4) :: u32"
  let ?final = "\<lambda>s :: nat \<times> nat. word_of_nat ((fst s + snd s - 1) div 4) :: u32"
  define lo where "lo = fold min (map ?first spans) (min mn base)"
  define hi where "hi = fold max (map ?final spans) mx"
  have fr: "fold_res widen_span spans (min mn base, mx) = Ok (lo, hi)"
    unfolding lo_def hi_def using spans n by (intro widen_spans_eq) auto
  have w: "window_for_range lo hi (chunk_words_of p) (num_chunks p) = Ok w"
    and adj: "adjusted = base - window_base_words w" "window_base_words w \<le> base"
    using plan by (auto simp: plan_layer_tensor_window_def sp fr split: if_splits)
  have lo: "lo \<le> mn" "lo \<le> base"
    using fold_min_le [of "map ?first spans" "min mn base"] by (simp_all add: lo_def)
  have hi1: "mx \<le> hi" by (simp add: hi_def fold_max_ge)
  have "4 * unat mx < n"
    using span_of_attained(2) [OF sp [unfolded word_span_def]] packs by metis
  moreover have "4 * unat (?final s) < n" if "s \<in> set spans" for s
  proof -
    have "span_in n s" using that spans by blast
    then have "(fst s + snd s - 1) div 4 * 4 < n" "(fst s + snd s - 1) div 4 < 2 ^ 32"
      using n by (auto simp: span_in_def)
    then show ?thesis by (simp add: unat_of_nat)
  qed
  ultimately have hi2: "4 * unat hi < n"
    using Max_in [of "insert mx (?final ` set spans)"] by (auto simp: hi_def fold_max_set)
  note cover = window_of_range [OF p n hi2 w]
  have "window_contains w (word_of_nat (i div 4))"
    if s: "(start, bytes) \<in> set spans" and i: "start \<le> i" "i < start + bytes" for start bytes i
  proof (rule cover(1))
    have f: "?first (start, bytes) \<in> set (map ?first spans)" "?final (start, bytes) \<in> set (map ?final spans)"
      using s by (simp_all only: set_map) blast+
    have b: "(start + bytes - 1) div 4 < 2 ^ 32" "i div 4 < 2 ^ 32" using spans s n i by (auto simp: span_in_def)
    have "lo \<le> word_of_nat (start div 4)" using fold_min_le_mem [OF f(1)] by (simp add: lo_def)
    also have "\<dots> \<le> word_of_nat (i div 4)" using i b by (intro word_of_nat_le div_le_mono) simp_all
    finally show "lo \<le> word_of_nat (i div 4)" .
    have "word_of_nat (i div 4) \<le> ?final (start, bytes)" using i b by (auto intro!: word_of_nat_le div_le_mono)
    also have "\<dots> \<le> hi" using fold_max_ge_mem [OF f(2)] by (simp add: hi_def)
    finally show "word_of_nat (i div 4) \<le> hi" .
  qed
  moreover have "window_contains w (q div 2 + base) \<and>
      unat (q div 2 + adjusted) = unat (q div 2 + base) - unat (window_base_words w)"
    if q: "q \<in> set (layer_packs offsets)" "q \<noteq> 0" for q
  proof -
    have b: "lo \<le> q div 2 + base" "q div 2 + base \<le> hi"
      using span_of_bounds [OF sp [unfolded word_span_def] q] lo hi1 by (auto intro: order_trans)
    have "q div 2 + adjusted = q div 2 + base - window_base_words w" by (simp add: adj add_diff_eq)
    with cover [OF b] show ?thesis by (simp only: simp_thms)
  qed
  ultimately show ?thesis by auto
qed

definition no_offsets :: layer_offsets where
  "no_offsets = \<lparr>attn_norm = 0, attn_norm_bias = 0, attn_q = 0, attn_k = 0, attn_v = 0, attn_out = 0,
     ffn_norm = 0, ffn_norm_bias = 0, ffn_gate = 0, ffn_down = 0, ffn_up = 0, layer_idx = 0,
     attn_q_norm = 0, attn_k_norm = 0, attn_q_bias = 0, attn_k_bias = 0, attn_v_bias = 0,
     v_is_q4k = 0, ffn_down_is_q4k = 0\<rparr>"

definition sample_offsets :: layer_offsets where
  "sample_offsets = no_offsets\<lparr>attn_norm := 2, attn_q := 174\<rparr>"

lemma sample_layer_plan:
  "plan_layer_tensor_window sample_offsets 63 64 4 [(256, 300), (600, 100)] = Ok (Some sample_window, 63)"
proof -
  have "word_span sample_offsets 63 = Some (64, 150)"
    by (simp add: word_span_def span_of_def layer_packs_def sample_offsets_def no_offsets_def
        span_check_def Let_def)
  moreover have "fold_res widen_span [(256, 300), (600, 100)] (63, 150) = Ok (63, 174)"
    by (subst widen_spans_eq [where n = 1024]) (auto simp: span_in_def)
  moreover have "window_for_range 63 174 64 4 = Ok sample_window"
    by (subst window_for_range_Ok) (simp_all add: sample_window_def)
  ultimately show ?thesis
    by (simp add: plan_layer_tensor_window_def window_base_words_def sample_window_def
        del: and_then_eq_Ok fold_res.simps)
qed

lemma sample_chunk_plan: "compute_chunk_plan 1024 300 = Ok sample_plan"
  by (simp add: compute_chunk_plan_eq sample_plan_def blob_chunk_bytes_def div_ceil_def)

lemma layer_window_covers_tensors_witness:
  "plan_layer_tensor_window sample_offsets 63 64 4 [(256, 300), (600, 100)] = Ok (Some sample_window, 63) \<and>
   window_contains sample_window (word_of_nat (699 div 4)) \<and>
   window_contains sample_window (174 div 2 + 63) \<and>
   unat (174 div 2 + 63 :: u32) = 150 - unat (window_base_words sample_window)"
proof -
  have cover: "(\<forall>(start, bytes)\<in>set [(256, 300), (600, 100)]. \<forall>i\<in>{start..<start + bytes}.
      window_contains sample_window (word_of_nat (i div 4))) \<and>
   (\<forall>q\<in>set (layer_packs sample_offsets). q \<noteq> 0 \<longrightarrow> window_contains sample_window (q div 2 + 63) \<and>
      unat (q div 2 + 63) = unat (q div 2 + 63) - unat (window_base_words sample_window))"
  proof (rule layer_window_covers_tensors [where p = sample_plan])
    show "compute_chunk_plan 1024 300 = Ok sample_plan" by (rule sample_chunk_plan)
    show "plan_layer_tensor_window sample_offsets 63 (chunk_words_of sample_plan) (num_chunks sample_plan)
        [(256, 300), (600, 100)] = Ok (Some sample_window, 63)"
      unfolding sample_chunk_words using sample_layer_plan by (simp add: sample_plan_def)
  qed (simp_all add: span_in_def layer_packs_def sample_offsets_def no_offsets_def)
  have "(600, 100) \<in> set [(256, 300), (600 :: nat, 100 :: nat)]" by simp
  with cover have "\<forall>i\<in>{600..<600 + 100}. window_contains sample_window (word_of_nat (i div 4))" by fast
  then have "window_contains sample_window (word_of_nat (699 div 4))" by (rule bspec) simp
  moreover have "174 \<in> set (layer_packs sample_offsets)"
    by (simp add: layer_packs_def sample_offsets_def no_offsets_def)
  with cover have "window_contains sample_window (174 div 2 + 63)" by fastforce
  ultimately show ?thesis
    using sample_layer_plan by (simp add: sample_window_def window_base_words_def)
qed

lemma relative_packed_offset_Ok:
  assumes "0 < a"
  shows "(relative_packed_offset a base = Ok q) =
      (base \<le> a \<and> even (a - base) \<and> a - base < 2 ^ 33 \<and> base + 2 * unat q = a)"
proof -
  have "(word_of_nat ((a - base) div 2) = q) = ((a - base) div 2 = unat q)" if "(a - base) div 2 < 2 ^ 32"
  proof
    assume "word_of_nat ((a - base) div 2) = q"
    then show "(a - base) div 2 = unat q" using that by (auto simp: unat_of_nat)
  qed simp
  then show ?thesis
    using assms by (auto simp: relative_packed_offset_def u32_range_def even_iff_mod_2_eq_zero)
qed

lemma relative_packed_offset_no_panic: "relative_packed_offset a base \<noteq> Panic"
  by (simp add: relative_packed_offset_def and_then_eq_Panic)

lemma relative_packed_offset_word:
  assumes "relative_packed_offset a (4 * unat b) = Ok q" and "0 < a" and "a < 2 ^ 34"
  shows "unat (q div 2 + b) = a div 4"
proof -
  have "4 * unat b + 2 * unat q = a" using assms by (simp add: relative_packed_offset_Ok)
  then have "unat b + unat q div 2 = a div 4" by linarith
  moreover have "a div 4 < 2 ^ 32" using assms(3) by simp
  ultimately show ?thesis by (simp add: unat_add_small unat_div)
qed

text \<open>
  C33: Packing a tensor offset relative to its layer's base and reading it back is exact:
  for a tensor present at byte \<open>a\<close>, \<open>relative_packed_offset\<close> never panics, it returns
  \<open>q\<close> exactly when \<open>a\<close> is an even distance below \<open>2^33\<close> above the base and \<open>q\<close> is half
  of that distance, and for a word-aligned base the shader's \<open>q / 2 + blob_base_words\<close> is
  then the word that holds byte \<open>a\<close>.
\<close>

theorem packed_offset_roundtrip:
  assumes "0 < a"
  shows "relative_packed_offset a base \<noteq> Panic \<and>
    ((relative_packed_offset a base = Ok q) =
      (base \<le> a \<and> even (a - base) \<and> a - base < 2 ^ 33 \<and> base + 2 * unat q = a)) \<and>
    (relative_packed_offset a base = Ok q \<and> base = 4 * unat b \<and> a < 2 ^ 34 \<longrightarrow>
      unat (q div 2 + b) = a div 4)"
proof (intro conjI impI)
  show "unat (q div 2 + b) = a div 4"
    if "relative_packed_offset a base = Ok q \<and> base = 4 * unat b \<and> a < 2 ^ 34"
    using that relative_packed_offset_word [OF _ assms, of b q] by blast
qed (rule relative_packed_offset_no_panic relative_packed_offset_Ok [OF assms])+

lemma packed_offset_roundtrip_witness:
  "relative_packed_offset 1000 252 \<noteq> Panic \<and> relative_packed_offset 1000 252 = Ok 374 \<and>
   unat (374 div 2 + 63 :: u32) = 1000 div 4"
  using packed_offset_roundtrip [of 1000 252 374 63] by simp

lemma window_chunks:
  assumes p: "plan_ok n p" and n: "n < 2 ^ 32" and hi: "4 * unat hi < n" and le: "lo \<le> hi"
    and w: "window_for_range lo hi (chunk_words_of p) (num_chunks p) = Ok w"
  shows "window_contains w a = (unat lo div unat (chunk_words_of p) \<le> unat a div unat (chunk_words_of p) \<and>
    unat a div unat (chunk_words_of p) \<le> unat hi div unat (chunk_words_of p))"
proof -
  obtain c where c: "0 < c" "unat (chunk_words_of p) = c" using plan_ok_words [OF p] by metis
  have ok: "window_ok w" by (rule planned_window_ok [OF p n hi le w])
  have d: "unat lo div c \<le> unat hi div c" using le by (simp add: div_le_mono word_le_nat_alt)
  note wf = w [unfolded window_for_range_Ok [OF chunk_words_of_pos [OF p] le] c(2)]
  have "unat (window_base_words w) = unat lo div c * c" "unat (window_end w) = (unat hi div c + 1) * c"
    unfolding window_base_nat [OF ok] window_end_nat [OF ok] using wf c(2) d by simp_all
  then have "window_contains w a = (unat lo div c * c \<le> unat a \<and> unat a < (unat hi div c + 1) * c)"
    by (simp add: window_contains_def word_le_nat_alt word_less_nat_alt)
  also have "\<dots> = (unat lo div c \<le> unat a div c \<and> unat a div c < unat hi div c + 1)"
    using c(1) by (simp add: less_eq_div_iff_mult_less_eq div_less_iff_less_mult mult.commute)
  finally show ?thesis by (simp add: c(2) less_Suc_eq_le)
qed

text \<open>The window of a half: the chunks from the first start to the last start of its tensors.\<close>

definition half_window_exact :: "chunk_plan \<Rightarrow> u32 \<Rightarrow> u32 list \<Rightarrow> (blob_window \<times> u32) option \<Rightarrow> bool" where
  "half_window_exact p base packs half =
     (let chunk_of = (\<lambda>a. unat a div unat (chunk_words_of p)) in
      case half of
        None \<Rightarrow> \<forall>q\<in>set packs. q = 0
      | Some (w, adjusted) \<Rightarrow>
          (\<forall>q\<in>set packs. q \<noteq> 0 \<longrightarrow> window_contains w (q div 2 + base) \<and>
             unat (q div 2 + adjusted) = unat (q div 2 + base) - unat (window_base_words w)) \<and>
          (\<forall>a. window_contains w a \<longleftrightarrow>
             (\<exists>q\<in>set packs. q \<noteq> 0 \<and> chunk_of (q div 2 + base) \<le> chunk_of a) \<and>
             (\<exists>q\<in>set packs. q \<noteq> 0 \<and> chunk_of a \<le> chunk_of (q div 2 + base))))"

lemma plan_half_exact:
  assumes p: "plan_ok n p" and n: "n < 2 ^ 32"
    and half: "plan_half (span_of base packs) base (chunk_words_of p) (num_chunks p) = Ok half"
    and packs: "\<forall>q\<in>set packs. q \<noteq> 0 \<longrightarrow> 4 * unat (q div 2 + base) < n"
  shows "half_window_exact p base packs half"
proof (cases "span_of base packs")
  case None
  then have "words_of base packs = {}" by (simp add: span_of_eq split: if_splits)
  then show ?thesis using half None by (auto simp: plan_half_def words_of_def half_window_exact_def)
next
  case (Some r)
  let ?ch = "\<lambda>x. unat x div unat (chunk_words_of p)"
  obtain lo hi where sp: "span_of base packs = Some (lo, hi)" using Some by (cases r) simp
  then obtain w where w: "window_for_range lo hi (chunk_words_of p) (num_chunks p) = Ok w"
    and h: "half = Some (w, base - window_base_words w)"
    using half by (auto simp: plan_half_def)
  obtain q1 where q1: "q1 \<in> set packs" "q1 \<noteq> 0" "lo = q1 div 2 + base" using span_of_attained(1) [OF sp] by blast
  obtain q2 where q2: "q2 \<in> set packs" "q2 \<noteq> 0" "hi = q2 div 2 + base" using span_of_attained(2) [OF sp] by blast
  have hi: "4 * unat hi < n" using packs q2 by blast
  have le: "lo \<le> hi" using span_of_bounds(1) [OF sp q2(1,2)] q2(3) by simp
  have mono: "?ch lo \<le> ?ch (q div 2 + base)" "?ch (q div 2 + base) \<le> ?ch hi" if "q \<in> set packs" "q \<noteq> 0" for q
    using span_of_bounds [OF sp that] by (simp_all add: div_le_mono word_le_nat_alt)
  have first: "(\<exists>q\<in>set packs. q \<noteq> 0 \<and> ?ch (q div 2 + base) \<le> ?ch a) \<longleftrightarrow> ?ch lo \<le> ?ch a" for a
    using mono(1) q1 order_trans by blast
  have final: "(\<exists>q\<in>set packs. q \<noteq> 0 \<and> ?ch a \<le> ?ch (q div 2 + base)) \<longleftrightarrow> ?ch a \<le> ?ch hi" for a
    using mono(2) q2 order_trans by blast
  have win: "window_contains w (q div 2 + base) \<and>
      unat (q div 2 + (base - window_base_words w)) = unat (q div 2 + base) - unat (window_base_words w)"
    if "q \<in> set packs" "q \<noteq> 0" for q
    using window_of_range [OF p n hi w span_of_bounds [OF sp that]] by (simp add: add_diff_eq)
  show ?thesis
    unfolding half_window_exact_def h Let_def option.case prod.case first final
    using win window_chunks [OF p n hi le w] by blast
qed

text \<open>
  When a layer is too wide for one window its attention and FFN halves get one each,
  planned from the tensors' starts: the window of a half is made of exactly the chunks from
  the one where its first tensor starts to the one where its last tensor starts. So the first
  word of every tensor of the half is in it, \<open>packed / 2\<close> plus the half's wrapped base is the
  distance of that word to the window's start, also when the window begins after the layer's
  base, and a word of a tensor's tail is in it only up to the chunk of the last start.
\<close>

theorem half_windows_from_starts:
  assumes "compute_chunk_plan n limit = Ok p" and "n < 2 ^ 32"
    and "plan_layer_half_windows offsets base (chunk_words_of p) (num_chunks p) = Ok (attn, ffn)"
    and "\<forall>q\<in>set (attention_packs offsets @ ffn_packs offsets). q \<noteq> 0 \<longrightarrow> 4 * unat (q div 2 + base) < n"
  shows "half_window_exact p base (attention_packs offsets) attn \<and> half_window_exact p base (ffn_packs offsets) ffn"
proof -
  have p: "plan_ok n p" using compute_chunk_plan_ok [OF assms(1)] by simp
  have h: "plan_half (span_of base (attention_packs offsets)) base (chunk_words_of p) (num_chunks p) = Ok attn"
    "plan_half (span_of base (ffn_packs offsets)) base (chunk_words_of p) (num_chunks p) = Ok ffn"
    using assms(3) by (auto simp: plan_layer_half_windows_def word_span_attention_def word_span_ffn_def)
  show ?thesis using plan_half_exact [OF p assms(2) h(1)] plan_half_exact [OF p assms(2) h(2)] assms(4) by simp
qed

lemma half_windows_from_starts_witness:
  "\<exists>attn w adjusted. plan_layer_half_windows (no_offsets\<lparr>attn_norm := 2, ffn_up := 174\<rparr>) 63 64 4 = Ok (attn, Some (w, adjusted)) \<and>
    window_contains w (174 div 2 + 63) \<and> unat (174 div 2 + adjusted) = 150 - unat (window_base_words w) \<and>
    window_contains w 191 \<and> \<not> window_contains w 192"
proof -
  let ?o = "no_offsets\<lparr>attn_norm := 2, ffn_up := 174\<rparr>"
  let ?w = "\<lambda>s. \<lparr>start_chunk = s, slot_count = 1, chunk_words = 64, total_resident_chunks = 4\<rparr> :: blob_window"
  have p: "attention_packs ?o = [2, 0, 0, 0, 0, 0, 0, 0, 0, 0, 0]" "ffn_packs ?o = [0, 0, 0, 174, 0]"
    by (simp_all add: attention_packs_def ffn_packs_def no_offsets_def)
  have "span_of 63 [2, 0, 0, 0, 0, 0, 0, 0, 0, 0, 0] = Some (64, 64)" "span_of 63 [0, 0, 0, 174, 0] = Some (150, 150)"
    by (simp_all add: span_of_def span_check_def Let_def)
  moreover have "window_for_range 64 64 64 4 = Ok (?w 1)" "window_for_range 150 150 64 4 = Ok (?w 2)"
    by (subst window_for_range_Ok; simp)+
  ultimately have *: "plan_layer_half_windows ?o 63 64 4 =
      Ok (Some (?w 1, 63 - window_base_words (?w 1)), Some (?w 2, 63 - window_base_words (?w 2)))"
    by (simp add: plan_layer_half_windows_def word_span_attention_def word_span_ffn_def p plan_half_def
        del: and_then_eq_Ok)
  then have "plan_layer_half_windows ?o 63 (chunk_words_of sample_plan) (num_chunks sample_plan) =
      Ok (Some (?w 1, 63 - window_base_words (?w 1)), Some (?w 2, 63 - window_base_words (?w 2)))"
    by (simp only: sample_chunk_words) (simp add: sample_plan_def)
  from half_windows_from_starts [OF sample_chunk_plan _ this] have
    "half_window_exact sample_plan 63 [0, 0, 0, 174, 0] (Some (?w 2, 63 - window_base_words (?w 2)))"
    by (simp add: p)
  then have "window_contains (?w 2) (174 div 2 + 63) \<and>
      unat (174 div 2 + (63 - window_base_words (?w 2))) = 150 - unat (window_base_words (?w 2)) \<and>
      (\<forall>a. window_contains (?w 2) a \<longleftrightarrow> 2 \<le> unat a div 64 \<and> unat a div 64 \<le> 2)"
    unfolding half_window_exact_def Let_def option.case prod.case sample_chunk_words by simp
  then have "window_contains (?w 2) (174 div 2 + 63)"
    "unat (174 div 2 + (63 - window_base_words (?w 2))) = 150 - unat (window_base_words (?w 2))"
    "window_contains (?w 2) 191" "\<not> window_contains (?w 2) 192" by simp_all
  with * show ?thesis by blast
qed

text \<open>
  The saturating rebase of \<open>plan_layer_window\<close> is right exactly when the window does not
  start after the layer's base. When the layer's first tensor begins a chunk, its base
  (one word before) lies in the chunk before the window, and the planner returns a base of
  zero: the shader reads every tensor one word too far, where the wrapping rebase of the
  half-window planner is right.
\<close>

lemma plan_layer_window_base:
  assumes "plan_layer_window offsets base cw resident = Ok (Some w, adjusted)"
  shows "(\<forall>q. q div 2 + adjusted = q div 2 + base - window_base_words w) = (window_base_words w \<le> base)"
proof -
  have a: "adjusted = saturating_sub_u32 base (window_base_words w)"
    using assms by (auto simp: plan_layer_window_def split: option.splits)
  show ?thesis
  proof
    assume "\<forall>q. q div 2 + adjusted = q div 2 + base - window_base_words w"
    then have "adjusted = base - window_base_words w" by (metis add_0 div_0)
    then show "window_base_words w \<le> base"
      by (cases "window_base_words w \<le> base") (simp_all add: a saturating_sub_u32_def)
  qed (simp add: a saturating_sub_u32_def add_diff_eq)
qed

lemma plan_layer_window_saturates:
  "\<exists>w. plan_layer_window (no_offsets\<lparr>attn_norm := 2\<rparr>) 63 64 4 = Ok (Some w, 0) \<and>
     absolute_to_local w (2 div 2 + 63) = Ok (0, 0) \<and>
     absolute_to_local w (2 div 2 + window_base_words w) = Ok (0, 1)"
proof -
  let ?w = "\<lparr>start_chunk = 1, slot_count = 1, chunk_words = 64, total_resident_chunks = 4\<rparr> :: blob_window"
  have "word_span (no_offsets\<lparr>attn_norm := 2\<rparr>) 63 = Some (64, 64)"
    by (simp add: word_span_def span_of_def layer_packs_def no_offsets_def span_check_def Let_def)
  moreover have "window_for_range 64 64 64 4 = Ok ?w" by (subst window_for_range_Ok) simp_all
  moreover have "window_ok ?w" by (simp add: window_ok_def)
  ultimately show ?thesis
    by (intro exI [of _ ?w]) (simp add: plan_layer_window_def saturating_sub_u32_def window_base_words_def
        absolute_to_local_eq del: and_then_eq_Ok)
qed

section \<open>Single-tensor windows\<close>

lemma quant_block_geometry_pos:
  "quant_block_geometry t = Some (e, b) \<Longrightarrow> 0 < e \<and> e \<le> 256 \<and> 0 < b \<and> b \<le> 210"
  by (auto simp: quant_block_geometry_def block_elems_def block_bytes_def formula_for_type_def
      quant_formulas_def split: if_splits option.splits)

text \<open>
  The window of a dequantization dispatch covers every byte the shader reads: for
  \<open>count\<close> elements of a registered type stored from word \<open>off\<close> on, inside the file, each
  byte of the block of each element lies in the window, whole trailing blocks included.
\<close>

theorem dequant_window_covers:
  assumes "compute_chunk_plan n limit = Ok p" and "n < 2 ^ 32"
    and "quant_block_geometry t = Some (elems, bytes)"
    and "4 * unat off + div_ceil (unat count) elems * bytes \<le> n"
    and "dequant_window p off count t = Ok w"
    and "i < unat count" and "k < bytes"
  shows "window_contains w (word_of_nat ((4 * unat off + (i div elems) * bytes + k) div 4))"
proof -
  have p: "plan_ok n p" using compute_chunk_plan_ok [OF assms(1)] by simp
  have g: "0 < elems" "0 < bytes" "bytes \<le> 210"
    using quant_block_geometry_pos [OF assms(3)] by simp_all
  define len where "len = div_ceil (unat count) elems * bytes"
  have n: "4 * unat off + len \<le> n" "len < u64_range" using assms(2,4) by (simp_all add: len_def u64_range_def)
  have b: "i div elems * bytes + k < len"
  proof -
    have "i div elems < div_ceil (unat count) elems" by (rule div_ceil_block [OF g(1) assms(6)])
    then have "i div elems * bytes + bytes \<le> len"
      unfolding len_def by (metis Suc_leI add.commute mult_Suc mult_le_mono1)
    with assms(7) show ?thesis by linarith
  qed
  define hi where "hi = unat off + (len - 1) div 4"
  have hi: "4 * hi < n" "hi < 2 ^ 32" using b n(1) assms(2) by (simp_all add: hi_def)
  have u: "unat (word_of_nat hi :: u32) = hi" using hi by (simp add: unat_of_nat)
  have w: "window_for_range off (word_of_nat hi) (chunk_words_of p) (num_chunks p) = Ok w"
    using assms(5) n(2) hi(2)
    by (simp add: dequant_window_def assms(3) res_simps Let_def len_def hi_def u64_range_def)
  have m: "(4 * unat off + i div elems * bytes + k) div 4 = unat off + (i div elems * bytes + k) div 4"
    by simp
  have le: "unat off + (i div elems * bytes + k) div 4 \<le> hi"
    using b by (simp add: hi_def div_le_mono)
  then have u2: "unat (word_of_nat (unat off + (i div elems * bytes + k) div 4) :: u32) =
      unat off + (i div elems * bytes + k) div 4"
    using hi by (intro unat_word_of_nat_small) simp
  show ?thesis
    unfolding m
    by (rule window_of_range(1) [OF p assms(2) _ w]) (use u u2 le hi in \<open>simp_all add: word_le_nat_alt\<close>)
qed

lemma dequant_window_covers_witness:
  "\<exists>w. dequant_window sample_plan 60 70 2 = Ok w \<and>
     window_contains w (word_of_nat ((4 * unat (60 :: u32) + (69 div 32) * 18 + 17) div 4))"
proof -
  have g: "quant_block_geometry 2 = Some (32, 18)"
    by (simp add: quant_block_geometry_def block_elems_def block_bytes_def formula_for_type_def
        quant_formulas_def)
  have "window_for_range 60 73 64 4 =
      Ok \<lparr>start_chunk = 0, slot_count = 2, chunk_words = 64, total_resident_chunks = 4\<rparr>"
    by (subst window_for_range_Ok) simp_all
  then have w: "dequant_window sample_plan 60 70 2 =
      Ok \<lparr>start_chunk = 0, slot_count = 2, chunk_words = 64, total_resident_chunks = 4\<rparr>"
    by (simp add: dequant_window_def g res_simps div_ceil_def sample_chunk_words u64_range_def)
      (simp add: sample_plan_def)
  from dequant_window_covers [OF sample_chunk_plan _ g _ w, of 69 17] w show ?thesis
    by (simp add: div_ceil_def)
qed

text \<open>
  C32: The window of an LM-head tile covers every byte of its rows: for a head tensor of a
  registered type (the output matrix, or the embedding when the head is tied) whose rows
  lie in the file, each byte of each of the rows \<open>base_row .. base_row + rows\<close> is in it.
\<close>

theorem lm_head_window_covers:
  assumes "compute_chunk_plan n limit = Ok p" and "n < 2 ^ 32"
    and "name = (if types ''output.weight'' \<noteq> None then ''output.weight'' else ''token_embd.weight'')"
    and "types name = Some t" and "offsets name = Some start"
    and "quant_block_geometry t = Some (elems, bytes)"
    and "row_bytes = unat dim1 div elems * bytes"
    and "start + (unat base_row + unat rows) * row_bytes \<le> n"
    and "lm_head_window p types offsets base_row rows dim1 = Ok w"
    and "r < unat rows" and "k < row_bytes"
  shows "window_contains w (word_of_nat ((start + (unat base_row + r) * row_bytes + k) div 4))"
proof -
  have p: "plan_ok n p" using compute_chunk_plan_ok [OF assms(1)] by simp
  let ?a = "start + unat base_row * row_bytes"
  let ?e = "start + (unat base_row + unat rows) * row_bytes"
  let ?x = "start + (unat base_row + r) * row_bytes + k"
  have rows: "rows \<noteq> 0" using assms(10) by auto
  have lr: "(r + 1) * row_bytes \<le> unat rows * row_bytes" using assms(10) by (intro mult_le_mono1) simp
  then have x: "?a \<le> ?x" "?x \<le> ?e - 1" using assms(11) by (simp_all add: add_mult_distrib)
  have e: "?a < ?e" "?e \<le> n" 
  proof -
    have "0 < unat rows * row_bytes" using lr assms(11) by (auto intro: gr0I)
    then show "?a < ?e" "?e \<le> n" using assms(8) by (simp_all add: add_mult_distrib)
  qed
  have small: "n < u64_range" using assms(2) by (simp add: u64_range_def)
  have b1: "unat base_row * row_bytes < u64_range" "(unat base_row + unat rows) * row_bytes < u64_range"
    "row_bytes < u64_range" "unat base_row + unat rows < u64_range"
  proof -
    show "unat base_row * row_bytes < u64_range" "(unat base_row + unat rows) * row_bytes < u64_range"
      using e small by linarith+
    have "row_bytes \<le> (unat base_row + unat rows) * row_bytes" using assms(10) by simp
    then show "row_bytes < u64_range" using e small by linarith
    show "unat base_row + unat rows < u64_range"
      using unat_u32_less [of base_row] unat_u32_less [of rows] by (simp add: u64_range_def)
  qed
  note h = assms(9) [unfolded lm_head_window_def Let_def assms(3) [symmetric],
      unfolded assms(4-6) option.case ok_or_eval and_then.simps prod.case]
  have dim1: "unat dim1 mod elems = 0"
    using h by (auto split: if_splits)
  have w: "window_for_range (word_of_nat (?a div 4)) (word_of_nat ((?e - 1) div 4))
      (chunk_words_of p) (num_chunks p) = Ok w"
  proof -
    have "wmul (unat dim1 div elems) bytes = row_bytes" using b1(3) by (simp add: assms(7))
    then show ?thesis
      using h rows dim1 b1 e small by simp
  qed
  have u: "unat (word_of_nat (m div 4) :: u32) = m div 4" if "m < n" for m
    using that assms(2) by (simp add: unat_of_nat)
  have lt: "?a < n" "?x < n" "?e - 1 < n" using x e by linarith+
  show ?thesis
  proof (rule window_of_range(1) [OF p assms(2) _ w])
    show "4 * unat (word_of_nat ((?e - 1) div 4) :: u32) < n" unfolding u [OF lt(3)] using lt(3) by linarith
    show "(word_of_nat (?a div 4) :: u32) \<le> word_of_nat (?x div 4)"
      unfolding word_le_nat_alt u [OF lt(1)] u [OF lt(2)] using x(1) by (rule div_le_mono)
    show "(word_of_nat (?x div 4) :: u32) \<le> word_of_nat ((?e - 1) div 4)"
      unfolding word_le_nat_alt u [OF lt(2)] u [OF lt(3)] using x(2) by (rule div_le_mono)
  qed
qed

definition sample_types :: "string \<Rightarrow> nat option" where
  "sample_types = [''output.weight'' \<mapsto> 2]"

definition sample_tensor_offsets :: "string \<Rightarrow> nat option" where
  "sample_tensor_offsets = [''output.weight'' \<mapsto> 200]"

lemma lm_head_window_covers_witness:
  "\<exists>w. lm_head_window sample_plan sample_types sample_tensor_offsets 1 5 32 = Ok w \<and>
     window_contains w (word_of_nat ((200 + (unat (1 :: u32) + 4) * 18 + 17) div 4))"
proof -
  have g: "quant_block_geometry 2 = Some (32, 18)"
    by (simp add: quant_block_geometry_def block_elems_def block_bytes_def formula_for_type_def
        quant_formulas_def)
  have "window_for_range 54 76 64 4 =
      Ok \<lparr>start_chunk = 0, slot_count = 2, chunk_words = 64, total_resident_chunks = 4\<rparr>"
    by (subst window_for_range_Ok) simp_all
  then have w: "lm_head_window sample_plan sample_types sample_tensor_offsets 1 5 32 =
      Ok \<lparr>start_chunk = 0, slot_count = 2, chunk_words = 64, total_resident_chunks = 4\<rparr>"
    by (simp add: lm_head_window_def g res_simps sample_types_def sample_tensor_offsets_def Let_def
        sample_chunk_words u64_range_def del: One_nat_def)
      (simp add: sample_plan_def)
  from lm_head_window_covers [OF sample_chunk_plan _ refl _ _ g refl _ w, of 200 4 17] w show ?thesis
    by (simp add: sample_types_def sample_tensor_offsets_def)
qed

end
