(* ===== verification/Kernel_Policy.thy ===== *)
theory Kernel_Policy
  imports Layer_Window
begin

text \<open>
  Which kernel may serve a dispatch and how it is cut into safe pieces
  (\<open>src/src/backend/bindless/pipeline/mod.rs\<close>, \<open>scratch_layout.rs\<close>, the LM-head tile loop
  of \<open>matmul.rs\<close> and \<open>inference.rs\<close>, \<open>src/src/backend/tdr_calibration.rs\<close>).
\<close>

section \<open>Layer parameters\<close>

record layer_params =
  lp_dim :: u32
  lp_head_count :: u32
  lp_head_count_kv :: u32
  lp_head_dim :: u32
  lp_rope_dim :: u32
  lp_rope_neox :: u32
  lp_rms_eps :: f32
  lp_ffn_dim :: u32
  lp_temp_stride :: u32
  lp_quant_qk :: u32
  lp_quant_v :: u32
  lp_quant_attn_out :: u32
  lp_quant_ffn_down :: u32
  lp_quant_ffn_gate :: u32
  lp_quant_ffn_up :: u32
  lp_attn_logit_softcap :: f32
  lp_post_norm_enabled :: u32
  lp_qk_norm_enabled :: u32
  lp_layer_norm_enabled :: u32
  lp_ffn_kind_policy :: u32
  lp_qkv_layout_policy :: u32
  lp_batch_offset :: u32
  lp_batch_count :: u32
  lp_q_weight_k :: u32
  lp_k_weight_k :: u32
  lp_formula_qk :: u32
  lp_formula_v :: u32
  lp_formula_attn_out :: u32
  lp_formula_ffn_down :: u32
  lp_formula_ffn_gate :: u32
  lp_formula_ffn_up :: u32
  lp_blob_base_words :: u32
  lp_chunk_words :: u32

definition formula_index_for_ggml :: "nat \<Rightarrow> u32" where
  "formula_index_for_ggml type_id =
     (case slot_for_type type_id of None \<Rightarrow> 0 | Some s \<Rightarrow> word_of_nat (slot_as_u32 s))"

definition formula_row_supported :: "u32 \<Rightarrow> u32 \<Rightarrow> bool" where
  "formula_row_supported cols slot =
     (case (if slot = 0 \<or> slot = 1 then Some 1
            else if 2 \<le> slot \<and> slot \<le> 4 then Some 32
            else if 5 \<le> slot \<and> slot \<le> 7 then Some 256
            else None) of
        None \<Rightarrow> False
      | Some block \<Rightarrow> 0 < cols \<and> cols mod block = 0)"

definition staged_ffn_eligible :: "layer_params \<Rightarrow> layer_offsets \<Rightarrow> bool" where
  "staged_ffn_eligible p offs =
     (let gated = lp_ffn_kind_policy p = 1 \<or> (lp_ffn_kind_policy p = 0 \<and> ffn_gate offs \<noteq> 0) in
      gated \<and> lp_layer_norm_enabled p = 0 \<and> lp_post_norm_enabled p = 0 \<and> ffn_norm_bias offs = 0 \<and>
      formula_row_supported (lp_dim p) (lp_formula_ffn_gate p) \<and>
      formula_row_supported (lp_dim p) (lp_formula_ffn_up p))"

definition vectorized_ffn_eligible :: "layer_params \<Rightarrow> layer_offsets \<Rightarrow> bool" where
  "vectorized_ffn_eligible p offs =
     (0 < lp_dim p \<and> lp_dim p mod 256 = 0 \<and>
      (lp_formula_ffn_gate p = 5 \<or> lp_formula_ffn_gate p = 7) \<and>
      (lp_formula_ffn_up p = 5 \<or> lp_formula_ffn_up p = 7) \<and> staged_ffn_eligible p offs)"

definition checked_mul_u32 :: "u32 \<Rightarrow> u32 \<Rightarrow> u32 option" where
  "checked_mul_u32 a b = (if unat a * unat b < u32_range then Some (a * b) else None)"

definition checked_add_u32 :: "u32 \<Rightarrow> u32 \<Rightarrow> u32 option" where
  "checked_add_u32 a b = (if unat a + unat b < u32_range then Some (a + b) else None)"

definition cooperative_attn_proj_eligible :: "layer_params \<Rightarrow> bool" where
  "cooperative_attn_proj_eligible p =
     (0 < lp_dim p \<and> lp_dim p \<le> 65535 \<and> lp_layer_norm_enabled p = 0 \<and> lp_post_norm_enabled p = 0 \<and>
      (case checked_mul_u32 (lp_head_count p) (lp_head_dim p) of
         None \<Rightarrow> False
       | Some cols \<Rightarrow> formula_row_supported cols (lp_formula_attn_out p) \<and>
           (case Option.bind (checked_mul_u32 (lp_dim p) 2) (\<lambda>d. checked_add_u32 d cols) of
              None \<Rightarrow> False | Some stop \<Rightarrow> stop \<le> lp_temp_stride p)))"

definition cooperative_qkv_eligible :: "layer_params \<Rightarrow> bool" where
  "cooperative_qkv_eligible p =
     (let q = checked_mul_u32 (lp_head_count p) (lp_head_dim p);
          kv = checked_mul_u32 (lp_head_count_kv p) (lp_head_dim p) in
      lp_layer_norm_enabled p = 0 \<and> lp_post_norm_enabled p = 0 \<and>
      0 < lp_head_count_kv p \<and> lp_head_count_kv p \<le> lp_head_count p \<and>
      (case Option.bind q (\<lambda>q. Option.bind kv (\<lambda>k. Option.bind (checked_mul_u32 k 2) (checked_add_u32 q))) of
         None \<Rightarrow> False | Some n \<Rightarrow> 0 < n \<and> n \<le> 65535) \<and>
      formula_row_supported (lp_dim p) (lp_formula_qk p) \<and>
      formula_row_supported (lp_dim p) (lp_formula_v p))"

definition cooperative_down_eligible :: "layer_params \<Rightarrow> layer_offsets \<Rightarrow> u32 \<Rightarrow> bool" where
  "cooperative_down_eligible p offs batch =
     (0 < batch \<and> batch \<le> 65535 \<and> formula_row_supported (lp_ffn_dim p) (lp_formula_ffn_down p) \<and>
      staged_ffn_eligible p offs)"

text \<open>\<open>query_offset\<close> of \<open>scratch_layout.rs\<close>.\<close>

definition query_offset :: "u32 \<Rightarrow> u32 \<Rightarrow> u32 \<Rightarrow> u32 str_res" where
  "query_offset hidden query_width stride =
     (if hidden = 0 \<or> query_width = 0 then Err ''attention scratch requires nonzero dimensions''
      else let offset = max hidden query_width in
        and_then (ok_or (checked_add_u32 offset query_width) ''attention query scratch overflow'') (\<lambda>stop.
        if stride < stop then Err ''attention query scratch exceeds token stride'' else Ok offset))"

section \<open>TDR risk and calibration\<close>

definition derive_tdr_risk_from_metadata :: "nat \<Rightarrow> string" where
  "derive_tdr_risk_from_metadata n_vocab =
     (if 200000 < n_vocab then ''High'' else if 100000 < n_vocab then ''Medium'' else ''Low'')"

definition risk_level_string :: "nat \<Rightarrow> string" where
  "risk_level_string n_vocab =
     (let risk = derive_tdr_risk_from_metadata n_vocab in
      if risk = ''High'' then ''TDR_RISK_HIGH''
      else if risk = ''Medium'' then ''TDR_RISK_MEDIUM'' else ''TDR_RISK_LOW'')"

record pipeline_calibration =
  safe_workgroups :: u32
  measured_ms :: nat
  budget_ms :: nat

record calibration_cache =
  cc_version :: nat
  cc_gpu :: string
  cc_last_updated :: string
  cc_pipelines :: "string \<rightharpoonup> (string \<rightharpoonup> pipeline_calibration)"

definition calibration_empty :: "string \<Rightarrow> calibration_cache" where
  "calibration_empty gpu_name = \<lparr>cc_version = 1, cc_gpu = gpu_name, cc_last_updated = [], cc_pipelines = Map.empty\<rparr>"

definition get_safe_workgroups :: "string \<Rightarrow> u32 \<Rightarrow> calibration_cache \<Rightarrow> u32 option" where
  "get_safe_workgroups pipeline n_embd cache =
     map_option safe_workgroups (Option.bind (cc_pipelines cache pipeline) (\<lambda>dims. dims (dec (unat n_embd))))"

definition set_calibration :: "string \<Rightarrow> u32 \<Rightarrow> u32 \<Rightarrow> nat \<Rightarrow> nat \<Rightarrow> calibration_cache \<Rightarrow> calibration_cache" where
  "set_calibration pipeline n_embd safe measured budget cache =
     (let entry = \<lparr>safe_workgroups = safe, measured_ms = measured, budget_ms = budget\<rparr>;
          dims = (case cc_pipelines cache pipeline of None \<Rightarrow> Map.empty | Some d \<Rightarrow> d)
      in cache\<lparr>cc_pipelines := (cc_pipelines cache)(pipeline \<mapsto> dims(dec (unat n_embd) \<mapsto> entry))\<rparr>)"

text \<open>
  \<open>ensure_calibrated\<close>, from the cache that \<open>load_cache\<close> reads; the second component is the
  cache it saves.
\<close>

definition ensure_calibrated ::
    "calibration_cache option \<Rightarrow> string \<Rightarrow> string \<Rightarrow> u32 \<Rightarrow> u32 \<times> calibration_cache option" where
  "ensure_calibrated loaded gpu_name pipeline n_embd =
     (let cache = (case loaded of None \<Rightarrow> calibration_empty gpu_name | Some c \<Rightarrow> c) in
      case get_safe_workgroups pipeline n_embd cache of
        Some safe \<Rightarrow> (safe, None)
      | None \<Rightarrow> (512, Some (set_calibration pipeline n_embd 512 0 0 cache)))"

section \<open>Tiles of the LM head\<close>

text \<open>
  The \<open>while\<close> loop of the tiled head: the workgroups, the first row and the window of each
  dispatch. A window that does not resolve is an \<open>expect\<close> and so a panic; the label of the
  dispatch divides by \<open>max_safe_wgs\<close>, which panics at zero.
\<close>

definition head_tile_size :: u32 where "head_tile_size = 64"

definition total_workgroups :: "u32 \<Rightarrow> u32" where
  "total_workgroups vocab_size = word_of_nat (div_ceil (unat vocab_size) (unat head_tile_size))"

function head_tiles ::
    "chunk_plan \<Rightarrow> (string \<Rightarrow> nat option) \<Rightarrow> (string \<Rightarrow> nat option) \<Rightarrow> u32 \<Rightarrow> u32 \<Rightarrow> u32 \<Rightarrow> u32 \<Rightarrow>
     (u32 \<times> u32 \<times> blob_window) list str_res" where
  "head_tiles p types offsets dim1 total_wgs max_safe_wgs dispatched =
     (if dispatched < total_wgs then
        (let this_tile = min (total_wgs - dispatched) max_safe_wgs;
             base_row = dispatched * head_tile_size
         in case lm_head_window p types offsets base_row (this_tile * head_tile_size) dim1 of
              Ok w \<Rightarrow>
                if max_safe_wgs = 0 then Panic
                else and_then (head_tiles p types offsets dim1 total_wgs max_safe_wgs (dispatched + this_tile))
                  (\<lambda>tiles. Ok ((this_tile, base_row, w) # tiles))
            | _ \<Rightarrow> Panic)
      else Ok [])"
  by auto

lemma next_tile:
  assumes "d < tw" and "0 < m"
  shows "0 < min (tw - d) m" and "unat (d + min (tw - d) m) = unat d + unat (min (tw - d) m)" and "d + min (tw - d) m \<le> (tw :: u32)"
proof -
  let ?t = "min (tw - d) m"
  have du: "unat d < unat tw" using assms(1) by (simp add: word_less_nat_alt)
  have sub: "unat (tw - d) = unat tw - unat d" using assms(1) by (simp add: unat_sub)
  show "0 < ?t" using sub du assms(2) by (simp add: word_less_nat_alt)
  have tle: "unat ?t \<le> unat tw - unat d" using sub by (simp add: min_def word_le_nat_alt)
  show dt: "unat (d + ?t) = unat d + unat ?t" using tle du unat_u32_less [of tw] by (intro unat_add_small) simp
  show "d + ?t \<le> tw" unfolding word_le_nat_alt dt using tle du by simp
qed

termination head_tiles
proof (relation "measure (\<lambda>(p, types, offsets, dim1, tw, m, d). unat tw - unat d)")
  fix p types offsets and dim1 tw m d x xa :: u32 and w
  assume d: "d < tw" and x: "x = min (tw - d) m" and m: "m \<noteq> 0"
  have "0 < m" using m by (simp add: word_neq_0_conv)
  note n = next_tile [OF d this, folded x]
  have "unat d < unat tw" using d by (simp add: word_less_nat_alt)
  moreover have "0 < unat x" using n(1) by (simp add: word_less_nat_alt)
  ultimately show "((p, types, offsets, dim1, tw, m, d + x), (p, types, offsets, dim1, tw, m, d))
      \<in> measure (\<lambda>(p, types, offsets, dim1, tw, m, d). unat tw - unat d)"
    using n(2) by simp
qed simp

declare head_tiles.simps [simp del]

section \<open>The guards agree with the registry and keep rows in the scratch\<close>

lemma mod_word_iff: "((a :: u32) mod b = 0) = (unat a mod unat b = 0)"
  by (metis unat_0 unat_eq_zero unat_mod)

text \<open>
  The row guard of the experimental kernels is the registry's block size: for a weight
  of GGML type \<open>t\<close>, the dispatch slot of \<open>t\<close> accepts a row of \<open>cols\<close> elements exactly when
  the row is a positive whole number of the registry's blocks of \<open>t\<close>; an unregistered type
  falls back to the F32 slot, which accepts every nonempty row.
\<close>

theorem formula_row_registry:
  "formula_row_supported cols (formula_index_for_ggml t) =
     (0 < cols \<and> (case block_elems t of None \<Rightarrow> True | Some e \<Rightarrow> unat cols mod e = 0))"
  by (simp add: formula_row_supported_def formula_index_for_ggml_def slot_for_type_def block_elems_def
      formula_for_type_def quant_formulas_def mod_word_iff)

lemma checked_mul_u32_Some: "(checked_mul_u32 a b = Some c) = (c = a * b \<and> unat a * unat b < 2 ^ 32)"
  by (auto simp: checked_mul_u32_def u32_range_def)

lemma checked_add_u32_Some: "(checked_add_u32 a b = Some c) = (c = a + b \<and> unat a + unat b < 2 ^ 32)"
  by (auto simp: checked_add_u32_def u32_range_def)

lemma unat_mult_small: "unat a * unat b < 2 ^ 32 \<Longrightarrow> unat (a * b :: u32) = unat a * unat b"
  by (simp add: unat_word_ariths)

text \<open>
  The cooperative attention projection is chosen only when its accesses fit: the
  \<open>heads * head_dim\<close> attention columns are a whole number of weight blocks, and two hidden
  rows and the columns lie inside one token's scratch stride, counted in unbounded
  integers, so no product or sum of the guard has wrapped.
\<close>

theorem cooperative_attn_in_scratch:
  assumes "cooperative_attn_proj_eligible p"
  shows "0 < unat (lp_head_count p) * unat (lp_head_dim p) \<and>
    formula_row_supported (lp_head_count p * lp_head_dim p) (lp_formula_attn_out p) \<and>
    unat (lp_head_count p * lp_head_dim p) = unat (lp_head_count p) * unat (lp_head_dim p) \<and>
    2 * unat (lp_dim p) + unat (lp_head_count p) * unat (lp_head_dim p) \<le> unat (lp_temp_stride p)"
proof -
  let ?c = "lp_head_count p * lp_head_dim p"
  from assms obtain cols d stop where
    c: "checked_mul_u32 (lp_head_count p) (lp_head_dim p) = Some cols"
    and f: "formula_row_supported cols (lp_formula_attn_out p)"
    and d: "checked_mul_u32 (lp_dim p) 2 = Some d" and e: "checked_add_u32 d cols = Some stop"
    and s: "stop \<le> lp_temp_stride p"
    by (auto simp: cooperative_attn_proj_eligible_def bind_eq_Some_conv split: option.splits)
  from c have cols: "cols = ?c" and u: "unat ?c = unat (lp_head_count p) * unat (lp_head_dim p)"
    by (simp_all add: checked_mul_u32_Some unat_mult_small)
  from d have ud: "unat d = unat (lp_dim p) * 2"
    by (simp add: checked_mul_u32_Some unat_mult_small [of "lp_dim p" 2, simplified])
  from e have "unat stop = unat d + unat cols" by (simp add: checked_add_u32_Some unat_add_small)
  moreover from s have "unat stop \<le> unat (lp_temp_stride p)" by (simp add: word_le_nat_alt)
  moreover have "0 < unat ?c"
    using f by (auto simp: cols formula_row_supported_def word_less_nat_alt split: option.splits if_splits)
  ultimately show ?thesis using f ud u by (simp add: cols)
qed

definition sample_params :: layer_params where
  "sample_params = \<lparr>lp_dim = 8, lp_head_count = 1, lp_head_count_kv = 1, lp_head_dim = 256,
     lp_rope_dim = 256, lp_rope_neox = 0, lp_rms_eps = 0, lp_ffn_dim = 8, lp_temp_stride = 272,
     lp_quant_qk = 0, lp_quant_v = 0, lp_quant_attn_out = 12, lp_quant_ffn_down = 0,
     lp_quant_ffn_gate = 0, lp_quant_ffn_up = 0, lp_attn_logit_softcap = 0, lp_post_norm_enabled = 0,
     lp_qk_norm_enabled = 0, lp_layer_norm_enabled = 0, lp_ffn_kind_policy = 0, lp_qkv_layout_policy = 0,
     lp_batch_offset = 0, lp_batch_count = 1, lp_q_weight_k = 0, lp_k_weight_k = 0, lp_formula_qk = 0,
     lp_formula_v = 0, lp_formula_attn_out = 5, lp_formula_ffn_down = 0, lp_formula_ffn_gate = 0,
     lp_formula_ffn_up = 0, lp_blob_base_words = 0, lp_chunk_words = 64\<rparr>"

lemma cooperative_attn_in_scratch_witness:
  "cooperative_attn_proj_eligible sample_params \<and>
   2 * unat (lp_dim sample_params) + unat (lp_head_count sample_params) * unat (lp_head_dim sample_params) \<le> 272"
proof -
  have e: "cooperative_attn_proj_eligible sample_params"
    by (simp add: cooperative_attn_proj_eligible_def sample_params_def checked_mul_u32_def checked_add_u32_def
        u32_range_def formula_row_supported_def)
  from cooperative_attn_in_scratch [OF e] e show ?thesis by (simp add: sample_params_def)
qed

lemma query_offset_Ok_iff:
  "is_ok (query_offset hidden q stride) =
     (0 < unat hidden \<and> 0 < unat q \<and> max (unat hidden) (unat q) + unat q \<le> unat stride)"
proof -
  have m: "unat (max hidden q) = max (unat hidden) (unat q)" by (simp add: max_def word_le_nat_alt)
  have z: "(x = 0) = (unat x = 0)" for x :: u32 by (simp add: unat_eq_0)
  show ?thesis
  proof (cases "max (unat hidden) (unat q) + unat q < 2 ^ 32")
    case True
    then have "unat (max hidden q + q) = max (unat hidden) (unat q) + unat q" by (simp add: unat_add_small m)
    with True show ?thesis
      by (auto simp: query_offset_def Let_def checked_add_u32_def u32_range_def res_simps m z word_less_nat_alt)
  next
    case False
    then have "unat stride < max (unat hidden) (unat q) + unat q" using unat_u32_less [of stride] by simp
    with False show ?thesis
      by (auto simp: query_offset_def Let_def checked_add_u32_def u32_range_def res_simps m z)
  qed
qed

text \<open>
  The attention scratch has room for the query beside everything live: \<open>query_offset\<close>
  succeeds exactly when both widths are positive and the query fits behind the wider of the
  hidden row and the attention context (both start at zero), and then returns the first
  free position; it never panics.
\<close>

theorem query_offset_disjoint:
  "query_offset hidden q stride \<noteq> Panic \<and>
   ((query_offset hidden q stride = Ok off) =
     (0 < hidden \<and> 0 < q \<and> off = max hidden q \<and>
      {0..<unat hidden} \<inter> {unat off..<unat off + unat q} = {} \<and>
      {0..<unat q} \<inter> {unat off..<unat off + unat q} = {} \<and>
      unat off + unat q \<le> unat stride))"
proof -
  let ?o = "max hidden q"
  have o: "unat hidden \<le> unat ?o" "unat q \<le> unat ?o" by (simp_all add: max_def word_le_nat_alt)
  have d: "{0..<unat hidden} \<inter> {unat ?o..<unat ?o + unat q} = {}" "{0..<unat q} \<inter> {unat ?o..<unat ?o + unat q} = {}"
    using o by auto
  have "query_offset hidden q stride \<noteq> Panic"
    by (simp add: query_offset_def Let_def and_then_eq_Panic)
  moreover have "(query_offset hidden q stride = Ok off) =
      (0 < hidden \<and> 0 < q \<and> off = ?o \<and> unat ?o + unat q \<le> unat stride)"
  proof (cases "unat ?o + unat q < 2 ^ 32")
    case True
    then have s: "(?o + q \<le> stride) = (unat ?o + unat q \<le> unat stride)"
      by (simp add: word_le_nat_alt unat_add_small)
    show ?thesis
      using True by (auto simp: query_offset_def Let_def checked_add_u32_def u32_range_def res_simps s
          not_less word_neq_0_conv simp flip: s)
  next
    case False
    then have "unat stride < unat ?o + unat q" using unat_u32_less [of stride] by simp
    with False show ?thesis
      by (auto simp: query_offset_def Let_def checked_add_u32_def u32_range_def res_simps)
  qed
  ultimately show ?thesis using d by auto
qed

section \<open>The tiles cover the head\<close>

lemma total_workgroups_nat: "unat (total_workgroups v) = div_ceil (unat v) 64"
proof -
  have "div_ceil (unat v) 64 \<le> 67108864"
    by (rule div_ceil_le) (use unat_u32_less [of v] in simp_all)
  then show ?thesis
    by (simp add: total_workgroups_def head_tile_size_def unat_of_nat)
qed

lemma head_tiles_cover:
  assumes "unat tw \<le> 67108864" and "d \<le> tw"
  shows "case head_tiles p types offsets dim1 tw m d of
      Ok tiles \<Rightarrow>
        concat (map (\<lambda>(t, b, w). [unat b..<unat b + 64 * unat t]) tiles) = [64 * unat d..<64 * unat tw] \<and>
        (\<forall>(t, b, w)\<in>set tiles. 0 < t \<and> t \<le> m \<and> lm_head_window p types offsets b (t * head_tile_size) dim1 = Ok w)
    | Err _ \<Rightarrow> False
    | Panic \<Rightarrow> m = 0 \<or> (\<exists>e. d \<le> e \<and> e < tw \<and> \<not> is_ok (lm_head_window p types offsets (e * head_tile_size)
        (min (tw - e) m * head_tile_size) dim1))"
  using assms(2)
proof (induction "unat tw - unat d" arbitrary: d rule: less_induct)
  case less
  show ?case
  proof (cases "d < tw")
    case False
    with less.prems have "d = tw" by simp
    then show ?thesis by (simp add: head_tiles.simps)
  next
    case True
    define t where "t = min (tw - d) m"
    let ?w = "lm_head_window p types offsets (d * head_tile_size) (t * head_tile_size) dim1"
    let ?rest = "head_tiles p types offsets dim1 tw m (d + t)"
    have step: "head_tiles p types offsets dim1 tw m d =
        (case ?w of Ok w \<Rightarrow> if m = 0 then Panic else and_then ?rest (\<lambda>tiles. Ok ((t, d * head_tile_size, w) # tiles)) | _ \<Rightarrow> Panic)"
      unfolding t_def by (subst head_tiles.simps) (simp only: True Let_def if_True)
    show ?thesis
    proof (cases "is_ok ?w \<and> m \<noteq> 0")
      case False
      then show ?thesis
        using True less.prems unfolding step by (cases ?w) (auto simp: t_def is_ok_iff intro: exI [of _ d])
    next
      case ok: True
      then obtain w where w: "?w = Ok w" by (auto simp: is_ok_iff)
      have "0 < m" using ok by (simp add: word_neq_0_conv)
      note n = next_tile [OF True this, folded t_def]
      have du: "unat d < unat tw" using True by (simp add: word_less_nat_alt)
      have t0: "0 < unat t" using n(1) by (simp add: word_less_nat_alt)
      have b: "unat (d * head_tile_size) = 64 * unat d"
        using du assms(1) by (simp add: head_tile_size_def unat_word_ariths)
      have row: "[64 * unat d..<64 * unat d + 64 * unat t] @ [64 * unat (d + t)..<64 * unat tw] = [64 * unat d..<64 * unat tw]"
      proof -
        have "64 * unat d + 64 * unat t \<le> 64 * unat tw" using n(2,3) by (simp add: word_le_nat_alt)
        then show ?thesis by (metis n(2) add_mult_distrib2 le_add1 upt_append)
      qed
      have "unat tw - unat (d + t) < unat tw - unat d" using t0 n(2) du by simp
      note ih = less.hyps [OF this n(3)]
      have "t \<le> m" by (simp add: t_def)
      show ?thesis
      proof (cases ?rest)
        case (Ok tiles)
        then show ?thesis using ih w ok n(1) \<open>t \<le> m\<close> row b by (simp add: step)
      next
        case Panic
        then have "m = 0 \<or> (\<exists>e. d + t \<le> e \<and> e < tw \<and> \<not> is_ok (lm_head_window p types offsets (e * head_tile_size)
            (min (tw - e) m * head_tile_size) dim1))" using ih by simp
        moreover have "d \<le> d + t" using n(2) by (simp add: word_le_nat_alt)
        ultimately show ?thesis using w ok Panic order_trans unfolding step by fastforce
      qed (use ih in simp)
    qed
  qed
qed

text \<open>
  C31: The tiled LM head always ends, and ends well or panics: its dispatches hold between one
  and the safe number of workgroups, their row ranges, in order, are \<open>0, 1, 2, ...\<close> up to the
  vocabulary rounded up to whole workgroups, each row once, and each is given the window of its
  rows. It panics only when the safe count is zero or the window of a tile does not resolve.
\<close>

theorem head_tiles_partition:
  "case head_tiles p types offsets dim1 (total_workgroups vocab) max_safe_wgs 0 of
     Ok tiles \<Rightarrow>
       concat (map (\<lambda>(t, b, w). [unat b..<unat b + 64 * unat t]) tiles) = [0..<64 * div_ceil (unat vocab) 64] \<and>
       (\<forall>(t, b, w)\<in>set tiles. 0 < t \<and> t \<le> max_safe_wgs \<and>
          lm_head_window p types offsets b (t * head_tile_size) dim1 = Ok w) \<and>
       unat vocab \<le> 64 * div_ceil (unat vocab) 64 \<and> 64 * div_ceil (unat vocab) 64 < unat vocab + 64
   | Err _ \<Rightarrow> False
   | Panic \<Rightarrow> max_safe_wgs = 0 \<or> (\<exists>e<total_workgroups vocab. \<not> is_ok (lm_head_window p types offsets (e * head_tile_size)
       (min (total_workgroups vocab - e) max_safe_wgs * head_tile_size) dim1))"
proof -
  have "div_ceil (unat vocab) 64 \<le> 67108864"
    by (rule div_ceil_le) (use unat_u32_less [of vocab] in simp_all)
  then have "unat (total_workgroups vocab) \<le> 67108864" by (simp add: total_workgroups_nat)
  note cover = head_tiles_cover [OF this, where d = 0 and p = p and types = types and offsets = offsets and ?dim1.0 = dim1 and m = max_safe_wgs]
  moreover have "unat vocab \<le> 64 * div_ceil (unat vocab) 64"
    using div_ceil_mult_ge [of 64 "unat vocab"] by (simp add: mult.commute)
  moreover have "64 * div_ceil (unat vocab) 64 < unat vocab + 64"
  proof (cases "unat vocab = 0")
    case False
    then have "(div_ceil (unat vocab) 64 - 1) * 64 < unat vocab" by (intro div_ceil_mult_less) simp_all
    then show ?thesis by linarith
  qed simp
  ultimately show ?thesis
    by (cases "head_tiles p types offsets dim1 (total_workgroups vocab) max_safe_wgs 0")
      (auto simp: total_workgroups_nat)
qed

text \<open>
  Two tiles of 64 rows of 18 bytes from byte 200 on; and a vocabulary of five rows at the end
  of a file of 1024 bytes, which holds them, but not the 64 rows its only tile asks for.
\<close>

definition tiled_plan :: chunk_plan where
  "tiled_plan = \<lparr>effective_chunk = 256, num_chunks = 16\<rparr>"

lemma tile_windows:
  "lm_head_window tiled_plan sample_types sample_tensor_offsets 0 64 32 =
     Ok \<lparr>start_chunk = 0, slot_count = 6, chunk_words = 64, total_resident_chunks = 16\<rparr>"
  "lm_head_window tiled_plan sample_types sample_tensor_offsets 64 64 32 =
     Ok \<lparr>start_chunk = 5, slot_count = 5, chunk_words = 64, total_resident_chunks = 16\<rparr>"
  "\<not> is_ok (lm_head_window sample_plan sample_types sample_tensor_offsets 0 64 32)"
  "is_ok (lm_head_window sample_plan sample_types sample_tensor_offsets 0 5 32)"
proof -
  have g: "quant_block_geometry 2 = Some (32, 18)"
    by (simp add: quant_block_geometry_def block_elems_def block_bytes_def formula_for_type_def quant_formulas_def)
  have c: "chunk_words_of tiled_plan = 64" by (simp add: chunk_words_of_def tiled_plan_def)
  have w: "window_for_range 50 337 64 16 = Ok \<lparr>start_chunk = 0, slot_count = 6, chunk_words = 64, total_resident_chunks = 16\<rparr>"
    "window_for_range 338 625 64 16 = Ok \<lparr>start_chunk = 5, slot_count = 5, chunk_words = 64, total_resident_chunks = 16\<rparr>"
    "window_for_range 50 72 64 4 = Ok \<lparr>start_chunk = 0, slot_count = 2, chunk_words = 64, total_resident_chunks = 4\<rparr>"
    by (subst window_for_range_Ok; simp)+
  have n: "\<not> is_ok (window_for_range 50 337 64 4)"
    unfolding is_ok_iff by (subst window_for_range_Ok) simp_all
  note unfold = lm_head_window_def g res_simps sample_types_def sample_tensor_offsets_def Let_def c sample_chunk_words u64_range_def
  show "lm_head_window tiled_plan sample_types sample_tensor_offsets 0 64 32 =
      Ok \<lparr>start_chunk = 0, slot_count = 6, chunk_words = 64, total_resident_chunks = 16\<rparr>"
    using w(1) by (simp add: unfold del: One_nat_def) (simp add: tiled_plan_def)
  show "lm_head_window tiled_plan sample_types sample_tensor_offsets 64 64 32 =
      Ok \<lparr>start_chunk = 5, slot_count = 5, chunk_words = 64, total_resident_chunks = 16\<rparr>"
    using w(2) by (simp add: unfold del: One_nat_def) (simp add: tiled_plan_def)
  show "\<not> is_ok (lm_head_window sample_plan sample_types sample_tensor_offsets 0 64 32)"
    using n by (simp add: unfold del: One_nat_def) (simp add: sample_plan_def)
  show "is_ok (lm_head_window sample_plan sample_types sample_tensor_offsets 0 5 32)"
    using w(3) by (simp add: unfold del: One_nat_def) (simp add: sample_plan_def is_ok_iff)
qed

lemma head_tiles_overhang:
  "head_tiles sample_plan sample_types sample_tensor_offsets 32 (total_workgroups 5) 512 0 = Panic"
proof -
  have "total_workgroups 5 = 1" by (simp add: total_workgroups_def head_tile_size_def div_ceil_def)
  then show ?thesis
    using tile_windows(3)
    by (subst head_tiles.simps)
      (auto simp: head_tile_size_def Let_def is_ok_iff split: res.split)
qed

lemma head_tiles_partition_witness:
  "\<exists>tiles. head_tiles tiled_plan sample_types sample_tensor_offsets 32 (total_workgroups 128) 1 0 = Ok tiles \<and> length tiles = 2 \<and>
    concat (map (\<lambda>(t, b, w). [unat b..<unat b + 64 * unat t]) tiles) = [0..<128]"
proof -
  have t: "total_workgroups 128 = 2" by (simp add: total_workgroups_def head_tile_size_def div_ceil_def)
  have m: "min (2 :: u32) 1 = 1" "min (1 :: u32) 1 = 1" by simp_all
  have "head_tiles tiled_plan sample_types sample_tensor_offsets 32 2 1 0 =
      Ok [(1, 0, \<lparr>start_chunk = 0, slot_count = 6, chunk_words = 64, total_resident_chunks = 16\<rparr>),
          (1, 64, \<lparr>start_chunk = 5, slot_count = 5, chunk_words = 64, total_resident_chunks = 16\<rparr>)]"
    by (simp add: head_tiles.simps [of _ _ _ _ _ _ 0] head_tiles.simps [of _ _ _ _ _ _ 1] head_tiles.simps [of _ _ _ _ _ _ 2]
        Let_def m head_tile_size_def tile_windows res_simps del: and_then_eq_Ok)
  with t show ?thesis
    using head_tiles_partition [where p = tiled_plan and types = sample_types and offsets = sample_tensor_offsets and
      ?dim1.0 = 32 and vocab = 128 and max_safe_wgs = 1] by (simp add: div_ceil_def)
qed

text \<open>
  Calibrated workgroup counts are remembered per pipeline and width: after a result is
  stored, looking up its pipeline and width returns it and every other entry is unchanged;
  \<open>ensure_calibrated\<close> returns the stored count, and for an unknown pair returns 512 and
  saves it, so that asking again with the saved cache gives the same answer.
\<close>

theorem calibration_lookup:
  "get_safe_workgroups pipeline n (set_calibration pipeline' n' safe measured budget cache) =
     (if pipeline = pipeline' \<and> n = n' then Some safe else get_safe_workgroups pipeline n cache) \<and>
   fst (ensure_calibrated loaded gpu pipeline n) =
     (case Option.bind loaded (get_safe_workgroups pipeline n) of None \<Rightarrow> 512 | Some safe \<Rightarrow> safe) \<and>
   (case snd (ensure_calibrated loaded gpu pipeline n) of None \<Rightarrow> True
    | Some saved \<Rightarrow>
        ensure_calibrated (Some saved) gpu' pipeline n = (fst (ensure_calibrated loaded gpu pipeline n), None))"
proof -
  have *: "get_safe_workgroups pipeline n (set_calibration pipeline' n' safe measured budget cache) =
     (if pipeline = pipeline' \<and> n = n' then Some safe else get_safe_workgroups pipeline n cache)"
    for pipeline pipeline' n n' safe measured budget cache
    by (auto simp: get_safe_workgroups_def set_calibration_def Let_def word_unat_eq_iff split: option.split)
  have e: "get_safe_workgroups pipeline n (calibration_empty gpu) = None"
    by (simp add: get_safe_workgroups_def calibration_empty_def)
  show ?thesis
    by (auto simp: * e ensure_calibrated_def Let_def split: option.split)
qed

end
