(* ===== verification/Model_Spec.thy ===== *)
theory Model_Spec
  imports Manifest Kernel_Policy "HOL-Library.Multiset"
begin

text \<open>
  \<open>src/src/core/spec.rs\<close>: the hyperparameters of a model, read from the metadata in one
  pass over the map, and the dimensions derived from them. The map's iteration order is
  arbitrary, so the pass is a fold over the entries in the order they come.
\<close>

datatype gguf_file_type =
    FT_F32 | FT_F16 | FT_Q4_0 | FT_Q4_1 | FT_Q5_0 | FT_Q5_1 | FT_Q8_0 | FT_Q2_K | FT_Q3_K
  | FT_Q4_K | FT_Q5_K | FT_Q6_K | FT_Unknown

definition file_type_from :: "u32 \<Rightarrow> gguf_file_type" where
  "file_type_from v =
     (if v = 0 then FT_F32 else if v = 1 then FT_F16 else if v = 2 then FT_Q4_0
      else if v = 3 then FT_Q4_1 else if v = 7 then FT_Q8_0 else if v = 8 then FT_Q5_0
      else if v = 9 then FT_Q5_1 else if v = 10 then FT_Q2_K else if v = 11 then FT_Q3_K
      else if v = 12 then FT_Q4_K else if v = 13 then FT_Q5_K else if v = 14 then FT_Q6_K
      else FT_Unknown)"

datatype spec_norm_kind = NK_Rms | NK_Layer

datatype model_arch =
    MA_Llama | MA_Mistral | MA_Phi | MA_Gemma | MA_Qwen2 | MA_Qwen3 | MA_Other string

text \<open>
  \<open>to_lowercase\<close> on the ASCII letters; the bytes of other characters stay, which only shows
  in the payload of \<open>MA_Other\<close>, since the names the code matches are ASCII without \<open>k\<close>
  (the only letter of them a non-ASCII character could fold to).
\<close>

definition lower_char :: "char \<Rightarrow> char" where
  "lower_char c = (if 65 \<le> (of_char c :: nat) \<and> (of_char c :: nat) \<le> 90 then char_of (of_char c + 32 :: nat) else c)"

definition model_arch_from :: "string \<Rightarrow> model_arch" where
  "model_arch_from str =
     (let s = map lower_char str in
      if s = ''llama'' then MA_Llama
      else if s \<in> {''mistral'', ''mistral3''} then MA_Mistral
      else if s \<in> {''phi'', ''phi2'', ''phi3''} then MA_Phi
      else if s \<in> {''gemma'', ''gemma2'', ''gemma4'', ''gemma6''} then MA_Gemma
      else if s = ''qwen2'' then MA_Qwen2
      else if s = ''qwen3'' then MA_Qwen3
      else MA_Other s)"

text \<open>The parsed metadata values, and their conversion in \<open>backend/bindless/metadata.rs\<close>.\<close>

datatype spec_value =
    G_U8 "8 word" | G_I8 "8 word" | G_U16 "16 word" | G_I16 "16 word" | G_U32 u32 | G_I32 u32
  | G_F32 f32 | G_Bool bool | G_String string | G_U64 "64 word" | G_I64 "64 word" | G_F64 "64 word"
  | G_ArrayLen nat

fun manifest_value :: "gguf_value \<Rightarrow> spec_value" where
  "manifest_value (V_U8 x) = G_U8 x"
| "manifest_value (V_I8 x) = G_I8 x"
| "manifest_value (V_U16 x) = G_U16 x"
| "manifest_value (V_I16 x) = G_I16 x"
| "manifest_value (V_U32 x) = G_U32 x"
| "manifest_value (V_I32 x) = G_I32 x"
| "manifest_value (V_U64 x) = G_U64 x"
| "manifest_value (V_I64 x) = G_I64 x"
| "manifest_value (V_F32 x) = G_F32 x"
| "manifest_value (V_F64 x) = G_F64 x"
| "manifest_value (V_Bool x) = G_Bool x"
| "manifest_value (V_String x) = G_String x"
| "manifest_value (V_Array x) = G_ArrayLen (length x)"

record model_spec =
  n_vocab :: nat
  n_embd :: nat
  n_layer :: nat
  n_head :: nat
  n_head_kv :: nat
  ff_dim :: nat
  rms_eps :: f32
  rope_base :: f32
  rope_scale :: f32
  rope_dim :: nat
  yarn_alpha :: f32
  yarn_beta :: f32
  n_ctx :: nat
  attn_logit_softcap :: f32
  final_logit_softcap :: f32
  spec_norm :: spec_norm_kind
  has_qk_norm :: bool
  post_norm_enabled :: bool
  q_weight_k :: nat
  k_weight_k :: nat
  head_dim :: nat
  gqa_ratio :: nat
  kv_dim :: nat
  spec_arch :: model_arch
  file_type :: gguf_file_type
  model_name :: string
  chat_template :: "string option"
  temp_buffer_size :: nat
  kv_cache_size_per_layer :: nat

section \<open>Derived dimensions\<close>

text \<open>A division of \<open>usize\<close> panics on zero; \<open>(x + 1023) & !1023\<close> clears the low ten bits.\<close>

definition usize_div :: "nat \<Rightarrow> nat \<Rightarrow> ('e, nat) res" where
  "usize_div a b = (if b = 0 then Panic else Ok (a div b))"

definition round_up_1024 :: "nat \<Rightarrow> nat" where
  "round_up_1024 x = wadd x 1023 div 1024 * 1024"

text \<open>
  The live ranges of a token's scratch: activation, query, key and value rows and the two
  feed-forward rows; the feed-forward scratch; the query behind the attention context.
\<close>

definition scratch_size :: "nat \<Rightarrow> model_spec \<Rightarrow> nat" where
  "scratch_size hdim s =
     (let q_len = wmul (n_head s) hdim;
          kv_len = wmul (n_head_kv s) hdim;
          full_layout = wadd (wadd (wadd (n_embd s) q_len) (wmul kv_len 2)) (wmul (ff_dim s) 2);
          ffn_scratch = wadd (wmul (ff_dim s) 2) (n_embd s);
          attention_scratch = wadd (max (n_embd s) q_len) q_len
      in max (max full_layout ffn_scratch) attention_scratch)"

definition with_derived :: "nat \<Rightarrow> nat \<Rightarrow> model_spec \<Rightarrow> model_spec" where
  "with_derived hdim gqa s =
     s\<lparr>head_dim := hdim, rope_dim := hdim, gqa_ratio := gqa, kv_dim := wmul (n_head_kv s) hdim,
       has_qk_norm := (has_qk_norm s \<or> spec_arch s = MA_Qwen3),
       post_norm_enabled := (post_norm_enabled s \<or> spec_arch s = MA_Gemma),
       temp_buffer_size := round_up_1024 (scratch_size hdim s),
       kv_cache_size_per_layer := wmul (wmul (wmul (n_ctx s) (n_head_kv s)) hdim) 4\<rparr>"

definition compute_derived :: "model_spec \<Rightarrow> ('e, model_spec) res" where
  "compute_derived s =
     and_then (if head_dim s = 0 then usize_div (n_embd s) (n_head s) else Ok (head_dim s)) (\<lambda>hdim.
     and_then (usize_div (n_head s) (n_head_kv s)) (\<lambda>gqa. Ok (with_derived hdim gqa s)))"

section \<open>The pass over the metadata\<close>

record spec_scan =
  sc_arch :: string
  sc_name :: string
  sc_file_type :: "u32 option"
  sc_vocab :: "nat option"
  sc_embd :: "nat option"
  sc_layer :: "nat option"
  sc_ff :: "nat option"
  sc_head :: "nat option"
  sc_head_kv :: "nat option"
  sc_eps :: "f32 option"
  sc_norm :: spec_norm_kind
  sc_rope_base :: "f32 option"
  sc_rope_dim :: "nat option"
  sc_ctx :: "nat option"
  sc_attn_softcap :: "f32 option"
  sc_final_softcap :: "f32 option"
  sc_head_dim :: "nat option"
  sc_template :: "string option"

definition scan_start :: spec_scan where
  "scan_start = \<lparr>sc_arch = ''llama'', sc_name = ''unknown'', sc_file_type = None, sc_vocab = None,
     sc_embd = None, sc_layer = None, sc_ff = None, sc_head = None, sc_head_kv = None, sc_eps = None,
     sc_norm = NK_Rms, sc_rope_base = None, sc_rope_dim = None, sc_ctx = None, sc_attn_softcap = None,
     sc_final_softcap = None, sc_head_dim = None, sc_template = None\<rparr>"

text \<open>The arms of the two matches on the key.\<close>

datatype spec_key =
    SK_Architecture | SK_Name | SK_FileType | SK_Tokens | SK_Template | SK_Embedding | SK_Blocks
  | SK_FeedForward | SK_Heads | SK_HeadsKv | SK_Epsilon spec_norm_kind | SK_RopeBase | SK_RopeDim
  | SK_Context | SK_AttnSoftcap | SK_FinalSoftcap | SK_KeyLength | SK_VocabSize

text \<open>The suffix after the first dot.\<close>

fun key_suffix :: "string \<Rightarrow> string option" where
  "key_suffix [] = None"
| "key_suffix (c # s) = (if c = CHR ''.'' then Some s else key_suffix s)"

definition suffix_key :: "string \<Rightarrow> string \<Rightarrow> spec_key option" where
  "suffix_key key suffix =
     (if suffix = ''embedding_length'' then Some SK_Embedding
      else if suffix = ''block_count'' then Some SK_Blocks
      else if suffix = ''feed_forward_length'' then Some SK_FeedForward
      else if suffix = ''attention.head_count'' then Some SK_Heads
      else if suffix = ''attention.head_count_kv'' then Some SK_HeadsKv
      else if suffix \<in> {''attention.layer_norm_rms_epsilon'', ''attention.layer_norm_epsilon'', ''layer_norm_epsilon''}
        then Some (SK_Epsilon (if contains key ''layer_norm_rms_epsilon'' then NK_Rms else NK_Layer))
      else if suffix = ''rope.freq_base'' then Some SK_RopeBase
      else if suffix = ''rope.dimension_count'' then Some SK_RopeDim
      else if suffix = ''context_length'' then Some SK_Context
      else if suffix \<in> {''attn_logit_softcapping'', ''attention.logit_softcapping''} then Some SK_AttnSoftcap
      else if suffix = ''final_logit_softcapping'' then Some SK_FinalSoftcap
      else if suffix = ''attention.key_length'' then Some SK_KeyLength
      else if suffix = ''vocab_size'' then Some SK_VocabSize
      else None)"

definition classify_key :: "string \<Rightarrow> spec_key option" where
  "classify_key key =
     (if key = ''general.architecture'' then Some SK_Architecture
      else if key = ''general.name'' then Some SK_Name
      else if key = ''general.file_type'' then Some SK_FileType
      else if key = ''tokenizer.ggml.tokens'' then Some SK_Tokens
      else if key = ''tokenizer.chat_template'' then Some SK_Template
      else Option.bind (key_suffix key) (suffix_key key))"

text \<open>The \<open>if let\<close> patterns on the value.\<close>

fun g_u32 :: "spec_value \<Rightarrow> u32 option" where
  "g_u32 (G_U32 v) = Some v"
| "g_u32 _ = None"

fun g_f32 :: "spec_value \<Rightarrow> f32 option" where
  "g_f32 (G_F32 v) = Some v"
| "g_f32 _ = None"

fun g_string :: "spec_value \<Rightarrow> string option" where
  "g_string (G_String v) = Some v"
| "g_string _ = None"

fun g_array_len :: "spec_value \<Rightarrow> nat option" where
  "g_array_len (G_ArrayLen v) = Some v"
| "g_array_len _ = None"

definition when_some :: "'a option \<Rightarrow> ('a \<Rightarrow> 's \<Rightarrow> 's) \<Rightarrow> 's \<Rightarrow> 's" where
  "when_some x f s = (case x of None \<Rightarrow> s | Some v \<Rightarrow> f v s)"

fun apply_key :: "spec_key \<Rightarrow> spec_value \<Rightarrow> spec_scan \<Rightarrow> spec_scan" where
  "apply_key SK_Architecture v = when_some (g_string v) (\<lambda>s. sc_arch_update (\<lambda>_. s))"
| "apply_key SK_Name v = when_some (g_string v) (\<lambda>s. sc_name_update (\<lambda>_. s))"
| "apply_key SK_FileType v = when_some (g_u32 v) (\<lambda>n. sc_file_type_update (\<lambda>_. Some n))"
| "apply_key SK_Tokens v = when_some (g_array_len v) (\<lambda>n. sc_vocab_update (\<lambda>_. Some n))"
| "apply_key SK_Template v = when_some (g_string v) (\<lambda>s. sc_template_update (\<lambda>_. Some s))"
| "apply_key SK_Embedding v = when_some (g_u32 v) (\<lambda>n. sc_embd_update (\<lambda>_. Some (unat n)))"
| "apply_key SK_Blocks v = when_some (g_u32 v) (\<lambda>n. sc_layer_update (\<lambda>_. Some (unat n)))"
| "apply_key SK_FeedForward v = when_some (g_u32 v) (\<lambda>n. sc_ff_update (\<lambda>_. Some (unat n)))"
| "apply_key SK_Heads v = when_some (g_u32 v) (\<lambda>n. sc_head_update (\<lambda>_. Some (unat n)))"
| "apply_key SK_HeadsKv v = when_some (g_u32 v) (\<lambda>n. sc_head_kv_update (\<lambda>_. Some (unat n)))"
| "apply_key (SK_Epsilon kind) v =
     when_some (g_f32 v) (\<lambda>x s. s\<lparr>sc_eps := Some x, sc_norm := kind\<rparr>)"
| "apply_key SK_RopeBase v = when_some (g_f32 v) (\<lambda>x. sc_rope_base_update (\<lambda>_. Some x))"
| "apply_key SK_RopeDim v = when_some (g_u32 v) (\<lambda>n. sc_rope_dim_update (\<lambda>_. Some (unat n)))"
| "apply_key SK_Context v = when_some (g_u32 v) (\<lambda>n. sc_ctx_update (\<lambda>_. Some (unat n)))"
| "apply_key SK_AttnSoftcap v = when_some (g_f32 v) (\<lambda>x. sc_attn_softcap_update (\<lambda>_. Some x))"
| "apply_key SK_FinalSoftcap v = when_some (g_f32 v) (\<lambda>x. sc_final_softcap_update (\<lambda>_. Some x))"
| "apply_key SK_KeyLength v = when_some (g_u32 v) (\<lambda>n. sc_head_dim_update (\<lambda>_. Some (unat n)))"
| "apply_key SK_VocabSize v =
     when_some (g_u32 v) (\<lambda>n. sc_vocab_update (\<lambda>old. if old = None then Some (unat n) else old))"

definition scan_entry :: "string \<times> spec_value \<Rightarrow> spec_scan \<Rightarrow> spec_scan" where
  "scan_entry kv s = (case classify_key (fst kv) of None \<Rightarrow> s | Some k \<Rightarrow> apply_key k (snd kv) s)"

definition f32_1e_5 :: f32 where "f32_1e_5 = 0x3727C5AC"
definition f32_10000 :: f32 where "f32_10000 = 0x461C4000"
definition f32_32 :: f32 where "f32_32 = 0x42000000"

text \<open>\<open>expect\<close> panics on a missing value.\<close>

definition expect :: "'a option \<Rightarrow> ('e, 'a) res" where
  "expect x = (case x of None \<Rightarrow> Panic | Some v \<Rightarrow> Ok v)"

definition spec_of_scan :: "spec_scan \<Rightarrow> ('e, model_spec) res" where
  "spec_of_scan sc =
     (and_then (expect (sc_embd sc)) (\<lambda>embd.
      and_then (expect (sc_layer sc)) (\<lambda>layers.
      and_then (expect (sc_ff sc)) (\<lambda>ff.
      and_then (expect (sc_head sc)) (\<lambda>heads.
      and_then (usize_div embd heads) (\<lambda>default_rope.
      compute_derived
        \<lparr>n_vocab = (case sc_vocab sc of None \<Rightarrow> 32000 | Some v \<Rightarrow> v), n_embd = embd, n_layer = layers,
         n_head = heads, n_head_kv = (case sc_head_kv sc of None \<Rightarrow> heads | Some v \<Rightarrow> v), ff_dim = ff,
         rms_eps = (case sc_eps sc of None \<Rightarrow> f32_1e_5 | Some v \<Rightarrow> v),
         rope_base = (case sc_rope_base sc of None \<Rightarrow> f32_10000 | Some v \<Rightarrow> v), rope_scale = f32_one,
         rope_dim = (case sc_rope_dim sc of None \<Rightarrow> default_rope | Some v \<Rightarrow> v),
         yarn_alpha = f32_one, yarn_beta = f32_32,
         n_ctx = (case sc_ctx sc of None \<Rightarrow> 2048 | Some v \<Rightarrow> v),
         attn_logit_softcap = (case sc_attn_softcap sc of None \<Rightarrow> 0 | Some v \<Rightarrow> v),
         final_logit_softcap = (case sc_final_softcap sc of None \<Rightarrow> 0 | Some v \<Rightarrow> v),
         spec_norm = sc_norm sc, has_qk_norm = False, post_norm_enabled = False,
         q_weight_k = 0, k_weight_k = 0,
         head_dim = (case sc_head_dim sc of None \<Rightarrow> 0 | Some v \<Rightarrow> v), gqa_ratio = 0, kv_dim = 0,
         spec_arch = model_arch_from (sc_arch sc),
         file_type = (case sc_file_type sc of None \<Rightarrow> FT_Unknown | Some v \<Rightarrow> file_type_from v),
         model_name = sc_name sc, chat_template = sc_template sc, temp_buffer_size = 0,
         kv_cache_size_per_layer = 0\<rparr>))))))"

definition from_gguf_metadata :: "(string \<times> spec_value) list \<Rightarrow> ('e, model_spec) res" where
  "from_gguf_metadata metadata = spec_of_scan (fold scan_entry metadata scan_start)"

section \<open>What the derived dimensions guarantee\<close>

text \<open>The derived sizes do not wrap; a model of any real size satisfies this.\<close>

definition spec_small :: "model_spec \<Rightarrow> nat \<Rightarrow> bool" where
  "spec_small s hdim =
     (n_embd s + 2 * (n_head s * hdim) + 2 * (n_head_kv s * hdim) + 2 * ff_dim s + 1024 < 2 ^ 32)"

lemma round_up_1024:
  assumes "x + 1023 < u64_range"
  shows "x \<le> round_up_1024 x" and "round_up_1024 x < x + 1024" and "round_up_1024 x mod 1024 = 0"
proof -
  have r: "round_up_1024 x = (x + 1023) div 1024 * 1024" using assms by (simp add: round_up_1024_def)
  have "(x + 1023) div 1024 * 1024 + (x + 1023) mod 1024 = x + 1023" by (rule div_mult_mod_eq)
  moreover have "(x + 1023) mod 1024 < 1024" by simp
  ultimately show "x \<le> round_up_1024 x" "round_up_1024 x < x + 1024" unfolding r by linarith+
  show "round_up_1024 x mod 1024 = 0" unfolding r by simp
qed

lemma compute_derived_Ok:
  "(compute_derived s = Ok s') =
     ((head_dim s = 0 \<longrightarrow> n_head s \<noteq> 0) \<and> n_head_kv s \<noteq> 0 \<and>
      s' = with_derived (if head_dim s = 0 then n_embd s div n_head s else head_dim s)
        (n_head s div n_head_kv s) s)"
  by (auto simp: compute_derived_def usize_div_def split: if_splits)

lemma with_derived_fields [simp]:
  "head_dim (with_derived h g s) = h" "rope_dim (with_derived h g s) = h"
  "kv_dim (with_derived h g s) = wmul (n_head_kv s) h" "n_embd (with_derived h g s) = n_embd s"
  "n_head (with_derived h g s) = n_head s" "n_head_kv (with_derived h g s) = n_head_kv s"
  "ff_dim (with_derived h g s) = ff_dim s" "n_ctx (with_derived h g s) = n_ctx s"
  "n_vocab (with_derived h g s) = n_vocab s" "n_layer (with_derived h g s) = n_layer s"
  "spec_arch (with_derived h g s) = spec_arch s"
  "temp_buffer_size (with_derived h g s) = round_up_1024 (scratch_size h s)"
  by (simp_all add: with_derived_def)

lemma scratch_size_derived [simp]: "scratch_size h' (with_derived h g s) = scratch_size h' s"
  by (simp add: scratch_size_def)

lemma with_derived_twice: "with_derived h g (with_derived h g s) = with_derived h g s"
  unfolding with_derived_def [of h g "with_derived h g s"] scratch_size_derived with_derived_fields
  by (simp add: with_derived_def)

lemma derived_twice: "compute_derived s = Ok s' \<Longrightarrow> head_dim s' \<noteq> 0 \<Longrightarrow> compute_derived s' = Ok s'"
  by (auto simp: compute_derived_Ok with_derived_twice)

lemma scratch_size_small:
  assumes "n_embd s + 2 * (n_head s * h) + 2 * (n_head_kv s * h) + 2 * ff_dim s < u64_range"
  shows "scratch_size h s = max (max (n_embd s + n_head s * h + 2 * (n_head_kv s * h) + 2 * ff_dim s)
    (2 * ff_dim s + n_embd s)) (max (n_embd s) (n_head s * h) + n_head s * h)"
proof -
  define q k where "q = n_head s * h" and "k = n_head_kv s * h"
  have "n_embd s + 2 * q + 2 * k + 2 * ff_dim s < u64_range" using assms by (simp add: q_def k_def)
  then have "wmul (n_head s) h = q" "wmul (n_head_kv s) h = k" "wmul k 2 = 2 * k" "wmul (ff_dim s) 2 = 2 * ff_dim s"
    "wadd (n_embd s) q = n_embd s + q" "wadd (n_embd s + q) (2 * k) = n_embd s + q + 2 * k"
    "wadd (n_embd s + q + 2 * k) (2 * ff_dim s) = n_embd s + q + 2 * k + 2 * ff_dim s"
    "wadd (2 * ff_dim s) (n_embd s) = 2 * ff_dim s + n_embd s"
    "wadd (max (n_embd s) q) q = max (n_embd s) q + q"
    by (simp_all add: q_def k_def)
  then show ?thesis by (simp only: scratch_size_def Let_def flip: q_def k_def)
qed

text \<open>
  The derived dimensions are consistent and the scratch buffer of a token is large
  enough for every use of it: the rotary width is the head width, the buffer is a multiple
  of 1024 elements and holds the feed-forward scratch with the activation behind it, the
  whole attention and feed-forward layout, and the query range the attention kernel asks
  for, so that \<open>query_offset\<close> never refuses the stride of a derived specification; deriving
  again changes nothing.
\<close>

theorem derived_scratch_fits:
  assumes "compute_derived s = (Ok s' :: (string, model_spec) res)" and "spec_small s' (head_dim s')"
    and "0 < n_embd s" and "0 < n_head s" and "0 < head_dim s'"
  shows "rope_dim s' = head_dim s' \<and> kv_dim s' = n_head_kv s * head_dim s' \<and>
    temp_buffer_size s' mod 1024 = 0 \<and> 2 * ff_dim s + n_embd s \<le> temp_buffer_size s' \<and>
    n_embd s + n_head s * head_dim s' + 2 * kv_dim s' + 2 * ff_dim s \<le> temp_buffer_size s' \<and>
    is_ok (query_offset (word_of_nat (n_embd s)) (word_of_nat (n_head s * head_dim s'))
      (word_of_nat (temp_buffer_size s'))) \<and>
    compute_derived s' = (Ok s' :: (string, model_spec) res)"
proof -
  define h q k where "h = head_dim s'" and "q = n_head s * h" and "k = n_head_kv s * h"
  obtain g where s': "s' = with_derived h g s" using assms(1) by (auto simp: compute_derived_Ok h_def)
  have small: "n_embd s + 2 * q + 2 * k + 2 * ff_dim s + 1024 < 2 ^ 32"
    using assms(2) by (simp add: spec_small_def s' q_def k_def)
  then have lim: "n_embd s + 2 * q + 2 * k + 2 * ff_dim s + 1024 < u64_range" by (simp add: u64_range_def)
  define need where "need = scratch_size h s"
  have need: "need = max (max (n_embd s + q + 2 * k + 2 * ff_dim s) (2 * ff_dim s + n_embd s)) (max (n_embd s) q + q)"
    unfolding need_def q_def k_def using lim by (intro scratch_size_small) (simp add: q_def k_def)
  have fits: "need + 1023 < u64_range" "need + 1024 < 2 ^ 32" using lim small by (simp_all add: need)
  note r = round_up_1024 [OF fits(1)]
  have t: "temp_buffer_size s' = round_up_1024 need" by (simp add: s' need_def)
  have "unat (word_of_nat (n_embd s) :: u32) = n_embd s" "unat (word_of_nat q :: u32) = q"
    "unat (word_of_nat (temp_buffer_size s') :: u32) = temp_buffer_size s'"
    using small r(2) fits(2) by (simp_all add: unat_of_nat t)
  moreover have "0 < q" using assms(4,5) by (simp add: q_def h_def)
  moreover have "max (n_embd s) q + q \<le> temp_buffer_size s'" using r(1) by (simp add: t need)
  ultimately have "is_ok (query_offset (word_of_nat (n_embd s)) (word_of_nat q) (word_of_nat (temp_buffer_size s')))"
    using assms(3) by (simp add: query_offset_Ok_iff)
  moreover have "kv_dim s' = k" using lim by (simp add: s' k_def)
  moreover have "2 * ff_dim s + n_embd s \<le> temp_buffer_size s'"
    "n_embd s + q + 2 * k + 2 * ff_dim s \<le> temp_buffer_size s'" using r(1) by (simp_all add: t need)
  moreover have "rope_dim s' = h" "temp_buffer_size s' mod 1024 = 0" using r(3) by (simp_all add: s' need_def)
  ultimately show ?thesis
    using derived_twice [OF assms(1)] assms(5) by (simp flip: h_def q_def k_def)
qed


text \<open>The reference specification the loader tests compare with.\<close>

definition tinylama_base :: model_spec where
  "tinylama_base =
     \<lparr>n_vocab = 32000, n_embd = 2048, n_layer = 22, n_head = 32, n_head_kv = 4, ff_dim = 5632,
      rms_eps = f32_1e_5, rope_base = f32_10000, rope_scale = f32_one, rope_dim = 64,
      yarn_alpha = f32_one, yarn_beta = f32_32, n_ctx = 2048, attn_logit_softcap = 0,
      final_logit_softcap = 0, spec_norm = NK_Rms, has_qk_norm = False, post_norm_enabled = False,
      q_weight_k = 0, k_weight_k = 0, head_dim = 0, gqa_ratio = 0, kv_dim = 0, spec_arch = MA_Llama,
      file_type = FT_Q4_0, model_name = ''tinyllama_tinyllama-1.1b-chat-v1.0'', chat_template = None,
      temp_buffer_size = 0, kv_cache_size_per_layer = 0\<rparr>"

definition tinylama_1_1b_chat_v1_0 :: "('e, model_spec) res" where
  "tinylama_1_1b_chat_v1_0 = compute_derived tinylama_base"

lemma tinylama_dims: "n_embd tinylama_base = 2048" "n_head tinylama_base = 32" "n_head_kv tinylama_base = 4"
  "ff_dim tinylama_base = 5632" "head_dim tinylama_base = 0"
  by (simp_all add: tinylama_base_def)

lemma derived_scratch_fits_witness:
  "\<exists>s. tinylama_1_1b_chat_v1_0 = (Ok s :: (string, model_spec) res) \<and> temp_buffer_size s = 16384 \<and>
     rope_dim s = 64 \<and> is_ok (query_offset 2048 2048 (word_of_nat (temp_buffer_size s)))"
proof -
  let ?s = "with_derived 64 8 tinylama_base"
  have s: "compute_derived tinylama_base = (Ok ?s :: (string, model_spec) res)"
    by (simp add: compute_derived_Ok tinylama_dims)
  have t: "temp_buffer_size ?s = 16384"
    by (simp add: scratch_size_def round_up_1024_def tinylama_dims u64_range_def Let_def)
  have "spec_small ?s (head_dim ?s)" by (simp add: spec_small_def tinylama_dims)
  from derived_scratch_fits [OF s this] s t show ?thesis
    by (simp add: tinylama_1_1b_chat_v1_0_def tinylama_dims)
qed

section \<open>The order of the metadata\<close>

text \<open>The field of the specification an entry decides; the three epsilon keys share theirs.\<close>

fun key_slot :: "spec_key \<Rightarrow> spec_key" where
  "key_slot (SK_Epsilon _) = SK_Epsilon NK_Rms"
| "key_slot k = k"

definition entry_slot :: "string \<times> spec_value \<Rightarrow> spec_key option" where
  "entry_slot kv = map_option key_slot (classify_key (fst kv))"

definition unambiguous :: "(string \<times> spec_value) list \<Rightarrow> bool" where
  "unambiguous metadata = distinct (filter (\<lambda>k. k \<noteq> None) (map entry_slot metadata))"

lemma when_some_commute:
  "(\<And>a b s. f a (g b s) = g b (f a s)) \<Longrightarrow> when_some x f (when_some y g s) = when_some y g (when_some x f s)"
  by (simp add: when_some_def split: option.split)

lemma apply_key_commute:
  assumes "key_slot k \<noteq> key_slot k'"
  shows "apply_key k v (apply_key k' v' s) = apply_key k' v' (apply_key k v s)"
  using assms
  apply (cases k; cases k')
  apply (simp_all only: apply_key.simps key_slot.simps not_True_eq_False simp_thms)
  apply (rule when_some_commute; simp; fail)+
  done

lemma unambiguous_slots:
  assumes "unambiguous metadata" and "x \<in> set metadata" and "y \<in> set metadata" and "x \<noteq> y"
    and "entry_slot x \<noteq> None"
  shows "entry_slot x \<noteq> entry_slot y"
proof
  assume eq: "entry_slot x = entry_slot y"
  obtain as bs where m: "metadata = as @ x # bs" using assms(2) by (auto simp: in_set_conv_decomp)
  with assms(3,4) have "y \<in> set as \<or> y \<in> set bs" by auto
  then show False
  proof
    assume "y \<in> set as"
    then obtain cs ds where "as = cs @ y # ds" by (auto simp: in_set_conv_decomp)
    with m assms(1,5) eq show False by (simp add: unambiguous_def)
  next
    assume "y \<in> set bs"
    then obtain cs ds where "bs = cs @ y # ds" by (auto simp: in_set_conv_decomp)
    with m assms(1,5) eq show False by (simp add: unambiguous_def)
  qed
qed

lemma scan_entry_commute:
  assumes "unambiguous metadata" and "x \<in> set metadata" and "y \<in> set metadata"
  shows "scan_entry x \<circ> scan_entry y = scan_entry y \<circ> scan_entry x"
proof (cases "x = y \<or> classify_key (fst x) = None \<or> classify_key (fst y) = None")
  case True
  then show ?thesis by (auto simp: fun_eq_iff scan_entry_def split: option.split)
next
  case False
  then obtain k k' where k: "classify_key (fst x) = Some k" "classify_key (fst y) = Some k'" by auto
  then have "key_slot k \<noteq> key_slot k'"
    using unambiguous_slots [OF assms] False by (simp add: entry_slot_def)
  then show ?thesis using apply_key_commute by (simp add: fun_eq_iff scan_entry_def k)
qed

text \<open>
  C34: The specification does not depend on the order in which the metadata map is iterated:
  when no two entries decide the same field, any two orders of the same entries give the
  same specification or the same failure, although \<open>vocab_size\<close> and the token array write
  the same variable.
\<close>

theorem metadata_order_irrelevant:
  assumes "mset metadata = mset metadata'" and "unambiguous metadata"
  shows "from_gguf_metadata metadata = from_gguf_metadata metadata'"
proof -
  have "fold scan_entry metadata = fold scan_entry metadata'"
    using assms scan_entry_commute by (intro fold_multiset_equiv) auto
  then show ?thesis by (simp add: from_gguf_metadata_def)
qed

definition sample_metadata :: "(string \<times> spec_value) list" where
  "sample_metadata = [(''llama.vocab_size'', G_U32 7), (''tokenizer.ggml.tokens'', G_ArrayLen 9),
     (''llama.embedding_length'', G_U32 8), (''llama.block_count'', G_U32 1),
     (''llama.feed_forward_length'', G_U32 16), (''llama.attention.head_count'', G_U32 2),
     (''general.file_type'', G_U32 7)]"

lemma metadata_order_irrelevant_witness:
  "\<exists>s. from_gguf_metadata sample_metadata = (Ok s :: (string, model_spec) res) \<and>
     from_gguf_metadata (rev sample_metadata) = (Ok s :: (string, model_spec) res) \<and> n_vocab s = 9 \<and> n_head_kv s = 2"
proof -
  have c: "classify_key ''llama.vocab_size'' = Some SK_VocabSize" "classify_key ''tokenizer.ggml.tokens'' = Some SK_Tokens"
    "classify_key ''llama.embedding_length'' = Some SK_Embedding" "classify_key ''llama.block_count'' = Some SK_Blocks"
    "classify_key ''llama.feed_forward_length'' = Some SK_FeedForward"
    "classify_key ''llama.attention.head_count'' = Some SK_Heads" "classify_key ''general.file_type'' = Some SK_FileType"
    by (simp_all add: classify_key_def suffix_key_def)
  have "unambiguous sample_metadata" by (simp add: unambiguous_def sample_metadata_def entry_slot_def c)
  then have "from_gguf_metadata (rev sample_metadata) = (from_gguf_metadata sample_metadata :: (string, model_spec) res)"
    by (intro metadata_order_irrelevant [symmetric]) simp_all
  moreover have "fold scan_entry sample_metadata scan_start =
      scan_start\<lparr>sc_vocab := Some 9, sc_embd := Some 8, sc_layer := Some 1, sc_ff := Some 16, sc_head := Some 2,
        sc_file_type := Some 7\<rparr>" (is "_ = ?sc")
    by (simp add: sample_metadata_def scan_entry_def c when_some_def scan_start_def)
  then have "from_gguf_metadata sample_metadata = (spec_of_scan ?sc :: (string, model_spec) res)"
    by (simp add: from_gguf_metadata_def)
  moreover have "\<exists>s. spec_of_scan ?sc = (Ok s :: (string, model_spec) res) \<and> n_vocab s = 9 \<and> n_head_kv s = 2"
    by (simp add: spec_of_scan_def scan_start_def expect_def compute_derived_Ok usize_div_def)
  ultimately show ?thesis by simp
qed

section \<open>Block sizes of the dominant type\<close>

fun quant_block_size :: "gguf_file_type \<Rightarrow> nat" where
  "quant_block_size FT_Q4_0 = 32"
| "quant_block_size FT_Q4_1 = 32"
| "quant_block_size FT_Q5_0 = 32"
| "quant_block_size FT_Q5_1 = 32"
| "quant_block_size FT_Q8_0 = 32"
| "quant_block_size FT_Q2_K = 256"
| "quant_block_size FT_Q3_K = 256"
| "quant_block_size FT_Q4_K = 256"
| "quant_block_size FT_Q5_K = 256"
| "quant_block_size FT_Q6_K = 256"
| "quant_block_size FT_F16 = 1"
| "quant_block_size FT_F32 = 1"
| "quant_block_size FT_Unknown = 32"

fun quant_block_bytes :: "gguf_file_type \<Rightarrow> nat" where
  "quant_block_bytes FT_Q4_0 = 18"
| "quant_block_bytes FT_Q4_1 = 20"
| "quant_block_bytes FT_Q5_0 = 22"
| "quant_block_bytes FT_Q5_1 = 24"
| "quant_block_bytes FT_Q8_0 = 34"
| "quant_block_bytes FT_Q2_K = 84"
| "quant_block_bytes FT_Q3_K = 110"
| "quant_block_bytes FT_Q4_K = 144"
| "quant_block_bytes FT_Q5_K = 176"
| "quant_block_bytes FT_Q6_K = 210"
| "quant_block_bytes FT_F16 = 2"
| "quant_block_bytes FT_F32 = 4"
| "quant_block_bytes FT_Unknown = 18"

definition quant_row_bytes :: "model_spec \<Rightarrow> nat \<Rightarrow> nat" where
  "quant_row_bytes s cols = wmul (cols div quant_block_size (file_type s)) (quant_block_bytes (file_type s))"

definition uses_layer_norm :: "model_spec \<Rightarrow> bool" where
  "uses_layer_norm s = (spec_norm s = NK_Layer)"

fun arch_string :: "model_arch \<Rightarrow> string" where
  "arch_string MA_Llama = ''llama''"
| "arch_string MA_Mistral = ''mistral''"
| "arch_string MA_Phi = ''phi''"
| "arch_string MA_Gemma = ''gemma''"
| "arch_string MA_Qwen2 = ''qwen2''"
| "arch_string MA_Qwen3 = ''qwen3''"
| "arch_string (MA_Other s) = s"

end
