(* ===== verification/Descriptor.thy ===== *)
theory Descriptor
  imports Manifest
begin

text \<open>
  \<open>src/src/model_descriptor.rs\<close>: the dense model descriptor, built from a manifest or
  refused with a coded error.
\<close>

datatype architecture = Arch_Llama | Arch_Qwen3

datatype descriptor_precision = DP_F32

datatype rope_layout = Rope_AdjacentPairs | Rope_SplitHalf

record admission_error =
  ae_code :: string
  ae_subject :: string
  ae_detail :: string

type_synonym 'a adm_res = "(admission_error, 'a) res"

definition adm_error :: "string \<Rightarrow> string \<Rightarrow> string \<Rightarrow> admission_error" where
  "adm_error code subject detail = \<lparr>ae_code = code, ae_subject = subject, ae_detail = detail\<rparr>"

record tensor_binding =
  tb_name :: string
  tb_dimensions :: "nat list"
  tb_ggml_type :: nat
  tb_offset :: nat
  tb_bytes :: nat

record model_descriptor =
  md_architecture :: architecture
  md_context :: nat
  md_hidden :: nat
  md_heads :: nat
  md_kv_heads :: nat
  md_head_dim :: nat
  md_ffn :: nat
  md_layers :: nat
  md_vocab :: nat
  md_rms_epsilon :: f32
  md_rope_base :: f32
  md_rope_dimensions :: nat
  md_rope_frequency_factors :: "string option"
  md_bindings :: "tensor_binding list"
  md_output_head :: string

section \<open>Metadata\<close>

definition read_architecture :: "model_manifest \<Rightarrow> architecture adm_res" where
  "read_architecture m =
     (case mf_value m ''general.architecture'' of
        Some (V_String s) \<Rightarrow>
          if s = ''llama'' then Ok Arch_Llama
          else if s = ''qwen3'' then Ok Arch_Qwen3
          else Err (adm_error ''unsupported_architecture'' s ''dense foundation supports llama and qwen3 only'')
      | _ \<Rightarrow> Err (adm_error ''missing_metadata'' ''general.architecture'' ''required string''))"

fun arch_prefix :: "architecture \<Rightarrow> string" where
  "arch_prefix Arch_Llama = ''llama''"
| "arch_prefix Arch_Qwen3 = ''qwen3''"

text \<open>The closures \<open>integer\<close>, \<open>required\<close> and \<open>float\<close>; \<open>usize::try_from\<close> cannot fail on 64 bits.\<close>

definition md_integer :: "model_manifest \<Rightarrow> string \<Rightarrow> nat adm_res" where
  "md_integer m key =
     (case mf_value m key of
        Some (V_U32 x) \<Rightarrow> Ok (unat x)
      | Some (V_U64 x) \<Rightarrow> Ok (unat x)
      | Some _ \<Rightarrow> Err (adm_error ''invalid_metadata_type'' key ''required unsigned integer'')
      | None \<Rightarrow> Err (adm_error ''missing_metadata'' key ''required unsigned integer''))"

definition md_required :: "model_manifest \<Rightarrow> string \<Rightarrow> string \<Rightarrow> nat adm_res" where
  "md_required m prefix suffix =
     (let key = prefix @ ''.'' @ suffix in
      and_then (md_integer m key) (\<lambda>x.
      if x = 0 then Err (adm_error ''invalid_dimension'' key ''must be positive'') else Ok x))"

definition md_float :: "model_manifest \<Rightarrow> string \<Rightarrow> string \<Rightarrow> f32 adm_res" where
  "md_float m prefix suffix =
     (let key = prefix @ ''.'' @ suffix in
      case mf_value m key of
        Some (V_F32 x) \<Rightarrow>
          if f32_is_finite x \<and> f32_lt 0 x then Ok x
          else Err (adm_error ''invalid_metadata'' key ''required positive finite F32'')
      | Some _ \<Rightarrow> Err (adm_error ''invalid_metadata'' key ''required positive finite F32'')
      | None \<Rightarrow> Err (adm_error ''missing_metadata'' key ''required positive finite F32''))"

text \<open>Bodies of the loops over the metadata.\<close>

definition check_execution_key :: "string \<times> gguf_value \<Rightarrow> unit adm_res" where
  "check_execution_key kv =
     (case kv of (key, value) \<Rightarrow>
        if ends_with key ''.expert_count'' \<or> ends_with key ''.expert_used_count'' \<or>
           contains key ''.ssm.'' \<or> contains key ''.recurrent.'' \<or> contains key ''lora_rank'' \<or>
           ends_with key ''.attention.sliding_window'' then
          (if value = V_U32 0 \<or> value = V_U64 0 then Ok ()
           else Err (adm_error ''unsupported_execution_requirement'' key
                  ''requires a separate executor/state plan''))
        else Ok ())"

definition check_position_key :: "string \<times> gguf_value \<Rightarrow> unit adm_res" where
  "check_position_key kv =
     (case kv of (key, value) \<Rightarrow>
        if contains key ''.rope.scaling.'' \<and> value \<noteq> V_String ''none'' then
          Err (adm_error ''unsupported_position_semantics'' key ''scaling requires an explicit position plan'')
        else if (contains key ''softcapping'' \<or> ends_with key ''.attention.scale'') \<and>
                \<not> (case value of V_F32 x \<Rightarrow> f32_eq x 0 | _ \<Rightarrow> False) then
          Err (adm_error ''unsupported_attention_semantics'' key ''requires an explicit score transform'')
        else Ok ())"

section \<open>Geometry\<close>

definition read_head_dim :: "model_manifest \<Rightarrow> architecture \<Rightarrow> string \<Rightarrow> nat \<Rightarrow> nat \<Rightarrow> nat adm_res" where
  "read_head_dim m arch prefix hidden heads =
     (case arch of
        Arch_Qwen3 \<Rightarrow> md_required m prefix ''attention.key_length''
      | Arch_Llama \<Rightarrow>
          (let k = prefix @ ''.attention.key_length'' in
           if mf_value m k \<noteq> None then md_required m prefix ''attention.key_length''
           else if hidden mod heads \<noteq> 0 then
             Err (adm_error ''invalid_head_dimension'' k ''hidden width must divide head count'')
           else Ok (hidden div heads)))"

definition check_value_length :: "model_manifest \<Rightarrow> string \<Rightarrow> nat \<Rightarrow> unit adm_res" where
  "check_value_length m prefix head_dim =
     (let vkey = prefix @ ''.attention.value_length'' in
      if mf_value m vkey \<noteq> None then
        and_then (md_required m prefix ''attention.value_length'') (\<lambda>x.
        if x \<noteq> head_dim then
          Err (adm_error ''unsupported_value_dimension'' vkey
                 ''legacy dense adapter requires equal key/value dimensions'')
        else Ok ())
      else Ok ())"

definition read_rope_dimensions :: "model_manifest \<Rightarrow> string \<Rightarrow> nat \<Rightarrow> nat adm_res" where
  "read_rope_dimensions m prefix head_dim =
     and_then (if mf_value m (prefix @ ''.rope.dimension_count'') \<noteq> None
               then md_required m prefix ''rope.dimension_count'' else Ok head_dim) (\<lambda>rope_dimensions.
     if head_dim < rope_dimensions \<or> rope_dimensions mod 2 \<noteq> 0 then
       Err (adm_error ''invalid_rope'' ''rope.dimension_count'' ''must be even and at most head dimension'')
     else Ok rope_dimensions)"

definition read_vocabulary :: "model_manifest \<Rightarrow> nat \<Rightarrow> nat adm_res" where
  "read_vocabulary m hidden =
     and_then (ok_or (mf_tensor m ''token_embd.weight'')
        (adm_error ''missing_tensor'' ''token_embd.weight'' ''required'')) (\<lambda>embedding.
     if length (td_dimensions embedding) \<noteq> 2 \<or> td_dimensions embedding ! 0 \<noteq> hidden then
       Err (adm_error ''invalid_tensor_shape'' ''token_embd.weight'' ''expected [hidden,vocabulary]'')
     else
       (let vocab = td_dimensions embedding ! 1 in
        case mf_value m ''tokenizer.ggml.tokens'' of
          Some (V_Array tokens) \<Rightarrow>
            if length tokens \<noteq> vocab then
              Err (adm_error ''vocabulary_mismatch'' ''tokenizer.ggml.tokens''
                     ''token count differs from embedding rows'')
            else Ok vocab
        | _ \<Rightarrow> Ok vocab))"

section \<open>Tensors\<close>

definition validate_tensor :: "tensor_descriptor \<Rightarrow> nat list \<Rightarrow> bool \<Rightarrow> unit adm_res" where
  "validate_tensor t expected is_norm =
     (if td_dimensions t \<noteq> expected then
        Err (adm_error ''invalid_tensor_shape'' (td_name t)
          (''expected '' @ debug_dims expected @ '', got '' @ debug_dims (td_dimensions t)))
      else if is_norm \<and> td_ggml_type t \<noteq> 0 then
        Err (adm_error ''unsupported_norm_precision'' (td_name t) ''existing adapter expects F32 norm weights'')
      else if \<not> supported_type (td_ggml_type t) then
        Err (adm_error ''unsupported_operator_quantization'' (td_name t) (dec (td_ggml_type t)))
      else Ok ())"

type_synonym requirement = "string \<times> nat list \<times> bool"

text \<open>The closure \<open>bind\<close>, which pushes onto \<open>bindings\<close>.\<close>

definition bind_tensor :: "model_manifest \<Rightarrow> requirement \<Rightarrow> tensor_binding list \<Rightarrow> tensor_binding list adm_res" where
  "bind_tensor m req bindings =
     (case req of (name, expected, is_norm) \<Rightarrow>
        and_then (ok_or (mf_tensor m name) (adm_error ''missing_tensor'' name ''required by dense graph'')) (\<lambda>t.
        and_then (validate_tensor t expected is_norm) (\<lambda>_.
        Ok (bindings @ [\<lparr>tb_name = name, tb_dimensions = td_dimensions t, tb_ggml_type = td_ggml_type t,
             tb_offset = td_absolute_offset t, tb_bytes = td_byte_len t\<rparr>]))))"

definition layer_name :: "nat \<Rightarrow> string \<Rightarrow> string" where
  "layer_name layer suffix = ''blk.'' @ dec layer @ ''.'' @ suffix"

definition layer_requirements ::
    "architecture \<Rightarrow> nat \<Rightarrow> nat \<Rightarrow> nat \<Rightarrow> nat \<Rightarrow> nat \<Rightarrow> nat \<Rightarrow> requirement list" where
  "layer_requirements arch hidden qwidth kvwidth ffn head_dim layer =
     map (\<lambda>(suffix, expected, is_norm). (layer_name layer suffix, expected, is_norm))
       ([(''attn_norm.weight'', [hidden], True),
         (''attn_q.weight'', [hidden, qwidth], False),
         (''attn_k.weight'', [hidden, kvwidth], False),
         (''attn_v.weight'', [hidden, kvwidth], False),
         (''attn_output.weight'', [qwidth, hidden], False),
         (''ffn_norm.weight'', [hidden], True),
         (''ffn_gate.weight'', [hidden, ffn], False),
         (''ffn_up.weight'', [hidden, ffn], False),
         (''ffn_down.weight'', [ffn, hidden], False)] @
        (if arch = Arch_Qwen3 then [(''attn_q_norm.weight'', [head_dim], True),
                                    (''attn_k_norm.weight'', [head_dim], True)] else []))"

definition bind_layers ::
    "model_manifest \<Rightarrow> architecture \<Rightarrow> nat \<Rightarrow> nat \<Rightarrow> nat \<Rightarrow> nat \<Rightarrow> nat \<Rightarrow> nat \<Rightarrow>
     tensor_binding list \<Rightarrow> tensor_binding list adm_res" where
  "bind_layers m arch layers hidden qwidth kvwidth ffn head_dim =
     fold_res (\<lambda>layer. fold_res (bind_tensor m)
       (layer_requirements arch hidden qwidth kvwidth ffn head_dim layer)) [0..<layers]"

definition check_planned :: "tensor_binding list \<Rightarrow> tensor_descriptor \<Rightarrow> unit adm_res" where
  "check_planned bindings t =
     (let name = td_name t in
      if name \<notin> tb_name ` set bindings then
        Err (adm_error ''unplanned_tensor'' name ''all tensors must have an explicit graph role'')
      else if ends_with name ''.bias'' \<or> contains name ''_exps.'' \<or> contains name ''attn_qkv'' \<or>
              contains name ''post_attention_norm'' \<or> contains name ''post_ffw_norm'' then
        Err (adm_error ''unsupported_tensor_semantics'' name ''requires an explicit graph builder'')
      else Ok ())"

section \<open>Construction\<close>

definition output_head_name :: "model_manifest \<Rightarrow> string" where
  "output_head_name m =
     (if mf_tensor m ''output.weight'' \<noteq> None then ''output.weight'' else ''token_embd.weight'')"

definition rope_factors :: "model_manifest \<Rightarrow> string option" where
  "rope_factors m = (if mf_tensor m ''rope_freqs.weight'' \<noteq> None then Some ''rope_freqs.weight'' else None)"

definition bind_globals :: "model_manifest \<Rightarrow> nat \<Rightarrow> nat \<Rightarrow> nat \<Rightarrow> tensor_binding list adm_res" where
  "bind_globals m hidden vocab rope_dimensions =
     and_then (bind_tensor m (''token_embd.weight'', [hidden, vocab], False) []) (\<lambda>bs.
     and_then (bind_tensor m (''output_norm.weight'', [hidden], True) bs) (\<lambda>bs.
     and_then (bind_tensor m (output_head_name m, [hidden, vocab], False) bs) (\<lambda>bs.
     if mf_tensor m ''rope_freqs.weight'' \<noteq> None
     then bind_tensor m (''rope_freqs.weight'', [rope_dimensions div 2], True) bs
     else Ok bs)))"

definition from_manifest :: "model_manifest \<Rightarrow> model_descriptor adm_res" where
  "from_manifest m =
     and_then (read_architecture m) (\<lambda>arch.
     let prefix = arch_prefix arch in
     and_then (for_each check_execution_key (mf_values m)) (\<lambda>_.
     and_then (md_required m prefix ''embedding_length'') (\<lambda>hidden.
     and_then (md_required m prefix ''attention.head_count'') (\<lambda>heads.
     and_then (md_required m prefix ''attention.head_count_kv'') (\<lambda>kv_heads.
     if heads mod kv_heads \<noteq> 0 then
       Err (adm_error ''invalid_gqa'' ''attention.head_count'' ''Q heads must be divisible by KV heads'')
     else
     and_then (read_head_dim m arch prefix hidden heads) (\<lambda>head_dim.
     and_then (check_value_length m prefix head_dim) (\<lambda>_.
     and_then (read_rope_dimensions m prefix head_dim) (\<lambda>rope_dimensions.
     and_then (md_required m prefix ''block_count'') (\<lambda>layers.
     and_then (md_required m prefix ''context_length'') (\<lambda>context.
     and_then (md_required m prefix ''feed_forward_length'') (\<lambda>ffn.
     and_then (md_float m prefix ''attention.layer_norm_rms_epsilon'') (\<lambda>rms_epsilon.
     and_then (md_float m prefix ''rope.freq_base'') (\<lambda>rope_base.
     and_then (read_vocabulary m hidden) (\<lambda>vocab.
     and_then (bind_globals m hidden vocab rope_dimensions) (\<lambda>bs.
     and_then (ok_or (checked_mul heads head_dim) (adm_error ''overflow'' ''Q width'' ''heads * head_dim'')) (\<lambda>qwidth.
     and_then (ok_or (checked_mul kv_heads head_dim) (adm_error ''overflow'' ''KV width'' ''heads * head_dim'')) (\<lambda>kvwidth.
     and_then (bind_layers m arch layers hidden qwidth kvwidth ffn head_dim bs) (\<lambda>bindings.
     and_then (for_each check_position_key (mf_values m)) (\<lambda>_.
     and_then (for_each (check_planned bindings) (mf_tensors m)) (\<lambda>_.
     Ok \<lparr>md_architecture = arch, md_context = context, md_hidden = hidden, md_heads = heads,
          md_kv_heads = kv_heads, md_head_dim = head_dim, md_ffn = ffn, md_layers = layers,
          md_vocab = vocab, md_rms_epsilon = rms_epsilon, md_rope_base = rope_base,
          md_rope_dimensions = rope_dimensions, md_rope_frequency_factors = rope_factors m,
          md_bindings = bindings, md_output_head = output_head_name m\<rparr>))))))))))))))))))))"

section \<open>What an accepted descriptor guarantees\<close>

definition binding_of :: "tensor_descriptor \<Rightarrow> tensor_binding" where
  "binding_of t = \<lparr>tb_name = td_name t, tb_dimensions = td_dimensions t, tb_ggml_type = td_ggml_type t,
     tb_offset = td_absolute_offset t, tb_bytes = td_byte_len t\<rparr>"

definition meets :: "model_manifest \<Rightarrow> requirement \<Rightarrow> bool" where
  "meets m req = (case req of (name, expected, is_norm) \<Rightarrow>
     (\<exists>t. mf_tensor m name = Some t \<and> td_dimensions t = expected \<and> supported_type (td_ggml_type t) \<and>
       (is_norm \<longrightarrow> td_ggml_type t = 0)))"

lemma validate_tensor_Ok:
  "(validate_tensor t expected is_norm = Ok u) =
     (td_dimensions t = expected \<and> (is_norm \<longrightarrow> td_ggml_type t = 0) \<and> supported_type (td_ggml_type t))"
  by (simp add: validate_tensor_def)

lemma bind_tensor_Ok:
  "(bind_tensor m req bs = Ok bs') =
     (meets m req \<and> bs' = bs @ [binding_of (the (mf_tensor m (fst req)))])"
proof -
  obtain name expected is_norm where r: "req = (name, expected, is_norm)" by (cases req)
  show ?thesis
  proof (cases "mf_tensor m name")
    case None
    then show ?thesis by (simp add: r bind_tensor_def meets_def)
  next
    case (Some t)
    with mf_tensor_Some have "td_name t = name" by blast
    with Some show ?thesis by (auto simp: r bind_tensor_def meets_def validate_tensor_Ok binding_of_def)
  qed
qed

lemma fold_bind_Ok:
  "(fold_res (bind_tensor m) reqs bs = Ok bs') =
     ((\<forall>req\<in>set reqs. meets m req) \<and> bs' = bs @ map (\<lambda>req. binding_of (the (mf_tensor m (fst req)))) reqs)"
  by (induction reqs arbitrary: bs) (auto simp: bind_tensor_Ok)

lemma fold_res_concat:
  "fold_res (\<lambda>x. fold_res f (g x)) xs s = fold_res f (concat (map g xs)) s"
proof (induction xs arbitrary: s)
  case (Cons x xs)
  then show ?case by (cases "fold_res f (g x) s") (simp_all add: fold_res_append)
qed simp

lemma bind_layers_Ok:
  "(bind_layers m arch layers hidden qwidth kvwidth ffn head_dim bs = Ok bs') =
     ((\<forall>layer<layers. \<forall>req\<in>set (layer_requirements arch hidden qwidth kvwidth ffn head_dim layer). meets m req) \<and>
      bs' = bs @ map (\<lambda>req. binding_of (the (mf_tensor m (fst req))))
        (concat (map (layer_requirements arch hidden qwidth kvwidth ffn head_dim) [0..<layers])))"
  unfolding bind_layers_def fold_res_concat fold_bind_Ok by (simp only: set_concat set_map) auto

text \<open>All that the dense graph requires of a manifest, for the geometry of a descriptor.\<close>

definition global_requirements :: "model_manifest \<Rightarrow> nat \<Rightarrow> nat \<Rightarrow> nat \<Rightarrow> requirement list" where
  "global_requirements m hidden vocab rope_dimensions =
     [(''token_embd.weight'', [hidden, vocab], False), (''output_norm.weight'', [hidden], True),
      (output_head_name m, [hidden, vocab], False)] @
     (if mf_tensor m ''rope_freqs.weight'' \<noteq> None
      then [(''rope_freqs.weight'', [rope_dimensions div 2], True)] else [])"

lemma bind_globals_Ok:
  "(bind_globals m hidden vocab rope_dimensions = Ok bs) =
     ((\<forall>req\<in>set (global_requirements m hidden vocab rope_dimensions). meets m req) \<and>
      bs = map (\<lambda>req. binding_of (the (mf_tensor m (fst req)))) (global_requirements m hidden vocab rope_dimensions))"
  by (auto simp: bind_globals_def global_requirements_def bind_tensor_Ok)

definition requirements :: "model_manifest \<Rightarrow> model_descriptor \<Rightarrow> requirement list" where
  "requirements m d = global_requirements m (md_hidden d) (md_vocab d) (md_rope_dimensions d) @
     concat (map (layer_requirements (md_architecture d) (md_hidden d) (md_heads d * md_head_dim d)
       (md_kv_heads d * md_head_dim d) (md_ffn d) (md_head_dim d)) [0..<md_layers d])"

definition geometry_ok :: "model_descriptor \<Rightarrow> bool" where
  "geometry_ok d =
     (0 < md_hidden d \<and> 0 < md_heads d \<and> 0 < md_kv_heads d \<and> 0 < md_head_dim d \<and> 0 < md_ffn d \<and>
      0 < md_layers d \<and> 0 < md_context d \<and> md_heads d mod md_kv_heads d = 0 \<and>
      0 < md_rope_dimensions d \<and> even (md_rope_dimensions d) \<and> md_rope_dimensions d \<le> md_head_dim d \<and>
      md_heads d * md_head_dim d < u64_range \<and> md_kv_heads d * md_head_dim d < u64_range \<and>
      md_context d < u64_range \<and> md_head_dim d < u64_range \<and>
      f32_is_finite (md_rms_epsilon d) \<and> f32_lt 0 (md_rms_epsilon d) \<and>
      f32_is_finite (md_rope_base d) \<and> f32_lt 0 (md_rope_base d))"

lemma md_integer_less: "md_integer m key = Ok n \<Longrightarrow> n < u64_range"
  by (auto simp: md_integer_def u64_range_def split: option.splits gguf_value.splits
      intro: less_le_trans [OF unsigned_less])

lemma md_required_Ok: "md_required m prefix suffix = Ok n \<Longrightarrow> 0 < n \<and> n < u64_range"
  by (auto simp: md_required_def Let_def dest: md_integer_less split: if_splits)

lemma md_float_Ok: "md_float m prefix suffix = Ok x \<Longrightarrow> f32_is_finite x \<and> f32_lt 0 x"
  by (auto simp: md_float_def Let_def split: option.splits gguf_value.splits if_splits)

lemma read_head_dim_Ok:
  assumes "read_head_dim m arch prefix hidden heads = Ok n" and "0 < hidden" and "hidden < u64_range" and "0 < heads"
  shows "0 < n \<and> n < u64_range"
proof -
  have "0 < hidden div heads \<and> hidden div heads < u64_range" if "hidden mod heads = 0"
  proof -
    have "hidden = hidden div heads * heads" using that by (metis add.right_neutral div_mult_mod_eq)
    with assms(2) have "0 < hidden div heads" by (metis gr0I mult_0)
    moreover have "hidden div heads \<le> hidden" by (rule div_le_dividend)
    ultimately show ?thesis using assms(3) by linarith
  qed
  then show ?thesis
    using assms(1) by (auto simp: read_head_dim_def Let_def dest: md_required_Ok split: architecture.splits if_splits)
qed

lemma read_rope_Ok:
  assumes "read_rope_dimensions m prefix head_dim = Ok n" and "0 < head_dim"
  shows "0 < n \<and> even n \<and> n \<le> head_dim"
  using assms by (auto simp: read_rope_dimensions_def even_iff_mod_2_eq_zero dest: md_required_Ok split: if_splits)

lemma check_planned_Ok: "check_planned bs t = Ok u \<Longrightarrow> td_name t \<in> tb_name ` set bs"
  by (auto simp: check_planned_def Let_def split: if_splits)

lemma read_vocabulary_Ok:
  "read_vocabulary m hidden = Ok v \<Longrightarrow>
     \<exists>t. mf_tensor m ''token_embd.weight'' = Some t \<and> td_dimensions t = [hidden, v]"
proof -
  assume a: "read_vocabulary m hidden = Ok v"
  then obtain t where t: "mf_tensor m ''token_embd.weight'' = Some t" "length (td_dimensions t) = 2"
    "td_dimensions t ! 0 = hidden" "td_dimensions t ! 1 = v"
    by (auto simp: read_vocabulary_def Let_def split: if_splits option.splits gguf_value.splits)
  then have "td_dimensions t = [hidden, v]" by (auto simp: numeral_2_eq_2 length_Suc_conv)
  with t show ?thesis by simp
qed

lemma from_manifest_steps:
  assumes "from_manifest m = Ok d"
  obtains prefix bs where "prefix = arch_prefix (md_architecture d)"
    and "read_architecture m = Ok (md_architecture d)"
    and "md_required m prefix ''embedding_length'' = Ok (md_hidden d)"
    and "md_required m prefix ''attention.head_count'' = Ok (md_heads d)"
    and "md_required m prefix ''attention.head_count_kv'' = Ok (md_kv_heads d)"
    and "md_heads d mod md_kv_heads d = 0"
    and "read_head_dim m (md_architecture d) prefix (md_hidden d) (md_heads d) = Ok (md_head_dim d)"
    and "read_rope_dimensions m prefix (md_head_dim d) = Ok (md_rope_dimensions d)"
    and "md_required m prefix ''block_count'' = Ok (md_layers d)"
    and "md_required m prefix ''context_length'' = Ok (md_context d)"
    and "md_required m prefix ''feed_forward_length'' = Ok (md_ffn d)"
    and "md_float m prefix ''attention.layer_norm_rms_epsilon'' = Ok (md_rms_epsilon d)"
    and "md_float m prefix ''rope.freq_base'' = Ok (md_rope_base d)"
    and "read_vocabulary m (md_hidden d) = Ok (md_vocab d)"
    and "bind_globals m (md_hidden d) (md_vocab d) (md_rope_dimensions d) = Ok bs"
    and "md_heads d * md_head_dim d < u64_range" and "md_kv_heads d * md_head_dim d < u64_range"
    and "bind_layers m (md_architecture d) (md_layers d) (md_hidden d) (md_heads d * md_head_dim d)
      (md_kv_heads d * md_head_dim d) (md_ffn d) (md_head_dim d) bs = Ok (md_bindings d)"
    and "\<forall>t\<in>set (mf_tensors m). check_planned (md_bindings d) t = Ok ()"
    and "md_rope_frequency_factors d = rope_factors m" and "md_output_head d = output_head_name m"
    and "\<forall>kv\<in>set (mf_values m). check_execution_key kv = Ok () \<and> check_position_key kv = Ok ()"
    and "check_value_length m prefix (md_head_dim d) = Ok ()"
  using assms unfolding from_manifest_def Let_def and_then_eq_Ok if_split_eq1
  by (elim exE conjE; simp only: res.distinct res.inject simp_thms; hypsubst_thin?)
     (auto split: if_splits)

lemma from_manifest_geometry:
  assumes "from_manifest m = Ok d"
  shows "geometry_ok d"
proof -
  obtain prefix where r: "md_required m prefix ''embedding_length'' = Ok (md_hidden d)"
    "md_required m prefix ''attention.head_count'' = Ok (md_heads d)"
    "md_required m prefix ''attention.head_count_kv'' = Ok (md_kv_heads d)"
    "md_heads d mod md_kv_heads d = 0"
    "read_head_dim m (md_architecture d) prefix (md_hidden d) (md_heads d) = Ok (md_head_dim d)"
    "read_rope_dimensions m prefix (md_head_dim d) = Ok (md_rope_dimensions d)"
    "md_required m prefix ''block_count'' = Ok (md_layers d)"
    "md_required m prefix ''context_length'' = Ok (md_context d)"
    "md_required m prefix ''feed_forward_length'' = Ok (md_ffn d)"
    "md_float m prefix ''attention.layer_norm_rms_epsilon'' = Ok (md_rms_epsilon d)"
    "md_float m prefix ''rope.freq_base'' = Ok (md_rope_base d)"
    "md_heads d * md_head_dim d < u64_range" "md_kv_heads d * md_head_dim d < u64_range"
    by (rule from_manifest_steps [OF assms]) (rule that; assumption)
  note req = r(1,2,3,7,8,9) [THEN md_required_Ok]
  have hd: "0 < md_head_dim d \<and> md_head_dim d < u64_range"
    using read_head_dim_Ok [OF r(5)] req by simp
  have rope: "0 < md_rope_dimensions d \<and> even (md_rope_dimensions d) \<and> md_rope_dimensions d \<le> md_head_dim d"
    using read_rope_Ok [OF r(6)] hd by simp
  show ?thesis
    unfolding geometry_ok_def using req hd rope r(4,12,13) r(10,11) [THEN md_float_Ok] by (intro conjI) simp_all
qed

lemma from_manifest_bindings:
  assumes "from_manifest m = Ok d"
  shows "\<forall>req\<in>set (requirements m d). meets m req"
    and "md_bindings d = map (\<lambda>req. binding_of (the (mf_tensor m (fst req)))) (requirements m d)"
    and "\<forall>t\<in>set (mf_tensors m). td_name t \<in> tb_name ` set (md_bindings d)"
    and "md_rope_frequency_factors d = rope_factors m" and "md_output_head d = output_head_name m"
proof -
  obtain bs where b: "bind_globals m (md_hidden d) (md_vocab d) (md_rope_dimensions d) = Ok bs"
    "bind_layers m (md_architecture d) (md_layers d) (md_hidden d) (md_heads d * md_head_dim d)
      (md_kv_heads d * md_head_dim d) (md_ffn d) (md_head_dim d) bs = Ok (md_bindings d)"
    "\<forall>t\<in>set (mf_tensors m). check_planned (md_bindings d) t = Ok ()"
    "md_rope_frequency_factors d = rope_factors m" "md_output_head d = output_head_name m"
    by (rule from_manifest_steps [OF assms]) (rule that; assumption)
  show "\<forall>req\<in>set (requirements m d). meets m req"
    using b(1,2) unfolding bind_globals_Ok bind_layers_Ok requirements_def set_append set_concat set_map by auto
  show "md_bindings d = map (\<lambda>req. binding_of (the (mf_tensor m (fst req)))) (requirements m d)"
    using b(1,2) unfolding bind_globals_Ok bind_layers_Ok requirements_def map_append by (elim conjE) simp
  show "\<forall>t\<in>set (mf_tensors m). td_name t \<in> tb_name ` set (md_bindings d)"
    using b(3) check_planned_Ok by blast
  show "md_rope_frequency_factors d = rope_factors m" "md_output_head d = output_head_name m"
    by (rule b(4,5))+
qed

lemma meets_name: "meets m req \<Longrightarrow> tb_name (binding_of (the (mf_tensor m (fst req)))) = fst req"
  by (auto simp: meets_def binding_of_def dest: mf_tensor_Some split: prod.splits)

lemma descriptor_names:
  assumes "from_manifest m = Ok d"
  shows "td_name ` set (mf_tensors m) = tb_name ` set (md_bindings d)"
proof -
  note b = from_manifest_bindings [OF assms]
  have "tb_name ` set (md_bindings d) \<subseteq> td_name ` set (mf_tensors m)"
  proof
    fix name assume "name \<in> tb_name ` set (md_bindings d)"
    then obtain req where req: "req \<in> set (requirements m d)"
      "name = tb_name (binding_of (the (mf_tensor m (fst req))))" unfolding b(2) by auto
    then have "meets m req" using b(1) by blast
    then obtain t where "mf_tensor m (fst req) = Some t" by (auto simp: meets_def split: prod.splits)
    with req mf_tensor_Some show "name \<in> td_name ` set (mf_tensors m)" by (fastforce simp: binding_of_def)
  qed
  then show ?thesis using b(3) by blast
qed

text \<open>
  C10: An accepted descriptor is the model file: its geometry is consistent (positive
  dimensions, query heads a multiple of key-value heads, an even rotary width inside the
  head, widths that do not overflow, positive finite constants), every tensor the dense
  graph needs exists with the required shape and a supported type, the bindings are
  exactly those tensors in graph order, and the file has no tensor without a binding.
\<close>

theorem descriptor_sound:
  assumes "from_manifest m = Ok d"
  shows "geometry_ok d \<and> (\<forall>req\<in>set (requirements m d). meets m req) \<and>
    md_bindings d = map (\<lambda>req. binding_of (the (mf_tensor m (fst req)))) (requirements m d) \<and>
    td_name ` set (mf_tensors m) = tb_name ` set (md_bindings d)"
  using from_manifest_geometry [OF assms] from_manifest_bindings [OF assms] descriptor_names [OF assms] by blast

text \<open>A one-layer model with F32 weights, tied head and two-wide rows.\<close>

definition sample_tensor :: "nat \<Rightarrow> string \<Rightarrow> nat list \<Rightarrow> tensor_descriptor" where
  "sample_tensor offset name dims = \<lparr>td_name = name, td_dimensions = dims, td_ggml_type = 0,
     td_absolute_offset = offset, td_byte_len = 4 * prod_list dims\<rparr>"

definition sample_manifest :: model_manifest where
  "sample_manifest = \<lparr>mf_version = 3, mf_tensor_count = 11,
     mf_values = [(''general.architecture'', V_String ''llama''), (''llama.embedding_length'', V_U32 2),
       (''llama.attention.head_count'', V_U32 1), (''llama.attention.head_count_kv'', V_U32 1),
       (''llama.block_count'', V_U32 1), (''llama.context_length'', V_U32 4),
       (''llama.feed_forward_length'', V_U32 2),
       (''llama.attention.layer_norm_rms_epsilon'', V_F32 0x3F800000), (''llama.rope.freq_base'', V_F32 0x3F800000),
       (''tokenizer.ggml.tokens'', V_Array [V_String ''a'', V_String ''b'', V_String ''c'']),
       (''tokenizer.ggml.eos_token_id'', V_U32 2)],
     mf_tensors =
       [sample_tensor 64 ''token_embd.weight'' [2, 3], sample_tensor 96 ''output_norm.weight'' [2],
        sample_tensor 128 ''blk.0.attn_norm.weight'' [2], sample_tensor 160 ''blk.0.attn_q.weight'' [2, 2],
        sample_tensor 192 ''blk.0.attn_k.weight'' [2, 2], sample_tensor 224 ''blk.0.attn_v.weight'' [2, 2],
        sample_tensor 256 ''blk.0.attn_output.weight'' [2, 2], sample_tensor 288 ''blk.0.ffn_norm.weight'' [2],
        sample_tensor 320 ''blk.0.ffn_gate.weight'' [2, 2], sample_tensor 352 ''blk.0.ffn_up.weight'' [2, 2],
        sample_tensor 384 ''blk.0.ffn_down.weight'' [2, 2]],
     mf_file_len = 512, mf_data_start = 64\<rparr>"

lemma dec_0: "dec 0 = ''0''"
  by code_simp

lemma sample_lookups:
  "mf_tensor sample_manifest ''token_embd.weight'' = Some (sample_tensor 64 ''token_embd.weight'' [2, 3])"
  "mf_tensor sample_manifest ''output.weight'' = None"
  by (simp_all add: mf_tensor_def sample_manifest_def sample_tensor_def)

lemma sample_meets:
  "meets sample_manifest (''token_embd.weight'', [2, 3], False)"
  "\<forall>req\<in>set (layer_requirements Arch_Llama 2 2 2 2 2 0). meets sample_manifest req"
  by (simp_all add: meets_def mf_tensor_def sample_manifest_def sample_tensor_def supported_type_def
      layer_requirements_def layer_name_def dec_0)

lemma sample_manifest_ok: "manifest_ok sample_manifest"
  by (simp add: manifest_ok_def sample_manifest_def sample_tensor_def descriptor_ok_def block_elems_def
      block_bytes_def formula_for_type_def quant_formulas_def)

lemma sample_accepted: "is_ok (from_manifest sample_manifest)"
proof -
  let ?m = sample_manifest
  have v: "read_architecture ?m = Ok Arch_Llama"
    "md_required ?m ''llama'' ''embedding_length'' = Ok 2"
    "md_required ?m ''llama'' ''attention.head_count'' = Ok 1"
    "md_required ?m ''llama'' ''attention.head_count_kv'' = Ok 1"
    "read_head_dim ?m Arch_Llama ''llama'' 2 1 = Ok 2"
    "check_value_length ?m ''llama'' 2 = Ok ()"
    "read_rope_dimensions ?m ''llama'' 2 = Ok 2"
    "md_required ?m ''llama'' ''block_count'' = Ok 1"
    "md_required ?m ''llama'' ''context_length'' = Ok 4"
    "md_required ?m ''llama'' ''feed_forward_length'' = Ok 2"
    by (simp_all add: read_architecture_def md_required_def md_integer_def mf_value_def sample_manifest_def
        read_head_dim_def check_value_length_def read_rope_dimensions_def Let_def)
  have f: "md_float ?m ''llama'' ''attention.layer_norm_rms_epsilon'' = Ok 0x3F800000"
    "md_float ?m ''llama'' ''rope.freq_base'' = Ok 0x3F800000"
    by (simp_all add: md_float_def mf_value_def sample_manifest_def f32_is_finite_def f32_lt_def decode_def
        scaled_def sgn_val_def Let_def)
  have voc: "read_vocabulary ?m 2 = Ok 3"
    by (simp add: read_vocabulary_def sample_lookups res_simps sample_tensor_def mf_value_def)
      (simp add: sample_manifest_def)
  have keys: "for_each check_execution_key (mf_values ?m) = Ok ()" "for_each check_position_key (mf_values ?m) = Ok ()"
    by (simp_all add: sample_manifest_def check_execution_key_def check_position_key_def ends_with_def starts_with_def)
  let ?rs = "global_requirements ?m 2 3 2" and ?ls = "concat (map (layer_requirements Arch_Llama 2 2 2 2 2) [0..<1])"
  have g: "?rs = [(''token_embd.weight'', [2, 3], False), (''output_norm.weight'', [2], True),
      (''token_embd.weight'', [2, 3], False)]"
    by (simp add: global_requirements_def output_head_name_def mf_tensor_def)
      (simp add: sample_manifest_def sample_tensor_def)
  have "\<forall>req\<in>set ?rs. meets ?m req" unfolding g
    by (simp add: sample_meets) (simp add: meets_def mf_tensor_def sample_manifest_def sample_tensor_def supported_type_def)
  then obtain bs where bs: "bind_globals ?m 2 3 2 = Ok bs"
    "bs = map (\<lambda>req. binding_of (the (mf_tensor ?m (fst req)))) ?rs" by (simp add: bind_globals_Ok)
  obtain bindings where bl: "bind_layers ?m Arch_Llama 1 2 2 2 2 2 bs = Ok bindings"
    "bindings = bs @ map (\<lambda>req. binding_of (the (mf_tensor ?m (fst req)))) ?ls"
    using sample_meets(2) by (simp add: bind_layers_Ok)
  have names: "tb_name ` set bindings = fst ` set (?rs @ ?ls)"
  proof -
    have "\<forall>req\<in>set (?rs @ ?ls). meets ?m req" using \<open>\<forall>req\<in>set ?rs. meets ?m req\<close> sample_meets(2) by auto
    then show ?thesis unfolding bl(2) bs(2) using meets_name by (force simp: image_iff)
  qed
  have planned: "for_each (check_planned bindings) (mf_tensors ?m) = Ok ()"
    unfolding for_each_Ok check_planned_def Let_def names g
    by (simp add: sample_manifest_def sample_tensor_def layer_requirements_def layer_name_def dec_0
        ends_with_def starts_with_def)
  show ?thesis
    by (simp add: is_ok_iff from_manifest_def Let_def v f voc keys bs(1) bl(1) planned checked_mul_def u64_range_def res_simps
        del: and_then_eq_Ok One_nat_def)
qed

lemma descriptor_sound_witness:
  "\<exists>d. from_manifest sample_manifest = Ok d \<and> geometry_ok d \<and>
     td_name ` set (mf_tensors sample_manifest) = tb_name ` set (md_bindings d)"
proof -
  obtain d where "from_manifest sample_manifest = Ok d" using sample_accepted unfolding is_ok_iff by blast
  with descriptor_sound [OF this] show ?thesis by blast
qed

end
