(* ===== verification/Plan.thy ===== *)
theory Plan
  imports Descriptor Float_Div
begin

text \<open>
  \<open>src/src/execution/plan.rs\<close>: the operator sequence of a dense model, compiled from its
  descriptor.
\<close>

datatype operator =
    Op_RmsNorm string f32
  | Op_Linear string nat nat
  | Op_HeadRmsNorm string string nat f32
  | Op_CacheWrite
  | Op_RelativeRopeCausalAttention rope_layout nat f32 "string option" nat nat nat f32
      \<comment> \<open>layout, rope_dimensions, rope_base, frequency_factors, query_heads, kv_heads, head_dim, scale\<close>
  | Op_ResidualAdd
  | Op_SiluGateMultiply

record dense_layer_plan =
  lpl_index :: nat
  lpl_operators :: "operator list"

record dense_state_plan =
  sp_layers :: nat
  sp_kv_heads :: nat
  sp_head_dim :: nat
  sp_capacity :: nat
  sp_precision :: descriptor_precision

record precision_contract =
  pc_activations :: descriptor_precision
  pc_accumulation :: descriptor_precision
  pc_kv :: descriptor_precision
  pc_quantized_weights_dequantized_per_access :: bool

record dense_execution_plan =
  ep_descriptor :: model_descriptor
  ep_layers :: "dense_layer_plan list"
  ep_final_operators :: "operator list"
  ep_state :: dense_state_plan
  ep_precision :: precision_contract

text \<open>\<open>1.0 / (d.head_dim as f32).sqrt()\<close>\<close>

definition attention_scale :: "model_descriptor \<Rightarrow> f32" where
  "attention_scale d = f32_div f32_one (f32_sqrt (f32_of_int (int (md_head_dim d))))"

definition compile_layer :: "model_descriptor \<Rightarrow> nat \<Rightarrow> dense_layer_plan" where
  "compile_layer d index =
     (let qwidth = wmul (md_heads d) (md_head_dim d);
          kvwidth = wmul (md_kv_heads d) (md_head_dim d);
          name = (\<lambda>s. ''blk.'' @ dec index @ ''.'' @ s @ ''.weight'')
      in \<lparr>lpl_index = index,
          lpl_operators =
            [Op_RmsNorm (name ''attn_norm'') (md_rms_epsilon d),
             Op_Linear (name ''attn_q'') (md_hidden d) qwidth,
             Op_Linear (name ''attn_k'') (md_hidden d) kvwidth,
             Op_Linear (name ''attn_v'') (md_hidden d) kvwidth] @
            (if md_architecture d = Arch_Qwen3
             then [Op_HeadRmsNorm (name ''attn_q_norm'') (name ''attn_k_norm'') (md_head_dim d) (md_rms_epsilon d)]
             else []) @
            [Op_CacheWrite,
             Op_RelativeRopeCausalAttention
               (if md_architecture d = Arch_Qwen3 then Rope_SplitHalf else Rope_AdjacentPairs)
               (md_rope_dimensions d) (md_rope_base d) (md_rope_frequency_factors d)
               (md_heads d) (md_kv_heads d) (md_head_dim d) (attention_scale d),
             Op_Linear (name ''attn_output'') qwidth (md_hidden d),
             Op_ResidualAdd,
             Op_RmsNorm (name ''ffn_norm'') (md_rms_epsilon d),
             Op_Linear (name ''ffn_gate'') (md_hidden d) (md_ffn d),
             Op_Linear (name ''ffn_up'') (md_hidden d) (md_ffn d),
             Op_SiluGateMultiply,
             Op_Linear (name ''ffn_down'') (md_ffn d) (md_hidden d),
             Op_ResidualAdd]\<rparr>)"

definition compile :: "model_descriptor \<Rightarrow> dense_execution_plan" where
  "compile d =
     \<lparr>ep_descriptor = d, ep_layers = map (compile_layer d) [0..<md_layers d],
      ep_final_operators =
        [Op_RmsNorm ''output_norm.weight'' (md_rms_epsilon d),
         Op_Linear (md_output_head d) (md_hidden d) (md_vocab d)],
      ep_state = \<lparr>sp_layers = md_layers d, sp_kv_heads = md_kv_heads d,
        sp_head_dim = md_head_dim d, sp_capacity = md_context d, sp_precision = DP_F32\<rparr>,
      ep_precision = \<lparr>pc_activations = DP_F32, pc_accumulation = DP_F32, pc_kv = DP_F32,
        pc_quantized_weights_dequantized_per_access = True\<rparr>\<rparr>"

definition plan_tensor :: "dense_execution_plan \<Rightarrow> string \<Rightarrow> tensor_binding option" where
  "plan_tensor p name = find (\<lambda>t. tb_name t = name) (md_bindings (ep_descriptor p))"

definition all_operators :: "dense_execution_plan \<Rightarrow> operator list" where
  "all_operators p = concat (map lpl_operators (ep_layers p)) @ ep_final_operators p"

section \<open>The tensors of a plan\<close>

text \<open>The weights an operator reads, with the shape it reads them as.\<close>

fun operator_weights :: "operator \<Rightarrow> model_descriptor \<Rightarrow> requirement list" where
  "operator_weights (Op_RmsNorm w _) d = [(w, [md_hidden d], True)]"
| "operator_weights (Op_Linear w i j) d = [(w, [i, j], False)]"
| "operator_weights (Op_HeadRmsNorm qw kw n _) d = [(qw, [n], True), (kw, [n], True)]"
| "operator_weights (Op_RelativeRopeCausalAttention _ rd _ (Some f) _ _ _ _) d = [(f, [rd div 2], True)]"
| "operator_weights _ d = []"

definition plan_weights :: "dense_execution_plan \<Rightarrow> requirement list" where
  "plan_weights p = concat (map (\<lambda>op. operator_weights op (ep_descriptor p)) (all_operators p))"

lemma compile_layer_weights:
  assumes "geometry_ok d"
  shows "set (concat (map (\<lambda>op. operator_weights op d) (lpl_operators (compile_layer d l)))) =
    set (layer_requirements (md_architecture d) (md_hidden d) (md_heads d * md_head_dim d)
      (md_kv_heads d * md_head_dim d) (md_ffn d) (md_head_dim d) l) \<union>
    (case md_rope_frequency_factors d of None \<Rightarrow> {} | Some f \<Rightarrow> {(f, [md_rope_dimensions d div 2], True)})"
proof -
  have w: "wmul (md_heads d) (md_head_dim d) = md_heads d * md_head_dim d"
    "wmul (md_kv_heads d) (md_head_dim d) = md_kv_heads d * md_head_dim d"
    using assms by (simp_all add: geometry_ok_def)
  show ?thesis
    by (cases "md_architecture d"; cases "md_rope_frequency_factors d")
      (simp_all add: compile_layer_def Let_def w layer_requirements_def layer_name_def insert_commute)
qed

lemma plan_weights_eq:
  assumes "from_manifest m = Ok d"
  shows "set (plan_weights (compile d)) \<union> {(''token_embd.weight'', [md_hidden d, md_vocab d], False)} =
      set (requirements m d)"
proof -
  have geo: "geometry_ok d" by (rule from_manifest_geometry [OF assms])
  note b = from_manifest_bindings [OF assms]
  have L: "0 < md_layers d" using geo by (simp add: geometry_ok_def)
  let ?lr = "layer_requirements (md_architecture d) (md_hidden d) (md_heads d * md_head_dim d)
      (md_kv_heads d * md_head_dim d) (md_ffn d) (md_head_dim d)"
  let ?ff = "case md_rope_frequency_factors d of None \<Rightarrow> {} | Some f \<Rightarrow> {(f, [md_rope_dimensions d div 2], True)}"
  have "set (plan_weights (compile d)) =
      (\<Union>l\<in>{..<md_layers d}. set (concat (map (\<lambda>op. operator_weights op d) (lpl_operators (compile_layer d l))))) \<union>
      {(''output_norm.weight'', [md_hidden d], True), (md_output_head d, [md_hidden d, md_vocab d], False)}"
    by (auto simp: plan_weights_def all_operators_def compile_def)
  also have "\<dots> = (\<Union>l\<in>{..<md_layers d}. set (?lr l)) \<union> ?ff \<union>
      {(''output_norm.weight'', [md_hidden d], True), (md_output_head d, [md_hidden d, md_vocab d], False)}"
    unfolding compile_layer_weights [OF geo] using L by (simp add: UN_Un_distrib lessThan_empty_iff)
  finally have pw: "set (plan_weights (compile d)) = \<dots>" .
  show ?thesis
    unfolding pw requirements_def global_requirements_def b(4,5)
    by (cases "mf_tensor m ''rope_freqs.weight'' = None") (auto simp: rope_factors_def)
qed

lemma requirement_bound:
  assumes "from_manifest m = Ok d" and "req \<in> set (requirements m d)"
  shows "meets m req" and "\<exists>bi. plan_tensor (compile d) (fst req) = Some bi \<and> tb_dimensions bi = fst (snd req)"
proof -
  note b = from_manifest_bindings [OF assms(1)]
  show m: "meets m req" using b(1) assms(2) by blast
  have name: "tb_name (binding_of (the (mf_tensor m (fst r)))) = fst r" if "r \<in> set (requirements m d)" for r
    using meets_name b(1) that by blast
  have "binding_of (the (mf_tensor m (fst req))) \<in> set (md_bindings d)" using assms(2) unfolding b(2) by auto
  with name [OF assms(2)] have "\<exists>bi. plan_tensor (compile d) (fst req) = Some bi"
    unfolding plan_tensor_def compile_def by (auto simp: find_None_iff simp flip: not_None_eq)
  then obtain bi where bi: "plan_tensor (compile d) (fst req) = Some bi" by blast
  then have "bi \<in> set (md_bindings d)" "tb_name bi = fst req"
    by (auto simp: plan_tensor_def compile_def find_Some_iff)
  then obtain r where r: "r \<in> set (requirements m d)" "bi = binding_of (the (mf_tensor m (fst r)))"
    unfolding b(2) by auto
  then have "fst r = fst req" using name [OF r(1)] \<open>tb_name bi = fst req\<close> by simp
  with r(2) m have "tb_dimensions bi = fst (snd req)" by (auto simp: meets_def binding_of_def split: prod.splits)
  with bi show "\<exists>bi. plan_tensor (compile d) (fst req) = Some bi \<and> tb_dimensions bi = fst (snd req)" by blast
qed

text \<open>
  C30: The compiled plan reads every tensor it binds and nothing else: for an accepted
  descriptor the weights the operators of the plan name, with the shapes the operators give
  them, are exactly the requirements the descriptor was checked against (the token
  embedding apart, when the head has its own matrix), each is a tensor of the file with
  that shape, and the state plan is the descriptor's key-value geometry.
\<close>

theorem plan_reads_bindings:
  assumes "from_manifest m = Ok d"
  shows "set (plan_weights (compile d)) \<union> {(''token_embd.weight'', [md_hidden d, md_vocab d], False)} =
      set (requirements m d) \<and>
    (\<forall>req\<in>set (plan_weights (compile d)). meets m req \<and>
       (\<exists>b. plan_tensor (compile d) (fst req) = Some b \<and> tb_dimensions b = fst (snd req))) \<and>
    length (ep_layers (compile d)) = md_layers d"
proof -
  note eq = plan_weights_eq [OF assms]
  have "set (plan_weights (compile d)) \<subseteq> set (requirements m d)" unfolding eq [symmetric] by (rule Un_upper1)
  moreover have "length (ep_layers (compile d)) = md_layers d" by (simp add: compile_def)
  ultimately show ?thesis using eq requirement_bound [OF assms] by blast
qed

lemma plan_reads_bindings_witness:
  "\<exists>d. from_manifest sample_manifest = Ok d \<and> length (ep_layers (compile d)) = md_layers d \<and>
     (''output_norm.weight'', [md_hidden d], True) \<in> set (requirements sample_manifest d)"
proof -
  obtain d where d: "from_manifest sample_manifest = Ok d" using sample_accepted unfolding is_ok_iff by blast
  have "(''output_norm.weight'', [md_hidden d], True) \<in> set (plan_weights (compile d))"
    by (simp add: plan_weights_def all_operators_def compile_def)
  with plan_reads_bindings [OF d] d show ?thesis by blast
qed

end
