(* ===== verification/Metadata.thy ===== *)
theory Metadata
  imports Model_Spec Plan
begin

text \<open>
  \<open>src/src/backend/bindless/metadata.rs\<close>: the tensor tables of a model and the per-layer
  lookup table with base-relative packed offsets, built once when the model is loaded, and
  the specification adjusted to the tensors of the file.
\<close>

definition quant_type_row_bytes :: "nat \<Rightarrow> nat \<Rightarrow> nat" where
  "quant_type_row_bytes qt cols =
     (if qt = 0 then wmul cols 4
      else if qt = 1 then wmul cols 2
      else if qt = 2 then wmul (cols div 32) 18
      else if qt = 8 then wmul (cols div 32) 34
      else if qt = 12 then wmul (cols div 256) 144
      else if qt = 13 then wmul (cols div 256) 176
      else if qt = 14 then wmul (cols div 256) 210
      else wmul (cols div 32) 18)"

text \<open>
  A \<open>HashMap\<close> is a finite map; \<open>collect\<close> keeps the last value of a key. \<open>bm_keys\<close> lists the
  names in the order the maps iterate them, which only matters where the code stops at the
  first match.
\<close>

record compiled_layer_entry =
  ce_offsets :: layer_offsets
  ce_blob_base_words :: u32
  ce_quant_qk :: nat
  ce_quant_v :: nat
  ce_quant_attn_out :: nat
  ce_quant_ffn_down :: nat
  ce_quant_ffn_gate :: nat
  ce_quant_ffn_up :: nat

record bindless_metadata =
  bm_version :: nat
  bm_tensor_count :: nat
  bm_tensor_offsets :: "string \<Rightarrow> nat option"
  bm_tensor_types :: "string \<Rightarrow> nat option"
  bm_tensor_dims :: "string \<Rightarrow> nat list option"
  bm_keys :: "string list"
  bm_data_start_offset :: nat
  bm_gguf_metadata :: "(string \<times> spec_value) list"
  bm_compiled_layers :: "compiled_layer_entry list"

definition collect_map :: "(tensor_descriptor \<Rightarrow> 'a) \<Rightarrow> tensor_descriptor list \<Rightarrow> string \<Rightarrow> 'a option" where
  "collect_map f ts = map_of (rev (map (\<lambda>t. (td_name t, f t)) ts))"

definition unwrap :: "('e, 'a) res \<Rightarrow> ('f, 'a) res" where
  "unwrap r = (case r of Ok x \<Rightarrow> Ok x | _ \<Rightarrow> Panic)"

definition or_default :: "'a \<Rightarrow> 'a option \<Rightarrow> 'a" where
  "or_default d x = (case x of None \<Rightarrow> d | Some v \<Rightarrow> v)"

definition min_or_zero :: "nat list \<Rightarrow> nat" where
  "min_or_zero xs = (case xs of [] \<Rightarrow> 0 | y # ys \<Rightarrow> fold min ys y)"

section \<open>One layer of the table\<close>

definition layer_min_offset :: "(string \<Rightarrow> nat option) \<Rightarrow> string list \<Rightarrow> nat \<Rightarrow> nat" where
  "layer_min_offset offsets keys layer =
     min_or_zero (filter (\<lambda>off. 0 < off) (List.map_filter offsets
       (filter (\<lambda>k. starts_with k (''blk.'' @ dec layer @ ''.'')) keys)))"

definition layer_base_byte :: "nat \<Rightarrow> nat" where
  "layer_base_byte min_offset = min_offset div 4 * 4 - 4"

text \<open>The closures \<open>p\<close> and \<open>opt\<close>, which do the same, and \<open>t\<close>.\<close>

definition packed_of :: "(string \<Rightarrow> nat option) \<Rightarrow> nat \<Rightarrow> nat \<Rightarrow> string \<Rightarrow> u32 str_res" where
  "packed_of offsets base layer s =
     (let a = or_default 0 (offsets (layer_name layer s)) in
      if a = 0 then Ok 0 else unwrap (relative_packed_offset a base))"

definition type_of_tensor :: "(string \<Rightarrow> nat option) \<Rightarrow> nat \<Rightarrow> string \<Rightarrow> nat" where
  "type_of_tensor types layer s = or_default 2 (types (layer_name layer s))"

definition first_dim :: "nat list option \<Rightarrow> nat option" where
  "first_dim ds = Option.bind ds (\<lambda>d. case d of [] \<Rightarrow> None | x # _ \<Rightarrow> Some x)"

definition second_dim :: "nat list option \<Rightarrow> nat option" where
  "second_dim ds = Option.bind ds (\<lambda>d. case d of _ # x # _ \<Rightarrow> Some x | _ \<Rightarrow> None)"

text \<open>
  The row geometry of a fused query-key-value tensor: \<open>(dim_in, dim_q, dim_k)\<close>, the query
  width read from the attention output matrix, the rest split in half.
\<close>

definition fused_dims :: "(string \<Rightarrow> nat list option) \<Rightarrow> nat \<Rightarrow> nat \<times> nat \<times> nat" where
  "fused_dims dims layer =
     (let key = layer_name layer ''attn_qkv.weight'';
          dim_in = or_default 0 (first_dim (dims key));
          total_out = or_default 0 (second_dim (dims key));
          dim_q = or_default dim_in (first_dim (dims (layer_name layer ''attn_output.weight'')))
      in (dim_in, dim_q, (total_out - dim_q) div 2))"

definition three_offsets :: "nat \<Rightarrow> nat \<Rightarrow> nat \<Rightarrow> nat \<Rightarrow> nat \<Rightarrow> (u32 \<times> u32 \<times> u32) str_res" where
  "three_offsets start base dim_q dim_k bpr =
     and_then (unwrap (relative_packed_offset start base)) (\<lambda>q.
     and_then (unwrap (relative_packed_offset (wadd start (wmul dim_q bpr)) base)) (\<lambda>k.
     and_then (unwrap (relative_packed_offset (wadd start (wmul (wadd dim_q dim_k) bpr)) base)) (\<lambda>v.
     Ok (q, k, v))))"

definition qkv_offsets ::
    "(string \<Rightarrow> nat option) \<Rightarrow> (string \<Rightarrow> nat option) \<Rightarrow> (string \<Rightarrow> nat list option) \<Rightarrow> nat \<Rightarrow> nat \<Rightarrow>
     ((u32 \<times> u32 \<times> u32) \<times> nat \<times> nat) str_res" where
  "qkv_offsets offsets types dims base layer =
     (if offsets (layer_name layer ''attn_q.weight'') \<noteq> None then
        and_then (packed_of offsets base layer ''attn_q.weight'') (\<lambda>q.
        and_then (packed_of offsets base layer ''attn_k.weight'') (\<lambda>k.
        and_then (packed_of offsets base layer ''attn_v.weight'') (\<lambda>v.
        Ok ((q, k, v), type_of_tensor types layer ''attn_q.weight'', type_of_tensor types layer ''attn_v.weight''))))
      else
        (case offsets (layer_name layer ''attn_qkv.weight'') of
           Some fused_off \<Rightarrow>
             (let fused_type = type_of_tensor types layer ''attn_qkv.weight'' in
              case fused_dims dims layer of (dim_in, dim_q, dim_k) \<Rightarrow>
                and_then (three_offsets fused_off base dim_q dim_k (quant_type_row_bytes fused_type dim_in)) (\<lambda>qkv.
                Ok (qkv, fused_type, fused_type)))
         | None \<Rightarrow> Ok ((0, 0, 0), 2, 2)))"

definition bias_offsets ::
    "(string \<Rightarrow> nat option) \<Rightarrow> (string \<Rightarrow> nat list option) \<Rightarrow> nat \<Rightarrow> nat \<Rightarrow> (u32 \<times> u32 \<times> u32) str_res" where
  "bias_offsets offsets dims base layer =
     and_then (packed_of offsets base layer ''attn_q.bias'') (\<lambda>q.
     and_then (packed_of offsets base layer ''attn_k.bias'') (\<lambda>k.
     and_then (packed_of offsets base layer ''attn_v.bias'') (\<lambda>v.
     if q \<noteq> 0 \<or> k \<noteq> 0 \<or> v \<noteq> 0 then Ok (q, k, v)
     else if offsets (layer_name layer ''attn_qkv.weight'') \<noteq> None then
       (case offsets (layer_name layer ''attn_qkv.bias'') of
          Some fused_bias_off \<Rightarrow>
            (case fused_dims dims layer of (_, dim_q, dim_k) \<Rightarrow> three_offsets fused_bias_off base dim_q dim_k 4)
        | None \<Rightarrow> Ok (0, 0, 0))
     else Ok (0, 0, 0))))"

text \<open>
  Gate and up matrices: one merged tensor, when there is no gate tensor and the up matrix
  has twice as many rows as the down matrix has columns; otherwise two tensors.
\<close>

definition ffn_offsets ::
    "(string \<Rightarrow> nat option) \<Rightarrow> (string \<Rightarrow> nat option) \<Rightarrow> (string \<Rightarrow> nat list option) \<Rightarrow> nat \<Rightarrow> nat \<Rightarrow>
     (u32 \<times> u32) str_res" where
  "ffn_offsets offsets types dims base layer =
     (let up_key = layer_name layer ''ffn_up.weight'';
          ffn_up_abs = or_default 0 (offsets up_key);
          up_out_dim = or_default 0 (second_dim (dims up_key));
          down_in_dim = or_default 0 (first_dim (dims (layer_name layer ''ffn_down.weight'')))
      in if offsets (layer_name layer ''ffn_gate.weight'') = None \<and> ffn_up_abs \<noteq> 0 \<and> down_in_dim \<noteq> 0 \<and>
            up_out_dim = wmul down_in_dim 2
         then
           (let in_dim = or_default 0 (first_dim (dims up_key));
                bpr = quant_type_row_bytes (type_of_tensor types layer ''ffn_up.weight'') in_dim
            in and_then (unwrap (relative_packed_offset ffn_up_abs base)) (\<lambda>gate.
               and_then (unwrap (relative_packed_offset (wadd ffn_up_abs (wmul down_in_dim bpr)) base)) (\<lambda>up.
               Ok (gate, up))))
         else
           and_then (packed_of offsets base layer ''ffn_gate.weight'') (\<lambda>gate.
           and_then (packed_of offsets base layer ''ffn_up.weight'') (\<lambda>up.
           Ok (gate, up))))"

definition q4k_flag :: "nat \<Rightarrow> u32" where
  "q4k_flag t = (if t = 12 then 1 else 0)"

definition compile_entry ::
    "(string \<Rightarrow> nat option) \<Rightarrow> (string \<Rightarrow> nat option) \<Rightarrow> (string \<Rightarrow> nat list option) \<Rightarrow> string list \<Rightarrow>
     bool \<Rightarrow> nat \<Rightarrow> compiled_layer_entry str_res" where
  "compile_entry offsets types dims keys is_phi layer =
     (let base = layer_base_byte (layer_min_offset offsets keys layer);
          p = packed_of offsets base layer;
          t = type_of_tensor types layer
      in
      and_then (qkv_offsets offsets types dims base layer) (\<lambda>((q, k, v), lqt_main, lqt_v).
      and_then (bias_offsets offsets dims base layer) (\<lambda>(qb, kb, vb).
      and_then (p ''attn_norm.weight'') (\<lambda>attn_norm_off.
      and_then (p ''ffn_norm.weight'') (\<lambda>ffn_norm_off.
      let ffn_norm_off = (if is_phi \<and> ffn_norm_off = 0 then attn_norm_off else ffn_norm_off) in
      and_then (p ''attn_norm.bias'') (\<lambda>attn_norm_bias_off.
      and_then (p ''ffn_norm.bias'') (\<lambda>ffn_norm_bias_off.
      let ffn_norm_bias_off = (if is_phi \<and> ffn_norm_bias_off = 0 then attn_norm_bias_off else ffn_norm_bias_off);
          lqt_down = t ''ffn_down.weight'' in
      and_then (ffn_offsets offsets types dims base layer) (\<lambda>(gate, up).
      and_then (p ''attn_output.weight'') (\<lambda>attn_out_off.
      and_then (p ''ffn_down.weight'') (\<lambda>ffn_down_off.
      and_then (p ''attn_q_norm.weight'') (\<lambda>q_norm.
      and_then (p ''attn_k_norm.weight'') (\<lambda>k_norm.
      let lqt_up = t ''ffn_up.weight'';
          lqt_gate = (if offsets (layer_name layer ''ffn_gate.weight'') \<noteq> None then t ''ffn_gate.weight'' else lqt_up)
      in Ok \<lparr>ce_offsets = \<lparr>attn_norm = attn_norm_off, attn_norm_bias = attn_norm_bias_off, attn_q = q,
                 attn_k = k, attn_v = v, attn_out = attn_out_off, ffn_norm = ffn_norm_off,
                 ffn_norm_bias = ffn_norm_bias_off, ffn_gate = gate, ffn_down = ffn_down_off, ffn_up = up,
                 layer_idx = word_of_nat layer, attn_q_norm = q_norm, attn_k_norm = k_norm,
                 attn_q_bias = qb, attn_k_bias = kb, attn_v_bias = vb, v_is_q4k = q4k_flag lqt_v,
                 ffn_down_is_q4k = q4k_flag lqt_down\<rparr>,
             ce_blob_base_words = word_of_nat (base div 4),
             ce_quant_qk = lqt_main, ce_quant_v = lqt_v,
             ce_quant_attn_out = t ''attn_output.weight'', ce_quant_ffn_down = lqt_down,
             ce_quant_ffn_gate = lqt_gate, ce_quant_ffn_up = lqt_up\<rparr>))))))))))))"

section \<open>The table and the specification\<close>

text \<open>
  The loop runs while the layer has an attention norm. Each iteration consumes one name of
  the finite table, so it ends.
\<close>

function count_layers :: "string list \<Rightarrow> nat \<Rightarrow> nat" where
  "count_layers keys layer =
     (if layer_name layer ''attn_norm.weight'' \<in> set keys then count_layers keys (layer + 1) else layer)"
  by pat_completeness auto

lemma layer_name_inject [simp]: "(layer_name l s = layer_name l' s') = (l = l' \<and> s = s')"
  using dec_append_inject [of l "CHR ''.''" s l' "CHR ''.''" s'] by (auto simp: layer_name_def is_digit_def)

termination count_layers
proof (relation "measure (\<lambda>(keys, layer). card {l. layer \<le> l \<and> layer_name l ''attn_norm.weight'' \<in> set keys})", goal_cases)
  case (2 keys layer)
  let ?S = "\<lambda>n. {l. n \<le> l \<and> layer_name l ''attn_norm.weight'' \<in> set keys}"
  have "inj_on (\<lambda>l. layer_name l ''attn_norm.weight'') (?S layer)" by (simp add: inj_on_def)
  moreover have "(\<lambda>l. layer_name l ''attn_norm.weight'') ` ?S layer \<subseteq> set keys" by auto
  ultimately have fin: "finite (?S layer)" by (rule inj_on_finite) simp
  have "layer \<in> ?S layer" "layer \<notin> ?S (layer + 1)" using 2 by auto
  moreover have "?S (layer + 1) \<subseteq> ?S layer" by auto
  ultimately have "?S (layer + 1) \<subset> ?S layer" by blast
  then show ?case using fin by (simp add: psubset_card_mono)
qed simp

declare count_layers.simps [simp del]

definition metadata_from_manifest :: "string list \<Rightarrow> model_manifest \<Rightarrow> bindless_metadata str_res" where
  "metadata_from_manifest keys m =
     (let offsets = collect_map td_absolute_offset (mf_tensors m);
          types = collect_map td_ggml_type (mf_tensors m);
          dims = collect_map td_dimensions (mf_tensors m);
          is_phi = (mf_value m ''general.architecture'' = Some (V_String ''phi''))
      in and_then (traverse (compile_entry offsets types dims keys is_phi) [0..<count_layers keys 0]) (\<lambda>table.
         Ok \<lparr>bm_version = mf_version m, bm_tensor_count = mf_tensor_count m, bm_tensor_offsets = offsets,
             bm_tensor_types = types, bm_tensor_dims = dims, bm_keys = keys,
             bm_data_start_offset = mf_data_start m,
             bm_gguf_metadata = map (\<lambda>(k, v). (k, manifest_value v)) (mf_values m),
             bm_compiled_layers = table\<rparr>))"

definition infer_head_dim :: "bindless_metadata \<Rightarrow> model_spec \<Rightarrow> model_spec str_res" where
  "infer_head_dim bm s =
     (if n_head s = 0 then Ok s
      else
        (let dims_opt = (case bm_tensor_dims bm ''blk.0.attn_q.weight'' of
               Some d \<Rightarrow> Some d
             | None \<Rightarrow> Option.bind (find (\<lambda>k. contains k ''attn_q.weight'' \<and> starts_with k ''blk.0'') (bm_keys bm))
                 (bm_tensor_dims bm))
         in case second_dim dims_opt of
              None \<Rightarrow> Ok s
            | Some d1 \<Rightarrow>
                if 0 < d1 div n_head s \<and> d1 div n_head s \<noteq> head_dim s
                then compute_derived (s\<lparr>head_dim := d1 div n_head s\<rparr>)
                else Ok s))"

definition to_model_spec :: "bindless_metadata \<Rightarrow> model_spec str_res" where
  "to_model_spec bm =
     and_then (from_gguf_metadata (bm_gguf_metadata bm)) (\<lambda>s.
     let dims = bm_tensor_dims bm;
         s = s\<lparr>has_qk_norm := (dims ''blk.0.attn_q_norm.weight'' \<noteq> None \<and> dims ''blk.0.attn_k_norm.weight'' \<noteq> None),
           post_norm_enabled := (dims ''blk.0.post_attention_norm.weight'' \<noteq> None \<and>
             dims ''blk.0.post_ffw_norm.weight'' \<noteq> None),
           q_weight_k := or_default (q_weight_k s) (second_dim (dims ''blk.0.attn_q.weight'')),
           k_weight_k := or_default (k_weight_k s) (second_dim (dims ''blk.0.attn_k.weight''))\<rparr>
     in infer_head_dim bm s)"

section \<open>The tensors of an accepted model\<close>

text \<open>
  A manifest the executor admits: well formed, accepted by the descriptor, its maps keyed
  by its tensor names, and short enough for the 32-bit word addresses.
\<close>

definition admitted :: "model_manifest \<Rightarrow> model_descriptor \<Rightarrow> string list \<Rightarrow> bool" where
  "admitted m d keys =
     (manifest_ok m \<and> from_manifest m = Ok d \<and> set keys = td_name ` set (mf_tensors m) \<and>
      mf_file_len m < 2 ^ 32)"

definition dense_suffixes :: "architecture \<Rightarrow> string list" where
  "dense_suffixes arch = map fst
     ([(''attn_norm.weight'', True), (''attn_q.weight'', False), (''attn_k.weight'', False),
       (''attn_v.weight'', False), (''attn_output.weight'', False), (''ffn_norm.weight'', True),
       (''ffn_gate.weight'', False), (''ffn_up.weight'', False), (''ffn_down.weight'', False)] @
      (if arch = Arch_Qwen3 then [(''attn_q_norm.weight'', True), (''attn_k_norm.weight'', True)] else []))"

lemma layer_requirement_names:
  "fst ` set (layer_requirements arch hidden qw kw ffn hdim layer) = layer_name layer ` set (dense_suffixes arch)"
  by (cases arch) (auto simp: layer_requirements_def dense_suffixes_def)

lemma layer_name_global [simp]:
  "layer_name l s \<noteq> ''token_embd.weight''" "layer_name l s \<noteq> ''output_norm.weight''"
  "layer_name l s \<noteq> ''output.weight''" "layer_name l s \<noteq> ''rope_freqs.weight''"
  by (simp_all add: layer_name_def)

lemma starts_with_layer:
  "starts_with (layer_name l s) (''blk.'' @ dec l' @ ''.'') = (l = l')"
proof
  assume "starts_with (layer_name l s) (''blk.'' @ dec l' @ ''.'')"
  then obtain t where "layer_name l s = layer_name l' t" by (auto simp: starts_with_iff layer_name_def)
  then show "l = l'" by simp
next
  assume "l = l'"
  then show "starts_with (layer_name l s) (''blk.'' @ dec l' @ ''.'')" by (simp add: layer_name_def starts_with_def)
qed

lemma requirement_names:
  "fst ` set (requirements m d) = fst ` set (global_requirements m (md_hidden d) (md_vocab d) (md_rope_dimensions d)) \<union>
     {layer_name l s | l s. l < md_layers d \<and> s \<in> set (dense_suffixes (md_architecture d))}"
  unfolding requirements_def set_append image_Un set_concat set_map image_UN image_image layer_requirement_names
  by auto

lemma dense_names:
  assumes "from_manifest m = Ok d"
  shows "td_name ` set (mf_tensors m) = fst ` set (requirements m d)"
proof -
  note b = from_manifest_bindings [OF assms] descriptor_names [OF assms]
  have "tb_name ` set (md_bindings d) = fst ` set (requirements m d)"
    unfolding b(2) set_map image_image using b(1) meets_name by (intro image_cong) auto
  with b(6) show ?thesis by simp
qed

lemma mf_tensor_None: "(mf_tensor m name = None) = (name \<notin> td_name ` set (mf_tensors m))"
  by (auto simp: mf_tensor_def find_None_iff image_iff)

lemma layer_tensor_iff:
  assumes "admitted m d keys"
  shows "(mf_tensor m (layer_name l s) = None) = (\<not> (l < md_layers d \<and> s \<in> set (dense_suffixes (md_architecture d))))"
proof -
  have "(layer_name l s \<in> td_name ` set (mf_tensors m)) = (l < md_layers d \<and> s \<in> set (dense_suffixes (md_architecture d)))"
    using assms unfolding dense_names [of m d] admitted_def requirement_names
    by (auto simp: dense_names requirement_names global_requirements_def output_head_name_def)
  then show ?thesis by (simp only: mf_tensor_None)
qed

lemma collect_map_eq:
  assumes "distinct (map td_name ts)"
  shows "collect_map f ts name = map_option f (find (\<lambda>t. td_name t = name) ts)"
proof -
  have "map_of (rev (map (\<lambda>t. (td_name t, f t)) ts)) = map_of (map (\<lambda>t. (td_name t, f t)) ts)"
    using assms by (subst map_of_inject_set) (simp_all add: rev_map o_def distinct_map)
  moreover have "map_of (map (\<lambda>t. (td_name t, f t)) ts) name = map_option f (find (\<lambda>t. td_name t = name) ts)"
    by (induction ts) auto
  ultimately show ?thesis by (simp add: collect_map_def)
qed

lemma count_layers_eq:
  assumes "\<forall>l<n. layer_name l ''attn_norm.weight'' \<in> set keys" and "layer_name n ''attn_norm.weight'' \<notin> set keys"
    and "start \<le> n"
  shows "count_layers keys start = n"
  using assms(3)
proof (induction "n - start" arbitrary: start)
  case 0
  with assms(2) show ?case by (simp add: count_layers.simps [of keys start])
next
  case (Suc k)
  then have "start < n" "k = n - (start + 1)" by simp_all
  with Suc assms(1) show ?case by (simp add: count_layers.simps [of keys start])
qed

lemma admitted_layers:
  assumes "admitted m d keys"
  shows "count_layers keys 0 = md_layers d"
proof (rule count_layers_eq)
  have k: "(layer_name l ''attn_norm.weight'' \<in> set keys) = (l < md_layers d)" for l
    using layer_tensor_iff [OF assms, of l "''attn_norm.weight''"] assms
    by (auto simp: admitted_def dense_suffixes_def mf_tensor_None)
  then show "\<forall>l<md_layers d. layer_name l ''attn_norm.weight'' \<in> set keys"
    "layer_name (md_layers d) ''attn_norm.weight'' \<notin> set keys" by simp_all
qed simp

lemma admitted_collect:
  "admitted m d keys \<Longrightarrow> collect_map f (mf_tensors m) name = map_option f (mf_tensor m name)"
  by (simp add: admitted_def manifest_ok_def collect_map_eq mf_tensor_def)

text \<open>The base byte of a layer, four bytes below its first tensor.\<close>

definition entry_base :: "model_manifest \<Rightarrow> string list \<Rightarrow> nat \<Rightarrow> nat" where
  "entry_base m keys l =
     layer_base_byte (layer_min_offset (collect_map td_absolute_offset (mf_tensors m)) keys l)"

lemma set_map_filter: "set (List.map_filter f xs) = {y. \<exists>x\<in>set xs. f x = Some y}"
  by (induction xs) (auto simp: List.map_filter_simps split: option.splits)

lemma min_or_zero_Min: "xs \<noteq> [] \<Longrightarrow> min_or_zero xs = Min (set xs)"
  by (cases xs) (simp_all add: min_or_zero_def fold_min_set)

lemma descriptor_bytes_pos:
  assumes "descriptor_ok n t" and "supported_type (td_ggml_type t)"
  shows "0 < td_byte_len t"
proof -
  obtain e b where g: "block_elems (td_ggml_type t) = Some e" "block_bytes (td_ggml_type t) = Some b"
    "0 < e" "2 \<le> b" using supported_geometry [OF assms(2)] by metis
  have d: "td_dimensions t \<noteq> []" "\<forall>x\<in>set (td_dimensions t). 0 < x" "hd (td_dimensions t) mod e = 0"
    "td_byte_len t = hd (td_dimensions t) div e * b * prod_list (tl (td_dimensions t))"
    using assms(1) g by (simp_all add: descriptor_ok_def)
  have "0 < hd (td_dimensions t)" using d(1,2) by (cases "td_dimensions t") simp_all
  with d(3) g(3) have "0 < hd (td_dimensions t) div e" by (metis div_greater_zero_iff mod_less neq0_conv not_less)
  moreover have "0 \<notin> set (tl (td_dimensions t))" using d(1,2) by (cases "td_dimensions t") auto
  then have "prod_list (tl (td_dimensions t)) \<noteq> 0" by (simp add: prod_list_zero_iff)
  ultimately show ?thesis using d(4) g(4) by simp
qed

lemma admitted_tensor:
  assumes "admitted m d keys" and "mf_tensor m name = Some t"
  shows "td_absolute_offset t mod 4 = 0" and "4 \<le> td_absolute_offset t" and "0 < td_byte_len t"
    and "td_absolute_offset t + td_byte_len t \<le> mf_file_len m"
proof -
  have ok: "descriptor_ok (mf_file_len m) t" using assms mf_tensor_ok by (auto simp: admitted_def)
  then show "td_absolute_offset t mod 4 = 0" "4 \<le> td_absolute_offset t"
    "td_absolute_offset t + td_byte_len t \<le> mf_file_len m" by (simp_all add: descriptor_ok_def)
  have d: "from_manifest m = Ok d" using assms by (simp add: admitted_def)
  have "name \<in> td_name ` set (mf_tensors m)" using assms(2) mf_tensor_None [of m name] by auto
  then obtain req where "req \<in> set (requirements m d)" "fst req = name" unfolding dense_names [OF d] by auto
  then have "meets m req" "fst req = name" using from_manifest_bindings(1) [OF d] by auto
  then have "supported_type (td_ggml_type t)" using assms(2) by (auto simp: meets_def split: prod.splits)
  then show "0 < td_byte_len t" by (rule descriptor_bytes_pos [OF ok])
qed

lemma entry_base_spec:
  assumes adm: "admitted m d keys" and l: "l < md_layers d"
  shows "entry_base m keys l mod 4 = 0"
    and "\<exists>s t. mf_tensor m (layer_name l s) = Some t \<and> td_absolute_offset t = entry_base m keys l + 4"
    and "mf_tensor m (layer_name l s) = Some t \<Longrightarrow> entry_base m keys l + 4 \<le> td_absolute_offset t"
proof -
  let ?offs = "collect_map td_absolute_offset (mf_tensors m)"
  let ?xs = "filter (\<lambda>off. 0 < off) (List.map_filter ?offs
     (filter (\<lambda>k. starts_with k (''blk.'' @ dec l @ ''.'')) keys))"
  let ?S = "{td_absolute_offset t | s t. mf_tensor m (layer_name l s) = Some t}"
  have k: "starts_with k (''blk.'' @ dec l @ ''.'') = (\<exists>s. k = layer_name l s)" for k
    by (simp add: starts_with_iff layer_name_def)
  have mem: "mf_tensor m k = Some t \<Longrightarrow> k \<in> set keys" for k t
    using adm mf_tensor_None [of m k] by (auto simp: admitted_def)
  have pos: "mf_tensor m k = Some t \<Longrightarrow> 0 < td_absolute_offset t" for k t
    using admitted_tensor(2) [OF adm] by (rule less_le_trans [rotated]) simp_all
  have "(off \<in> set ?xs) = (0 < off \<and> (\<exists>k\<in>set keys. (\<exists>s. k = layer_name l s) \<and>
      (\<exists>t. mf_tensor m k = Some t \<and> td_absolute_offset t = off)))" for off
    unfolding set_filter set_map_filter k admitted_collect [OF adm] map_option_eq_Some by blast
  note mem_xs = this
  have S: "set ?xs = ?S"
  proof (intro set_eqI iffI)
    fix off assume "off \<in> set ?xs"
    then show "off \<in> ?S" unfolding mem_xs by (elim conjE bexE exE) auto
  next
    fix off assume "off \<in> ?S"
    then obtain s t where "mf_tensor m (layer_name l s) = Some t" "off = td_absolute_offset t" by auto
    with mem pos show "off \<in> set ?xs" unfolding mem_xs by (intro conjI bexI exI) auto
  qed
  have "mf_tensor m (layer_name l ''attn_norm.weight'') \<noteq> None"
    using layer_tensor_iff [OF adm] l by (simp add: dense_suffixes_def)
  then have "?S \<noteq> {}" by auto
  then have "set ?xs \<noteq> {}" unfolding S .
  then have ne: "?xs \<noteq> []" unfolding set_empty .
  define mn where "mn = layer_min_offset ?offs keys l"
  have mn: "mn = Min ?S" unfolding mn_def layer_min_offset_def min_or_zero_Min [OF ne] S ..
  have fin: "finite ?S" unfolding S [symmetric] by simp
  have "mn \<in> ?S" unfolding mn by (rule Min_in [OF fin \<open>?S \<noteq> {}\<close>])
  then obtain s0 t0 where t0: "mf_tensor m (layer_name l s0) = Some t0" "mn = td_absolute_offset t0" by auto
  then have al: "mn mod 4 = 0" "4 \<le> mn" using admitted_tensor [OF adm] by auto
  then have b: "entry_base m keys l = mn - 4" "4 \<le> mn"
    by (simp_all add: entry_base_def layer_base_byte_def flip: mn_def) presburger
  show "entry_base m keys l mod 4 = 0" using al b by presburger
  show "\<exists>s t. mf_tensor m (layer_name l s) = Some t \<and> td_absolute_offset t = entry_base m keys l + 4"
    using t0 b by auto
  show "entry_base m keys l + 4 \<le> td_absolute_offset t" if "mf_tensor m (layer_name l s) = Some t"
  proof -
    have "td_absolute_offset t \<in> ?S" using that by auto
    then have "mn \<le> td_absolute_offset t" unfolding mn by (rule Min_le [OF fin])
    then show ?thesis using b by simp
  qed
qed

text \<open>The packed offset of a tensor: zero when the file has none of that name.\<close>

definition pack_at :: "model_manifest \<Rightarrow> string list \<Rightarrow> nat \<Rightarrow> string \<Rightarrow> u32" where
  "pack_at m keys l s =
     (case mf_tensor m (layer_name l s) of None \<Rightarrow> 0
      | Some t \<Rightarrow> word_of_nat ((td_absolute_offset t - entry_base m keys l) div 2))"

lemma pack_at_Some:
  assumes adm: "admitted m d keys" and l: "l < md_layers d" and t: "mf_tensor m (layer_name l s) = Some t"
  shows "relative_packed_offset (td_absolute_offset t) (entry_base m keys l) = Ok (pack_at m keys l s)"
    and "pack_at m keys l s \<noteq> 0"
    and "unat (pack_at m keys l s div 2 + word_of_nat (entry_base m keys l div 4)) = td_absolute_offset t div 4"
proof -
  let ?B = "entry_base m keys l" and ?a = "td_absolute_offset t"
  note b = entry_base_spec(1,3) [OF adm l] and a = admitted_tensor [OF adm t]
  have lt: "?a < 2 ^ 32" using a adm by (simp add: admitted_def)
  have q: "unat (pack_at m keys l s) = (?a - ?B) div 2" using lt by (simp add: pack_at_def t unat_of_nat)
  have le: "?B + 4 \<le> ?a" by (rule b(2) [OF t])
  have ev: "even (?a - ?B)" using a(1) b(1) le by presburger
  then have "?B + 2 * ((?a - ?B) div 2) = ?a" using le by simp
  then show r: "relative_packed_offset ?a ?B = Ok (pack_at m keys l s)"
    using ev le lt a(2) by (simp add: relative_packed_offset_Ok q)
  show "pack_at m keys l s \<noteq> 0"
  proof
    assume "pack_at m keys l s = 0"
    then show False using q le by simp
  qed
  have "?B div 4 < 2 ^ 32" using lt le by simp
  then have w: "4 * unat (word_of_nat (?B div 4) :: u32) = ?B"
    using b(1) by (simp add: unat_of_nat) presburger
  show "unat (pack_at m keys l s div 2 + word_of_nat (?B div 4)) = ?a div 4"
    by (rule relative_packed_offset_word) (use r w a(2) lt in simp_all)
qed

lemma packed_of_eq:
  assumes "admitted m d keys" and "l < md_layers d"
  shows "packed_of (collect_map td_absolute_offset (mf_tensors m)) (entry_base m keys l) l s = Ok (pack_at m keys l s)"
proof (cases "mf_tensor m (layer_name l s)")
  case None
  then show ?thesis by (simp add: packed_of_def admitted_collect [OF assms(1)] or_default_def pack_at_def)
next
  case (Some t)
  then show ?thesis
    using pack_at_Some [OF assms Some] admitted_tensor(2) [OF assms(1) Some]
    by (simp add: packed_of_def admitted_collect [OF assms(1)] or_default_def unwrap_def)
qed

section \<open>The table of an accepted model\<close>

text \<open>The packed fields of an entry and the tensors they stand for.\<close>

definition field_suffixes :: "(string \<times> (layer_offsets \<Rightarrow> u32)) list" where
  "field_suffixes =
     [(''attn_norm.weight'', attn_norm), (''attn_norm.bias'', attn_norm_bias), (''attn_q.weight'', attn_q),
      (''attn_k.weight'', attn_k), (''attn_v.weight'', attn_v), (''attn_output.weight'', attn_out),
      (''ffn_norm.weight'', ffn_norm), (''ffn_norm.bias'', ffn_norm_bias), (''ffn_gate.weight'', ffn_gate),
      (''ffn_down.weight'', ffn_down), (''ffn_up.weight'', ffn_up), (''attn_q_norm.weight'', attn_q_norm),
      (''attn_k_norm.weight'', attn_k_norm), (''attn_q.bias'', attn_q_bias), (''attn_k.bias'', attn_k_bias),
      (''attn_v.bias'', attn_v_bias)]"

lemma dense_suffix_set:
  "set (dense_suffixes arch) = {''attn_norm.weight'', ''attn_q.weight'', ''attn_k.weight'', ''attn_v.weight'',
     ''attn_output.weight'', ''ffn_norm.weight'', ''ffn_gate.weight'', ''ffn_up.weight'', ''ffn_down.weight''} \<union>
     (if arch = Arch_Qwen3 then {''attn_q_norm.weight'', ''attn_k_norm.weight''} else {})"
  by (cases arch) (simp_all add: dense_suffixes_def insert_commute)

lemma admitted_lookup:
  assumes "admitted m d keys" and "l < md_layers d"
  shows "(collect_map f (mf_tensors m) (layer_name l s) = None) = (s \<notin> set (dense_suffixes (md_architecture d)))"
  using layer_tensor_iff [OF assms(1), of l s] assms(2) by (simp add: admitted_collect [OF assms(1)])

lemma pack_at_absent:
  "admitted m d keys \<Longrightarrow> s \<notin> set (dense_suffixes (md_architecture d)) \<Longrightarrow> pack_at m keys l s = 0"
  using layer_tensor_iff [of m d keys l s] by (simp add: pack_at_def)

lemma qkv_dense:
  assumes "admitted m d keys" and "l < md_layers d"
  shows "qkv_offsets (collect_map td_absolute_offset (mf_tensors m)) types dims (entry_base m keys l) l =
    Ok ((pack_at m keys l ''attn_q.weight'', pack_at m keys l ''attn_k.weight'', pack_at m keys l ''attn_v.weight''),
      type_of_tensor types l ''attn_q.weight'', type_of_tensor types l ''attn_v.weight'')"
  by (simp add: qkv_offsets_def admitted_lookup [OF assms] packed_of_eq [OF assms] dense_suffix_set)

lemma bias_dense:
  assumes "admitted m d keys" and "l < md_layers d"
  shows "bias_offsets (collect_map td_absolute_offset (mf_tensors m)) dims (entry_base m keys l) l = Ok (0, 0, 0)"
proof -
  have "pack_at m keys l s = 0" if "s \<in> {''attn_q.bias'', ''attn_k.bias'', ''attn_v.bias''}" for s
    using that by (intro pack_at_absent [OF assms(1)]) (auto simp: dense_suffix_set)
  moreover have "collect_map td_absolute_offset (mf_tensors m) (layer_name l ''attn_qkv.weight'') = None"
    by (simp add: admitted_lookup [OF assms] dense_suffix_set)
  ultimately show ?thesis by (simp add: bias_offsets_def packed_of_eq [OF assms])
qed

lemma ffn_dense:
  assumes "admitted m d keys" and "l < md_layers d"
  shows "ffn_offsets (collect_map td_absolute_offset (mf_tensors m)) types dims (entry_base m keys l) l =
    Ok (pack_at m keys l ''ffn_gate.weight'', pack_at m keys l ''ffn_up.weight'')"
  by (simp add: ffn_offsets_def admitted_lookup [OF assms] packed_of_eq [OF assms] dense_suffix_set Let_def)

lemma compile_entry_dense:
  assumes adm: "admitted m d keys" and l: "l < md_layers d"
  shows "\<exists>e. compile_entry (collect_map td_absolute_offset (mf_tensors m)) types dims keys is_phi l = Ok e \<and>
    ce_blob_base_words e = word_of_nat (entry_base m keys l div 4) \<and>
    (\<forall>f\<in>set field_suffixes. snd f (ce_offsets e) = pack_at m keys l (fst f))"
proof -
  have present: "pack_at m keys l ''ffn_norm.weight'' \<noteq> 0"
    using layer_tensor_iff [OF adm, of l "''ffn_norm.weight''"] l pack_at_Some(2) [OF adm l]
    by (auto simp: dense_suffix_set)
  have absent: "pack_at m keys l s = 0"
    if "s \<in> {''attn_q.bias'', ''attn_k.bias'', ''attn_v.bias'', ''attn_norm.bias'', ''ffn_norm.bias''}" for s
    using that by (intro pack_at_absent [OF adm]) (auto simp: dense_suffix_set)
  show ?thesis
    unfolding compile_entry_def Let_def entry_base_def [symmetric] qkv_dense [OF adm l] bias_dense [OF adm l]
      ffn_dense [OF adm l] packed_of_eq [OF adm l]
    using present absent by (simp add: field_suffixes_def)
qed

definition field_decodes :: "model_manifest \<Rightarrow> nat \<Rightarrow> compiled_layer_entry \<Rightarrow> string \<times> (layer_offsets \<Rightarrow> u32) \<Rightarrow> bool" where
  "field_decodes m l e f =
     (case mf_tensor m (layer_name l (fst f)) of
        None \<Rightarrow> snd f (ce_offsets e) = 0
      | Some t \<Rightarrow> snd f (ce_offsets e) \<noteq> 0 \<and>
          4 * unat (snd f (ce_offsets e) div 2 + ce_blob_base_words e) = td_absolute_offset t)"

lemma compile_entry_decodes:
  assumes adm: "admitted m d keys" and l: "l < md_layers d"
  shows "\<exists>e. compile_entry (collect_map td_absolute_offset (mf_tensors m)) types dims keys is_phi l = Ok e \<and>
    ce_blob_base_words e = word_of_nat (entry_base m keys l div 4) \<and>
    (\<forall>f\<in>set field_suffixes. field_decodes m l e f)"
proof -
  obtain e where e: "compile_entry (collect_map td_absolute_offset (mf_tensors m)) types dims keys is_phi l = Ok e"
    "ce_blob_base_words e = word_of_nat (entry_base m keys l div 4)"
    and field: "\<forall>f\<in>set field_suffixes. snd f (ce_offsets e) = pack_at m keys l (fst f)"
    using compile_entry_dense [OF assms] by metis
  have "field_decodes m l e f" if "f \<in> set field_suffixes" for f
  proof -
    have q: "snd f (ce_offsets e) = pack_at m keys l (fst f)" by (rule bspec [OF field that])
    show ?thesis
    proof (cases "mf_tensor m (layer_name l (fst f))")
      case None
      then show ?thesis by (simp add: field_decodes_def q pack_at_def)
    next
      case (Some t)
      then have "4 * (td_absolute_offset t div 4) = td_absolute_offset t"
        using admitted_tensor(1) [OF adm Some] by presburger
      then show ?thesis using pack_at_Some [OF adm l Some] by (simp add: field_decodes_def q e(2) Some)
    qed
  qed
  with e show ?thesis by (intro exI [of _ e] conjI ballI)
qed

lemma metadata_dense:
  assumes adm: "admitted m d keys"
  shows "\<exists>bm. metadata_from_manifest keys m = Ok bm \<and> length (bm_compiled_layers bm) = md_layers d \<and>
    (\<forall>l<md_layers d. ce_blob_base_words (bm_compiled_layers bm ! l) = word_of_nat (entry_base m keys l div 4) \<and>
      (\<forall>f\<in>set field_suffixes. field_decodes m l (bm_compiled_layers bm ! l) f))"
proof -
  let ?ce = "compile_entry (collect_map td_absolute_offset (mf_tensors m)) (collect_map td_ggml_type (mf_tensors m))
    (collect_map td_dimensions (mf_tensors m)) keys (mf_value m ''general.architecture'' = Some (V_String ''phi''))"
  let ?P = "\<lambda>l e. ce_blob_base_words e = word_of_nat (entry_base m keys l div 4) \<and>
    (\<forall>f\<in>set field_suffixes. field_decodes m l e f)"
  have "\<forall>l. \<exists>e. l < md_layers d \<longrightarrow> ?ce l = Ok e \<and> ?P l e" using compile_entry_decodes [OF adm] by blast
  then obtain g where g: "\<forall>l. l < md_layers d \<longrightarrow> ?ce l = Ok (g l) \<and> ?P l (g l)" by (rule choice [THEN exE])
  have tr: "traverse ?ce [0..<count_layers keys 0] = Ok (map g [0..<md_layers d])"
    unfolding admitted_layers [OF adm] by (rule traverse_map_Ok) (use g in auto)
  have "\<forall>l<md_layers d. ?P l (map g [0..<md_layers d] ! l)"
  proof (intro allI impI)
    fix l assume l: "l < md_layers d"
    then have "map g [0..<md_layers d] ! l = g l" by simp
    with g l show "?P l (map g [0..<md_layers d] ! l)" by presburger
  qed
  then show ?thesis unfolding metadata_from_manifest_def Let_def tr and_then.simps
    by (intro exI [where x = "bindless_metadata.make _ _ _ _ _ _ _ _ (map g [0..<md_layers d])"])
      (simp add: bindless_metadata.make_def)
qed

text \<open>
  C11: The layer table of an admitted model is exact: building it never fails, it has one
  entry per layer of the descriptor, and for every tensor slot of every layer the
  address the shader computes from the entry, four times \<open>packed / 2 + blob_base_words\<close>,
  is the absolute byte offset of that tensor in the file; a slot is zero exactly when the
  file has no such tensor.
\<close>

theorem compiled_table_exact:
  assumes "admitted m d keys"
  shows "\<exists>bm. metadata_from_manifest keys m = Ok bm \<and> length (bm_compiled_layers bm) = md_layers d \<and>
    (\<forall>l<md_layers d. \<forall>f\<in>set field_suffixes. field_decodes m l (bm_compiled_layers bm ! l) f)"
  using metadata_dense [OF assms] by blast

lemma sample_admitted: "\<exists>d. admitted sample_manifest d (map td_name (mf_tensors sample_manifest))"
proof -
  obtain d where "from_manifest sample_manifest = Ok d" using sample_accepted unfolding is_ok_iff by blast
  moreover have "mf_file_len sample_manifest < 2 ^ 32" by (simp add: sample_manifest_def)
  ultimately show ?thesis unfolding admitted_def using sample_manifest_ok by auto
qed

lemma compiled_table_exact_witness:
  "\<exists>d bm. from_manifest sample_manifest = Ok d \<and>
     metadata_from_manifest (map td_name (mf_tensors sample_manifest)) sample_manifest = Ok bm \<and>
     length (bm_compiled_layers bm) = md_layers d"
proof -
  obtain d where d: "admitted sample_manifest d (map td_name (mf_tensors sample_manifest))"
    using sample_admitted by blast
  then have "from_manifest sample_manifest = Ok d" by (simp add: admitted_def)
  with compiled_table_exact [OF d] show ?thesis by blast
qed

section \<open>Planning the window of a layer\<close>

definition dense_bindings :: "model_descriptor \<Rightarrow> (string \<times> nat \<times> nat) list" where
  "dense_bindings d = map (\<lambda>b. (tb_name b, tb_offset b, tb_bytes b)) (md_bindings d)"

definition layer_extent :: "model_manifest \<Rightarrow> nat \<Rightarrow> (nat \<times> nat) set" where
  "layer_extent m l = {(td_absolute_offset t, td_byte_len t) | s t. mf_tensor m (layer_name l s) = Some t}"

lemma layer_spans_dense:
  assumes "admitted m d keys"
  shows "set (layer_spans (dense_bindings d) l) = layer_extent m l"
proof -
  have d: "from_manifest m = Ok d" using assms by (simp add: admitted_def)
  note b = from_manifest_bindings [OF d]
  have k: "starts_with k (''blk.'' @ dec l @ ''.'') = (\<exists>s. k = layer_name l s)" for k
    by (simp add: starts_with_iff layer_name_def)
  have bd: "set (md_bindings d) = {binding_of t | name t. mf_tensor m name = Some t}"
  proof (intro set_eqI iffI)
    fix x assume "x \<in> set (md_bindings d)"
    then obtain req where "req \<in> set (requirements m d)" "x = binding_of (the (mf_tensor m (fst req)))"
      unfolding b(2) by auto
    moreover from this(1) b(1) have "meets m req" by blast
    then obtain t where "mf_tensor m (fst req) = Some t" by (auto simp: meets_def split: prod.splits)
    ultimately show "x \<in> {binding_of t | name t. mf_tensor m name = Some t}" by force
  next
    fix x assume "x \<in> {binding_of t | name t. mf_tensor m name = Some t}"
    then obtain name t where t: "mf_tensor m name = Some t" "x = binding_of t" by blast
    then have "name \<in> fst ` set (requirements m d)"
      using mf_tensor_None [of m name] dense_names [OF d] by auto
    then obtain req where "req \<in> set (requirements m d)" "name = fst req" by blast
    with t show "x \<in> set (md_bindings d)" unfolding b(2) by force
  qed
  have "layer_spans (dense_bindings d) l =
      map (\<lambda>x. (tb_offset x, tb_bytes x)) (filter (\<lambda>x. \<exists>s. tb_name x = layer_name l s) (md_bindings d))"
    unfolding layer_spans_def dense_bindings_def filter_map o_def fst_conv k by (simp add: o_def)
  then have "set (layer_spans (dense_bindings d) l) =
      {(tb_offset x, tb_bytes x) | x. x \<in> set (md_bindings d) \<and> (\<exists>s. tb_name x = layer_name l s)}"
    by auto
  also have "\<dots> = layer_extent m l"
  proof (intro set_eqI iffI)
    fix y assume "y \<in> {(tb_offset x, tb_bytes x) | x. x \<in> set (md_bindings d) \<and> (\<exists>s. tb_name x = layer_name l s)}"
    then obtain name t s where y: "y = (tb_offset (binding_of t), tb_bytes (binding_of t))"
      "mf_tensor m name = Some t" "tb_name (binding_of t) = layer_name l s" unfolding bd by auto
    then have "mf_tensor m (layer_name l s) = Some t" using mf_tensor_Some by (fastforce simp: binding_of_def)
    with y(1) show "y \<in> layer_extent m l" unfolding layer_extent_def by (auto simp: binding_of_def)
  next
    fix y assume "y \<in> layer_extent m l"
    then obtain s t where t: "mf_tensor m (layer_name l s) = Some t"
      "y = (td_absolute_offset t, td_byte_len t)" unfolding layer_extent_def by auto
    have "binding_of t \<in> set (md_bindings d)" unfolding bd using t(1) by blast
    moreover have "tb_name (binding_of t) = layer_name l s" using mf_tensor_Some [OF t(1)] by (simp add: binding_of_def)
    moreover have "y = (tb_offset (binding_of t), tb_bytes (binding_of t))" using t(2) by (simp add: binding_of_def)
    ultimately show "y \<in> {(tb_offset x, tb_bytes x) | x. x \<in> set (md_bindings d) \<and> (\<exists>s. tb_name x = layer_name l s)}"
      by blast
  qed
  finally show ?thesis .
qed

lemma field_packs: "set (layer_packs offsets) = (\<lambda>f. snd f offsets) ` set field_suffixes"
  by (simp add: layer_packs_def field_suffixes_def insert_commute)

lemma dense_pack_word:
  assumes "\<forall>f\<in>set field_suffixes. field_decodes m l e f" and "q \<in> set (layer_packs (ce_offsets e))" and "q \<noteq> 0"
  shows "\<exists>s t. mf_tensor m (layer_name l s) = Some t \<and>
    4 * unat (q div 2 + ce_blob_base_words e) = td_absolute_offset t"
proof -
  obtain f where f: "f \<in> set field_suffixes" "q = snd f (ce_offsets e)" using assms(2) unfolding field_packs by blast
  then have "field_decodes m l e f" using assms(1) by blast
  then show ?thesis using assms(3) unfolding f(2) field_decodes_def by (auto split: option.splits)
qed

text \<open>
  The planner's range on an admitted layer: from the layer's base word to the last word of
  its last tensor.
\<close>

lemma layer_plan_dense:
  assumes adm: "admitted m d keys" and l: "l < md_layers d"
    and e: "ce_blob_base_words e = word_of_nat (entry_base m keys l div 4)" "\<forall>f\<in>set field_suffixes. field_decodes m l e f"
    and stop: "\<forall>(a, n)\<in>layer_extent m l. a + n \<le> stop" "\<exists>(a, n)\<in>layer_extent m l. a + n = stop"
    and p: "plan_ok (mf_file_len m) p"
    and w: "window_for_range (word_of_nat (entry_base m keys l div 4)) (word_of_nat ((stop - 1) div 4))
      (chunk_words_of p) (num_chunks p) = Ok w"
  shows "plan_layer_tensor_window (ce_offsets e) (ce_blob_base_words e) (chunk_words_of p) (num_chunks p)
    (layer_spans (dense_bindings d) l) = Ok (Some w, ce_blob_base_words e - window_base_words w)"
proof -
  let ?B = "entry_base m keys l" and ?spans = "layer_spans (dense_bindings d) l"
  define base :: u32 where "base = word_of_nat (?B div 4)"
  define hi :: u32 where "hi = word_of_nat ((stop - 1) div 4)"
  note ext = layer_spans_dense [OF adm, of l]
  have n: "mf_file_len m < 2 ^ 32" using adm by (simp add: admitted_def)
  have sp: "span_in (mf_file_len m) sp \<and> ?B + 4 \<le> fst sp \<and> fst sp + snd sp \<le> stop" if mem: "sp \<in> set ?spans" for sp
  proof -
    obtain s t where t: "mf_tensor m (layer_name l s) = Some t" "sp = (td_absolute_offset t, td_byte_len t)"
      using mem unfolding ext layer_extent_def by auto
    then have "sp \<in> layer_extent m l" unfolding layer_extent_def by blast
    then have "fst sp + snd sp \<le> stop" using stop(1) by (cases sp) auto
    with t show ?thesis
      using admitted_tensor [OF adm t(1)] entry_base_spec(3) [OF adm l t(1)] by (simp add: span_in_def)
  qed
  obtain a k where ak: "(a, k) \<in> set ?spans" "a + k = stop" using stop(2) unfolding ext by blast
  have stop_le: "stop \<le> mf_file_len m" "?B + 4 \<le> a" "0 < k" using sp [OF ak(1)] ak(2) by (simp_all add: span_in_def)
  have nat: "unat base = ?B div 4" "unat hi = (stop - 1) div 4"
    using n stop_le ak(2) by (simp_all add: base_def hi_def unat_of_nat)
  have word: "unat (q div 2 + base) \<le> unat hi \<and> base \<le> q div 2 + base"
    if q: "q \<in> set (layer_packs (ce_offsets e))" "q \<noteq> 0" for q
  proof -
    obtain s t where t: "mf_tensor m (layer_name l s) = Some t"
      "4 * unat (q div 2 + base) = td_absolute_offset t"
      using dense_pack_word [OF e(2) q] by (auto simp: e(1) base_def)
    then have "(td_absolute_offset t, td_byte_len t) \<in> set ?spans" unfolding ext layer_extent_def by blast
    then have "?B + 4 \<le> td_absolute_offset t" "td_absolute_offset t + td_byte_len t \<le> stop" "0 < td_byte_len t"
      using sp by (fastforce simp: span_in_def)+
    with t(2) have "?B div 4 \<le> unat (q div 2 + base)" "unat (q div 2 + base) \<le> (stop - 1) div 4" by presburger+
    then show ?thesis by (simp add: nat word_le_nat_alt)
  qed
  have "mf_tensor m (layer_name l ''attn_norm.weight'') \<noteq> None"
    using layer_tensor_iff [OF adm] l by (simp add: dense_suffix_set)
  moreover have "field_decodes m l e (''attn_norm.weight'', attn_norm)"
    using e(2) by (rule bspec) (simp add: field_suffixes_def)
  ultimately have "attn_norm (ce_offsets e) \<noteq> 0" by (auto simp: field_decodes_def)
  moreover have "attn_norm (ce_offsets e) \<in> set (layer_packs (ce_offsets e))" by (simp add: layer_packs_def)
  ultimately have "words_of base (layer_packs (ce_offsets e)) \<noteq> {}" by (auto simp: words_of_def)
  then obtain mn mx where ws: "word_span (ce_offsets e) base = Some (mn, mx)"
    unfolding word_span_def span_of_eq by simp
  have mn: "base \<le> mn" "mx \<le> hi"
    using span_of_attained [OF ws [unfolded word_span_def]] word by (auto simp: word_le_nat_alt)
  have lo_eq: "fold min (map (\<lambda>sp. word_of_nat (fst sp div 4)) ?spans) (min mn base) = base"
  proof (rule antisym)
    show "fold min (map (\<lambda>sp. word_of_nat (fst sp div 4)) ?spans) (min mn base) \<le> base"
      using fold_min_le [of _ "min mn base"] by (rule order_trans) simp
    have "base \<le> word_of_nat (fst sp div 4)" if "sp \<in> set ?spans" for sp
      unfolding base_def using sp [OF that] n by (intro word_of_nat_le) (auto simp: span_in_def intro: div_le_mono)
    then show "base \<le> fold min (map (\<lambda>sp. word_of_nat (fst sp div 4)) ?spans) (min mn base)"
      using mn by (auto simp: fold_min_set)
  qed
  have hi_eq: "fold max (map (\<lambda>sp. word_of_nat ((fst sp + snd sp - 1) div 4)) ?spans) mx = hi"
  proof (rule antisym)
    have "word_of_nat ((fst sp + snd sp - 1) div 4) \<le> hi" if "sp \<in> set ?spans" for sp
      unfolding hi_def using sp [OF that] n stop_le by (intro word_of_nat_le div_le_mono) auto
    then show "fold max (map (\<lambda>sp. word_of_nat ((fst sp + snd sp - 1) div 4)) ?spans) mx \<le> hi"
      using mn by (intro fold_max_le) auto
    have "hi \<in> set (map (\<lambda>sp. word_of_nat ((fst sp + snd sp - 1) div 4)) ?spans)"
      unfolding hi_def using ak by force
    then show "hi \<le> fold max (map (\<lambda>sp. word_of_nat ((fst sp + snd sp - 1) div 4)) ?spans) mx"
      by (rule fold_max_ge_mem)
  qed
  have fr: "fold_res widen_span ?spans (min mn base, mx) = Ok (base, hi)"
    using widen_spans_eq [of ?spans "mf_file_len m" "min mn base" mx, OF _ n] sp unfolding lo_eq hi_eq by blast
  have le: "base \<le> hi" using nat stop_le ak(2) by (simp add: word_le_nat_alt div_le_mono)
  have w': "window_for_range base hi (chunk_words_of p) (num_chunks p) = Ok w" using w by (simp add: base_def hi_def)
  have "4 * unat hi < mf_file_len m" using nat stop_le ak(2) by simp
  then have "window_base_words w \<le> base" using window_of_range(2) [OF p n _ w' order_refl le] by blast
  moreover have "?spans \<noteq> []" using ak(1) by auto
  ultimately show ?thesis
    unfolding plan_layer_tensor_window_def e(1) base_def [symmetric] ws option.case prod.case fr
    by (simp add: w' del: and_then_eq_Ok)
qed

end
