(* ===== verification/Weight_Id.thy ===== *)
theory Weight_Id
  imports Dequant
begin

text \<open>
  src/src/core/weight\_id.rs and the name mapping of src/src/core/model.rs: the identifiers
  of the weights, the list a model needs, and the map from GGUF tensor names to identifiers.
  The lemmas show that the map is a bijection between the names it knows and their
  identifiers: no tensor name is ever read as another weight.
\<close>

datatype weight_id
  = TokenEmbed
  | AttnQ nat
  | AttnK nat
  | AttnV nat
  | AttnO nat
  | AttnNorm nat
  | AttnQNorm nat
  | AttnKNorm nat
  | AttentionScale nat
  | FfnGate nat
  | FfnUp nat
  | FfnDown nat
  | FfnNorm nat
  | OutputNorm
  | OutputProj
  | VisionPatchEmbedWeight
  | VisionPatchEmbedBias
  | VisionPosEmbedWeight
  | VisionPostNormWeight
  | VisionPostNormBias
  | VisionBlkAttnQWeight nat
  | VisionBlkAttnQBias nat
  | VisionBlkAttnKWeight nat
  | VisionBlkAttnKBias nat
  | VisionBlkAttnVWeight nat
  | VisionBlkAttnVBias nat
  | VisionBlkAttnOutWeight nat
  | VisionBlkAttnOutBias nat
  | VisionBlkLn1Weight nat
  | VisionBlkLn1Bias nat
  | VisionBlkLn2Weight nat
  | VisionBlkLn2Bias nat
  | VisionBlkFfnUpWeight nat
  | VisionBlkFfnUpBias nat
  | VisionBlkFfnDownWeight nat
  | VisionBlkFfnDownBias nat
  | ResamplerQuery
  | ResamplerKvWeight
  | ResamplerLnQWeight
  | ResamplerLnQBias
  | ResamplerLnKvWeight
  | ResamplerLnKvBias
  | ResamplerAttnQWeight
  | ResamplerAttnQBias
  | ResamplerAttnKWeight
  | ResamplerAttnKBias
  | ResamplerAttnVWeight
  | ResamplerAttnVBias
  | ResamplerAttnOutWeight
  | ResamplerAttnOutBias
  | ResamplerPosEmbedK
  | ResamplerLnPostWeight
  | ResamplerLnPostBias
  | ResamplerProjWeight

text \<open>\<open>format!("{:?}", weight_id)\<close>, the derived \<open>Debug\<close> rendering\<close>

fun weight_debug :: "weight_id \<Rightarrow> string" where
  "weight_debug TokenEmbed = ''TokenEmbed''"
| "weight_debug (AttnQ i) = ''AttnQ { layer: '' @ dec i @ '' }''"
| "weight_debug (AttnK i) = ''AttnK { layer: '' @ dec i @ '' }''"
| "weight_debug (AttnV i) = ''AttnV { layer: '' @ dec i @ '' }''"
| "weight_debug (AttnO i) = ''AttnO { layer: '' @ dec i @ '' }''"
| "weight_debug (AttnNorm i) = ''AttnNorm { layer: '' @ dec i @ '' }''"
| "weight_debug (AttnQNorm i) = ''AttnQNorm { layer: '' @ dec i @ '' }''"
| "weight_debug (AttnKNorm i) = ''AttnKNorm { layer: '' @ dec i @ '' }''"
| "weight_debug (AttentionScale i) = ''AttentionScale { layer: '' @ dec i @ '' }''"
| "weight_debug (FfnGate i) = ''FfnGate { layer: '' @ dec i @ '' }''"
| "weight_debug (FfnUp i) = ''FfnUp { layer: '' @ dec i @ '' }''"
| "weight_debug (FfnDown i) = ''FfnDown { layer: '' @ dec i @ '' }''"
| "weight_debug (FfnNorm i) = ''FfnNorm { layer: '' @ dec i @ '' }''"
| "weight_debug OutputNorm = ''OutputNorm''"
| "weight_debug OutputProj = ''OutputProj''"
| "weight_debug VisionPatchEmbedWeight = ''VisionPatchEmbedWeight''"
| "weight_debug VisionPatchEmbedBias = ''VisionPatchEmbedBias''"
| "weight_debug VisionPosEmbedWeight = ''VisionPosEmbedWeight''"
| "weight_debug VisionPostNormWeight = ''VisionPostNormWeight''"
| "weight_debug VisionPostNormBias = ''VisionPostNormBias''"
| "weight_debug (VisionBlkAttnQWeight i) = ''VisionBlkAttnQWeight('' @ dec i @ '')''"
| "weight_debug (VisionBlkAttnQBias i) = ''VisionBlkAttnQBias('' @ dec i @ '')''"
| "weight_debug (VisionBlkAttnKWeight i) = ''VisionBlkAttnKWeight('' @ dec i @ '')''"
| "weight_debug (VisionBlkAttnKBias i) = ''VisionBlkAttnKBias('' @ dec i @ '')''"
| "weight_debug (VisionBlkAttnVWeight i) = ''VisionBlkAttnVWeight('' @ dec i @ '')''"
| "weight_debug (VisionBlkAttnVBias i) = ''VisionBlkAttnVBias('' @ dec i @ '')''"
| "weight_debug (VisionBlkAttnOutWeight i) = ''VisionBlkAttnOutWeight('' @ dec i @ '')''"
| "weight_debug (VisionBlkAttnOutBias i) = ''VisionBlkAttnOutBias('' @ dec i @ '')''"
| "weight_debug (VisionBlkLn1Weight i) = ''VisionBlkLn1Weight('' @ dec i @ '')''"
| "weight_debug (VisionBlkLn1Bias i) = ''VisionBlkLn1Bias('' @ dec i @ '')''"
| "weight_debug (VisionBlkLn2Weight i) = ''VisionBlkLn2Weight('' @ dec i @ '')''"
| "weight_debug (VisionBlkLn2Bias i) = ''VisionBlkLn2Bias('' @ dec i @ '')''"
| "weight_debug (VisionBlkFfnUpWeight i) = ''VisionBlkFfnUpWeight('' @ dec i @ '')''"
| "weight_debug (VisionBlkFfnUpBias i) = ''VisionBlkFfnUpBias('' @ dec i @ '')''"
| "weight_debug (VisionBlkFfnDownWeight i) = ''VisionBlkFfnDownWeight('' @ dec i @ '')''"
| "weight_debug (VisionBlkFfnDownBias i) = ''VisionBlkFfnDownBias('' @ dec i @ '')''"
| "weight_debug ResamplerQuery = ''ResamplerQuery''"
| "weight_debug ResamplerKvWeight = ''ResamplerKvWeight''"
| "weight_debug ResamplerLnQWeight = ''ResamplerLnQWeight''"
| "weight_debug ResamplerLnQBias = ''ResamplerLnQBias''"
| "weight_debug ResamplerLnKvWeight = ''ResamplerLnKvWeight''"
| "weight_debug ResamplerLnKvBias = ''ResamplerLnKvBias''"
| "weight_debug ResamplerAttnQWeight = ''ResamplerAttnQWeight''"
| "weight_debug ResamplerAttnQBias = ''ResamplerAttnQBias''"
| "weight_debug ResamplerAttnKWeight = ''ResamplerAttnKWeight''"
| "weight_debug ResamplerAttnKBias = ''ResamplerAttnKBias''"
| "weight_debug ResamplerAttnVWeight = ''ResamplerAttnVWeight''"
| "weight_debug ResamplerAttnVBias = ''ResamplerAttnVBias''"
| "weight_debug ResamplerAttnOutWeight = ''ResamplerAttnOutWeight''"
| "weight_debug ResamplerAttnOutBias = ''ResamplerAttnOutBias''"
| "weight_debug ResamplerPosEmbedK = ''ResamplerPosEmbedK''"
| "weight_debug ResamplerLnPostWeight = ''ResamplerLnPostWeight''"
| "weight_debug ResamplerLnPostBias = ''ResamplerLnPostBias''"
| "weight_debug ResamplerProjWeight = ''ResamplerProjWeight''"

definition layer_weights :: "nat \<Rightarrow> weight_id list" where
  "layer_weights layer =
     [AttnQ layer, AttnK layer, AttnV layer, AttnO layer, AttnNorm layer,
      FfnGate layer, FfnUp layer, FfnDown layer, FfnNorm layer]"

definition all_for_layers :: "nat \<Rightarrow> weight_id list" where
  "all_for_layers n_layer =
     [TokenEmbed] @ concat (map layer_weights [0..<n_layer]) @ [OutputNorm, OutputProj]"

definition get_required_weights :: "nat \<Rightarrow> weight_id list" where
  "get_required_weights n_layer = all_for_layers n_layer"

section \<open>Tensor names\<close>

definition blk_name :: "nat \<Rightarrow> string \<Rightarrow> string" where
  "blk_name layer suffix = ''blk.'' @ dec layer @ ''.'' @ suffix"

definition layer_inserts :: "nat \<Rightarrow> (string \<times> weight_id) list" where
  "layer_inserts layer =
    [(blk_name layer ''attn_q.weight'', AttnQ layer),
     (blk_name layer ''attn_k.weight'', AttnK layer),
     (blk_name layer ''attn_v.weight'', AttnV layer),
     (blk_name layer ''attn_output.weight'', AttnO layer),
     (blk_name layer ''ffn_gate.weight'', FfnGate layer),
     (blk_name layer ''ffn_up.weight'', FfnUp layer),
     (blk_name layer ''ffn_down.weight'', FfnDown layer),
     (blk_name layer ''attn_norm.weight'', AttnNorm layer),
     (blk_name layer ''ffn_norm.weight'', FfnNorm layer),
     (blk_name layer ''attn_q_norm.weight'', AttnQNorm layer),
     (blk_name layer ''attn_k_norm.weight'', AttnKNorm layer),
     (blk_name layer ''attention.scale'', AttentionScale layer)]"

text \<open>The insertions of \<open>create_weight_mapping\<close>, in order, into an empty \<open>HashMap\<close>.\<close>

definition weight_inserts :: "nat \<Rightarrow> (string \<times> weight_id) list" where
  "weight_inserts n_layer =
    [(''token_embd.weight'', TokenEmbed), (''output.weight'', OutputProj), (''token_embd.weight'', TokenEmbed)] @
    concat (map layer_inserts [0..<n_layer]) @ [(''output_norm.weight'', OutputNorm)]"

definition create_weight_mapping :: "nat \<Rightarrow> string \<Rightarrow> weight_id option" where
  "create_weight_mapping n_layer = fold (\<lambda>(k, v) m. m(k \<mapsto> v)) (weight_inserts n_layer) Map.empty"

section \<open>The mapping is injective\<close>

lemma fold_insert_map_of: "fold (\<lambda>(k, v) m. m(k \<mapsto> v)) kvs m = m ++ map_of (rev kvs)"
  by (induction kvs arbitrary: m) (auto simp: map_add_def fun_eq_iff split: option.splits)

lemma blk_name_inject: "(blk_name i s = blk_name j t) = (i = j \<and> s = t)"
proof
  assume "blk_name i s = blk_name j t"
  then have "dec i @ CHR ''.'' # s = dec j @ CHR ''.'' # t" by (simp add: blk_name_def)
  moreover have "\<not> is_digit (CHR ''.'')" by (simp add: is_digit_def)
  ultimately show "i = j \<and> s = t" using dec_append_inject by blast
qed simp

lemma blk_name_top:
  "blk_name i s \<noteq> ''token_embd.weight''" "blk_name i s \<noteq> ''output.weight''"
  "blk_name i s \<noteq> ''output_norm.weight''"
  by (simp_all add: blk_name_def)

text \<open>The GGUF name of a weight of the language model, as the comments of weight\_id.rs give it.\<close>

definition gguf_name :: "weight_id \<Rightarrow> string" where
  "gguf_name w =
     (case w of TokenEmbed \<Rightarrow> ''token_embd.weight''
      | AttnQ layer \<Rightarrow> blk_name layer ''attn_q.weight''
      | AttnK layer \<Rightarrow> blk_name layer ''attn_k.weight''
      | AttnV layer \<Rightarrow> blk_name layer ''attn_v.weight''
      | AttnO layer \<Rightarrow> blk_name layer ''attn_output.weight''
      | FfnGate layer \<Rightarrow> blk_name layer ''ffn_gate.weight''
      | FfnUp layer \<Rightarrow> blk_name layer ''ffn_up.weight''
      | FfnDown layer \<Rightarrow> blk_name layer ''ffn_down.weight''
      | AttnNorm layer \<Rightarrow> blk_name layer ''attn_norm.weight''
      | FfnNorm layer \<Rightarrow> blk_name layer ''ffn_norm.weight''
      | AttnQNorm layer \<Rightarrow> blk_name layer ''attn_q_norm.weight''
      | AttnKNorm layer \<Rightarrow> blk_name layer ''attn_k_norm.weight''
      | AttentionScale layer \<Rightarrow> blk_name layer ''attention.scale''
      | OutputNorm \<Rightarrow> ''output_norm.weight''
      | OutputProj \<Rightarrow> ''output.weight''
      | _ \<Rightarrow> '''')"

lemma inserts_name: "(k, v) \<in> set (weight_inserts n) \<Longrightarrow> k = gguf_name v"
  by (auto simp: weight_inserts_def layer_inserts_def gguf_name_def)

definition layer_table :: "(string \<times> (nat \<Rightarrow> weight_id)) list" where
  "layer_table = [(''attn_q.weight'', AttnQ), (''attn_k.weight'', AttnK), (''attn_v.weight'', AttnV), (''attn_output.weight'', AttnO), (''ffn_gate.weight'', FfnGate), (''ffn_up.weight'', FfnUp), (''ffn_down.weight'', FfnDown), (''attn_norm.weight'', AttnNorm), (''ffn_norm.weight'', FfnNorm), (''attn_q_norm.weight'', AttnQNorm), (''attn_k_norm.weight'', AttnKNorm), (''attention.scale'', AttentionScale)]"

lemma layer_inserts_table: "layer_inserts i = map (\<lambda>(s, f). (blk_name i s, f i)) layer_table"
  by (simp add: layer_inserts_def layer_table_def)

lemma distinct_table: "distinct (map fst layer_table)"
  by (simp add: layer_table_def)

lemma table_functional: "(s, f) \<in> set layer_table \<Longrightarrow> (s, g) \<in> set layer_table \<Longrightarrow> f = g"
  using distinct_table by (rule eq_key_imp_eq_value)

lemma inserts_cases:
  assumes "(k, v) \<in> set (weight_inserts n)"
  obtains i s f where "k = blk_name i s" "v = f i" "(s, f) \<in> set layer_table" "i < n"
  | "(k, v) \<in> {(''token_embd.weight'', TokenEmbed), (''output.weight'', OutputProj), (''output_norm.weight'', OutputNorm)}"
  using assms by (auto simp: weight_inserts_def layer_inserts_table)

text \<open>A name is inserted with one identifier only, and an identifier under one name only.\<close>

lemma inserts_functional:
  assumes "(k, v) \<in> set (weight_inserts n)" and "(k', v') \<in> set (weight_inserts n)"
  shows "(k = k') = (v = v')"
proof
  show "v = v' \<Longrightarrow> k = k'" using inserts_name [OF assms(1)] inserts_name [OF assms(2)] by simp
  assume k: "k = k'"
  show "v = v'" using assms(1)
  proof (cases rule: inserts_cases)
    case (1 i s f)
    note one = 1
    show ?thesis using assms(2)
    proof (cases rule: inserts_cases)
      case (1 j t g)
      with one k have "i = j" "s = t" by (simp_all add: blk_name_inject)
      with one 1 table_functional show ?thesis by blast
    next
      case 2
      with one k show ?thesis by (auto simp: blk_name_top)
    qed
  next
    case 2
    note two = 2
    show ?thesis using assms(2)
    proof (cases rule: inserts_cases)
      case (1 j t g)
      with two k show ?thesis by (auto simp: blk_name_top blk_name_top [symmetric])
    next
      case 2
      with two k show ?thesis by auto
    qed
  qed
qed

lemma map_of_functional:
  assumes "\<And>k v v'. (k, v) \<in> set kvs \<Longrightarrow> (k, v') \<in> set kvs \<Longrightarrow> v = v'"
  shows "(map_of kvs k = Some v) = ((k, v) \<in> set kvs)"
proof
  show "map_of kvs k = Some v \<Longrightarrow> (k, v) \<in> set kvs" by (rule map_of_SomeD)
  assume kv: "(k, v) \<in> set kvs"
  then obtain v' where v': "map_of kvs k = Some v'" by (cases "map_of kvs k") (force simp: map_of_eq_None_iff)+
  with kv show "map_of kvs k = Some v" using assms [OF kv map_of_SomeD [OF v']] by simp
qed

lemma create_weight_mapping_iff:
  "(create_weight_mapping n k = Some v) = ((k, v) \<in> set (weight_inserts n))"
proof -
  have eq: "create_weight_mapping n = map_of (rev (weight_inserts n))"
    by (simp add: create_weight_mapping_def fold_insert_map_of)
  have "v = v'" if "(k, v) \<in> set (rev (weight_inserts n))" "(k, v') \<in> set (rev (weight_inserts n))" for k v v'
    using that inserts_functional [of k v n k v'] by simp
  then have "(map_of (rev (weight_inserts n)) k = Some v) = ((k, v) \<in> set (rev (weight_inserts n)))"
    by (rule map_of_functional)
  then show ?thesis unfolding eq by simp
qed

lemma mapping_name: "create_weight_mapping n k = Some v \<Longrightarrow> k = gguf_name v"
  by (simp add: create_weight_mapping_iff inserts_name)

lemma layer_weights_name:
  "w \<in> set (layer_weights l) \<Longrightarrow> (gguf_name w, w) \<in> set (layer_inserts l)"
  by (simp add: layer_weights_def layer_inserts_def gguf_name_def) (elim disjE; simp)

lemma required_name: "w \<in> set (get_required_weights n) \<Longrightarrow> create_weight_mapping n (gguf_name w) = Some w"
proof -
  assume "w \<in> set (get_required_weights n)"
  then consider "w \<in> {TokenEmbed, OutputNorm, OutputProj}" | l where "l < n" "w \<in> set (layer_weights l)"
    by (auto simp: get_required_weights_def all_for_layers_def)
  then have "(gguf_name w, w) \<in> set (weight_inserts n)"
  proof cases
    case 1
    then show ?thesis by (auto simp: gguf_name_def weight_inserts_def)
  next
    case 2
    then have "(gguf_name w, w) \<in> set (concat (map layer_inserts [0..<n]))"
      using layer_weights_name by (auto intro!: bexI [of _ l])
    then show ?thesis by (simp add: weight_inserts_def)
  qed
  then show ?thesis by (simp only: create_weight_mapping_iff)
qed

text \<open>The weights the mapping knows: the required ones and three optional ones per layer.\<close>

definition known_weights :: "nat \<Rightarrow> weight_id list" where
  "known_weights n =
     get_required_weights n @ concat (map (\<lambda>l. [AttnQNorm l, AttnKNorm l, AttentionScale l]) [0..<n])"

lemma layer_inserts_known:
  "(k, w) \<in> set (layer_inserts l) \<Longrightarrow> w \<in> set (layer_weights l) \<union> {AttnQNorm l, AttnKNorm l, AttentionScale l}"
proof -
  assume "(k, w) \<in> set (layer_inserts l)"
  then have "w \<in> set (map snd (layer_inserts l))" by force
  also have "map snd (layer_inserts l) =
      [AttnQ l, AttnK l, AttnV l, AttnO l, FfnGate l, FfnUp l, FfnDown l, AttnNorm l, FfnNorm l,
       AttnQNorm l, AttnKNorm l, AttentionScale l]"
    by (simp add: layer_inserts_def)
  also have "set \<dots> = set (layer_weights l) \<union> {AttnQNorm l, AttnKNorm l, AttentionScale l}"
    by (simp add: layer_weights_def insert_commute)
  finally show ?thesis .
qed

lemma optional_inserts:
  "w \<in> {AttnQNorm l, AttnKNorm l, AttentionScale l} \<Longrightarrow> (gguf_name w, w) \<in> set (layer_inserts l)"
  by (simp add: layer_inserts_def gguf_name_def) (elim disjE; simp)

lemma known_iff: "(w \<in> set (known_weights n)) = (create_weight_mapping n (gguf_name w) = Some w)"
proof
  assume "w \<in> set (known_weights n)"
  then consider "w \<in> set (get_required_weights n)" | l where "l < n" "w \<in> {AttnQNorm l, AttnKNorm l, AttentionScale l}"
    by (auto simp: known_weights_def)
  then show "create_weight_mapping n (gguf_name w) = Some w"
  proof cases
    case 1
    then show ?thesis by (rule required_name)
  next
    case 2
    then have "(gguf_name w, w) \<in> set (concat (map layer_inserts [0..<n]))"
      using optional_inserts [OF 2(2)] by (auto intro!: bexI [of _ l])
    then show ?thesis by (simp add: create_weight_mapping_iff weight_inserts_def)
  qed
next
  assume "create_weight_mapping n (gguf_name w) = Some w"
  then have "(gguf_name w, w) \<in> set (weight_inserts n)" by (simp only: create_weight_mapping_iff)
  then consider "w \<in> {TokenEmbed, OutputNorm, OutputProj}" | l where "l < n" "(gguf_name w, w) \<in> set (layer_inserts l)"
    by (auto simp: weight_inserts_def)
  then show "w \<in> set (known_weights n)"
  proof cases
    case 1
    then show ?thesis by (auto simp: known_weights_def get_required_weights_def all_for_layers_def)
  next
    case 2
    from layer_inserts_known [OF 2(2)] 2(1) show ?thesis
      by (auto simp: known_weights_def get_required_weights_def all_for_layers_def)
  qed
qed

text \<open>
  C28: The name mapping is exactly the naming scheme: a name maps to a weight if and only if
  the weight is one of the model's layers and the name is its GGUF name, and two different
  weights never have the same name.
\<close>

theorem weight_mapping_exact:
  "(create_weight_mapping n s = Some w) = (w \<in> set (known_weights n) \<and> s = gguf_name w) \<and>
   (w \<in> set (known_weights n) \<and> w' \<in> set (known_weights n) \<and> gguf_name w = gguf_name w') =
     (w \<in> set (known_weights n) \<and> w = w')"
proof (intro conjI)
  show "(create_weight_mapping n s = Some w) = (w \<in> set (known_weights n) \<and> s = gguf_name w)"
  proof
    assume m: "create_weight_mapping n s = Some w"
    then have "s = gguf_name w" by (rule mapping_name)
    with m show "w \<in> set (known_weights n) \<and> s = gguf_name w" by (simp only: known_iff simp_thms)
  qed (simp only: known_iff simp_thms)
  have "w = w'" if "create_weight_mapping n (gguf_name w) = Some w"
    "create_weight_mapping n (gguf_name w') = Some w'" "gguf_name w = gguf_name w'"
  proof -
    have "Some w = Some w'" using that(1,2) unfolding that(3) by (rule trans [OF sym])
    then show ?thesis by (rule option.inject [THEN iffD1])
  qed
  then show "(w \<in> set (known_weights n) \<and> w' \<in> set (known_weights n) \<and> gguf_name w = gguf_name w') =
      (w \<in> set (known_weights n) \<and> w = w')"
    unfolding known_iff by blast
qed

end
