(* ===== verification/Loading.thy ===== *)
theory Loading
  imports Quant_Formula Weight_Id
begin

text \<open>
  src/src/core/model.rs: reading one tensor by its GGML type, loading the weights a model
  knows by name, tied embeddings, the check that every required weight is present, and the
  offline layout check. The manifest and the mapped file are arguments: the list of tensor
  infos, the bytes and the offset of the data section.
\<close>

section \<open>Reading one tensor\<close>

text \<open>\<open>bytes.as_chunks::<4>().0\<close> read as \<open>f32::from_le_bytes\<close>, and the same for halves\<close>

fun chunks_f32 :: "bytes \<Rightarrow> f32 list" where
  "chunks_f32 (a # b # c # d # r) = le32 a b c d # chunks_f32 r"
| "chunks_f32 _ = []"

fun chunks_f16 :: "(16 word \<Rightarrow> f32) \<Rightarrow> bytes \<Rightarrow> f32 list" where
  "chunks_f16 h (a # b # r) = h (le16 a b) # chunks_f16 h r"
| "chunks_f16 h _ = []"

text \<open>The F32 and F16 arms differ in the element width, the type name and the conversion.\<close>

definition load_plain ::
  "nat \<Rightarrow> string \<Rightarrow> (bytes \<Rightarrow> f32 list) \<Rightarrow> gguf_tensor_info \<Rightarrow> bytes \<Rightarrow> nat \<Rightarrow> tensor lib_res" where
  "load_plain width type_name convert info mmap base =
     (let total_elements = usize_product (ti_dimensions info) in
      and_then (ok_or (checked_mul total_elements width)
        (FixtureError (type_name @ '' byte length overflow for tensor '' @ [CHR 0x27] @ ti_name info @
          [CHR 0x27] @ '': '' @ debug_dims (ti_dimensions info)))) (\<lambda>byte_len.
      let data_start = wadd base (ti_offset info); data_end = wadd data_start byte_len in
      and_then (ensure (data_end \<le> length mmap)
        (InvariantViolation (''Tensor '' @ [CHR 0x27] @ ti_name info @ [CHR 0x27] @
          '' extends beyond file ('' @ type_name @ ''): end='' @ dec data_end @ '' > file_len='' @
          dec (length mmap)))) (\<lambda>_.
      and_then (slice mmap data_start data_end) (\<lambda>bs.
        tensor_new (convert bs) (ti_dimensions info)))))"

definition load_tensor_by_type ::
  "(16 word \<Rightarrow> f32) \<Rightarrow> gguf_tensor_info \<Rightarrow> bytes \<Rightarrow> nat \<Rightarrow> tensor lib_res" where
  "load_tensor_by_type h info mmap base =
     (let ty = ti_ggml_type info in
      if ty = 0 then load_plain 4 ''F32'' chunks_f32 info mmap base
      else if ty = 1 then load_plain 2 ''F16'' (chunks_f16 h) info mmap base
      else if ty = 2 then dequantize_q4_0 h info mmap base
      else if ty = 6 then dequantize_q5_0 h info mmap base
      else if ty = 8 then dequantize_q8_0 h info mmap base
      else if ty = 12 then dequantize_q4_k h info mmap base
      else if ty = 14 then dequantize_q6_k h info mmap base
      else Err (QuantUnsupported (ti_name info) ty (''UNKNOWN_'' @ dec ty)))"

section \<open>Loading the weights\<close>

type_synonym weights = "weight_id \<Rightarrow> tensor option"

definition insert_weight :: "weight_id \<Rightarrow> tensor \<Rightarrow> weights \<Rightarrow> weights" where
  "insert_weight w t m = m(w \<mapsto> t)"

definition load_step ::
  "(16 word \<Rightarrow> f32) \<Rightarrow> nat \<Rightarrow> bytes \<Rightarrow> nat \<Rightarrow> gguf_tensor_info \<Rightarrow> weights \<Rightarrow> weights lib_res" where
  "load_step h n_layer mmap base info m =
     (case create_weight_mapping n_layer (ti_name info) of
        None \<Rightarrow> Ok m
      | Some w \<Rightarrow> and_then (load_tensor_by_type h info mmap base) (\<lambda>t. Ok (insert_weight w t m)))"

text \<open>A missing output projection is the token embedding.\<close>

definition tie_embeddings :: "weights \<Rightarrow> weights" where
  "tie_embeddings m =
     (case m OutputProj of
        Some _ \<Rightarrow> m
      | None \<Rightarrow> (case m TokenEmbed of None \<Rightarrow> m | Some e \<Rightarrow> insert_weight OutputProj e m))"

definition load_required_weights ::
  "(16 word \<Rightarrow> f32) \<Rightarrow> gguf_tensor_info list \<Rightarrow> bytes \<Rightarrow> nat \<Rightarrow> nat \<Rightarrow> weights \<Rightarrow> weights lib_res" where
  "load_required_weights h infos mmap base n_layer m =
     and_then (fold_res (load_step h n_layer mmap base) infos m) (\<lambda>m. Ok (tie_embeddings m))"

definition validate_required_weights :: "weights \<Rightarrow> nat \<Rightarrow> unit lib_res" where
  "validate_required_weights m n_layer =
     for_each (\<lambda>w. if m w = None then Err (WeightMissing (weight_debug w)) else Ok ())
       (get_required_weights n_layer)"

text \<open>The two calls \<open>from_gguf_with_alignment_fallback\<close> makes on a new model.\<close>

definition load_weights ::
  "(16 word \<Rightarrow> f32) \<Rightarrow> gguf_tensor_info list \<Rightarrow> bytes \<Rightarrow> nat \<Rightarrow> nat \<Rightarrow> weights lib_res" where
  "load_weights h infos mmap base n_layer =
     and_then (load_required_weights h infos mmap base n_layer Map.empty) (\<lambda>m.
     and_then (validate_required_weights m n_layer) (\<lambda>_. Ok m))"

section \<open>The layout check\<close>

definition validate_tensor_layout :: "gguf_tensor_info list \<Rightarrow> nat \<Rightarrow> unit lib_res" where
  "validate_tensor_layout infos file_len =
     for_each (\<lambda>info.
       and_then (map_err (\<lambda>e. case e of QuantUnsupported _ ty nm \<Rightarrow> QuantUnsupported (ti_name info) ty nm | e \<Rightarrow> e)
         (ggml_type_bytes_per_tensor (ti_ggml_type info) (usize_product (ti_dimensions info)))) (\<lambda>size.
       validate_tensor_bounds (ti_name info) (ti_ggml_type info) size (ti_offset info) file_len)) infos"

section \<open>Plain tensors\<close>

lemma chunks_f32_nth:
  "length bs = 4 * n \<Longrightarrow> length (chunks_f32 bs) = n \<and>
   (\<forall>i<n. chunks_f32 bs ! i = le32 (bs ! (4 * i)) (bs ! (4 * i + 1)) (bs ! (4 * i + 2)) (bs ! (4 * i + 3)))"
proof (induction bs arbitrary: n rule: chunks_f32.induct)
  case (1 a b c d r)
  then obtain m where n: "n = Suc m" "length r = 4 * m" by (cases n) auto
  from "1.IH" [OF n(2)] n(1) show ?case by (auto simp: less_Suc_eq_0_disj add.commute)
qed auto

lemma chunks_f16_nth:
  "length bs = 2 * n \<Longrightarrow> length (chunks_f16 h bs) = n \<and>
   (\<forall>i<n. chunks_f16 h bs ! i = h (le16 (bs ! (2 * i)) (bs ! (2 * i + 1))))"
proof (induction h bs arbitrary: n rule: chunks_f16.induct)
  case (1 h a b r)
  then obtain m where n: "n = Suc m" "length r = 2 * m" by (cases n) auto
  from "1.IH" [OF n(2)] n(1) show ?case by (auto simp: less_Suc_eq_0_disj)
qed auto

lemma load_plain_result:
  assumes f: "extent_fits 1 w info mmap base" and w: "0 < w"
    and conv: "\<And>bs n. length bs = w * n \<Longrightarrow> length (convert bs) = n"
  shows "if in_file 1 w info mmap base
    then load_plain w T convert info mmap base = Ok \<lparr>t_data = convert (take (prod_list (ti_dimensions info) * w)
      (drop (base + ti_offset info) mmap)), t_shape = ti_dimensions info\<rparr>
    else \<exists>e. load_plain w T convert info mmap base = Err e"
proof -
  let ?n = "prod_list (ti_dimensions info)" and ?s = "base + ti_offset info"
  have fit: "?s + ?n * w < u64_range" using f by (simp add: extent_fits_def)
  then have nw: "?n * w < u64_range" by simp
  note eqs = extent_fits_eqs [OF f]
  have st: "wadd base (ti_offset info) = ?s" using eqs(2) by (simp add: data_start_of_def)
  have en: "wadd ?s (?n * w) = ?s + ?n * w" using fit by simp
  show ?thesis
  proof (cases "in_file 1 w info mmap base")
    case True
    then have le: "?s + ?n * w \<le> length mmap" by (simp add: in_file_def)
    let ?bs = "take (?n * w) (drop ?s mmap)"
    have "length ?bs = w * ?n" using le by (simp add: mult.commute)
    from conv [OF this] have t: "tensor_new (convert ?bs) (ti_dimensions info) =
        Ok \<lparr>t_data = convert ?bs, t_shape = ti_dimensions info\<rparr>"
      by (rule tensor_new_product [OF f])
    have "(slice mmap ?s (?s + ?n * w) :: bytes lib_res) = Ok ?bs" using le by (simp add: slice_def)
    with True le nw t show ?thesis
      by (simp add: load_plain_def Let_def eqs(1) st en checked_mul_def ok_or_def ensure_def)
  next
    case False
    with nw show ?thesis
      by (simp add: load_plain_def Let_def eqs(1) st en checked_mul_def ok_or_def ensure_def in_file_def)
  qed
qed

section \<open>Every loaded element is the element of the registry's formula\<close>

text \<open>Equal floats, or both NaN (a NaN payload is not part of any contract).\<close>

definition same_float :: "f32 \<Rightarrow> f32 \<Rightarrow> bool" where
  "same_float x y = (x = y \<or> f32_is_nan x \<and> f32_is_nan y)"

definition formula_tensor :: "ggml_type \<Rightarrow> gguf_tensor_info \<Rightarrow> bytes \<Rightarrow> nat \<Rightarrow> tensor \<Rightarrow> bool" where
  "formula_tensor ty info mmap base t =
     (t_shape t = ti_dimensions info \<and> length (t_data t) = prod_list (ti_dimensions info) \<and>
      (\<forall>i < length (t_data t). \<exists>v.
        dequant_elem (ggml_type_id ty)
          (block_at (type_block_bytes ty) mmap (base + ti_offset info) (i div type_block_elems ty))
          (i mod type_block_elems ty) = Some (Ok v) \<and>
        same_float (t_data t ! i) v))"

lemma tensor_block_length:
  assumes "in_file elems bsize info mmap base" and "i < prod_list (ti_dimensions info)" and "0 < elems"
  shows "length (block_at bsize mmap (base + ti_offset info) (i div elems)) = bsize"
proof -
  let ?n = "div_ceil (prod_list (ti_dimensions info)) elems"
  have "i div elems + 1 \<le> ?n" using div_ceil_block [OF assms(3,2)] by simp
  then have "(i div elems + 1) * bsize \<le> ?n * bsize" by (rule mult_le_mono1)
  with assms(1) show ?thesis by (simp add: block_at_def in_file_def)
qed

lemma blocks_formula:
  assumes "tensor_of_blocks (type_block_elems ty) (type_block_bytes ty) bd info mmap base t"
    and "in_file (type_block_elems ty) (type_block_bytes ty) info mmap base"
    and eq: "\<And>blk vs i. length blk = type_block_bytes ty \<Longrightarrow> bd blk = Some vs \<Longrightarrow> i < type_block_elems ty \<Longrightarrow>
      formula_of ty blk i = Ok (vs ! i)"
  shows "formula_tensor ty info mmap base t"
  unfolding formula_tensor_def dequant_elem_type
proof (intro conjI allI impI)
  show "t_shape t = ti_dimensions info" and l: "length (t_data t) = prod_list (ti_dimensions info)"
    using assms(1) by (simp_all add: tensor_of_blocks_def)
  fix i assume i: "i < length (t_data t)"
  let ?blk = "block_at (type_block_bytes ty) mmap (base + ti_offset info) (i div type_block_elems ty)"
  from assms(1) i obtain vs where vs: "bd ?blk = Some vs" "t_data t ! i = vs ! (i mod type_block_elems ty)"
    unfolding tensor_of_blocks_def by blast
  have "length ?blk = type_block_bytes ty"
    using assms(2) i l by (intro tensor_block_length) auto
  with vs eq [of ?blk vs "i mod type_block_elems ty"]
  show "\<exists>v. Some (formula_of ty ?blk (i mod type_block_elems ty)) = Some (Ok v) \<and> same_float (t_data t ! i) v"
    by (simp add: same_float_def)
qed

lemma plain_block:
  assumes "in_file 1 w info mmap base" and "i < prod_list (ti_dimensions info)" and "j < w"
  shows "block_at w mmap (base + ti_offset info) i ! j =
    take (prod_list (ti_dimensions info) * w) (drop (base + ti_offset info) mmap) ! (w * i + j)"
proof -
  let ?n = "prod_list (ti_dimensions info)" and ?s = "base + ti_offset info"
  have "(i + 1) * w \<le> ?n * w" using assms(2) by (intro mult_le_mono1) simp
  with assms(3) have lt: "w * i + j < ?n * w" by (simp add: mult.commute)
  moreover have "?s + ?n * w \<le> length mmap" using assms(1) by (simp add: in_file_def)
  ultimately show ?thesis using assms(3) by (simp add: block_at_def ac_simps)
qed

lemma load_f32_formula:
  assumes f: "extent_fits 1 4 info mmap base" and i: "in_file 1 4 info mmap base"
  shows "formula_tensor F32 info mmap base \<lparr>t_data = chunks_f32 (take (prod_list (ti_dimensions info) * 4)
      (drop (base + ti_offset info) mmap)), t_shape = ti_dimensions info\<rparr>"
proof -
  let ?n = "prod_list (ti_dimensions info)" and ?s = "base + ti_offset info"
  let ?bs = "take (?n * 4) (drop ?s mmap)"
  have "length ?bs = 4 * ?n" using i by (simp add: in_file_def mult.commute)
  note ch = chunks_f32_nth [OF this]
  have "dequant_f32 (block_at 4 mmap ?s k) 0 = Ok (chunks_f32 ?bs ! k)" if k: "k < ?n" for k
  proof -
    have l: "length (block_at 4 mmap ?s k) = 4"
      using tensor_block_length [OF i k] by simp
    moreover have "4 < u64_range" by (simp add: u64_range_def)
    ultimately have "rd_u32 (block_at 4 mmap ?s k) 0 = Ok (chunks_f32 ?bs ! k)"
      using rd_u32_in [of 0 "block_at 4 mmap ?s k"] ch k plain_block [OF i k, of 0] plain_block [OF i k, of 1]
        plain_block [OF i k, of 2] plain_block [OF i k, of 3]
      by (simp add: numeral_2_eq_2)
    then show ?thesis by (simp add: dequant_f32_def wmul_def)
  qed
  with ch show ?thesis
    by (auto simp: formula_tensor_def dequant_elem_type same_float_def simp del: ggml_type_id.simps)
qed

lemma load_f16_formula:
  assumes h: "half_contract h" and f: "extent_fits 1 2 info mmap base" and i: "in_file 1 2 info mmap base"
  shows "formula_tensor F16 info mmap base \<lparr>t_data = chunks_f16 h (take (prod_list (ti_dimensions info) * 2)
      (drop (base + ti_offset info) mmap)), t_shape = ti_dimensions info\<rparr>"
proof -
  let ?n = "prod_list (ti_dimensions info)" and ?s = "base + ti_offset info"
  let ?bs = "take (?n * 2) (drop ?s mmap)"
  have "length ?bs = 2 * ?n" using i by (simp add: in_file_def mult.commute)
  note ch = chunks_f16_nth [OF this, of h]
  have "\<exists>b. dequant_f16 (block_at 2 mmap ?s k) 0 = Ok (f16_to_f32 b) \<and> chunks_f16 h ?bs ! k = h b" if k: "k < ?n" for k
  proof -
    have l: "length (block_at 2 mmap ?s k) = 2"
      using tensor_block_length [OF i k] by simp
    then have "rd_u16 (block_at 2 mmap ?s k) 0 = Ok (le16 (?bs ! (2 * k)) (?bs ! (2 * k + 1)))"
      using rd_u16_in [of 0 "block_at 2 mmap ?s k"] k plain_block [OF i k, of 0] plain_block [OF i k, of 1]
      by (simp add: u64_range_def)
    with ch k show ?thesis
      by (intro exI [of _ "le16 (?bs ! (2 * k)) (?bs ! (2 * k + 1))"]) (simp add: dequant_f16_def wmul_def)
  qed
  moreover have "same_float (h b) (f16_to_f32 b)" for b
    using half_agree [OF h, of b] by (auto simp: same_float_def f32_is_nan_def)
  ultimately show ?thesis using ch
    by (fastforce simp: formula_tensor_def dequant_elem_type simp del: ggml_type_id.simps)
qed

text \<open>What the loader does with a tensor of type \<open>ty\<close> whose extent does not wrap.\<close>

lemma load_tensor_cases:
  assumes h: "half_contract h" and ty: "ti_ggml_type info = ggml_type_id ty"
    and f: "extent_fits (type_block_elems ty) (type_block_bytes ty) info mmap base"
  shows "(\<exists>t. load_tensor_by_type h info mmap base = Ok t \<and> formula_tensor ty info mmap base t \<and>
        in_file (type_block_elems ty) (type_block_bytes ty) info mmap base \<and> ty \<noteq> Q5_K) \<or>
    (\<exists>e. load_tensor_by_type h info mmap base = Err e) \<and>
      (in_file (type_block_elems ty) (type_block_bytes ty) info mmap base \<longrightarrow> ty = Q4_K \<or> ty = Q5_K)"
proof (cases ty)
  case F32
  with ty have l: "load_tensor_by_type h info mmap base = load_plain 4 ''F32'' chunks_f32 info mmap base"
    by (simp add: load_tensor_by_type_def)
  have c: "length (chunks_f32 bs) = n" if "length bs = 4 * n" for bs n
    using chunks_f32_nth [OF that] by simp
  from F32 f have f': "extent_fits 1 4 info mmap base" by simp
  show ?thesis using load_plain_result [OF f' _ c, where T = "''F32''"] load_f32_formula [OF f'] F32
    by (cases "in_file 1 4 info mmap base") (simp_all add: l)
next
  case F16
  with ty have l: "load_tensor_by_type h info mmap base = load_plain 2 ''F16'' (chunks_f16 h) info mmap base"
    by (simp add: load_tensor_by_type_def)
  have c: "length (chunks_f16 h bs) = n" if "length bs = 2 * n" for bs n
    using chunks_f16_nth [OF that] by simp
  from F16 f have f': "extent_fits 1 2 info mmap base" by simp
  show ?thesis using load_plain_result [OF f' _ c, where T = "''F16''"] load_f16_formula [OF h f'] F16
    by (cases "in_file 1 2 info mmap base") (simp_all add: l)
next
  case Q4_0
  with ty have l: "load_tensor_by_type h info mmap base = dequantize_q4_0 h info mmap base"
    by (simp add: load_tensor_by_type_def)
  from Q4_0 f have f': "extent_fits 32 18 info mmap base" by simp
  show ?thesis using dequantize_q4_0_result [OF f', of h] Q4_0
    by (cases "in_file 32 18 info mmap base")
      (auto simp: l dequant_q4_0_eq [OF h] intro!: blocks_formula)
next
  case Q5_0
  with ty have l: "load_tensor_by_type h info mmap base = dequantize_q5_0 h info mmap base"
    by (simp add: load_tensor_by_type_def)
  from Q5_0 f have f': "extent_fits 32 22 info mmap base" by simp
  show ?thesis using dequantize_q5_0_result [OF f', of h] Q5_0
    by (cases "in_file 32 22 info mmap base")
      (auto simp: l dequant_q5_0_eq [OF h] intro!: blocks_formula)
next
  case Q8_0
  with ty have l: "load_tensor_by_type h info mmap base = dequantize_q8_0 h info mmap base"
    by (simp add: load_tensor_by_type_def)
  from Q8_0 f have f': "extent_fits 32 34 info mmap base" by simp
  show ?thesis using dequantize_q8_0_result [OF f', of h] Q8_0
    by (cases "in_file 32 34 info mmap base")
      (auto simp: l dequant_q8_0_eq [OF h] intro!: blocks_formula)
next
  case Q6_K
  with ty have l: "load_tensor_by_type h info mmap base = dequantize_q6_k h info mmap base"
    by (simp add: load_tensor_by_type_def)
  from Q6_K f have f': "extent_fits 256 210 info mmap base" by simp
  show ?thesis using dequantize_q6_k_result [OF f', of h] Q6_K
    by (cases "in_file 256 210 info mmap base")
      (auto simp: l dequant_q6_k_eq [OF h] intro!: blocks_formula)
next
  case Q4_K
  with ty have l: "load_tensor_by_type h info mmap base = dequantize_q4_k h info mmap base"
    by (simp add: load_tensor_by_type_def)
  from Q4_K f have f': "extent_fits 256 144 info mmap base" by simp
  have "ok_value (dequantize_q4_k_block h blk) = Some vs \<Longrightarrow> dequantize_q4_k_block h blk = Ok vs" for blk vs
    by (cases "dequantize_q4_k_block h blk") (simp_all add: ok_value_def)
  then show ?thesis using dequantize_q4_k_result [OF f', of h] Q4_K
    by (auto simp: l dequant_q4_k_eq [OF h] intro!: blocks_formula)
next
  case Q5_K
  with ty show ?thesis by (simp add: load_tensor_by_type_def Let_def)
qed

definition sample_info :: gguf_tensor_info where
  "sample_info = \<lparr>ti_name = ''blk.0.attn_q.weight'', ti_dimensions = [2], ti_ggml_type = 2, ti_offset = 1\<rparr>"

definition sample_bytes :: bytes where
  "sample_bytes = [7, 0x00, 0x3C] @ replicate 16 0x98"

lemma sample_loads:
  "\<exists>t. load_tensor_by_type f16_to_f32 sample_info sample_bytes 0 = Ok t"
  "half_contract f16_to_f32" "ti_ggml_type sample_info = ggml_type_id Q4_0"
  "extent_fits (type_block_elems Q4_0) (type_block_bytes Q4_0) sample_info sample_bytes 0"
proof -
  show h: "half_contract f16_to_f32" by (simp add: half_contract_def f16_to_f32_correct)
  show ty: "ti_ggml_type sample_info = ggml_type_id Q4_0" by (simp add: sample_info_def)
  show f: "extent_fits (type_block_elems Q4_0) (type_block_bytes Q4_0) sample_info sample_bytes 0"
    by (simp add: extent_fits_def sample_info_def sample_bytes_def u64_range_def div_ceil_def)
  have "in_file (type_block_elems Q4_0) (type_block_bytes Q4_0) sample_info sample_bytes 0"
    by (simp add: in_file_def sample_info_def sample_bytes_def div_ceil_def)
  with load_tensor_cases [OF h ty f]
  show "\<exists>t. load_tensor_by_type f16_to_f32 sample_info sample_bytes 0 = Ok t" by auto
qed

text \<open>
  C12: Every element of a tensor the loader returns is the element of the canonical formula
  registry for its block, for all GGML types: the fast block readers and the formulas of
  the observation crate compute the same numbers from the same bytes. The conversion from
  half precision is the \<open>half\<close> crate's, of which only the IEEE contract is used.
\<close>

theorem load_equals_registry:
  assumes "half_contract h" and "ti_ggml_type info = ggml_type_id ty"
    and "extent_fits (type_block_elems ty) (type_block_bytes ty) info mmap base"
    and "load_tensor_by_type h info mmap base = Ok t"
  shows "t_shape t = ti_dimensions info \<and> length (t_data t) = prod_list (ti_dimensions info) \<and>
    (\<forall>i < length (t_data t). \<exists>v.
      dequant_elem (ti_ggml_type info)
        (block_at (type_block_bytes ty) mmap (base + ti_offset info) (i div type_block_elems ty))
        (i mod type_block_elems ty) = Some (Ok v) \<and>
      same_float (t_data t ! i) v)"
  using load_tensor_cases [OF assms(1-3)] assms(2,4) by (auto simp: formula_tensor_def)

theorem load_equals_registry_witness:
  "\<exists>t v. load_tensor_by_type f16_to_f32 sample_info sample_bytes 0 = Ok t \<and> length (t_data t) = 2 \<and>
    dequant_elem 2 (take 18 (drop 1 sample_bytes)) 1 = Some (Ok v) \<and> same_float (t_data t ! 1) v"
proof -
  obtain t where t: "load_tensor_by_type f16_to_f32 sample_info sample_bytes 0 = Ok t"
    using sample_loads(1) by blast
  from load_equals_registry [OF sample_loads(2-4) t] t show ?thesis
    by (auto simp: sample_info_def block_at_def)
qed

text \<open>
  C26: The loader never panics on a tensor whose extent does not wrap; what it accepts lies
  inside the file. Six of the eight types load exactly when they lie inside the file, Q4\_K
  may also reject non-finite values, and Q5\_K is refused on every input as
  \<open>UNKNOWN_13\<close>, although the type table names it and a reader for it exists.
\<close>

theorem load_outcome:
  assumes "half_contract h" and "ti_ggml_type info = ggml_type_id ty"
    and "extent_fits (type_block_elems ty) (type_block_bytes ty) info mmap base"
  shows "load_tensor_by_type h info mmap base \<noteq> Panic \<and>
    (is_ok (load_tensor_by_type h info mmap base) \<longrightarrow>
      in_file (type_block_elems ty) (type_block_bytes ty) info mmap base) \<and>
    (ty \<noteq> Q4_K \<and> ty \<noteq> Q5_K \<longrightarrow> is_ok (load_tensor_by_type h info mmap base) =
      in_file (type_block_elems ty) (type_block_bytes ty) info mmap base) \<and>
    (ty = Q5_K \<longrightarrow> ggml_type_name (ti_ggml_type info) = Ok ''Q5_K'' \<and>
      load_tensor_by_type h info mmap base =
        Err (QuantUnsupported (ti_name info) 13 ''UNKNOWN_13''))"
proof -
  have "ggml_type_name (ti_ggml_type info) = Ok ''Q5_K'' \<and>
      load_tensor_by_type h info mmap base = Err (QuantUnsupported (ti_name info) 13 ''UNKNOWN_13'')"
    if "ty = Q5_K"
    using that assms(2)
    by (simp add: load_tensor_by_type_def ggml_type_name_def from_u32_def dec.simps char_of_def bit_0)
  with load_tensor_cases [OF assms] show ?thesis by (elim disjE exE conjE) auto
qed

theorem load_outcome_witness:
  "is_ok (load_tensor_by_type f16_to_f32 sample_info sample_bytes 0) \<and>
   \<not> is_ok (load_tensor_by_type f16_to_f32 sample_info (take 18 sample_bytes) 0)"
proof -
  have f: "extent_fits (type_block_elems Q4_0) (type_block_bytes Q4_0) sample_info (take 18 sample_bytes) 0"
    by (simp add: extent_fits_def sample_info_def sample_bytes_def u64_range_def div_ceil_def)
  from load_outcome [OF sample_loads(2,3,4)] load_outcome [OF sample_loads(2,3) f] show ?thesis
    by (simp add: in_file_def sample_info_def sample_bytes_def div_ceil_def)
qed

section \<open>Loading all weights\<close>

lemma load_fold:
  assumes "fold_res (load_step h n mmap base) infos m0 = Ok m"
  shows "case find (\<lambda>i. create_weight_mapping n (ti_name i) = Some w) (rev infos) of
      None \<Rightarrow> m w = m0 w
    | Some info \<Rightarrow> \<exists>t. m w = Some t \<and> load_tensor_by_type h info mmap base = Ok t"
  using assms
proof (induction infos arbitrary: m rule: rev_induct)
  case (snoc x infos)
  then obtain m1 where m1: "fold_res (load_step h n mmap base) infos m0 = Ok m1"
    and x: "load_step h n mmap base x m1 = Ok m"
    by (auto simp: fold_res_append fold_res_single)
  from snoc.IH [OF m1] x show ?case
    by (auto simp: load_step_def insert_weight_def split: option.splits if_splits)
qed simp

lemma validate_iff:
  "(validate_required_weights m n = Ok u) = (\<forall>w\<in>set (get_required_weights n). m w \<noteq> None)"
  by (auto simp: validate_required_weights_def)

lemma find_mapping:
  "w \<in> set (get_required_weights n) \<Longrightarrow>
   find (\<lambda>i. create_weight_mapping n (ti_name i) = Some w) infos = find (\<lambda>i. ti_name i = gguf_name w) infos"
  by (rule find_cong) (auto dest: mapping_name simp: required_name)

text \<open>
  C20: A model that loads holds every required weight, each read from the last manifest entry
  that bears the weight's GGUF name; only a missing output projection is replaced, by the
  token embedding.
\<close>

theorem load_weights_correct:
  assumes "load_weights h infos mmap base n_layer = Ok m" and "w \<in> set (get_required_weights n_layer)"
  shows "\<exists>info t. m w = Some t \<and> load_tensor_by_type h info mmap base = Ok t \<and>
    (find (\<lambda>i. ti_name i = gguf_name w) (rev infos) = Some info \<or>
     w = OutputProj \<and> find (\<lambda>i. ti_name i = gguf_name OutputProj) (rev infos) = None \<and>
       find (\<lambda>i. ti_name i = gguf_name TokenEmbed) (rev infos) = Some info)"
proof -
  from assms(1) obtain m1 where m1: "fold_res (load_step h n_layer mmap base) infos Map.empty = Ok m1"
    and m: "m = tie_embeddings m1" and v: "m w \<noteq> None"
    using assms(2) by (auto simp: load_weights_def load_required_weights_def validate_iff)
  have at: "case find (\<lambda>i. ti_name i = gguf_name w') (rev infos) of None \<Rightarrow> m1 w' = None
      | Some info \<Rightarrow> \<exists>t. m1 w' = Some t \<and> load_tensor_by_type h info mmap base = Ok t"
    if "w' \<in> set (get_required_weights n_layer)" for w'
    using load_fold [OF m1, of w'] unfolding find_mapping [OF that] by simp
  have top: "OutputProj \<in> set (get_required_weights n_layer)" "TokenEmbed \<in> set (get_required_weights n_layer)"
    by (simp_all add: get_required_weights_def all_for_layers_def)
  show ?thesis
  proof (cases "m1 w")
    case (Some t)
    then have "m w = Some t" by (auto simp: m tie_embeddings_def insert_weight_def split: option.splits)
    with Some at [OF assms(2)] show ?thesis by (auto split: option.splits)
  next
    case None
    with v obtain e where w: "w = OutputProj" and e: "m1 TokenEmbed = Some e" "m w = Some e"
      by (auto simp: m tie_embeddings_def insert_weight_def split: option.splits if_splits)
    with None at [OF top(1)] at [OF top(2)] show ?thesis by (auto split: option.splits)
  qed
qed

definition tied_infos :: "gguf_tensor_info list" where
  "tied_infos =
    [\<lparr>ti_name = ''token_embd.weight'', ti_dimensions = [1], ti_ggml_type = 0, ti_offset = 0\<rparr>,
     \<lparr>ti_name = ''rope_freqs.weight'', ti_dimensions = [1], ti_ggml_type = 99, ti_offset = 0\<rparr>,
     \<lparr>ti_name = ''output_norm.weight'', ti_dimensions = [1], ti_ggml_type = 0, ti_offset = 4\<rparr>]"

lemma tied_loads:
  "load_weights f16_to_f32 tied_infos [1, 0, 0, 0, 2, 0, 0, 0] 0 0 =
   Ok [TokenEmbed \<mapsto> \<lparr>t_data = [1], t_shape = [1]\<rparr>, OutputNorm \<mapsto> \<lparr>t_data = [2], t_shape = [1]\<rparr>,
       OutputProj \<mapsto> \<lparr>t_data = [1], t_shape = [1]\<rparr>]"
  by (simp add: load_weights_def load_required_weights_def tied_infos_def load_step_def
      create_weight_mapping_def weight_inserts_def load_tensor_by_type_def load_plain_def usize_product_def
      checked_mul_def ok_or_def wadd_def wmul_def u64_range_def slice_def tensor_new_def le32_def
      tie_embeddings_def insert_weight_def validate_required_weights_def get_required_weights_def
      all_for_layers_def Let_def)

theorem load_weights_correct_witness:
  "\<exists>t. load_tensor_by_type f16_to_f32 (hd tied_infos) [1, 0, 0, 0, 2, 0, 0, 0] 0 = Ok t \<and> t_data t = [1]"
proof -
  have "OutputProj \<in> set (get_required_weights 0)"
    by (simp add: get_required_weights_def all_for_layers_def)
  from load_weights_correct [OF tied_loads this] show ?thesis
    by (simp add: tied_infos_def gguf_name_def)
qed

end
