(* ===== verification/Float_Order.thy ===== *)
theory Float_Order
  imports Float_Div
begin

text \<open>
  The order of \<open>f32\<close> and what rounding does to it: the comparisons are those of the reals,
  and sums, products and quotients of non-negative floats stay below every float that
  bounds the exact result.
\<close>

text \<open>\<open>a <= b\<close>, false when either is NaN.\<close>

definition f32_le :: "f32 \<Rightarrow> f32 \<Rightarrow> bool" where
  "f32_le a b = (f32_lt a b \<or> f32_eq a b)"

text \<open>A finite float whose sign bit is clear.\<close>

definition f32_nonneg :: "f32 \<Rightarrow> bool" where
  "f32_nonneg x = (case decode x of FFin s _ _ \<Rightarrow> \<not> s | _ \<Rightarrow> False)"

section \<open>Comparisons\<close>

lemma finite_not_nan: "f32_is_finite x \<Longrightarrow> \<not> f32_is_nan x"
  by (auto simp: f32_is_finite_def f32_is_nan_def)

lemma lt_real:
  assumes "f32_is_finite a" and "f32_is_finite b"
  shows "f32_lt a b = (f32_real a < f32_real b)"
proof -
  obtain s m e where a: "decode a = FFin s m e" "f32_real a = of_int (sgn_val s) * real m * 2 powi e"
    using assms(1) by (rule f32_finite_cases)
  obtain t n f where b: "decode b = FFin t n f" "f32_real b = of_int (sgn_val t) * real n * 2 powi f"
    using assms(2) by (rule f32_finite_cases)
  define e0 where "e0 = min e f"
  have "f32_real a = of_int (scaled s m e e0) * 2 powi e0" "f32_real b = of_int (scaled t n f e0) * 2 powi e0"
    using scaled_real [of e0 e s m] scaled_real [of e0 f t n] by (simp_all add: a b e0_def)
  moreover have "0 < (2 :: real) powi e0" by simp
  ultimately have "(f32_real a < f32_real b) = (scaled s m e e0 < scaled t n f e0)"
    by (simp only: mult_less_cancel_right_pos of_int_less_iff)
  then show ?thesis by (simp add: f32_lt_def a b e0_def Let_def)
qed

lemma le_real:
  assumes "f32_is_finite a" and "f32_is_finite b"
  shows "f32_le a b = (f32_real a \<le> f32_real b)"
  using finite_not_nan [OF assms(1)] finite_not_nan [OF assms(2)]
  by (auto simp: f32_le_def f32_eq_def lt_real [OF assms] lt_real [OF assms(2,1)])

section \<open>Non-negative floats\<close>

lemma nonneg_finite: "f32_nonneg x \<Longrightarrow> f32_is_finite x"
  by (auto simp: f32_nonneg_def f32_is_finite_def split: fdec.splits)

lemma decode_exp: "decode x = FFin s m e \<Longrightarrow> -149 \<le> e \<and> e \<le> 104"
proof -
  have "unat x div 2 ^ 23 mod 256 < 256" by simp
  then show "decode x = FFin s m e \<Longrightarrow> -149 \<le> e \<and> e \<le> 104"
    by (auto simp: decode_def Let_def split: if_splits)
qed

lemma nonnegE:
  assumes "f32_nonneg x"
  obtains m e where "decode x = FFin False m e" and "f32_real x = real m * 2 powi e"
    and "m < 2 ^ 24" and "-149 \<le> e" and "e \<le> 104"
proof -
  obtain m e where d: "decode x = FFin False m e"
    using assms by (auto simp: f32_nonneg_def split: fdec.splits)
  with decode_mant [OF d] decode_exp [OF d] show thesis by (intro that) (auto simp: f32_real_def sgn_val_def)
qed

lemma nonneg_real: "f32_nonneg x \<Longrightarrow> 0 \<le> f32_real x"
  by (elim nonnegE) simp

lemma nonneg_less_overflow: "f32_nonneg x \<Longrightarrow> f32_real x < 2 ^ 128"
proof (elim nonnegE)
  fix m e
  assume x: "f32_real x = real m * 2 powi e" and m: "m < 2 ^ 24" and e: "e \<le> 104"
  have "real m < 2 ^ 24" using m by (metis of_nat_less_iff of_nat_numeral of_nat_power)
  moreover have "(2 :: real) powi e \<le> 2 powi 104" by (rule powi_mono [OF e])
  ultimately have "real m * 2 powi e < 2 ^ 24 * 2 powi 104" by (intro mult_less_le_imp_less) auto
  then show "f32_real x < 2 ^ 128" by (simp add: x)
qed

lemma nonneg_zero [simp]: "f32_nonneg 0" "f32_real 0 = 0"
  by (simp_all add: f32_nonneg_def f32_real_def decode_def)

lemma nonneg_one [simp]: "f32_nonneg f32_one" "f32_real f32_one = 1"
  by (simp_all add: f32_nonneg_def f32_real_def decode_one sgn_val_def power_int_minus)

lemma nonneg_of_nat: "n < 2 ^ 24 \<Longrightarrow> f32_nonneg (f32_of_int (int n)) \<and> f32_real (f32_of_int (int n)) = real n"
proof -
  assume "n < 2 ^ 24"
  then have n: "\<bar>int n\<bar> < 2 ^ 24" by simp
  obtain s m e where d: "decode (f32_of_int (int n)) = FFin s m e"
    "of_int (sgn_val s) * real m * 2 powi e = real_of_int (int n)" "int n = 0 \<Longrightarrow> \<not> s"
    by (rule f32_of_int_decode [OF n]) (rule that; assumption)
  have "\<not> s"
  proof
    assume s
    then have "real_of_int (int n) \<le> 0" unfolding d(2) [symmetric] by (simp add: sgn_val_def)
    then show False using d(3) \<open>s\<close> by simp
  qed
  then show ?thesis using f32_of_int_exact(2) [OF n] by (simp add: f32_nonneg_def d)
qed

section \<open>Rounding stays below a float bound\<close>

lemma round_grid:
  assumes y: "f32_nonneg y" and m: "0 < m" and le: "real m * 2 powi e \<le> f32_real y"
  shows "real (round_mant m e) * 2 powi ulp_exp m e \<le> f32_real y"
proof -
  obtain n f where n: "f32_real y = real n * 2 powi f" "n < 2 ^ 24" "-149 \<le> f"
    using y by (rule nonnegE)
  have qf: "ulp_exp m e \<le> f"
  proof (rule ccontr)
    assume not: "\<not> ulp_exp m e \<le> f"
    then have q: "ulp_exp m e = e + int (nbits m) - 24" using n(3) by (auto simp: ulp_exp_def)
    have p: "0 < nbits m" using m by (simp add: nbits.simps [of m])
    have "real n < 2 ^ 24" using n(2) by (metis of_nat_less_iff of_nat_numeral of_nat_power)
    then have "f32_real y < 2 ^ 24 * 2 powi f" by (simp add: n(1))
    also have "\<dots> = 2 powi (f + 24)" by (simp add: power_int_add)
    also have "\<dots> \<le> 2 powi (e + int (nbits m) - 1)" using not q by (intro powi_mono) simp
    also have "\<dots> = 2 ^ (nbits m - 1) * 2 powi e"
      using p by (simp add: power_int_add [symmetric] algebra_simps of_nat_diff flip: power_int_of_nat)
    also have "\<dots> \<le> real m * 2 powi e"
    proof (rule mult_right_mono)
      show "2 ^ (nbits m - 1) \<le> real m"
        using nbits_bounds [OF m] by (metis of_nat_le_iff of_nat_numeral of_nat_power)
    qed simp
    finally show False using le by simp
  qed
  have g: "f32_real y = real (n * 2 ^ nat (f - ulp_exp m e)) * 2 powi ulp_exp m e"
    unfolding n(1) powi_grid [OF qf] by simp
  show ?thesis unfolding g
    by (rule mult_grid_ge [OF round_error]) (use le g in simp_all)
qed

lemma nonneg_round_bits:
  assumes m: "0 < m" and b: "nat (ulp_exp m e + 149) * 2 ^ 23 + round_mant m e < inf_bits"
  shows "f32_nonneg (round_bits False m e)"
proof -
  have "round_bits False m e = word_of_nat ((if False then 2 ^ 31 else 0) + (nat (ulp_exp m e + 149) * 2 ^ 23 + round_mant m e))"
    using m b by (simp add: round_bits_def round_mag_def)
  then show ?thesis using decode_mag [OF b, of False] by (simp only: f32_nonneg_def) simp
qed

lemma round_le:
  assumes y: "f32_nonneg y" and le: "real m * 2 powi e \<le> f32_real y"
  shows "f32_nonneg (round_bits False m e) \<and> f32_real (round_bits False m e) \<le> f32_real y"
proof (cases "m = 0")
  case True
  then have "round_bits False m e = 0" by (simp add: round_bits_def round_mag_def)
  then show ?thesis using nonneg_real [OF y] by simp
next
  case False
  then have m: "0 < m" by simp
  note g = round_grid [OF y m le]
  have b: "nat (ulp_exp m e + 149) * 2 ^ 23 + round_mant m e < inf_bits"
    using round_overflow [OF m, of e] g nonneg_less_overflow [OF y] by linarith
  show ?thesis using nonneg_round_bits [OF m b] round_bits_real(2) [OF m b, of False] g by (simp add: sgn_val_def)
qed

text \<open>Rounding does not go below a float that bounds the exact value from below.\<close>

lemma round_ge:
  assumes y: "f32_nonneg y" and m: "0 < m" and le: "f32_real y \<le> real m * 2 powi e"
    and b: "nat (ulp_exp m e + 149) * 2 ^ 23 + round_mant m e < inf_bits"
  shows "f32_real y \<le> f32_real (round_bits False m e)"
proof -
  let ?q = "ulp_exp m e"
  obtain n f where n: "f32_real y = real n * 2 powi f" "n < 2 ^ 24" "-149 \<le> f"
    using y by (rule nonnegE)
  have "f32_real y \<le> real (round_mant m e) * 2 powi ?q"
  proof (cases "?q \<le> f")
    case True
    have g: "f32_real y = real (n * 2 ^ nat (f - ?q)) * 2 powi ?q" unfolding n(1) powi_grid [OF True] by simp
    show ?thesis unfolding g by (rule mult_grid_le [OF round_error]) (use le g in simp_all)
  next
    case False
    then have "2 ^ 23 \<le> round_mant m e" using round_mant_range(2) [OF m, of e] n(3) by linarith
    then have M: "(2 :: real) ^ 23 \<le> real (round_mant m e)" by (metis of_nat_le_iff of_nat_numeral of_nat_power)
    have "real n \<le> 2 ^ 24" using n(2) by (metis less_imp_le of_nat_le_iff of_nat_numeral of_nat_power)
    then have "f32_real y \<le> 2 ^ 24 * 2 powi f" unfolding n(1) by (intro mult_right_mono) auto
    also have "\<dots> = 2 powi (f + 24)" by (simp add: power_int_add)
    also have "\<dots> \<le> 2 powi (23 + ?q)" using False by (intro powi_mono) simp
    also have "\<dots> = 2 ^ 23 * 2 powi ?q" by (simp add: power_int_add)
    also have "\<dots> \<le> real (round_mant m e) * 2 powi ?q" using M by (intro mult_right_mono) auto
    finally show ?thesis .
  qed
  then show ?thesis using round_bits_real(2) [OF m b, of False] by (simp add: sgn_val_def)
qed

lemma f32_add_le:
  assumes "f32_nonneg a" and "f32_nonneg b" and y: "f32_nonneg y" and le: "f32_real a + f32_real b \<le> f32_real y"
  shows "f32_nonneg (f32_add a b) \<and> f32_real (f32_add a b) \<le> f32_real y"
proof -
  obtain m e where a: "decode a = FFin False m e" "f32_real a = real m * 2 powi e" using assms(1) by (rule nonnegE)
  obtain n f where b: "decode b = FFin False n f" "f32_real b = real n * 2 powi f" using assms(2) by (rule nonnegE)
  define e0 where "e0 = min e f"
  define z where "z = scaled False m e e0 + scaled False n f e0"
  have z0: "0 \<le> z" by (simp add: z_def scaled_def sgn_val_def)
  have "f32_real a + f32_real b = of_int z * 2 powi e0"
    unfolding a b z_def using scaled_real [of e0 e False m] scaled_real [of e0 f False n]
    by (simp add: e0_def distrib_right sgn_val_def)
  then have "real (nat \<bar>z\<bar>) * 2 powi e0 \<le> f32_real y" using le z0 by simp
  then have r: "f32_nonneg (round_bits False (nat \<bar>z\<bar>) e0) \<and> f32_real (round_bits False (nat \<bar>z\<bar>) e0) \<le> f32_real y"
    by (rule round_le [OF y])
  have "f32_add a b = (if z = 0 then round_bits False 0 0 else round_bits (z < 0) (nat \<bar>z\<bar>) e0)"
    by (simp add: f32_add_def a b e0_def z_def Let_def)
  moreover have "round_bits False 0 0 = 0" by (simp add: round_bits_def round_mag_def)
  ultimately show ?thesis using r z0 nonneg_real [OF y] by auto
qed

text \<open>A sum of non-negative floats that is bounded by a float is at least each of them.\<close>

lemma f32_add_ge:
  assumes "f32_nonneg a" and "f32_nonneg b" and y: "f32_nonneg y" and le: "f32_real a + f32_real b \<le> f32_real y"
  shows "f32_real a \<le> f32_real (f32_add a b)"
proof -
  obtain m e where a: "decode a = FFin False m e" "f32_real a = real m * 2 powi e" using assms(1) by (rule nonnegE)
  obtain n f where b: "decode b = FFin False n f" "f32_real b = real n * 2 powi f" using assms(2) by (rule nonnegE)
  define e0 where "e0 = min e f"
  define z where "z = scaled False m e e0 + scaled False n f e0"
  have z0: "0 \<le> z" by (simp add: z_def scaled_def sgn_val_def)
  have v: "f32_real a + f32_real b = of_int z * 2 powi e0"
    unfolding a b z_def using scaled_real [of e0 e False m] scaled_real [of e0 f False n]
    by (simp add: e0_def distrib_right sgn_val_def)
  have r: "f32_add a b = (if z = 0 then round_bits False 0 0 else round_bits (z < 0) (nat \<bar>z\<bar>) e0)"
    by (simp add: f32_add_def a b e0_def z_def Let_def)
  show ?thesis
  proof (cases "z = 0")
    case True
    then show ?thesis using v nonneg_real [OF assms(1)] nonneg_real [OF assms(2)]
      by (simp add: r round_bits_def round_mag_def)
  next
    case False
    then have m: "0 < nat \<bar>z\<bar>" by simp
    have w: "real (nat \<bar>z\<bar>) * 2 powi e0 = f32_real a + f32_real b" using v z0 by simp
    then have "real (nat \<bar>z\<bar>) * 2 powi e0 \<le> f32_real y" using le by simp
    from round_grid [OF y m this] round_overflow [OF m, of e0] nonneg_less_overflow [OF y]
    have ov: "nat (ulp_exp (nat \<bar>z\<bar>) e0 + 149) * 2 ^ 23 + round_mant (nat \<bar>z\<bar>) e0 < inf_bits" by linarith
    have "f32_real a \<le> real (nat \<bar>z\<bar>) * 2 powi e0" using w nonneg_real [OF assms(2)] by simp
    from round_ge [OF assms(1) m this ov] False z0 show ?thesis by (simp add: r)
  qed
qed

lemma f32_mul_le:
  assumes "f32_nonneg a" and "f32_nonneg b" and y: "f32_nonneg y" and le: "f32_real a * f32_real b \<le> f32_real y"
  shows "f32_nonneg (f32_mul a b) \<and> f32_real (f32_mul a b) \<le> f32_real y"
proof -
  obtain m e where a: "decode a = FFin False m e" "f32_real a = real m * 2 powi e" using assms(1) by (rule nonnegE)
  obtain n f where b: "decode b = FFin False n f" "f32_real b = real n * 2 powi f" using assms(2) by (rule nonnegE)
  have "real (m * n) * 2 powi (e + f) \<le> f32_real y" using le by (simp add: a b power_int_add mult_ac)
  from round_le [OF y this] show ?thesis by (simp add: f32_mul_def a b)
qed

lemma f32_add_comm:
  assumes "f32_nonneg a" and "f32_nonneg b"
  shows "f32_add a b = f32_add b a"
proof -
  obtain m e where a: "decode a = FFin False m e" using assms(1) by (rule nonnegE)
  obtain n f where b: "decode b = FFin False n f" using assms(2) by (rule nonnegE)
  have "scaled False n f (min f e) + scaled False m e (min f e) = scaled False m e (min e f) + scaled False n f (min e f)"
    by (simp add: min.commute)
  then show ?thesis by (simp only: f32_add_def a b prod.case fdec.case Let_def min.commute [of f e])
qed

text \<open>Adding a zero changes nothing.\<close>

lemma f32_add_zero:
  assumes "f32_nonneg a" and "f32_nonneg z" and "f32_real z = 0"
  shows "f32_nonneg (f32_add a z) \<and> f32_real (f32_add a z) = f32_real a"
proof -
  obtain m e where a: "f32_real a = real m * 2 powi e" "m < 2 ^ 24" "-149 \<le> e" using assms(1) by (rule nonnegE)
  have "representable (f32_real a + f32_real z)"
    unfolding representable_def
    using a assms(3) nonneg_real [OF assms(1)] nonneg_less_overflow [OF assms(1)]
    by (intro exI [of _ m] exI [of _ e]) simp
  from f32_add_exact(2) [OF nonneg_finite [OF assms(1)] nonneg_finite [OF assms(2)] this]
  show ?thesis using f32_add_le [OF assms(1,2,1)] assms(3) by simp
qed

section \<open>Quotients\<close>

lemma f32_div_zero:
  assumes "f32_nonneg a" and "f32_real a = 0" and "f32_nonneg b" and "0 < f32_real b"
  shows "f32_div a b = 0"
proof -
  obtain m e where a: "decode a = FFin False m e" "f32_real a = real m * 2 powi e" using assms(1) by (rule nonnegE)
  obtain n f where b: "decode b = FFin False n f" "f32_real b = real n * 2 powi f" using assms(3) by (rule nonnegE)
  have "m = 0" "n \<noteq> 0" using a b assms(2,4) by (auto intro: Nat.gr0I)
  then show ?thesis by (simp add: f32_div_def a b Let_def round_bits_def round_mag_def)
qed

lemma f32_div_le_one:
  assumes "f32_nonneg a" and "f32_nonneg b" and pos: "0 < f32_real b" and le: "f32_real a \<le> f32_real b"
  shows "f32_nonneg (f32_div a b) \<and> f32_real (f32_div a b) \<le> 1"
proof (cases "f32_real a = 0")
  case True
  then show ?thesis using f32_div_zero [OF assms(1) _ assms(2,3)] by simp
next
  case False
  obtain m e where a: "decode a = FFin False m e" "f32_real a = real m * 2 powi e" using assms(1) by (rule nonnegE)
  obtain n f where b: "decode b = FFin False n f" "f32_real b = real n * 2 powi f" "n < 2 ^ 24" using assms(2) by (rule nonnegE)
  have n: "0 < n" using b pos by (cases n) auto
  have m: "0 < m" using a False by (cases m) auto
  define w where "w = m * 2 ^ 80"
  define q where "q = w div n"
  define rest where "rest = (if w mod n = 0 then 0 else 1 :: nat)"
  define j where "j = e - f - 80"
  define u where "u = (2 :: real) powi j"
  have u: "0 < u" by (simp add: u_def)
  define y where "y = real w / real n * u"
  have wu: "real w * u = real m * 2 powi (e - f)"
    using powi_grid [of j "e - f"] by (simp add: u_def j_def w_def)
  have y: "y \<le> 1"
  proof -
    have "real m * 2 powi (e - f) \<le> real n"
      using le by (simp add: a b power_int_diff divide_le_eq)
    then show ?thesis using n by (simp add: y_def wu divide_le_eq)
  qed
  have jn: "j \<le> 0"
  proof (rule ccontr)
    assume "\<not> j \<le> 0"
    then have "(2 :: real) powi 24 \<le> 2 powi (e - f)" by (intro powi_mono) (simp add: j_def)
    moreover have "1 * (2 :: real) powi (e - f) \<le> real m * 2 powi (e - f)" using m by (intro mult_right_mono) auto
    moreover have "real m * 2 powi (e - f) \<le> real n" using y n by (simp add: y_def wu divide_le_eq)
    moreover have "real n < 2 ^ 24" using b(3) by (metis of_nat_less_iff of_nat_numeral of_nat_power)
    moreover have "(2 :: real) powi 24 = 2 ^ 24" by simp
    ultimately show False by linarith
  qed
  have qn: "q * n \<le> w" "w < (q + 1) * n" "(rest = 0) = (q * n = w)"
  proof -
    have e: "w = q * n + w mod n" and r: "w mod n < n" using n by (simp_all add: q_def)
    show "q * n \<le> w" using e by linarith
    show "w < (q + 1) * n" using e r by (simp add: algebra_simps) 
    show "(rest = 0) = (q * n = w)" using e by (simp add: rest_def)
  qed
  have "real (q * n) \<le> real w" using qn(1) by (simp only: of_nat_le_iff)
  then have lo: "real q * u \<le> y" using u n by (simp add: y_def field_simps)
  have "real w < real ((q + 1) * n)" using qn(2) by (simp only: of_nat_less_iff)
  then have "real w / real n < real q + 1" using n by (simp add: divide_less_eq algebra_simps)
  then have hi: "y < (real q + 1) * u" unfolding y_def using u by (rule mult_strict_right_mono)
  have "(rest = 0) = (real (q * n) = real w)" using qn(3) by (simp only: of_nat_eq_iff)
  then have ex: "(rest = 0) = (real q * u = y)" using u n by (simp add: y_def field_simps)
  have g0: "1 = real (2 ^ nat (- j)) * u" using powi_grid [OF jn] by (simp add: u_def)
  have val: "real (2 * q + rest) * 2 powi (j - 1) = real (2 * q + rest) * (u / 2)"
    by (simp add: u_def power_int_diff)
  have "real (2 * q + rest) * 2 powi (j - 1) \<le> f32_real f32_one"
    using sticky_le(2) [OF lo hi ex _ u, of "2 ^ nat (- j)"] y by (simp only: val g0 [symmetric]) (simp add: rest_def)
  from round_le [OF nonneg_one(1) this] 
  show ?thesis using n by (simp add: f32_div_def a b Let_def w_def q_def rest_def j_def)
qed

section \<open>Differences\<close>

lemma decode_neg:
  "decode (f32_neg x) = (case decode x of FNan \<Rightarrow> FNan | FInf s \<Rightarrow> FInf (\<not> s) | FFin s m e \<Rightarrow> FFin (\<not> s) m e)"
proof -
  define n where "n = unat x"
  have n: "n < 2 ^ 32" unfolding n_def using unsigned_less [of x, where ?'a = nat] by simp
  have u: "unat (f32_neg x) = (n + 2 ^ 31) mod 2 ^ 32" unfolding f32_neg_def n_def by (simp add: unat_word_ariths)
  define k where "k = (if n < 2 ^ 31 then n else n - 2 ^ 31)"
  have k: "n = (if n < 2 ^ 31 then k else k + 2 ^ 31)" "k < 2 ^ 31" using n by (auto simp: k_def)
  have u': "unat (f32_neg x) = (if n < 2 ^ 31 then k + 2 ^ 31 else k)"
  proof (cases "n < 2 ^ 31")
    case False
    then have "(n + 2 ^ 31) mod 2 ^ 32 = (n - 2 ^ 31) mod (2 ^ 32 :: nat)" using n by (subst le_mod_geq) simp_all
    then show ?thesis using False n u by (simp add: k_def)
  qed (use u k_def in simp)
  have s: "(2 ^ 31 \<le> unat (f32_neg x)) = (\<not> 2 ^ 31 \<le> n)" using u' k(2) by auto
  have p: "k + 2 ^ 31 = k + 256 * (2 ^ 23 :: nat)" by simp
  have "(k + 2 ^ 31) div 2 ^ 23 = 256 + k div (2 ^ 23 :: nat)" unfolding p by (rule div_mult_self1) simp
  then have h: "(k + 2 ^ 31) div 2 ^ 23 mod 256 = k div 2 ^ 23 mod (256 :: nat)" by simp
  have h': "(k + 2 ^ 31) mod 2 ^ 23 = k mod (2 ^ 23 :: nat)" unfolding p by (rule mod_mult_self1)
  have f: "unat (f32_neg x) div 2 ^ 23 mod 256 = n div 2 ^ 23 mod 256" "unat (f32_neg x) mod 2 ^ 23 = n mod 2 ^ 23"
    by (cases "n < 2 ^ 31"; use h h' k(1) u' in presburger)+
  show ?thesis unfolding decode_def Let_def s f by (simp add: n_def)
qed

lemma round_bits_negative: "\<not> f32_is_nan (round_bits True m e) \<and> \<not> f32_lt 0 (round_bits True m e)"
proof -
  have z: "decode (0 :: f32) = FFin False 0 (-149)" by (simp add: decode_def)
  have "round_mag m e \<le> inf_bits" by (simp add: round_mag_def)
  then consider "round_mag m e < inf_bits" | "round_mag m e = inf_bits" by linarith
  then show ?thesis
  proof cases
    case 1
    from decode_mag [OF 1, of True] have "\<exists>m' e'. decode (round_bits True m e) = FFin True m' e'"
      by (simp add: round_bits_def)
    moreover have "\<not> int m' * 2 ^ k < 0" for m' k by (simp add: not_less)
    ultimately show ?thesis by (auto simp: f32_is_nan_def f32_lt_def z scaled_def sgn_val_def Let_def)
  next
    case 2
    then have "decode (round_bits True m e) = FInf True" by (simp add: round_bits_def inf_bits_def decode_def)
    then show ?thesis by (simp add: f32_is_nan_def f32_lt_def z)
  qed
qed

lemma f32_sub_le:
  assumes "f32_is_finite a" and "f32_is_finite b" and le: "f32_real a \<le> f32_real b"
  shows "\<not> f32_is_nan (f32_sub a b) \<and> \<not> f32_lt 0 (f32_sub a b)"
proof -
  obtain s m e where a: "decode a = FFin s m e" "f32_real a = of_int (sgn_val s) * real m * 2 powi e"
    using assms(1) by (rule f32_finite_cases)
  obtain t n f where b: "decode b = FFin t n f" "f32_real b = of_int (sgn_val t) * real n * 2 powi f"
    using assms(2) by (rule f32_finite_cases)
  define e0 where "e0 = min e f"
  define z where "z = scaled s m e e0 + scaled (\<not> t) n f e0"
  have "of_int z * 2 powi e0 = f32_real a - f32_real b"
    unfolding a b z_def using scaled_real [of e0 e s m] scaled_real [of e0 f "\<not> t" n]
    by (simp add: e0_def distrib_right sgn_val_def)
  then have "of_int z * (2 :: real) powi e0 \<le> 0" using le by simp
  moreover have "0 < (2 :: real) powi e0" by simp
  ultimately have "real_of_int z \<le> 0" by (metis mult_pos_pos not_le)
  then have z: "z \<le> 0" by simp
  have r: "f32_sub a b = (if z = 0 then round_bits (s \<and> \<not> t) 0 0 else round_bits (z < 0) (nat \<bar>z\<bar>) e0)"
    by (simp add: f32_sub_def f32_add_def decode_neg a b e0_def z_def Let_def)
  show ?thesis
  proof (cases "z = 0")
    case True
    have "decode (round_bits False 0 0) = FFin False 0 (-149)" by (simp add: round_bits_def round_mag_def decode_def)
    then have "\<not> f32_is_nan (round_bits False 0 0) \<and> \<not> f32_lt 0 (round_bits False 0 0)"
      by (simp add: f32_is_nan_def f32_lt_def decode_def scaled_def Let_def)
    with True round_bits_negative [of 0 0] show ?thesis by (cases "s \<and> \<not> t") (simp_all only: r if_True refl simp_thms)
  next
    case False
    with z round_bits_negative show ?thesis by (simp add: r)
  qed
qed

lemma f32_sub_self:
  assumes "f32_is_finite a"
  shows "\<exists>s e. decode (f32_sub a a) = FFin s 0 e"
proof -
  obtain s m e where a: "decode a = FFin s m e" using assms by (rule f32_finite_cases)
  have "f32_sub a a = round_bits False 0 0"
    by (cases s) (simp_all add: f32_sub_def f32_add_def decode_neg a scaled_def sgn_val_def Let_def)
  moreover have "decode (round_bits False 0 0) = FFin False 0 (-149)" by (simp add: round_bits_def round_mag_def decode_def)
  ultimately show ?thesis by auto
qed

lemma decode_neg_infinity: "decode f32_neg_infinity = FInf True"
  by (simp add: f32_neg_infinity_def decode_def)

lemma f32_sub_neg_infinity:
  assumes "f32_is_finite a"
  shows "f32_sub f32_neg_infinity a = f32_neg_infinity"
proof -
  obtain s m e where a: "decode a = FFin s m e" using assms by (rule f32_finite_cases)
  then show ?thesis
    by (simp add: f32_sub_def f32_add_def decode_neg decode_neg_infinity f32_inf_def inf_bits_def)
      (simp add: f32_neg_infinity_def)
qed

section \<open>Neutral elements\<close>

text \<open>A float is what rounding its own value gives.\<close>

lemma round_bits_decode:
  assumes "decode x = FFin s m e"
  shows "round_bits s m e = x"
proof -
  define n where "n = unat x"
  have n: "n < 2 ^ 32" using unsigned_less [of x, where ?'a = nat] by (simp add: n_def)
  have s: "s = (2 ^ 31 \<le> n)" using assms by (auto simp: decode_def Let_def n_def split: if_splits)
  define E f where "E = n div 2 ^ 23 mod 256" and "f = n mod 2 ^ 23"
  have f: "f < 2 ^ 23" by (simp add: f_def)
  have split: "n = (if s then 2 ^ 31 else 0) + (E * 2 ^ 23 + f)"
  proof -
    have "n div 2 ^ 23 < 512" using n by (simp add: div_less_iff_less_mult)
    moreover have "(256 \<le> n div 2 ^ 23) = (2 ^ 31 \<le> n)" by (simp add: less_eq_div_iff_mult_less_eq)
    ultimately have "n div 2 ^ 23 = E + (if s then 256 else 0)" unfolding E_def s
      by (cases "256 \<le> n div 2 ^ 23") (simp_all add: le_mod_geq)
    then show ?thesis using div_mult_mod_eq [of n "2 ^ 23"] unfolding f_def by (simp split: if_splits)
  qed
  have "round_mag m e = E * 2 ^ 23 + f"
  proof (cases "E = 0")
    case True
    then have m: "m = f" "e = -149" using assms by (auto simp: decode_def Let_def E_def f_def n_def split: if_splits)
    have "nbits f \<le> 23" using f by (rule nbits_leI)
    then have "ulp_exp m e = -149" by (simp add: m ulp_exp_def)
    then show ?thesis using True f by (simp add: m round_mag_def round_mant_def inf_bits_def)
  next
    case False
    then have m: "m = f + 2 ^ 23" "e = int E - 150" "E \<noteq> 255"
      using assms by (auto simp: decode_def Let_def E_def f_def n_def split: if_splits)
    have E: "E < 255" using m(3) by (simp add: E_def)
    have "nbits m = 24"
    proof (rule antisym)
      show "nbits m \<le> 24" using f by (intro nbits_leI) (simp add: m)
      show "24 \<le> nbits m"
      proof (rule ccontr)
        assume "\<not> 24 \<le> nbits m"
        then have "(2 :: nat) ^ nbits m \<le> 2 ^ 23" by (intro power_increasing) simp_all
        then show False using nbits_less [of m] m(1) by linarith
      qed
    qed
    then have u: "ulp_exp m e = e" using False by (simp add: m(2) ulp_exp_def)
    have "nat (e + 149) * 2 ^ 23 + m = E * 2 ^ 23 + f" using False by (cases E) (simp_all add: m)
    moreover have "E * 2 ^ 23 + f < inf_bits"
    proof -
      have "E * 2 ^ 23 \<le> 254 * 2 ^ 23" using E by simp
      then show ?thesis using f unfolding inf_bits_def by linarith
    qed
    ultimately show ?thesis unfolding round_mag_def round_mant_def Let_def u using m(1) by simp
  qed
  then have "round_bits s m e = word_of_nat n" unfolding round_bits_def split by simp
  then show ?thesis by (simp add: n_def)
qed

lemma f32_mul_one:
  assumes "f32_is_finite x"
  shows "f32_mul x f32_one = x" and "f32_mul f32_one x = x"
proof -
  obtain s m e where d: "decode x = FFin s m e" using assms by (rule f32_finite_cases)
  have "round_bits s (m * 2 ^ 23) (e + -23) = round_bits s m e"
    using powi_grid [of "e - 23" e] by (intro round_bits_value) simp
  then show "f32_mul x f32_one = x" by (simp add: f32_mul_def d decode_one round_bits_decode)
  then show "f32_mul f32_one x = x" by (simp add: f32_mul_comm)
qed

lemma f32_add_zeros:
  assumes x: "decode x = FFin False m e" "0 < m" and z: "decode z = FFin t 0 (-149)"
  shows "f32_add x z = x" and "f32_add z x = x"
proof -
  have e: "min e (-149) = -149" "min (-149) e = -149" using decode_exp [OF x(1)] by simp_all
  have "real (m * 2 ^ nat (e + 149)) * 2 powi - 149 = real m * 2 powi e"
    using powi_grid [of "-149" e] decode_exp [OF x(1)] by simp
  then have r: "round_bits False (m * 2 ^ nat (e + 149)) (-149) = x"
    using round_bits_value round_bits_decode [OF x(1)] by metis
  have z0: "scaled False m e (-149) = int (m * 2 ^ nat (e + 149))" "scaled t 0 (-149) (-149) = 0"
    by (simp_all add: scaled_def sgn_val_def)
  have nz: "\<not> int (m * 2 ^ nat (e + 149)) < 0" "int (m * 2 ^ nat (e + 149)) \<noteq> 0"
    by (simp only: not_less of_nat_0_le_iff) (use x(2) in simp)
  show "f32_add x z = x" "f32_add z x = x"
    unfolding f32_add_def x(1) z prod.case fdec.case Let_def e z0
    using nz by (simp_all only: r add_0_right add_0_left if_False simp_thms abs_of_nat nat_int)
qed

lemma zero_facts: "decode 0 = FFin False 0 (-149)" "f32_sub f32_one 0 = f32_one" "f32_add 0 f32_one = f32_one"
  "f32_sub f32_one f32_one = 0"
proof -
  show d: "decode 0 = FFin False 0 (-149)" by (simp add: decode_def)
  have n: "decode (f32_neg 0) = FFin True 0 (-149)" by (simp add: decode_neg d)
  show "f32_sub f32_one 0 = f32_one" unfolding f32_sub_def by (rule f32_add_zeros(1) [OF decode_one _ n]) simp
  show "f32_add 0 f32_one = f32_one" by (rule f32_add_zeros(2) [OF decode_one _ d]) simp
  show "f32_sub f32_one f32_one = 0"
    by (simp add: f32_sub_def f32_add_def decode_neg decode_one scaled_def sgn_val_def round_bits_def round_mag_def)
qed

lemma mul_finite: "f32_is_finite (f32_mul a b) \<Longrightarrow> f32_is_finite a"
proof -
  have i: "\<not> f32_is_finite f32_nan" "\<not> f32_is_finite (f32_inf s)" for s
    by (simp_all add: f32_is_finite_def f32_nan_def f32_inf_def inf_bits_def decode_def)
  show "f32_is_finite (f32_mul a b) \<Longrightarrow> f32_is_finite a"
    using i by (cases "decode a"; cases "decode b") (auto simp: f32_mul_def f32_is_finite_def [of a] split: if_splits)
qed

end
