(* ===== verification/Preflight.thy ===== *)
theory Preflight
  imports Metadata Loading Float_Order
begin

text \<open>
  \<open>src/src/backend/bindless/preflight.rs\<close>: the rotary tables and the bank of norm weights,
  extracted from the mapped file before the model is uploaded. The transcendental functions
  of the standard library are parameters (\<open>float_math\<close>); a table of at most 256 MiB is taken
  to be allocated when it is asked for.
\<close>

datatype rope_error =
    RE_Geometry string
  | RE_Tensor string
  | RE_Value nat f32
  | RE_Budget

type_synonym 'a rope_res = "(rope_error, 'a) res"

record float_math =
  fm_powf :: "f32 \<Rightarrow> f32 \<Rightarrow> f32"
  fm_cos :: "f32 \<Rightarrow> f32"
  fm_sin :: "f32 \<Rightarrow> f32"

definition f32_positive :: "f32 \<Rightarrow> bool" where
  "f32_positive x = (f32_is_finite x \<and> f32_lt 0 x)"

definition f32_tau :: f32 where "f32_tau = 0x40C90FDB"
definition f32_two :: f32 where "f32_two = 0x40000000"

text \<open>\<open>x.round() as usize\<close>: halves away from zero, saturating, NaN is 0.\<close>

definition f32_round_usize :: "f32 \<Rightarrow> nat" where
  "f32_round_usize x =
     (case decode x of
        FNan \<Rightarrow> 0
      | FInf s \<Rightarrow> if s then 0 else u64_range - 1
      | FFin s m e \<Rightarrow>
          if s then 0
          else min (u64_range - 1)
            (if 0 \<le> e then m * 2 ^ nat e else (m + 2 ^ nat (- e - 1)) div 2 ^ nat (- e)))"

text \<open>\<open>x.clamp(0.0, 1.0)\<close>\<close>

definition f32_clamp01 :: "f32 \<Rightarrow> f32" where
  "f32_clamp01 x = (if f32_lt x 0 then 0 else if f32_lt f32_one x then f32_one else x)"

section \<open>Rotary factors and tables\<close>

definition factor_value :: "nat \<times> f32 \<Rightarrow> f32 rope_res" where
  "factor_value iv = (if f32_positive (snd iv) then Ok (snd iv) else Err (RE_Value (fst iv) (snd iv)))"

definition check_factor_name :: "string \<Rightarrow> unit rope_res" where
  "check_factor_name name =
     (if (contains name ''rope_freqs'' \<and> name \<noteq> ''rope_freqs.weight'') \<or> contains name ''rope_factors''
      then Err (RE_Tensor (''unsupported per-layer/scaled factor tensor '' @ name)) else Ok ())"

definition read_rope_factors :: "bytes \<Rightarrow> bindless_metadata \<Rightarrow> model_spec \<Rightarrow> f32 list rope_res" where
  "read_rope_factors raw bm spec =
     (if rope_dim spec = 0 \<or> rope_dim spec mod 2 \<noteq> 0 \<or> head_dim spec < rope_dim spec then
        Err (RE_Geometry ''expected positive even rope_dim <= head_dim'')
      else
        and_then (for_each check_factor_name (bm_keys bm)) (\<lambda>_.
        let name = ''rope_freqs.weight''; pairs = rope_dim spec div 2 in
        case bm_tensor_offsets bm name of
          None \<Rightarrow>
            if bm_tensor_types bm name \<noteq> None \<or> bm_tensor_dims bm name \<noteq> None then
              Err (RE_Tensor ''incomplete factor metadata'')
            else Ok (replicate pairs f32_one)
        | Some offset \<Rightarrow>
            if bm_tensor_types bm name \<noteq> Some 0 \<or> bm_tensor_dims bm name \<noteq> Some [pairs] then
              Err (RE_Tensor ''expected F32[rope_dim/2]'')
            else
              and_then (ok_or (checked_mul pairs 4) RE_Budget) (\<lambda>byts.
              and_then (ok_or (checked_add offset byts) RE_Budget) (\<lambda>stop.
              if offset \<le> stop \<and> stop \<le> length raw
              then traverse factor_value (enumerate 0 (chunks_f32 (take (stop - offset) (drop offset raw))))
              else Err (RE_Tensor ''factor data out of bounds'')))))"

definition use_yarn :: "model_spec \<Rightarrow> f32 \<Rightarrow> bool" where
  "use_yarn spec scale =
     (f32_lt scale f32_one \<and> f32_lt 0 (yarn_alpha spec) \<and> f32_lt (yarn_alpha spec) (yarn_beta spec))"

definition base_theta :: "float_math \<Rightarrow> model_spec \<Rightarrow> f32 list \<Rightarrow> nat \<Rightarrow> f32" where
  "base_theta fm spec factors i =
     f32_div (f32_div f32_one (fm_powf fm (rope_base spec)
       (f32_div (f32_mul f32_two (f32_of_int (int i))) (f32_of_int (int (rope_dim spec)))))) (factors ! i)"

definition effective_theta :: "float_math \<Rightarrow> model_spec \<Rightarrow> f32 \<Rightarrow> f32 list \<Rightarrow> nat \<Rightarrow> f32" where
  "effective_theta fm spec scale factors i =
     (let theta = base_theta fm spec factors i in
      if \<not> use_yarn spec scale then f32_mul theta scale
      else
        (let l_train = (if f32_lt scale f32_one
                        then f32_round_usize (f32_mul (f32_of_int (int (n_ctx spec))) scale) else n_ctx spec);
             wavelength = f32_div f32_tau theta;
             ramp = f32_clamp01 (f32_div
               (f32_sub (f32_div (f32_of_int (int l_train)) wavelength) (yarn_alpha spec))
               (f32_sub (yarn_beta spec) (yarn_alpha spec)))
         in f32_mul theta (f32_add (f32_mul (f32_sub f32_one ramp) scale) ramp)))"

definition rope_entry :: "float_math \<Rightarrow> nat \<Rightarrow> f32 \<Rightarrow> f32 list rope_res" where
  "rope_entry fm pos theta =
     (let angle = f32_mul (f32_of_int (int pos)) theta in
      if \<not> f32_is_finite angle then Err (RE_Geometry ''angle not representable in F32'')
      else Ok [fm_cos fm angle, fm_sin fm angle])"

definition rope_row :: "float_math \<Rightarrow> f32 list \<Rightarrow> nat \<Rightarrow> f32 list rope_res" where
  "rope_row fm thetas pos =
     and_then (traverse (rope_entry fm pos) thetas) (\<lambda>es. Ok (concat es))"

definition compute_rope_table_with_factors ::
    "float_math \<Rightarrow> model_spec \<Rightarrow> f32 \<Rightarrow> f32 list \<Rightarrow> f32 list rope_res" where
  "compute_rope_table_with_factors fm spec scale factors =
     (if rope_dim spec = 0 \<or> rope_dim spec mod 2 \<noteq> 0 \<or> head_dim spec < rope_dim spec \<or> n_ctx spec = 0 \<or>
         \<not> f32_positive (rope_base spec) \<or> \<not> f32_positive scale then
        Err (RE_Geometry ''invalid dimension, context, base or scale'')
      else if length factors \<noteq> rope_dim spec div 2 then
        Err (RE_Tensor ''factor count differs from rope pairs'')
      else
        and_then (traverse factor_value (enumerate 0 factors)) (\<lambda>_.
        let dim = rope_dim spec; n_pairs = dim div 2; max_dist = n_ctx spec;
            thetas = map (effective_theta fm spec scale factors) [0..<n_pairs]
        in if \<exists>theta\<in>set thetas. \<not> f32_positive theta then
             Err (RE_Geometry ''effective frequency not representable in F32'')
           else
             and_then (ok_or (checked_mul max_dist dim) RE_Budget) (\<lambda>table_len.
             if 256 * 1024 * 1024 div 4 < table_len then Err RE_Budget
             else and_then (traverse (rope_row fm (take n_pairs thetas)) [0..<max_dist]) (\<lambda>rows.
               Ok (concat rows)))))"

definition prepare_rope_tables ::
    "float_math \<Rightarrow> bytes \<Rightarrow> bindless_metadata \<Rightarrow> model_spec \<Rightarrow> (f32 list \<times> f32 list) rope_res" where
  "prepare_rope_tables fm raw bm spec =
     and_then (read_rope_factors raw bm spec) (\<lambda>factors.
     and_then (compute_rope_table_with_factors fm spec (rope_scale spec) factors) (\<lambda>extended.
     and_then (if f32_lt (rope_scale spec) f32_one
               then compute_rope_table_with_factors fm spec f32_one factors else Ok extended) (\<lambda>native.
     Ok (native, extended))))"

section \<open>The norm bank\<close>

text \<open>\<open>copy_tensor_inner\<close>; its \<open>warn\<close> argument only selects a message.\<close>

definition copy_norm :: "bytes \<Rightarrow> bindless_metadata \<Rightarrow> nat \<Rightarrow> string \<times> nat \<Rightarrow> bytes \<Rightarrow> bytes rope_res" where
  "copy_norm raw bm block_size w bank =
     (case bm_tensor_offsets bm (fst w) of
        None \<Rightarrow> Ok bank
      | Some offset \<Rightarrow>
          (let stop = wadd offset block_size in
           if length raw < stop then Ok bank
           else if snd w + block_size \<le> length bank
           then and_then (slice raw offset stop) (\<lambda>src. Ok (take (snd w) bank @ src @ drop (snd w + block_size) bank))
           else Panic))"

definition slots_per_layer :: "model_spec \<Rightarrow> nat" where
  "slots_per_layer spec = (if has_qk_norm spec then 6 else 4)"

definition layer_norm_writes :: "bindless_metadata \<Rightarrow> model_spec \<Rightarrow> nat \<Rightarrow> (string \<times> nat) list" where
  "layer_norm_writes bm spec i =
     (let name = layer_name i; slots = slots_per_layer spec;
          slot = (\<lambda>k. wmul (wadd (wmul i slots) k) (wmul (n_embd spec) 4));
          ffn_slot = (if has_qk_norm spec then 3 else 1)
      in [(name ''attn_norm.weight'', slot 0)] @
         (if has_qk_norm spec then [(name ''attn_q_norm.weight'', slot 1), (name ''attn_k_norm.weight'', slot 2)] else []) @
         [(if spec_arch spec = MA_Phi \<and> bm_tensor_offsets bm (name ''ffn_norm.weight'') = None
           then name ''attn_norm.weight'' else name ''ffn_norm.weight'', slot ffn_slot),
          (name ''post_attention_norm.weight'', slot (if has_qk_norm spec then 4 else 2)),
          (name ''post_ffw_norm.weight'', slot (if has_qk_norm spec then 5 else 3))])"

definition norm_writes :: "bindless_metadata \<Rightarrow> model_spec \<Rightarrow> (string \<times> nat) list" where
  "norm_writes bm spec =
     concat (map (layer_norm_writes bm spec) [0..<n_layer spec]) @
     [(''output_norm.weight'', wmul (wmul (n_layer spec) (slots_per_layer spec)) (wmul (n_embd spec) 4))]"

definition build_norm_bank :: "bytes \<Rightarrow> bindless_metadata \<Rightarrow> model_spec \<Rightarrow> bytes rope_res" where
  "build_norm_bank raw bm spec =
     (let block_size = wmul (n_embd spec) 4;
          total_size = wmul (wadd (wmul (n_layer spec) (slots_per_layer spec)) 1) block_size
      in fold_res (copy_norm raw bm block_size) (norm_writes bm spec) (replicate total_size 0))"

section \<open>The layout of the rotary tables\<close>

text \<open>
  The frequency of a pair: \<open>1 / base^(2 p / rope_dim)\<close> divided by the factor of the pair, times
  the scale; under YaRN (a scale below one and \<open>0 < alpha < beta\<close>) it depends on the number of
  turns the pair makes over the trained context. Below \<open>alpha\<close> turns the frequency is
  scaled, above \<open>beta\<close> turns it is kept, between them it is their blend. (The documentation
  of \<open>compute_rope_table\<close> and of \<open>ModelSpec\<close> has the two ends the other way round.)
\<close>

definition rope_frequency :: "float_math \<Rightarrow> model_spec \<Rightarrow> f32 \<Rightarrow> f32 \<Rightarrow> nat \<Rightarrow> f32 \<Rightarrow> bool" where
  "rope_frequency fm spec scale factor p freq =
     (let pair = f32_div (f32_mul f32_two (f32_of_int (int p))) (f32_of_int (int (rope_dim spec)));
          theta = f32_div (f32_div f32_one (fm_powf fm (rope_base spec) pair)) factor;
          trained = f32_of_int (int (f32_round_usize (f32_mul (f32_of_int (int (n_ctx spec))) scale)));
          turns = f32_div trained (f32_div f32_tau theta);
          ramp = f32_div (f32_sub turns (yarn_alpha spec)) (f32_sub (yarn_beta spec) (yarn_alpha spec))
      in if f32_lt scale f32_one \<and> f32_lt 0 (yarn_alpha spec) \<and> f32_lt (yarn_alpha spec) (yarn_beta spec) then
           if f32_lt ramp 0 then freq = f32_mul theta scale
           else if f32_lt f32_one ramp then freq = theta
           else freq = f32_mul theta (f32_add (f32_mul (f32_sub f32_one ramp) scale) ramp)
         else freq = f32_mul theta scale)"

text \<open>
  What a table is for: row \<open>pos\<close> holds the cosine and the sine of \<open>pos\<close> times the
  frequency of each pair, every angle a finite number, every frequency positive.
\<close>

definition rope_table_for ::
    "float_math \<Rightarrow> model_spec \<Rightarrow> f32 \<Rightarrow> f32 list \<Rightarrow> f32 list \<Rightarrow> bool" where
  "rope_table_for fm spec scale factors table =
     (length table = n_ctx spec * rope_dim spec \<and> length table \<le> 64 * 1024 * 1024 \<and>
      (\<forall>p<rope_dim spec div 2. \<exists>freq. rope_frequency fm spec scale (factors ! p) p freq \<and> f32_positive freq \<and>
         (\<forall>pos<n_ctx spec.
            let angle = f32_mul (f32_of_int (int pos)) freq
            in f32_is_finite angle \<and> table ! (pos * rope_dim spec + 2 * p) = fm_cos fm angle \<and>
               table ! (pos * rope_dim spec + 2 * p + 1) = fm_sin fm angle)))"

lemma effective_frequency:
  assumes scale: "f32_positive scale" and th: "f32_is_finite (effective_theta fm spec scale factors p)"
  shows "rope_frequency fm spec scale (factors ! p) p (effective_theta fm spec scale factors p)"
proof -
  obtain s m e where d: "decode scale = FFin s m e" "f32_real scale = of_int (sgn_val s) * real m * 2 powi e"
    using scale by (auto simp: f32_positive_def elim: f32_finite_cases)
  have "0 < f32_real scale" using scale lt_real [OF nonneg_finite [OF nonneg_zero(1)], of scale] by (simp add: f32_positive_def)
  moreover have "0 < (2 :: real) powi e" by simp
  ultimately have pos: "\<not> s" "0 < m" unfolding d(2) zero_less_mult_iff by (auto simp: sgn_val_def split: if_splits)
  have low: "f32_add (f32_mul (f32_sub f32_one 0) scale) 0 = scale"
    using f32_add_zeros(1) [of scale m e 0 False] d pos scale
    by (simp add: zero_facts f32_mul_one f32_positive_def)
  have "f32_mul 0 scale = 0"
    using pos by (simp add: f32_mul_def zero_facts(1) d round_bits_def round_mag_def)
  then have high: "f32_add (f32_mul (f32_sub f32_one f32_one) scale) f32_one = f32_one"
    by (simp add: zero_facts)
  define theta where "theta = base_theta fm spec factors p"
  show ?thesis
  proof (cases "use_yarn spec scale")
    case False
    then show ?thesis
      by (simp only: rope_frequency_def effective_theta_def use_yarn_def base_theta_def Let_def if_True if_False
          simp_thms)
  next
    case True
    then have lt: "f32_lt scale f32_one" by (simp add: use_yarn_def)
    define ramp where "ramp = f32_div (f32_sub (f32_div (f32_of_int (int (f32_round_usize
      (f32_mul (f32_of_int (int (n_ctx spec))) scale)))) (f32_div f32_tau theta)) (yarn_alpha spec))
      (f32_sub (yarn_beta spec) (yarn_alpha spec))"
    have eff: "effective_theta fm spec scale factors p =
        f32_mul theta (f32_add (f32_mul (f32_sub f32_one (f32_clamp01 ramp)) scale) (f32_clamp01 ramp))"
      using True lt by (simp add: effective_theta_def Let_def ramp_def theta_def)
    have rope: "rope_frequency fm spec scale (factors ! p) p freq \<longleftrightarrow>
        (if f32_lt ramp 0 then freq = f32_mul theta scale else if f32_lt f32_one ramp then freq = theta
         else freq = f32_mul theta (f32_add (f32_mul (f32_sub f32_one ramp) scale) ramp))" for freq
      using True unfolding rope_frequency_def Let_def use_yarn_def ramp_def theta_def base_theta_def
      by (simp only: if_True simp_thms)
    have "f32_is_finite theta" using th unfolding eff by (rule mul_finite)
    then show ?thesis unfolding rope eff f32_clamp01_def by (simp add: low high f32_mul_one)
  qed
qed

lemma rope_entry_Ok:
  "(rope_entry fm pos theta = Ok xs) =
     (f32_is_finite (f32_mul (f32_of_int (int pos)) theta) \<and>
      xs = [fm_cos fm (f32_mul (f32_of_int (int pos)) theta), fm_sin fm (f32_mul (f32_of_int (int pos)) theta)])"
  by (auto simp: rope_entry_def Let_def)

lemma rope_row_Ok:
  assumes "rope_row fm thetas pos = Ok row"
  shows "length row = 2 * length thetas"
    and "p < length thetas \<Longrightarrow> f32_is_finite (f32_mul (f32_of_int (int pos)) (thetas ! p)) \<and>
      row ! (2 * p) = fm_cos fm (f32_mul (f32_of_int (int pos)) (thetas ! p)) \<and>
      row ! (2 * p + 1) = fm_sin fm (f32_mul (f32_of_int (int pos)) (thetas ! p))"
proof -
  obtain es where es: "traverse (rope_entry fm pos) thetas = Ok es" "row = concat es"
    using assms by (auto simp: rope_row_def)
  have len: "length es = length thetas" by (rule traverse_length [OF es(1)])
  have two: "xs \<in> set es \<Longrightarrow> length xs = 2" for xs
    using traverse_nth [OF es(1)] len by (auto simp: in_set_conv_nth rope_entry_Ok)
  show "length row = 2 * length thetas" using length_concat_uniform [of es 2] two len es(2) by simp
  show "f32_is_finite (f32_mul (f32_of_int (int pos)) (thetas ! p)) \<and>
      row ! (2 * p) = fm_cos fm (f32_mul (f32_of_int (int pos)) (thetas ! p)) \<and>
      row ! (2 * p + 1) = fm_sin fm (f32_mul (f32_of_int (int pos)) (thetas ! p))" if "p < length thetas"
  proof -
    have "row ! (2 * p) = es ! p ! 0" "row ! (2 * p + 1) = es ! p ! 1"
      using nth_concat_uniform [of es 2, OF two] that len es(2) by simp_all
    moreover have "rope_entry fm pos (thetas ! p) = Ok (es ! p)" by (rule traverse_nth [OF es(1) that])
    ultimately show ?thesis by (simp add: rope_entry_Ok)
  qed
qed

lemma rope_table_Ok:
  assumes "compute_rope_table_with_factors fm spec scale factors = Ok table"
  shows "rope_table_for fm spec scale factors table"
proof -
  let ?P = "rope_dim spec div 2" and ?th = "effective_theta fm spec scale factors"
  let ?thetas = "map ?th [0..<?P]"
  obtain rows where scale: "f32_positive scale" and r: "rope_dim spec mod 2 = 0"
    "\<forall>theta\<in>set ?thetas. f32_positive theta"
    "n_ctx spec * rope_dim spec \<le> 64 * 1024 * 1024"
    "traverse (rope_row fm ?thetas) [0..<n_ctx spec] = Ok rows" "table = concat rows"
    using assms by (auto simp: compute_rope_table_with_factors_def Let_def split: if_splits)
  have dim: "rope_dim spec = 2 * ?P" using r(1) by presburger
  have row: "rope_row fm ?thetas pos = Ok (rows ! pos)" if "pos < n_ctx spec" for pos
    using traverse_nth [OF r(4)] that by simp
  have len: "length rows = n_ctx spec" using traverse_length [OF r(4)] by simp
  have uni: "xs \<in> set rows \<Longrightarrow> length xs = rope_dim spec" for xs
    using rope_row_Ok(1) [OF row] len dim by (auto simp: in_set_conv_nth)
  have total: "length table = n_ctx spec * rope_dim spec"
    using length_concat_uniform [of rows] uni r(5) len by simp
  have entry: "table ! (pos * rope_dim spec + j) = rows ! pos ! j" if "pos < n_ctx spec" "j < rope_dim spec" for pos j
  proof -
    have "pos * rope_dim spec + j < Suc pos * rope_dim spec" using that(2) by simp
    also have "\<dots> \<le> n_ctx spec * rope_dim spec" using that(1) by (intro mult_le_mono1) simp
    finally show ?thesis using nth_concat_uniform [of rows, OF uni] that len r(5) by simp
  qed
  have freq: "f32_positive (?th p)" "rope_frequency fm spec scale (factors ! p) p (?th p)" if "p < ?P" for p
  proof -
    show "f32_positive (?th p)" using r(2) that by simp
    then show "rope_frequency fm spec scale (factors ! p) p (?th p)"
      using effective_frequency [OF scale] by (simp add: f32_positive_def)
  qed
  have cells: "f32_is_finite (f32_mul (f32_of_int (int pos)) (?th p)) \<and>
      table ! (pos * rope_dim spec + 2 * p) = fm_cos fm (f32_mul (f32_of_int (int pos)) (?th p)) \<and>
      table ! (pos * rope_dim spec + 2 * p + 1) = fm_sin fm (f32_mul (f32_of_int (int pos)) (?th p))"
    if p: "pos < n_ctx spec" "p < ?P" for pos p
  proof -
    have j: "2 * p < rope_dim spec" "2 * p + 1 < rope_dim spec" using p dim by linarith+
    show ?thesis
      using rope_row_Ok(2) [OF row [OF p(1)], of p] p(2) entry [OF p(1) j(1)] entry [OF p(1) j(2)]
      by (simp add: add.assoc)
  qed
  show ?thesis unfolding rope_table_for_def Let_def proof (intro conjI allI impI)
    fix p assume p: "p < ?P"
    show "\<exists>freq. rope_frequency fm spec scale (factors ! p) p freq \<and> f32_positive freq \<and>
        (\<forall>pos<n_ctx spec. f32_is_finite (f32_mul (f32_of_int (int pos)) freq) \<and>
          table ! (pos * rope_dim spec + 2 * p) = fm_cos fm (f32_mul (f32_of_int (int pos)) freq) \<and>
          table ! (pos * rope_dim spec + 2 * p + 1) = fm_sin fm (f32_mul (f32_of_int (int pos)) freq))"
      using freq [OF p] cells [OF _ p] by blast
  qed (use total r(3) in simp_all)
qed

lemma rope_no_panic: "prepare_rope_tables fm raw bm spec \<noteq> Panic"
proof -
  have fe: "for_each check_factor_name ks \<noteq> Panic" for ks
    by (induction ks) (auto simp: and_then_eq_Panic check_factor_name_def)
  have fv: "traverse factor_value xs \<noteq> Panic" for xs
    by (induction xs) (auto simp: and_then_eq_Panic factor_value_def)
  have re: "traverse (rope_entry fm pos) xs \<noteq> Panic" for pos xs
    by (induction xs) (auto simp: and_then_eq_Panic rope_entry_def Let_def)
  have rr: "traverse (rope_row fm ths) ps \<noteq> Panic" for ths ps
    by (induction ps) (auto simp: and_then_eq_Panic rope_row_def re)
  have "read_rope_factors raw bm spec \<noteq> Panic"
    by (auto simp: read_rope_factors_def Let_def and_then_eq_Panic fe fv split: option.splits)
  moreover have "compute_rope_table_with_factors fm spec scale factors \<noteq> Panic" for scale factors
    by (auto simp: compute_rope_table_with_factors_def Let_def and_then_eq_Panic fv rr split: if_splits)
  ultimately show ?thesis by (auto simp: prepare_rope_tables_def and_then_eq_Panic split: if_splits)
qed

lemma prepare_tables_Ok:
  assumes "prepare_rope_tables fm raw bm spec = Ok (native, extended)"
  shows "\<exists>factors. read_rope_factors raw bm spec = Ok factors \<and>
    rope_table_for fm spec (rope_scale spec) factors extended \<and>
    rope_table_for fm spec (if f32_lt (rope_scale spec) f32_one then f32_one else rope_scale spec) factors native"
  using assms by (auto simp: prepare_rope_tables_def split: if_splits intro: rope_table_Ok)

text \<open>
  C35: Preparing the rotary tables never panics, and when it succeeds both tables have the
  layout the attention kernels index: \<open>n_ctx\<close> rows of \<open>rope_dim\<close> entries, entry \<open>2 p\<close> of a
  row the cosine and entry \<open>2 p + 1\<close> the sine of the distance times the frequency of pair
  \<open>p\<close>, with every frequency positive, every angle finite and at most 256 MiB. A frequency is
  \<open>1 / base^(2 p / rope_dim)\<close> over the pair's factor, times the scale; under YaRN the slow
  pairs (fewer than \<open>alpha\<close> turns over the trained context) are scaled and the fast ones
  (more than \<open>beta\<close> turns) are not, with a linear blend between, the opposite of what the
  comments of \<open>preflight.rs\<close> and \<open>spec.rs\<close> say. The extended table is at the configured
  scale and the native one at scale 1 when the context is extended.
\<close>

theorem rope_tables_layout:
  "case prepare_rope_tables fm raw bm spec of
     Panic \<Rightarrow> False
   | Err _ \<Rightarrow> True
   | Ok (native, extended) \<Rightarrow>
       \<exists>factors. read_rope_factors raw bm spec = Ok factors \<and>
         rope_table_for fm spec (rope_scale spec) factors extended \<and>
         rope_table_for fm spec (if f32_lt (rope_scale spec) f32_one then f32_one else rope_scale spec) factors native"
proof (cases "prepare_rope_tables fm raw bm spec")
  case (Ok r)
  then show ?thesis using prepare_tables_Ok by (cases r) fastforce
qed (use rope_no_panic in auto)

section \<open>The contents of the norm bank\<close>

text \<open>The tensor of each slot, in the order of the slots.\<close>

definition layer_norm_names :: "bindless_metadata \<Rightarrow> model_spec \<Rightarrow> nat \<Rightarrow> string list" where
  "layer_norm_names bm spec i = map fst (layer_norm_writes bm spec i)"

definition bank_slot :: "nat \<Rightarrow> bytes \<Rightarrow> nat \<Rightarrow> bytes" where
  "bank_slot block bank k = take block (drop (k * block) bank)"

definition tensor_bytes :: "bytes \<Rightarrow> tensor_descriptor \<Rightarrow> bytes" where
  "tensor_bytes raw t = take (td_byte_len t) (drop (td_absolute_offset t) raw)"

lemma slot_splice:
  assumes "length src = block" and "Suc k * block \<le> length bank" and "Suc j * block \<le> length bank"
  shows "bank_slot block (take (k * block) bank @ src @ drop (k * block + block) bank) j =
    (if j = k then src else bank_slot block bank j)"
proof -
  have le: "k * block + block \<le> length bank" "j * block + block \<le> length bank" using assms(2,3) by simp_all
  show ?thesis
  proof (rule nth_equalityI)
    show "length (bank_slot block (take (k * block) bank @ src @ drop (k * block + block) bank) j) =
        length (if j = k then src else bank_slot block bank j)"
    proof -
      have "length (take (k * block) bank @ src @ drop (k * block + block) bank) = length bank"
        using le assms(1) by simp
      then show ?thesis using le assms(1) unfolding bank_slot_def length_take length_drop by auto
    qed
    fix i assume "i < length (bank_slot block (take (k * block) bank @ src @ drop (k * block + block) bank) j)"
    then have i: "i < block" unfolding bank_slot_def length_take by simp
    consider "j = k" | "Suc j \<le> k" | "Suc k \<le> j" by linarith
    then show "bank_slot block (take (k * block) bank @ src @ drop (k * block + block) bank) j ! i =
        (if j = k then src else bank_slot block bank j) ! i"
    proof cases
      case 1
      then show ?thesis using le i assms(1) by (simp add: bank_slot_def nth_append)
    next
      case 2
      then have "j * block + block \<le> k * block" using mult_le_mono1 [of "Suc j" k block] by simp
      then show ?thesis using 2 le i by (simp add: bank_slot_def nth_append)
    next
      case 3
      then have "k * block + block \<le> j * block" using mult_le_mono1 [of "Suc k" j block] by simp
      then show ?thesis using 3 le i assms(1) by (simp add: bank_slot_def nth_append)
    qed
  qed
qed

text \<open>What a write puts into its slot: nothing when the tensor is absent or runs past the file.\<close>

definition norm_source :: "bytes \<Rightarrow> bindless_metadata \<Rightarrow> nat \<Rightarrow> string \<Rightarrow> bytes option" where
  "norm_source raw bm block name =
     (case bm_tensor_offsets bm name of
        None \<Rightarrow> None
      | Some offset \<Rightarrow> if length raw < wadd offset block \<or> wadd offset block < offset then None
          else Some (take block (drop offset raw)))"

lemma copy_norm_slot:
  assumes off: "\<forall>offset. bm_tensor_offsets bm name = Some offset \<longrightarrow> offset + block < u64_range"
    and k: "Suc k * block \<le> length bank"
  shows "\<exists>bank'. copy_norm raw bm block (name, k * block) bank = Ok bank' \<and> length bank' = length bank \<and>
    (\<forall>j. Suc j * block \<le> length bank \<longrightarrow> bank_slot block bank' j =
       (if j = k then (case norm_source raw bm block name of None \<Rightarrow> bank_slot block bank k | Some s \<Rightarrow> s)
        else bank_slot block bank j))"
proof (cases "norm_source raw bm block name")
  case None
  then have "copy_norm raw bm block (name, k * block) bank = Ok bank"
    using off by (auto simp: norm_source_def copy_norm_def Let_def split: option.splits if_splits)
  with None show ?thesis by simp
next
  case (Some s)
  then obtain offset where o: "bm_tensor_offsets bm name = Some offset" "offset + block \<le> length raw"
    "s = take block (drop offset raw)" "offset + block < u64_range"
    using off by (auto simp: norm_source_def split: option.splits if_splits)
  let ?b = "take (k * block) bank @ s @ drop (k * block + block) bank"
  have "copy_norm raw bm block (name, k * block) bank = Ok ?b"
    using o k by (simp add: copy_norm_def Let_def slice_def res_simps del: and_then_eq_Ok)
  moreover have "length s = block" using o by simp
  moreover have "length ?b = length bank" using \<open>length s = block\<close> k by simp
  ultimately show ?thesis using slot_splice [of s block k bank] k Some by (intro exI [of _ ?b]) auto
qed

lemma copy_norms:
  assumes "\<forall>name offset. bm_tensor_offsets bm name = Some offset \<longrightarrow> offset + block < u64_range"
    and "(j + length names) * block \<le> length bank"
  shows "\<exists>bank'. fold_res (copy_norm raw bm block) (zip names (map (\<lambda>k. k * block) [j..<j + length names])) bank = Ok bank' \<and>
    length bank' = length bank \<and>
    (\<forall>k. Suc k * block \<le> length bank \<longrightarrow> bank_slot block bank' k =
       (if j \<le> k \<and> k < j + length names
        then (case norm_source raw bm block (names ! (k - j)) of None \<Rightarrow> bank_slot block bank k | Some s \<Rightarrow> s)
        else bank_slot block bank k))"
  using assms(2)
proof (induction names arbitrary: j bank)
  case (Cons name names)
  have "Suc j * block \<le> (j + length (name # names)) * block" by (rule mult_le_mono1) simp
  then have "Suc j * block \<le> length bank" using Cons.prems by linarith
  then obtain b where b: "copy_norm raw bm block (name, j * block) bank = Ok b" "length b = length bank"
    "\<forall>k. Suc k * block \<le> length bank \<longrightarrow> bank_slot block b k =
       (if k = j then (case norm_source raw bm block name of None \<Rightarrow> bank_slot block bank j | Some s \<Rightarrow> s)
        else bank_slot block bank k)"
    using copy_norm_slot assms(1) by blast
  have "(Suc j + length names) * block \<le> length b" using Cons.prems b(2) by simp
  note IH = Cons.IH [OF this]
  then obtain b' where b': "fold_res (copy_norm raw bm block)
      (zip names (map (\<lambda>k. k * block) [Suc j..<Suc j + length names])) b = Ok b'" "length b' = length bank"
    "\<forall>k. Suc k * block \<le> length bank \<longrightarrow> bank_slot block b' k =
       (if Suc j \<le> k \<and> k < Suc j + length names
        then (case norm_source raw bm block (names ! (k - Suc j)) of None \<Rightarrow> bank_slot block b k | Some s \<Rightarrow> s)
        else bank_slot block b k)" unfolding b(2) by blast
  have up: "[j..<j + length (name # names)] = j # [Suc j..<Suc j + length names]" by (simp add: upt_rec)
  show ?case unfolding up
  proof (intro exI [of _ b'] conjI allI impI)
    fix k assume k: "Suc k * block \<le> length bank"
    have "k = j \<or> k < j \<or> (Suc j \<le> k \<and> k - j = Suc (k - Suc j))" by linarith
    then show "bank_slot block b' k = (if j \<le> k \<and> k < j + length (name # names)
        then (case norm_source raw bm block ((name # names) ! (k - j)) of None \<Rightarrow> bank_slot block bank k | Some s \<Rightarrow> s)
        else bank_slot block bank k)"
      using k b(3) b'(3) by (auto split: option.splits)
  qed (use b b' in simp_all)
next
  case Nil
  have "\<not> (j \<le> k \<and> k < j + length [])" for k by simp
  then show ?case by (intro exI [of _ bank]) auto
qed

text \<open>The names, slot by slot, and the writes as one block per slot.\<close>

definition norm_names :: "bindless_metadata \<Rightarrow> model_spec \<Rightarrow> string list" where
  "norm_names bm spec = concat (map (layer_norm_names bm spec) [0..<n_layer spec]) @ [''output_norm.weight'']"

lemma layer_norm_writes_slots:
  assumes "((i + 1) * slots_per_layer spec + 1) * (n_embd spec * 4) < u64_range"
  shows "layer_norm_writes bm spec i = zip (layer_norm_names bm spec i)
    (map (\<lambda>k. k * (n_embd spec * 4)) [i * slots_per_layer spec..<i * slots_per_layer spec + slots_per_layer spec])"
proof -
  let ?S = "slots_per_layer spec" and ?B = "n_embd spec * 4"
  have slot: "wmul (wadd (wmul i ?S) k) (wmul (n_embd spec) 4) = (i * ?S + k) * ?B" if "k < ?S" for k
  proof (cases "n_embd spec = 0")
    case False
    have "i * ?S + k \<le> (i + 1) * ?S + 1" using that by simp
    then have "(i * ?S + k) * ?B \<le> ((i + 1) * ?S + 1) * ?B" by (rule mult_le_mono1)
    then have lt: "(i * ?S + k) * ?B < u64_range" using assms by linarith
    have "i * ?S + k \<le> (i * ?S + k) * ?B" using False by simp
    then have "i * ?S + k < u64_range" using lt by linarith
    moreover have "1 * ?B \<le> ((i + 1) * ?S + 1) * ?B" by (rule mult_le_mono1) simp
    then have "?B < u64_range" using assms by linarith
    ultimately show ?thesis using lt by simp
  qed simp
  show ?thesis
  proof (cases "has_qk_norm spec")
    case True
    then have S: "?S = 6" by (simp add: slots_per_layer_def)
    have up: "[i * 6..<i * 6 + 6] = [i * 6, i * 6 + 1, i * 6 + 2, i * 6 + 3, i * 6 + 4, i * 6 + 5]"
      by (simp add: upt_rec numeral_eq_Suc)
    show ?thesis unfolding layer_norm_names_def layer_norm_writes_def Let_def S up
      using slot [unfolded S, of 0] slot [unfolded S, of 1] slot [unfolded S, of 2] slot [unfolded S, of 3]
        slot [unfolded S, of 4] slot [unfolded S, of 5] True by simp
  next
    case False
    then have S: "?S = 4" by (simp add: slots_per_layer_def)
    have up: "[i * 4..<i * 4 + 4] = [i * 4, i * 4 + 1, i * 4 + 2, i * 4 + 3]"
      by (simp add: upt_rec numeral_eq_Suc)
    show ?thesis unfolding layer_norm_names_def layer_norm_writes_def Let_def S up
      using slot [unfolded S, of 0] slot [unfolded S, of 1] slot [unfolded S, of 2] slot [unfolded S, of 3] False
      by simp
  qed
qed

lemma length_layer_norm_names: "length (layer_norm_names bm spec i) = slots_per_layer spec"
  by (simp add: layer_norm_names_def layer_norm_writes_def slots_per_layer_def Let_def)

lemma length_layers_norm_names:
  "length (concat (map (layer_norm_names bm spec) [0..<n])) = n * slots_per_layer spec"
  using length_concat_uniform [of "map (layer_norm_names bm spec) [0..<n]" "slots_per_layer spec"]
  by (simp add: length_layer_norm_names image_iff Ball_def split: if_splits) (metis length_layer_norm_names)

lemma length_norm_names: "length (norm_names bm spec) = n_layer spec * slots_per_layer spec + 1"
  by (simp add: norm_names_def length_layers_norm_names)

lemma norm_names_nth:
  "i < n_layer spec \<Longrightarrow> k < slots_per_layer spec \<Longrightarrow>
     norm_names bm spec ! (i * slots_per_layer spec + k) = layer_norm_names bm spec i ! k"
  "norm_names bm spec ! (n_layer spec * slots_per_layer spec) = ''output_norm.weight''"
proof -
  let ?xss = "map (layer_norm_names bm spec) [0..<n_layer spec]" and ?S = "slots_per_layer spec"
  have uni: "xs \<in> set ?xss \<Longrightarrow> length xs = ?S" for xs by (auto simp: length_layer_norm_names)
  have len: "length (concat ?xss) = n_layer spec * ?S" using length_concat_uniform [of ?xss, OF uni] by simp
  show "norm_names bm spec ! (n_layer spec * ?S) = ''output_norm.weight''"
    unfolding norm_names_def by (simp add: nth_append len)
  show "norm_names bm spec ! (i * ?S + k) = layer_norm_names bm spec i ! k" if ik: "i < n_layer spec" "k < ?S"
  proof -
    have "i * ?S + k < Suc i * ?S" using ik(2) by simp
    also have "\<dots> \<le> n_layer spec * ?S" using ik(1) by (intro mult_le_mono1) simp
    finally have lt: "i * ?S + k < n_layer spec * ?S" .
    then have "norm_names bm spec ! (i * ?S + k) = concat ?xss ! (i * ?S + k)"
      unfolding norm_names_def by (simp add: nth_append len)
    then show ?thesis using nth_concat_uniform [of ?xss, OF uni] lt ik by simp
  qed
qed

lemma norm_writes_slots:
  assumes "(n_layer spec * slots_per_layer spec + 1) * (n_embd spec * 4) < u64_range"
  shows "norm_writes bm spec = zip (norm_names bm spec)
    (map (\<lambda>k. k * (n_embd spec * 4)) [0..<n_layer spec * slots_per_layer spec + 1])"
proof -
  let ?S = "slots_per_layer spec" and ?B = "n_embd spec * 4"
  have pre: "concat (map (layer_norm_writes bm spec) [0..<n]) = zip (concat (map (layer_norm_names bm spec) [0..<n]))
      (map (\<lambda>k. k * ?B) [0..<n * ?S])" if "n \<le> n_layer spec" for n
    using that
  proof (induction n)
    case (Suc n)
    have "(n + 1) * ?S \<le> n_layer spec * ?S" using Suc.prems by (intro mult_le_mono1) simp
    then have "((n + 1) * ?S + 1) * ?B \<le> (n_layer spec * ?S + 1) * ?B" by (intro mult_le_mono1) simp
    then have lt: "((n + 1) * ?S + 1) * ?B < u64_range" using assms by linarith
    have up: "[0..<Suc n * ?S] = [0..<n * ?S] @ [n * ?S..<n * ?S + ?S]"
      using upt_append [of 0 "n * ?S" "n * ?S + ?S"] by (simp add: add.commute)
    show ?case unfolding up
      using Suc layer_norm_writes_slots [OF lt] by (simp add: zip_append length_layers_norm_names)
  qed simp
  have last: "wmul (wmul (n_layer spec) ?S) (wmul (n_embd spec) 4) = n_layer spec * ?S * ?B"
  proof (cases "n_embd spec = 0")
    case False
    have "n_layer spec * ?S * ?B \<le> (n_layer spec * ?S + 1) * ?B" "1 * ?B \<le> (n_layer spec * ?S + 1) * ?B"
      by (rule mult_le_mono1; simp)+
    then have lt: "n_layer spec * ?S * ?B < u64_range" "?B < u64_range" using assms by linarith+
    have "n_layer spec * ?S * 1 \<le> n_layer spec * ?S * ?B" by (rule mult_le_mono2) (use False in simp)
    with lt(1) have "n_layer spec * ?S < u64_range" by linarith
    with lt show ?thesis by (simp only: wmul_small)
  qed simp
  show ?thesis unfolding norm_writes_def norm_names_def last pre [OF order_refl]
    by (simp add: zip_append length_layers_norm_names)
qed

text \<open>Slot \<open>k\<close> of the bank is the tensor of that name, byte for byte.\<close>

definition slot_holds :: "model_manifest \<Rightarrow> bytes \<Rightarrow> nat \<Rightarrow> bytes \<Rightarrow> nat \<Rightarrow> string \<Rightarrow> bool" where
  "slot_holds m raw block bank k name =
     (\<exists>t. mf_tensor m name = Some t \<and> bank_slot block bank k = tensor_bytes raw t)"

definition ffn_norm_slot :: "model_spec \<Rightarrow> nat" where
  "ffn_norm_slot spec = (if has_qk_norm spec then 3 else 1)"

definition norm_bank_holds :: "model_manifest \<Rightarrow> model_descriptor \<Rightarrow> model_spec \<Rightarrow> bytes \<Rightarrow> bytes \<Rightarrow> bool" where
  "norm_bank_holds m d spec raw bank =
     (let slots = slots_per_layer spec; holds = slot_holds m raw (4 * md_hidden d) bank in
      length bank = (md_layers d * slots + 1) * (4 * md_hidden d) \<and>
      (\<forall>l<md_layers d. holds (l * slots) (layer_name l ''attn_norm.weight'') \<and>
         holds (l * slots + ffn_norm_slot spec) (layer_name l ''ffn_norm.weight'') \<and>
         (\<forall>k\<in>{slots - 2, slots - 1}.
            bank_slot (4 * md_hidden d) bank (l * slots + k) = replicate (4 * md_hidden d) 0)) \<and>
      holds (md_layers d * slots) ''output_norm.weight'')"

lemma admitted_norm:
  assumes adm: "admitted m d keys" and req: "(name, [md_hidden d], True) \<in> set (requirements m d)"
    and raw: "length raw = mf_file_len m" and bm: "bm_tensor_offsets bm = collect_map td_absolute_offset (mf_tensors m)"
  obtains t where "mf_tensor m name = Some t" and "td_byte_len t = 4 * md_hidden d"
    and "norm_source raw bm (4 * md_hidden d) name = Some (tensor_bytes raw t)"
proof -
  have d: "from_manifest m = Ok d" "mf_file_len m < 2 ^ 32" using adm by (simp_all add: admitted_def)
  have "meets m (name, [md_hidden d], True)" using from_manifest_bindings(1) [OF d(1)] req by blast
  then obtain t where t: "mf_tensor m name = Some t" "td_dimensions t = [md_hidden d]" "td_ggml_type t = 0"
    by (auto simp: meets_def)
  have "descriptor_ok (mf_file_len m) t" using adm t(1) mf_tensor_ok by (auto simp: admitted_def)
  then have len: "td_byte_len t = 4 * md_hidden d" "td_byte_len t \<le> mf_file_len m"
    using descriptor_bytes_f32 t by (metis, metis)
  note at = admitted_tensor [OF adm t(1)]
  have "td_absolute_offset t + 4 * md_hidden d < u64_range" using at len d(2) by (simp add: u64_range_def)
  then have "norm_source raw bm (4 * md_hidden d) name = Some (tensor_bytes raw t)"
    using at len raw t(1) by (simp add: norm_source_def bm admitted_collect [OF adm] tensor_bytes_def)
  with t(1) len(1) that show ?thesis by blast
qed

lemma build_norm_bank_slots:
  assumes adm: "admitted m d keys" and raw: "length raw = mf_file_len m"
    and bm: "bm_tensor_offsets bm = collect_map td_absolute_offset (mf_tensors m)"
    and spec: "n_embd spec = md_hidden d" "n_layer spec = md_layers d"
    and fit: "(md_layers d * slots_per_layer spec + 1) * (4 * md_hidden d) < u64_range"
  shows "\<exists>bank. build_norm_bank raw bm spec = Ok bank \<and>
    length bank = (md_layers d * slots_per_layer spec + 1) * (4 * md_hidden d) \<and>
    (\<forall>k\<le>md_layers d * slots_per_layer spec. bank_slot (4 * md_hidden d) bank k =
       (case norm_source raw bm (4 * md_hidden d) (norm_names bm spec ! k) of
          None \<Rightarrow> replicate (4 * md_hidden d) 0 | Some s \<Rightarrow> s))"
proof -
  let ?N = "md_layers d * slots_per_layer spec" and ?B = "4 * md_hidden d"
  let ?bank = "replicate ((?N + 1) * ?B) (0 :: 8 word)"
  have B: "n_embd spec * 4 = ?B" using spec by simp
  have d: "from_manifest m = Ok d" "mf_file_len m < 2 ^ 32" using adm by (simp_all add: admitted_def)
  have "(''output_norm.weight'', [md_hidden d], True) \<in> set (requirements m d)"
    by (simp add: requirements_def global_requirements_def)
  then obtain t where t: "mf_tensor m ''output_norm.weight'' = Some t" "td_byte_len t = ?B"
    using admitted_norm [OF adm _ raw bm] by metis
  have Bn: "?B \<le> mf_file_len m" using admitted_tensor(4) [OF adm t(1)] t(2) by simp
  have off: "\<forall>name offset. bm_tensor_offsets bm name = Some offset \<longrightarrow> offset + ?B < u64_range"
  proof (intro allI impI)
    fix name offset assume "bm_tensor_offsets bm name = Some offset"
    then obtain t where "mf_tensor m name = Some t" "offset = td_absolute_offset t"
      unfolding bm admitted_collect [OF adm] by auto
    with admitted_tensor(4) [OF adm] have "offset \<le> mf_file_len m" by fastforce
    then show "offset + ?B < u64_range" using Bn d(2) by (simp add: u64_range_def)
  qed
  have w: "norm_writes bm spec = zip (norm_names bm spec) (map (\<lambda>k. k * ?B) [0..<?N + 1])"
    using norm_writes_slots [of spec bm] fit unfolding spec mult.commute [of "md_hidden d" 4] by blast
  have len: "length (norm_names bm spec) = ?N + 1" using length_norm_names [of bm spec] spec by simp
  have "?N * ?B \<le> (?N + 1) * ?B" "1 * ?B \<le> (?N + 1) * ?B" by (rule mult_le_mono1; simp)+
  moreover have "1 \<le> ?B" using from_manifest_geometry [OF d(1)] by (simp add: geometry_ok_def)
  then have "?N * 1 \<le> ?N * ?B" "(?N + 1) * 1 \<le> (?N + 1) * ?B" by (rule mult_le_mono2)+
  ultimately have lt: "?B < u64_range" "?N < u64_range" "?N + 1 < u64_range"
    using fit by (simp_all only: mult_1_right mult_1 le_less_trans)
  have tot: "wmul (n_embd spec) 4 = ?B"
    "wmul (wadd (wmul (n_layer spec) (slots_per_layer spec)) 1) ?B = (?N + 1) * ?B"
    unfolding spec wmul_small [OF lt(2)] wadd_small [OF lt(3)] using lt fit
    by (simp_all only: mult.commute [of "md_hidden d" 4] wmul_small)
  have "(0 + length (norm_names bm spec)) * ?B \<le> length ?bank" by (simp add: len)
  from copy_norms [OF off this, of raw] obtain bank where
    bank: "fold_res (copy_norm raw bm ?B) (norm_writes bm spec) ?bank = Ok bank" "length bank = length ?bank"
    "\<forall>k. Suc k * ?B \<le> length ?bank \<longrightarrow> bank_slot ?B bank k =
       (if k < ?N + 1 then (case norm_source raw bm ?B (norm_names bm spec ! k) of None \<Rightarrow> bank_slot ?B ?bank k | Some s \<Rightarrow> s)
        else bank_slot ?B ?bank k)" unfolding w len by auto
  have slot0: "bank_slot ?B ?bank k = replicate ?B 0" if "k \<le> ?N" for k
  proof -
    have "k * ?B \<le> ?N * ?B" using that by (rule mult_le_mono1)
    then have "?B \<le> (?N + 1) * ?B - k * ?B" unfolding add_mult_distrib mult_1 by linarith
    then show ?thesis by (simp add: bank_slot_def min_absorb1)
  qed
  have sz: "Suc k * ?B \<le> length ?bank" if "k \<le> ?N" for k
    using mult_le_mono1 [of "Suc k" "?N + 1" ?B] that by simp
  show ?thesis
  proof (intro exI [of _ bank] conjI allI impI)
    show "build_norm_bank raw bm spec = Ok bank" unfolding build_norm_bank_def Let_def tot by (rule bank(1))
    show "length bank = (?N + 1) * ?B" using bank(2) by simp
    fix k assume k: "k \<le> ?N"
    have "bank_slot ?B bank k =
        (case norm_source raw bm ?B (norm_names bm spec ! k) of None \<Rightarrow> bank_slot ?B ?bank k | Some s \<Rightarrow> s)"
      using bank(3) sz [OF k] k by simp
    then show "bank_slot ?B bank k =
        (case norm_source raw bm ?B (norm_names bm spec ! k) of None \<Rightarrow> replicate ?B 0 | Some s \<Rightarrow> s)"
      unfolding slot0 [OF k] .
  qed
qed

text \<open>
  C36: The bank of norm weights is a copy of the file: for an admitted model whose bank fits
  the address space, building it succeeds with no write out of range, the slots of a layer
  that the kernels index (attention norm first, feed-forward norm at slot 1, or 3 with
  head norms) and the last slot hold the bytes of those tensors, and the slots of the
  post-norms, which no dense model has, are zero.
\<close>

theorem norm_bank_exact:
  assumes adm: "admitted m d keys" and bm: "metadata_from_manifest keys m = Ok bm"
    and raw: "length raw = mf_file_len m"
    and spec: "n_embd spec = md_hidden d" "n_layer spec = md_layers d"
    and fit: "(md_layers d * slots_per_layer spec + 1) * (4 * md_hidden d) < u64_range"
  shows "\<exists>bank. build_norm_bank raw bm spec = Ok bank \<and> norm_bank_holds m d spec raw bank"
proof -
  let ?S = "slots_per_layer spec" and ?B = "4 * md_hidden d"
  have offs: "bm_tensor_offsets bm = collect_map td_absolute_offset (mf_tensors m)"
    using bm by (auto simp: metadata_from_manifest_def Let_def)
  obtain bank where bank: "build_norm_bank raw bm spec = Ok bank" "length bank = (md_layers d * ?S + 1) * ?B"
    "\<forall>k\<le>md_layers d * ?S. bank_slot ?B bank k =
       (case norm_source raw bm ?B (norm_names bm spec ! k) of None \<Rightarrow> replicate ?B 0 | Some s \<Rightarrow> s)"
    using build_norm_bank_slots [OF adm raw offs spec fit] by blast
  have holds: "slot_holds m raw ?B bank k name"
    if "k \<le> md_layers d * ?S" "norm_names bm spec ! k = name" "(name, [md_hidden d], True) \<in> set (requirements m d)"
    for k name
    by (rule admitted_norm [OF adm that(3) raw offs]) (use bank(3) that in \<open>simp add: slot_holds_def\<close>)
  have zero: "bank_slot ?B bank k = replicate ?B 0"
    if "k \<le> md_layers d * ?S" "norm_names bm spec ! k = name" "mf_tensor m name = None" for k name
    using bank(3) that by (simp add: norm_source_def offs admitted_collect [OF adm])
  have kin: "l * ?S + k \<le> md_layers d * ?S" if "l < md_layers d" "k < ?S" for l k
    using mult_le_mono1 [of "Suc l" "md_layers d" ?S] that by simp
  have S: "0 < ?S" "ffn_norm_slot spec < ?S" "?S - 2 < ?S" "?S - 1 < ?S"
    by (simp_all add: slots_per_layer_def ffn_norm_slot_def)
  have req: "(layer_name l ''attn_norm.weight'', [md_hidden d], True) \<in> set (requirements m d) \<and>
      (layer_name l ''ffn_norm.weight'', [md_hidden d], True) \<in> set (requirements m d)" if "l < md_layers d" for l
    using that by (force simp: requirements_def layer_requirements_def)
  have ffn: "bm_tensor_offsets bm (layer_name l ''ffn_norm.weight'') \<noteq> None" if "l < md_layers d" for l
    using layer_tensor_iff [OF adm, of l "''ffn_norm.weight''"] that
    by (simp add: offs admitted_collect [OF adm] dense_suffix_set)
  have names: "layer_norm_names bm spec l ! 0 = layer_name l ''attn_norm.weight''"
    "l < md_layers d \<Longrightarrow> layer_norm_names bm spec l ! ffn_norm_slot spec = layer_name l ''ffn_norm.weight''"
    "layer_norm_names bm spec l ! (?S - 2) = layer_name l ''post_attention_norm.weight''"
    "layer_norm_names bm spec l ! (?S - 1) = layer_name l ''post_ffw_norm.weight''" for l
    using ffn [of l] by (simp_all add: layer_norm_names_def layer_norm_writes_def ffn_norm_slot_def
        slots_per_layer_def Let_def)
  have no_post: "mf_tensor m (layer_name l ''post_attention_norm.weight'') = None"
    "mf_tensor m (layer_name l ''post_ffw_norm.weight'') = None" for l
    by (simp_all add: layer_tensor_iff [OF adm] dense_suffix_set)
  note nth = norm_names_nth(1) [of _ spec _ bm, unfolded spec] norm_names_nth(2) [of bm spec, unfolded spec]
  have "slot_holds m raw ?B bank (md_layers d * ?S) ''output_norm.weight''"
    by (rule holds) (simp_all add: nth(2) requirements_def global_requirements_def)
  moreover have "slot_holds m raw ?B bank (l * ?S) (layer_name l ''attn_norm.weight'') \<and>
      slot_holds m raw ?B bank (l * ?S + ffn_norm_slot spec) (layer_name l ''ffn_norm.weight'') \<and>
      bank_slot ?B bank (l * ?S + (?S - 2)) = replicate ?B 0 \<and>
      bank_slot ?B bank (l * ?S + (?S - 1)) = replicate ?B 0" if l: "l < md_layers d" for l
    using holds [OF kin [OF l S(1)] nth(1) [OF l S(1), unfolded names(1)]] req [OF l]
      holds [OF kin [OF l S(2)] nth(1) [OF l S(2), unfolded names(2) [OF l]]]
      zero [OF kin [OF l S(3)] nth(1) [OF l S(3), unfolded names(3)] no_post(1)]
      zero [OF kin [OF l S(4)] nth(1) [OF l S(4), unfolded names(4)] no_post(2)]
    by simp
  ultimately show ?thesis using bank(1,2) unfolding norm_bank_holds_def Let_def by auto
qed

lemma sample_dims:
  assumes "from_manifest sample_manifest = Ok d"
  shows "md_hidden d = 2" and "md_layers d = 1"
proof -
  let ?m = sample_manifest
  obtain prefix where r: "prefix = arch_prefix (md_architecture d)" "read_architecture ?m = Ok (md_architecture d)"
    "md_required ?m prefix ''embedding_length'' = Ok (md_hidden d)"
    "md_required ?m prefix ''block_count'' = Ok (md_layers d)"
    by (rule from_manifest_steps [OF assms]) (rule that; assumption)
  have "read_architecture ?m = Ok Arch_Llama"
    by (simp add: read_architecture_def mf_value_def sample_manifest_def)
  then have p: "prefix = ''llama''" using r(1,2) by simp
  have v: "md_required ?m ''llama'' ''embedding_length'' = Ok 2" "md_required ?m ''llama'' ''block_count'' = Ok 1"
    by (simp_all add: md_required_def md_integer_def mf_value_def sample_manifest_def Let_def)
  show "md_hidden d = 2" "md_layers d = 1"
    using r(3,4) unfolding p by (simp_all add: v)
qed

lemma norm_bank_exact_witness:
  "\<exists>d bm spec bank. from_manifest sample_manifest = Ok d \<and>
     build_norm_bank (replicate 512 0) bm spec = Ok bank \<and> length bank = 40 \<and>
     norm_bank_holds sample_manifest d spec (replicate 512 0) bank"
proof -
  obtain d where d: "admitted sample_manifest d (map td_name (mf_tensors sample_manifest))"
    using sample_admitted by blast
  then have m: "from_manifest sample_manifest = Ok d" by (simp add: admitted_def)
  note dims = sample_dims [OF m]
  obtain bm where bm: "metadata_from_manifest (map td_name (mf_tensors sample_manifest)) sample_manifest = Ok bm"
    using metadata_dense [OF d] by blast
  let ?spec = "tinylama_base\<lparr>n_embd := 2, n_layer := 1\<rparr>"
  have s: "slots_per_layer ?spec = 4" by (simp add: slots_per_layer_def tinylama_base_def)
  have spec: "n_embd ?spec = md_hidden d" "n_layer ?spec = md_layers d" by (simp_all add: dims)
  have raw: "length (replicate 512 (0 :: 8 word)) = mf_file_len sample_manifest" by (simp add: sample_manifest_def)
  have fit: "(md_layers d * slots_per_layer ?spec + 1) * (4 * md_hidden d) < u64_range"
    unfolding s dims by (simp add: u64_range_def)
  obtain bank where b: "build_norm_bank (replicate 512 0) bm ?spec = Ok bank"
    "norm_bank_holds sample_manifest d ?spec (replicate 512 0) bank"
    using norm_bank_exact [OF d bm raw spec fit] by blast
  then have "length bank = 40" unfolding norm_bank_holds_def Let_def s dims by simp
  with m b show ?thesis by blast
qed

end
