(* ===== verification/Admission.thy ===== *)
theory Admission
  imports Operators Preflight
begin

text \<open>
  \<open>src/src/execution/admission.rs\<close>: from a parsed file to a model the executor accepts.
  The GGUF parser, the tokenizer, the digest and the formatting of a plan for it are
  arguments; so are the process environment and the parsing of a float, which belong to the
  standard library. A result of a fallible external call is its \<open>Ok\<close> value or its error.
\<close>

datatype model_error =
    ME_Descriptor admission_error
  | ME_Manifest string
  | ME_Tokenizer string
  | ME_Operator operator_error
  | ME_State state_error
  | ME_Rope rope_error
  | ME_Io string
  | ME_Configuration string string
  | ME_Device string string

type_synonym 'a model_res = "(model_error, 'a) res"

fun me_code :: "model_error \<Rightarrow> string" where
  "me_code (ME_Descriptor e) = ae_code e"
| "me_code (ME_Manifest _) = ''invalid_gguf''"
| "me_code (ME_Tokenizer _) = ''unsupported_tokenizer''"
| "me_code (ME_Operator _) = ''unsupported_operator''"
| "me_code (ME_State _) = ''invalid_state_plan''"
| "me_code (ME_Rope _) = ''invalid_rope_factors''"
| "me_code (ME_Io _) = ''model_io''"
| "me_code (ME_Configuration c _) = c"
| "me_code (ME_Device c _) = c"

definition client_error :: "model_error \<Rightarrow> bool" where
  "client_error e = (case e of ME_Io _ \<Rightarrow> False | ME_Device _ _ \<Rightarrow> False | _ \<Rightarrow> True)"

definition config :: "string \<Rightarrow> string \<Rightarrow> model_error" where
  "config code detail = ME_Configuration code detail"

section \<open>The operators of a plan\<close>

definition op_weight :: "model_manifest \<Rightarrow> string \<Rightarrow> tensor_view model_res" where
  "op_weight m name =
     and_then (ok_or (mf_tensor m name) (config ''missing_tensor'' name)) (\<lambda>t.
     map_err ME_Operator (view_weight t (mf_file_len m)))"

definition op_activation :: "string \<Rightarrow> nat list \<Rightarrow> tensor_view model_res" where
  "op_activation name dims = map_err ME_Operator (view_activation name dims)"

definition op_node ::
    "operator_contract \<Rightarrow> tensor_view list \<Rightarrow> tensor_view \<Rightarrow> validated_operator model_res" where
  "op_node c inputs out = map_err ME_Operator (validate_legacy c inputs out)"

text \<open>One pass of the \<open>for (name, heads)\<close> loop of the head norms.\<close>

definition check_head_norm ::
    "model_manifest \<Rightarrow> nat \<Rightarrow> f32 \<Rightarrow> string \<times> nat \<Rightarrow> validated_operator model_res" where
  "check_head_norm m hdim epsilon nh =
     and_then (op_activation ''head activation'' [1, snd nh, hdim]) (\<lambda>x.
     and_then (op_weight m (fst nh)) (\<lambda>w.
     op_node (OC_HeadNorm (snd nh) hdim epsilon) [x, w] x))"

fun pairing_of :: "rope_layout \<Rightarrow> pairing" where
  "pairing_of Rope_AdjacentPairs = Pair_Adjacent"
| "pairing_of Rope_SplitHalf = Pair_SplitHalf"

fun check_operator :: "model_descriptor \<Rightarrow> model_manifest \<Rightarrow> operator \<Rightarrow> validated_operator list model_res" where
  "check_operator d m (Op_RmsNorm w epsilon) =
     and_then (op_activation ''activation'' [1, md_hidden d]) (\<lambda>x.
     and_then (op_activation ''normalized'' [1, md_hidden d]) (\<lambda>y.
     and_then (op_weight m w) (\<lambda>wt.
     and_then (op_node (OC_Norm Norm_Rms epsilon Scale_Weight False) [x, wt] y) (\<lambda>v. Ok [v]))))"
| "check_operator d m (Op_Linear w input output) =
     and_then (op_activation ''activation'' [1, input]) (\<lambda>x.
     and_then (op_activation ''projected'' [1, output]) (\<lambda>y.
     and_then (op_weight m w) (\<lambda>wt.
     and_then (op_node (OC_Linear False) [x, wt] y) (\<lambda>v. Ok [v]))))"
| "check_operator d m (Op_HeadRmsNorm qw kw hdim epsilon) =
     traverse (check_head_norm m hdim epsilon) [(qw, md_heads d), (kw, md_kv_heads d)]"
| "check_operator d m (Op_RelativeRopeCausalAttention layout rd base ff qh kh hdim scale) =
     and_then (case ff of None \<Rightarrow> Ok () | Some name \<Rightarrow> and_then (op_weight m name) (\<lambda>_. Ok ())) (\<lambda>_.
     and_then (op_activation ''Q'' [1, qh, hdim]) (\<lambda>q.
     and_then (op_activation ''K'' [1, kh, hdim]) (\<lambda>k.
     and_then (op_node (OC_RelativeRopeAttention qh kh hdim rd base (pairing_of layout) scale None 0) [q, k, k] q)
       (\<lambda>v. Ok [v]))))"
| "check_operator d m Op_CacheWrite =
     and_then (op_activation ''KV'' [1, md_kv_heads d, md_head_dim d]) (\<lambda>x.
     and_then (op_node (OC_CacheWrite 0 1 (md_context d)) [x, x] x) (\<lambda>v. Ok [v]))"
| "check_operator d m Op_ResidualAdd =
     and_then (op_activation ''residual'' [1, md_hidden d]) (\<lambda>x.
     and_then (op_node OC_ResidualAdd [x, x] x) (\<lambda>v. Ok [v]))"
| "check_operator d m Op_SiluGateMultiply =
     and_then (op_activation ''FFN'' [1, md_ffn d]) (\<lambda>x.
     and_then (op_node (OC_GateMultiply Act_Silu) [x, x] x) (\<lambda>v. Ok [v]))"

definition checked_operators ::
    "dense_execution_plan \<Rightarrow> model_manifest \<Rightarrow> validated_operator list model_res" where
  "checked_operators p m =
     and_then (traverse (check_operator (ep_descriptor p) m) (all_operators p)) (\<lambda>nodes. Ok (concat nodes))"

section \<open>Inspection\<close>

record model_inspection =
  mi_architecture :: "string option"
  mi_structural_support :: bool
  mi_executor_available :: bool
  mi_execution_configuration :: string
  mi_native_context :: "nat option"
  mi_reason_code :: "string option"
  mi_reason :: "string option"
  mi_numerical_certification :: string
  mi_platform_certification :: string
  mi_chat_template :: "string option"

definition string_value :: "gguf_value option \<Rightarrow> string option" where
  "string_value v = (case v of Some (V_String s) \<Rightarrow> Some s | _ \<Rightarrow> None)"

text \<open>
  \<open>isf\<close> is the cargo feature, \<open>show_error\<close> the derived \<open>Display\<close> of the error. The native
  context is recorded as soon as the descriptor is accepted, before the operators are checked.
\<close>

definition inspect_model ::
    "bool \<Rightarrow> (model_error \<Rightarrow> string) \<Rightarrow> (string, model_manifest) res \<Rightarrow> model_inspection model_res" where
  "inspect_model isf show_error parsed =
     and_then (map_err ME_Manifest parsed) (\<lambda>m.
     let report = \<lparr>mi_architecture = string_value (mf_value m ''general.architecture''),
           mi_structural_support = False, mi_executor_available = isf,
           mi_execution_configuration = ''dense.f32.reference'', mi_native_context = None,
           mi_reason_code = None, mi_reason = None, mi_numerical_certification = ''NOT_RUN'',
           mi_platform_certification = ''NOT_RUN'',
           mi_chat_template = string_value (mf_value m ''tokenizer.chat_template'')\<rparr>;
         failed = (\<lambda>r e. r\<lparr>mi_reason_code := Some (me_code e), mi_reason := Some (show_error e)\<rparr>)
     in case map_err ME_Descriptor (from_manifest m) of
          Panic \<Rightarrow> Panic
        | Err e \<Rightarrow> Ok (failed report e)
        | Ok d \<Rightarrow>
            (let report = report\<lparr>mi_native_context := Some (md_context d)\<rparr> in
             case checked_operators (compile d) m of
               Panic \<Rightarrow> Panic
             | Err e \<Rightarrow> Ok (failed report e)
             | Ok _ \<Rightarrow> Ok (report\<lparr>mi_structural_support := True\<rparr>)))"

section \<open>A validated model\<close>

record validated_model =
  vm_manifest :: model_manifest
  vm_plan :: dense_execution_plan
  vm_operators :: "validated_operator list"
  vm_spec :: model_spec
  vm_identity :: state_identity
  vm_state :: state_spec

text \<open>
  The derived \<open>PartialEq\<close> of \<open>ModelSpec\<close>: the floats compare as floats, so a NaN differs from
  itself and the two zeros are equal.
\<close>

definition spec_floats :: "model_spec \<Rightarrow> f32 list" where
  "spec_floats s = [rms_eps s, rope_base s, rope_scale s, yarn_alpha s, yarn_beta s, attn_logit_softcap s,
     final_logit_softcap s]"

definition without_floats :: "model_spec \<Rightarrow> model_spec" where
  "without_floats s = s\<lparr>rms_eps := 0, rope_base := 0, rope_scale := 0, yarn_alpha := 0, yarn_beta := 0,
     attn_logit_softcap := 0, final_logit_softcap := 0\<rparr>"

definition spec_eq :: "model_spec \<Rightarrow> model_spec \<Rightarrow> bool" where
  "spec_eq a b = (without_floats a = without_floats b \<and> list_all2 f32_eq (spec_floats a) (spec_floats b))"

definition check_spec :: "validated_model \<Rightarrow> model_spec \<Rightarrow> unit model_res" where
  "check_spec v spec =
     (if \<not> spec_eq spec (vm_spec v)
      then Err (config ''model_plan_mismatch'' ''caller ModelSpec differs from validated adapter specification'')
      else Ok ())"

record device_limits =
  dl_max_storage_buffer_binding_size :: u32
  dl_max_buffer_size :: nat
  dl_max_storage_buffers_per_shader_stage :: u32
  dl_max_compute_invocations_per_workgroup :: u32

definition check_span :: "model_manifest \<Rightarrow> chunk_plan \<Rightarrow> nat \<Rightarrow> nat \<Rightarrow> unit model_res" where
  "check_span m chunk start stop =
     (if stop \<le> start \<or> mf_file_len m < stop
      then Err (config ''invalid_tensor_range'' ''empty or out-of-file binding window'')
      else and_then (map_err (ME_Device ''device_binding_window'')
             (window_for_range (word_of_nat (start div 4)) (word_of_nat ((stop - 1) div 4))
               (word_of_nat (effective_chunk chunk div 4)) (num_chunks chunk))) (\<lambda>_. Ok ()))"

definition check_layer_span ::
    "model_manifest \<Rightarrow> dense_execution_plan \<Rightarrow> chunk_plan \<Rightarrow> nat \<Rightarrow> unit model_res" where
  "check_layer_span m p chunk layer =
     (let tensors = filter (\<lambda>t. starts_with (tb_name t) (''blk.'' @ dec layer @ ''.''))
            (md_bindings (ep_descriptor p))
      in case map tb_offset tensors of
           [] \<Rightarrow> Err (config ''missing_layer'' ''empty planned layer'')
         | o1 # os \<Rightarrow>
             (let start = fold min os o1 - 4;
                  stops = map (\<lambda>t. wadd (tb_offset t) (tb_bytes t)) tensors
              in check_span m chunk start (fold max (tl stops) (hd stops))))"

definition check_global_span :: "model_manifest \<Rightarrow> chunk_plan \<Rightarrow> string \<Rightarrow> unit model_res" where
  "check_global_span m chunk name =
     (case mf_tensor m name of
        None \<Rightarrow> Ok ()
      | Some t \<Rightarrow> check_span m chunk (td_absolute_offset t) (wadd (td_absolute_offset t) (td_byte_len t)))"

definition four_gib :: nat where "four_gib = 4 * 1024 * 1024 * 1024"

definition check_device :: "validated_model \<Rightarrow> device_limits \<Rightarrow> state_budget model_res" where
  "check_device v limits =
     and_then (unwrap (compute_chunk_plan (mf_file_len (vm_manifest v))
       (unat (dl_max_storage_buffer_binding_size limits)))) (\<lambda>chunk.
     if dl_max_buffer_size limits < effective_chunk chunk
     then Err (ME_Device ''device_limit'' ''blob chunk exceeds buffer limit'')
     else
     and_then (for_each (check_layer_span (vm_manifest v) (vm_plan v) chunk) [0..<n_layer (vm_spec v)]) (\<lambda>_.
     and_then (for_each (check_global_span (vm_manifest v) chunk) [''token_embd.weight'', ''output.weight'']) (\<lambda>_.
     and_then (map_err ME_State (spec_budget (vm_state v)
       (unat (dl_max_storage_buffer_binding_size limits)) four_gib)) (\<lambda>budget.
     and_then (ok_or (checked_mul (temp_buffer_size (vm_spec v)) 4) (config ''buffer_overflow'' ''scratch'')) (\<lambda>scratch.
     if dl_max_buffer_size limits < scratch
     then Err (ME_Device ''device_limit'' ''scratch buffer exceeds device limit'')
     else if dl_max_storage_buffers_per_shader_stage limits < 14 \<or>
             dl_max_compute_invocations_per_workgroup limits < 256
     then Err (ME_Device ''device_limit'' ''dense kernel binding/workgroup requirements unavailable'')
     else Ok budget)))))"

definition check_forward :: "validated_model \<Rightarrow> model_spec \<Rightarrow> nat \<Rightarrow> nat \<Rightarrow> nat \<Rightarrow> unit model_res" where
  "check_forward v spec rows start stop =
     and_then (check_spec v spec) (\<lambda>_.
     if rows = 0 \<or> checked_add start rows \<noteq> Some stop \<or> ss_capacity (vm_state v) < stop
     then Err (config ''context_length_exceeded''
            ''forward extent does not fit initialized dense state capacity'')
     else for_each (\<lambda>node. map_err ME_Operator (encode (\<lambda>_ _. Ok ()) node)) (vm_operators v))"

section \<open>Configuration\<close>

definition context_limit :: "nat \<Rightarrow> nat option \<Rightarrow> nat model_res" where
  "context_limit native requested =
     (let context = (case requested of None \<Rightarrow> min native 8192 | Some c \<Rightarrow> c) in
      if context = 0 \<or> native < context
      then Err (config ''unsupported_context'' ''context must be positive and at most declared native capacity; extension is not certified'')
      else Ok context)"

text \<open>The environment: a variable is absent, a string, or not UTF-8.\<close>

datatype env_value = Env_NotPresent | Env_NotUnicode | Env_Value string

type_synonym environment = "string \<Rightarrow> env_value"

definition env_is :: "environment \<Rightarrow> string \<Rightarrow> (string \<Rightarrow> bool) \<Rightarrow> bool" where
  "env_is env key p = (case env key of Env_Value v \<Rightarrow> p v | _ \<Rightarrow> False)"

text \<open>\<open>str::parse::<usize>\<close>: an optional plus sign, then digits, in range.\<close>

definition parse_usize :: "string \<Rightarrow> nat option" where
  "parse_usize s =
     (let digits = (case s of [] \<Rightarrow> [] | c # cs \<Rightarrow> if c = CHR ''+'' then cs else s) in
      if digits = [] \<or> \<not> list_all is_digit digits \<or> u64_range \<le> undec digits then None
      else Some (undec digits))"

definition configured_context :: "environment \<Rightarrow> nat option model_res" where
  "configured_context env =
     (case env ''SHIMMY_MAX_CTX'' of
        Env_Value v \<Rightarrow>
          (case parse_usize v of
             Some n \<Rightarrow> Ok (Some n)
           | None \<Rightarrow> Err (config ''invalid_context'' ''SHIMMY_MAX_CTX must be an unsigned integer''))
      | Env_NotPresent \<Rightarrow> Ok None
      | Env_NotUnicode \<Rightarrow> Err (config ''invalid_context'' ''SHIMMY_MAX_CTX is not UTF-8''))"

definition require_diagnostic_execution :: "environment \<Rightarrow> unit model_res" where
  "require_diagnostic_execution env =
     (if env_is env ''AIRFRAME_UNVALIDATED_DIAGNOSTICS'' (\<lambda>v. v = ''1'') then Ok ()
      else Err (config ''unsupported_diagnostic_executor'' ''single-layer helpers are unvalidated diagnostics; use the validated full-model executor, or explicitly set AIRFRAME_UNVALIDATED_DIAGNOSTICS=1 for private diagnostics''))"

definition experimental_flags :: "string list" where
  "experimental_flags =
     [''AIRFRAME_EXPERIMENTAL_STAGED_FFN'', ''AIRFRAME_EXPERIMENTAL_VECTORIZED_FFN'',
      ''SHIMMY_DISABLE_OUTPUT_NORM'', ''SHIMMY_ROUTE_V2_LAYER_PARAMS'', ''AIRFRAME_PINGPONG_ACTIVATION'',
      ''AIRFRAME_EXPERIMENTAL_COOPERATIVE_FFN_DOWN'', ''AIRFRAME_EXPERIMENTAL_COOPERATIVE_QKV'',
      ''AIRFRAME_EXPERIMENTAL_COOPERATIVE_ATTN_PROJ'', ''AIRFRAME_EXPERIMENTAL_KV_ZERO_UPLOAD'']"

definition flag_set :: "environment \<Rightarrow> string \<Rightarrow> bool" where
  "flag_set env flag = env_is env flag (\<lambda>s. s = ''1'' \<or> map lower_char s = ''true'')"

definition check_flag :: "environment \<Rightarrow> string \<Rightarrow> unit model_res" where
  "check_flag env flag =
     (if flag_set env flag
      then Err (config ''unsupported_kernel_configuration'' (flag @ '' is outside the correctness candidate''))
      else Ok ())"

text \<open>\<open>var(a).or_else(|_| var(b))\<close>\<close>

definition env_or_else :: "environment \<Rightarrow> string \<Rightarrow> string \<Rightarrow> env_value" where
  "env_or_else env a b = (case env a of Env_Value v \<Rightarrow> Env_Value v | _ \<Rightarrow> env b)"

definition validate_kernel_configuration ::
    "(string \<Rightarrow> f32 option) \<Rightarrow> environment \<Rightarrow> unit model_res" where
  "validate_kernel_configuration parse_f32 env =
     and_then (for_each (check_flag env) experimental_flags) (\<lambda>_.
     if (case env_or_else env ''SHIMMY_KV_QUANT'' ''AIRFRAME_KV_QUANT'' of
           Env_Value s \<Rightarrow> s \<noteq> ''f32'' \<and> s \<noteq> [] | _ \<Rightarrow> False)
     then Err (config ''unsupported_state_precision'' ''INT4 requires a separately validated operator/state plan'')
     else if env_is env ''SHIMMY_ROPE_SCALE''
            (\<lambda>v. case parse_f32 v of None \<Rightarrow> True | Some x \<Rightarrow> \<not> f32_eq x f32_one)
     then Err (config ''unsupported_position_scaling'' ''runtime RoPE extension/scaling is not certified'')
     else Ok ())"

section \<open>Loading\<close>

text \<open>
  What the file and the external crates give to a load: the mapped bytes (or the I/O error),
  the manifest parsed from them, whether the tokenizer can be built, the hexadecimal digest
  and the text of a plan and specification, and the order of the keys of the metadata maps.
\<close>

record load_world =
  lw_bytes :: "(string, bytes) res"
  lw_manifest :: "bytes \<Rightarrow> (string, model_manifest) res"
  lw_tokenizer :: "bytes \<Rightarrow> (string, unit) res"
  lw_sha256 :: "bytes \<Rightarrow> string"
  lw_plan_text :: "dense_execution_plan \<Rightarrow> model_spec \<Rightarrow> bytes"
  lw_keys :: "string list"
  lw_math :: float_math
  lw_parse_f32 :: "string \<Rightarrow> f32 option"

record prepared_model =
  pm_bytes :: bytes
  pm_validated :: validated_model
  pm_metadata :: bindless_metadata
  pm_rope_tables :: "f32 list \<times> f32 list"

definition add_bos_token :: "model_manifest \<Rightarrow> bool model_res" where
  "add_bos_token m =
     (case mf_value m ''tokenizer.ggml.add_bos_token'' of
        Some (V_Bool b) \<Rightarrow> Ok b
      | None \<Rightarrow> Ok (string_value (mf_value m ''tokenizer.ggml.model'') \<in> {Some ''llama'', Some ''spm''})
      | Some _ \<Rightarrow> Err (config ''invalid_special_token_metadata'' ''tokenizer.ggml.add_bos_token''))"

definition require_token :: "model_manifest \<Rightarrow> nat \<Rightarrow> string \<Rightarrow> unit model_res" where
  "require_token m vocabulary key =
     (case mf_value m key of
        Some (V_U32 i) \<Rightarrow> if unat i < vocabulary then Ok ()
          else Err (config ''invalid_special_token_metadata'' key)
      | _ \<Rightarrow> Err (config ''invalid_special_token_metadata'' key))"

definition check_special_token :: "model_manifest \<Rightarrow> nat \<Rightarrow> string \<Rightarrow> unit model_res" where
  "check_special_token m vocabulary key =
     (if key = ''tokenizer.ggml.bos_token_id'' \<and> mf_value m key = None
      then and_then (add_bos_token m) (\<lambda>add_bos. if \<not> add_bos then Ok () else require_token m vocabulary key)
      else require_token m vocabulary key)"

definition check_width :: "string \<times> nat option \<Rightarrow> unit model_res" where
  "check_width nw =
     (case snd nw of
        Some v \<Rightarrow> if 2 ^ 32 - 1 < v then Err (config ''unsupported_index_width'' (fst nw)) else Ok ()
      | None \<Rightarrow> Err (config ''unsupported_index_width'' (fst nw)))"

definition index_widths :: "model_descriptor \<Rightarrow> nat \<Rightarrow> (string \<times> nat option) list" where
  "index_widths d capacity =
     [(''hidden'', Some (md_hidden d)), (''heads'', Some (md_heads d)), (''kv_heads'', Some (md_kv_heads d)),
      (''head_dim'', Some (md_head_dim d)), (''ffn'', Some (md_ffn d)), (''layers'', Some (md_layers d)),
      (''vocabulary'', Some (md_vocab d)), (''context'', Some capacity)]"

definition product_widths :: "model_descriptor \<Rightarrow> (string \<times> nat option) list" where
  "product_widths d =
     [(''Q width'', checked_mul (md_heads d) (md_head_dim d)),
      (''KV width'', checked_mul (md_kv_heads d) (md_head_dim d)),
      (''scratch width'', Option.bind (checked_mul (md_ffn d) 2) (\<lambda>n. checked_add n (md_hidden d)))]"

text \<open>The adapter's specification agrees with the descriptor.\<close>

definition semantics_differ :: "model_spec \<Rightarrow> bool" where
  "semantics_differ s = (spec_norm s \<noteq> NK_Rms \<or> post_norm_enabled s \<or>
     \<not> f32_eq (attn_logit_softcap s) 0 \<or> \<not> f32_eq (final_logit_softcap s) 0)"

definition dimensions_differ :: "model_spec \<Rightarrow> model_descriptor \<Rightarrow> bool" where
  "dimensions_differ s d =
     (n_embd s \<noteq> md_hidden d \<or> n_head s \<noteq> md_heads d \<or> n_head_kv s \<noteq> md_kv_heads d \<or> n_layer s \<noteq> md_layers d \<or>
      ff_dim s \<noteq> md_ffn d \<or> head_dim s \<noteq> md_head_dim d \<or> n_vocab s \<noteq> md_vocab d \<or>
      \<not> f32_eq (rms_eps s) (md_rms_epsilon d) \<or> rope_dim s \<noteq> md_rope_dimensions d \<or>
      \<not> f32_eq (rope_base s) (md_rope_base d))"

definition state_of :: "model_descriptor \<Rightarrow> nat \<Rightarrow> state_spec" where
  "state_of d capacity = \<lparr>ss_kind = DenseKv, ss_layers = md_layers d, ss_kv_heads = md_kv_heads d,
     ss_head_dim = md_head_dim d, ss_capacity = capacity, ss_precision = KP_F32\<rparr>"

definition load :: "bool \<Rightarrow> environment \<Rightarrow> load_world \<Rightarrow> nat option \<Rightarrow> prepared_model model_res" where
  "load isf env w context =
     and_then (validate_kernel_configuration (lw_parse_f32 w) env) (\<lambda>_.
     if \<not> isf then Err (config ''unsupported_executor'' ''validated dense generation requires the isf executor'')
     else
     and_then (map_err ME_Io (lw_bytes w)) (\<lambda>raw.
     and_then (map_err ME_Manifest (lw_manifest w raw)) (\<lambda>m.
     if 2 ^ 32 - 1 < length raw
     then Err (config ''unsupported_address_width'' ''legacy embedding offsets exceed u32 address space'')
     else
     and_then (map_err ME_Descriptor (from_manifest m)) (\<lambda>d.
     and_then (map_err ME_Tokenizer (lw_tokenizer w raw)) (\<lambda>_.
     and_then (for_each (check_special_token m (md_vocab d))
       [''tokenizer.ggml.bos_token_id'', ''tokenizer.ggml.eos_token_id'']) (\<lambda>_.
     and_then (context_limit (md_context d) context) (\<lambda>capacity.
     and_then (checked_operators (compile d) m) (\<lambda>operators.
     and_then (map_err ME_Manifest (metadata_from_manifest (lw_keys w) m)) (\<lambda>metadata.
     and_then (for_each check_width (index_widths d capacity)) (\<lambda>_.
     and_then (unwrap (to_model_spec metadata)) (\<lambda>spec.
     if semantics_differ spec
     then Err (config ''unsupported_operator_semantics'' ''legacy adapter disagrees with dense RMSNorm/uncapped plan'')
     else if dimensions_differ spec d
     then Err (config ''model_plan_mismatch'' ''legacy dimensions/position/norm metadata differ from checked descriptor'')
     else
     and_then (for_each check_width (product_widths d)) (\<lambda>_.
     and_then (compute_derived (spec\<lparr>n_ctx := capacity, rope_scale := f32_one\<rparr>)) (\<lambda>spec.
     and_then (map_err ME_State (spec_budget (state_of d capacity) (u64_range - 1) four_gib)) (\<lambda>_.
     and_then (map_err ME_Rope (prepare_rope_tables (lw_math w) raw metadata spec)) (\<lambda>tables.
     Ok \<lparr>pm_bytes = raw,
          pm_validated = \<lparr>vm_manifest = m, vm_plan = compile d, vm_operators = operators, vm_spec = spec,
            vm_identity = \<lparr>si_model_sha256 = lw_sha256 w raw,
              si_plan_sha256 = lw_sha256 w (lw_plan_text w (compile d) spec)\<rparr>,
            vm_state = state_of d capacity\<rparr>,
          pm_metadata = metadata, pm_rope_tables = tables\<rparr>)))))))))))))))"

section \<open>Every accepted model has operators the kernels accept\<close>

text \<open>What an operator of the plan becomes.\<close>

fun contracts_of :: "model_descriptor \<Rightarrow> operator \<Rightarrow> operator_contract list" where
  "contracts_of d (Op_RmsNorm w epsilon) = [OC_Norm Norm_Rms epsilon Scale_Weight False]"
| "contracts_of d (Op_Linear w i j) = [OC_Linear False]"
| "contracts_of d (Op_HeadRmsNorm qw kw n epsilon) =
     [OC_HeadNorm (md_heads d) n epsilon, OC_HeadNorm (md_kv_heads d) n epsilon]"
| "contracts_of d (Op_RelativeRopeCausalAttention layout rd base ff qh kh n scale) =
     [OC_RelativeRopeAttention qh kh n rd base (pairing_of layout) scale None 0]"
| "contracts_of d Op_CacheWrite = [OC_CacheWrite 0 1 (md_context d)]"
| "contracts_of d Op_ResidualAdd = [OC_ResidualAdd]"
| "contracts_of d Op_SiluGateMultiply = [OC_GateMultiply Act_Silu]"

text \<open>The dimensions of an activation whose bytes can be counted.\<close>

definition dims_fit :: "nat list \<Rightarrow> bool" where
  "dims_fit dims = (dims \<noteq> [] \<and> 0 \<notin> set dims \<and> 4 * prod_list dims < u64_range)"

lemma checked_product_fit:
  assumes "0 \<notin> set ds" and "a * prod_list ds < u64_range"
  shows "checked_product a ds = Some (a * prod_list ds)"
  using assms
proof (induction ds arbitrary: a)
  case (Cons x xs)
  have "1 \<le> prod_list xs" using Cons.prems(1) by (simp add: prod_list_zero_iff Suc_le_eq flip: neq0_conv)
  then have le: "a * x * 1 \<le> a * x * prod_list xs" by (rule mult_le_mono2)
  have lt: "a * x * prod_list xs < u64_range" using Cons.prems(2) by (simp add: mult.assoc)
  with le have "a * x < u64_range" by (simp only: mult_1_right le_less_trans)
  then have c: "checked_mul a x = Some (a * x)" by simp
  have "0 \<notin> set xs" using Cons.prems(1) by simp
  from Cons.IH [OF this lt] show ?case unfolding checked_product.simps c by (simp add: mult.assoc)
qed simp

definition f32_activation :: "string \<Rightarrow> nat list \<Rightarrow> tensor_view" where
  "f32_activation name dims =
     \<lparr>tv_name = name, tv_dimensions = dims, tv_ggml_type = 0, tv_offset = 0, tv_bytes = prod_list dims * 4\<rparr>"

lemma op_activation_fit:
  assumes "dims_fit dims"
  shows "op_activation name dims = Ok (f32_activation name dims)"
proof -
  have f: "0 \<notin> set dims" "1 * prod_list dims < u64_range" "prod_list dims * 4 < u64_range"
    "\<not> (dims = [] \<or> 0 \<in> set dims)" using assms by (simp_all add: dims_fit_def)
  have c: "checked_mul (prod_list dims) 4 = Some (prod_list dims * 4)" using f(3) by simp
  show ?thesis
    unfolding op_activation_def map_err_Ok view_activation_def if_not_P [OF f(4)]
    using checked_product_fit [OF f(1,2)] c by (simp add: f32_activation_def)
qed

lemma f32_activation_view [simp]:
  "f32_view (f32_activation name dims) dims' = (dims' = dims)"
  "tv_dimensions (f32_activation name dims) = dims" "tv_ggml_type (f32_activation name dims) = 0"
  by (auto simp: f32_activation_def f32_view_def)

lemma op_weight_fit:
  assumes "manifest_ok m" and "mf_tensor m name = Some t"
  shows "\<exists>w. op_weight m name = Ok w \<and> tv_dimensions w = td_dimensions t \<and> tv_ggml_type w = td_ggml_type t"
proof -
  have ok: "descriptor_ok (mf_file_len m) t" and "mf_file_len m < 2 ^ 63"
    using mf_tensor_ok [OF assms] assms(1) by (simp_all add: manifest_ok_def)
  then have "td_absolute_offset t + td_byte_len t < u64_range" "td_dimensions t \<noteq> []"
    "0 \<notin> set (td_dimensions t)" "td_absolute_offset t + td_byte_len t \<le> mf_file_len m"
    by (auto simp: descriptor_ok_def u64_range_def)
  then show ?thesis using assms(2) unfolding op_weight_def and_then_eq_Ok map_err_Ok view_weight_def
    by (auto simp: not_less)
qed

lemma op_node_fit:
  assumes "op_accepts c inputs out"
  shows "op_node c inputs out = Ok \<lparr>vo_contract = c, vo_output = \<lparr>out_dimensions = tv_dimensions out,
    out_precision = Prec_F32, out_effects = op_effects c inputs\<rparr>\<rparr>"
  unfolding op_node_def map_err_Ok validate_legacy_Ok using assms by simp

text \<open>The state an operator reads or writes.\<close>

fun effects_of :: "operator \<Rightarrow> state_effects list" where
  "effects_of Op_CacheWrite = [Eff_WriteDenseKv 0 1]"
| "effects_of (Op_RelativeRopeCausalAttention _ _ _ _ _ _ _ _) = [Eff_ReadDenseKv 1]"
| "effects_of (Op_HeadRmsNorm _ _ _ _) = [Eff_None, Eff_None]"
| "effects_of _ = [Eff_None]"

definition node_effect :: "validated_operator \<Rightarrow> state_effects" where
  "node_effect v = out_effects (vo_output v)"

text \<open>What an operator needs of the descriptor and the file.\<close>

fun op_fits :: "model_descriptor \<Rightarrow> operator \<Rightarrow> bool" where
  "op_fits d (Op_RmsNorm w epsilon) = (dims_fit [1, md_hidden d] \<and> positive_f32 epsilon)"
| "op_fits d (Op_Linear w i j) = (dims_fit [1, i] \<and> dims_fit [1, j])"
| "op_fits d (Op_HeadRmsNorm qw kw n epsilon) =
     (dims_fit [1, md_heads d, n] \<and> dims_fit [1, md_kv_heads d, n] \<and> positive_f32 epsilon)"
| "op_fits d (Op_RelativeRopeCausalAttention layout rd base ff qh kh n scale) =
     (dims_fit [1, qh, n] \<and> dims_fit [1, kh, n] \<and> positive_f32 base \<and> positive_f32 scale \<and> qh mod kh = 0 \<and>
      0 < rd \<and> even rd \<and> rd \<le> n)"
| "op_fits d Op_CacheWrite = (dims_fit [1, md_kv_heads d, md_head_dim d] \<and> 0 < md_context d)"
| "op_fits d Op_ResidualAdd = dims_fit [1, md_hidden d]"
| "op_fits d Op_SiluGateMultiply = dims_fit [1, md_ffn d]"

lemma f32_activation_type: "tv_ggml_type (f32_activation name dims) = 0 \<and> tv_dimensions (f32_activation name dims) = dims"
  by simp

lemma meets_weight:
  assumes "manifest_ok m" and "meets m (name, expected, is_norm)"
  shows "\<exists>w. op_weight m name = Ok w \<and> tv_dimensions w = expected \<and> supported_type (tv_ggml_type w) \<and>
    (is_norm \<longrightarrow> tv_ggml_type w = 0)"
proof -
  obtain t where t: "mf_tensor m name = Some t" "td_dimensions t = expected" "supported_type (td_ggml_type t)"
    "is_norm \<longrightarrow> td_ggml_type t = 0" using assms(2) by (auto simp: meets_def)
  with op_weight_fit [OF assms(1) t(1)] show ?thesis by auto
qed

lemma check_head_norm_fit:
  assumes "manifest_ok m" and "meets m (name, [n], True)" and "dims_fit [1, heads, n]" and "positive_f32 epsilon"
  shows "\<exists>v. check_head_norm m n epsilon (name, heads) = Ok v \<and> vo_contract v = OC_HeadNorm heads n epsilon \<and>
    node_effect v = Eff_None"
proof -
  obtain w where w: "op_weight m name = Ok w" "tv_dimensions w = [n]" "tv_ggml_type w = 0"
    using meets_weight [OF assms(1,2)] by blast
  let ?x = "f32_activation ''head activation'' [1, heads, n]"
  have "op_accepts (OC_HeadNorm heads n epsilon) [?x, w] ?x"
    using assms(3,4) w by (simp add: dims_fit_def f32_view_def)
  from op_node_fit [OF this] show ?thesis
    unfolding check_head_norm_def snd_conv fst_conv op_activation_fit [OF assms(3)] w(1) and_then.simps node_effect_def
    by simp
qed

lemma check_operator_fit:
  assumes m: "manifest_ok m" and fits: "op_fits d op"
    and req: "\<forall>req\<in>set (operator_weights op d). meets m req"
  shows "\<exists>nodes. check_operator d m op = Ok nodes \<and> map vo_contract nodes = contracts_of d op \<and>
    map node_effect nodes = effects_of op"
proof (cases op)
  case (Op_RmsNorm name epsilon)
  then obtain w where w: "op_weight m name = Ok w" "tv_dimensions w = [md_hidden d]" "tv_ggml_type w = 0"
    using meets_weight [OF m] req by fastforce
  let ?x = "f32_activation ''activation'' [1, md_hidden d]" and ?y = "f32_activation ''normalized'' [1, md_hidden d]"
  have "op_accepts (OC_Norm Norm_Rms epsilon Scale_Weight False) [?x, w] ?y"
    using fits w Op_RmsNorm by (simp add: f32_view_def)
  from op_node_fit [OF this] fits w Op_RmsNorm show ?thesis
    by (simp add: op_activation_fit node_effect_def del: and_then_eq_Ok)
next
  case (Op_Linear name i j)
  then obtain w where w: "op_weight m name = Ok w" "tv_dimensions w = [i, j]" "supported_type (tv_ggml_type w)"
    using meets_weight [OF m] req by fastforce
  let ?x = "f32_activation ''activation'' [1, i]" and ?y = "f32_activation ''projected'' [1, j]"
  have "op_accepts (OC_Linear False) [?x, w] ?y" using w by (simp add: f32_view_def)
  from op_node_fit [OF this] fits w Op_Linear show ?thesis
    by (simp add: op_activation_fit node_effect_def del: and_then_eq_Ok)
next
  case (Op_HeadRmsNorm qw kw n epsilon)
  then have "\<exists>v. check_head_norm m n epsilon (qw, md_heads d) = Ok v \<and> vo_contract v = OC_HeadNorm (md_heads d) n epsilon \<and>
      node_effect v = Eff_None"
    "\<exists>v. check_head_norm m n epsilon (kw, md_kv_heads d) = Ok v \<and> vo_contract v = OC_HeadNorm (md_kv_heads d) n epsilon \<and>
      node_effect v = Eff_None"
    using fits req by (auto intro!: check_head_norm_fit [OF m])
  then show ?thesis unfolding Op_HeadRmsNorm by (elim exE conjE) (simp del: and_then_eq_Ok)
next
  case Op_CacheWrite
  let ?x = "f32_activation ''KV'' [1, md_kv_heads d, md_head_dim d]"
  have "op_accepts (OC_CacheWrite 0 1 (md_context d)) [?x, ?x] ?x"
    using fits Op_CacheWrite by (simp add: f32_view_def u64_range_def Suc_le_eq)
  from op_node_fit [OF this] fits Op_CacheWrite show ?thesis
    by (simp add: op_activation_fit node_effect_def del: and_then_eq_Ok)
next
  case (Op_RelativeRopeCausalAttention layout rd base ff qh kh n scale)
  let ?q = "f32_activation ''Q'' [1, qh, n]" and ?k = "f32_activation ''K'' [1, kh, n]"
  have ff: "(case ff of None \<Rightarrow> Ok () | Some name \<Rightarrow> and_then (op_weight m name) (\<lambda>_. Ok ())) = Ok ()"
    using meets_weight [OF m] req Op_RelativeRopeCausalAttention by (cases ff) fastforce+
  have "op_accepts (OC_RelativeRopeAttention qh kh n rd base (pairing_of layout) scale None 0) [?q, ?k, ?k] ?q"
    using fits Op_RelativeRopeCausalAttention by (simp add: dims_fit_def u64_range_def)
  from op_node_fit [OF this] fits Op_RelativeRopeCausalAttention show ?thesis
    by (simp add: ff op_activation_fit node_effect_def del: and_then_eq_Ok)
next
  case Op_ResidualAdd
  let ?x = "f32_activation ''residual'' [1, md_hidden d]"
  have "op_accepts OC_ResidualAdd [?x, ?x] ?x" by simp
  from op_node_fit [OF this] fits Op_ResidualAdd show ?thesis
    by (simp add: op_activation_fit node_effect_def del: and_then_eq_Ok)
next
  case Op_SiluGateMultiply
  let ?x = "f32_activation ''FFN'' [1, md_ffn d]"
  have "op_accepts (OC_GateMultiply Act_Silu) [?x, ?x] ?x" by simp
  from op_node_fit [OF this] fits Op_SiluGateMultiply show ?thesis
    by (simp add: op_activation_fit node_effect_def del: and_then_eq_Ok)
qed

lemma meets_second:
  assumes "manifest_ok m" and "meets m (name, [i, j], is_norm)"
  shows "dims_fit [1, j]"
proof -
  obtain t where t: "mf_tensor m name = Some t" "td_dimensions t = [i, j]" "supported_type (td_ggml_type t)"
    using assms(2) by (auto simp: meets_def)
  have ok: "descriptor_ok (mf_file_len m) t" "mf_file_len m < 2 ^ 63"
    using mf_tensor_ok [OF assms(1) t(1)] assms(1) by (simp_all add: manifest_ok_def)
  have "2 * j \<le> td_byte_len t" "td_byte_len t \<le> mf_file_len m" using descriptor_bytes [OF ok(1) t(3,2)] by simp_all
  moreover have "0 < j" using ok(1) t(2) by (simp add: descriptor_ok_def)
  ultimately show ?thesis using ok(2) by (simp add: dims_fit_def u64_range_def)
qed

lemma dense_widths:
  assumes ok: "manifest_ok m" and d: "from_manifest m = Ok d"
  shows "dims_fit [1, md_hidden d]" and "dims_fit [1, md_heads d * md_head_dim d]"
    and "dims_fit [1, md_kv_heads d * md_head_dim d]" and "dims_fit [1, md_ffn d]" and "dims_fit [1, md_vocab d]"
proof -
  note b = from_manifest_bindings(1) [OF d]
  have L: "0 < md_layers d" and h: "0 < md_hidden d"
    using from_manifest_geometry [OF d] by (simp_all add: geometry_ok_def)
  have layer: "meets m req" if "req \<in> set (layer_requirements (md_architecture d) (md_hidden d)
      (md_heads d * md_head_dim d) (md_kv_heads d * md_head_dim d) (md_ffn d) (md_head_dim d) 0)" for req
    using b that L by (force simp: requirements_def)
  have lr: "meets m (layer_name 0 ''attn_q.weight'', [md_hidden d, md_heads d * md_head_dim d], False)"
    "meets m (layer_name 0 ''attn_k.weight'', [md_hidden d, md_kv_heads d * md_head_dim d], False)"
    "meets m (layer_name 0 ''ffn_gate.weight'', [md_hidden d, md_ffn d], False)"
    by (rule layer; simp add: layer_requirements_def)+
  then show "dims_fit [1, md_heads d * md_head_dim d]" "dims_fit [1, md_kv_heads d * md_head_dim d]"
    "dims_fit [1, md_ffn d]" using meets_second [OF ok] by blast+
  have gr: "meets m (''token_embd.weight'', [md_hidden d, md_vocab d], False)"
    "meets m (''output_norm.weight'', [md_hidden d], True)"
    using b by (simp_all add: requirements_def global_requirements_def)
  then show "dims_fit [1, md_vocab d]" using meets_second [OF ok] by blast
  obtain t where t: "mf_tensor m ''output_norm.weight'' = Some t" "td_dimensions t = [md_hidden d]" "td_ggml_type t = 0"
    using gr(2) by (auto simp: meets_def)
  then have "4 * md_hidden d \<le> mf_file_len m"
    using descriptor_bytes_f32 [OF mf_tensor_ok [OF ok t(1)] t(3,2)] by simp
  then show "dims_fit [1, md_hidden d]" using ok h by (simp add: dims_fit_def manifest_ok_def u64_range_def)
qed

lemma plan_op_fits:
  assumes ok: "manifest_ok m" and d: "from_manifest m = Ok d" and op: "op \<in> set (all_operators (compile d))"
  shows "op_fits d op"
proof -
  have g: "geometry_ok d" by (rule from_manifest_geometry [OF d])
  note w = dense_widths [OF ok d]
  have heads: "dims_fit [1, md_heads d, md_head_dim d]" "dims_fit [1, md_kv_heads d, md_head_dim d]"
    using w(2,3) by (simp_all add: dims_fit_def)
  have mul: "wmul (md_heads d) (md_head_dim d) = md_heads d * md_head_dim d"
    "wmul (md_kv_heads d) (md_head_dim d) = md_kv_heads d * md_head_dim d"
    using g by (simp_all add: geometry_ok_def)
  have pos: "positive_f32 (md_rms_epsilon d)" "positive_f32 (md_rope_base d)"
    using g by (simp_all add: geometry_ok_def positive_f32_def)
  have scale: "positive_f32 (attention_scale d)"
    unfolding positive_f32_def attention_scale_def
    by (rule f32_between_positive, rule rsqrt_between) (use g in \<open>simp_all add: geometry_ok_def u64_range_def\<close>)
  have rope: "md_heads d mod md_kv_heads d = 0" "0 < md_rope_dimensions d" "even (md_rope_dimensions d)"
    "md_rope_dimensions d \<le> md_head_dim d" "0 < md_context d" using g by (simp_all add: geometry_ok_def)
  have "list_all (op_fits d) (lpl_operators (compile_layer d l))" for l
    by (simp add: compile_layer_def Let_def mul w heads pos scale rope del: One_nat_def)
  then have "op_fits d op" if "op \<in> set (lpl_operators (compile_layer d l))" for l op
    using that by (simp add: list_all_iff)
  then show ?thesis using op by (auto simp: all_operators_def compile_def w pos simp del: One_nat_def)
qed

lemma plan_effects:
  "filter (\<lambda>e. e \<noteq> Eff_None) (concat (map effects_of (all_operators (compile d)))) =
     concat (replicate (md_layers d) [Eff_WriteDenseKv 0 1, Eff_ReadDenseKv 1])"
proof -
  have layer: "filter (\<lambda>e. e \<noteq> Eff_None) (concat (map effects_of (lpl_operators (compile_layer d l)))) =
      [Eff_WriteDenseKv 0 1, Eff_ReadDenseKv 1]" for l
    by (simp add: compile_layer_def Let_def)
  have "filter (\<lambda>e. e \<noteq> Eff_None) (concat (map effects_of (concat (map lpl_operators (map (compile_layer d) ls))))) =
      concat (replicate (length ls) [Eff_WriteDenseKv 0 1, Eff_ReadDenseKv 1])" for ls
    by (induction ls) (simp_all add: layer)
  from this [of "[0..<md_layers d]"] show ?thesis by (simp add: all_operators_def compile_def)
qed

lemma checked_operators_total:
  assumes ok: "manifest_ok m" and d: "from_manifest m = Ok d"
  shows "\<exists>nodes. checked_operators (compile d) m = Ok nodes \<and>
    map vo_contract nodes = concat (map (contracts_of d) (all_operators (compile d))) \<and>
    map node_effect nodes = concat (map effects_of (all_operators (compile d)))"
proof -
  have "meets m req" if "op \<in> set (all_operators (compile d))" "req \<in> set (operator_weights op d)" for op req
  proof -
    have "req \<in> set (plan_weights (compile d))" using that by (auto simp: plan_weights_def compile_def)
    then show ?thesis using plan_weights_eq [OF d] requirement_bound(1) [OF d] by blast
  qed
  then have "\<forall>op\<in>set (all_operators (compile d)). \<exists>nodes. check_operator d m op = Ok nodes \<and>
      (map vo_contract nodes = contracts_of d op \<and> map node_effect nodes = effects_of op)"
    using check_operator_fit [OF ok plan_op_fits [OF ok d]] by blast
  from traverse_ex [OF this] obtain nodess where n: "traverse (check_operator d m) (all_operators (compile d)) = Ok nodess"
    "list_all2 (\<lambda>op nodes. map vo_contract nodes = contracts_of d op \<and> map node_effect nodes = effects_of op)
       (all_operators (compile d)) nodess" by blast
  have "map vo_contract (concat nodess) = concat (map (contracts_of d) (all_operators (compile d)))"
    by (rule concat_pieces) (rule list_all2_mono [OF n(2)], blast)
  moreover have "map node_effect (concat nodess) = concat (map effects_of (all_operators (compile d)))"
    by (rule concat_pieces) (rule list_all2_mono [OF n(2)], blast)
  moreover have "checked_operators (compile d) m = Ok (concat nodess)"
    using n(1) by (simp add: checked_operators_def compile_def del: and_then_eq_Ok)
  ultimately show ?thesis by blast
qed

text \<open>
  C18: Every model the descriptor accepts has operators the dense kernels accept: checking
  the compiled plan of a well-formed file never fails and never panics; the nodes carry the
  contracts of the plan's operators in order, and the only effects on the state are, for
  every layer, the write of the token's key and value followed by the attention's read.
\<close>

theorem accepted_plan_checks:
  assumes "manifest_ok m" and "from_manifest m = Ok d"
  shows "\<exists>nodes. checked_operators (compile d) m = Ok nodes \<and>
    map vo_contract nodes = concat (map (contracts_of d) (all_operators (compile d))) \<and>
    filter (\<lambda>e. e \<noteq> Eff_None) (map node_effect nodes) =
      concat (replicate (md_layers d) [Eff_WriteDenseKv 0 1, Eff_ReadDenseKv 1])"
  using checked_operators_total [OF assms] plan_effects by metis

lemma accepted_plan_checks_witness:
  "\<exists>d nodes. from_manifest sample_manifest = Ok d \<and> checked_operators (compile d) sample_manifest = Ok nodes \<and>
     filter (\<lambda>e. e \<noteq> Eff_None) (map node_effect nodes) = [Eff_WriteDenseKv 0 1, Eff_ReadDenseKv 1]"
proof -
  obtain d where d: "from_manifest sample_manifest = Ok d" using sample_accepted unfolding is_ok_iff by blast
  with accepted_plan_checks [OF sample_manifest_ok d] sample_dims(2) [OF d] show ?thesis by auto
qed

section \<open>Inspection\<close>

lemma md_required_no_panic: "md_required m prefix suffix \<noteq> Panic"
  by (auto simp: md_required_def md_integer_def Let_def and_then_eq_Panic split: option.splits gguf_value.splits)

lemma descriptor_reads_no_panic:
  "read_architecture m \<noteq> Panic" "md_float m prefix suffix \<noteq> Panic" "read_head_dim m arch prefix hidden heads \<noteq> Panic"
  "check_value_length m prefix hdim \<noteq> Panic" "read_rope_dimensions m prefix hdim \<noteq> Panic"
  "read_vocabulary m hidden \<noteq> Panic"
  using md_required_no_panic
  by (auto simp: read_architecture_def md_float_def read_head_dim_def check_value_length_def read_rope_dimensions_def
      read_vocabulary_def Let_def and_then_eq_Panic split: option.splits gguf_value.splits architecture.splits if_splits)

lemma bind_tensor_no_panic: "bind_tensor m req bs \<noteq> Panic"
  by (auto simp: bind_tensor_def validate_tensor_def and_then_eq_Panic split: prod.splits)

lemma descriptor_loops_no_panic:
  "for_each check_execution_key kvs \<noteq> Panic" "for_each check_position_key kvs \<noteq> Panic"
  "for_each (check_planned bs) ts \<noteq> Panic" "bind_globals m hidden vocab rd \<noteq> Panic"
  "bind_layers m arch layers hidden qw kw ffn hdim bs \<noteq> Panic"
proof -
  show "for_each check_execution_key kvs \<noteq> Panic"
    by (rule for_each_no_panic) (simp add: check_execution_key_def split: prod.splits)
  show "for_each check_position_key kvs \<noteq> Panic"
    by (rule for_each_no_panic) (simp add: check_position_key_def split: prod.splits)
  show "for_each (check_planned bs) ts \<noteq> Panic"
    by (rule for_each_no_panic) (simp add: check_planned_def Let_def)
  show "bind_globals m hidden vocab rd \<noteq> Panic"
    using bind_tensor_no_panic by (auto simp: bind_globals_def and_then_eq_Panic)
  show "bind_layers m arch layers hidden qw kw ffn hdim bs \<noteq> Panic"
    unfolding bind_layers_def by (intro fold_res_no_panic bind_tensor_no_panic)
qed

lemma from_manifest_no_panic: "from_manifest m \<noteq> Panic"
  unfolding from_manifest_def Let_def
  by (intro and_then_no_panic if_no_panic md_required_no_panic descriptor_reads_no_panic
      descriptor_loops_no_panic ok_or_no_panic res.distinct)

text \<open>
  C37: The verdict of an inspection is the descriptor's: on a well-formed file it is a
  report, never an error or a panic; structural support is claimed exactly when the
  descriptor is accepted, in which case the native context is the descriptor's and no
  reason is given, and otherwise the reason code is that of the descriptor's error.
\<close>

theorem inspection_verdict:
  assumes "manifest_ok m"
  shows "\<exists>r. inspect_model isf show_error (Ok m) = Ok r \<and>
    (case from_manifest m of
       Ok d \<Rightarrow> mi_structural_support r \<and> mi_native_context r = Some (md_context d) \<and> mi_reason_code r = None
     | Err e \<Rightarrow> \<not> mi_structural_support r \<and> mi_native_context r = None \<and> mi_reason_code r = Some (ae_code e)
     | Panic \<Rightarrow> False)"
proof (cases "from_manifest m")
  case (Ok d)
  then obtain nodes where "checked_operators (compile d) m = Ok nodes"
    using checked_operators_total [OF assms] by blast
  with Ok show ?thesis by (simp add: inspect_model_def Let_def del: and_then_eq_Ok)
next
  case (Err e)
  then show ?thesis by (simp add: inspect_model_def Let_def del: and_then_eq_Ok)
qed (use from_manifest_no_panic in simp)

lemma inspection_verdict_witness:
  "\<exists>r. inspect_model True me_code (Ok sample_manifest) = Ok r \<and> mi_structural_support r \<and> mi_reason_code r = None"
proof -
  obtain d where "from_manifest sample_manifest = Ok d" using sample_accepted unfolding is_ok_iff by blast
  with inspection_verdict [OF sample_manifest_ok, of True me_code] show ?thesis by auto
qed

section \<open>The device check\<close>

lemma spans_of_bindings:
  "layer_spans (dense_bindings d) l = map (\<lambda>t. (tb_offset t, tb_bytes t))
     (filter (\<lambda>t. starts_with (tb_name t) (''blk.'' @ dec l @ ''.'')) (md_bindings d))"
  unfolding layer_spans_def dense_bindings_def filter_map o_def fst_conv by (simp add: o_def)

lemma check_layer_span_window:
  assumes adm: "admitted m d keys" and l: "l < md_layers d"
    and chk: "check_layer_span m (compile d) p l = Ok ()"
  shows "\<exists>stop w. (\<forall>(a, n)\<in>layer_extent m l. a + n \<le> stop) \<and> (\<exists>(a, n)\<in>layer_extent m l. a + n = stop) \<and>
    window_for_range (word_of_nat (entry_base m keys l div 4)) (word_of_nat ((stop - 1) div 4))
      (chunk_words_of p) (num_chunks p) = Ok w"
proof -
  let ?ts = "filter (\<lambda>t. starts_with (tb_name t) (''blk.'' @ dec l @ ''.'')) (md_bindings d)"
  have spans: "layer_extent m l = set (map (\<lambda>t. (tb_offset t, tb_bytes t)) ?ts)"
    using layer_spans_dense [OF adm, of l] unfolding spans_of_bindings by simp
  have n: "mf_file_len m < 2 ^ 32" using adm by (simp add: admitted_def)
  obtain t0 ts where ts: "?ts = t0 # ts"
  proof -
    have "map tb_offset ?ts \<noteq> []" using chk by (auto simp: check_layer_span_def Let_def compile_def)
    then show ?thesis using that by (cases ?ts) auto
  qed
  have ext: "layer_extent m l = set (map (\<lambda>t. (tb_offset t, tb_bytes t)) (t0 # ts))" unfolding spans ts ..
  have inside: "tb_offset t + tb_bytes t \<le> mf_file_len m" if "t \<in> set (t0 # ts)" for t
  proof -
    have "(tb_offset t, tb_bytes t) \<in> layer_extent m l" unfolding ext using that by force
    then show ?thesis using admitted_tensor(4) [OF adm] by (auto simp: layer_extent_def)
  qed
  then have wadd: "map (\<lambda>t. wadd (tb_offset t) (tb_bytes t)) (t0 # ts) = map (\<lambda>t. tb_offset t + tb_bytes t) (t0 # ts)"
    using n by (intro map_cong refl wadd_small) (fastforce simp: u64_range_def)
  define stop where "stop = fold max (map (\<lambda>t. tb_offset t + tb_bytes t) ts) (tb_offset t0 + tb_bytes t0)"
  define mn where "mn = fold min (map tb_offset ts) (tb_offset t0)"
  have span: "check_span m p (mn - 4) stop = Ok ()"
    using chk unfolding check_layer_span_def Let_def compile_def dense_execution_plan.simps ts wadd
    by (simp add: mn_def stop_def)
  have stop: "stop = Max (set (map (\<lambda>t. tb_offset t + tb_bytes t) (t0 # ts)))"
    unfolding stop_def fold_max_set by simp
  have mn: "mn = Min (set (map tb_offset (t0 # ts)))" unfolding mn_def fold_min_set by simp
  have offs: "set (map tb_offset (t0 # ts)) = fst ` layer_extent m l" unfolding ext by force
  have base: "entry_base m keys l = mn - 4"
  proof -
    obtain s t where t: "mf_tensor m (layer_name l s) = Some t" "td_absolute_offset t = entry_base m keys l + 4"
      using entry_base_spec(2) [OF adm l] by blast
    have "mn = entry_base m keys l + 4" unfolding mn offs
    proof (rule Min_eqI)
      show "finite (fst ` layer_extent m l)" unfolding offs [symmetric] by simp
      show "entry_base m keys l + 4 \<le> x" if "x \<in> fst ` layer_extent m l" for x
        using that entry_base_spec(3) [OF adm l] by (auto simp: layer_extent_def)
      show "entry_base m keys l + 4 \<in> fst ` layer_extent m l"
        using t unfolding layer_extent_def by force
    qed
    then show ?thesis by simp
  qed
  obtain w where "window_for_range (word_of_nat (entry_base m keys l div 4)) (word_of_nat ((stop - 1) div 4))
      (chunk_words_of p) (num_chunks p) = Ok w"
    using span unfolding base by (auto simp: check_span_def chunk_words_of_def split: if_splits)
  moreover have "\<forall>(a, n)\<in>layer_extent m l. a + n \<le> stop"
    unfolding ext stop by (auto intro!: Max_ge simp del: set_map) auto
  moreover have "stop \<in> set (map (\<lambda>t. tb_offset t + tb_bytes t) (t0 # ts))" unfolding stop by (rule Max_in) simp_all
  then have "\<exists>(a, n)\<in>layer_extent m l. a + n = stop" unfolding ext by auto
  ultimately show ?thesis by blast
qed

lemma check_device_Ok:
  assumes "check_device v limits = Ok b"
  obtains p where "compute_chunk_plan (mf_file_len (vm_manifest v)) (unat (dl_max_storage_buffer_binding_size limits)) = Ok p"
    and "effective_chunk p \<le> dl_max_buffer_size limits"
    and "\<forall>l<n_layer (vm_spec v). check_layer_span (vm_manifest v) (vm_plan v) p l = Ok ()"
    and "spec_budget (vm_state v) (unat (dl_max_storage_buffer_binding_size limits)) four_gib = Ok b"
    and "4 * temp_buffer_size (vm_spec v) \<le> dl_max_buffer_size limits"
  using assms that by (auto simp: check_device_def unwrap_def not_less mult.commute split: res.splits if_splits)

text \<open>
  C13: What the device check accepts the executor can bind: if it succeeds for an admitted
  model, then at run time every layer resolves a window of at most eight consecutive
  chunks, so the panicking resolution never panics; the chunks and the scratch fit the
  device's buffers and the budget is the state's under the binding limit.
\<close>

theorem device_check_binds_layers:
  assumes adm: "admitted (vm_manifest v) d keys" and plan: "vm_plan v = compile d"
    and spec: "n_layer (vm_spec v) = md_layers d"
    and bm: "metadata_from_manifest keys (vm_manifest v) = Ok bm"
    and chk: "check_device v limits = Ok b"
  shows "\<exists>p. compute_chunk_plan (mf_file_len (vm_manifest v)) (unat (dl_max_storage_buffer_binding_size limits)) = Ok p \<and>
    effective_chunk p \<le> dl_max_buffer_size limits \<and> 4 * temp_buffer_size (vm_spec v) \<le> dl_max_buffer_size limits \<and>
    spec_budget (vm_state v) (unat (dl_max_storage_buffer_binding_size limits)) four_gib = Ok b \<and>
    (\<forall>l<md_layers d. \<exists>w. resolve_layer_window p (dense_bindings d) (ce_offsets (bm_compiled_layers bm ! l))
       (ce_blob_base_words (bm_compiled_layers bm ! l)) l =
       Ok (Some w, ce_blob_base_words (bm_compiled_layers bm ! l) - window_base_words w))"
proof -
  obtain p where p: "compute_chunk_plan (mf_file_len (vm_manifest v)) (unat (dl_max_storage_buffer_binding_size limits)) = Ok p"
    "effective_chunk p \<le> dl_max_buffer_size limits"
    "\<forall>l<n_layer (vm_spec v). check_layer_span (vm_manifest v) (vm_plan v) p l = Ok ()"
    "spec_budget (vm_state v) (unat (dl_max_storage_buffer_binding_size limits)) four_gib = Ok b"
    "4 * temp_buffer_size (vm_spec v) \<le> dl_max_buffer_size limits" by (rule check_device_Ok [OF chk])
  have pk: "plan_ok (mf_file_len (vm_manifest v)) p" using compute_chunk_plan_ok [OF p(1)] by blast
  have "\<exists>w. resolve_layer_window p (dense_bindings d) (ce_offsets (bm_compiled_layers bm ! l))
       (ce_blob_base_words (bm_compiled_layers bm ! l)) l =
       Ok (Some w, ce_blob_base_words (bm_compiled_layers bm ! l) - window_base_words w)" if l: "l < md_layers d" for l
  proof -
    have "check_layer_span (vm_manifest v) (compile d) p l = Ok ()" using p(3) l spec plan by simp
    from check_layer_span_window [OF adm l this] obtain stop w where
      s: "\<forall>(a, n)\<in>layer_extent (vm_manifest v) l. a + n \<le> stop" "\<exists>(a, n)\<in>layer_extent (vm_manifest v) l. a + n = stop"
      "window_for_range (word_of_nat (entry_base (vm_manifest v) keys l div 4)) (word_of_nat ((stop - 1) div 4))
        (chunk_words_of p) (num_chunks p) = Ok w" by blast
    have "ce_blob_base_words (bm_compiled_layers bm ! l) = word_of_nat (entry_base (vm_manifest v) keys l div 4)"
      "\<forall>f\<in>set field_suffixes. field_decodes (vm_manifest v) l (bm_compiled_layers bm ! l) f"
      using metadata_dense [OF adm] bm l by auto
    from layer_plan_dense [OF adm l this s(1,2) pk s(3)] show ?thesis
      by (simp add: resolve_layer_window_def try_resolve_layer_window_def)
  qed
  with p show ?thesis by blast
qed

text \<open>The check on a device of 1 MiB bindings, for the sample model.\<close>

definition sample_limits :: device_limits where
  "sample_limits = \<lparr>dl_max_storage_buffer_binding_size = 1048576, dl_max_buffer_size = 1048576,
     dl_max_storage_buffers_per_shader_stage = 14, dl_max_compute_invocations_per_workgroup = 256\<rparr>"

definition sample_validated :: "model_descriptor \<Rightarrow> validated_model" where
  "sample_validated d = \<lparr>vm_manifest = sample_manifest, vm_plan = compile d, vm_operators = [],
     vm_spec = tinylama_base\<lparr>n_layer := 1\<rparr>, vm_identity = sample_identity,
     vm_state = \<lparr>ss_kind = DenseKv, ss_layers = 1, ss_kv_heads = 1, ss_head_dim = 2, ss_capacity = 4,
       ss_precision = KP_F32\<rparr>\<rparr>"

lemma sample_chunks: "compute_chunk_plan 512 1048576 = Ok \<lparr>effective_chunk = 1048576, num_chunks = 1\<rparr>"
  by (simp add: compute_chunk_plan_eq blob_chunk_bytes_def div_ceil_def)

lemma sample_span:
  assumes "start < stop" and "stop \<le> 512"
  shows "check_span sample_manifest \<lparr>effective_chunk = 1048576, num_chunks = 1\<rparr> start stop = Ok ()"
proof -
  let ?lo = "word_of_nat (start div 4) :: u32" and ?hi = "word_of_nat ((stop - 1) div 4) :: u32"
  have u: "unat ?lo = start div 4" "unat ?hi = (stop - 1) div 4" using assms by (auto simp: unat_of_nat)
  have le: "?lo \<le> ?hi" unfolding word_le_nat_alt u using assms by (auto intro: div_le_mono)
  have small: "start div 4 div 262144 = 0" "(stop - 1) div 4 div 262144 = 0" using assms by auto
  have pos: "(0 :: u32) < 262144" by simp
  have "window_for_range ?lo ?hi 262144 1 = Ok \<lparr>start_chunk = 0, slot_count = 1, chunk_words = 262144, total_resident_chunks = 1\<rparr>"
    unfolding window_for_range_Ok [OF pos le] u using small by simp
  then show ?thesis using assms
    by (simp add: check_span_def sample_manifest_def res_simps del: and_then_eq_Ok)
qed

lemma sample_bindings:
  assumes "from_manifest sample_manifest = Ok d"
  shows "filter (\<lambda>t. starts_with (tb_name t) (''blk.'' @ dec 0 @ ''.'')) (md_bindings d) =
    map binding_of (drop 2 (mf_tensors sample_manifest))"
proof -
  let ?m = sample_manifest
  obtain "read_architecture ?m = Ok (md_architecture d)"
    by (rule from_manifest_steps [OF assms]) (rule that; assumption)
  then have arch: "md_architecture d = Arch_Llama"
    by (simp add: read_architecture_def mf_value_def sample_manifest_def)
  have "map fst (requirements ?m d) = [''token_embd.weight'', ''output_norm.weight'', ''token_embd.weight''] @
      map td_name (drop 2 (mf_tensors ?m))"
    by (simp add: requirements_def global_requirements_def layer_requirements_def layer_name_def arch
        sample_dims(2) [OF assms] output_head_name_def mf_tensor_def dec_0)
      (simp add: sample_manifest_def sample_tensor_def)
  then have "md_bindings d = map (\<lambda>n. binding_of (the (mf_tensor ?m n)))
      ([''token_embd.weight'', ''output_norm.weight'', ''token_embd.weight''] @ map td_name (drop 2 (mf_tensors ?m)))"
    unfolding from_manifest_bindings(2) [OF assms] by (metis (no_types, lifting) map_map o_apply map_eq_conv)
  also have "\<dots> = map binding_of ([mf_tensors ?m ! 0, mf_tensors ?m ! 1, mf_tensors ?m ! 0] @ drop 2 (mf_tensors ?m))"
    by (simp add: mf_tensor_def sample_manifest_def sample_tensor_def)
  finally show ?thesis
    by (simp add: sample_manifest_def sample_tensor_def binding_of_def starts_with_def dec_0)
qed

lemma sample_device: 
  assumes "from_manifest sample_manifest = Ok d"
  shows "check_device (sample_validated d) sample_limits = Ok \<lparr>sb_per_tensor_bytes = 32, sb_total_bytes = 64\<rparr>"
proof -
  let ?p = "\<lparr>effective_chunk = 1048576, num_chunks = 1\<rparr>"
  have layer: "check_layer_span sample_manifest (compile d) ?p 0 = Ok ()"
  proof -
    have offs: "map tb_offset (map binding_of (drop 2 (mf_tensors sample_manifest))) =
        [128, 160, 192, 224, 256, 288, 320, 352, 384]"
      by (simp add: sample_manifest_def sample_tensor_def binding_of_def)
    have stops: "map (\<lambda>t. wadd (tb_offset t) (tb_bytes t)) (map binding_of (drop 2 (mf_tensors sample_manifest))) =
        [136, 176, 208, 240, 272, 296, 336, 368, 400]"
      by (simp add: sample_manifest_def sample_tensor_def binding_of_def u64_range_def)
    have desc: "ep_descriptor (compile d) = d" by (simp add: compile_def)
    show ?thesis
      unfolding check_layer_span_def Let_def desc sample_bindings [OF assms] offs stops
      using sample_span [of 124 400] by (simp del: One_nat_def)
  qed
  have glob: "check_global_span sample_manifest ?p ''token_embd.weight'' = Ok ()"
    "check_global_span sample_manifest ?p ''output.weight'' = Ok ()"
    using sample_span by (simp_all add: check_global_span_def sample_lookups sample_tensor_def u64_range_def)
  have scratch: "temp_buffer_size (tinylama_base\<lparr>n_layer := 1\<rparr>) = 0" "n_layer (tinylama_base\<lparr>n_layer := 1\<rparr>) = 1"
    by (simp_all add: tinylama_base_def)
  have budget: "spec_budget (vm_state (sample_validated d)) 1048576 four_gib = Ok \<lparr>sb_per_tensor_bytes = 32, sb_total_bytes = 64\<rparr>"
    by (simp add: spec_budget_def sample_validated_def four_gib_def checked_mul_def u64_range_def res_simps del: and_then_eq_Ok)
  have len: "mf_file_len sample_manifest = 512" by (simp add: sample_manifest_def)
  show ?thesis
    unfolding check_device_def using sample_chunks layer glob budget scratch
    by (simp add: sample_validated_def sample_limits_def len unwrap_def checked_mul_def u64_range_def res_simps del: and_then_eq_Ok)
qed

lemma device_check_binds_layers_witness:
  "\<exists>d (bm :: bindless_metadata) p w. from_manifest sample_manifest = Ok d \<and> compute_chunk_plan 512 1048576 = Ok p \<and>
     resolve_layer_window p (dense_bindings d) (ce_offsets (bm_compiled_layers bm ! 0))
       (ce_blob_base_words (bm_compiled_layers bm ! 0)) 0 =
       Ok (Some w, ce_blob_base_words (bm_compiled_layers bm ! 0) - window_base_words w)"
proof -
  obtain d where d: "admitted sample_manifest d (map td_name (mf_tensors sample_manifest))"
    using sample_admitted by blast
  then have m: "from_manifest sample_manifest = Ok d" by (simp add: admitted_def)
  obtain bm where bm: "metadata_from_manifest (map td_name (mf_tensors sample_manifest)) sample_manifest = Ok bm"
    using metadata_dense [OF d] by blast
  have v: "vm_manifest (sample_validated d) = sample_manifest" "vm_plan (sample_validated d) = compile d"
    "n_layer (vm_spec (sample_validated d)) = md_layers d"
    by (simp_all add: sample_validated_def sample_dims(2) [OF m])
  have "mf_file_len sample_manifest = 512" "unat (dl_max_storage_buffer_binding_size sample_limits) = 1048576"
    by (simp_all add: sample_manifest_def sample_limits_def)
  then obtain p where p: "compute_chunk_plan 512 1048576 = Ok p"
    "\<forall>l<md_layers d. \<exists>w. resolve_layer_window p (dense_bindings d) (ce_offsets (bm_compiled_layers bm ! l))
       (ce_blob_base_words (bm_compiled_layers bm ! l)) l =
       Ok (Some w, ce_blob_base_words (bm_compiled_layers bm ! l) - window_base_words w)"
    using device_check_binds_layers [OF d [folded v(1)] v(2,3) bm [folded v(1)] sample_device [OF m]]
    unfolding v(1) by auto
  have "0 < md_layers d" by (simp add: sample_dims(2) [OF m])
  from p(2) [rule_format, OF this] m p(1) show ?thesis
    by (intro exI [of _ d] exI [of _ bm] exI [of _ p]) simp
qed

section \<open>What a successful load establishes\<close>

lemma to_model_spec_derived:
  assumes "to_model_spec bm = Ok s"
  shows "rope_dim s = head_dim s" and "yarn_alpha s = f32_one" and "yarn_beta s = f32_32"
proof -
  have wd: "yarn_alpha (with_derived h g s) = yarn_alpha s" "yarn_beta (with_derived h g s) = yarn_beta s" for h g s
    by (simp_all add: with_derived_def)
  have scan: "rope_dim s0 = head_dim s0 \<and> yarn_alpha s0 = f32_one \<and> yarn_beta s0 = f32_32"
    if "from_gguf_metadata md = (Ok s0 :: (string, model_spec) res)" for md s0
    using that by (auto simp: from_gguf_metadata_def spec_of_scan_def compute_derived_Ok wd)
  have derived: "rope_dim s2 = head_dim s2 \<and> yarn_alpha s2 = yarn_alpha s1 \<and> yarn_beta s2 = yarn_beta s1"
    if "compute_derived s1 = (Ok s2 :: (string, model_spec) res)" for s1 s2
    using that by (auto simp: compute_derived_Ok wd)
  have infer: "rope_dim s2 = head_dim s2 \<and> yarn_alpha s2 = yarn_alpha s1 \<and> yarn_beta s2 = yarn_beta s1"
    if "infer_head_dim bm s1 = Ok s2" "rope_dim s1 = head_dim s1" for s1 s2
    using that derived [of "s1\<lparr>head_dim := _\<rparr>" s2]
    by (auto simp: infer_head_dim_def Let_def split: if_splits option.splits)
  obtain s0 where s0: "from_gguf_metadata (bm_gguf_metadata bm) = (Ok s0 :: (string, model_spec) res)"
    using assms by (auto simp: to_model_spec_def)
  then show "rope_dim s = head_dim s" "yarn_alpha s = f32_one" "yarn_beta s = f32_32"
    using assms scan [OF s0] by (auto simp: to_model_spec_def Let_def dest!: infer)
qed

lemma f32_eq_refl: "f32_eq x y \<Longrightarrow> f32_eq x x"
  by (auto simp: f32_eq_def f32_lt_def split: fdec.splits)

lemma unwrap_Ok [simp]: "(unwrap r = Ok x) = (r = Ok x)"
  by (cases r) (simp_all add: unwrap_def)

text \<open>The fields of the specification a load leaves.\<close>

definition spec_matches :: "model_spec \<Rightarrow> model_descriptor \<Rightarrow> nat \<Rightarrow> bool" where
  "spec_matches s d capacity =
     (n_embd s = md_hidden d \<and> n_head s = md_heads d \<and> n_head_kv s = md_kv_heads d \<and> n_layer s = md_layers d \<and>
      ff_dim s = md_ffn d \<and> head_dim s = md_head_dim d \<and> n_vocab s = md_vocab d \<and>
      rope_dim s = md_rope_dimensions d \<and> n_ctx s = capacity \<and> rope_scale s = f32_one \<and>
      f32_eq (rms_eps s) (md_rms_epsilon d) \<and> f32_eq (rope_base s) (md_rope_base d) \<and> spec_norm s = NK_Rms)"

lemma derived_matches:
  assumes spec: "to_model_spec bm = Ok s" "\<not> semantics_differ s" "\<not> dimensions_differ s d"
    and geo: "geometry_ok d" and der: "compute_derived (s\<lparr>n_ctx := capacity, rope_scale := f32_one\<rparr>) = (Ok s' :: ('e, model_spec) res)"
  shows "spec_matches s' d capacity" and "md_rope_dimensions d = md_head_dim d" and "spec_eq s' s'"
proof -
  note t = to_model_spec_derived [OF spec(1)]
  have dims: "head_dim s = md_head_dim d" "rope_dim s = md_rope_dimensions d" "spec_norm s = NK_Rms"
    "f32_eq (rms_eps s) (md_rms_epsilon d)" "f32_eq (rope_base s) (md_rope_base d)"
    "f32_eq (attn_logit_softcap s) 0" "f32_eq (final_logit_softcap s) 0"
    using spec(2,3) by (simp_all add: dimensions_differ_def semantics_differ_def)
  show rd: "md_rope_dimensions d = md_head_dim d" using t(1) dims(1,2) by simp
  have "head_dim s \<noteq> 0" using geo dims(1) by (simp add: geometry_ok_def)
  then obtain g where s': "s' = with_derived (head_dim s) g (s\<lparr>n_ctx := capacity, rope_scale := f32_one\<rparr>)"
    using der by (auto simp: compute_derived_Ok)
  have floats: "rms_eps s' = rms_eps s" "rope_base s' = rope_base s" "rope_scale s' = f32_one"
    "yarn_alpha s' = f32_one" "yarn_beta s' = f32_32" "attn_logit_softcap s' = attn_logit_softcap s"
    "final_logit_softcap s' = final_logit_softcap s" "spec_norm s' = spec_norm s"
    by (simp_all add: s' with_derived_def t)
  show "spec_matches s' d capacity"
    using spec(3) dims rd unfolding spec_matches_def floats by (simp add: s' dimensions_differ_def)
  have "f32_eq f32_one f32_one" "f32_eq f32_32 f32_32"
    by (simp_all add: f32_eq_def f32_is_nan_def f32_lt_def f32_one_def f32_32_def decode_def)
  then show "spec_eq s' s'"
    using dims(4-7) [THEN f32_eq_refl] by (simp add: spec_eq_def spec_floats_def floats)
qed

lemma load_steps:
  assumes "load isf env w context = Ok pm"
  obtains m d capacity nodes bm s s' where
    "validate_kernel_configuration (lw_parse_f32 w) env = Ok ()" and isf
    and "lw_manifest w (pm_bytes pm) = Ok m" and "length (pm_bytes pm) < 2 ^ 32"
    and "from_manifest m = Ok d" and "context_limit (md_context d) context = Ok capacity"
    and "checked_operators (compile d) m = Ok nodes" and "metadata_from_manifest (lw_keys w) m = Ok bm"
    and "to_model_spec bm = Ok s" and "\<not> semantics_differ s" and "\<not> dimensions_differ s d"
    and "compute_derived (s\<lparr>n_ctx := capacity, rope_scale := f32_one\<rparr>) = (Ok s' :: (model_error, model_spec) res)"
    and "spec_budget (state_of d capacity) (u64_range - 1) four_gib \<noteq> Panic"
    and "is_ok (spec_budget (state_of d capacity) (u64_range - 1) four_gib)"
    and "prepare_rope_tables (lw_math w) (pm_bytes pm) bm s' = Ok (pm_rope_tables pm)"
    and "vm_manifest (pm_validated pm) = m" and "vm_plan (pm_validated pm) = compile d"
    and "vm_operators (pm_validated pm) = nodes" and "vm_spec (pm_validated pm) = s'"
    and "vm_state (pm_validated pm) = state_of d capacity" and "pm_metadata pm = bm"
  using assms unfolding load_def and_then_eq_Ok if_split_eq1 map_err_Ok unwrap_Ok
  by (elim exE conjE; simp only: res.distinct res.inject simp_thms; hypsubst_thin?)
     (auto simp: is_ok_iff split: if_splits)

text \<open>
  C9: A loaded model is consistent: the specification the kernels are configured with has
  the descriptor's dimensions, constants and rotary width (which therefore is the whole
  head), the context asked for, positive and within the native one, and is accepted by the
  model's own check; its operators are the checked plan's, its key-value state has the
  descriptor's geometry and stays within 4 GiB, both rotary tables have the layout of
  \<open>rope_table_for\<close>, and no experimental kernel flag is set.
\<close>

theorem load_consistent:
  assumes "load isf env w context = Ok pm"
  shows "\<exists>m d capacity factors. lw_manifest w (pm_bytes pm) = Ok m \<and> from_manifest m = Ok d \<and>
    vm_plan (pm_validated pm) = compile d \<and> checked_operators (compile d) m = Ok (vm_operators (pm_validated pm)) \<and>
    0 < capacity \<and> capacity \<le> md_context d \<and> vm_state (pm_validated pm) = state_of d capacity \<and>
    spec_matches (vm_spec (pm_validated pm)) d capacity \<and> md_rope_dimensions d = md_head_dim d \<and>
    check_spec (pm_validated pm) (vm_spec (pm_validated pm)) = Ok () \<and>
    md_layers d * (8 * kv_elements (state_of d capacity)) \<le> 4 * 2 ^ 30 \<and>
    rope_table_for (lw_math w) (vm_spec (pm_validated pm)) f32_one factors (fst (pm_rope_tables pm)) \<and>
    rope_table_for (lw_math w) (vm_spec (pm_validated pm)) f32_one factors (snd (pm_rope_tables pm)) \<and>
    (\<forall>flag\<in>set experimental_flags. \<not> flag_set env flag)"
proof (rule load_steps [OF assms])
  fix m d capacity nodes bm s s'
  assume cfg: "validate_kernel_configuration (lw_parse_f32 w) env = Ok ()" and d: "from_manifest m = Ok d"
    and ctx: "context_limit (md_context d) context = Ok capacity"
    and spec: "to_model_spec bm = Ok s" "\<not> semantics_differ s" "\<not> dimensions_differ s d"
      "compute_derived (s\<lparr>n_ctx := capacity, rope_scale := f32_one\<rparr>) = (Ok s' :: (model_error, model_spec) res)"
    and budget: "is_ok (spec_budget (state_of d capacity) (u64_range - 1) four_gib)"
    and rope: "prepare_rope_tables (lw_math w) (pm_bytes pm) bm s' = Ok (pm_rope_tables pm)"
    and fields: "lw_manifest w (pm_bytes pm) = Ok m" "checked_operators (compile d) m = Ok nodes"
      "vm_plan (pm_validated pm) = compile d" "vm_operators (pm_validated pm) = nodes"
      "vm_spec (pm_validated pm) = s'" "vm_state (pm_validated pm) = state_of d capacity"
  note geo = from_manifest_geometry [OF d]
  note sm = derived_matches [OF spec(1-3) geo spec(4)]
  have scale: "rope_scale s' = f32_one" using sm(1) by (simp add: spec_matches_def)
  obtain factors where factors: "rope_table_for (lw_math w) s' f32_one factors (fst (pm_rope_tables pm))"
    "rope_table_for (lw_math w) s' f32_one factors (snd (pm_rope_tables pm))"
    using prepare_tables_Ok [of "lw_math w" "pm_bytes pm" bm s' "fst (pm_rope_tables pm)" "snd (pm_rope_tables pm)"] rope
    unfolding scale by auto
  have "0 < capacity \<and> capacity \<le> md_context d"
    using ctx by (auto simp: context_limit_def Let_def split: if_splits option.splits)
  moreover have "md_layers d * (8 * kv_elements (state_of d capacity)) \<le> 4 * 2 ^ 30"
  proof -
    have "four_gib = 4 * 2 ^ 30" "u64_range - 1 < u64_range" "four_gib < u64_range"
      by (simp_all add: four_gib_def u64_range_def)
    with budget show ?thesis
      unfolding is_ok_iff using spec_budget_Ok [of "u64_range - 1" four_gib]
      by (auto simp: state_of_def layer_bytes_def)
  qed
  moreover have "\<forall>flag\<in>set experimental_flags. \<not> flag_set env flag"
    using cfg by (auto simp: validate_kernel_configuration_def check_flag_def split: if_splits)
  moreover have "check_spec (pm_validated pm) s' = Ok ()" using sm(3) fields by (simp add: check_spec_def)
  ultimately show ?thesis using fields d sm(1,2) factors by (intro exI [of _ m] exI [of _ d]) blast
qed

text \<open>The sample model loads, for a context of one position.\<close>

definition sample_load :: load_world where
  "sample_load = \<lparr>lw_bytes = Ok (replicate 512 0), lw_manifest = (\<lambda>_. Ok sample_manifest), lw_tokenizer = (\<lambda>_. Ok ()),
     lw_sha256 = (\<lambda>_. ''d''), lw_plan_text = (\<lambda>_ _. []), lw_keys = map td_name (mf_tensors sample_manifest),
     lw_math = \<lparr>fm_powf = (\<lambda>_ _. f32_one), fm_cos = (\<lambda>_. f32_one), fm_sin = (\<lambda>_. 0)\<rparr>, lw_parse_f32 = (\<lambda>_. None)\<rparr>"

lemma sample_descriptor:
  assumes "from_manifest sample_manifest = Ok d"
  shows "md_hidden d = 2" "md_layers d = 1" "md_heads d = 1" "md_kv_heads d = 1" "md_ffn d = 2" "md_context d = 4"
    "md_head_dim d = 2" "md_rope_dimensions d = 2" "md_vocab d = 3" "md_rms_epsilon d = f32_one" "md_rope_base d = f32_one"
proof -
  let ?m = sample_manifest
  obtain prefix where r: "prefix = arch_prefix (md_architecture d)" "read_architecture ?m = Ok (md_architecture d)"
    "md_required ?m prefix ''embedding_length'' = Ok (md_hidden d)"
    "md_required ?m prefix ''attention.head_count'' = Ok (md_heads d)"
    "md_required ?m prefix ''attention.head_count_kv'' = Ok (md_kv_heads d)"
    "md_required ?m prefix ''feed_forward_length'' = Ok (md_ffn d)"
    "md_required ?m prefix ''context_length'' = Ok (md_context d)"
    "md_required ?m prefix ''block_count'' = Ok (md_layers d)"
    "read_head_dim ?m (md_architecture d) prefix (md_hidden d) (md_heads d) = Ok (md_head_dim d)"
    "read_rope_dimensions ?m prefix (md_head_dim d) = Ok (md_rope_dimensions d)"
    "read_vocabulary ?m (md_hidden d) = Ok (md_vocab d)"
    "md_float ?m prefix ''attention.layer_norm_rms_epsilon'' = Ok (md_rms_epsilon d)"
    "md_float ?m prefix ''rope.freq_base'' = Ok (md_rope_base d)"
    by (rule from_manifest_steps [OF assms]) (rule that; assumption)
  have a: "read_architecture ?m = Ok Arch_Llama"
    by (simp add: read_architecture_def mf_value_def sample_manifest_def)
  then have p: "prefix = ''llama''" "md_architecture d = Arch_Llama" using r(1,2) by simp_all
  have v: "md_required ?m ''llama'' ''embedding_length'' = Ok 2"
    "md_required ?m ''llama'' ''attention.head_count'' = Ok 1"
    "md_required ?m ''llama'' ''attention.head_count_kv'' = Ok 1"
    "read_head_dim ?m Arch_Llama ''llama'' 2 1 = Ok 2" "read_rope_dimensions ?m ''llama'' 2 = Ok 2"
    "md_required ?m ''llama'' ''block_count'' = Ok 1" "md_required ?m ''llama'' ''context_length'' = Ok 4"
    "md_required ?m ''llama'' ''feed_forward_length'' = Ok 2"
    by (simp_all add: md_required_def md_integer_def mf_value_def sample_manifest_def
        read_head_dim_def read_rope_dimensions_def Let_def)
  have f: "md_float ?m ''llama'' ''attention.layer_norm_rms_epsilon'' = Ok 0x3F800000"
    "md_float ?m ''llama'' ''rope.freq_base'' = Ok 0x3F800000"
    by (simp_all add: md_float_def mf_value_def sample_manifest_def f32_is_finite_def f32_lt_def decode_def
        scaled_def sgn_val_def Let_def)
  have voc: "read_vocabulary ?m 2 = Ok 3"
    by (simp add: read_vocabulary_def sample_lookups res_simps sample_tensor_def mf_value_def)
      (simp add: sample_manifest_def)
  show d: "md_hidden d = 2" "md_layers d = 1" "md_heads d = 1" "md_kv_heads d = 1" "md_ffn d = 2" "md_context d = 4"
    "md_rms_epsilon d = f32_one" "md_rope_base d = f32_one"
    using r(3-8,12,13) unfolding p by (simp_all add: v f f32_one_def del: One_nat_def)
  show h: "md_head_dim d = 2" using r(9) unfolding p d by (simp add: v del: One_nat_def)
  show "md_rope_dimensions d = 2" using r(10) unfolding p h by (simp add: v)
  show "md_vocab d = 3" using r(11) unfolding d by (simp add: voc)
qed

lemma sample_model_spec:
  assumes "metadata_from_manifest keys sample_manifest = Ok bm"
  shows "\<exists>s. to_model_spec bm = Ok s \<and> n_embd s = 2 \<and> n_head s = 1 \<and> n_head_kv s = 1 \<and> n_layer s = 1 \<and> ff_dim s = 2 \<and>
    head_dim s = 2 \<and> rope_dim s = 2 \<and> n_vocab s = 3 \<and> rms_eps s = f32_one \<and> rope_base s = f32_one \<and> spec_norm s = NK_Rms \<and>
    \<not> post_norm_enabled s \<and> attn_logit_softcap s = 0 \<and> final_logit_softcap s = 0"
proof -
  have bm: "bm_gguf_metadata bm = map (\<lambda>(k, v). (k, manifest_value v)) (mf_values sample_manifest)"
    "bm_tensor_dims bm = collect_map td_dimensions (mf_tensors sample_manifest)"
    using assms by (auto simp: metadata_from_manifest_def Let_def)
  have c: "classify_key ''general.architecture'' = Some SK_Architecture"
    "classify_key ''llama.embedding_length'' = Some SK_Embedding" "classify_key ''llama.attention.head_count'' = Some SK_Heads"
    "classify_key ''llama.attention.head_count_kv'' = Some SK_HeadsKv" "classify_key ''llama.block_count'' = Some SK_Blocks"
    "classify_key ''llama.context_length'' = Some SK_Context" "classify_key ''llama.feed_forward_length'' = Some SK_FeedForward"
    "classify_key ''llama.attention.layer_norm_rms_epsilon'' = Some (SK_Epsilon NK_Rms)"
    "classify_key ''llama.rope.freq_base'' = Some SK_RopeBase" "classify_key ''tokenizer.ggml.tokens'' = Some SK_Tokens"
    "classify_key ''tokenizer.ggml.eos_token_id'' = None"
    by (simp_all add: classify_key_def suffix_key_def starts_with_def)
  have fold: "fold scan_entry (map (\<lambda>(k, v). (k, manifest_value v)) (mf_values sample_manifest)) scan_start =
      scan_start\<lparr>sc_arch := ''llama'', sc_embd := Some 2, sc_head := Some 1, sc_head_kv := Some 1, sc_layer := Some 1,
        sc_ctx := Some 4, sc_ff := Some 2, sc_eps := Some f32_one, sc_rope_base := Some f32_one, sc_vocab := Some 3\<rparr>"
    (is "_ = ?sc")
    by (simp add: sample_manifest_def scan_entry_def c when_some_def scan_start_def f32_one_def)
  have tensors: "bm_tensor_dims bm ''blk.0.attn_q.weight'' = Some [2, 2]" "bm_tensor_dims bm ''blk.0.attn_k.weight'' = Some [2, 2]"
    "bm_tensor_dims bm ''blk.0.post_attention_norm.weight'' = None"
    by (simp_all add: bm(2) sample_manifest_def sample_tensor_def collect_map_def)
  obtain s where s: "spec_of_scan ?sc = (Ok s :: (string, model_spec) res)" "n_embd s = 2" "n_head s = 1" "n_head_kv s = 1"
    "n_layer s = 1" "ff_dim s = 2" "head_dim s = 2" "rope_dim s = 2" "n_vocab s = 3" "rms_eps s = f32_one"
    "rope_base s = f32_one" "spec_norm s = NK_Rms" "attn_logit_softcap s = 0" "final_logit_softcap s = 0"
    by (simp add: spec_of_scan_def scan_start_def expect_def compute_derived_Ok usize_div_def with_derived_def)
  have "from_gguf_metadata (bm_gguf_metadata bm) = (Ok s :: (string, model_spec) res)"
    unfolding bm(1) from_gguf_metadata_def fold by (rule s(1))
  then have "\<exists>q k n. to_model_spec bm = Ok (s\<lparr>has_qk_norm := n, post_norm_enabled := False, q_weight_k := q, k_weight_k := k\<rparr>)"
    unfolding to_model_spec_def and_then.simps Let_def tensors
    by (simp add: infer_head_dim_def Let_def tensors s(2-) second_dim_def) blast
  then show ?thesis using s(2-) by auto
qed

lemma unit_floats:
  "f32_div f32_one f32_one = f32_one" "f32_mul f32_one f32_one = f32_one" "f32_mul 0 f32_one = 0"
  "f32_positive f32_one" "\<not> f32_lt f32_one f32_one" "f32_eq f32_one f32_one" "f32_of_int 0 = 0" "f32_is_finite 0" "f32_eq 0 0"
proof -
  have nb: "nbits 2417851639229258349412352 = 82" "nbits 70368744177664 = 47" by (simp_all add: nbits.simps)
  show "f32_div f32_one f32_one = f32_one"
    by (simp add: f32_div_def decode_one Let_def round_bits_def round_mag_def ulp_exp_def nb round_mant_def rne_shift_def inf_bits_def)
      (simp add: f32_one_def)
  show "f32_mul f32_one f32_one = f32_one"
    by (simp add: f32_mul_def decode_one Let_def round_bits_def round_mag_def ulp_exp_def nb round_mant_def rne_shift_def inf_bits_def)
      (simp add: f32_one_def)
  show "f32_mul 0 f32_one = 0"
    by (simp add: f32_mul_def f32_one_def decode_def Let_def round_bits_def round_mag_def ulp_exp_def round_mant_def rne_shift_def inf_bits_def)
  show "f32_positive f32_one" "\<not> f32_lt f32_one f32_one" "f32_eq f32_one f32_one" "f32_is_finite 0" "f32_eq 0 0"
    by (simp_all add: f32_positive_def f32_is_finite_def f32_lt_def f32_eq_def f32_is_nan_def f32_one_def decode_def scaled_def sgn_val_def)
  show "f32_of_int 0 = 0"
    by (simp add: f32_of_int_def round_bits_def round_mag_def ulp_exp_def round_mant_def rne_shift_def inf_bits_def)
qed

lemma sample_tables:
  assumes bm: "metadata_from_manifest (map td_name (mf_tensors sample_manifest)) sample_manifest = Ok bm"
    and s: "rope_dim s = 2" "head_dim s = 2" "n_ctx s = 1" "rope_base s = f32_one" "rope_scale s = f32_one"
  shows "\<exists>tables. prepare_rope_tables (lw_math sample_load) raw bm s = Ok tables"
proof -
  have keys: "bm_keys bm = map td_name (mf_tensors sample_manifest)" "bm_tensor_offsets bm ''rope_freqs.weight'' = None"
    "bm_tensor_types bm ''rope_freqs.weight'' = None" "bm_tensor_dims bm ''rope_freqs.weight'' = None"
    using bm by (auto simp: metadata_from_manifest_def Let_def sample_manifest_def sample_tensor_def collect_map_def)
  have names: "for_each check_factor_name (bm_keys bm) = Ok ()"
    by (simp add: keys(1) sample_manifest_def sample_tensor_def check_factor_name_def starts_with_def)
  have f: "read_rope_factors raw bm s = Ok [f32_one]"
    unfolding read_rope_factors_def names Let_def keys(2-4) using s by simp
  have th: "effective_theta (lw_math sample_load) s f32_one [f32_one] 0 = f32_one"
    by (simp add: effective_theta_def base_theta_def use_yarn_def sample_load_def unit_floats Let_def)
  have entry: "rope_entry (lw_math sample_load) 0 f32_one = Ok [f32_one, 0]"
    by (simp add: rope_entry_def sample_load_def unit_floats Let_def)
  have "\<exists>t. compute_rope_table_with_factors (lw_math sample_load) s f32_one [f32_one] = Ok t"
    unfolding compute_rope_table_with_factors_def using s
    by (simp add: unit_floats factor_value_def Let_def th rope_row_def entry checked_mul_def u64_range_def res_simps)
  then show ?thesis using f s(5) unit_floats(5) by (auto simp: prepare_rope_tables_def)
qed

lemma sample_load_ok: "\<exists>pm. load True (\<lambda>_. Env_NotPresent) sample_load (Some 1) = Ok pm"
proof -
  let ?m = sample_manifest and ?raw = "replicate 512 0 :: bytes"
  obtain d where adm: "admitted ?m d (map td_name (mf_tensors ?m))" using sample_admitted by blast
  then have d: "from_manifest ?m = Ok d" by (simp add: admitted_def)
  note dd = sample_descriptor [OF d]
  obtain bm where bm: "metadata_from_manifest (map td_name (mf_tensors ?m)) ?m = Ok bm" using metadata_dense [OF adm] by blast
  obtain nodes where nodes: "checked_operators (compile d) ?m = Ok nodes"
    using checked_operators_total [OF sample_manifest_ok d] by blast
  obtain s where s: "to_model_spec bm = Ok s" "n_embd s = 2" "n_head s = 1" "n_head_kv s = 1" "n_layer s = 1" "ff_dim s = 2"
    "head_dim s = 2" "rope_dim s = 2" "n_vocab s = 3" "rms_eps s = f32_one" "rope_base s = f32_one" "spec_norm s = NK_Rms"
    "\<not> post_norm_enabled s" "attn_logit_softcap s = 0" "final_logit_softcap s = 0" using sample_model_spec [OF bm] by blast
  have cfg: "validate_kernel_configuration (\<lambda>_. None) (\<lambda>_. Env_NotPresent) = Ok ()"
    by (simp add: validate_kernel_configuration_def check_flag_def flag_set_def env_is_def env_or_else_def res_simps
        del: and_then_eq_Ok)
  have toks: "for_each (check_special_token ?m 3) [''tokenizer.ggml.bos_token_id'', ''tokenizer.ggml.eos_token_id''] = Ok ()"
    by (simp add: check_special_token_def require_token_def add_bos_token_def mf_value_def sample_manifest_def string_value_def)
  have widths: "for_each check_width (index_widths d 1) = Ok ()" "for_each check_width (product_widths d) = Ok ()"
    by (simp_all add: index_widths_def product_widths_def check_width_def dd checked_mul_def checked_add_def u64_range_def)
  have agree: "\<not> semantics_differ s" "\<not> dimensions_differ s d"
    by (simp_all add: semantics_differ_def dimensions_differ_def dd s unit_floats)
  obtain s' where s': "compute_derived (s\<lparr>n_ctx := 1, rope_scale := f32_one\<rparr>) = (Ok s' :: (model_error, model_spec) res)"
    "rope_dim s' = 2" "head_dim s' = 2" "n_ctx s' = 1" "rope_base s' = f32_one" "rope_scale s' = f32_one"
    by (simp add: compute_derived_Ok s with_derived_def)
  obtain b where b: "spec_budget (state_of d 1) (u64_range - 1) four_gib = Ok b"
    by (simp add: spec_budget_def state_of_def dd four_gib_def checked_mul_def u64_range_def res_simps del: and_then_eq_Ok)
  obtain tables where t: "prepare_rope_tables (lw_math sample_load) ?raw bm s' = Ok tables"
    using sample_tables [OF bm s'(2-6)] by blast
  have w: "lw_parse_f32 sample_load = (\<lambda>_. None)" "lw_bytes sample_load = Ok ?raw" "lw_manifest sample_load ?raw = Ok ?m"
    "lw_tokenizer sample_load ?raw = Ok ()" "lw_keys sample_load = map td_name (mf_tensors ?m)"
    by (simp_all add: sample_load_def)
  have len: "\<not> 2 ^ 32 - 1 < length ?raw" by simp
  have ctx: "context_limit 4 (Some 1) = Ok 1" by (simp add: context_limit_def)
  show ?thesis
    unfolding load_def w cfg map_err.simps and_then.simps if_not_P [OF len] d dd(9,6) toks ctx nodes bm widths s(1)
      unwrap_def res.case if_not_P [OF agree(1)] if_not_P [OF agree(2)] s'(1) b t not_True_eq_False if_False by blast
qed

lemma load_consistent_witness:
  "\<exists>pm d capacity. load True (\<lambda>_. Env_NotPresent) sample_load (Some 1) = Ok pm \<and> from_manifest sample_manifest = Ok d \<and>
     vm_plan (pm_validated pm) = compile d \<and> vm_state (pm_validated pm) = state_of d capacity \<and>
     spec_matches (vm_spec (pm_validated pm)) d capacity \<and> md_rope_dimensions d = 2"
proof -
  obtain pm where pm: "load True (\<lambda>_. Env_NotPresent) sample_load (Some 1) = Ok pm" using sample_load_ok by blast
  have "lw_manifest sample_load raw = Ok sample_manifest" for raw by (simp add: sample_load_def)
  with load_consistent [OF pm] obtain d capacity where "from_manifest sample_manifest = Ok d"
    "vm_plan (pm_validated pm) = compile d" "vm_state (pm_validated pm) = state_of d capacity"
    "spec_matches (vm_spec (pm_validated pm)) d capacity" by auto
  with pm sample_descriptor(8) [OF this(1)] show ?thesis by blast
qed

end
