(* ===== verification/Forward.thy ===== *)
theory Forward
  imports Admission
begin

text \<open>
  The protocol between a request, its key-value state and a forward pass:
  \<open>src/src/backend/bindless/kv_cache.rs\<close> (the GPU cache), the request and state-access parts
  of \<open>loader.rs\<close>, and the leased, chunked forward pass of \<open>pipeline/inference.rs\<close>. What the
  GPU computes is a parameter: an execution takes a world, the rows and their positions to
  a new world and a result or an error.
\<close>

section \<open>The GPU cache\<close>

text \<open>A \<open>wgpu::Buffer\<close> is its identity, a number. \<open>gk_owner\<close> is the shared controller.\<close>

record gpu_cache =
  gk_owner :: "controller option"
  gk_k :: "nat list"
  gk_v :: "nat list"
  gk_packed :: bool
  gk_seq_len :: u32
  gk_window_base :: u32
  gk_max_seq_len :: u32
  gk_layers :: nat
  gk_head_kv :: u32
  gk_head_dim :: u32

text \<open>The byte size of one layer's key buffer, computed in 32 bits.\<close>

definition kv_buffer_size :: "u32 \<Rightarrow> u32 \<Rightarrow> u32 \<Rightarrow> nat" where
  "kv_buffer_size max_seq heads hdim = unat (max_seq * heads * hdim * 4)"

definition cache_reset :: "gpu_cache \<Rightarrow> gpu_cache" where
  "cache_reset g = g\<lparr>gk_seq_len := 0, gk_window_base := 0\<rparr>"

definition cache_set_seq_len :: "u32 \<Rightarrow> gpu_cache \<Rightarrow> ('e, gpu_cache) res" where
  "cache_set_seq_len n g = (if gk_max_seq_len g < n then Panic else Ok (g\<lparr>gk_seq_len := n\<rparr>))"

definition cache_advance_window :: "u32 \<Rightarrow> gpu_cache \<Rightarrow> gpu_cache" where
  "cache_advance_window shift g = g\<lparr>gk_window_base := saturating_add_u32 (gk_window_base g) shift\<rparr>"

text \<open>The length is advanced before it is checked.\<close>

definition cache_increment :: "gpu_cache \<Rightarrow> gpu_cache \<times> (string, unit) res" where
  "cache_increment g =
     (let n = gk_seq_len g + 1; g' = g\<lparr>gk_seq_len := n\<rparr> in
      (g', if gk_max_seq_len g < n
           then Err (''KV cache overflow: '' @ dec (unat n) @ '' > '' @ dec (unat (gk_max_seq_len g)) @
                  '' (context window exceeded)'')
           else Ok ()))"

text \<open>\<open>StateController::begin\<close> without interference, and its lease's index.\<close>

definition begin_lease :: "controller \<Rightarrow> controller \<times> nat state_res" where
  "begin_lease c =
     (case begin_acquire c of
        (c, Ok _) \<Rightarrow> (case begin_epoch c of
           (c', Ok _) \<Rightarrow> (c', Ok (length (cw_leases c)))
         | (c', Err e) \<Rightarrow> (c', Err e) | (c', Panic) \<Rightarrow> (c', Panic))
      | (c, Err e) \<Rightarrow> (c, Err e) | (c, Panic) \<Rightarrow> (c, Panic))"

definition cache_matches :: "gpu_cache \<Rightarrow> state_spec \<Rightarrow> bool" where
  "cache_matches g s = (gk_layers g = ss_layers s \<and> unat (gk_head_kv g) = ss_kv_heads s \<and>
     unat (gk_head_dim g) = ss_head_dim s \<and> unat (gk_max_seq_len g) = ss_capacity s)"

text \<open>The controller of the cache: the one it has, if of this plan, or a new one.\<close>

definition install_owner :: "gpu_cache \<Rightarrow> validated_model \<Rightarrow> controller state_res" where
  "install_owner g v =
     (case gk_owner g of
        Some c \<Rightarrow> if cw_identity c \<noteq> vm_identity v then Err SE_Identity else Ok c
      | None \<Rightarrow> new_controller (vm_identity v) (vm_state v))"

text \<open>A lease whose prefill is refused is dropped, which aborts it.\<close>

definition begin_for_plan :: "gpu_cache \<Rightarrow> validated_model \<Rightarrow> nat \<Rightarrow> gpu_cache \<times> nat state_res" where
  "begin_for_plan g v prompt_tokens =
     (if \<not> cache_matches g (vm_state v) then (g, Err SE_Identity)
      else if gk_packed g then (g, Err (SE_Unsupported ''INT4 is not the F32 state plan''))
      else
        (case install_owner g v of
           Err e \<Rightarrow> (g, Err e)
         | Panic \<Rightarrow> (g, Panic)
         | Ok c \<Rightarrow>
             (case begin_lease c of
                (c, Ok i) \<Rightarrow>
                  (case snd (start_prefill (cw_capacity c) prompt_tokens (cw_leases c ! i)) of
                     Ok _ \<Rightarrow> (cache_reset (g\<lparr>gk_owner := Some (lease_call i (LO_Start_Prefill prompt_tokens) c)\<rparr>), Ok i)
                   | Err e \<Rightarrow> (g\<lparr>gk_owner := Some (lease_call i LO_Drop c)\<rparr>, Err e)
                   | Panic \<Rightarrow> (g\<lparr>gk_owner := Some c\<rparr>, Panic))
              | (c, Err e) \<Rightarrow> (g\<lparr>gk_owner := Some c\<rparr>, Err e)
              | (c, Panic) \<Rightarrow> (g\<lparr>gk_owner := Some c\<rparr>, Panic))))"

section \<open>The request\<close>

text \<open>\<open>BoundRequestState\<close>: the lease's index and the buffers it is bound to.\<close>

record bound_request =
  br_lease :: nat
  br_k :: "nat list"
  br_v :: "nat list"

definition begin_request ::
    "bound_request option \<Rightarrow> gpu_cache \<Rightarrow> validated_model \<Rightarrow> nat \<Rightarrow>
     (bound_request option \<times> gpu_cache) \<times> nat state_res" where
  "begin_request bound g v prompt_tokens =
     (if bound \<noteq> None then ((bound, g), Err SE_Busy)
      else
        (case begin_for_plan g v prompt_tokens of
           (g, Ok i) \<Rightarrow> ((Some \<lparr>br_lease = i, br_k = gk_k g, br_v = gk_v g\<rparr>, g), Ok i)
         | (g, Err e) \<Rightarrow> ((bound, g), Err e)
         | (g, Panic) \<Rightarrow> ((bound, g), Panic)))"

text \<open>Dropping the request of lease \<open>i\<close> unbinds it and aborts the lease.\<close>

definition drop_request :: "nat \<Rightarrow> bound_request option \<Rightarrow> gpu_cache \<Rightarrow> bound_request option \<times> gpu_cache" where
  "drop_request i bound g =
     ((case bound of Some b \<Rightarrow> if br_lease b = i then None else bound | None \<Rightarrow> None),
      g\<lparr>gk_owner := map_option (lease_call i LO_Abort) (gk_owner g)\<rparr>)"

section \<open>A forward pass\<close>

text \<open>
  What a forward pass reads of the model, the device and the process: the environment, the
  validated model, the metadata and the text of its layer table when it was loaded, the
  bound request, the device's binding limit; \<open>fw_show\<close> and \<open>fw_show_state\<close> are \<open>to_string\<close>.
\<close>

record forward_env =
  fw_env :: environment
  fw_parse_f32 :: "string \<Rightarrow> f32 option"
  fw_model :: validated_model
  fw_metadata :: bindless_metadata
  fw_signature :: string
  fw_show_layers :: "compiled_layer_entry list \<Rightarrow> string"
  fw_bound :: "bound_request option"
  fw_max_binding :: nat
  fw_show :: "model_error \<Rightarrow> string"
  fw_show_state :: "state_error \<Rightarrow> string"

definition check_binding :: "bindless_metadata \<Rightarrow> tensor_binding \<Rightarrow> unit str_res" where
  "check_binding bm b =
     (if bm_tensor_offsets bm (tb_name b) \<noteq> Some (tb_offset b) \<or> bm_tensor_types bm (tb_name b) \<noteq> Some (tb_ggml_type b) \<or>
         bm_tensor_dims bm (tb_name b) \<noteq> Some (tb_dimensions b)
      then Err ''model tensor bindings differ from validated manifest'' else Ok ())"

definition validate_state_access ::
    "forward_env \<Rightarrow> model_spec \<Rightarrow> nat \<Rightarrow> nat \<Rightarrow> nat \<Rightarrow> (nat list \<times> nat list) option \<Rightarrow> nat option str_res" where
  "validate_state_access fw spec rows start stop kv =
     and_then (map_err (fw_show fw) (validate_kernel_configuration (fw_parse_f32 fw) (fw_env fw))) (\<lambda>_.
     and_then (map_err (fw_show fw) (check_forward (fw_model fw) spec rows start stop)) (\<lambda>_.
     if fw_show_layers fw (bm_compiled_layers (fw_metadata fw)) \<noteq> fw_signature fw
     then Err ''model plan layer table mismatch''
     else
     and_then (for_each (check_binding (fw_metadata fw)) (md_bindings (ep_descriptor (vm_plan (fw_model fw))))) (\<lambda>_.
     case kv of
       Some (k, v) \<Rightarrow>
         (case fw_bound fw of
            None \<Rightarrow> Err ''external KV requires a bound model request lease''
          | Some b \<Rightarrow> if br_k b \<noteq> k \<or> br_v b \<noteq> v then Err ''KV buffers do not belong to active request lease''
              else Ok (Some (br_lease b)))
     | None \<Rightarrow> if start \<noteq> 0 then Err ''stateless model execution must start at position zero'' else Ok None)))"

definition check_frame :: "nat \<Rightarrow> nat \<Rightarrow> string \<times> nat \<Rightarrow> unit str_res" where
  "check_frame max_binding rows lw =
     and_then (ok_or (checked_mul rows (snd lw)) ''frame shape overflow'') (\<lambda>elements.
     and_then (ok_or (checked_mul elements 4) ''frame byte overflow'') (\<lambda>byts.
     if 2 ^ 32 - 1 < elements \<or> max_binding < byts
     then Err (fst lw @ '' exceeds checked frame/binding limits'') else Ok ()))"

definition frame_widths :: "model_spec \<Rightarrow> (string \<times> nat) list" where
  "frame_widths spec = [(''activation'', n_embd spec), (''scratch'', temp_buffer_size spec)]"

text \<open>The state a pass works on: the controller of the cache and the world of the GPU.\<close>

type_synonym ('w, 'r) execution = "'w \<Rightarrow> f32 list \<Rightarrow> u32 \<Rightarrow> u32 \<Rightarrow> 'w \<times> 'r str_res"

text \<open>The write a pass reserves on its lease before it runs.\<close>

definition reserve_write ::
    "forward_env \<Rightarrow> nat \<Rightarrow> nat \<Rightarrow> nat \<Rightarrow> controller \<Rightarrow> controller \<times> state_write str_res" where
  "reserve_write fw i start rows c =
     (let l = cw_leases c ! i in
      case map_err (fw_show_state fw) (and_then (check_identity (vm_identity (fw_model fw)) c l) (\<lambda>_. require_read 0 start l)) of
        Err e \<Rightarrow> (c, Err e)
      | Panic \<Rightarrow> (c, Panic)
      | Ok _ \<Rightarrow>
          if sl_phase l = Prefill
          then (lease_call i (LO_Prepare_Chunk start rows) c,
            map_err (fw_show_state fw) (snd (prepare_prefill_chunk (cw_capacity c) start rows l)))
          else if sl_phase l = Ready \<and> rows = 1
          then (lease_call i (LO_Prepare_Decode start) c,
            map_err (fw_show_state fw) (snd (prepare_decode (cw_capacity c) start l)))
          else (c, Err ''invalid leased forward phase/row count''))"

text \<open>Success commits the reserved write, an error aborts the lease.\<close>

definition settle_write ::
    "forward_env \<Rightarrow> nat \<Rightarrow> state_write \<Rightarrow> 'r str_res \<Rightarrow> controller \<Rightarrow> controller \<times> 'r str_res" where
  "settle_write fw i w outcome c =
     (case outcome of
        Ok v \<Rightarrow> (lease_call i (LO_Commit w) c,
           and_then (map_err (fw_show_state fw) (snd (commit w (cw_leases c ! i)))) (\<lambda>_. Ok v))
      | Err e \<Rightarrow> (lease_call i LO_Abort c, Err e)
      | Panic \<Rightarrow> (c, Panic))"

definition run_forward ::
    "forward_env \<Rightarrow> ('w, 'r) execution \<Rightarrow> model_spec \<Rightarrow> f32 list \<Rightarrow> u32 \<Rightarrow> u32 \<Rightarrow>
     (nat list \<times> nat list) option \<Rightarrow> controller \<times> 'w \<Rightarrow> (controller \<times> 'w) \<times> 'r str_res" where
  "run_forward fw exec spec embd pos seq_len kv st =
     (let (c, w) = st; rows = length embd div n_embd spec in
      if n_embd spec = 0 \<or> length embd mod n_embd spec \<noteq> 0
      then (st, Err ''input embeddings do not form complete token rows'')
      else
        (case and_then (for_each (check_frame (fw_max_binding fw) rows) (frame_widths spec)) (\<lambda>_.
                validate_state_access fw spec rows (unat pos) (unat seq_len) kv) of
           Err e \<Rightarrow> (st, Err e)
         | Panic \<Rightarrow> (st, Panic)
         | Ok None \<Rightarrow> (let (w', r) = exec w embd pos seq_len in ((c, w'), r))
         | Ok (Some i) \<Rightarrow>
             (case reserve_write fw i (unat pos) rows c of
                (c, Err e) \<Rightarrow> ((c, w), Err e)
              | (c, Panic) \<Rightarrow> ((c, w), Panic)
              | (c, Ok sw) \<Rightarrow>
                  (let (w', outcome) = exec w embd pos seq_len; (c', r) = settle_write fw i sw outcome c
                   in ((c', w'), r)))))"

section \<open>Chunked prefill\<close>

text \<open>\<open>slice::chunks\<close> for a positive size.\<close>

function chunks :: "nat \<Rightarrow> 'a list \<Rightarrow> 'a list list" where
  "chunks n xs = (if n = 0 \<or> xs = [] then [] else take n xs # chunks n (drop n xs))"
  by auto
termination by (relation "measure (\<lambda>(n, xs). length xs)") auto

declare chunks.simps [simp del]

fun chunk_loop ::
    "forward_env \<Rightarrow> ('w, 'r) execution \<Rightarrow> model_spec \<Rightarrow> u32 \<Rightarrow> (nat list \<times> nat list) option \<Rightarrow>
     f32 list list \<Rightarrow> u32 \<Rightarrow> 'r option \<Rightarrow> controller \<times> 'w \<Rightarrow> (controller \<times> 'w) \<times> 'r option str_res" where
  "chunk_loop fw exec spec pos kv [] processed last_result st = (st, Ok last_result)"
| "chunk_loop fw exec spec pos kv (chunk # rest) processed last_result st =
     (let count = word_of_nat (length chunk div n_embd spec); here = pos + processed in
      case run_forward fw exec spec chunk here (here + count) kv st of
        (st, Ok r) \<Rightarrow> chunk_loop fw exec spec pos kv rest (processed + count) (Some r) st
      | (st, Err e) \<Rightarrow> (st, Err e)
      | (st, Panic) \<Rightarrow> (st, Panic))"

text \<open>
  A prompt that passes the first test has at least one row, so the separate call for no
  rows is never reached.
\<close>

definition run_prefill_chunked ::
    "forward_env \<Rightarrow> ('w, 'r) execution \<Rightarrow> model_spec \<Rightarrow> f32 list \<Rightarrow> u32 \<Rightarrow> (nat list \<times> nat list) option \<Rightarrow>
     u32 \<Rightarrow> controller \<times> 'w \<Rightarrow> (controller \<times> 'w) \<times> 'r str_res" where
  "run_prefill_chunked fw exec spec embd pos kv chunk_tokens st =
     (let dim1 = n_embd spec; rows = length embd div dim1 in
      if dim1 = 0 \<or> chunk_tokens = 0 \<or> embd = [] \<or> length embd mod dim1 \<noteq> 0
      then (st, Err ''invalid_prefill_shape: prefill requires nonempty aligned rows and a positive chunk size'')
      else
        (case and_then (ok_or (checked_add (unat pos) rows) ''prefill position overflow'') (\<lambda>stop.
              and_then (map_err (fw_show fw) (check_forward (fw_model fw) spec rows (unat pos) stop)) (\<lambda>_.
              ok_or (checked_mul (unat chunk_tokens) dim1) ''prefill chunk size overflow'')) of
           Err e \<Rightarrow> (st, Err e)
         | Panic \<Rightarrow> (st, Panic)
         | Ok step \<Rightarrow>
             (case chunk_loop fw exec spec pos kv (chunks step embd) 0 None st of
                (st, Ok r) \<Rightarrow> (st, ok_or r ''chunked prefill produced no chunks'')
              | (st, Err e) \<Rightarrow> (st, Err e)
              | (st, Panic) \<Rightarrow> (st, Panic))))"

section \<open>The allocation is the budget\<close>

text \<open>
  C38: The 32-bit product that sizes the GPU buffers does not overflow for a state whose
  budget was granted under the 4 GiB limit: every layer's buffer has exactly the bytes of
  the budget, and all buffers together stay within it.
\<close>

theorem kv_allocation_exact:
  assumes "cache_matches g s" and "max_buffer < u64_range" and "spec_budget s max_buffer four_gib = Ok b"
  shows "kv_buffer_size (gk_max_seq_len g) (gk_head_kv g) (gk_head_dim g) = sb_per_tensor_bytes b \<and>
    2 * gk_layers g * sb_per_tensor_bytes b \<le> sb_total_bytes b \<and> sb_total_bytes b \<le> four_gib"
proof -
  have four: "four_gib < u64_range" "four_gib = 2 ^ 32" by (simp_all add: four_gib_def u64_range_def)
  have b: "0 < ss_layers s" "0 < ss_kv_heads s" "0 < ss_head_dim s" "ss_layers s * layer_bytes s \<le> four_gib"
    "sb_per_tensor_bytes b = 4 * kv_elements s" "sb_total_bytes b = ss_layers s * layer_bytes s"
    using assms(3) spec_budget_Ok [OF assms(2) four(1)] by simp_all
  have m: "gk_layers g = ss_layers s" "unat (gk_head_kv g) = ss_kv_heads s" "unat (gk_head_dim g) = ss_head_dim s"
    "unat (gk_max_seq_len g) = ss_capacity s" using assms(1) by (simp_all add: cache_matches_def)
  have lb: "8 * kv_elements s \<le> layer_bytes s" by (simp add: layer_bytes_def)
  have "layer_bytes s \<le> ss_layers s * layer_bytes s" using b(1) by (cases "ss_layers s") simp_all
  then have "8 * kv_elements s \<le> 2 ^ 32" using le_trans [OF lb] b(4) unfolding four(2) by (metis le_trans)
  then have e: "4 * kv_elements s < 2 ^ 32" by simp
  have "ss_capacity s * ss_kv_heads s * 1 \<le> kv_elements s" unfolding kv_elements_def
    by (rule mult_le_mono2) (use b(3) in simp)
  then have "ss_capacity s * ss_kv_heads s < 2 ^ 32" "kv_elements s < 2 ^ 32" using e by linarith+
  then have "kv_buffer_size (gk_max_seq_len g) (gk_head_kv g) (gk_head_dim g) = 4 * kv_elements s"
    using e by (simp add: kv_buffer_size_def unat_word_ariths m kv_elements_def mult.commute)
  moreover have "2 * ss_layers s * (4 * kv_elements s) \<le> ss_layers s * layer_bytes s"
    using mult_le_mono2 [OF lb, of "ss_layers s"] by (simp add: ac_simps)
  ultimately show ?thesis using b m(1) by simp
qed

definition sample_cache :: gpu_cache where
  "sample_cache = \<lparr>gk_owner = None, gk_k = [7], gk_v = [8], gk_packed = False, gk_seq_len = 0, gk_window_base = 0,
     gk_max_seq_len = 4, gk_layers = 1, gk_head_kv = 1, gk_head_dim = 2\<rparr>"

lemma sample_cache_matches: "cache_matches sample_cache (vm_state (sample_validated d))"
  by (simp add: cache_matches_def sample_cache_def sample_validated_def)

lemma kv_allocation_exact_witness:
  "kv_buffer_size 4 1 2 = 32 \<and> 2 * gk_layers sample_cache * 32 \<le> 64"
proof -
  let ?s = "\<lparr>ss_kind = DenseKv, ss_layers = 1, ss_kv_heads = 1, ss_head_dim = 2, ss_capacity = 4, ss_precision = KP_F32\<rparr>"
  have "cache_matches sample_cache ?s" by (simp add: cache_matches_def sample_cache_def)
  moreover have "1048576 < u64_range" by (simp add: u64_range_def)
  moreover have "spec_budget ?s 1048576 four_gib = Ok \<lparr>sb_per_tensor_bytes = 32, sb_total_bytes = 64\<rparr>"
    by (simp add: spec_budget_def four_gib_def checked_mul_def u64_range_def res_simps del: and_then_eq_Ok)
  ultimately have "kv_buffer_size (gk_max_seq_len sample_cache) (gk_head_kv sample_cache) (gk_head_dim sample_cache) = 32 \<and>
      2 * gk_layers sample_cache * 32 \<le> 64"
    using kv_allocation_exact by fastforce
  then show ?thesis by (simp add: sample_cache_def)
qed

section \<open>The life of a request\<close>

lemma lease_call_fields [simp]:
  "cw_identity (lease_call i op c) = cw_identity c" "cw_capacity (lease_call i op c) = cw_capacity c"
  "cw_epoch (lease_call i op c) = cw_epoch c" "length (cw_leases (lease_call i op c)) = length (cw_leases c)"
  by (simp_all add: lease_call_def Let_def)

lemma lease_call_nth [simp]:
  "i < length (cw_leases c) \<Longrightarrow> cw_leases (lease_call i op c) ! i = lease_step (cw_capacity c) op (cw_leases c ! i)"
  by (simp add: lease_call_def Let_def)

lemma lease_call_closes:
  "i < length (cw_leases c) \<Longrightarrow> \<not> sl_closed (cw_leases c ! i) \<Longrightarrow>
     sl_closed (lease_step (cw_capacity c) op (cw_leases c ! i)) \<Longrightarrow> \<not> cw_active (lease_call i op c)"
  by (simp add: lease_call_def Let_def)

lemma begin_lease_Ok:
  assumes "begin_lease c = (c', Ok i)"
  shows "i = length (cw_leases c)" and "cw_leases c' = cw_leases c @ [new_lease (cw_epoch c + 1)]"
    and "cw_epoch c' = cw_epoch c + 1" and "cw_identity c' = cw_identity c" and "cw_capacity c' = cw_capacity c"
    and "cw_active c'"
  using assms
  by (auto simp: begin_lease_def begin_acquire_def begin_epoch_def split: if_splits option.splits)

lemma begin_lease_free:
  "\<not> cw_active c \<Longrightarrow> cw_epoch c + 1 < u64_range \<Longrightarrow> \<exists>c'. begin_lease c = (c', Ok (length (cw_leases c)))"
  by (simp add: begin_lease_def begin_acquire_def begin_epoch_def checked_add_def)

text \<open>The lease of a running request: open, of the current epoch, committed up to \<open>start\<close> of the prompt.\<close>

definition open_at :: "nat \<Rightarrow> nat \<Rightarrow> nat \<Rightarrow> controller \<Rightarrow> bool" where
  "open_at i start prompt c =
     (i < length (cw_leases c) \<and>
      cw_leases c ! i = \<lparr>sl_epoch = cw_epoch c, sl_phase = (if start < prompt then Prefill else Ready),
        sl_processed = start, sl_prompt = prompt, sl_pending = None, sl_closed = False\<rparr> \<and>
      0 < prompt \<and> start \<le> prompt \<and> prompt \<le> cw_capacity c)"

lemma begin_for_plan_Ok:
  assumes "begin_for_plan g v n = (g', Ok i)"
  obtains c where "gk_owner g' = Some c" and "open_at i 0 n c" and "cw_identity c = vm_identity v" and "cw_active c"
    and "gk_seq_len g' = 0" and "gk_k g' = gk_k g" and "gk_v g' = gk_v g"
proof -
  obtain c0 c1 where c: "install_owner g v = Ok c0" "begin_lease c0 = (c1, Ok i)"
    "snd (start_prefill (cw_capacity c1) n (cw_leases c1 ! i)) = Ok ()"
    "g' = cache_reset (g\<lparr>gk_owner := Some (lease_call i (LO_Start_Prefill n) c1)\<rparr>)"
    using assms by (auto simp: begin_for_plan_def split: if_splits res.splits prod.splits)
  note b = begin_lease_Ok [OF c(2)]
  have l: "cw_leases c1 ! i = new_lease (cw_epoch c1)" "i < length (cw_leases c1)" using b by simp_all
  have n: "0 < n" "n \<le> cw_capacity c1"
    using c(3) unfolding l by (auto simp: start_prefill_def new_lease_def split: if_splits)
  have ident: "cw_identity c0 = vm_identity v"
    using c(1) by (auto simp: install_owner_def new_controller_def split: option.splits if_splits)
  let ?c = "lease_call i (LO_Start_Prefill n) c1"
  have "open_at i 0 n ?c" unfolding open_at_def
    using l n by (simp add: start_prefill_def new_lease_def)
  moreover have "cw_active ?c"
    using b(6) l n by (simp add: lease_call_def Let_def start_prefill_def new_lease_def)
  ultimately show ?thesis using that [of ?c] c(4) ident b by (simp add: cache_reset_def)
qed

text \<open>Whatever a request does with its lease, the controller is busy only while the lease is open.\<close>

definition lease_calls :: "nat \<Rightarrow> lease_op list \<Rightarrow> controller \<Rightarrow> controller" where
  "lease_calls i ops c = fold (lease_call i) ops c"

lemma lease_calls_fields [simp]:
  "cw_identity (lease_calls i ops c) = cw_identity c" "cw_capacity (lease_calls i ops c) = cw_capacity c"
  "cw_epoch (lease_calls i ops c) = cw_epoch c" "length (cw_leases (lease_calls i ops c)) = length (cw_leases c)"
  by (induction ops arbitrary: c) (simp_all add: lease_calls_def)

definition busy_if_open :: "nat \<Rightarrow> controller \<Rightarrow> bool" where
  "busy_if_open i c = (i < length (cw_leases c) \<and> (sl_closed (cw_leases c ! i) \<longrightarrow> \<not> cw_active c))"

lemma lease_call_busy: "busy_if_open i c \<Longrightarrow> busy_if_open i (lease_call i op c)"
  by (auto simp: busy_if_open_def) (simp_all add: lease_call_def Let_def split: if_splits)

lemma lease_calls_busy: "busy_if_open i c \<Longrightarrow> busy_if_open i (lease_calls i ops c)"
  by (induction ops arbitrary: c) (simp_all add: lease_calls_def lease_call_busy)

lemma abort_releases:
  assumes "busy_if_open i c"
  shows "\<not> cw_active (lease_call i LO_Abort c)" and "sl_closed (cw_leases (lease_call i LO_Abort c) ! i)"
  using assms by (auto simp: busy_if_open_def lease_call_def Let_def abort_def close_lease_def)

lemma begin_request_free:
  assumes "cache_matches g (vm_state v)" and "\<not> gk_packed g" and "gk_owner g = Some c"
    and "cw_identity c = vm_identity v" and "\<not> cw_active c" and "cw_epoch c + 1 < u64_range"
    and "0 < n" and "n \<le> cw_capacity c"
  shows "\<exists>b g'. begin_request None g v n = ((Some b, g'), Ok (length (cw_leases c)))"
proof -
  obtain c' where c': "begin_lease c = (c', Ok (length (cw_leases c)))"
    using begin_lease_free [OF assms(5,6)] by blast
  note b = begin_lease_Ok [OF c']
  have "snd (start_prefill (cw_capacity c') n (cw_leases c' ! length (cw_leases c))) = Ok ()"
    using assms(7,8) b by (simp add: start_prefill_def new_lease_def)
  then show ?thesis using assms(1-4) c'
    by (simp add: begin_request_def begin_for_plan_def install_owner_def)
qed

text \<open>
  C8: A request always gives the state back: once begun, whatever sequence of operations it
  performs on its lease, dropping it unbinds the model, closes the lease and frees the
  controller, and the next request for a prompt that fits can begin, on a new lease.
\<close>

theorem dropped_request_frees_state:
  assumes "begin_request None g v n = ((bound, g1), Ok i)" and "gk_owner g1 = Some c"
    and "cw_epoch c + 1 < u64_range" and "0 < n'" and "n' \<le> cw_capacity c"
  shows "\<exists>g2 c2. drop_request i bound (g1\<lparr>gk_owner := Some (lease_calls i ops c)\<rparr>) = (None, g2) \<and>
    gk_owner g2 = Some c2 \<and> sl_closed (cw_leases c2 ! i) \<and> \<not> cw_active c2 \<and>
    (\<exists>b g3 j. begin_request None g2 v n' = ((Some b, g3), Ok j) \<and> j \<noteq> i)"
proof -
  have bp: "begin_for_plan g v n = (g1, Ok i)" and bound: "bound = Some \<lparr>br_lease = i, br_k = gk_k g1, br_v = gk_v g1\<rparr>"
    using assms(1) by (auto simp: begin_request_def split: prod.splits res.splits)
  have g1: "cache_matches g1 (vm_state v)" "\<not> gk_packed g1"
    using bp by (auto simp: begin_for_plan_def cache_reset_def cache_matches_def split: if_splits res.splits prod.splits)
  obtain c' where "gk_owner g1 = Some c'" "open_at i 0 n c'" "cw_identity c' = vm_identity v" "cw_active c'"
    by (rule begin_for_plan_Ok [OF bp])
  then have c: "open_at i 0 n c" "cw_identity c = vm_identity v" using assms(2) by simp_all
  then have "busy_if_open i c" by (simp add: busy_if_open_def open_at_def)
  from abort_releases [OF lease_calls_busy [OF this, of ops]]
  have c2: "\<not> cw_active (lease_call i LO_Abort (lease_calls i ops c))"
    "sl_closed (cw_leases (lease_call i LO_Abort (lease_calls i ops c)) ! i)" .
  let ?c2 = "lease_call i LO_Abort (lease_calls i ops c)"
  let ?g2 = "g1\<lparr>gk_owner := Some ?c2\<rparr>"
  have "drop_request i bound (g1\<lparr>gk_owner := Some (lease_calls i ops c)\<rparr>) = (None, ?g2)"
    by (simp add: drop_request_def bound)
  moreover have "cache_matches ?g2 (vm_state v)" using g1(1) by (simp add: cache_matches_def)
  then obtain b g3 where "begin_request None ?g2 v n' = ((Some b, g3), Ok (length (cw_leases ?c2)))"
    using begin_request_free [of ?g2 v ?c2 n'] g1(2) c2(1) c(2) assms(3-5) by auto
  moreover have "length (cw_leases ?c2) \<noteq> i" using c(1) by (simp add: open_at_def)
  ultimately show ?thesis using c2 by (intro exI [of _ ?g2] exI [of _ ?c2]) auto
qed

lemma dropped_request_frees_state_witness:
  "\<exists>d bound g1 c g2 c2 b g3 j. begin_request None sample_cache (sample_validated d) 2 = ((bound, g1), Ok 0) \<and>
     gk_owner g1 = Some c \<and>
     drop_request 0 bound (g1\<lparr>gk_owner := Some (lease_calls 0 [LO_Prepare_Chunk 0 1] c)\<rparr>) = (None, g2) \<and>
     gk_owner g2 = Some c2 \<and> \<not> cw_active c2 \<and> begin_request None g2 (sample_validated d) 3 = ((Some b, g3), Ok j) \<and> j \<noteq> 0"
proof -
  obtain d where "from_manifest sample_manifest = Ok d" using sample_accepted unfolding is_ok_iff by blast
  let ?v = "sample_validated d"
  let ?c = "\<lparr>cw_identity = sample_identity, cw_capacity = 4, cw_epoch = 1, cw_active = True, cw_starting = 0,
      cw_leases = [\<lparr>sl_epoch = 1, sl_phase = Prefill, sl_processed = 0, sl_prompt = 2, sl_pending = None, sl_closed = False\<rparr>]\<rparr>"
  have new: "new_controller (vm_identity ?v) (vm_state ?v) = Ok \<lparr>cw_identity = sample_identity, cw_capacity = 4,
      cw_epoch = 0, cw_active = False, cw_starting = 0, cw_leases = []\<rparr>"
    by (simp add: new_controller_def spec_budget_def sample_validated_def checked_mul_def u64_range_def res_simps
        del: and_then_eq_Ok)
  obtain bound g1 where b: "begin_request None sample_cache ?v 2 = ((bound, g1), Ok 0)" "gk_owner g1 = Some ?c"
  proof -
    have "begin_for_plan sample_cache ?v 2 = (cache_reset (sample_cache\<lparr>gk_owner := Some ?c\<rparr>), Ok 0)"
      unfolding begin_for_plan_def if_P [OF sample_cache_matches] install_owner_def
      using sample_cache_matches [of d]
      by (simp add: sample_cache_def new begin_lease_def begin_acquire_def begin_epoch_def checked_add_def u64_range_def
          new_lease_def start_prefill_def lease_call_def)
    then show ?thesis using that by (simp add: begin_request_def cache_reset_def)
  qed
  from dropped_request_frees_state [OF b, of 3 "[LO_Prepare_Chunk 0 1]"] b
  show ?thesis by (simp add: u64_range_def) blast
qed

section \<open>A chunked prefill is all or nothing\<close>

text \<open>An execution that records its calls in the world.\<close>

definition logged :: "('w, 'r) execution \<Rightarrow> ((f32 list \<times> u32 \<times> u32) list \<times> 'w, 'r) execution" where
  "logged exec lw embd pos seq_len =
     (let (w', r) = exec (snd lw) embd pos seq_len in ((fst lw @ [(embd, pos, seq_len)], w'), r))"

text \<open>The calls a prefill should make: the chunks in order, each at the position where the last ended.\<close>

fun call_spans :: "nat \<Rightarrow> nat \<Rightarrow> f32 list list \<Rightarrow> (f32 list \<times> nat \<times> nat) list" where
  "call_spans dim1 start [] = []"
| "call_spans dim1 start (ch # chs) =
     (ch, start, start + length ch div dim1) # call_spans dim1 (start + length ch div dim1) chs"

definition nat_call :: "f32 list \<times> u32 \<times> u32 \<Rightarrow> f32 list \<times> nat \<times> nat" where
  "nat_call call = (fst call, unat (fst (snd call)), unat (snd (snd call)))"

text \<open>The checks in front of an execution pass and find the lease \<open>i\<close>.\<close>

definition access_ok ::
    "forward_env \<Rightarrow> model_spec \<Rightarrow> (nat list \<times> nat list) option \<Rightarrow> nat \<Rightarrow> nat \<Rightarrow> nat \<Rightarrow> bool" where
  "access_ok fw spec kv i start rows =
     (for_each (check_frame (fw_max_binding fw) rows) (frame_widths spec) = Ok () \<and>
      validate_state_access fw spec rows start (start + rows) kv = Ok (Some i))"

lemma check_forward_Ok:
  "(check_forward v spec rows start stop = Ok ()) =
     (spec_eq spec (vm_spec v) \<and> 0 < rows \<and> start + rows = stop \<and> stop < u64_range \<and> stop \<le> ss_capacity (vm_state v))"
  by (auto simp: check_forward_def check_spec_def encode_def not_less)

lemma check_frame_Ok:
  "(check_frame mb rows lw = Ok ()) =
     (rows * snd lw < 2 ^ 32 \<and> rows * snd lw * 4 \<le> mb \<and> rows * snd lw * 4 < u64_range)"
  by (auto simp: check_frame_def u64_range_def)

lemma check_frame_mono:
  assumes "check_frame mb rows lw = Ok ()" and "rows' \<le> rows"
  shows "check_frame mb rows' lw = Ok ()"
proof -
  have le: "rows' * snd lw \<le> rows * snd lw" "rows' * snd lw * 4 \<le> rows * snd lw * 4"
    by (rule mult_le_mono1 [OF assms(2)]) (rule mult_le_mono1 [OF mult_le_mono1 [OF assms(2)]])
  show ?thesis using assms(1) unfolding check_frame_Ok
    by (elim conjE, intro conjI) (erule le_less_trans [OF le(1)] le_less_trans [OF le(2)] le_trans [OF le(2)])+
qed

lemma access_mono:
  assumes "access_ok fw spec kv i start rows" and "0 < rows'" and "rows' \<le> rows"
    and "start' + rows' \<le> ss_capacity (vm_state (fw_model fw))" and "start' + rows' < u64_range"
  shows "access_ok fw spec kv i start' rows'"
proof -
  have a: "for_each (check_frame (fw_max_binding fw) rows) (frame_widths spec) = Ok ()"
    "validate_state_access fw spec rows start (start + rows) kv = Ok (Some i)"
    using assms(1) by (simp_all add: access_ok_def)
  have "for_each (check_frame (fw_max_binding fw) rows') (frame_widths spec) = Ok ()"
    using a(1) check_frame_mono [OF _ assms(3)] by auto
  moreover have "spec_eq spec (vm_spec (fw_model fw))"
    using a(2) by (auto simp: validate_state_access_def check_forward_Ok)
  then have "check_forward (fw_model fw) spec rows' start' (start' + rows') = Ok ()"
    using assms(2,4,5) by (simp add: check_forward_Ok)
  then have "validate_state_access fw spec rows' start' (start' + rows') kv = Ok (Some i)"
    using a(2) by (auto simp: validate_state_access_def split: if_splits option.splits prod.splits)
  ultimately show ?thesis by (simp add: access_ok_def)
qed

text \<open>The outcome of a pass over part of a prompt: the extent committed, or the lease aborted.\<close>

definition pass_outcome :: "nat \<Rightarrow> nat \<Rightarrow> nat \<Rightarrow> controller \<Rightarrow> controller \<Rightarrow> 'r str_res \<Rightarrow> bool" where
  "pass_outcome i stop prompt c c' r =
     (cw_identity c' = cw_identity c \<and> cw_capacity c' = cw_capacity c \<and>
      (case r of
         Ok _ \<Rightarrow> open_at i stop prompt c'
       | Err _ \<Rightarrow> sl_closed (cw_leases c' ! i) \<and> \<not> cw_active c'
       | Panic \<Rightarrow> False))"

lemma reserve_prefill:
  assumes "open_at i start prompt c" and "0 < rows" and "start + rows \<le> prompt" and "prompt < u64_range"
    and "cw_identity c = vm_identity (fw_model fw)"
  shows "reserve_write fw i start rows c = (lease_call i (LO_Prepare_Chunk start rows) c,
    Ok \<lparr>sw_epoch = cw_epoch c, sw_start = start, sw_count = rows, sw_phase = Prefill\<rparr>)"
  using assms by (simp add: reserve_write_def Let_def open_at_def check_identity_def require_read_def
      prepare_prefill_chunk_def prepare_def checked_add_def del: and_then_eq_Ok)

lemma settle_prefill:
  assumes "open_at i start prompt c" and "0 < rows" and "start + rows \<le> prompt" and "prompt < u64_range"
    and "r \<noteq> Panic"
  shows "\<exists>c'. settle_write fw i \<lparr>sw_epoch = cw_epoch c, sw_start = start, sw_count = rows, sw_phase = Prefill\<rparr> r
      (lease_call i (LO_Prepare_Chunk start rows) c) = (c', r) \<and> pass_outcome i (start + rows) prompt c c' r"
proof -
  let ?c = "lease_call i (LO_Prepare_Chunk start rows) c"
  let ?w = "\<lparr>sw_epoch = cw_epoch c, sw_start = start, sw_count = rows, sw_phase = Prefill\<rparr>"
  have i: "i < length (cw_leases c)" "i < length (cw_leases ?c)" using assms(1) by (simp_all add: open_at_def)
  have l: "cw_leases ?c ! i = \<lparr>sl_epoch = cw_epoch c, sl_phase = Prefill, sl_processed = start, sl_prompt = prompt,
      sl_pending = Some ?w, sl_closed = False\<rparr>"
    using assms i by (simp add: open_at_def prepare_prefill_chunk_def prepare_def checked_add_def Let_def)
  show ?thesis
  proof (cases r)
    case (Ok v)
    have "snd (commit ?w (cw_leases ?c ! i)) = Ok ()" unfolding l by (simp add: commit_def Let_def)
    moreover have "open_at i (start + rows) prompt (lease_call i (LO_Commit ?w) ?c)"
      unfolding open_at_def using i l assms by (simp add: commit_def Let_def open_at_def)
    ultimately show ?thesis using Ok
      by (simp add: settle_write_def pass_outcome_def del: and_then_eq_Ok)
  next
    case (Err e)
    have "sl_closed (lease_step (cw_capacity ?c) LO_Abort (cw_leases ?c ! i))" "\<not> sl_closed (cw_leases ?c ! i)"
      unfolding l by (simp_all add: abort_def close_lease_def)
    with lease_call_closes [OF i(2)] i(2) Err show ?thesis by (simp add: settle_write_def pass_outcome_def)
  qed (use assms(5) in simp)
qed

lemma forward_chunk:
  assumes acc: "access_ok fw spec kv i start rows" and rows: "rows = length embd div n_embd spec"
    and dim: "n_embd spec \<noteq> 0" "length embd mod n_embd spec = 0"
    and pos: "unat pos = start" "unat seq_len = start + rows"
    and lease: "open_at i start prompt c" "0 < rows" "start + rows \<le> prompt" "prompt < u64_range"
    and ident: "cw_identity c = vm_identity (fw_model fw)"
    and ex: "exec w embd pos seq_len = (w', r)" "r \<noteq> Panic"
  shows "\<exists>c'. run_forward fw exec spec embd pos seq_len kv (c, w) = ((c', w'), r) \<and>
    pass_outcome i (start + rows) prompt c c' r"
proof -
  have a: "for_each (check_frame (fw_max_binding fw) rows) (frame_widths spec) = Ok ()"
    "validate_state_access fw spec rows start (start + rows) kv = Ok (Some i)"
    using acc by (simp_all add: access_ok_def)
  obtain c' where c': "settle_write fw i \<lparr>sw_epoch = cw_epoch c, sw_start = start, sw_count = rows, sw_phase = Prefill\<rparr> r
      (lease_call i (LO_Prepare_Chunk start rows) c) = (c', r)" "pass_outcome i (start + rows) prompt c c' r"
    using settle_prefill [OF lease ex(2)] by blast
  have "\<not> (n_embd spec = 0 \<or> length embd mod n_embd spec \<noteq> 0)" using dim by simp
  then have "run_forward fw exec spec embd pos seq_len kv (c, w) = ((c', w'), r)"
    unfolding run_forward_def Let_def prod.case if_not_P rows [symmetric] pos a and_then.simps res.case option.case
      reserve_prefill [OF lease ident] ex(1) c'(1) by simp
  with c'(2) show ?thesis by blast
qed

lemma chunks_props:
  assumes "0 < n"
  shows "concat (chunks n xs) = xs" and "\<forall>ch\<in>set (chunks n xs). ch \<noteq> [] \<and> length ch \<le> length (take n xs)"
    and "n mod d = 0 \<Longrightarrow> length xs mod d = 0 \<Longrightarrow> \<forall>ch\<in>set (chunks n xs). length ch mod d = 0"
proof -
  show "concat (chunks n xs) = xs"
    using assms by (induction n xs rule: chunks.induct) (subst chunks.simps, auto)
  show "\<forall>ch\<in>set (chunks n xs). ch \<noteq> [] \<and> length ch \<le> length (take n xs)"
    using assms
  proof (induction n xs rule: chunks.induct)
    case (1 n xs)
    show ?case
    proof (cases "xs = []")
      case False
      then have "chunks n xs = take n xs # chunks n (drop n xs)" using 1(2) by (subst chunks.simps) simp
      with 1 False show ?thesis by (auto dest!: bspec)
    qed (simp add: chunks.simps)
  qed
  show "\<forall>ch\<in>set (chunks n xs). length ch mod d = 0" if "n mod d = 0" "length xs mod d = 0"
    using assms that
  proof (induction n xs rule: chunks.induct)
    case (1 n xs)
    have sub: "length (drop n xs) mod d = 0" if "n \<le> length xs"
      using 1(3,4) that by (simp add: mod_eq_0_iff_dvd)
    have t: "length (take n xs) mod d = 0" using 1(3,4) by (simp add: min_def)
    show ?case
    proof (cases "xs = []")
      case False
      then have c: "chunks n xs = take n xs # chunks n (drop n xs)" using 1(2) by (subst chunks.simps) simp
      show ?thesis
      proof (cases "n \<le> length xs")
        case True
        then show ?thesis using 1(1) [OF _ 1(2,3) sub [OF True]] 1(2) False t c by auto
      qed (use t c in \<open>simp add: chunks.simps\<close>)
    qed (simp add: chunks.simps)
  qed
qed

lemma chunk_loop_settles:
  assumes acc: "access_ok fw spec kv i s0 R" and dim: "n_embd spec \<noteq> 0"
    and cap: "prompt \<le> ss_capacity (vm_state (fw_model fw))" "prompt < 2 ^ 32"
    and ex: "\<And>w e p n. snd (exec w e p n) \<noteq> Panic"
    and chs: "\<forall>ch\<in>set chs. ch \<noteq> [] \<and> length ch mod n_embd spec = 0 \<and> length ch div n_embd spec \<le> R"
    and start: "unat pos + unat processed = start" "start + sum_list (map (\<lambda>ch. length ch div n_embd spec) chs) = prompt"
    and lease: "open_at i start prompt c" and ident: "cw_identity c = vm_identity (fw_model fw)"
  shows "\<exists>c' calls w' r. chunk_loop fw (logged exec) spec pos kv chs processed last_r (c, (tr, w)) = ((c', (tr @ calls, w')), r) \<and>
    pass_outcome i prompt prompt c c' r \<and>
    (case r of Ok x \<Rightarrow> map nat_call calls = call_spans (n_embd spec) start chs \<and> (x = None \<longrightarrow> chs = [] \<and> last_r = None)
     | _ \<Rightarrow> True)"
  using chs start lease ident
proof (induction chs arbitrary: processed start c tr w last_r)
  case Nil
  then show ?case by (simp add: pass_outcome_def)
next
  case (Cons ch chs)
  let ?rows = "length ch div n_embd spec"
  let ?here = "pos + processed" and ?n = "word_of_nat ?rows :: u32"
  let ?rest = "sum_list (map (\<lambda>ch. length ch div n_embd spec) chs)"
  have rows: "0 < ?rows" "?rows \<le> R" "length ch mod n_embd spec = 0"
    using Cons.prems(1) dim by (auto simp: div_greater_zero_iff mod_eq_0_iff_dvd intro: dvd_imp_le)
  have tot: "start + ?rows + ?rest = prompt" using Cons.prems(3) by simp
  have here: "unat ?here = start"
    using Cons.prems(2) tot cap(2) by (intro trans [OF unat_add_small]) simp_all
  have n: "unat ?n = ?rows" using tot cap(2) by (intro unat_word_of_nat_small) simp
  have stop: "unat (?here + ?n) = start + ?rows"
    using here n tot cap(2) by (intro trans [OF unat_add_small]) simp_all
  have proc: "unat (processed + ?n) = unat processed + ?rows"
    using Cons.prems(2) n tot cap(2) by (intro trans [OF unat_add_small]) simp_all
  have acc': "access_ok fw spec kv i start ?rows"
    using acc rows tot cap by (intro access_mono [OF acc]) (simp_all add: u64_range_def)
  obtain w1 r1 where e: "exec w ch ?here (?here + ?n) = (w1, r1)" by (cases "exec w ch ?here (?here + ?n)")
  then have np: "r1 \<noteq> Panic" using ex [of w ch ?here "?here + ?n"] by simp
  let ?call = "(ch, ?here, ?here + ?n)"
  have le: "logged exec (tr, w) ch ?here (?here + ?n) = ((tr @ [?call], w1), r1)" by (simp add: logged_def e)
  have "start + ?rows \<le> prompt" "prompt < u64_range" using tot cap(2) by (simp_all add: u64_range_def)
  from forward_chunk [where exec = "logged exec" and w = "(tr, w)", OF acc' refl dim rows(3) here stop Cons.prems(4) rows(1) this Cons.prems(5) le np]
  obtain c1 where c1: "run_forward fw (logged exec) spec ch ?here (?here + ?n) kv (c, (tr, w)) = ((c1, (tr @ [?call], w1)), r1)"
    "pass_outcome i (start + ?rows) prompt c c1 r1" by blast
  have loop: "chunk_loop fw (logged exec) spec pos kv (ch # chs) processed last_r (c, (tr, w)) =
      (case ((c1, (tr @ [?call], w1)), r1) of
        (st, Ok r) \<Rightarrow> chunk_loop fw (logged exec) spec pos kv chs (processed + ?n) (Some r) st
      | (st, Err e) \<Rightarrow> (st, Err e) | (st, Panic) \<Rightarrow> (st, Panic))"
    unfolding chunk_loop.simps Let_def c1(1) ..
  show ?case
  proof (cases r1)
    case (Ok v)
    then have o: "open_at i (start + ?rows) prompt c1" "cw_identity c1 = cw_identity c" "cw_capacity c1 = cw_capacity c"
      using c1(2) by (simp_all add: pass_outcome_def)
    have "\<forall>ch\<in>set chs. ch \<noteq> [] \<and> length ch mod n_embd spec = 0 \<and> length ch div n_embd spec \<le> R"
      "unat pos + unat (processed + ?n) = start + ?rows" using Cons.prems(1,2) proc by simp_all
    from Cons.IH [OF this tot o(1) o(2) [unfolded Cons.prems(5)], of "Some v" "tr @ [?call]" w1]
    obtain c' calls w' r where IH: "chunk_loop fw (logged exec) spec pos kv chs (processed + ?n) (Some v)
        (c1, (tr @ [?call], w1)) = ((c', ((tr @ [?call]) @ calls, w')), r)" "pass_outcome i prompt prompt c1 c' r"
      "case r of Ok x \<Rightarrow> map nat_call calls = call_spans (n_embd spec) (start + ?rows) chs \<and>
        (x = None \<longrightarrow> chs = [] \<and> Some v = None) | _ \<Rightarrow> True" by blast
    have "pass_outcome i prompt prompt c c' r" using IH(2) o by (simp add: pass_outcome_def)
    moreover have "chunk_loop fw (logged exec) spec pos kv (ch # chs) processed last_r (c, (tr, w)) =
        ((c', (tr @ (?call # calls), w')), r)" unfolding loop Ok using IH(1) by simp
    ultimately show ?thesis using IH(3) here stop
      by (intro exI [of _ c'] exI [of _ "?call # calls"] exI [of _ w'] exI [of _ r])
        (auto simp: nat_call_def split: res.splits)
  next
    case (Err e)
    have "pass_outcome i prompt prompt c c1 (Err e :: 'b option str_res)"
      using c1(2) Err by (simp add: pass_outcome_def)
    then show ?thesis unfolding loop Err by (intro exI [of _ c1] exI [of _ "[?call]"] exI [of _ w1]) simp
  qed (use np in simp)
qed

lemma map_err_no_panic: "r \<noteq> Panic \<Longrightarrow> map_err f r \<noteq> Panic"
  by (cases r) simp_all

lemma forward_checks_no_panic:
  shows "validate_kernel_configuration p env \<noteq> Panic" and "check_forward v spec rows start stop \<noteq> Panic"
    and "check_frame mb rows lw \<noteq> Panic" and "validate_state_access fw spec rows start stop kv \<noteq> Panic"
proof -
  show k: "validate_kernel_configuration p env \<noteq> Panic" for p env
    unfolding validate_kernel_configuration_def
    by (intro and_then_no_panic for_each_no_panic if_no_panic res.distinct) (simp_all add: check_flag_def)
  show f: "check_forward v spec rows start stop \<noteq> Panic" for v spec rows start stop
    unfolding check_forward_def check_spec_def encode_def by (simp add: for_each_no_panic)
  show "check_frame mb rows lw \<noteq> Panic"
    unfolding check_frame_def by (intro and_then_no_panic if_no_panic ok_or_no_panic) simp_all
  show "validate_state_access fw spec rows start stop kv \<noteq> Panic"
    unfolding validate_state_access_def
    by (intro and_then_no_panic if_no_panic for_each_no_panic map_err_no_panic k f)
      (auto simp: check_binding_def split: option.splits)
qed

lemma access_decided:
  assumes "fw_bound fw = Some b" and "br_lease b = i"
  shows "access_ok fw spec (Some kv) i start rows \<or>
    (\<exists>e. and_then (for_each (check_frame (fw_max_binding fw) rows) (frame_widths spec))
        (\<lambda>_. validate_state_access fw spec rows start (start + rows) (Some kv)) = Err e)"
proof (cases "for_each (check_frame (fw_max_binding fw) rows) (frame_widths spec)")
  case (Ok u)
  show ?thesis
  proof (cases "validate_state_access fw spec rows start (start + rows) (Some kv)")
    case (Ok j)
    then have "j = Some i" using assms
      by (auto simp: validate_state_access_def split: if_splits prod.splits)
    then show ?thesis using Ok \<open>for_each _ _ = Ok u\<close> by (simp add: access_ok_def del: for_each_Ok)
  qed (use Ok forward_checks_no_panic in \<open>auto simp del: for_each_Ok\<close>)
qed (simp_all add: forward_checks_no_panic(3) for_each_no_panic del: for_each_Ok)

lemma call_spans_fst: "map fst (call_spans d s chs) = chs"
  by (induction chs arbitrary: s) simp_all

lemma nat_call_fst: "map fst calls = map fst (map nat_call calls)"
  by (simp add: nat_call_def)

lemma rows_concat:
  "\<forall>ch\<in>set chs. length ch mod d = 0 \<Longrightarrow> sum_list (map (\<lambda>ch. length ch div d) chs) = length (concat chs) div d"
  by (induction chs) (simp_all add: div_plus_div_distrib_dvd_left mod_eq_0_iff_dvd)

lemma prefill_chunks_settle:
  assumes lease: "open_at i (unat pos) (unat pos + length embd div n_embd spec) c"
    and ident: "cw_identity c = vm_identity (fw_model fw)" and bound: "fw_bound fw = Some b" "br_lease b = i"
    and dim: "n_embd spec \<noteq> 0" "n \<noteq> 0" "embd \<noteq> []" "length embd mod n_embd spec = 0"
    and cap: "unat pos + length embd div n_embd spec \<le> ss_capacity (vm_state (fw_model fw))"
      "ss_capacity (vm_state (fw_model fw)) < 2 ^ 32"
    and ex: "\<And>w e p n. snd (exec w e p n) \<noteq> Panic"
  shows "\<exists>c' calls w' r. chunk_loop fw (logged exec) spec pos (Some kv) (chunks (n * n_embd spec) embd) 0 None (c, ([], w)) =
      ((c', (calls, w')), r) \<and>
    (case r of
       Ok x \<Rightarrow> x \<noteq> None \<and> open_at i (unat pos + length embd div n_embd spec) (unat pos + length embd div n_embd spec) c' \<and>
         map nat_call calls = call_spans (n_embd spec) (unat pos) (chunks (n * n_embd spec) embd)
     | Err e \<Rightarrow> c' = c \<and> calls = [] \<or> sl_closed (cw_leases c' ! i) \<and> \<not> cw_active c'
     | Panic \<Rightarrow> False)"
proof -
  let ?d = "n_embd spec" and ?chs = "chunks (n * n_embd spec) embd"
  let ?first = "take (n * n_embd spec) embd"
  have pos: "0 < n * ?d" using dim by simp
  have chs: "?chs = ?first # chunks (n * ?d) (drop (n * ?d) embd)" using dim pos by (subst chunks.simps) simp
  have each: "\<forall>ch\<in>set ?chs. ch \<noteq> [] \<and> length ch mod ?d = 0 \<and> length ch div ?d \<le> length ?first div ?d"
    using chunks_props(2) [OF pos, of embd] chunks_props(3) [OF pos _ dim(4)] by (auto intro: div_le_mono)
  have s: "sum_list (map (\<lambda>ch. length ch div ?d) ?chs) = length embd div ?d"
    using rows_concat [of ?chs ?d] each chunks_props(1) [OF pos, of embd] by simp
  have small: "unat pos + length embd div ?d < 2 ^ 32" using cap by simp
  from access_decided [OF bound, of spec kv "unat pos" "length ?first div ?d"]
  show ?thesis
  proof (elim disjE exE)
    assume acc: "access_ok fw spec (Some kv) i (unat pos) (length ?first div ?d)"
    from chunk_loop_settles [where exec = exec and w = w and tr = "[]" and processed = 0 and pos = pos and last_r = None,
        OF acc dim(1) cap(1) small ex each _ _ lease ident] s
    obtain c' calls w' r where r: "chunk_loop fw (logged exec) spec pos (Some kv) ?chs 0 None (c, ([], w)) = ((c', (calls, w')), r)"
      "pass_outcome i (unat pos + length embd div ?d) (unat pos + length embd div ?d) c c' r"
      "case r of Ok x \<Rightarrow> map nat_call calls = call_spans ?d (unat pos) ?chs \<and> (x = None \<longrightarrow> ?chs = [] \<and> None = (None :: 'b option))
       | _ \<Rightarrow> True" by auto
    then show ?thesis using chs by (intro exI [of _ c'] exI [of _ calls] exI [of _ w'] exI [of _ r])
        (auto simp: pass_outcome_def split: res.splits)
  next
    fix e
    assume e: "and_then (for_each (check_frame (fw_max_binding fw) (length ?first div ?d)) (frame_widths spec))
        (\<lambda>_. validate_state_access fw spec (length ?first div ?d) (unat pos)
          (unat pos + length ?first div ?d) (Some kv)) = Err e"
    have le: "length ?first div ?d \<le> length embd div ?d" by (rule div_le_mono) simp
    then have n: "unat (word_of_nat (length ?first div ?d) :: u32) = length ?first div ?d"
      using small by (intro unat_word_of_nat_small) simp
    then have u: "unat (pos + word_of_nat (length ?first div ?d)) = unat pos + length ?first div ?d"
      using le small by (intro trans [OF unat_add_small]) simp_all
    have m: "length ?first mod ?d = 0" using each chs by simp
    have "run_forward fw (logged exec) spec ?first pos (pos + word_of_nat (length ?first div ?d)) (Some kv) (c, ([], w)) =
        ((c, ([], w)), Err e)"
      unfolding run_forward_def Let_def prod.case u e using dim(1) m by simp
    then have "chunk_loop fw (logged exec) spec pos (Some kv) ?chs 0 None (c, ([], w)) = ((c, ([], w)), Err e)"
      unfolding chs chunk_loop.simps Let_def by simp
    then show ?thesis by simp
  qed
qed

text \<open>
  C5: A prefill of the whole prompt of a lease is all or nothing. When it succeeds, the
  lease has processed exactly the prompt and is ready to decode, and the passes run were the
  chunks of the embeddings in order, each at the position where the last one ended and
  together all of them. When it fails, no pass has run and the lease is untouched, or the
  lease is closed and the controller is free: no half-written state is left open. It
  panics only if a pass does.
\<close>

theorem prefill_all_or_nothing:
  assumes "open_at i (unat pos) (unat pos + length embd div n_embd spec) c"
    and "cw_identity c = vm_identity (fw_model fw)" and "fw_bound fw = Some b" and "br_lease b = i"
    and "ss_capacity (vm_state (fw_model fw)) < 2 ^ 32"
    and "\<And>w e p n. snd (exec w e p n) \<noteq> Panic"
  shows "case run_prefill_chunked fw (logged exec) spec embd pos (Some kv) n (c, ([], w)) of
      ((c', (calls, w')), Ok x) \<Rightarrow>
        open_at i (unat pos + length embd div n_embd spec) (unat pos + length embd div n_embd spec) c' \<and>
        map nat_call calls = call_spans (n_embd spec) (unat pos) (chunks (unat n * n_embd spec) embd) \<and>
        concat (map fst calls) = embd
    | ((c', (calls, w')), Err e) \<Rightarrow> c' = c \<and> calls = [] \<or> sl_closed (cw_leases c' ! i) \<and> \<not> cw_active c'
    | ((c', (calls, w')), Panic) \<Rightarrow> False"
proof (cases "n_embd spec = 0 \<or> n = 0 \<or> embd = [] \<or> length embd mod n_embd spec \<noteq> 0")
  case True
  then show ?thesis by (simp add: run_prefill_chunked_def Let_def)
next
  case False
  let ?rows = "length embd div n_embd spec"
  let ?checks = "and_then (ok_or (checked_add (unat pos) ?rows) ''prefill position overflow'') (\<lambda>stop.
      and_then (map_err (fw_show fw) (check_forward (fw_model fw) spec ?rows (unat pos) stop)) (\<lambda>_.
      ok_or (checked_mul (unat n) (n_embd spec)) ''prefill chunk size overflow''))"
  have d: "n_embd spec \<noteq> 0" "unat n \<noteq> 0" "embd \<noteq> []" "length embd mod n_embd spec = 0"
    using False by (simp_all add: unat_eq_0)
  have run: "run_prefill_chunked fw (logged exec) spec embd pos (Some kv) n (c, ([], w)) =
      (case ?checks of Err e \<Rightarrow> ((c, ([], w)), Err e) | Panic \<Rightarrow> ((c, ([], w)), Panic)
       | Ok step \<Rightarrow> (case chunk_loop fw (logged exec) spec pos (Some kv) (chunks step embd) 0 None (c, ([], w)) of
           (st, Ok r) \<Rightarrow> (st, ok_or r ''chunked prefill produced no chunks'') | (st, Err e) \<Rightarrow> (st, Err e)
         | (st, Panic) \<Rightarrow> (st, Panic)))"
    unfolding run_prefill_chunked_def Let_def if_not_P [OF False] ..
  show ?thesis
  proof (cases ?checks)
    case (Ok step)
    then have "unat pos + ?rows \<le> ss_capacity (vm_state (fw_model fw))" and step: "step = unat n * n_embd spec"
      by (auto simp: check_forward_Ok)
    from prefill_chunks_settle [where exec = exec and kv = kv and w = w, OF assms(1-4) d this(1) assms(5,6)]
    obtain c' calls w' r where r: "chunk_loop fw (logged exec) spec pos (Some kv) (chunks step embd) 0 None (c, ([], w)) =
        ((c', (calls, w')), r)"
      "case r of Ok x \<Rightarrow> x \<noteq> None \<and> open_at i (unat pos + ?rows) (unat pos + ?rows) c' \<and>
         map nat_call calls = call_spans (n_embd spec) (unat pos) (chunks step embd)
       | Err e \<Rightarrow> c' = c \<and> calls = [] \<or> sl_closed (cw_leases c' ! i) \<and> \<not> cw_active c' | Panic \<Rightarrow> False"
      unfolding step by blast
    have res: "run_prefill_chunked fw (logged exec) spec embd pos (Some kv) n (c, ([], w)) =
        ((c', (calls, w')), case r of Ok x \<Rightarrow> ok_or x ''chunked prefill produced no chunks'' | Err e \<Rightarrow> Err e | Panic \<Rightarrow> Panic)"
      unfolding run Ok res.case r(1) by (simp split: res.splits)
    have "concat (chunks step embd) = embd" using chunks_props(1) [of step embd] d(1,2) step by simp
    moreover have "map fst calls = chunks step embd"
      if "map nat_call calls = call_spans (n_embd spec) (unat pos) (chunks step embd)"
      unfolding nat_call_fst that call_spans_fst ..
    ultimately show ?thesis using r(2) unfolding res step [symmetric]
      by (cases r) (auto simp: ok_or_def)
  next
    case Panic
    then have False by (simp add: and_then_eq_Panic map_err_no_panic forward_checks_no_panic)
    then show ?thesis ..
  qed (simp add: run)
qed

text \<open>A prefill of two rows of width 2, in chunks of one row, for a plan without bindings.\<close>

definition sample_forward :: "model_descriptor \<Rightarrow> bindless_metadata \<Rightarrow> forward_env" where
  "sample_forward d bm = \<lparr>fw_env = (\<lambda>_. Env_NotPresent), fw_parse_f32 = (\<lambda>_. None),
     fw_model = (sample_validated (d\<lparr>md_bindings := []\<rparr>))\<lparr>vm_spec := tinylama_base\<lparr>n_embd := 2\<rparr>\<rparr>,
     fw_metadata = bm, fw_signature = [], fw_show_layers = (\<lambda>_. []),
     fw_bound = Some \<lparr>br_lease = 0, br_k = [7], br_v = [8]\<rparr>, fw_max_binding = 1048576,
     fw_show = (\<lambda>_. ''model''), fw_show_state = (\<lambda>_. ''state'')\<rparr>"

definition sample_open :: controller where
  "sample_open = \<lparr>cw_identity = sample_identity, cw_capacity = 4, cw_epoch = 1, cw_active = True, cw_starting = 0,
     cw_leases = [\<lparr>sl_epoch = 1, sl_phase = Prefill, sl_processed = 0, sl_prompt = 2, sl_pending = None, sl_closed = False\<rparr>]\<rparr>"

lemma sample_forward_access:
  assumes "start + 1 \<le> 4"
  shows "access_ok (sample_forward d bm) (tinylama_base\<lparr>n_embd := 2\<rparr>) (Some ([7], [8])) 0 start 1"
proof -
  have eq: "f32_eq x x" if "x \<in> {f32_1e_5, f32_10000, f32_one, f32_32, 0}" for x
    using that by (auto simp: f32_eq_def f32_is_nan_def f32_lt_def f32_1e_5_def f32_10000_def f32_one_def f32_32_def decode_def)
  have spec: "spec_eq (tinylama_base\<lparr>n_embd := 2\<rparr>) (tinylama_base\<lparr>n_embd := 2\<rparr>)"
    using eq by (simp add: spec_eq_def spec_floats_def tinylama_base_def)
  have cfg: "validate_kernel_configuration (\<lambda>_. None) (\<lambda>_. Env_NotPresent) = Ok ()"
    by (simp add: validate_kernel_configuration_def check_flag_def flag_set_def env_is_def env_or_else_def res_simps
        del: and_then_eq_Ok)
  have fwd: "check_forward (fw_model (sample_forward d bm)) (tinylama_base\<lparr>n_embd := 2\<rparr>) 1 start (Suc start) = Ok ()"
    using spec assms by (simp add: check_forward_Ok sample_forward_def sample_validated_def u64_range_def)
  have frames: "for_each (check_frame 1048576 1) (frame_widths (tinylama_base\<lparr>n_embd := 2\<rparr>)) = Ok ()"
    by (simp add: frame_widths_def check_frame_Ok u64_range_def tinylama_base_def)
  have "validate_state_access (sample_forward d bm) (tinylama_base\<lparr>n_embd := 2\<rparr>) 1 start (Suc start) (Some ([7], [8])) = Ok (Some 0)"
    using fwd by (simp add: validate_state_access_def sample_forward_def cfg compile_def sample_validated_def)
  with frames show ?thesis by (simp add: access_ok_def sample_forward_def del: for_each_Ok)
qed

lemma prefill_all_or_nothing_witness:
  "\<exists>fw c' calls w'. run_prefill_chunked fw (logged (\<lambda>w e p n. (Suc w, Ok p))) (tinylama_base\<lparr>n_embd := 2\<rparr>) [1, 2, 3, 4] 0
      (Some ([7], [8])) 1 (sample_open, ([], 0)) = ((c', (calls, w')), Ok 1) \<and>
    open_at 0 2 2 c' \<and> map nat_call calls = [([1, 2], 0, 1), ([3, 4], 1, 2)] \<and> concat (map fst calls) = [1, 2, 3, 4]"
proof -
  obtain d where "admitted sample_manifest d (map td_name (mf_tensors sample_manifest))"
    using sample_admitted by blast
  then obtain bm where "metadata_from_manifest (map td_name (mf_tensors sample_manifest)) sample_manifest = Ok bm"
    using metadata_dense by blast
  let ?fw = "sample_forward d bm" and ?s = "tinylama_base\<lparr>n_embd := 2\<rparr>"
  let ?ex = "\<lambda>w e (p :: u32) (n :: u32). (Suc w, Ok p :: u32 str_res)"
  let ?st1 = "([([1, 2], 0, 1)], 1) :: (f32 list \<times> u32 \<times> u32) list \<times> nat"
  let ?st2 = "([([1, 2], 0, 1), ([3, 4], 1, 2)], 2) :: (f32 list \<times> u32 \<times> u32) list \<times> nat"
  have n: "n_embd ?s = 2" by simp
  have id: "cw_identity sample_open = vm_identity (fw_model ?fw)"
    by (simp add: sample_open_def sample_forward_def sample_validated_def)
  have o0: "open_at 0 0 2 sample_open" by (simp add: open_at_def sample_open_def)
  have u: "(2 :: nat) < u64_range" by (simp add: u64_range_def)
  have "\<exists>c1. run_forward ?fw (logged ?ex) ?s [1, 2] 0 1 (Some ([7], [8])) (sample_open, ([], 0)) = ((c1, ?st1), Ok 0) \<and>
      pass_outcome 0 (0 + 1) 2 sample_open c1 (Ok 0 :: u32 str_res)"
    by (rule forward_chunk [OF sample_forward_access _ _ _ _ _ o0 _ _ u id]) (simp_all add: logged_def)
  then obtain c1 where c1: "run_forward ?fw (logged ?ex) ?s [1, 2] 0 1 (Some ([7], [8])) (sample_open, ([], 0)) = ((c1, ?st1), Ok 0)"
    "open_at 0 1 2 c1" "cw_identity c1 = cw_identity sample_open" by (auto simp: pass_outcome_def)
  have "\<exists>c2. run_forward ?fw (logged ?ex) ?s [3, 4] 1 2 (Some ([7], [8])) (c1, ?st1) = ((c2, ?st2), Ok 1) \<and>
      pass_outcome 0 (1 + 1) 2 c1 c2 (Ok 1 :: u32 str_res)"
    by (rule forward_chunk [OF sample_forward_access _ _ _ _ _ c1(2) _ _ u c1(3) [unfolded id]]) (simp_all add: logged_def)
  then obtain c2 where c2: "run_forward ?fw (logged ?ex) ?s [3, 4] 1 2 (Some ([7], [8])) (c1, ?st1) = ((c2, ?st2), Ok 1)"
    by blast
  have chs: "chunks 2 [1 :: f32, 2, 3, 4] = [[1, 2], [3, 4]]" by (simp add: chunks.simps)
  have loop: "chunk_loop ?fw (logged ?ex) ?s 0 (Some ([7], [8])) [[1, 2], [3, 4]] 0 None (sample_open, ([], 0)) =
      ((c2, ?st2), Ok (Some 1))"
    using c1(1) c2 by (simp add: Let_def)
  have "check_forward (fw_model ?fw) ?s (Suc (Suc 0)) 0 (Suc (Suc 0)) = Ok ()"
    using sample_forward_access [of 0 d bm]
    by (simp add: access_ok_def validate_state_access_def check_forward_Ok sample_forward_def sample_validated_def u64_range_def)
  then have run: "run_prefill_chunked ?fw (logged ?ex) ?s [1, 2, 3, 4] 0 (Some ([7], [8])) 1 (sample_open, ([], 0)) =
      ((c2, ?st2), Ok 1)"
    using loop by (simp add: run_prefill_chunked_def Let_def chs checked_add_def checked_mul_def u64_range_def res_simps
        del: and_then_eq_Ok chunk_loop.simps)
  have cap: "ss_capacity (vm_state (fw_model ?fw)) < 2 ^ 32" by (simp add: sample_forward_def sample_validated_def)
  have bound: "fw_bound ?fw = Some \<lparr>br_lease = 0, br_k = [7], br_v = [8]\<rparr>" by (simp add: sample_forward_def)
  have rows: "unat (0 :: u32) + length [1 :: f32, 2, 3, 4] div n_embd ?s = 2" by simp
  have o: "open_at 0 (unat (0 :: u32)) (unat (0 :: u32) + length [1 :: f32, 2, 3, 4] div n_embd ?s) sample_open"
    unfolding rows using o0 by simp
  have "bound_request.br_lease \<lparr>br_lease = 0, br_k = [7], br_v = [8]\<rparr> = 0" by simp
  from prefill_all_or_nothing [where exec = ?ex and kv = "([7], [8])" and n = 1 and w = 0, OF o id bound this cap]
  show ?thesis unfolding run rows
    by (intro exI [of _ ?fw] exI [of _ c2] exI [of _ "fst ?st2"] exI [of _ 2]) (simp add: run chs)
qed

end
