(* ===== verification/Sampling.thy ===== *)
theory Sampling
  imports Float_Order Tensor Window "HOL-Library.Multiset"
begin

text \<open>
  The samplers: the generator and \<open>sample_token\<close> of \<open>src/src/runtime/gpu.rs\<close>, which the
  generation path uses, and the greedy sampler of \<open>src/src/runtime/sampling.rs\<close>. The
  exponential and the unstable sort of the standard library are parameters; \<open>exp_ok\<close> and
  \<open>sort_ok\<close> state what is relied on. A grammar constrains a generation by setting the
  logits of the tokens it forbids to negative infinity, so what matters most is that such
  a token is never sampled.
\<close>

section \<open>The generator\<close>

type_synonym u64 = "64 word"

definition rng_new :: "u64 \<Rightarrow> u64" where
  "rng_new seed = seed + 1"

definition rng_step :: "u64 \<Rightarrow> u64" where
  "rng_step s =
     (let s = s XOR drop_bit 12 s;
          s = s XOR push_bit 25 s
      in s XOR drop_bit 27 s)"

definition f32_2_24 :: f32 where "f32_2_24 = 0x4B800000"

definition next_f32 :: "u64 \<Rightarrow> u64 \<times> f32" where
  "next_f32 s =
     (let s = rng_step s; val = s * 0x2545F4914F6CDD1D
      in (s, f32_div (f32_of_int (uint (drop_bit 40 val))) f32_2_24))"

section \<open>Sampling a token\<close>

definition penalize :: "f32 \<Rightarrow> u32 \<Rightarrow> f32 list \<Rightarrow> f32 list" where
  "penalize penalty tok logits =
     (let i = unat tok in
      if i < length logits
      then logits[i := if f32_lt 0 (logits ! i) then f32_div (logits ! i) penalty else f32_mul (logits ! i) penalty]
      else logits)"

definition apply_penalty :: "f32 \<Rightarrow> u32 list \<Rightarrow> f32 list \<Rightarrow> f32 list" where
  "apply_penalty penalty recent logits = (if f32_eq penalty f32_one then logits else fold (penalize penalty) recent logits)"

text \<open>\<open>max_by\<close> keeps the later of two equal elements.\<close>

definition later_max :: "nat \<times> f32 \<Rightarrow> nat \<times> f32 \<Rightarrow> nat \<times> f32" where
  "later_max y acc = (if f32_lt (snd y) (snd acc) then acc else y)"

definition greedy_index :: "f32 list \<Rightarrow> nat" where
  "greedy_index logits =
     (case filter (\<lambda>(i, v). f32_is_finite v) (enumerate 0 logits) of
        [] \<Rightarrow> 0
      | x # xs \<Rightarrow> fst (fold later_max xs x))"

definition f32_1e_7 :: f32 where "f32_1e_7 = 0x33D6BF95"

text \<open>What is not finite is excluded.\<close>

definition scale_logit :: "f32 \<Rightarrow> f32 \<Rightarrow> f32" where
  "scale_logit inv_t v = (if f32_is_finite v then f32_mul v inv_t else f32_neg_infinity)"

definition f32_max :: "f32 \<Rightarrow> f32 \<Rightarrow> f32" where
  "f32_max a b = (if f32_is_nan a then b else if f32_is_nan b then a else if f32_lt a b then b else a)"

definition f32_sum :: "f32 list \<Rightarrow> f32" where
  "f32_sum xs = fold (\<lambda>x acc. f32_add acc x) xs 0"

definition max_logit :: "f32 list \<Rightarrow> f32" where
  "max_logit logits = fold (\<lambda>l acc. f32_max acc l) logits f32_neg_infinity"

definition exp_logits :: "(f32 \<Rightarrow> f32) \<Rightarrow> f32 list \<Rightarrow> f32 list" where
  "exp_logits expf logits = map (\<lambda>l. expf (f32_sub l (max_logit logits))) logits"

definition softmax :: "(f32 \<Rightarrow> f32) \<Rightarrow> f32 list \<Rightarrow> f32 list" where
  "softmax expf logits = map (\<lambda>p. f32_div p (f32_sum (exp_logits expf logits))) (exp_logits expf logits)"

text \<open>How many of the sorted probabilities are kept: up to the first that reaches \<open>top_p\<close>.\<close>

fun nucleus_cutoff :: "f32 \<Rightarrow> f32 \<Rightarrow> (nat \<times> f32) list \<Rightarrow> nat" where
  "nucleus_cutoff top_p cumsum [] = 0"
| "nucleus_cutoff top_p cumsum ((i, p) # rest) =
     (let cumsum = f32_add cumsum p in
      if f32_le top_p cumsum then 1 else Suc (nucleus_cutoff top_p cumsum rest))"

fun pick :: "f32 \<Rightarrow> f32 \<Rightarrow> (nat \<times> f32) list \<Rightarrow> nat option" where
  "pick r acc [] = None"
| "pick r acc ((i, p) # rest) =
     (let acc = f32_add acc p in if f32_le r acc then Some i else pick r acc rest)"

text \<open>The token, the logits as the sampler leaves them and the generator.\<close>

definition sample_token ::
    "(f32 \<Rightarrow> f32) \<Rightarrow> ((nat \<times> f32) list \<Rightarrow> (nat \<times> f32) list) \<Rightarrow>
     f32 list \<Rightarrow> f32 \<Rightarrow> f32 \<Rightarrow> f32 \<Rightarrow> u32 list \<Rightarrow> u64 \<Rightarrow> (string, u32 \<times> f32 list \<times> u64) res" where
  "sample_token expf sort_desc logits temperature top_p penalty recent rng =
     (let logits = apply_penalty penalty recent logits in
      if f32_lt temperature f32_1e_7
      then Ok (word_of_nat (greedy_index logits), logits, rng)
      else
        (let inv_t = f32_div f32_one temperature;
             logits = map (scale_logit inv_t) logits;
             indexed = filter (\<lambda>(i, p). f32_is_finite p) (enumerate 0 (softmax expf logits))
         in if indexed = [] then Ok (0, logits, rng)
            else
              (let sorted = sort_desc indexed;
                   nucleus = take (nucleus_cutoff top_p 0 sorted) sorted;
                   nsum = f32_sum (map snd nucleus);
                   (rng, u) = next_f32 rng;
                   r = f32_mul u nsum
               in case pick r 0 nucleus of
                    Some i \<Rightarrow> Ok (word_of_nat i, logits, rng)
                  | None \<Rightarrow> if nucleus = [] then Panic else Ok (word_of_nat (fst (last nucleus)), logits, rng))))"

section \<open>The greedy sampler\<close>

definition earlier_max :: "nat \<times> f32 \<Rightarrow> nat \<times> f32 \<Rightarrow> nat \<times> f32" where
  "earlier_max y acc = (if f32_lt (snd acc) (snd y) then y else acc)"

definition greedy_sample :: "tensor \<Rightarrow> nat lib_res" where
  "greedy_sample t =
     (case enumerate 0 (t_data t) of
        [] \<Rightarrow> Err (Unsupported ''cannot sample from empty logits'')
      | x # xs \<Rightarrow> Ok (fst (fold earlier_max xs x)))"

definition sampler_sample :: "tensor \<Rightarrow> nat lib_res" where
  "sampler_sample t =
     (if tensor_ndim t \<noteq> 1 then Err (ShapeMismatch ''sample_logits'' [1] [tensor_ndim t]) else greedy_sample t)"

section \<open>What is relied on of the standard library\<close>

definition exp_ok :: "(f32 \<Rightarrow> f32) \<Rightarrow> bool" where
  "exp_ok expf =
     (expf f32_neg_infinity = 0 \<and> (\<forall>s e. \<forall>x. decode x = FFin s 0 e \<longrightarrow> expf x = f32_one) \<and>
      (\<forall>x. \<not> f32_is_nan x \<and> \<not> f32_lt 0 x \<longrightarrow> f32_nonneg (expf x) \<and> f32_real (expf x) \<le> 1))"

definition sort_ok :: "((nat \<times> f32) list \<Rightarrow> (nat \<times> f32) list) \<Rightarrow> bool" where
  "sort_ok sort_desc =
     (\<forall>xs. mset (sort_desc xs) = mset xs \<and>
        ((\<forall>x\<in>set xs. f32_is_finite (snd x)) \<longrightarrow> sorted_wrt (\<lambda>x y. \<not> f32_lt (snd x) (snd y)) (sort_desc xs)))"

lemma exp_zero: "exp_ok expf \<Longrightarrow> decode x = FFin s 0 e \<Longrightarrow> expf x = f32_one"
  by (auto simp: exp_ok_def)

section \<open>Excluded logits stay excluded\<close>

lemma zero_lt_positive: "f32_is_finite x \<Longrightarrow> f32_lt 0 x \<Longrightarrow> \<exists>m e. decode x = FFin False m e \<and> 0 < m"
proof -
  assume x: "f32_is_finite x" and "f32_lt 0 x"
  then have pos: "0 < f32_real x" by (simp add: lt_real [OF nonneg_finite x])
  obtain s m e where d: "decode x = FFin s m e" "f32_real x = of_int (sgn_val s) * real m * 2 powi e"
    using x by (rule f32_finite_cases)
  have "\<not> s"
  proof
    assume s
    then have "f32_real x \<le> 0" by (simp add: d sgn_val_def)
    then show False using pos by simp
  qed
  then show ?thesis using d pos by (auto intro: Nat.gr0I)
qed

text \<open>A penalty does not make a finite number of one that is not.\<close>

lemma penalty_not_finite:
  assumes "f32_is_finite penalty" and "f32_lt 0 penalty" and "\<not> f32_is_finite v"
  shows "\<not> f32_is_finite (f32_div v penalty)" and "\<not> f32_is_finite (f32_mul v penalty)"
proof -
  obtain m e where d: "decode penalty = FFin False m e" "0 < m" using zero_lt_positive assms(1,2) by blast
  have n: "\<not> f32_is_finite f32_nan" "\<not> f32_is_finite (f32_inf s)" for s
    by (cases s, simp_all add: f32_is_finite_def f32_nan_def f32_inf_def inf_bits_def decode_def)
  have "decode v = FNan \<or> (\<exists>s. decode v = FInf s)"
    using assms(3) by (cases "decode v") (auto simp: f32_is_finite_def)
  then show "\<not> f32_is_finite (f32_div v penalty)" "\<not> f32_is_finite (f32_mul v penalty)"
    using d n by (auto simp: f32_div_def f32_mul_def)
qed

lemma penalize_length [simp]: "length (penalize penalty tok logits) = length logits"
  by (simp add: penalize_def Let_def)

lemma apply_penalty_length [simp]: "length (apply_penalty penalty recent logits) = length logits"
proof -
  have "length (fold (penalize penalty) recent logits) = length logits"
    by (induction recent arbitrary: logits) simp_all
  then show ?thesis by (simp add: apply_penalty_def)
qed

lemma apply_penalty_finite:
  assumes "f32_is_finite penalty" and "f32_lt 0 penalty"
    and "i < length logits" and "f32_is_finite (apply_penalty penalty recent logits ! i)"
  shows "f32_is_finite (logits ! i)"
proof (cases "f32_eq penalty f32_one")
  case True
  then show ?thesis using assms(4) by (simp add: apply_penalty_def)
next
  case False
  have one: "f32_is_finite (l ! i)" if "i < length l" "f32_is_finite (penalize penalty tok l ! i)" for tok l
    using that penalty_not_finite [OF assms(1,2), of "l ! i"]
    by (cases "i = unat tok") (auto simp: penalize_def Let_def split: if_splits)
  have "f32_is_finite (fold (penalize penalty) recent l ! i) \<Longrightarrow> i < length l \<Longrightarrow> f32_is_finite (l ! i)" for l
  proof (induction recent arbitrary: l)
    case (Cons tok recent)
    then have "f32_is_finite (penalize penalty tok l ! i)" by simp
    then show ?case using one Cons.prems(2) by blast
  qed simp
  then show ?thesis using assms(3,4) False by (simp add: apply_penalty_def)
qed

section \<open>Greedy sampling\<close>

lemma fold_later_max:
  assumes "\<forall>y\<in>set (x # xs). f32_is_finite (snd y)"
  shows "fold later_max xs x \<in> set (x # xs) \<and> (\<forall>y\<in>set (x # xs). f32_real (snd y) \<le> f32_real (snd (fold later_max xs x)))"
  using assms
proof (induction xs arbitrary: x)
  case (Cons y xs)
  define z where "z = later_max y x"
  have z: "z \<in> {x, y}" "f32_real (snd x) \<le> f32_real (snd z)" "f32_real (snd y) \<le> f32_real (snd z)"
    using Cons.prems by (auto simp: z_def later_max_def lt_real)
  then have "\<forall>w\<in>set (z # xs). f32_is_finite (snd w)" using Cons.prems by auto
  from Cons.IH [OF this] z show ?case by (fastforce simp flip: z_def)
qed simp

lemma greedy_index_max:
  assumes "v \<in> set logits" and "f32_is_finite v"
  shows "greedy_index logits < length logits \<and> f32_is_finite (logits ! greedy_index logits) \<and>
    (\<forall>v\<in>set logits. f32_is_finite v \<longrightarrow> f32_real v \<le> f32_real (logits ! greedy_index logits))"
proof -
  let ?F = "filter (\<lambda>(i, v). f32_is_finite v) (enumerate 0 logits)"
  have F: "(i, u) \<in> set ?F \<longleftrightarrow> i < length logits \<and> u = logits ! i \<and> f32_is_finite u" for i u
    by (auto simp: in_set_enumerate_eq)
  have ex: "\<exists>i. (i, u) \<in> set ?F" if "u \<in> set logits" "f32_is_finite u" for u
    using that F by (metis in_set_conv_nth)
  then obtain x xs where x: "?F = x # xs" using assms by (cases ?F) auto
  have fin: "\<forall>y\<in>set (x # xs). f32_is_finite (snd y)" unfolding x [symmetric] by auto
  obtain i u where m: "fold later_max xs x = (i, u)" by fastforce
  have g: "greedy_index logits = i" by (simp add: greedy_index_def x m)
  have iu: "(i, u) \<in> set ?F" and top: "\<And>j w. (j, w) \<in> set ?F \<Longrightarrow> f32_real w \<le> f32_real u"
    using fold_later_max [OF fin] unfolding m x by auto
  show ?thesis unfolding g using iu top ex F by metis
qed

section \<open>Sums of probabilities\<close>

definition unit_f32 :: "f32 \<Rightarrow> bool" where
  "unit_f32 x = (f32_nonneg x \<and> f32_real x \<le> 1)"

lemma unit_simps: "unit_f32 0" "unit_f32 f32_one"
  by (simp_all add: unit_f32_def)

lemma sum_step:
  assumes "f32_nonneg acc" and "f32_real acc \<le> real n" and "unit_f32 x" and "Suc n < 2 ^ 24"
  shows "f32_nonneg (f32_add acc x) \<and> f32_real (f32_add acc x) \<le> real (Suc n) \<and> f32_real acc \<le> f32_real (f32_add acc x)"
proof -
  have y: "f32_nonneg (f32_of_int (int (Suc n)))" "f32_real (f32_of_int (int (Suc n))) = real (Suc n)"
    using nonneg_of_nat [OF assms(4)] by blast+
  have x: "f32_nonneg x" and le: "f32_real acc + f32_real x \<le> f32_real (f32_of_int (int (Suc n)))"
    using assms(2,3) y(2) by (simp_all add: unit_f32_def)
  show ?thesis using f32_add_le [OF assms(1) x y(1) le] f32_add_ge [OF assms(1) x y(1) le] y(2) by simp
qed

lemma sum_fold:
  assumes "f32_nonneg acc" and "f32_real acc \<le> real n" and "\<forall>x\<in>set xs. unit_f32 x" and "n + length xs < 2 ^ 24"
  shows "f32_nonneg (fold (\<lambda>x acc. f32_add acc x) xs acc) \<and>
    f32_real (fold (\<lambda>x acc. f32_add acc x) xs acc) \<le> real (n + length xs) \<and>
    f32_real acc \<le> f32_real (fold (\<lambda>x acc. f32_add acc x) xs acc)"
  using assms
proof (induction xs arbitrary: acc n)
  case (Cons x xs)
  then have "unit_f32 x" "Suc n < 2 ^ 24" by simp_all
  note st = sum_step [OF Cons.prems(1,2) this]
  have "\<forall>x\<in>set xs. unit_f32 x" "Suc n + length xs < 2 ^ 24" using Cons.prems(3,4) by simp_all
  with Cons.IH [of "f32_add acc x" "Suc n"] st
  have "f32_nonneg (fold (\<lambda>x acc. f32_add acc x) xs (f32_add acc x)) \<and>
      f32_real (fold (\<lambda>x acc. f32_add acc x) xs (f32_add acc x)) \<le> real (Suc n + length xs) \<and>
      f32_real (f32_add acc x) \<le> f32_real (fold (\<lambda>x acc. f32_add acc x) xs (f32_add acc x))" by blast
  then show ?case using st by simp
qed simp

lemma sum_one:
  assumes "\<forall>x\<in>set xs. unit_f32 x" and "length xs < 2 ^ 24" and "f32_one \<in> set xs"
  shows "f32_nonneg (f32_sum xs) \<and> 1 \<le> f32_real (f32_sum xs) \<and> f32_real (f32_sum xs) \<le> 2 ^ 24"
proof -
  obtain ys zs where xs: "xs = ys @ f32_one # zs" using assms(3) by (meson split_list)
  define a where "a = fold (\<lambda>x acc. f32_add acc x) ys 0"
  have a: "f32_nonneg a \<and> f32_real a \<le> real (0 + length ys)"
    unfolding a_def using sum_fold [of 0 0 ys] assms(1,2) by (simp add: xs)
  have one: "f32_nonneg f32_one" "f32_real f32_one = 1" by simp_all
  have n: "Suc (length ys) < 2 ^ 24" using assms(2) by (simp add: xs)
  have y: "f32_nonneg (f32_of_int (int (Suc (length ys))))" "f32_real (f32_of_int (int (Suc (length ys)))) = real (Suc (length ys))"
    using nonneg_of_nat [OF n] by blast+
  have le: "f32_real f32_one + f32_real a \<le> f32_real (f32_of_int (int (Suc (length ys))))" using a y(2) by simp
  have st: "f32_nonneg (f32_add a f32_one) \<and> f32_real (f32_add a f32_one) \<le> real (Suc (length ys))"
    using sum_step [of a "length ys" f32_one] a n unit_simps by simp
  have "f32_add a f32_one = f32_add f32_one a"
    using f32_add_comm a one(1) by blast
  then have "1 \<le> f32_real (f32_add a f32_one)" using f32_add_ge [OF one(1) conjunct1 [OF a] y(1) le] one(2) by simp
  moreover have "f32_sum xs = fold (\<lambda>x acc. f32_add acc x) zs (f32_add a f32_one)"
    by (simp add: f32_sum_def xs a_def)
  moreover have "real (length xs) \<le> 2 ^ 24" using assms(2) by (metis less_imp_le of_nat_le_iff of_nat_numeral of_nat_power)
  ultimately show ?thesis
    using sum_fold [of "f32_add a f32_one" "Suc (length ys)" zs] st assms(1,2) by (fastforce simp: xs)
qed

section \<open>Picking from the nucleus\<close>

text \<open>
  Adding a probability of zero does not reach a threshold the sum before it had not
  reached, so what is picked has a positive one.
\<close>

lemma pick_positive:
  assumes "\<forall>x\<in>set xs. unit_f32 (snd x)" and "f32_nonneg acc" and "f32_real acc \<le> real n" and "n + length xs < 2 ^ 24"
    and "f32_nonneg r" and "f32_real r \<le> f32_real (fold (\<lambda>x acc. f32_add acc x) (map snd xs) acc)"
    and "f32_real acc < f32_real r \<or> (xs \<noteq> [] \<and> 0 < f32_real (snd (hd xs)))"
  shows "\<exists>i p. pick r acc xs = Some i \<and> (i, p) \<in> set xs \<and> 0 < f32_real p"
  using assms
proof (induction xs arbitrary: acc n)
  case (Cons x xs)
  obtain i p where x: "x = (i, p)" by fastforce
  have p: "unit_f32 p" "f32_nonneg p" using Cons.prems(1) by (simp_all add: x unit_f32_def)
  have "Suc n < 2 ^ 24" using Cons.prems(4) by simp
  note st = sum_step [OF Cons.prems(2,3) p(1) this]
  have le: "f32_le r (f32_add acc p) = (f32_real r \<le> f32_real (f32_add acc p))"
    using st Cons.prems(5) by (intro le_real nonneg_finite) simp_all
  show ?case
  proof (cases "f32_real r \<le> f32_real (f32_add acc p)")
    case True
    have "0 < f32_real p"
    proof (rule ccontr)
      assume not: "\<not> 0 < f32_real p"
      then have "f32_real p = 0" using nonneg_real [OF p(2)] by simp
      then have "f32_real (f32_add acc p) = f32_real acc" using f32_add_zero [OF Cons.prems(2) p(2)] by simp
      then show False using True Cons.prems(7) not by (simp add: x)
    qed
    then show ?thesis using True le by (auto simp: x)
  next
    case False
    have "\<exists>j q. pick r (f32_add acc p) xs = Some j \<and> (j, q) \<in> set xs \<and> 0 < f32_real q"
      by (rule Cons.IH [of "f32_add acc p" "Suc n"]) (use Cons.prems st False in \<open>auto simp: x\<close>)
    then show ?thesis using False le by (auto simp: x)
  qed
qed simp

section \<open>The probabilities\<close>

text \<open>What scaling leaves: a finite number or negative infinity.\<close>

definition capped :: "f32 \<Rightarrow> bool" where
  "capped x = (f32_is_finite x \<or> x = f32_neg_infinity)"

lemma neg_infinity_facts:
  "\<not> f32_is_finite f32_neg_infinity" "\<not> f32_is_nan f32_neg_infinity" "\<not> f32_lt f32_neg_infinity f32_neg_infinity"
  "f32_is_finite a \<Longrightarrow> f32_lt f32_neg_infinity a" "f32_is_finite a \<Longrightarrow> \<not> f32_lt a f32_neg_infinity"
  by (auto simp: f32_is_finite_def f32_is_nan_def f32_lt_def decode_neg_infinity split: fdec.splits)

lemma max_capped:
  assumes "capped a" and "capped b"
  shows "f32_max a b \<in> {a, b}" and "f32_is_finite a \<Longrightarrow> f32_is_finite (f32_max a b) \<and> f32_real a \<le> f32_real (f32_max a b)"
    and "f32_is_finite b \<Longrightarrow> f32_is_finite (f32_max a b) \<and> f32_real b \<le> f32_real (f32_max a b)"
  using assms finite_not_nan neg_infinity_facts by (auto simp: capped_def f32_max_def lt_real)

lemma fold_max:
  assumes "capped acc" and "\<forall>l\<in>set xs. capped l" and "\<exists>l\<in>insert acc (set xs). f32_is_finite l"
  shows "fold (\<lambda>l acc. f32_max acc l) xs acc \<in> insert acc (set xs) \<and> f32_is_finite (fold (\<lambda>l acc. f32_max acc l) xs acc) \<and>
    (\<forall>l\<in>insert acc (set xs). f32_is_finite l \<longrightarrow> f32_real l \<le> f32_real (fold (\<lambda>l acc. f32_max acc l) xs acc))"
  using assms
proof (induction xs arbitrary: acc)
  case (Cons x xs)
  have x: "capped x" using Cons.prems(2) by simp
  note m = max_capped [OF Cons.prems(1) x]
  have "capped (f32_max acc x)" using m(1) Cons.prems(1) x by auto
  moreover have "\<exists>l\<in>insert (f32_max acc x) (set xs). f32_is_finite l" using Cons.prems(3) m(2,3) by auto
  ultimately have IH: "fold (\<lambda>l acc. f32_max acc l) xs (f32_max acc x) \<in> insert (f32_max acc x) (set xs) \<and>
      f32_is_finite (fold (\<lambda>l acc. f32_max acc l) xs (f32_max acc x)) \<and>
      (\<forall>l\<in>insert (f32_max acc x) (set xs). f32_is_finite l \<longrightarrow> f32_real l \<le> f32_real (fold (\<lambda>l acc. f32_max acc l) xs (f32_max acc x)))"
    using Cons.IH Cons.prems(2) by simp
  then have "f32_real acc \<le> f32_real (fold (\<lambda>l acc. f32_max acc l) xs (f32_max acc x))" if "f32_is_finite acc"
    using m(2) [OF that] by (meson insertI1 order_trans)
  moreover have "f32_real x \<le> f32_real (fold (\<lambda>l acc. f32_max acc l) xs (f32_max acc x))" if "f32_is_finite x"
    using m(3) [OF that] IH by (meson insertI1 order_trans)
  ultimately show ?case using IH m(1) by auto
qed simp

lemma max_logit_props:
  assumes "\<forall>l\<in>set logits. capped l" and "v \<in> set logits" and "f32_is_finite v"
  shows "max_logit logits \<in> set logits" and "f32_is_finite (max_logit logits)"
    and "\<And>l. l \<in> set logits \<Longrightarrow> f32_is_finite l \<Longrightarrow> f32_real l \<le> f32_real (max_logit logits)"
proof -
  have "capped f32_neg_infinity" by (simp add: capped_def)
  moreover have "\<exists>l\<in>insert f32_neg_infinity (set logits). f32_is_finite l" using assms(2,3) by auto
  ultimately have "max_logit logits \<in> insert f32_neg_infinity (set logits) \<and> f32_is_finite (max_logit logits) \<and>
      (\<forall>l\<in>insert f32_neg_infinity (set logits). f32_is_finite l \<longrightarrow> f32_real l \<le> f32_real (max_logit logits))"
    using fold_max assms(1) unfolding max_logit_def by blast
  then show "max_logit logits \<in> set logits" "f32_is_finite (max_logit logits)"
    "\<And>l. l \<in> set logits \<Longrightarrow> f32_is_finite l \<Longrightarrow> f32_real l \<le> f32_real (max_logit logits)"
    using neg_infinity_facts(1) by auto
qed

lemma exp_logits_props:
  assumes ok: "exp_ok expf" and cap: "\<forall>l\<in>set logits. capped l" and v: "v \<in> set logits" "f32_is_finite v"
  shows "\<forall>p\<in>set (exp_logits expf logits). unit_f32 p" and "f32_one \<in> set (exp_logits expf logits)"
    and "\<And>i. i < length logits \<Longrightarrow> \<not> f32_is_finite (logits ! i) \<Longrightarrow> exp_logits expf logits ! i = 0"
proof -
  let ?M = "max_logit logits"
  note M = max_logit_props [OF cap v]
  have e: "expf f32_neg_infinity = 0" "\<And>x. \<not> f32_is_nan x \<Longrightarrow> \<not> f32_lt 0 x \<Longrightarrow> unit_f32 (expf x)"
    using ok by (simp_all add: exp_ok_def unit_f32_def)
  show "\<forall>p\<in>set (exp_logits expf logits). unit_f32 p"
  proof
    fix p
    assume "p \<in> set (exp_logits expf logits)"
    then obtain l where l: "l \<in> set logits" "p = expf (f32_sub l ?M)" by (auto simp: exp_logits_def)
    show "unit_f32 p"
    proof (cases "f32_is_finite l")
      case True
      then show ?thesis using f32_sub_le [OF True M(2) M(3) [OF l(1) True]] e(2) by (simp add: l)
    next
      case False
      then have "l = f32_neg_infinity" using cap l(1) by (auto simp: capped_def)
      then show ?thesis using f32_sub_neg_infinity [OF M(2)] e(1) unit_simps by (simp add: l)
    qed
  qed
  obtain s e where "decode (f32_sub ?M ?M) = FFin s 0 e" using f32_sub_self [OF M(2)] by blast
  then have "expf (f32_sub ?M ?M) = f32_one" by (rule exp_zero [OF ok])
  then show "f32_one \<in> set (exp_logits expf logits)" using M(1) by (force simp: exp_logits_def)
  show "exp_logits expf logits ! i = 0" if "i < length logits" "\<not> f32_is_finite (logits ! i)" for i
  proof -
    have "logits ! i = f32_neg_infinity" using that cap by (auto simp: capped_def)
    then show ?thesis using that(1) f32_sub_neg_infinity [OF M(2)] e(1) by (simp add: exp_logits_def)
  qed
qed

lemma softmax_props:
  assumes ok: "exp_ok expf" and cap: "\<forall>l\<in>set logits. capped l" and v: "v \<in> set logits" "f32_is_finite v"
    and len: "length logits < 2 ^ 24"
  shows "\<forall>p\<in>set (softmax expf logits). unit_f32 p" and "\<exists>p\<in>set (softmax expf logits). 0 < f32_real p"
    and "\<And>i. i < length logits \<Longrightarrow> 0 < f32_real (softmax expf logits ! i) \<Longrightarrow> f32_is_finite (logits ! i)"
proof -
  let ?E = "exp_logits expf logits" and ?s = "f32_sum (exp_logits expf logits)"
  note E = exp_logits_props [OF ok cap v]
  have lenE: "length ?E = length logits" by (simp add: exp_logits_def)
  have s: "f32_nonneg ?s" "1 \<le> f32_real ?s" "f32_real ?s \<le> 2 ^ 24"
    using sum_one [OF E(1) _ E(2)] len by (simp_all add: lenE)
  show "\<forall>p\<in>set (softmax expf logits). unit_f32 p"
  proof
    fix p
    assume "p \<in> set (softmax expf logits)"
    then obtain x where x: "x \<in> set ?E" "p = f32_div x ?s" by (auto simp: softmax_def)
    have "unit_f32 x" using E(1) x(1) by blast
    then show "unit_f32 p" using f32_div_le_one [of x ?s] s by (simp add: x unit_f32_def)
  qed
  have "f32_between 0 (int 24) ?s" using s nonneg_finite by (simp add: f32_between_def)
  then have "f32_between (- int 24) 0 (f32_div f32_one ?s)" by (rule recip_between) simp
  then have "2 powi (- int 24) \<le> f32_real (f32_div f32_one ?s)" by (simp add: f32_between_def)
  moreover have "(0 :: real) < 2 powi (- int 24)" by simp
  ultimately have "0 < f32_real (f32_div f32_one ?s)" by (rule less_le_trans [rotated])
  then show "\<exists>p\<in>set (softmax expf logits). 0 < f32_real p" using E(2) by (auto simp: softmax_def)
  show "f32_is_finite (logits ! i)" if i: "i < length logits" and pos: "0 < f32_real (softmax expf logits ! i)" for i
  proof (rule ccontr)
    assume "\<not> f32_is_finite (logits ! i)"
    then have "?E ! i = 0" by (rule E(3) [OF i])
    then have "softmax expf logits ! i = f32_div 0 ?s" using i lenE by (simp add: softmax_def)
    moreover have "f32_div 0 ?s = 0" using f32_div_zero [of 0 ?s] s by simp
    ultimately show False using pos by simp
  qed
qed

section \<open>The generator's range and states\<close>

lemma next_f32_unit: "unit_f32 (snd (next_f32 s))"
proof -
  define k where "k = unat (drop_bit 40 (rng_step s * 0x2545F4914F6CDD1D))"
  have "unat (rng_step s * 0x2545F4914F6CDD1D) < 2 ^ 64"
    using unsigned_less [of "rng_step s * 0x2545F4914F6CDD1D", where ?'a = nat] by simp
  then have "drop_bit 40 (unat (rng_step s * 0x2545F4914F6CDD1D)) < 2 ^ 24"
    by (simp only: drop_bit_eq_div) (simp add: less_mult_imp_div_less)
  then have "k < 2 ^ 24" unfolding k_def by (simp only: unat_drop_bit_eq)
  then have n: "f32_nonneg (f32_of_int (int k))" "f32_real (f32_of_int (int k)) = real k" "real k \<le> 2 ^ 24"
    using nonneg_of_nat [of k] by (blast, blast, metis less_imp_le of_nat_le_iff of_nat_numeral of_nat_power)
  have dec: "decode f32_2_24 = FFin False (2 ^ 23) 1" by (simp add: f32_2_24_def decode_def)
  have d: "f32_nonneg f32_2_24" "f32_real f32_2_24 = 2 ^ 24"
    using dec by (simp_all add: f32_nonneg_def f32_real_def sgn_val_def)
  have "snd (next_f32 s) = f32_div (f32_of_int (int k)) f32_2_24"
    by (simp add: next_f32_def Let_def k_def)
  moreover have "0 < f32_real f32_2_24" "f32_real (f32_of_int (int k)) \<le> f32_real f32_2_24"
    unfolding d(2) n(2) using n(3) by simp_all
  ultimately show ?thesis using f32_div_le_one [OF n(1) d(1)] unfolding unit_f32_def by metis
qed

lemma drop_fixed: "0 < k \<Longrightarrow> drop_bit k (z :: u64) = z \<Longrightarrow> z = 0"
proof -
  assume k: "0 < k" and z: "drop_bit k z = z"
  have "unat z = unat z div 2 ^ k" 
    using arg_cong [OF z, of unat] unfolding unat_drop_bit_eq unfolding drop_bit_eq_div by (rule sym)
  moreover have "1 < (2 :: nat) ^ k" using k by (rule one_less_power [rotated]) simp
  ultimately have "unat z = 0" by (metis div_less_dividend less_irrefl neq0_conv)
  then show "z = 0" by (simp add: unat_eq_0)
qed

lemma push_fixed: "push_bit 25 (z :: u64) = z \<Longrightarrow> z = 0"
proof -
  assume z: "push_bit 25 z = z"
  have "z = push_bit 25 (push_bit 25 (push_bit 25 z))" by (simp only: z)
  also have "\<dots> = push_bit 75 z" by simp
  also have "\<dots> = 0" by (rule bit_eqI) (simp add: bit_push_bit_iff)
  finally show "z = 0" .
qed

lemma xor_shift_zero:
  "0 < k \<Longrightarrow> s XOR drop_bit k s = 0 \<longleftrightarrow> s = (0 :: u64)" "s XOR push_bit 25 s = 0 \<longleftrightarrow> s = (0 :: u64)"
proof -
  have eq: "s = x" if "s XOR x = 0" for x :: u64
  proof -
    have "s XOR (s XOR x) = s" using that by simp
    then show ?thesis by (simp flip: xor.assoc)
  qed
  show "0 < k \<Longrightarrow> s XOR drop_bit k s = 0 \<longleftrightarrow> s = 0" using eq [of "drop_bit k s"] drop_fixed by force
  show "s XOR push_bit 25 s = 0 \<longleftrightarrow> s = 0" using eq [of "push_bit 25 s"] push_fixed by force
qed

lemma rng_step_zero: "rng_step s = 0 \<longleftrightarrow> s = 0"
  unfolding rng_step_def Let_def by (simp only: xor_shift_zero zero_less_numeral)

text \<open>
  C39: The generator never gets stuck: from every seed but the largest, no state it reaches
  is zero, and from the largest seed every state is; each number it yields lies between
  zero and one.
\<close>

theorem rng_never_stuck:
  "(((fst \<circ> next_f32) ^^ n) (rng_new seed) = 0) = (seed = - 1) \<and> unit_f32 (snd (next_f32 s))"
proof -
  have "((fst \<circ> next_f32) ^^ n) s = 0 \<longleftrightarrow> s = 0" for s
    by (induction n) (simp_all add: next_f32_def Let_def rng_step_zero)
  moreover have "rng_new seed = 0 \<longleftrightarrow> seed = - 1" 
    by (simp add: rng_new_def eq_neg_iff_add_eq_0)
  ultimately show ?thesis using next_f32_unit by simp
qed

section \<open>A forbidden token is never sampled\<close>

lemma sorted_first:
  assumes srt: "sort_ok srt" and fin: "\<forall>x\<in>set xs. f32_is_finite (snd x)" and x: "x \<in> set xs"
  obtains y ys where "srt xs = y # ys" and "f32_real (snd x) \<le> f32_real (snd y)" and "set (srt xs) = set xs"
    and "length (srt xs) = length xs"
proof -
  have m: "mset (srt xs) = mset xs" and so: "sorted_wrt (\<lambda>x y. \<not> f32_lt (snd x) (snd y)) (srt xs)"
    using srt fin by (simp_all add: sort_ok_def)
  have s: "set (srt xs) = set xs" "length (srt xs) = length xs"
    using m by (metis set_mset_mset, metis size_mset)
  then obtain y ys where y: "srt xs = y # ys" using x by (cases "srt xs") auto
  have "y \<in> set xs" using s y by (metis list.set_intros(1))
  have "f32_real (snd x) \<le> f32_real (snd y)"
  proof (cases "x = y")
    case False
    then have "x \<in> set ys" using x s(1) y by auto
    then have "\<not> f32_lt (snd y) (snd x)" using so y by simp
    then show ?thesis using fin x \<open>y \<in> set xs\<close> by (simp add: lt_real)
  qed simp
  then show thesis using that y s by blast
qed

lemma nucleus_cutoff_range: "nucleus_cutoff top_p c xs \<le> length xs \<and> (xs \<noteq> [] \<longrightarrow> 0 < nucleus_cutoff top_p c xs)"
proof (induction xs arbitrary: c)
  case (Cons x xs)
  obtain i p where "x = (i, p)" by fastforce
  with Cons show ?case by (simp add: Let_def)
qed simp

lemma nucleus_pick:
  fixes top_p :: f32
  assumes srt: "sort_ok srt" and ps: "\<forall>p\<in>set ps. unit_f32 p" and pos: "\<exists>p\<in>set ps. 0 < f32_real p"
    and len: "length ps < 2 ^ 24" and u: "unit_f32 u"
  defines "ordered \<equiv> srt (filter (\<lambda>(i, p). f32_is_finite p) (enumerate 0 ps))"
  defines "nucleus \<equiv> take (nucleus_cutoff top_p 0 ordered) ordered"
  shows "\<exists>i. pick (f32_mul u (f32_sum (map snd nucleus))) 0 nucleus = Some i \<and> i < length ps \<and> 0 < f32_real (ps ! i)"
    and "filter (\<lambda>(i, p). f32_is_finite p) (enumerate 0 ps) \<noteq> []"
proof -
  let ?I = "filter (\<lambda>(i, p). f32_is_finite p) (enumerate 0 ps)"
  have I: "(i, p) \<in> set ?I \<longleftrightarrow> i < length ps \<and> p = ps ! i \<and> f32_is_finite p" for i p
    by (auto simp: in_set_enumerate_eq)
  have unit: "unit_f32 (snd x)" if "x \<in> set ?I" for x
    using that I [of "fst x" "snd x"] ps by (auto simp: unit_f32_def)
  obtain p where p: "p \<in> set ps" "0 < f32_real p" using pos by blast
  then obtain k where k: "k < length ps" "ps ! k = p" by (metis in_set_conv_nth)
  have kp: "(k, p) \<in> set ?I" unfolding I using k ps p(1) nonneg_finite by (auto simp: unit_f32_def)
  then show "?I \<noteq> []" by (metis empty_iff list.set(1))
  obtain y ys where y: "ordered = y # ys" "f32_real p \<le> f32_real (snd y)" "set ordered = set ?I" "length ordered = length ?I"
    using sorted_first [OF srt _ kp] unfolding ordered_def by auto
  have n0: "0 < nucleus_cutoff top_p 0 ordered" using nucleus_cutoff_range [of top_p 0 ordered] y(1) by simp
  then have hd: "nucleus \<noteq> [] \<and> hd nucleus = y" unfolding nucleus_def y(1) by (cases "nucleus_cutoff top_p 0 (y # ys)") auto
  have sub: "set nucleus \<subseteq> set ?I" using y(3) set_take_subset by (metis nucleus_def)
  have "length nucleus \<le> length ps"
    using y(4) length_filter_le [of "\<lambda>(i, p). f32_is_finite p" "enumerate 0 ps"] by (simp add: nucleus_def)
  then have n24: "0 + length nucleus < 2 ^ 24" using len by simp
  have un: "\<forall>x\<in>set nucleus. unit_f32 (snd x)" using sub unit by blast
  have "f32_nonneg (f32_sum (map snd nucleus))"
    using sum_fold [of 0 0 "map snd nucleus"] un n24 by (simp add: f32_sum_def)
  then have r: "f32_nonneg (f32_mul u (f32_sum (map snd nucleus)))"
    "f32_real (f32_mul u (f32_sum (map snd nucleus))) \<le> f32_real (f32_sum (map snd nucleus))"
    using f32_mul_le [of u "f32_sum (map snd nucleus)" "f32_sum (map snd nucleus)"] u
    by (simp_all add: unit_f32_def mult_left_le_one_le nonneg_real)
  have "f32_real 0 < f32_real (f32_mul u (f32_sum (map snd nucleus))) \<or> (nucleus \<noteq> [] \<and> 0 < f32_real (snd (hd nucleus)))"
    using hd y(2) p(2) by simp
  from pick_positive [OF un nonneg_zero(1) _ n24 r(1) _ this] r(2)
  obtain i q where "pick (f32_mul u (f32_sum (map snd nucleus))) 0 nucleus = Some i" "(i, q) \<in> set nucleus" "0 < f32_real q"
    by (auto simp: f32_sum_def)
  moreover from this(2) have "i < length ps \<and> q = ps ! i" using sub I [of i q] by (metis subsetD)
  ultimately show "\<exists>i. pick (f32_mul u (f32_sum (map snd nucleus))) 0 nucleus = Some i \<and> i < length ps \<and> 0 < f32_real (ps ! i)"
    by auto
qed

lemma sample_allowed:
  assumes "exp_ok expf" and "sort_ok srt" and "f32_is_finite penalty" and "f32_lt 0 penalty"
    and "length logits < 2 ^ 24"
    and "v \<in> set (apply_penalty penalty recent logits)" and "f32_is_finite v"
    and "\<And>l. \<not> f32_lt temperature f32_1e_7 \<Longrightarrow> l \<in> set (apply_penalty penalty recent logits) \<Longrightarrow>
      f32_is_finite l \<Longrightarrow> f32_is_finite (f32_mul l (f32_div f32_one temperature))"
  shows "case sample_token expf srt logits temperature top_p penalty recent rng of
      Ok (t, _, _) \<Rightarrow> unat t < length logits \<and> f32_is_finite (logits ! unat t) \<and>
        (f32_lt temperature f32_1e_7 \<longrightarrow> (\<forall>l\<in>set (apply_penalty penalty recent logits). f32_is_finite l \<longrightarrow>
          f32_real l \<le> f32_real (apply_penalty penalty recent logits ! unat t)))
    | _ \<Rightarrow> False"
proof -
  let ?L = "apply_penalty penalty recent logits"
  let ?S = "map (scale_logit (f32_div f32_one temperature)) ?L"
  have small: "unat (word_of_nat i :: u32) = i" if "i < length logits" for i
    using that assms(5) by (intro unat_word_of_nat_small) simp
  note prior = apply_penalty_finite [OF assms(3,4), where logits = logits and recent = recent]
  show ?thesis
  proof (cases "f32_lt temperature f32_1e_7")
    case True
    then show ?thesis
      using greedy_index_max [OF assms(6,7)] prior by (simp add: sample_token_def Let_def small)
  next
    case False
    have cap: "\<forall>l\<in>set ?S. capped l" using assms(8) [OF False] by (auto simp: scale_logit_def capped_def)
    have fin: "f32_is_finite (?L ! i)" if "i < length logits" "f32_is_finite (?S ! i)" for i
      using that neg_infinity_facts(1) by (auto simp: scale_logit_def split: if_splits)
    have v: "scale_logit (f32_div f32_one temperature) v \<in> set ?S" "f32_is_finite (scale_logit (f32_div f32_one temperature) v)"
      using assms(6,7) assms(8) [OF False] by (simp_all add: scale_logit_def)
    have "length ?S < 2 ^ 24" using assms(5) by simp
    note sm = softmax_props [OF assms(1) cap v this]
    have len: "length (softmax expf ?S) = length logits" by (simp add: softmax_def exp_logits_def)
    obtain rng' u where u: "next_f32 rng = (rng', u)" by fastforce
    then have "unit_f32 u" using next_f32_unit [of rng] by simp
    note np = nucleus_pick(1) [OF assms(2) sm(1,2) _ this, where top_p = top_p, unfolded len, OF assms(5)]
      nucleus_pick(2) [OF assms(2) sm(1,2) _ this, unfolded len, OF assms(5)]
    obtain i where i: "pick (f32_mul u (f32_sum (map snd (take (nucleus_cutoff top_p 0
          (srt (filter (\<lambda>(i, p). f32_is_finite p) (enumerate 0 (softmax expf ?S)))))
          (srt (filter (\<lambda>(i, p). f32_is_finite p) (enumerate 0 (softmax expf ?S)))))))) 0
        (take (nucleus_cutoff top_p 0 (srt (filter (\<lambda>(i, p). f32_is_finite p) (enumerate 0 (softmax expf ?S)))))
          (srt (filter (\<lambda>(i, p). f32_is_finite p) (enumerate 0 (softmax expf ?S))))) = Some i"
      "i < length logits" "0 < f32_real (softmax expf ?S ! i)"
      using np(1) by blast
    have "f32_is_finite (logits ! i)" using sm(3) [of i] i fin [of i] prior [of i] by simp
    then show ?thesis using False np(2) i(1,2) small [of i]
      by (simp add: sample_token_def Let_def u del: filter_map)
  qed
qed

text \<open>
  C15: A forbidden token is never sampled, as long as the scaling does not overflow. Some logit
  is finite after the repetition penalty; when the sampler scales (its temperature is not below
  \<open>1e-7\<close>) every finite penalised logit times \<open>1 / temperature\<close> is finite; then sampling returns
  without a panic a token inside the vocabulary whose logit the mask left finite. With a
  temperature below \<open>1e-7\<close>, zero included, nothing is scaled and nothing is asked of the
  temperature, and the token is one whose penalised logit is the largest. Without the
  condition the scaling may overflow; sampling may then return token 0, masked or not.
\<close>

theorem sample_respects_mask:
  assumes "exp_ok expf" and "sort_ok srt" and "f32_is_finite penalty" and "f32_lt 0 penalty"
    and "length logits < 2 ^ 24"
    and "v \<in> set (apply_penalty penalty recent logits)" and "f32_is_finite v"
    and "\<And>l. \<not> f32_lt temperature f32_1e_7 \<Longrightarrow> l \<in> set (apply_penalty penalty recent logits) \<Longrightarrow>
      f32_is_finite l \<Longrightarrow> f32_is_finite (f32_mul l (f32_div f32_one temperature))"
  shows "case sample_token expf srt logits temperature top_p penalty recent rng of
      Ok (t, _, _) \<Rightarrow> unat t < length logits \<and> f32_is_finite (logits ! unat t) \<and>
        (f32_lt temperature f32_1e_7 \<longrightarrow> (\<forall>l\<in>set (apply_penalty penalty recent logits). f32_is_finite l \<longrightarrow>
          f32_real l \<le> f32_real (apply_penalty penalty recent logits ! unat t)))
    | _ \<Rightarrow> False"
  by (rule sample_allowed [OF assms])

text \<open>A sort and an exponential that meet the contracts.\<close>

fun insert_desc :: "nat \<times> f32 \<Rightarrow> (nat \<times> f32) list \<Rightarrow> (nat \<times> f32) list" where
  "insert_desc x [] = [x]"
| "insert_desc x (y # ys) = (if f32_lt (snd x) (snd y) then y # insert_desc x ys else x # y # ys)"

definition sample_sort :: "(nat \<times> f32) list \<Rightarrow> (nat \<times> f32) list" where
  "sample_sort xs = foldr insert_desc xs []"

definition sample_exp :: "f32 \<Rightarrow> f32" where
  "sample_exp x = (case decode x of FFin s m e \<Rightarrow> if m = 0 then f32_one else 0 | _ \<Rightarrow> 0)"

lemma sample_exp_ok: "exp_ok sample_exp"
  using unit_simps by (auto simp: exp_ok_def sample_exp_def decode_neg_infinity unit_f32_def split: fdec.splits)

lemma insert_desc_props:
  "mset (insert_desc x xs) = add_mset x (mset xs)"
  "\<forall>y\<in>set (x # xs). f32_is_finite (snd y) \<Longrightarrow> sorted_wrt (\<lambda>x y. \<not> f32_lt (snd x) (snd y)) xs \<Longrightarrow>
    sorted_wrt (\<lambda>x y. \<not> f32_lt (snd x) (snd y)) (insert_desc x xs)"
proof -
  show "mset (insert_desc x xs) = add_mset x (mset xs)" by (induction xs) auto
  then have set: "set (insert_desc x xs) = insert x (set xs)" for xs by (induction xs) auto
  show "\<forall>y\<in>set (x # xs). f32_is_finite (snd y) \<Longrightarrow> sorted_wrt (\<lambda>x y. \<not> f32_lt (snd x) (snd y)) xs \<Longrightarrow>
    sorted_wrt (\<lambda>x y. \<not> f32_lt (snd x) (snd y)) (insert_desc x xs)"
    by (induction xs) (auto simp: lt_real set)
qed

lemma sample_sort_ok: "sort_ok sample_sort"
proof -
  have m: "mset (foldr insert_desc xs []) = mset xs" for xs by (induction xs) (simp_all add: insert_desc_props(1))
  have "(\<forall>x\<in>set xs. f32_is_finite (snd x)) \<Longrightarrow> sorted_wrt (\<lambda>x y. \<not> f32_lt (snd x) (snd y)) (foldr insert_desc xs [])" for xs
  proof (induction xs)
    case (Cons x xs)
    have "set (foldr insert_desc xs []) = set xs" using m by (metis set_mset_mset)
    with Cons show ?case by (simp add: insert_desc_props(2))
  qed simp
  with m show ?thesis by (simp add: sort_ok_def sample_sort_def)
qed

lemma sample_respects_mask_witness:
  "(case sample_token sample_exp sample_sort [f32_neg_infinity, f32_one, 0] f32_one f32_one f32_one [1] 43 of
     Ok (t, _, _) \<Rightarrow> unat t < 3 \<and> f32_is_finite ([f32_neg_infinity, f32_one, 0] ! unat t)
   | _ \<Rightarrow> False) \<and>
   (case sample_token sample_exp sample_sort [f32_neg_infinity, f32_one, 0] 0 f32_one f32_one [1] 43 of
     Ok (t, _, _) \<Rightarrow> unat t < 3 \<and> (\<forall>l\<in>{f32_one, 0}. f32_real l \<le> f32_real ([f32_neg_infinity, f32_one, 0] ! unat t))
   | _ \<Rightarrow> False)"
proof -
  have one: "f32_eq f32_one f32_one" "f32_is_finite f32_one" "f32_lt 0 f32_one" "f32_is_finite 0"
    using nonneg_finite [of f32_one] nonneg_finite [of 0] finite_not_nan [of f32_one] by (simp_all add: f32_eq_def lt_real)
  have pen: "apply_penalty f32_one [1] [f32_neg_infinity, f32_one, 0] = [f32_neg_infinity, f32_one, 0]"
    by (simp add: apply_penalty_def one)
  have "f32_between 0 (int 0) f32_one" by (simp add: f32_between_def one)
  then have "f32_between (- int 0) 0 (f32_div f32_one f32_one)" by (rule recip_between) simp
  then have d: "f32_is_finite (f32_div f32_one f32_one)" "f32_nonneg (f32_div f32_one f32_one) \<and> f32_real (f32_div f32_one f32_one) \<le> 1"
    using f32_div_le_one [of f32_one f32_one] by (simp_all add: f32_between_def)
  have "f32_is_finite (f32_mul l (f32_div f32_one f32_one))" if "l = f32_one \<or> l = 0" for l
    using f32_mul_le [of l "f32_div f32_one f32_one" f32_one] that d(2) nonneg_finite by auto
  then have "f32_is_finite l \<Longrightarrow> f32_is_finite (f32_mul l (f32_div f32_one f32_one))"
    if "l \<in> set (apply_penalty f32_one [1] [f32_neg_infinity, f32_one, 0])" for l
    using that neg_infinity_facts(1) by (auto simp: pen)
  from sample_respects_mask [OF sample_exp_ok sample_sort_ok one(2,3), of "[f32_neg_infinity, f32_one, 0]" f32_one "[1]",
      OF _ _ one(2) this, of f32_one 43]
  have warm: "case sample_token sample_exp sample_sort [f32_neg_infinity, f32_one, 0] f32_one f32_one f32_one [1] 43 of
      Ok (t, _, _) \<Rightarrow> unat t < 3 \<and> f32_is_finite ([f32_neg_infinity, f32_one, 0] ! unat t)
    | _ \<Rightarrow> False" by (auto simp: pen split: res.splits)
  have zero: "f32_lt 0 f32_1e_7" by (simp add: f32_lt_def f32_1e_7_def decode_def Let_def scaled_def sgn_val_def)
  from sample_respects_mask [OF sample_exp_ok sample_sort_ok one(2,3), where temperature = 0 and v = f32_one and
      logits = "[f32_neg_infinity, f32_one, 0]" and recent = "[1]" and top_p = f32_one and rng = 43]
  have "case sample_token sample_exp sample_sort [f32_neg_infinity, f32_one, 0] 0 f32_one f32_one [1] 43 of
      Ok (t, _, _) \<Rightarrow> unat t < 3 \<and> (\<forall>l\<in>{f32_one, 0}. f32_real l \<le> f32_real ([f32_neg_infinity, f32_one, 0] ! unat t))
    | _ \<Rightarrow> False" using zero one by (simp add: pen split: res.splits prod.splits)
  with warm show ?thesis by blast
qed

text \<open>The greedy sampler returns the first of the largest logits, if none is NaN.\<close>

lemma fold_earlier_max:
  assumes "\<forall>y\<in>set (x # xs). f32_is_finite (snd y)"
  shows "fold earlier_max xs x \<in> set (x # xs) \<and> (\<forall>y\<in>set (x # xs). f32_real (snd y) \<le> f32_real (snd (fold earlier_max xs x)))"
  using assms
proof (induction xs arbitrary: x)
  case (Cons y xs)
  define z where "z = earlier_max y x"
  have z: "z \<in> {x, y}" "f32_real (snd x) \<le> f32_real (snd z)" "f32_real (snd y) \<le> f32_real (snd z)"
    using Cons.prems by (auto simp: z_def earlier_max_def lt_real)
  then have "\<forall>w\<in>set (z # xs). f32_is_finite (snd w)" using Cons.prems by auto
  from Cons.IH [OF this] z show ?case by (fastforce simp flip: z_def)
qed simp

lemma greedy_sample_max:
  assumes "\<forall>v\<in>set (t_data t). f32_is_finite v" and "t_data t \<noteq> []"
  shows "\<exists>i<length (t_data t). greedy_sample t = Ok i \<and> (\<forall>v\<in>set (t_data t). f32_real v \<le> f32_real (t_data t ! i))"
proof -
  have e: "(i, v) \<in> set (enumerate 0 (t_data t)) \<longleftrightarrow> i < length (t_data t) \<and> v = t_data t ! i" for i v
    by (auto simp: in_set_enumerate_eq)
  obtain x xs where x: "enumerate 0 (t_data t) = x # xs" 
    using assms(2) by (cases "t_data t") auto
  have "\<forall>y\<in>set (x # xs). f32_is_finite (snd y)" unfolding x [symmetric] using assms(1) e by fastforce
  from fold_earlier_max [OF this] obtain i v where m: "fold earlier_max xs x = (i, v)" "(i, v) \<in> set (enumerate 0 (t_data t))"
    "\<forall>y\<in>set (enumerate 0 (t_data t)). f32_real (snd y) \<le> f32_real v"
    unfolding x by (metis prod.collapse snd_conv)
  moreover have "f32_real u \<le> f32_real v" if "u \<in> set (t_data t)" for u
    using that e m(3) by (metis in_set_conv_nth snd_conv)
  ultimately show ?thesis using e by (auto simp: greedy_sample_def x)
qed

end
