(* ===== verification/Policy_Scan.thy ===== *)
theory Policy_Scan
  imports Window "HOL-Library.Sublist"
begin

text \<open>
  \<open>src/crates/libfse\<close>: rules that forbid, record or ignore byte patterns are compiled to an
  automaton with a table of actions per state, and text is scanned in pieces, the state
  kept between calls. The automaton itself is the external crate aho-corasick: a parameter,
  with \<open>dfa_ok\<close> for what is relied on. Machine widths are kept, because the tables pack
  lengths in 16 bits.
\<close>

type_synonym u8 = "8 word"
type_synonym u16 = "16 word"
type_synonym u64 = "64 word"

datatype control_op = ResetRuleState | Mode u32

datatype fse_opcode = Op_Ignore | Op_Record u32 | Op_Reject u32 | Op_Control control_op

record fse_rule =
  ru_pattern :: "u8 list"
  ru_opcode :: fse_opcode

section \<open>The automaton\<close>

record dfa =
  df_start :: "(string, u32) res"
  df_next :: "u32 \<Rightarrow> u8 \<Rightarrow> u32"
  df_is_match :: "u32 \<Rightarrow> bool"
  df_matches :: "u32 \<Rightarrow> nat list"
  df_pattern_len :: "nat \<Rightarrow> nat"

text \<open>After any text, the matches are exactly the patterns the text ends with.\<close>

definition dfa_ok :: "u8 list list \<Rightarrow> dfa \<Rightarrow> bool" where
  "dfa_ok patterns d =
     ((\<exists>q0. df_start d = Ok q0 \<and>
        (\<forall>w. let q = foldl (df_next d) q0 w in
          df_is_match d q = (df_matches d q \<noteq> []) \<and> distinct (df_matches d q) \<and>
          set (df_matches d q) = {i. i < length patterns \<and> suffix (patterns ! i) w})) \<and>
      (\<forall>i<length patterns. df_pattern_len d i = length (patterns ! i)))"

section \<open>The tables\<close>

record action_range =
  ar_start :: u32
  ar_len :: u16

definition empty_range :: action_range where
  "empty_range = \<lparr>ar_start = 0, ar_len = 0\<rparr>"

datatype packed_action =
    PA_Ignore
  | PA_Record u16 u64
  | PA_Reject u32 u32 u16
  | PA_Reset
  | PA_Integrity u32

record fse_map =
  fm_dfa :: dfa
  fm_rule_count :: nat
  fm_state_actions :: "action_range list"
  fm_actions :: "packed_action list"

datatype build_error =
    EmptyRuleSet
  | EmptyPattern
  | AhoBuild string
  | RuleIdTooLarge u32
  | StartState string
  | MissingOpcode nat

definition extract_rule_id :: "fse_opcode \<Rightarrow> u32" where
  "extract_rule_id op = (case op of Op_Record i \<Rightarrow> i | Op_Reject i \<Rightarrow> i | _ \<Rightarrow> 0)"

definition max_allowed_rule_id :: u32 where "max_allowed_rule_id = 65535"

text \<open>One rule's checks, and the largest id so far.\<close>

definition check_rule :: "fse_rule \<Rightarrow> u32 \<Rightarrow> (build_error, u32) res" where
  "check_rule r max_rule_id =
     (let rid = extract_rule_id (ru_opcode r) in
      if ru_pattern r = [] then Err EmptyPattern
      else if max_allowed_rule_id < rid then Err (RuleIdTooLarge rid)
      else Ok (max max_rule_id rid))"

text \<open>The states found from a state by some byte, each once, in the order of the bytes.\<close>

definition found :: "dfa \<Rightarrow> u32 \<Rightarrow> u32 list \<Rightarrow> u8 \<Rightarrow> u32 list \<Rightarrow> u32 list" where
  "found d sid seen b new =
     (let ns = df_next d sid b in if ns \<in> set seen \<or> ns \<in> set new then new else new @ [ns])"

definition discover :: "dfa \<Rightarrow> u32 \<Rightarrow> u32 list \<Rightarrow> u32 list" where
  "discover d sid seen = fold (found d sid seen) (map word_of_nat [0..<256]) []"

lemma fold_found:
  assumes "set new \<inter> set seen = {}" "distinct new"
  shows "set (fold (found d sid seen) bs new) \<inter> set seen = {} \<and> distinct (fold (found d sid seen) bs new) \<and>
    set new \<subseteq> set (fold (found d sid seen) bs new) \<and>
    (\<forall>b\<in>set bs. df_next d sid b \<in> set seen \<union> set (fold (found d sid seen) bs new))"
  using assms
proof (induction bs arbitrary: new)
  case (Cons b bs)
  have "set (found d sid seen b new) \<inter> set seen = {}" "distinct (found d sid seen b new)"
    using Cons.prems by (auto simp: found_def Let_def)
  from Cons.IH [OF this] show ?case by (auto simp: found_def Let_def split: if_splits)
qed simp

lemma discover_props:
  shows "set (discover d sid seen) \<inter> set seen = {}" and "distinct (discover d sid seen)"
    and "df_next d sid b \<in> set seen \<union> set (discover d sid seen)"
proof -
  have "b = word_of_nat (unat b)" "unat b < 256" using unsigned_less [of b, where ?'a = nat] by simp_all
  then have "b \<in> set (map word_of_nat [0..<256])" by (metis atLeastLessThan_iff image_eqI le0 set_map set_upt)
  moreover have "set [] \<inter> set seen = {}" by simp
  ultimately show "set (discover d sid seen) \<inter> set seen = {}" "distinct (discover d sid seen)"
    "df_next d sid b \<in> set seen \<union> set (discover d sid seen)"
    using fold_found [of "[]" seen d sid "map word_of_nat [0..<256]", OF _ distinct.simps(1) [THEN iffD2, OF TrueI]]
    unfolding discover_def by (simp_all only: simp_thms)
qed

text \<open>Breadth-first search from the queue; a state is queued when it is first seen.\<close>

function bfs :: "dfa \<Rightarrow> u32 list \<Rightarrow> u32 list \<Rightarrow> u32 list" where
  "bfs d [] seen = seen"
| "bfs d (sid # queue) seen = bfs d (queue @ discover d sid seen) (seen @ discover d sid seen)"
  by pat_completeness auto

termination
proof (relation "measures [\<lambda>(d, queue, seen). card (- set seen), \<lambda>(d, queue, seen). length queue]")
  fix d :: dfa and sid :: u32 and queue seen :: "u32 list"
  show "((d, queue @ discover d sid seen, seen @ discover d sid seen), d, sid # queue, seen)
      \<in> measures [\<lambda>(d, queue, seen). card (- set seen), \<lambda>(d, queue, seen). length queue]"
  proof (cases "discover d sid seen = []")
    case False
    then have "- set (seen @ discover d sid seen) \<subset> - set seen" using discover_props(1) [of d sid seen] by (cases "discover d sid seen") auto
    then have "card (- set (seen @ discover d sid seen)) < card (- set seen)" by (intro psubset_card_mono) simp_all
    then show ?thesis by simp
  qed simp
qed simp

text \<open>The actions of one match, by the group they go to: rejects, records, the rest.\<close>

definition add_match ::
    "dfa \<Rightarrow> fse_opcode list \<Rightarrow> nat \<Rightarrow> packed_action list \<times> packed_action list \<times> packed_action list \<Rightarrow>
     (build_error, packed_action list \<times> packed_action list \<times> packed_action list) res" where
  "add_match d opcodes pidx = (\<lambda>(rejects, records, rest).
     and_then (ok_or (if pidx < length opcodes then Some (opcodes ! pidx) else None) (MissingOpcode pidx)) (\<lambda>op.
     case op of
       Op_Ignore \<Rightarrow> Ok (rejects, records, rest @ [PA_Ignore])
     | Op_Record rule_id \<Rightarrow>
         Ok (rejects, records @ [PA_Record (ucast (drop_bit 6 rule_id)) (push_bit (unat (rule_id AND 63)) 1)], rest)
     | Op_Reject rule_id \<Rightarrow>
         Ok (rejects @ [PA_Reject rule_id (word_of_nat pidx) (word_of_nat (df_pattern_len d pidx))], records, rest)
     | Op_Control ResetRuleState \<Rightarrow> Ok (rejects, records, rest @ [PA_Reset])
     | Op_Control (Mode _) \<Rightarrow> Ok (rejects, records, rest @ [PA_Ignore])))"

text \<open>The length of a range is cut to 16 bits.\<close>

definition add_state ::
    "dfa \<Rightarrow> fse_opcode list \<Rightarrow> u32 \<Rightarrow> action_range list \<times> packed_action list \<Rightarrow>
     (build_error, action_range list \<times> packed_action list) res" where
  "add_state d opcodes sid = (\<lambda>(state_actions, actions).
     if \<not> df_is_match d sid \<or> df_matches d sid = [] then Ok (state_actions, actions)
     else and_then (fold_res (add_match d opcodes) (df_matches d sid) ([], [], [])) (\<lambda>(rejects, records, rest).
       let base = (word_of_nat (length actions) :: u32);
           actions = actions @ rejects @ records @ rest;
           len = ucast (word_of_nat (length actions) - base);
           i = unat sid;
           state_actions = (if length state_actions \<le> i
             then state_actions @ replicate (i + 1 - length state_actions) empty_range else state_actions)
       in Ok (state_actions[i := \<lparr>ar_start = base, ar_len = len\<rparr>], actions)))"

definition build_state_tables ::
    "dfa \<Rightarrow> fse_opcode list \<Rightarrow> (build_error, action_range list \<times> packed_action list) res" where
  "build_state_tables d opcodes =
     and_then (map_err StartState (df_start d)) (\<lambda>start.
     let unique_sids = bfs d [start] [start];
         max_sid = fold max (map unat unique_sids) (unat start)
     in fold_res (add_state d opcodes) unique_sids (replicate (max_sid + 1) empty_range, []))"

definition fse_compile :: "(u8 list list \<Rightarrow> (string, dfa) res) \<Rightarrow> fse_rule list \<Rightarrow> (build_error, fse_map) res" where
  "fse_compile dfa_new rules =
     (if rules = [] then Err EmptyRuleSet
      else
        and_then (fold_res check_rule rules 0) (\<lambda>max_rule_id.
        and_then (map_err AhoBuild (dfa_new (map ru_pattern rules))) (\<lambda>d.
        and_then (build_state_tables d (map ru_opcode rules)) (\<lambda>(state_actions, actions).
        Ok \<lparr>fm_dfa = d, fm_rule_count = unat max_rule_id + 1, fm_state_actions = state_actions, fm_actions = actions\<rparr>))))"

definition actions_for_state :: "fse_map \<Rightarrow> u32 \<Rightarrow> ('e, packed_action list) res" where
  "actions_for_state m sid =
     (let i = unat sid in
      if length (fm_state_actions m) \<le> i then Ok []
      else let r = fm_state_actions m ! i in
        if ar_len r = 0 then Ok []
        else slice (fm_actions m) (unat (ar_start r)) (unat (ar_start r) + unat (ar_len r)))"

section \<open>Scanning\<close>

record scan_cursor =
  sc_sid :: u32
  sc_rule_bits :: "u64 list"
  sc_rules_recorded :: u32

definition reset_rule_state :: "scan_cursor \<Rightarrow> scan_cursor" where
  "reset_rule_state c = c\<lparr>sc_rule_bits := map (\<lambda>_. 0) (sc_rule_bits c), sc_rules_recorded := 0\<rparr>"

definition new_cursor :: "fse_map \<Rightarrow> (string, scan_cursor) res" where
  "new_cursor m =
     and_then (df_start (fm_dfa m)) (\<lambda>sid.
     Ok \<lparr>sc_sid = sid, sc_rule_bits = replicate (min (u64_range - 1) (fm_rule_count m + 63) div 64) 0, sc_rules_recorded = 0\<rparr>)"

datatype violation =
    PolicyReject u32 nat nat nat \<comment> \<open>rule, pattern, start and end of the span\<close>
  | IntegrityError nat string

definition rejected_rule_id :: "violation \<Rightarrow> u32 option" where
  "rejected_rule_id v = (case v of PolicyReject rule_id _ _ _ \<Rightarrow> Some rule_id | _ \<Rightarrow> None)"

definition violation_text :: "violation \<Rightarrow> string" where
  "violation_text v =
     (case v of PolicyReject rule_id _ _ _ \<Rightarrow> ''Policy Violation: Rule '' @ dec (unat rule_id)
      | IntegrityError _ details \<Rightarrow> ''Integrity Error: '' @ details)"

record scan_summary =
  su_bytes_scanned :: nat
  su_match_states_seen :: u64
  su_pattern_hits :: u64
  su_rules_recorded :: u32
  su_rules_rejected :: u32

definition saturating_inc :: "u32 \<Rightarrow> u32" where
  "saturating_inc x = (if x = - 1 then x else x + 1)"

definition record_rule :: "nat \<Rightarrow> u64 \<Rightarrow> scan_cursor \<Rightarrow> scan_cursor" where
  "record_rule i bit_mask c =
     (let word = sc_rule_bits c ! i in
      if word AND bit_mask = 0
      then c\<lparr>sc_rule_bits := (sc_rule_bits c)[i := word OR bit_mask],
             sc_rules_recorded := saturating_inc (sc_rules_recorded c)\<rparr>
      else c)"

text \<open>The actions of one state, up to the first violation.\<close>

fun run_actions ::
    "string \<times> string \<Rightarrow> nat \<Rightarrow> packed_action list \<Rightarrow> scan_cursor \<Rightarrow> u64 \<Rightarrow> scan_cursor \<times> u64 \<times> violation option" where
  "run_actions details stop [] c hits = (c, hits, None)"
| "run_actions details stop (act # acts) c hits =
     (case act of
        PA_Ignore \<Rightarrow> run_actions details stop acts c hits
      | PA_Record word_idx bit_mask \<Rightarrow>
          (if unat word_idx < length (sc_rule_bits c)
           then run_actions details stop acts (record_rule (unat word_idx) bit_mask c) (hits + 1)
           else (c, hits + 1, Some (IntegrityError 0 (fst details))))
      | PA_Reject rule_id pattern_index pattern_len \<Rightarrow>
          (c, hits, Some (PolicyReject rule_id (unat pattern_index) (stop - unat pattern_len) stop))
      | PA_Reset \<Rightarrow> run_actions details stop acts (reset_rule_state c) (hits + 1)
      | PA_Integrity pattern_index \<Rightarrow> (c, hits, Some (IntegrityError (unat pattern_index) (snd details))))"

fun scan_bytes ::
    "string \<times> string \<Rightarrow> fse_map \<Rightarrow> nat \<Rightarrow> u8 list \<Rightarrow> scan_cursor \<Rightarrow> u64 \<Rightarrow> u64 \<Rightarrow>
     scan_cursor \<times> (violation, u64 \<times> u64) res" where
  "scan_bytes details m pos [] c seen hits = (c, Ok (seen, hits))"
| "scan_bytes details m pos (b # input) c seen hits =
     (let c = c\<lparr>sc_sid := df_next (fm_dfa m) (sc_sid c) b\<rparr> in
      case actions_for_state m (sc_sid c) of
        Ok acts \<Rightarrow>
          if acts = [] then scan_bytes details m (pos + 1) input c seen hits
          else (case run_actions details (pos + 1) acts c hits of
                  (c, hits, None) \<Rightarrow> scan_bytes details m (pos + 1) input c (seen + 1) hits
                | (c, hits, Some v) \<Rightarrow> (c, Err v))
      | Err v \<Rightarrow> (c, Err v)
      | Panic \<Rightarrow> (c, Panic))"

definition scan_text ::
    "string \<times> string \<Rightarrow> fse_map \<Rightarrow> scan_cursor \<Rightarrow> u8 list \<Rightarrow> scan_cursor \<times> (violation, scan_summary) res" where
  "scan_text details m c input =
     (case scan_bytes details m 0 input c 0 0 of
        (c, Ok (seen, hits)) \<Rightarrow>
          (c, Ok \<lparr>su_bytes_scanned = length input, su_match_states_seen = seen, su_pattern_hits = hits,
                   su_rules_recorded = sc_rules_recorded c, su_rules_rejected = 0\<rparr>)
      | (c, Err v) \<Rightarrow> (c, Err v)
      | (c, Panic) \<Rightarrow> (c, Panic))"

text \<open>The two copies of the loop, which differ in the text of their integrity errors.\<close>

definition scan_with_cursor :: "fse_map \<Rightarrow> scan_cursor \<Rightarrow> u8 list \<Rightarrow> scan_cursor \<times> (violation, scan_summary) res" where
  "scan_with_cursor =
     scan_text (''word_idx out of bounds in scan_with_cursor'', ''precomputed integrity error in compiled map'')"

definition scanner_scan :: "fse_map \<Rightarrow> scan_cursor \<Rightarrow> u8 list \<Rightarrow> scan_cursor \<times> (violation, scan_summary) res" where
  "scanner_scan =
     scan_text (''Precomputed word_idx out of bounds'', ''Precomputed integrity error in compiled map'')"


section \<open>The states of the tables\<close>

lemma bfs_props:
  assumes "distinct seen" "set queue \<subseteq> set seen"
    and "\<And>s b. s \<in> set seen - set queue \<Longrightarrow> df_next d s b \<in> set seen"
  shows "distinct (bfs d queue seen) \<and> set seen \<subseteq> set (bfs d queue seen) \<and>
    (\<forall>s\<in>set (bfs d queue seen). \<forall>b. df_next d s b \<in> set (bfs d queue seen))"
  using assms
proof (induction d queue seen rule: bfs.induct)
  case (2 d sid queue seen)
  note new = discover_props [where d = d and sid = sid and seen = seen]
  have "distinct (seen @ discover d sid seen)" using 2(2) new(1,2) by auto
  moreover have "set (queue @ discover d sid seen) \<subseteq> set (seen @ discover d sid seen)" using 2(3) by auto
  moreover have "df_next d s b \<in> set (seen @ discover d sid seen)"
    if "s \<in> set (seen @ discover d sid seen) - set (queue @ discover d sid seen)" for s b
    using that 2(4) [of s b] new(3) [where b = b] by (cases "s = sid") auto
  ultimately show ?case using 2(1) by auto
qed simp

lemma bfs_reaches: "foldl (df_next d) q0 w \<in> set (bfs d [q0] [q0])" "distinct (bfs d [q0] [q0])"
proof -
  have props: "distinct (bfs d [q0] [q0]) \<and> set [q0] \<subseteq> set (bfs d [q0] [q0]) \<and>
      (\<forall>s\<in>set (bfs d [q0] [q0]). \<forall>b. df_next d s b \<in> set (bfs d [q0] [q0]))"
    by (rule bfs_props) simp_all
  then show "distinct (bfs d [q0] [q0])" by blast
  show "foldl (df_next d) q0 w \<in> set (bfs d [q0] [q0])"
  proof (induction w rule: rev_induct)
    case Nil
    show ?case using props by simp
  next
    case (snoc b w)
    with props show ?case by simp
  qed
qed

lemma found_in: "set (fold (found d sid seen) bs new) \<subseteq> set new \<union> range (df_next d sid)"
proof (induction bs arbitrary: new)
  case (Cons b bs)
  from Cons.IH [of "found d sid seen b new"] show ?case by (auto simp: found_def Let_def split: if_splits)
qed simp

lemma bfs_sound:
  assumes "\<And>s. s \<in> set seen \<Longrightarrow> P s" "set queue \<subseteq> set seen" "\<And>s b. P s \<Longrightarrow> P (df_next d s b)"
  shows "s \<in> set (bfs d queue seen) \<Longrightarrow> P s"
  using assms
proof (induction d queue seen rule: bfs.induct)
  case (2 d sid queue seen)
  have "P s" if "s \<in> set (seen @ discover d sid seen)" for s
    using that found_in [of d sid seen "map word_of_nat [0..<256]" "[]"] 2(3,4,5) by (auto simp: discover_def)
  moreover have "set (queue @ discover d sid seen) \<subseteq> set (seen @ discover d sid seen)" using 2(4) by auto
  ultimately show ?case using 2(1,2,5) by simp
qed simp

lemma bfs_reachable:
  assumes "s \<in> set (bfs d [q0] [q0])"
  shows "\<exists>w. s = foldl (df_next d) q0 w"
  using assms
proof (rule bfs_sound [where P = "\<lambda>s. \<exists>w. s = foldl (df_next d) q0 w", rotated -1])
  fix s assume "s \<in> set [q0]"
  then have "s = foldl (df_next d) q0 []" by simp
  then show "\<exists>w. s = foldl (df_next d) q0 w" by blast
next
  fix s b assume "\<exists>w. s = foldl (df_next d) q0 w"
  then obtain w where "s = foldl (df_next d) q0 w" by blast
  then have "df_next d s b = foldl (df_next d) q0 (w @ [b])" by simp
  then show "\<exists>w. df_next d s b = foldl (df_next d) q0 w" by blast
qed simp

section \<open>The actions of a state\<close>

text \<open>What the scan may meet at a state: the packed form of one of its matches.\<close>

definition rejects_as :: "fse_opcode list \<Rightarrow> nat list \<Rightarrow> nat \<Rightarrow> u32 \<Rightarrow> bool" where
  "rejects_as ops ms i rule_id = (i \<in> set ms \<and> i < length ops \<and> ops ! i = Op_Reject rule_id)"

definition reject_of :: "fse_opcode list \<Rightarrow> nat list \<Rightarrow> packed_action \<Rightarrow> bool" where
  "reject_of ops ms act = (\<exists>i rule_id len. rejects_as ops ms i rule_id \<and> act = PA_Reject rule_id (word_of_nat i) len)"

definition harmless :: "fse_opcode list \<Rightarrow> packed_action \<Rightarrow> bool" where
  "harmless ops act = (act = PA_Ignore \<or> act = PA_Reset \<or>
     (\<exists>rule_id mask. Op_Record rule_id \<in> set ops \<and> act = PA_Record (ucast (drop_bit 6 rule_id)) mask))"

definition good_actions :: "fse_opcode list \<Rightarrow> nat list \<Rightarrow> packed_action list \<Rightarrow> bool" where
  "good_actions ops ms acts = (\<exists>rejects others. acts = rejects @ others \<and>
     list_all (reject_of ops ms) rejects \<and> list_all (harmless ops) others \<and>
     ((\<exists>i rule_id. rejects_as ops ms i rule_id) \<longrightarrow> rejects \<noteq> []))"

lemma add_match_fold:
  assumes "\<forall>i\<in>set ms. i < length ops"
    and "list_all (reject_of ops all) rejects" "list_all (harmless ops) records" "list_all (harmless ops) rest"
    and "set ms \<subseteq> set all"
  shows "\<exists>rejects' records' rest'. fold_res (add_match d ops) ms (rejects, records, rest) = Ok (rejects', records', rest') \<and>
    list_all (reject_of ops all) rejects' \<and> list_all (harmless ops) records' \<and> list_all (harmless ops) rest' \<and>
    ((rejects \<noteq> [] \<or> (\<exists>i rule_id. rejects_as ops ms i rule_id)) \<longrightarrow> rejects' \<noteq> []) \<and>
    length rejects' + length records' + length rest' = length rejects + length records + length rest + length ms"
  using assms
proof (induction ms arbitrary: rejects records rest)
  case (Cons i ms)
  have i: "i < length ops" "i \<in> set all" using Cons.prems by simp_all
  then have opin: "ops ! i \<in> set ops" by simp
  obtain rejects1 records1 rest1 where step: "add_match d ops i (rejects, records, rest) = Ok (rejects1, records1, rest1)"
    and good: "list_all (reject_of ops all) rejects1" "list_all (harmless ops) records1" "list_all (harmless ops) rest1"
    and grow: "rejects \<noteq> [] \<or> (\<exists>rule_id. ops ! i = Op_Reject rule_id) \<longrightarrow> rejects1 \<noteq> []"
    and len: "length rejects1 + length records1 + length rest1 = length rejects + length records + length rest + 1"
  proof (cases "ops ! i")
    case Op_Ignore
    then show ?thesis using that Cons.prems i by (simp add: add_match_def ok_or_def harmless_def)
  next
    case (Op_Record r)
    then have "harmless ops (PA_Record (ucast (drop_bit 6 r)) (push_bit (unat (r AND 63)) 1))"
      using opin by (auto simp: harmless_def)
    then show ?thesis using that Cons.prems i Op_Record by (simp add: add_match_def ok_or_def)
  next
    case (Op_Reject r)
    then have "reject_of ops all (PA_Reject r (word_of_nat i) (word_of_nat (df_pattern_len d i)))"
      using i by (auto simp: reject_of_def rejects_as_def)
    then show ?thesis using that Cons.prems i Op_Reject by (simp add: add_match_def ok_or_def)
  next
    case (Op_Control c)
    then show ?thesis using that Cons.prems i by (cases c) (simp_all add: add_match_def ok_or_def harmless_def)
  qed
  have "\<forall>i\<in>set ms. i < length ops" "set ms \<subseteq> set all" using Cons.prems by simp_all
  from Cons.IH [OF this(1) good this(2)] obtain rejects' records' rest' where
    IH: "fold_res (add_match d ops) ms (rejects1, records1, rest1) = Ok (rejects', records', rest')"
      "list_all (reject_of ops all) rejects'" "list_all (harmless ops) records'" "list_all (harmless ops) rest'"
      "(rejects1 \<noteq> [] \<or> (\<exists>i rule_id. rejects_as ops ms i rule_id)) \<longrightarrow> rejects' \<noteq> []"
      "length rejects' + length records' + length rest' = length rejects1 + length records1 + length rest1 + length ms"
    by blast
  have "rejects \<noteq> [] \<or> (\<exists>j rule_id. rejects_as ops (i # ms) j rule_id) \<longrightarrow> rejects' \<noteq> []"
    using grow IH(5) by (auto simp: rejects_as_def)
  with step IH len show ?case by auto
qed (auto simp: rejects_as_def)

lemma packed_matches:
  assumes "\<forall>i\<in>set ms. i < length ops"
  obtains rejects records rest where
    "fold_res (add_match d ops) ms ([], [], []) = Ok (rejects, records, rest)"
    "good_actions ops ms (rejects @ records @ rest)" "length (rejects @ records @ rest) = length ms"
proof -
  from add_match_fold [of ms ops ms "[]" "[]" "[]" d] assms obtain rejects records rest where
    "fold_res (add_match d ops) ms ([], [], []) = Ok (rejects, records, rest)"
    "list_all (reject_of ops ms) rejects" "list_all (harmless ops) records" "list_all (harmless ops) rest"
    "(\<exists>i rule_id. rejects_as ops ms i rule_id) \<longrightarrow> rejects \<noteq> []"
    "length rejects + length records + length rest = length ms" by auto
  moreover from this have "good_actions ops ms (rejects @ records @ rest)"
    unfolding good_actions_def by (intro exI [of _ rejects] exI [of _ "records @ rest"]) simp
  ultimately show ?thesis using that by simp
qed

definition range_of :: "action_range list \<Rightarrow> u32 \<Rightarrow> action_range" where
  "range_of state_actions sid = (if unat sid < length state_actions then state_actions ! unat sid else empty_range)"

definition range_actions :: "action_range \<Rightarrow> packed_action list \<Rightarrow> packed_action list" where
  "range_actions r actions = take (unat (ar_len r)) (drop (unat (ar_start r)) actions)"

definition table_ok :: "dfa \<Rightarrow> fse_opcode list \<Rightarrow> u32 set \<Rightarrow> action_range list \<Rightarrow> packed_action list \<Rightarrow> bool" where
  "table_ok d ops filled state_actions actions =
     (\<forall>sid. let r = range_of state_actions sid in
        if sid \<in> filled then
          (ar_len r \<noteq> 0 \<longrightarrow> unat (ar_start r) + unat (ar_len r) \<le> length actions) \<and>
          good_actions ops (df_matches d sid) (range_actions r actions)
        else ar_len r = 0)"

lemma good_no_actions: "good_actions ops [] []"
  by (simp add: good_actions_def rejects_as_def)

lemma range_actions_append:
  "(ar_len r \<noteq> 0 \<longrightarrow> unat (ar_start r) + unat (ar_len r) \<le> length actions) \<Longrightarrow> range_actions r (actions @ acts) = range_actions r actions"
  by (cases "ar_len r = 0") (simp_all add: range_actions_def)

lemma range_of_store:
  fixes sid :: u32
  assumes "sa' = (if length sa \<le> unat sid then sa @ replicate (unat sid + 1 - length sa) empty_range else sa)"
  shows "range_of (sa'[unat sid := r]) s = (if s = sid then r else range_of sa s)"
proof (cases "s = sid")
  case True
  then show ?thesis using assms by (auto simp: range_of_def)
next
  case False
  then have ne: "unat sid \<noteq> unat s" by (metis word_unat_eq_iff)
  have "range_of (sa'[unat sid := r]) s = range_of sa' s" using ne by (simp add: range_of_def)
  also have "\<dots> = range_of sa s" using assms by (auto simp: range_of_def nth_append)
  finally show ?thesis using False by simp
qed

lemma add_state_ok:
  assumes tab: "length actions \<le> n \<Longrightarrow> table_ok d ops filled sa actions" and new: "sid \<notin> filled"
    and m: "df_is_match d sid = (df_matches d sid \<noteq> [])" "\<forall>i\<in>set (df_matches d sid). i < length ops"
      "length (df_matches d sid) < 2 ^ 16" and n: "n < 2 ^ 32"
  shows "\<exists>sa' actions'. add_state d ops sid (sa, actions) = Ok (sa', actions') \<and> length actions \<le> length actions' \<and>
    (length actions' \<le> n \<longrightarrow> table_ok d ops (insert sid filled) sa' actions')"
proof (cases "df_matches d sid = []")
  case True
  have "table_ok d ops (insert sid filled) sa actions" if "table_ok d ops filled sa actions"
    using that new good_no_actions [of ops] True
    by (auto simp: table_ok_def Let_def range_actions_def split: if_splits)
  with True tab show ?thesis by (simp add: add_state_def)
next
  case False
  obtain rejects records rest where
    pack: "fold_res (add_match d ops) (df_matches d sid) ([], [], []) = Ok (rejects, records, rest)"
      "good_actions ops (df_matches d sid) (rejects @ records @ rest)"
      "length (rejects @ records @ rest) = length (df_matches d sid)"
    by (rule packed_matches [OF m(2)]) (rule that; assumption)
  define acts where "acts = rejects @ records @ rest"
  define sa' where "sa' = (if length sa \<le> unat sid then sa @ replicate (unat sid + 1 - length sa) empty_range else sa)"
  define base where "base = (word_of_nat (length actions) :: u32)"
  define len where "len = (ucast (word_of_nat (length (actions @ acts)) - base) :: u16)"
  have step: "add_state d ops sid (sa, actions) = Ok (sa'[unat sid := \<lparr>ar_start = base, ar_len = len\<rparr>], actions @ acts)"
    using False m(1) pack(1) by (simp add: add_state_def Let_def sa'_def base_def len_def acts_def)
  have "word_of_nat (length (actions @ acts)) - base = (word_of_nat (length acts) :: u32)"
    by (simp add: base_def)
  then have len: "unat len = length acts"
    using m(3) pack(3) by (simp add: len_def acts_def unsigned_ucast_eq unsigned_of_nat take_bit_nat_eq_self)
  have "table_ok d ops (insert sid filled) (sa'[unat sid := \<lparr>ar_start = base, ar_len = len\<rparr>]) (actions @ acts)"
    if fits: "length (actions @ acts) \<le> n"
  proof -
    have old: "table_ok d ops filled sa actions" using tab fits by simp
    have base: "unat base = length actions" using fits n by (simp add: base_def unat_of_nat)
    show ?thesis
      unfolding table_ok_def Let_def range_of_store [OF sa'_def]
    proof (intro allI)
      fix s
      let ?r = "if s = sid then \<lparr>ar_start = base, ar_len = len\<rparr> else range_of sa s"
      show "if s \<in> insert sid filled then
          (ar_len ?r \<noteq> 0 \<longrightarrow> unat (ar_start ?r) + unat (ar_len ?r) \<le> length (actions @ acts)) \<and>
          good_actions ops (df_matches d s) (range_actions ?r (actions @ acts))
        else ar_len ?r = 0"
      proof (cases "s = sid")
        case True
        then show ?thesis using base len pack(2) by (simp add: range_actions_def acts_def)
      next
        case False
        have "if s \<in> filled
          then (ar_len (range_of sa s) \<noteq> 0 \<longrightarrow>
              unat (ar_start (range_of sa s)) + unat (ar_len (range_of sa s)) \<le> length actions) \<and>
            good_actions ops (df_matches d s) (range_actions (range_of sa s) actions)
          else ar_len (range_of sa s) = 0"
          using old by (simp add: table_ok_def Let_def)
        with False show ?thesis by (auto simp: range_actions_append intro: trans_le_add1 split: if_splits)
      qed
    qed
  qed
  with step show ?thesis by simp
qed

lemma add_states_ok:
  assumes "length actions \<le> n \<Longrightarrow> table_ok d ops filled sa actions" and "distinct sids" "set sids \<inter> filled = {}"
    and "\<And>sid. sid \<in> set sids \<Longrightarrow> df_is_match d sid = (df_matches d sid \<noteq> []) \<and>
      (\<forall>i\<in>set (df_matches d sid). i < length ops) \<and> length (df_matches d sid) < 2 ^ 16"
    and "n < 2 ^ 32"
  shows "\<exists>sa' actions'. fold_res (add_state d ops) sids (sa, actions) = Ok (sa', actions') \<and> length actions \<le> length actions' \<and>
    (length actions' \<le> n \<longrightarrow> table_ok d ops (set sids \<union> filled) sa' actions')"
  using assms
proof (induction sids arbitrary: sa actions filled)
  case (Cons sid sids)
  have "\<exists>sa' actions'. add_state d ops sid (sa, actions) = Ok (sa', actions') \<and> length actions \<le> length actions' \<and>
      (length actions' \<le> n \<longrightarrow> table_ok d ops (insert sid filled) sa' actions')"
    by (rule add_state_ok) (use Cons.prems in auto)
  then obtain sa1 actions1 where step: "add_state d ops sid (sa, actions) = Ok (sa1, actions1)" "length actions \<le> length actions1"
    and tab: "length actions1 \<le> n \<Longrightarrow> table_ok d ops (insert sid filled) sa1 actions1" by blast
  have "\<exists>sa' actions'. fold_res (add_state d ops) sids (sa1, actions1) = Ok (sa', actions') \<and> length actions1 \<le> length actions' \<and>
      (length actions' \<le> n \<longrightarrow> table_ok d ops (set sids \<union> insert sid filled) sa' actions')"
    by (rule Cons.IH) (use Cons.prems tab in auto)
  with step show ?case by (auto intro: le_trans)
qed simp

section \<open>The compiled map\<close>

text \<open>What a compiled map guarantees: every state text can reach has the actions of its matches.\<close>

definition sound_map :: "fse_rule list \<Rightarrow> fse_map \<Rightarrow> u32 \<Rightarrow> bool" where
  "sound_map rules m q0 =
     (df_start (fm_dfa m) = Ok q0 \<and>
      (\<forall>w. \<exists>acts. (actions_for_state m (foldl (df_next (fm_dfa m)) q0 w) :: (violation, packed_action list) res) = Ok acts \<and>
        good_actions (map ru_opcode rules)
          (df_matches (fm_dfa m) (foldl (df_next (fm_dfa m)) q0 w)) acts) \<and>
      (\<forall>w i. i \<in> set (df_matches (fm_dfa m) (foldl (df_next (fm_dfa m)) q0 w)) \<longleftrightarrow>
        i < length rules \<and> suffix (ru_pattern (rules ! i)) w) \<and>
      (\<forall>rule_id. Op_Record rule_id \<in> ru_opcode ` set rules \<longrightarrow>
        unat rule_id \<le> 65535 \<and> unat rule_id < fm_rule_count m) \<and>
      fm_rule_count m \<le> 65536 \<and> (\<forall>r\<in>set rules. ru_pattern r \<noteq> []))"

lemma check_rules_Ok:
  assumes "fold_res check_rule rules k = Ok n"
  shows "k \<le> n \<and> (k \<le> 65535 \<longrightarrow> n \<le> 65535) \<and>
    (\<forall>r\<in>set rules. ru_pattern r \<noteq> [] \<and> extract_rule_id (ru_opcode r) \<le> 65535 \<and> extract_rule_id (ru_opcode r) \<le> n)"
  using assms
proof (induction rules arbitrary: k)
  case (Cons r rules)
  let ?id = "extract_rule_id (ru_opcode r)"
  have r: "ru_pattern r \<noteq> []" "?id \<le> 65535" "fold_res check_rule rules (max k ?id) = Ok n"
    using Cons.prems check_rule_def [of r k] by (simp_all add: Let_def max_allowed_rule_id_def split: if_splits)
  from Cons.IH [OF r(3)] have "max k ?id \<le> n" "max k ?id \<le> 65535 \<longrightarrow> n \<le> 65535"
    "\<forall>r\<in>set rules. ru_pattern r \<noteq> [] \<and> extract_rule_id (ru_opcode r) \<le> 65535 \<and> extract_rule_id (ru_opcode r) \<le> n"
    by blast+
  with r(1,2) show ?case by auto
qed simp

lemma compiled_sound:
  assumes c: "fse_compile dfa_new rules = Ok m"
    and lib: "\<And>d. dfa_new (map ru_pattern rules) = Ok d \<Longrightarrow> dfa_ok (map ru_pattern rules) d"
    and small: "length rules < 2 ^ 16" "length (fm_actions m) < 2 ^ 32"
  shows "\<exists>q0. sound_map rules m q0"
proof -
  let ?ops = "map ru_opcode rules"
  from c obtain mx d sa acts where
    chk: "fold_res check_rule rules 0 = Ok mx" and d: "dfa_new (map ru_pattern rules) = Ok d"
    and tab: "build_state_tables d ?ops = Ok (sa, acts)"
    and m: "m = \<lparr>fm_dfa = d, fm_rule_count = unat mx + 1, fm_state_actions = sa, fm_actions = acts\<rparr>"
    by (auto simp: fse_compile_def split: if_splits)
  from lib [OF d] obtain q0 where q0: "df_start d = Ok q0"
    and mt: "\<And>w. df_is_match d (foldl (df_next d) q0 w) = (df_matches d (foldl (df_next d) q0 w) \<noteq> [])"
      "\<And>w. distinct (df_matches d (foldl (df_next d) q0 w))"
      "\<And>w. set (df_matches d (foldl (df_next d) q0 w)) = {i. i < length rules \<and> suffix (map ru_pattern rules ! i) w}"
    unfolding dfa_ok_def Let_def by auto
  have len: "length (df_matches d (foldl (df_next d) q0 w)) < 2 ^ 16" for w
  proof -
    have "length (df_matches d (foldl (df_next d) q0 w)) = card (set (df_matches d (foldl (df_next d) q0 w)))"
      using mt(2) by (simp add: distinct_card)
    also have "\<dots> \<le> card {..<length rules}" unfolding mt(3) by (intro card_mono) auto
    finally show ?thesis using small(1) by simp
  qed
  let ?sids = "bfs d [q0] [q0]"
  define sa0 where "sa0 = replicate (fold max (map unat ?sids) (unat q0) + 1) empty_range"
  have "range_of sa0 sid = empty_range" for sid by (simp only: range_of_def sa0_def length_replicate nth_replicate if_cancel cong: if_cong)
  then have "table_ok d ?ops {} sa0 []" by (simp add: table_ok_def empty_range_def)
  then have "\<exists>sa' acts'. fold_res (add_state d ?ops) ?sids (sa0, []) = Ok (sa', acts') \<and> length ([] :: packed_action list) \<le> length acts' \<and>
      (length acts' \<le> 2 ^ 32 - 1 \<longrightarrow> table_ok d ?ops (set ?sids \<union> {}) sa' acts')"
  proof (intro add_states_ok)
    fix sid assume "sid \<in> set ?sids"
    then obtain w where "sid = foldl (df_next d) q0 w" using bfs_reachable by blast
    then show "df_is_match d sid = (df_matches d sid \<noteq> []) \<and> (\<forall>i\<in>set (df_matches d sid). i < length ?ops) \<and>
        length (df_matches d sid) < 2 ^ 16" using mt(1,3) len by simp
  qed (use bfs_reaches(2) [of d q0] in simp_all)
  moreover have "fold_res (add_state d ?ops) ?sids (sa0, []) = Ok (sa, acts)"
    using tab q0 by (simp add: build_state_tables_def Let_def sa0_def)
  ultimately have table: "table_ok d ?ops (set ?sids) sa acts" using small(2) m by simp
  have acts: "\<exists>as. (actions_for_state m (foldl (df_next d) q0 w) :: (violation, packed_action list) res) = Ok as \<and>
      good_actions ?ops (df_matches d (foldl (df_next d) q0 w)) as" for w
  proof -
    let ?s = "foldl (df_next d) q0 w"
    have "?s \<in> set ?sids" by (rule bfs_reaches)
    with table have r: "ar_len (range_of sa ?s) \<noteq> 0 \<longrightarrow>
        unat (ar_start (range_of sa ?s)) + unat (ar_len (range_of sa ?s)) \<le> length acts"
      "good_actions ?ops (df_matches d ?s) (range_actions (range_of sa ?s) acts)"
      by (auto simp: table_ok_def Let_def)
    have "(actions_for_state m ?s :: (violation, packed_action list) res) = Ok (range_actions (range_of sa ?s) acts)"
      using r(1) by (cases "unat ?s < length sa")
        (simp_all add: actions_for_state_def m Let_def range_of_def range_actions_def empty_range_def slice_def)
    with r(2) show ?thesis by blast
  qed
  have "sound_map rules m q0"
    unfolding sound_map_def
  proof (intro conjI allI impI)
    fix rule_id assume "Op_Record rule_id \<in> ru_opcode ` set rules"
    then obtain r where r: "r \<in> set rules" "ru_opcode r = Op_Record rule_id" by auto
    then have "rule_id \<le> 65535" "rule_id \<le> mx" using check_rules_Ok [OF chk] by (auto simp: extract_rule_id_def split: fse_opcode.splits)
    then show "unat rule_id \<le> 65535" "unat rule_id < fm_rule_count m" using m by (simp_all add: word_le_nat_alt)
  next
    show "fm_rule_count m \<le> 65536" using check_rules_Ok [OF chk] m by (simp add: word_le_nat_alt)
  next
    fix w
    show "\<exists>as. (actions_for_state m (foldl (df_next (fm_dfa m)) q0 w) :: (violation, packed_action list) res) = Ok as \<and>
        good_actions ?ops (df_matches (fm_dfa m) (foldl (df_next (fm_dfa m)) q0 w)) as" using acts m by simp
  next
    fix w i
    show "(i \<in> set (df_matches (fm_dfa m) (foldl (df_next (fm_dfa m)) q0 w))) =
        (i < length rules \<and> suffix (ru_pattern (rules ! i)) w)" using mt(3) m by auto
  qed (use q0 m check_rules_Ok [OF chk] in auto)
  then show ?thesis by blast
qed

section \<open>A scan of one piece\<close>

lemma harmless_run:
  assumes "list_all (harmless ops) acts"
    and "\<And>rule_id. Op_Record rule_id \<in> set ops \<Longrightarrow> unat (ucast (drop_bit 6 rule_id) :: u16) < length (sc_rule_bits c)"
  shows "\<exists>c' hits'. run_actions details stop acts c hits = (c', hits', None) \<and> sc_sid c' = sc_sid c \<and>
    length (sc_rule_bits c') = length (sc_rule_bits c)"
  using assms
proof (induction acts arbitrary: c hits)
  case (Cons act acts)
  have rest: "list_all (harmless ops) acts" using Cons.prems(1) by simp
  have step: "\<exists>c' hits'. run_actions details stop acts c1 h = (c', hits', None) \<and> sc_sid c' = sc_sid c \<and>
      length (sc_rule_bits c') = length (sc_rule_bits c)"
    if "sc_sid c1 = sc_sid c" "length (sc_rule_bits c1) = length (sc_rule_bits c)" for c1 h
    using Cons.IH [OF rest, of c1 h] Cons.prems(2) that by simp
  from Cons.prems(1) consider "act = PA_Ignore" | "act = PA_Reset"
    | rule_id mk where "Op_Record rule_id \<in> set ops" "act = PA_Record (ucast (drop_bit 6 rule_id)) mk"
    by (auto simp: harmless_def)
  then show ?case
  proof cases
    case 1
    then show ?thesis using step by simp
  next
    case 2
    then show ?thesis using step [of "reset_rule_state c" "hits + 1"] by (simp add: reset_rule_state_def)
  next
    case 3
    then show ?thesis using step [of "record_rule (unat (ucast (drop_bit 6 rule_id) :: u16)) mk c" "hits + 1"] Cons.prems(2)
      by (simp add: record_rule_def Let_def)
  qed
qed simp

text \<open>The rules that reject a text the moment it is read to here.\<close>

definition rejected_by :: "fse_rule list \<Rightarrow> u8 list \<Rightarrow> nat \<Rightarrow> u32 \<Rightarrow> bool" where
  "rejected_by rules w i rule_id =
     (i < length rules \<and> ru_opcode (rules ! i) = Op_Reject rule_id \<and> suffix (ru_pattern (rules ! i)) w)"

definition cursor_at :: "fse_map \<Rightarrow> u32 \<Rightarrow> u8 list \<Rightarrow> scan_cursor \<Rightarrow> bool" where
  "cursor_at m q0 w c =
     (sc_sid c = foldl (df_next (fm_dfa m)) q0 w \<and> length (sc_rule_bits c) = (fm_rule_count m + 63) div 64)"

lemma record_in_range:
  assumes "sound_map rules m q0" "Op_Record rule_id \<in> ru_opcode ` set rules"
  shows "unat (ucast (drop_bit 6 rule_id) :: u16) < (fm_rule_count m + 63) div 64"
proof -
  have i: "unat rule_id \<le> 65535" "unat rule_id < fm_rule_count m"
    using assms unfolding sound_map_def by blast+
  have "unat (drop_bit 6 rule_id) = unat rule_id div 2 ^ 6" unfolding unat_drop_bit_eq by (rule drop_bit_eq_div)
  then have "unat (drop_bit 6 rule_id) = unat rule_id div 64" by simp
  then have "unat (ucast (drop_bit 6 rule_id) :: u16) = unat rule_id div 64"
    using i(1) by (simp add: unsigned_ucast_eq take_bit_nat_eq_self)
  with i(2) show ?thesis by linarith
qed

lemma scan_step:
  assumes s: "sound_map rules m q0" and c: "cursor_at m q0 w c"
  obtains acts where "(actions_for_state m (sc_sid c) :: (violation, packed_action list) res) = Ok acts"
    and "(\<exists>rejects others i rule_id len. acts = PA_Reject rule_id (word_of_nat i) len # others \<and> rejected_by rules w i rule_id) \<or>
      ((\<forall>i rule_id. \<not> rejected_by rules w i rule_id) \<and>
        (\<forall>details stop hits. \<exists>c' hits'. run_actions details stop acts c hits = (c', hits', None) \<and> cursor_at m q0 w c'))"
proof -
  let ?s = "foldl (df_next (fm_dfa m)) q0 w" and ?ops = "map ru_opcode rules"
  from s obtain acts where acts: "(actions_for_state m ?s :: (violation, packed_action list) res) = Ok acts"
    "good_actions ?ops (df_matches (fm_dfa m) ?s) acts" unfolding sound_map_def by blast
  have rej: "rejects_as ?ops (df_matches (fm_dfa m) ?s) i rule_id = rejected_by rules w i rule_id" for i rule_id
  proof -
    have "(i \<in> set (df_matches (fm_dfa m) ?s)) = (i < length rules \<and> suffix (ru_pattern (rules ! i)) w)"
      using s unfolding sound_map_def by blast
    then show ?thesis by (auto simp: rejects_as_def rejected_by_def)
  qed
  from acts(2) obtain rejects others where split: "acts = rejects @ others"
    "list_all (reject_of ?ops (df_matches (fm_dfa m) ?s)) rejects" "list_all (harmless ?ops) others"
    "(\<exists>i rule_id. rejected_by rules w i rule_id) \<longrightarrow> rejects \<noteq> []"
    unfolding good_actions_def rej by blast
  have sid: "sc_sid c = ?s" using c by (simp add: cursor_at_def)
  show thesis
  proof (cases rejects)
    case (Cons r rs)
    with split(2) obtain i rule_id len where "r = PA_Reject rule_id (word_of_nat i) len" "rejected_by rules w i rule_id"
      by (auto simp: reject_of_def rej)
    with that acts(1) sid split(1) Cons show thesis by auto
  next
    case Nil
    have run: "\<exists>c' hits'. run_actions details stop acts c hits = (c', hits', None) \<and> cursor_at m q0 w c'" for details stop hits
    proof -
      have "\<exists>c' hits'. run_actions details stop others c hits = (c', hits', None) \<and> sc_sid c' = sc_sid c \<and>
          length (sc_rule_bits c') = length (sc_rule_bits c)"
        by (rule harmless_run [OF split(3)]) (use record_in_range [OF s] c in \<open>auto simp: cursor_at_def\<close>)
      with c split(1) Nil show ?thesis by (auto simp: cursor_at_def)
    qed
    from split(4) Nil have "\<forall>i rule_id. \<not> rejected_by rules w i rule_id" by simp
    with that acts(1) sid run show thesis by simp
  qed
qed

text \<open>The outcome of a scan that starts after \<open>w\<close>: clean, or the first rejection.\<close>

definition scan_outcome :: "fse_rule list \<Rightarrow> u8 list \<Rightarrow> u8 list \<Rightarrow> nat \<Rightarrow> (violation, 'a) res \<Rightarrow> bool" where
  "scan_outcome rules w input pos r =
     (case r of
        Ok _ \<Rightarrow> \<forall>k i rule_id. 0 < k \<and> k \<le> length input \<longrightarrow> \<not> rejected_by rules (w @ take k input) i rule_id
      | Err v \<Rightarrow> \<exists>k i rule_id start. 0 < k \<and> k \<le> length input \<and>
          v = PolicyReject rule_id i start (pos + k) \<and> rejected_by rules (w @ take k input) i rule_id \<and>
          (\<forall>j i rule_id. 0 < j \<and> j < k \<longrightarrow> \<not> rejected_by rules (w @ take j input) i rule_id)
      | Panic \<Rightarrow> False)"

lemma scan_outcome_step:
  assumes "\<And>i rule_id. \<not> rejected_by rules (w @ [b]) i rule_id"
    and "scan_outcome rules (w @ [b]) input (pos + 1) r"
  shows "scan_outcome rules w (b # input) pos r"
proof -
  have first: "\<not> rejected_by rules (w @ take j (b # input)) i rule_id"
    if "0 < j" "j \<le> Suc 0" for i j rule_id
    using assms(1) that by (cases j) simp_all
  show ?thesis
  proof (cases r)
    case (Ok x)
    have "\<not> rejected_by rules (w @ take k (b # input)) i rule_id" if "0 < k" "k \<le> length (b # input)" for k i rule_id
    proof (cases "k \<le> Suc 0")
      case False
      then obtain k' where "k = Suc k'" "0 < k'" by (cases k) auto
      with assms(2) that Ok show ?thesis by (simp add: scan_outcome_def)
    qed (use first that in blast)
    with Ok show ?thesis by (simp add: scan_outcome_def)
  next
    case (Err v)
    with assms(2) obtain k i rule_id start where k: "0 < k" "k \<le> length input" "v = PolicyReject rule_id i start (pos + 1 + k)"
      "rejected_by rules ((w @ [b]) @ take k input) i rule_id"
      "\<And>j i rule_id. 0 < j \<Longrightarrow> j < k \<Longrightarrow> \<not> rejected_by rules ((w @ [b]) @ take j input) i rule_id"
      by (auto simp: scan_outcome_def)
    have "\<not> rejected_by rules (w @ take j (b # input)) i rule_id" if "0 < j" "j < Suc k" for j i rule_id
    proof (cases "j \<le> Suc 0")
      case False
      then obtain j' where "j = Suc j'" "0 < j'" by (cases j) auto
      with k(5) [of j'] that show ?thesis by simp
    qed (use first that in blast)
    moreover have "Suc k \<le> length (b # input)" "v = PolicyReject rule_id i start (pos + Suc k)"
      "rejected_by rules (w @ take (Suc k) (b # input)) i rule_id" using k by simp_all
    ultimately show ?thesis unfolding scan_outcome_def Err res.case by blast
  next
    case Panic
    with assms(2) show ?thesis by (simp add: scan_outcome_def)
  qed
qed

lemma scan_bytes_outcome:
  assumes "sound_map rules m q0" "length rules < 2 ^ 16" "cursor_at m q0 w c"
  shows "case scan_bytes details m pos input c seen hits of (c', r) \<Rightarrow>
    scan_outcome rules w input pos r \<and> (is_ok r \<longrightarrow> cursor_at m q0 (w @ input) c')"
  using assms(3)
proof (induction input arbitrary: w c pos seen hits)
  case Nil
  then show ?case by (simp add: scan_outcome_def)
next
  case (Cons b input)
  let ?c = "c\<lparr>sc_sid := df_next (fm_dfa m) (sc_sid c) b\<rparr>"
  have c: "cursor_at m q0 (w @ [b]) ?c" using Cons.prems by (simp add: cursor_at_def)
  have rest: "case scan_bytes details m (pos + 1) input c1 sn h of (c', r) \<Rightarrow>
      scan_outcome rules w (b # input) pos r \<and> (is_ok r \<longrightarrow> cursor_at m q0 (w @ b # input) c')"
    if "cursor_at m q0 (w @ [b]) c1" "\<And>i rule_id. \<not> rejected_by rules (w @ [b]) i rule_id" for c1 sn h
    using Cons.IH [OF that(1), of "pos + 1" sn h] scan_outcome_step [OF that(2)] by (auto split: prod.splits)
  obtain acts where acts: "(actions_for_state m (sc_sid ?c) :: (violation, packed_action list) res) = Ok acts"
    and alt: "(\<exists>rejects others i rule_id len. acts = PA_Reject rule_id (word_of_nat i) len # others \<and> rejected_by rules (w @ [b]) i rule_id) \<or>
      ((\<forall>i rule_id. \<not> rejected_by rules (w @ [b]) i rule_id) \<and>
        (\<forall>details stop hits. \<exists>c' hits'. run_actions details stop acts ?c hits = (c', hits', None) \<and> cursor_at m q0 (w @ [b]) c'))"
    by (rule scan_step [OF assms(1) c]) (rule that; assumption)
  from alt show ?case
  proof (elim disjE exE conjE)
    fix others i rule_id len
    assume r: "acts = PA_Reject rule_id (word_of_nat i) len # others" "rejected_by rules (w @ [b]) i rule_id"
    then have "unat (word_of_nat i :: u32) = i" using assms(2) by (simp add: rejected_by_def unat_of_nat)
    then have "scan_bytes details m pos (b # input) c seen hits = (?c, Err (PolicyReject rule_id i (pos + 1 - unat len) (pos + 1)))"
      using acts r(1) by (simp add: Let_def)
    moreover have "scan_outcome rules w (b # input) pos (Err (PolicyReject rule_id i (pos + 1 - unat len) (pos + 1)))"
      unfolding scan_outcome_def res.case
      by (intro exI [of _ 1] exI [of _ i] exI [of _ rule_id] exI [of _ "pos + 1 - unat len"]) (use r(2) in auto)
    ultimately show ?case by simp
  next
    assume clean: "\<forall>i rule_id. \<not> rejected_by rules (w @ [b]) i rule_id"
      and run: "\<forall>details stop hits. \<exists>c' hits'. run_actions details stop acts ?c hits = (c', hits', None) \<and> cursor_at m q0 (w @ [b]) c'"
    from run obtain c' hits' where "run_actions details (pos + 1) acts ?c hits = (c', hits', None)" "cursor_at m q0 (w @ [b]) c'"
      by blast
    then show ?case using acts rest [of c'] rest [OF c] clean by (cases "acts = []") (simp_all add: Let_def)
  qed
qed

lemma scan_text_outcome:
  assumes "sound_map rules m q0" "length rules < 2 ^ 16" "cursor_at m q0 w c"
  shows "case scan_text details m c input of (c', r) \<Rightarrow>
    scan_outcome rules w input 0 r \<and> (is_ok r \<longrightarrow> cursor_at m q0 (w @ input) c')"
  using scan_bytes_outcome [OF assms, where details = details and pos = 0 and input = input and seen = 0 and hits = 0]
  by (auto simp: scan_text_def scan_outcome_def split: prod.splits res.splits)

lemma new_cursor_at:
  assumes "sound_map rules m q0"
  shows "\<exists>c. new_cursor m = Ok c \<and> cursor_at m q0 [] c"
proof -
  have "fm_rule_count m \<le> 65536" "df_start (fm_dfa m) = Ok q0" using assms unfolding sound_map_def by blast+
  then show ?thesis by (simp add: new_cursor_def cursor_at_def u64_range_def)
qed

section \<open>The text gate\<close>

text \<open>
  \<open>src/src/fse_control.rs\<close>: the control keeps the cursor and the number of bytes it has
  scanned; on each call only what was appended is scanned, and the count moves only when
  the scan was clean. Slicing past the end of a shorter text is a panic.
\<close>

record fse_control =
  fc_map :: fse_map
  fc_cursor :: scan_cursor
  fc_bytes_consumed :: nat

datatype gate_decision = Allow | EarlyExit | BlockAndTerminate string | ForceToken nat

definition fse_new :: "fse_map \<Rightarrow> (string, fse_control) res" where
  "fse_new m =
     and_then (map_err (\<lambda>e. ''FseControl: failed to init cursor: failed to get start state: '' @ e) (new_cursor m)) (\<lambda>cursor.
     Ok \<lparr>fc_map = m, fc_cursor = cursor, fc_bytes_consumed = 0\<rparr>)"

definition fse_reset :: "fse_control \<Rightarrow> fse_control \<times> (string, unit) res" where
  "fse_reset f =
     (case map_err (\<lambda>e. ''FseControl::reset: failed to get start state: '' @ e) (new_cursor (fc_map f)) of
        Ok fresh \<Rightarrow> (f\<lparr>fc_cursor := fresh, fc_bytes_consumed := 0\<rparr>, Ok ())
      | Err e \<Rightarrow> (f, Err e)
      | Panic \<Rightarrow> (f, Panic))"

definition fse_intervene :: "fse_control \<Rightarrow> u8 list \<Rightarrow> fse_control \<times> (string, gate_decision) res" where
  "fse_intervene f text_bytes =
     (if length text_bytes < fc_bytes_consumed f then (f, Panic)
      else
        let delta = drop (fc_bytes_consumed f) text_bytes in
        if delta = [] then (f, Ok Allow)
        else (case scan_with_cursor (fc_map f) (fc_cursor f) delta of
            (cursor, Ok _) \<Rightarrow> (f\<lparr>fc_cursor := cursor, fc_bytes_consumed := length text_bytes\<rparr>, Ok Allow)
          | (cursor, Err v) \<Rightarrow> (f\<lparr>fc_cursor := cursor\<rparr>, Ok (BlockAndTerminate (''FSE policy violation: '' @ violation_text v)))
          | (cursor, Panic) \<Rightarrow> (f\<lparr>fc_cursor := cursor\<rparr>, Panic)))"

text \<open>The calls of one generation, until a decision is not \<open>Allow\<close>.\<close>

fun fse_run :: "fse_control \<Rightarrow> u8 list list \<Rightarrow> fse_control \<times> (string, gate_decision) res" where
  "fse_run f [] = (f, Ok Allow)"
| "fse_run f (w # ws) =
     (case fse_intervene f w of
        (f, Ok Allow) \<Rightarrow> fse_run f ws
      | (f, r) \<Rightarrow> (f, r))"

definition clean_text :: "fse_rule list \<Rightarrow> u8 list \<Rightarrow> bool" where
  "clean_text rules w =
     (\<forall>r\<in>set rules. case ru_opcode r of Op_Reject _ \<Rightarrow> \<not> sublist (ru_pattern r) w | _ \<Rightarrow> True)"

text \<open>Each call sees the text of the one before it, or more.\<close>

fun growing :: "u8 list \<Rightarrow> u8 list list \<Rightarrow> bool" where
  "growing w [] = True"
| "growing w (v # vs) = (prefix w v \<and> growing v vs)"

lemma sublist_take_suffix:
  assumes "p \<noteq> []"
  shows "sublist p w \<longleftrightarrow> (\<exists>k. 0 < k \<and> k \<le> length w \<and> suffix p (take k w))"
proof
  assume "sublist p w"
  then obtain ps ss where w: "w = ps @ p @ ss" by (auto simp: sublist_def)
  then have "suffix p (take (length ps + length p) w)" by (simp add: suffix_def)
  then show "\<exists>k. 0 < k \<and> k \<le> length w \<and> suffix p (take k w)"
    using assms w by (intro exI [of _ "length ps + length p"]) simp
next
  assume "\<exists>k. 0 < k \<and> k \<le> length w \<and> suffix p (take k w)"
  then obtain k zs where "take k w = zs @ p" by (auto simp: suffix_def)
  then have "w = zs @ p @ drop k w" by (metis append_assoc append_take_drop_id)
  then show "sublist p w" by (auto simp: sublist_def)
qed

lemma sublist_grow: "sublist p w \<Longrightarrow> prefix w v \<Longrightarrow> sublist p v"
  unfolding sublist_def prefix_def by (metis append_assoc)

lemma clean_iff:
  assumes "\<forall>r\<in>set rules. ru_pattern r \<noteq> []"
  shows "clean_text rules w \<longleftrightarrow> (\<forall>k i rule_id. 0 < k \<and> k \<le> length w \<longrightarrow> \<not> rejected_by rules (take k w) i rule_id)"
proof -
  have "clean_text rules w \<longleftrightarrow> (\<forall>i<length rules. \<forall>rule_id. ru_opcode (rules ! i) = Op_Reject rule_id \<longrightarrow>
      \<not> sublist (ru_pattern (rules ! i)) w)"
    by (auto simp: clean_text_def all_set_conv_all_nth split: fse_opcode.splits)
  also have "\<dots> \<longleftrightarrow> (\<forall>i<length rules. \<forall>rule_id. ru_opcode (rules ! i) = Op_Reject rule_id \<longrightarrow>
      \<not> (\<exists>k. 0 < k \<and> k \<le> length w \<and> suffix (ru_pattern (rules ! i)) (take k w)))"
    using assms by (auto simp: sublist_take_suffix)
  finally show ?thesis by (auto simp: rejected_by_def)
qed

lemma clean_append:
  assumes "\<forall>r\<in>set rules. ru_pattern r \<noteq> []" "clean_text rules w"
  shows "clean_text rules (w @ input) \<longleftrightarrow>
    (\<forall>k i rule_id. 0 < k \<and> k \<le> length input \<longrightarrow> \<not> rejected_by rules (w @ take k input) i rule_id)"
proof
  assume c: "clean_text rules (w @ input)"
  show "\<forall>k i rule_id. 0 < k \<and> k \<le> length input \<longrightarrow> \<not> rejected_by rules (w @ take k input) i rule_id"
  proof (intro allI impI)
    fix k i rule_id assume "0 < k \<and> k \<le> length input"
    with c show "\<not> rejected_by rules (w @ take k input) i rule_id"
      unfolding clean_iff [OF assms(1)] by (auto dest: spec [of _ "length w + k"])
  qed
next
  assume r: "\<forall>k i rule_id. 0 < k \<and> k \<le> length input \<longrightarrow> \<not> rejected_by rules (w @ take k input) i rule_id"
  show "clean_text rules (w @ input)"
    unfolding clean_iff [OF assms(1)]
  proof (intro allI impI)
    fix k i rule_id assume k: "0 < k \<and> k \<le> length (w @ input)"
    show "\<not> rejected_by rules (take k (w @ input)) i rule_id"
    proof (cases "k \<le> length w")
      case True
      with assms(2) k show ?thesis unfolding clean_iff [OF assms(1)] by simp
    next
      case False
      with r k show ?thesis by (auto dest: spec [of _ "k - length w"])
    qed
  qed
qed

definition gate_at :: "fse_rule list \<Rightarrow> fse_map \<Rightarrow> u32 \<Rightarrow> u8 list \<Rightarrow> fse_control \<Rightarrow> bool" where
  "gate_at rules m q0 w f =
     (fc_map f = m \<and> cursor_at m q0 w (fc_cursor f) \<and> fc_bytes_consumed f = length w \<and> clean_text rules w)"

definition block_message :: "u32 \<Rightarrow> string" where
  "block_message rule_id = ''FSE policy violation: Policy Violation: Rule '' @ dec (unat rule_id)"

definition blocked :: "fse_rule list \<Rightarrow> u8 list \<Rightarrow> (string, gate_decision) res \<Rightarrow> bool" where
  "blocked rules w r =
     (\<exists>rule\<in>set rules. \<exists>rule_id. ru_opcode rule = Op_Reject rule_id \<and> sublist (ru_pattern rule) w \<and>
        r = Ok (BlockAndTerminate (block_message rule_id)))"

lemma fse_intervene_step:
  assumes s: "sound_map rules m q0" "length rules < 2 ^ 16" and f: "gate_at rules m q0 w f" and v: "prefix w v"
  shows "(\<exists>f'. fse_intervene f v = (f', Ok Allow) \<and> gate_at rules m q0 v f') \<or>
    (\<exists>f' r. fse_intervene f v = (f', r) \<and> blocked rules v r)"
proof -
  from v obtain delta where v: "v = w @ delta" by (auto simp: prefix_def)
  have ne: "\<forall>r\<in>set rules. ru_pattern r \<noteq> []" using s(1) unfolding sound_map_def by blast
  have cl: "clean_text rules w" and f': "fc_map f = m" "cursor_at m q0 w (fc_cursor f)" "fc_bytes_consumed f = length w"
    using f by (simp_all add: gate_at_def)
  show ?thesis
  proof (cases "delta = []")
    case True
    then show ?thesis using f f' v by (simp add: fse_intervene_def)
  next
    case False
    obtain c' r where scan: "scan_with_cursor m (fc_cursor f) delta = (c', r)" by (metis surj_pair)
    have o: "scan_outcome rules w delta 0 r" "is_ok r \<longrightarrow> cursor_at m q0 (w @ delta) c'"
      using scan_text_outcome [OF s f'(2)] scan unfolding scan_with_cursor_def
      by (metis (no_types, lifting) case_prod_conv)+
    show ?thesis
    proof (cases r)
      case (Ok su)
      then have "clean_text rules v" using o(1) unfolding v clean_append [OF ne cl] by (simp add: scan_outcome_def)
      then show ?thesis using Ok o(2) scan f' False v by (simp add: fse_intervene_def gate_at_def)
    next
      case (Err e)
      with o(1) obtain k i rule_id start where r: "e = PolicyReject rule_id i start k" "rejected_by rules (w @ take k delta) i rule_id"
        by (auto simp: scan_outcome_def)
      then have "suffix (ru_pattern (rules ! i)) (w @ take k delta)" by (simp add: rejected_by_def)
      then have "sublist (ru_pattern (rules ! i)) (w @ take k delta)" by (rule suffix_imp_sublist)
      then have "sublist (ru_pattern (rules ! i)) ((w @ take k delta) @ drop k delta)"
        by (rule sublist_grow) (rule prefixI [OF refl])
      then have "blocked rules v (Ok (BlockAndTerminate (block_message rule_id)))"
        using r(2) v unfolding blocked_def by (intro bexI [of _ "rules ! i"]) (simp_all add: rejected_by_def)
      then show ?thesis using Err r(1) scan f' False v
        by (simp add: fse_intervene_def block_message_def violation_text_def)
    next
      case Panic
      with o(1) show ?thesis by (simp add: scan_outcome_def)
    qed
  qed
qed

lemma growing_last: "growing w ws \<Longrightarrow> prefix w (last (w # ws))"
proof (induction ws arbitrary: w)
  case (Cons v ws)
  then have "prefix w v" "prefix v (last (v # ws))" by simp_all
  then show ?case using prefix_order.trans by fastforce
qed simp

lemma blocked_grow: "blocked rules w r \<Longrightarrow> prefix w v \<Longrightarrow> blocked rules v r"
  unfolding blocked_def using sublist_grow by blast

lemma blocked_unclean: "blocked rules w r \<Longrightarrow> \<not> clean_text rules w \<and> r \<noteq> Ok Allow"
  unfolding blocked_def clean_text_def by (auto intro!: bexI split: fse_opcode.splits)

lemma fse_run_gate:
  assumes s: "sound_map rules m q0" "length rules < 2 ^ 16" and "gate_at rules m q0 w f" "growing w ws"
  shows "snd (fse_run f ws) = Ok Allow \<and> clean_text rules (last (w # ws)) \<or> blocked rules (last (w # ws)) (snd (fse_run f ws))"
  using assms(3,4)
proof (induction ws arbitrary: w f)
  case Nil
  then show ?case by (simp add: gate_at_def)
next
  case (Cons v ws)
  from Cons.prems have v: "prefix w v" "growing v ws" by simp_all
  have l: "last (w # v # ws) = last (v # ws)" by simp
  from fse_intervene_step [OF s Cons.prems(1) v(1)] show ?case
  proof (elim disjE exE conjE)
    fix f' assume "fse_intervene f v = (f', Ok Allow)" "gate_at rules m q0 v f'"
    with Cons.IH [OF this(2) v(2)] show ?thesis unfolding l by simp
  next
    fix f' r assume i: "fse_intervene f v = (f', r)" and b: "blocked rules v r"
    from b have "snd (fse_run f (v # ws)) = r"
      using i by (auto simp: blocked_def)
    moreover have "blocked rules (last (v # ws)) r" by (rule blocked_grow [OF b growing_last [OF v(2)]])
    ultimately show ?thesis unfolding l by simp
  qed
qed

text \<open>
  C16: Over the calls of one generation, each with the text so far, the gate allows everything
  exactly when no forbidden pattern occurs anywhere in the text, however it was cut into
  calls; otherwise it terminates naming a rule whose pattern does occur. It never panics.
\<close>

lemma fse_run_decides:
  assumes "fse_compile dfa_new rules = Ok m"
    and "\<And>d. dfa_new (map ru_pattern rules) = Ok d \<Longrightarrow> dfa_ok (map ru_pattern rules) d"
    and "length rules < 2 ^ 16" "length (fm_actions m) < 2 ^ 32" and "growing [] texts"
  shows "\<exists>f. fse_new m = Ok f \<and>
    (snd (fse_run f texts) = Ok Allow \<longleftrightarrow> clean_text rules (last ([] # texts))) \<and>
    (snd (fse_run f texts) \<noteq> Ok Allow \<longrightarrow>
      (\<exists>rule\<in>set rules. \<exists>rule_id. ru_opcode rule = Op_Reject rule_id \<and> sublist (ru_pattern rule) (last ([] # texts)) \<and>
        snd (fse_run f texts) = Ok (BlockAndTerminate (block_message rule_id))))"
proof -
  obtain q0 where s: "sound_map rules m q0" using compiled_sound [OF assms(1-4)] by blast
  obtain c where c: "new_cursor m = Ok c" "cursor_at m q0 [] c" using new_cursor_at [OF s] by blast
  define f where "f = \<lparr>fc_map = m, fc_cursor = c, fc_bytes_consumed = 0\<rparr>"
  have ne: "\<forall>r\<in>set rules. ru_pattern r \<noteq> []" using s unfolding sound_map_def by blast
  have "clean_text rules []" unfolding clean_iff [OF ne] by simp
  then have "gate_at rules m q0 [] f" using c(2) by (simp add: gate_at_def f_def)
  from fse_run_gate [OF s assms(3) this assms(5)]
  have "snd (fse_run f texts) = Ok Allow \<and> clean_text rules (last ([] # texts)) \<or>
    blocked rules (last ([] # texts)) (snd (fse_run f texts))" .
  moreover have "fse_new m = Ok f" using c(1) by (simp add: fse_new_def f_def)
  ultimately show ?thesis using blocked_unclean unfolding blocked_def by blast
qed

text \<open>The automaton of one single-byte pattern, and a text that holds it in its second piece.\<close>

definition byte_dfa :: "u8 \<Rightarrow> dfa" where
  "byte_dfa x = \<lparr>df_start = Ok 0, df_next = (\<lambda>q b. if b = x then 1 else 0), df_is_match = (\<lambda>q. q = 1),
     df_matches = (\<lambda>q. if q = 1 then [0] else []), df_pattern_len = (\<lambda>_. 1)\<rparr>"

lemma byte_dfa_ok: "dfa_ok [[x]] (byte_dfa x)"
proof -
  have "foldl (df_next (byte_dfa x)) 0 w = (if suffix [x] w then 1 else 0)" for w
    by (induction w rule: rev_induct) (auto simp: byte_dfa_def suffix_def)
  then have "foldl (\<lambda>q b. if b = x then 1 else 0) (0 :: u32) w = (if suffix [x] w then 1 else 0)" for w
    by (simp add: byte_dfa_def)
  then show ?thesis by (auto simp: dfa_ok_def byte_dfa_def Let_def)
qed

lemma found_nothing: "{0, 1} \<subseteq> set seen \<union> set new \<Longrightarrow> fold (found (byte_dfa x) sid seen) bs new = new"
  by (induction bs) (simp_all add: found_def byte_dfa_def)

lemma discover_byte: "discover (byte_dfa 33) 0 [0] = [1]"
  by code_simp

lemma byte_states: "bfs (byte_dfa 33) [0] [0] = [0, 1]"
  using found_nothing [of "[0, 1]" "[]" 33 1 "map word_of_nat [0..<256]"]
  by (simp add: discover_byte discover_def [of _ 1])

definition byte_map :: fse_map where
  "byte_map = \<lparr>fm_dfa = byte_dfa 33, fm_rule_count = 4,
     fm_state_actions = [empty_range, \<lparr>ar_start = 0, ar_len = 1\<rparr>], fm_actions = [PA_Reject 3 0 1]\<rparr>"

lemma byte_selectors:
  "df_start (byte_dfa x) = Ok 0" "df_is_match (byte_dfa x) q = (q = 1)"
  "df_matches (byte_dfa x) q = (if q = 1 then [0] else [])" "df_pattern_len (byte_dfa x) i = 1"
  by (simp_all add: byte_dfa_def)

lemma byte_map_compiled:
  "fse_compile (\<lambda>_. Ok (byte_dfa 33)) [\<lparr>ru_pattern = [33], ru_opcode = Op_Reject 3\<rparr>] = Ok byte_map"
proof -
  have "build_state_tables (byte_dfa 33) [Op_Reject 3] =
      Ok ([empty_range, \<lparr>ar_start = 0, ar_len = 1\<rparr>], [PA_Reject 3 0 1])"
    by (simp add: build_state_tables_def byte_selectors byte_states add_state_def add_match_def ok_or_def
      empty_range_def Let_def del: bfs.simps)
  then show ?thesis
    by (simp add: fse_compile_def check_rule_def extract_rule_id_def max_allowed_rule_id_def byte_map_def Let_def)
qed

theorem fse_run_decides_witness:
  "\<exists>f. fse_new byte_map = Ok f \<and>
    snd (fse_run f [[72], [72, 105, 33], [72, 105, 33, 10]]) = Ok (BlockAndTerminate (block_message 3))"
proof -
  let ?rules = "[\<lparr>ru_pattern = [33], ru_opcode = Op_Reject 3\<rparr>]" and ?texts = "[[72], [72, 105, 33], [72, 105, 33, 10]] :: u8 list list"
  have "growing [] ?texts" "length (fm_actions byte_map) < 2 ^ 32" by (simp_all add: byte_map_def)
  moreover have "dfa_ok (map ru_pattern ?rules) d" if "Ok (byte_dfa 33) = (Ok d :: (string, dfa) res)" for d
    using that byte_dfa_ok [of 33] by auto
  moreover have "\<not> clean_text ?rules (last ([] # ?texts))"
    using sublist_appendI [of "[33 :: u8]" "[72, 105]" "[10]"] by (simp add: clean_text_def)
  ultimately show ?thesis
    using fse_run_decides [OF byte_map_compiled, of ?texts] by (auto simp del: fse_run.simps)
qed

end
