(* ===== verification/Session.thy ===== *)
theory Session
  imports Generation Forward Sampling Policy_Scan
begin

text \<open>
  \<open>generate\<close> of \<open>src/src/runtime/gpu.rs\<close>: the checks of a request, the closures it gives to
  the inference fabric, and how its result is read. The closures share the runtime's state:
  the cache and its controller, the first error of the execution, the random generator, and
  whatever the GPU and the caller's hooks keep (\<open>rt_ext\<close>). The execution, the dequantisation
  of a row and the tokenizer may panic (a lost device, a row past the bound chunks). A panic
  inside a closure unwinds the whole call: nothing runs after it but the drop of the request,
  and it poisons the gate of the generations, which is held during a call: \<open>rt_panicked\<close>.
\<close>

section \<open>Controls\<close>

text \<open>\<open>ChainControl\<close>: the first decision that is not \<open>Allow\<close>.\<close>

type_synonym 'x control = "'x \<Rightarrow> nat \<Rightarrow> string \<Rightarrow> nat \<Rightarrow> u32 list \<Rightarrow> nat \<Rightarrow> 'x \<times> gate_decision"

fun chain_control :: "'x control list \<Rightarrow> 'x control" where
  "chain_control [] x candidate txt step ids kv_len = (x, Allow)"
| "chain_control (c # cs) x candidate txt step ids kv_len =
     (case c x candidate txt step ids kv_len of
        (x, Allow) \<Rightarrow> chain_control cs x candidate txt step ids kv_len
      | (x, d) \<Rightarrow> (x, d))"

definition noop_control :: "'x control" where
  "noop_control x candidate txt step ids kv_len = (x, Allow)"

section \<open>Requests\<close>

datatype execution_error =
    EX_Request string string
  | EX_State state_error
  | EX_Gpu string
  | EX_Scheduler string string

datatype run_error =
    RE_Model model_error
  | RE_Execution execution_error
  | RE_State state_error
  | RE_Tokenizer string
  | RE_Text string

datatype finish_reason = FR_Stop | FR_Length

record generation_output =
  gn_text :: string
  gn_prompt_tokens :: nat
  gn_completion_tokens :: nat
  gn_finish_reason :: finish_reason

datatype generation_input = GI_Text string | GI_Token_Ids "u32 list"

record sampling_params =
  sp_max_tokens :: nat
  sp_temperature :: f32
  sp_top_p :: f32
  sp_repetition_penalty :: f32
  sp_seed :: u64
  sp_extra_stop_tokens :: "string list"

text \<open>
  The runtime's constant parts: the forward pass (\<open>ru_forward\<close>, without the bound request),
  the execution on the GPU and the dequantisation of a row (\<open>None\<close> when it panics), the
  tokenizer's functions, the clock, and \<open>exp\<close> and the sort of the standard library.
\<close>

record 'x gpu_runtime =
  ru_forward :: forward_env
  ru_exec :: "('x, f32 list \<times> f32 list) execution"
  ru_dequant :: "'x \<Rightarrow> u32 \<Rightarrow> u32 \<Rightarrow> 'x \<times> f32 list option"
  ru_spec :: model_spec
  ru_encode :: "string \<Rightarrow> (string, u32 list) res"
  ru_encode_stop :: "string \<Rightarrow> u32 list option"
  ru_decode :: "u32 \<Rightarrow> string option"
  ru_eos_token :: u32
  ru_embd_offset :: nat
  ru_row_bytes :: nat
  ru_tdr_budget_ms :: nat
  ru_exp :: "f32 \<Rightarrow> f32"
  ru_sort_desc :: "(nat \<times> f32) list \<Rightarrow> (nat \<times> f32) list"
  ru_elapsed_ms :: "'x \<Rightarrow> 'x \<Rightarrow> u32"

record 'x runtime =
  rt_cache :: gpu_cache
  rt_bound :: "bound_request option"
  rt_error :: "execution_error option"
  rt_rng :: u64
  rt_panicked :: bool
  rt_ext :: 'x

record 'x session_hooks =
  hk_modify_logits :: "('x \<Rightarrow> f32 list \<Rightarrow> 'x \<times> f32 list) option"
  hk_control :: "'x control option"
  hk_trace :: "('x \<Rightarrow> nat \<Rightarrow> f32 list \<Rightarrow> u32 \<Rightarrow> 'x) option"
  hk_on_token :: "('x \<Rightarrow> string \<Rightarrow> 'x) option"

definition validate_prompt_ids :: "u32 list \<Rightarrow> nat \<Rightarrow> nat \<Rightarrow> (string, unit) res" where
  "validate_prompt_ids ids vocab context_size =
     (if ids = [] then Err ''invalid_prompt_tokens: empty prompt''
      else if context_size < length ids then Err ''invalid_prompt_tokens: prompt exceeds context''
      else if list_ex (\<lambda>i. vocab \<le> unat i) ids then Err ''invalid_prompt_tokens: token outside vocabulary''
      else Ok ())"

definition encode_prompt :: "'x gpu_runtime \<Rightarrow> string \<Rightarrow> (execution_error, u32 list) res" where
  "encode_prompt ru txt =
     and_then (map_err (EX_Request ''tokenization_failed'') (ru_encode ru txt)) (\<lambda>ids.
     if ids = [] \<or> n_ctx (ru_spec ru) < length ids \<or> list_ex (\<lambda>i. n_vocab (ru_spec ru) \<le> unat i) ids
     then Err (EX_Request ''invalid_prompt_tokens'' ''prompt must fit model vocabulary and context'') else Ok ids)"

definition prompt_of :: "'x gpu_runtime \<Rightarrow> generation_input \<Rightarrow> (run_error, u32 list) res" where
  "prompt_of ru inp =
     (case inp of
        GI_Text prompt \<Rightarrow> map_err RE_Tokenizer (ru_encode ru prompt)
      | GI_Token_Ids ids \<Rightarrow>
          and_then (map_err RE_Text (validate_prompt_ids ids (n_vocab (ru_spec ru)) (n_ctx (ru_spec ru)))) (\<lambda>_. Ok ids))"

definition request_error :: "string \<Rightarrow> string \<Rightarrow> run_error" where
  "request_error code detail = RE_Execution (EX_Request code detail)"

definition check_request :: "'x gpu_runtime \<Rightarrow> generation_input \<Rightarrow> sampling_params \<Rightarrow> (run_error, u32 list) res" where
  "check_request ru inp p =
     and_then (map_err RE_Model (validate_kernel_configuration (fw_parse_f32 (ru_forward ru)) (fw_env (ru_forward ru)))) (\<lambda>_.
     and_then (prompt_of ru inp) (\<lambda>ids.
     if ids = [] \<or> n_ctx (ru_spec ru) < length ids \<or> list_ex (\<lambda>i. n_vocab (ru_spec ru) \<le> unat i) ids
     then Err (request_error ''invalid_prompt_tokens'' ''prompt must be nonempty, within vocabulary and context'')
     else if \<not> f32_is_finite (sp_temperature p) \<or> f32_lt (sp_temperature p) 0 \<or>
       \<not> f32_is_finite (sp_top_p p) \<or> f32_le (sp_top_p p) 0 \<or> f32_lt f32_one (sp_top_p p) \<or>
       \<not> f32_is_finite (sp_repetition_penalty p) \<or> f32_le (sp_repetition_penalty p) 0 \<or> 2 ^ 32 \<le> sp_max_tokens p
     then Err (request_error ''invalid_sampling_parameters'' ''invalid sampling range or nonfinite value'')
     else (case checked_add (length ids) (sp_max_tokens p - 1) of
        None \<Rightarrow> Err (request_error ''context_length_exceeded'' ''prompt plus requested generation exceeds state capacity'')
      | Some stop \<Rightarrow>
          if n_ctx (ru_spec ru) < stop
          then Err (request_error ''context_length_exceeded'' ''prompt plus requested generation exceeds state capacity'')
          else Ok ids)))"

definition stop_token :: "'x gpu_runtime \<Rightarrow> string \<Rightarrow> u32 option" where
  "stop_token ru s = (case ru_encode_stop ru s of Some [t] \<Rightarrow> Some t | _ \<Rightarrow> None)"

definition prefill_chunk :: "environment \<Rightarrow> u32" where
  "prefill_chunk env =
     (case env ''SHIMMY_PREFILL_CHUNK'' of
        Env_Value s \<Rightarrow> (case parse_usize s of Some n \<Rightarrow> if n < 2 ^ 32 then word_of_nat n else 512 | None \<Rightarrow> 512)
      | _ \<Rightarrow> 512)"

section \<open>The closures\<close>

definition first_error :: "execution_error \<Rightarrow> 'x runtime \<Rightarrow> 'x runtime" where
  "first_error e rt = (case rt_error rt of None \<Rightarrow> rt\<lparr>rt_error := Some e\<rparr> | Some _ \<Rightarrow> rt)"

definition panicked :: "'x runtime \<Rightarrow> 'x runtime" where
  "panicked rt = rt\<lparr>rt_panicked := True\<rparr>"

text \<open>The row of a token: its address is cut to 32 bits.\<close>

definition row_offset :: "'x gpu_runtime \<Rightarrow> u32 \<Rightarrow> u32" where
  "row_offset ru token_id = word_of_nat (wadd (ru_embd_offset ru) (wmul (unat token_id) (ru_row_bytes ru)))"

definition dequant_row :: "'x gpu_runtime \<Rightarrow> 'x runtime \<Rightarrow> u32 \<Rightarrow> u32 \<Rightarrow> 'x runtime \<times> f32 list" where
  "dequant_row ru rt token_id dim1 =
     (case ru_dequant ru (rt_ext rt) (row_offset ru token_id) dim1 of
        (x, Some row) \<Rightarrow> (rt\<lparr>rt_ext := x\<rparr>, row)
      | (x, None) \<Rightarrow> (panicked (rt\<lparr>rt_ext := x\<rparr>), []))"

text \<open>What both passes do with their result: an error empties the cache and is kept.\<close>

definition read_result ::
    "(f32 list \<times> f32 list) str_res \<Rightarrow> 'x runtime \<Rightarrow> 'x runtime \<times> f32 list \<times> f32 list" where
  "read_result r rt =
     (case r of
        Ok (hidden, logits) \<Rightarrow>
          if logits \<noteq> [] \<and> list_all f32_is_finite logits then (rt, hidden, logits)
          else (first_error (EX_Gpu ''nonfinite or empty GPU logits'') (rt\<lparr>rt_cache := cache_reset (rt_cache rt)\<rparr>), [], [])
      | Err e \<Rightarrow> (first_error (EX_Gpu e) (rt\<lparr>rt_cache := cache_reset (rt_cache rt)\<rparr>), [], [])
      | Panic \<Rightarrow> (panicked rt, [], []))"

definition set_extent :: "nat \<Rightarrow> 'x runtime \<Rightarrow> 'x runtime" where
  "set_extent i rt =
     (case gk_owner (rt_cache rt) of
        None \<Rightarrow> panicked rt
      | Some c \<Rightarrow>
          (case cache_set_seq_len (word_of_nat (sl_processed (cw_leases c ! i))) (rt_cache rt) :: (string, gpu_cache) res of
             Ok g \<Rightarrow> rt\<lparr>rt_cache := g\<rparr>
           | _ \<Rightarrow> panicked rt))"

text \<open>A pass over the rows \<open>embd\<close> from \<open>pos\<close>, in chunks, for the lease \<open>i\<close>.\<close>

definition pass ::
    "'x gpu_runtime \<Rightarrow> nat \<Rightarrow> u32 \<Rightarrow> 'x runtime \<Rightarrow> f32 list \<Rightarrow> u32 \<Rightarrow> 'x runtime \<times> f32 list \<times> f32 list" where
  "pass ru i chunk rt embd pos =
     (case gk_owner (rt_cache rt) of
        None \<Rightarrow> (panicked rt, [], [])
      | Some c \<Rightarrow>
          (let g = rt_cache rt;
               ((c, x), r) = run_prefill_chunked ((ru_forward ru)\<lparr>fw_bound := rt_bound rt\<rparr>) (ru_exec ru) (ru_spec ru) embd pos
                 (Some (gk_k g, gk_v g)) chunk (c, rt_ext rt);
               (rt, hidden, logits) = read_result r (rt\<lparr>rt_cache := g\<lparr>gk_owner := Some c\<rparr>, rt_ext := x\<rparr>)
           in (if rt_panicked rt then rt else set_extent i rt, hidden, logits)))"

definition prefill_call ::
    "'x gpu_runtime \<Rightarrow> nat \<Rightarrow> 'x runtime \<Rightarrow> f32 list \<Rightarrow> u32 \<Rightarrow> 'x runtime \<times> f32 list \<times> f32 list" where
  "prefill_call ru i rt batched token_count = pass ru i (prefill_chunk (fw_env (ru_forward ru))) rt batched 0"

text \<open>\<open>as u32\<close> of a float truncates and saturates.\<close>

definition f32_as_u32 :: "f32 \<Rightarrow> u32" where
  "f32_as_u32 v =
     (case decode v of
        FNan \<Rightarrow> 0
      | FInf s \<Rightarrow> if s then 0 else - 1
      | FFin s m e \<Rightarrow>
          if s then 0
          else (let n = (if 0 \<le> e then m * 2 ^ nat e else m div 2 ^ nat (- e)) in
                if 2 ^ 32 \<le> n then - 1 else word_of_nat n))"

definition forward_call ::
    "'x gpu_runtime \<Rightarrow> nat \<Rightarrow> 'x runtime \<Rightarrow> f32 list \<Rightarrow> u32 \<Rightarrow> 'x runtime \<times> f32 list \<times> f32 list" where
  "forward_call ru i rt token_data current_pos =
     (case token_data of
        [] \<Rightarrow> (panicked rt, [], [])
      | t # _ \<Rightarrow>
          (let (rt, row) = dequant_row ru rt (f32_as_u32 t) (word_of_nat (n_embd (ru_spec ru)))
           in if rt_panicked rt then (rt, [], []) else pass ru i 1 rt row current_pos))"

definition sample_call ::
    "'x gpu_runtime \<Rightarrow> sampling_params \<Rightarrow> 'x runtime \<Rightarrow> f32 list \<Rightarrow> u32 list \<Rightarrow> 'x runtime \<times> f32 list \<times> u32" where
  "sample_call ru p rt logits recent =
     (case sample_token (ru_exp ru) (ru_sort_desc ru) logits (sp_temperature p) (sp_top_p p) (sp_repetition_penalty p)
             recent (rt_rng rt) of
        Ok (token_id, logits, rng) \<Rightarrow> (rt\<lparr>rt_rng := rng\<rparr>, logits, token_id)
      | _ \<Rightarrow> (panicked rt, logits, 0))"

definition f32_infinity :: f32 where "f32_infinity = 0x7F800000"

definition mask_call :: "'x session_hooks \<Rightarrow> 'x runtime \<Rightarrow> f32 list \<Rightarrow> 'x runtime \<times> f32 list" where
  "mask_call h rt logits =
     (let (rt, logits) = (case hk_modify_logits h of
            Some m \<Rightarrow> (let (x, logits) = m (rt_ext rt) logits in (rt\<lparr>rt_ext := x\<rparr>, logits))
          | None \<Rightarrow> (rt, logits))
      in (if list_ex (\<lambda>v. f32_is_nan v \<or> f32_eq v f32_infinity) logits \<or> \<not> list_ex f32_is_finite logits
          then first_error (EX_Request ''invalid_logit_mask'' ''mask produced NaN/+infinity or no permitted token'') rt
          else rt, logits))"

definition control_call ::
    "'x gpu_runtime \<Rightarrow> 'x session_hooks \<Rightarrow> 'x runtime \<Rightarrow> nat \<Rightarrow> string \<Rightarrow> nat \<Rightarrow> u32 list \<Rightarrow> nat \<Rightarrow> 'x runtime \<times> control_decision" where
  "control_call ru h rt candidate txt step ids kv_len =
     (if rt_error rt \<noteq> None then (rt, CD_Block ''execution failed'')
      else
        (let (rt, decision) = (case hk_control h of
               Some c \<Rightarrow> (let (x, d) = c (rt_ext rt) candidate txt step ids kv_len in (rt\<lparr>rt_ext := x\<rparr>, d))
             | None \<Rightarrow> (rt, Allow))
         in case decision of
              Allow \<Rightarrow> (rt, CD_Allow)
            | ForceToken t \<Rightarrow>
                if t < n_vocab (ru_spec ru) then (rt, CD_Force t)
                else (first_error (EX_Request ''invalid_control_token'' (''forced token '' @ dec t @ '' exceeds vocabulary'')) rt,
                  CD_Block ''invalid forced token'')
            | EarlyExit \<Rightarrow> (rt, CD_EarlyExit)
            | BlockAndTerminate reason \<Rightarrow> (rt\<lparr>rt_error := Some (EX_Request ''policy_blocked'' reason)\<rparr>, CD_Block reason)))"

definition decode_call :: "'x gpu_runtime \<Rightarrow> 'x runtime \<Rightarrow> u32 \<Rightarrow> 'x runtime \<times> string" where
  "decode_call ru rt token_id = (rt, case ru_decode ru token_id of Some s \<Rightarrow> s | None \<Rightarrow> [])"

definition on_ext :: "('x \<Rightarrow> 'x) \<Rightarrow> 'x runtime \<Rightarrow> 'x runtime" where
  "on_ext f rt = rt\<lparr>rt_ext := f (rt_ext rt)\<rparr>"

text \<open>After a panic nothing of the call runs: the closures leave the runtime as it is.\<close>

definition unwound :: "('x runtime \<Rightarrow> 'x runtime \<times> 'b) \<Rightarrow> 'b \<Rightarrow> 'x runtime \<Rightarrow> 'x runtime \<times> 'b" where
  "unwound f dflt rt = (if rt_panicked rt then (rt, dflt) else f rt)"

definition session_closures ::
    "'x gpu_runtime \<Rightarrow> sampling_params \<Rightarrow> 'x session_hooks \<Rightarrow> nat \<Rightarrow> 'x runtime closures" where
  "session_closures ru p h i =
     \<lparr>ic_dequant = (\<lambda>rt t dim1. unwound (\<lambda>rt. dequant_row ru rt t dim1) [] rt),
      ic_prefill = (\<lambda>rt batched n. unwound (\<lambda>rt. prefill_call ru i rt batched n) ([], []) rt),
      ic_forward = (\<lambda>rt token_data pos. unwound (\<lambda>rt. forward_call ru i rt token_data pos) ([], []) rt),
      ic_sample = (\<lambda>rt logits recent. unwound (\<lambda>rt. sample_call ru p rt logits recent) (logits, 0) rt),
      ic_decode = decode_call ru, ic_kv_increment = (\<lambda>rt. rt),
      ic_dim = word_of_nat (n_embd (ru_spec ru)), ic_elapsed_ms = (\<lambda>a b. ru_elapsed_ms ru (rt_ext a) (rt_ext b)),
      ic_mask = Some (\<lambda>rt logits. unwound (\<lambda>rt. mask_call h rt logits) logits rt),
      ic_control = Some (\<lambda>rt candidate txt step ids kv_len.
        unwound (\<lambda>rt. control_call ru h rt candidate txt step ids kv_len) CD_EarlyExit rt),
      ic_trace = map_option (\<lambda>t rt step logits ms. if rt_panicked rt then rt else on_ext (\<lambda>x. t x step logits ms) rt) (hk_trace h),
      ic_on_token = map_option (\<lambda>f rt piece. if rt_panicked rt then rt else on_ext (\<lambda>x. f x piece) rt) (hk_on_token h)\<rparr>"

section \<open>The session\<close>

text \<open>The engine of dzero runs the rules with the closures it is given.\<close>

type_synonym 'x session_engine = "'x runtime closures \<Rightarrow> 'x runtime engine"

definition finish_session ::
    "nat \<Rightarrow> u32 list \<Rightarrow> isf_state \<Rightarrow> nat \<Rightarrow> bool \<Rightarrow> run_budget \<Rightarrow> 'x runtime \<Rightarrow> 'x runtime \<times> (run_error, generation_output) res" where
  "finish_session i ids s processed saturated budget rt =
     (case rt_error rt of
        Some e \<Rightarrow> (rt\<lparr>rt_error := None\<rparr>, Err (RE_Execution e))
      | None \<Rightarrow>
     (case is_block_reason s of
        Some reason \<Rightarrow> (rt, Err (RE_Text (''Blocked by control hook: '' @ reason)))
      | None \<Rightarrow>
      if \<not> saturated
      then (rt, Err (RE_Execution (EX_Scheduler ''isf_budget_exhausted''
             (''processed '' @ dec processed @ '' facts under bound '' @ dec (rb_max_facts budget)))))
      else
     (case is_halt s of
        None \<Rightarrow> (rt, Err (RE_Execution (EX_Scheduler ''isf_missing_terminal_reason'' ''fact graph saturated without a terminal reason'')))
      | Some reason \<Rightarrow>
     (case gk_owner (rt_cache rt) of
        None \<Rightarrow> (panicked rt, Panic)
      | Some c \<Rightarrow>
     (case snd (finish (cw_leases c ! i)) of
        Ok _ \<Rightarrow> (rt\<lparr>rt_cache := cache_reset ((rt_cache rt)\<lparr>gk_owner := Some (lease_call i LO_Finish c)\<rparr>)\<rparr>,
          Ok \<lparr>gn_text = is_generated_text s, gn_prompt_tokens = length ids,
               gn_completion_tokens = length (is_all_token_ids s) - length ids,
               gn_finish_reason = (if reason = MaxTokensReached then FR_Length else FR_Stop)\<rparr>)
      | Err e \<Rightarrow> (rt, Err (RE_State e))
      | Panic \<Rightarrow> (panicked rt, Panic))))))"

definition run_session ::
    "'x gpu_runtime \<Rightarrow> 'x session_engine \<Rightarrow> sampling_params \<Rightarrow> 'x session_hooks \<Rightarrow> u32 list \<Rightarrow> nat \<Rightarrow> 'x runtime \<Rightarrow>
     'x runtime \<times> (run_error, generation_output) res" where
  "run_session ru dz p h ids i rt =
     (let rt = rt\<lparr>rt_error := None, rt_rng := rng_new (sp_seed p)\<rparr>;
          cl = session_closures ru p h i;
          s = session_state ids (word_of_nat (sp_max_tokens p)) (ru_eos_token ru)
                (List.map_filter (stop_token ru) (sp_extra_stop_tokens p)) (ru_tdr_budget_ms ru);
          fb = fold fabric_assert (prompt_facts ids) (fabric_new s rt)
      in case request_run_budget (length ids) (sp_max_tokens p) 0 of
           Err _ \<Rightarrow> (rt, Err (request_error ''isf_budget_overflow'' ''ISF request work bound exceeds u32''))
         | Panic \<Rightarrow> (panicked rt, Panic)
         | Ok budget \<Rightarrow>
             (case dz cl budget fb of
                Ok (fb, processed, saturated) \<Rightarrow>
                  if rt_panicked (fb_world fb) then (fb_world fb, Panic)
                  else finish_session i ids (fb_state fb) processed saturated budget (fb_world fb)
              | _ \<Rightarrow> (panicked rt, Panic)))"

definition generate_input ::
    "'x gpu_runtime \<Rightarrow> 'x session_engine \<Rightarrow> generation_input \<Rightarrow> sampling_params \<Rightarrow> 'x session_hooks \<Rightarrow> 'x runtime \<Rightarrow>
     'x runtime \<times> (run_error, generation_output) res" where
  "generate_input ru dz inp p h rt =
     (if rt_panicked rt then (rt, Err (RE_Execution (EX_Gpu ''runtime generation lock poisoned''))) else
     (case check_request ru inp p of
        Err e \<Rightarrow> (rt, Err e)
      | Panic \<Rightarrow> (panicked rt, Panic)
      | Ok ids \<Rightarrow>
          if sp_max_tokens p = 0
          then (rt, Ok \<lparr>gn_text = [], gn_prompt_tokens = length ids, gn_completion_tokens = 0, gn_finish_reason = FR_Length\<rparr>)
          else
            (case begin_request (rt_bound rt) (rt_cache rt) (fw_model (ru_forward ru)) (length ids) of
               ((b, g), Ok i) \<Rightarrow>
                 (let (rt, r) = run_session ru dz p h ids i (rt\<lparr>rt_bound := b, rt_cache := g\<rparr>);
                      (b, g) = drop_request i (rt_bound rt) (rt_cache rt)
                  in (rt\<lparr>rt_bound := b, rt_cache := g\<rparr>, r))
             | ((b, g), Err e) \<Rightarrow> (rt\<lparr>rt_bound := b, rt_cache := g\<rparr>, Err (RE_State e))
             | ((b, g), Panic) \<Rightarrow> (panicked (rt\<lparr>rt_bound := b, rt_cache := g\<rparr>), Panic))))"

section \<open>An invariant of the world that every closure keeps\<close>

locale kept_by_closures =
  fixes cl :: "'w closures" and J :: "'w \<Rightarrow> bool"
  assumes dequant_keeps: "J w \<Longrightarrow> J (fst (ic_dequant cl w token_id dim1))"
    and prefill_keeps: "J w \<Longrightarrow> J (fst (ic_prefill cl w batched n))"
    and forward_keeps: "J w \<Longrightarrow> J (fst (ic_forward cl w [val] position))"
    and sample_keeps: "J w \<Longrightarrow> J (fst (ic_sample cl w logits recent))"
    and decode_keeps: "J w \<Longrightarrow> J (fst (ic_decode cl w token_id))"
    and increment_keeps: "J w \<Longrightarrow> J (ic_kv_increment cl w)"
    and mask_keeps: "J w \<Longrightarrow> ic_mask cl = Some m \<Longrightarrow> J (fst (m w logits))"
    and control_keeps: "J w \<Longrightarrow> ic_control cl = Some c \<Longrightarrow> J (fst (c w candidate txt step ids kv_len))"
    and trace_keeps: "J w \<Longrightarrow> ic_trace cl = Some t \<Longrightarrow> J (t w step logits ms)"
    and token_keeps: "J w \<Longrightarrow> ic_on_token cl = Some f \<Longrightarrow> J (f w piece)"
begin

definition result_keeps :: "'w fired \<Rightarrow> bool" where
  "result_keeps r = (case r of Ok (fs, s, w) \<Rightarrow> J w | _ \<Rightarrow> True)"

lemma hooks_keep:
  "J w \<Longrightarrow> J (fst (apply_mask cl w logits))" "J w \<Longrightarrow> J (fst (apply_control cl w candidate txt step ids kv_len))"
  "J w \<Longrightarrow> J (apply_trace cl w step logits ms)" "J w \<Longrightarrow> J (emit_piece cl w piece)"
  by (auto simp: apply_mask_def apply_control_def apply_trace_def emit_piece_def mask_keeps control_keeps trace_keeps token_keeps
      split: option.splits)

lemma halt_keeps: "J w \<Longrightarrow> result_keeps (halt_with reason s w)"
  by (simp add: result_keeps_def halt_with_def)

lemma first_token_keeps: "J w \<Longrightarrow> result_keeps (first_token cl token_id s w)"
  unfolding first_token_def Let_def case_prod_beta
  by (auto intro: halt_keeps) (simp add: result_keeps_def hooks_keep decode_keeps)

lemma next_token_keeps: "J w \<Longrightarrow> result_keeps (next_token cl step position logits rb sb ms token_id s w)"
  unfolding next_token_def Let_def case_prod_beta
  by (auto intro: halt_keeps) (simp add: result_keeps_def hooks_keep decode_keeps)

lemma prefill_complete_keeps: "J w \<Longrightarrow> result_keeps (rule_prefill_complete cl s w)"
  unfolding rule_prefill_complete_def Let_def case_prod_beta
  by (auto split: control_decision.split intro!: first_token_keeps halt_keeps hooks_keep sample_keeps)

lemma decode_step_keeps: "J w \<Longrightarrow> result_keeps (rule_decode_step cl ft s w)"
  unfolding rule_decode_step_def Let_def case_prod_beta
  by (auto split: control_decision.split inference_fact.split intro!: next_token_keeps halt_keeps hooks_keep sample_keeps forward_keeps)
    (simp_all add: result_keeps_def)

lemma prefill_rule_keeps: "J w \<Longrightarrow> result_keeps (rule_prefill cl ft s w)"
  by (cases ft; cases "batched_embeddings s :: (string, f32 list) res")
    (simp_all add: rule_prefill_def result_keeps_def case_prod_beta Let_def prefill_keeps del: and_then_eq_Ok)

lemma program_keeps: "J w \<Longrightarrow> result_keeps (isf_program cl ft s w)"
proof (cases "triggers ft")
  case True
  assume "J w"
  then show ?thesis
    using True prefill_rule_keeps [of w] decode_step_keeps [of w] prefill_complete_keeps [of w] increment_keeps [of w] dequant_keeps [of w]
    by (cases ft) (auto simp: triggers_def program_simps program_rules result_keeps_def rule_embedding_request_def
        rule_embedding_ready_def rule_dispatch_completed_def case_prod_beta Let_def)
qed (simp add: program_quiet result_keeps_def)

lemma fire_keeps: "fire cl ft fb = Ok fb' \<Longrightarrow> J (fb_world fb) \<Longrightarrow> J (fb_world fb')"
  using program_keeps [of "fb_world fb" ft "fb_state fb"] by (auto simp: fire_def result_keeps_def)

lemma processes_keeps: "processes cl n fb fb' \<Longrightarrow> J (fb_world fb) \<Longrightarrow> J (fb_world fb')"
  by (induction rule: processes.induct) (auto dest: fire_keeps)

end

section \<open>What a pass does to the lease\<close>

lemma lease_calls_append: "lease_calls i (xs @ ys) c = lease_calls i ys (lease_calls i xs c)"
  by (simp add: lease_calls_def)

lemma lease_operations_no_panic:
  "snd (prepare_prefill_chunk capacity start n l) \<noteq> Panic" "snd (prepare_decode capacity start l) \<noteq> Panic"
  "snd (commit sw l) \<noteq> Panic" "require_read start hi l \<noteq> Panic" "check_identity v c l \<noteq> Panic" "snd (finish l) \<noteq> Panic"
  by (auto simp: prepare_prefill_chunk_def prepare_decode_def prepare_def commit_def require_read_def check_identity_def
      finish_def Let_def split: prod.splits res.splits option.splits if_splits)

text \<open>Every change of the controller is a sequence of calls on the lease \<open>i\<close>.\<close>

definition only_calls :: "nat \<Rightarrow> controller \<Rightarrow> controller \<Rightarrow> bool" where
  "only_calls i c c' = (\<exists>ops. c' = lease_calls i ops c)"

lemma only_calls_refl [simp]: "only_calls i c c"
  unfolding only_calls_def by (intro exI [of _ "[]"]) (simp add: lease_calls_def)

lemma only_calls_one [simp]: "only_calls i c (lease_call i op c)"
  unfolding only_calls_def by (intro exI [of _ "[op]"]) (simp add: lease_calls_def)

lemma only_calls_trans: "only_calls i c c' \<Longrightarrow> only_calls i c' c'' \<Longrightarrow> only_calls i c c''"
  unfolding only_calls_def by (metis lease_calls_append)

lemma reserve_only_calls:
  "only_calls i c (fst (reserve_write fw i start rows c)) \<and> snd (reserve_write fw i start rows c) \<noteq> Panic"
  by (auto simp: reserve_write_def Let_def lease_operations_no_panic and_then_eq_Panic map_err_no_panic split: res.splits
      dest!: map_err_no_panic [of _ "fw_show_state fw", THEN notE, rotated])

lemma settle_only_calls:
  "only_calls i c (fst (settle_write fw i sw outcome c)) \<and> (snd (settle_write fw i sw outcome c) = Panic \<longrightarrow> outcome = Panic)"
  by (cases outcome) (auto simp: settle_write_def and_then_eq_Panic map_err_no_panic lease_operations_no_panic)

definition exec_panics :: "('w, 'r) execution \<Rightarrow> bool" where
  "exec_panics exec = (\<exists>w embd pos n. snd (exec w embd pos n) = Panic)"

lemma forward_only_calls:
  assumes b: "fw_bound fw = Some b" "br_lease b = i"
  shows "only_calls i c (fst (fst (run_forward fw exec spec embd pos n (Some kv) (c, w)))) \<and>
    (snd (run_forward fw exec spec embd pos n (Some kv) (c, w)) = Panic \<longrightarrow> exec_panics exec)"
proof -
  let ?rows = "length embd div n_embd spec"
  let ?chk = "and_then (for_each (check_frame (fw_max_binding fw) ?rows) (frame_widths spec)) (\<lambda>_.
      validate_state_access fw spec ?rows (unat pos) (unat n) (Some kv))"
  have np: "?chk \<noteq> Panic"
    by (simp add: and_then_eq_Panic forward_checks_no_panic for_each_no_panic del: for_each_Ok)
  have at: "j = Some i" if "?chk = Ok j" for j
    using that b by (auto simp: validate_state_access_def split: if_splits prod.splits)
  show ?thesis
  proof (cases "n_embd spec = 0 \<or> length embd mod n_embd spec \<noteq> 0")
    case True
    then show ?thesis by (simp add: run_forward_def Let_def)
  next
    case False
    show ?thesis
    proof (cases ?chk)
      case (Ok j)
      obtain c1 r1 where res: "reserve_write fw i (unat pos) ?rows c = (c1, r1)" by fastforce
      note rv = reserve_only_calls [of i c fw "unat pos" ?rows, unfolded res]
      obtain w' outcome where e: "exec w embd pos n = (w', outcome)" by fastforce
      have out: "outcome = Panic \<Longrightarrow> exec_panics exec" using e unfolding exec_panics_def by (metis snd_conv)
      have fwd: "run_forward fw exec spec embd pos n (Some kv) (c, w) =
          (case r1 of Err e \<Rightarrow> ((c1, w), Err e) | Panic \<Rightarrow> ((c1, w), Panic)
           | Ok sw \<Rightarrow> (let (c', r) = settle_write fw i sw outcome c1 in ((c', w'), r)))"
        using False Ok at [OF Ok] unfolding run_forward_def Let_def prod.case if_not_P [OF False] Ok res.case option.case res
        by (cases r1) (simp_all add: e res)
      show ?thesis
      proof (cases r1)
        case (Ok sw)
        with rv settle_only_calls [of i c1 fw sw outcome] out show ?thesis
          unfolding fwd by (auto simp: case_prod_beta Let_def intro: only_calls_trans)
      qed (use rv fwd in auto)
    next
      case (Err e)
      then show ?thesis unfolding run_forward_def Let_def prod.case if_not_P [OF False] Err res.case by simp
    qed (use np in simp)
  qed
qed

lemma chunks_only_calls:
  assumes b: "fw_bound fw = Some b" "br_lease b = i"
  shows "only_calls i c (fst (fst (chunk_loop fw exec spec pos (Some kv) chs processed last_r (c, w)))) \<and>
    (snd (chunk_loop fw exec spec pos (Some kv) chs processed last_r (c, w)) = Panic \<longrightarrow> exec_panics exec)"
proof (induction chs arbitrary: processed last_r c w)
  case (Cons ch chs)
  let ?n = "word_of_nat (length ch div n_embd spec) :: u32"
  obtain c1 w1 r1 where r: "run_forward fw exec spec ch (pos + processed) (pos + processed + ?n) (Some kv) (c, w) = ((c1, w1), r1)"
    by (metis surj_pair)
  note st = forward_only_calls [OF b, where exec = exec and c = c and spec = spec and embd = ch and pos = "pos + processed" and
      n = "pos + processed + ?n" and kv = kv and w = w, unfolded r]
  show ?case
  proof (cases r1)
    case (Ok v)
    with st Cons.IH [of c1 "processed + ?n" "Some v" w1] r show ?thesis
      by (auto simp: Let_def intro: only_calls_trans)
  qed (use st r in \<open>auto simp: Let_def\<close>)
qed simp

lemma prefill_only_calls:
  assumes "fw_bound fw = Some b" "br_lease b = i"
  shows "only_calls i c (fst (fst (run_prefill_chunked fw exec spec embd pos (Some kv) chunk (c, w)))) \<and>
    (snd (run_prefill_chunked fw exec spec embd pos (Some kv) chunk (c, w)) = Panic \<longrightarrow> exec_panics exec)"
proof -
  let ?rows = "length embd div n_embd spec"
  let ?chk = "and_then (ok_or (checked_add (unat pos) ?rows) ''prefill position overflow'') (\<lambda>stop.
      and_then (map_err (fw_show fw) (check_forward (fw_model fw) spec ?rows (unat pos) stop)) (\<lambda>_.
      ok_or (checked_mul (unat chunk) (n_embd spec)) ''prefill chunk size overflow''))"
  have np: "?chk \<noteq> Panic"
    by (intro and_then_no_panic ok_or_no_panic map_err_no_panic forward_checks_no_panic)
  show ?thesis
  proof (cases "n_embd spec = 0 \<or> chunk = 0 \<or> embd = [] \<or> length embd mod n_embd spec \<noteq> 0")
    case False
    show ?thesis
    proof (cases ?chk)
      case (Ok step)
      obtain c1 w1 r1 where l: "chunk_loop fw exec spec pos (Some kv) (chunks step embd) 0 None (c, w) = ((c1, w1), r1)"
        by (metis surj_pair)
      note st = chunks_only_calls [OF assms, where exec = exec and c = c and spec = spec and pos = pos and kv = kv and
        chs = "chunks step embd" and processed = 0 and last_r = None and w = w, unfolded l]
      have "run_prefill_chunked fw exec spec embd pos (Some kv) chunk (c, w) =
          (case r1 of Ok r \<Rightarrow> ((c1, w1), ok_or r ''chunked prefill produced no chunks'')
           | Err e \<Rightarrow> ((c1, w1), Err e) | Panic \<Rightarrow> ((c1, w1), Panic))"
        unfolding run_prefill_chunked_def Let_def if_not_P [OF False] Ok res.case l by (cases r1) simp_all
      with st ok_or_no_panic show ?thesis by (cases r1) auto
    next
      case (Err e)
      then show ?thesis unfolding run_prefill_chunked_def Let_def if_not_P [OF False] Err res.case by simp
    qed (use np in simp)
  qed (simp add: run_prefill_chunked_def Let_def)
qed

section \<open>The runtime during a session\<close>

text \<open>What may panic outside the runtime, and what is relied on of the sort.\<close>

definition external_panics :: "'x gpu_runtime \<Rightarrow> bool" where
  "external_panics ru =
     (exec_panics (ru_exec ru) \<or> (\<exists>x off dim1. snd (ru_dequant ru x off dim1) = None) \<or> (\<exists>s. ru_encode ru s = Panic))"

definition sorts :: "'x gpu_runtime \<Rightarrow> bool" where
  "sorts ru = (\<forall>xs. mset (ru_sort_desc ru xs) = mset xs)"

definition reliable :: "'x gpu_runtime \<Rightarrow> bool" where
  "reliable ru = (\<not> external_panics ru \<and> sorts ru)"

definition lease_held :: "nat \<Rightarrow> controller \<Rightarrow> bool" where
  "lease_held i c = (i < length (cw_leases c) \<and> busy_if_open i c \<and> controller_inv c)"

definition owned_by :: "validated_model \<Rightarrow> controller \<Rightarrow> bool" where
  "owned_by v c = (cw_identity c = vm_identity v \<and> cw_capacity c = ss_capacity (vm_state v))"

definition in_session :: "'x gpu_runtime \<Rightarrow> nat \<Rightarrow> 'x runtime \<Rightarrow> bool" where
  "in_session ru i rt =
     ((rt_panicked rt \<longrightarrow> external_panics ru) \<and> cache_matches (rt_cache rt) (vm_state (fw_model (ru_forward ru))) \<and>
      (\<exists>c b. gk_owner (rt_cache rt) = Some c \<and> rt_bound rt = Some b \<and> br_lease b = i \<and> lease_held i c \<and>
        owned_by (fw_model (ru_forward ru)) c))"

lemma lease_call_held: "lease_held i c \<Longrightarrow> lease_held i (lease_call i op c)"
  unfolding lease_held_def
  using controller_step_inv [OF controller_step.call [of i c op]] by (simp add: lease_call_busy)

lemma only_calls_held:
  assumes "only_calls i c c'" "lease_held i c"
  shows "lease_held i c'" and "owned_by v c' = owned_by v c"
proof -
  obtain ops where c': "c' = lease_calls i ops c" using assms(1) unfolding only_calls_def by blast
  have "lease_held i (lease_calls i ops c)" using assms(2)
    by (induction ops arbitrary: c) (simp_all add: lease_calls_def lease_call_held)
  then show "lease_held i c'" unfolding c' .
  show "owned_by v c' = owned_by v c" unfolding c' owned_by_def by simp
qed

lemma held_processed:
  assumes "lease_held i c" "owned_by v c" "cache_matches g (vm_state v)"
  shows "sl_processed (cw_leases c ! i) \<le> unat (gk_max_seq_len g)"
proof -
  have "lease_inv (cw_capacity c) (cw_leases c ! i)" using assms(1) by (simp add: lease_held_def controller_inv_def)
  from lease_inv_bounds(1) [OF this] assms(2,3) show ?thesis by (simp add: owned_by_def cache_matches_def)
qed

lemma matches_fields [simp]:
  "cache_matches (g\<lparr>gk_owner := x\<rparr>) s = cache_matches g s" "cache_matches (cache_reset g) s = cache_matches g s"
  "cache_matches (g\<lparr>gk_seq_len := n\<rparr>) s = cache_matches g s" "gk_owner (cache_reset g) = gk_owner g"
  by (simp_all add: cache_matches_def cache_reset_def)

lemma in_session_cong:
  assumes "in_session ru i rt" "rt_panicked rt' = rt_panicked rt" "rt_bound rt' = rt_bound rt"
    "gk_owner (rt_cache rt') = gk_owner (rt_cache rt)"
    "cache_matches (rt_cache rt') (vm_state (fw_model (ru_forward ru)))"
  shows "in_session ru i rt'"
  using assms by (simp add: in_session_def)

lemma in_session_live: "reliable ru \<Longrightarrow> in_session ru i rt \<Longrightarrow> \<not> rt_panicked rt"
  by (auto simp: in_session_def reliable_def)

lemma in_session_panicked: "external_panics ru \<Longrightarrow> in_session ru i (panicked rt) = in_session ru i rt"
  by (simp add: in_session_def panicked_def)

lemma in_session_cache: "in_session ru i rt \<Longrightarrow> cache_matches (rt_cache rt) (vm_state (fw_model (ru_forward ru)))"
  by (simp add: in_session_def)

lemma in_session_fields [simp]:
  "in_session ru i (rt\<lparr>rt_error := e\<rparr>) = in_session ru i rt" "in_session ru i (rt\<lparr>rt_rng := r\<rparr>) = in_session ru i rt"
  "in_session ru i (rt\<lparr>rt_ext := x\<rparr>) = in_session ru i rt"
  "in_session ru i (rt\<lparr>rt_cache := cache_reset (rt_cache rt)\<rparr>) = in_session ru i rt"
  by (simp_all add: in_session_def)

lemma first_error_keeps [simp]: "in_session ru i (first_error e rt) = in_session ru i rt"
  by (simp add: first_error_def split: option.split)

lemma set_extent_keeps:
  assumes "in_session ru i rt"
  shows "in_session ru i (set_extent i rt)" and "rt_panicked (set_extent i rt) = rt_panicked rt"
proof -
  from assms obtain c where c: "gk_owner (rt_cache rt) = Some c" "lease_held i c" "owned_by (fw_model (ru_forward ru)) c"
    unfolding in_session_def by blast
  have p: "sl_processed (cw_leases c ! i) \<le> unat (gk_max_seq_len (rt_cache rt))"
    by (rule held_processed [OF c(2,3) in_session_cache [OF assms]])
  then have "unat (word_of_nat (sl_processed (cw_leases c ! i)) :: u32) = sl_processed (cw_leases c ! i)"
    using unsigned_less [of "gk_max_seq_len (rt_cache rt)", where ?'a = nat] by (intro unat_word_of_nat_small) simp
  then have "\<not> gk_max_seq_len (rt_cache rt) < word_of_nat (sl_processed (cw_leases c ! i))"
    using p by (simp add: word_less_nat_alt)
  then have "set_extent i rt = rt\<lparr>rt_cache := (rt_cache rt)\<lparr>gk_seq_len := word_of_nat (sl_processed (cw_leases c ! i))\<rparr>\<rparr>"
    using c(1) by (simp add: set_extent_def cache_set_seq_len_def)
  then show "in_session ru i (set_extent i rt)" "rt_panicked (set_extent i rt) = rt_panicked rt"
    using assms by (simp_all add: in_session_def)
qed

lemma read_result_keeps:
  assumes "in_session ru i rt" "r = Panic \<Longrightarrow> external_panics ru"
  shows "in_session ru i (fst (read_result r rt))"
  using assms by (cases r) (auto simp: read_result_def in_session_panicked split: prod.splits)

lemma pass_keeps:
  assumes s: "in_session ru i rt"
  shows "in_session ru i (fst (pass ru i chunk rt embd pos))"
proof -
  from s obtain c b where c: "gk_owner (rt_cache rt) = Some c" "rt_bound rt = Some b" "br_lease b = i" "lease_held i c"
    "owned_by (fw_model (ru_forward ru)) c" "cache_matches (rt_cache rt) (vm_state (fw_model (ru_forward ru)))"
    "rt_panicked rt \<longrightarrow> external_panics ru"
    unfolding in_session_def by blast
  let ?fw = "(ru_forward ru)\<lparr>fw_bound := rt_bound rt\<rparr>" and ?kv = "(gk_k (rt_cache rt), gk_v (rt_cache rt))"
  obtain c' x res where run: "run_prefill_chunked ?fw (ru_exec ru) (ru_spec ru) embd pos (Some ?kv) chunk (c, rt_ext rt) = ((c', x), res)"
    by (metis surj_pair)
  from prefill_only_calls [of ?fw b i, OF _ c(3), where exec = "ru_exec ru" and c = c and spec = "ru_spec ru" and embd = embd and
      pos = pos and kv = ?kv and chunk = chunk and w = "rt_ext rt"] c(2)
  have oc: "only_calls i c c'" and pc: "res = Panic \<Longrightarrow> external_panics ru" unfolding run by (simp_all add: external_panics_def)
  let ?rt = "rt\<lparr>rt_cache := (rt_cache rt)\<lparr>gk_owner := Some c'\<rparr>, rt_ext := x\<rparr>"
  have "in_session ru i ?rt"
    unfolding in_session_def using c only_calls_held [OF oc c(4)] by simp
  note rr = read_result_keeps [OF this pc]
  have "fst (pass ru i chunk rt embd pos) =
      (if rt_panicked (fst (read_result res ?rt)) then fst (read_result res ?rt) else set_extent i (fst (read_result res ?rt)))"
    by (simp add: pass_def c(1) Let_def run case_prod_beta)
  with set_extent_keeps(1) [OF rr] rr show ?thesis by simp
qed

lemma sample_total:
  assumes "\<And>xs. mset (sort_desc xs) = mset xs"
  obtains t l g where "sample_token expf sort_desc logits temperature top_p penalty recent rng = Ok (t, l, g)"
proof (cases "f32_lt temperature f32_1e_7")
  case True
  then show ?thesis using that by (simp add: sample_token_def Let_def)
next
  case False
  let ?indexed = "filter (\<lambda>(i, p). f32_is_finite p) (enumerate 0 (softmax expf
      (map (scale_logit (f32_div f32_one temperature)) (apply_penalty penalty recent logits))))"
  let ?nucleus = "take (nucleus_cutoff top_p 0 (sort_desc ?indexed)) (sort_desc ?indexed)"
  show ?thesis
  proof (cases "?indexed = []")
    case True
    then show ?thesis using that False unfolding sample_token_def Let_def if_not_P [OF False] if_P [OF True] by blast
  next
    case ne: False
    then have "sort_desc ?indexed \<noteq> []" using assms [of ?indexed] by (metis mset_zero_iff)
    then have nu: "?nucleus \<noteq> []" by (cases "sort_desc ?indexed") (auto simp: Let_def)
    obtain rng' u where n: "next_f32 rng = (rng', u)" by fastforce
    show ?thesis
    proof (cases "pick (f32_mul u (f32_sum (map snd ?nucleus))) 0 ?nucleus")
      case None
      then show ?thesis using that
        unfolding sample_token_def Let_def if_not_P [OF False] if_not_P [OF ne] n prod.case None option.case if_not_P [OF nu] by blast
    next
      case (Some k)
      then show ?thesis using that
        unfolding sample_token_def Let_def if_not_P [OF False] if_not_P [OF ne] n prod.case Some option.case by blast
    qed
  qed
qed

lemma sample_call_keeps:
  assumes "sorts ru" "in_session ru i rt"
  shows "in_session ru i (fst (sample_call ru p rt logits recent))"
proof -
  have "\<And>xs. mset (ru_sort_desc ru xs) = mset xs" using assms(1) by (simp add: sorts_def)
  then obtain t l g where "sample_token (ru_exp ru) (ru_sort_desc ru) logits (sp_temperature p) (sp_top_p p)
      (sp_repetition_penalty p) recent (rt_rng rt) = Ok (t, l, g)" by (rule sample_total)
  then show ?thesis using assms(2) by (simp add: sample_call_def)
qed

text \<open>The invariant the closures of a session keep, whatever the runtime is made of.\<close>

definition session_inv :: "'x gpu_runtime \<Rightarrow> nat \<Rightarrow> 'x runtime \<Rightarrow> bool" where
  "session_inv ru i rt = (sorts ru \<longrightarrow> in_session ru i rt)"

lemma closure_selectors:
  "ic_dequant (session_closures ru p h i) = (\<lambda>rt t dim1. unwound (\<lambda>rt. dequant_row ru rt t dim1) [] rt)"
  "ic_prefill (session_closures ru p h i) = (\<lambda>rt batched n. unwound (\<lambda>rt. prefill_call ru i rt batched n) ([], []) rt)"
  "ic_forward (session_closures ru p h i) = (\<lambda>rt token_data pos. unwound (\<lambda>rt. forward_call ru i rt token_data pos) ([], []) rt)"
  "ic_sample (session_closures ru p h i) = (\<lambda>rt logits recent. unwound (\<lambda>rt. sample_call ru p rt logits recent) (logits, 0) rt)"
  "ic_decode (session_closures ru p h i) = decode_call ru" "ic_kv_increment (session_closures ru p h i) = (\<lambda>rt. rt)"
  "ic_mask (session_closures ru p h i) = Some (\<lambda>rt logits. unwound (\<lambda>rt. mask_call h rt logits) logits rt)"
  "ic_control (session_closures ru p h i) = Some (\<lambda>rt candidate txt step ids kv_len.
     unwound (\<lambda>rt. control_call ru h rt candidate txt step ids kv_len) CD_EarlyExit rt)"
  "ic_trace (session_closures ru p h i) =
     map_option (\<lambda>t rt step logits ms. if rt_panicked rt then rt else on_ext (\<lambda>x. t x step logits ms) rt) (hk_trace h)"
  "ic_on_token (session_closures ru p h i) =
     map_option (\<lambda>f rt piece. if rt_panicked rt then rt else on_ext (\<lambda>x. f x piece) rt) (hk_on_token h)"
  by (simp_all add: session_closures_def)

lemma unwound_live: "\<not> rt_panicked rt \<Longrightarrow> unwound f dflt rt = f rt"
  by (simp add: unwound_def)

lemma unwound_keeps: "J rt \<Longrightarrow> (\<not> rt_panicked rt \<Longrightarrow> J (fst (f rt))) \<Longrightarrow> J (fst (unwound f dflt rt))"
  by (simp add: unwound_def)

lemma dequant_row_keeps: "in_session ru i rt \<Longrightarrow> in_session ru i (fst (dequant_row ru rt t d))"
proof -
  assume s: "in_session ru i rt"
  obtain x r where d: "ru_dequant ru (rt_ext rt) (row_offset ru t) d = (x, r)" by fastforce
  show "in_session ru i (fst (dequant_row ru rt t d))"
  proof (cases r)
    case None
    then have "external_panics ru" using d unfolding external_panics_def by (metis snd_conv)
    then show ?thesis using s by (simp add: dequant_row_def d None in_session_panicked)
  qed (use s in \<open>simp add: dequant_row_def d\<close>)
qed

lemma mask_call_keeps: "in_session ru i rt \<Longrightarrow> in_session ru i (fst (mask_call h rt logits))"
  by (simp add: mask_call_def case_prod_beta Let_def split: option.split)

lemma control_call_keeps: "in_session ru i rt \<Longrightarrow> in_session ru i (fst (control_call ru h rt candidate txt step ids n))"
  by (auto simp: control_call_def case_prod_beta Let_def split: option.split gate_decision.split)

lemma forward_call_keeps:
  "in_session ru i rt \<Longrightarrow> in_session ru i (fst (forward_call ru i rt [val] position))"
  by (simp add: forward_call_def case_prod_beta Let_def pass_keeps dequant_row_keeps)

interpretation session: kept_by_closures "session_closures ru p h i" "session_inv ru i"
  for ru p h i
proof (unfold_locales, unfold closure_selectors session_inv_def)
  fix w m logits assume "sorts ru \<longrightarrow> in_session ru i w" "Some (\<lambda>rt logits. unwound (\<lambda>rt. mask_call h rt logits) logits rt) = Some m"
  then show "sorts ru \<longrightarrow> in_session ru i (fst (m w logits))" using mask_call_keeps by (auto simp: unwound_def)
next
  fix w c candidate so_far step ids n
  assume "sorts ru \<longrightarrow> in_session ru i w" "Some (\<lambda>rt candidate txt step ids kv_len.
    unwound (\<lambda>rt. control_call ru h rt candidate txt step ids kv_len) CD_EarlyExit rt) = Some c"
  then show "sorts ru \<longrightarrow> in_session ru i (fst (c w candidate so_far step ids n))" using control_call_keeps by (auto simp: unwound_def)
qed (auto simp: unwound_def dequant_row_keeps prefill_call_def pass_keeps forward_call_keeps sample_call_keeps decode_call_def on_ext_def)

section \<open>A generation keeps the runtime\<close>

text \<open>Between generations: nothing bound, the cache of this plan, its controller free.\<close>

definition runtime_free :: "'x gpu_runtime \<Rightarrow> 'x runtime \<Rightarrow> bool" where
  "runtime_free ru rt =
     (rt_bound rt = None \<and> cache_matches (rt_cache rt) (vm_state (fw_model (ru_forward ru))) \<and>
      (\<forall>c. gk_owner (rt_cache rt) = Some c \<longrightarrow>
        controller_inv c \<and> \<not> cw_active c \<and> owned_by (fw_model (ru_forward ru)) c))"

text \<open>Ready for a generation: no earlier one has panicked either.\<close>

definition runtime_ok :: "'x gpu_runtime \<Rightarrow> 'x runtime \<Rightarrow> bool" where
  "runtime_ok ru rt = (\<not> rt_panicked rt \<and> runtime_free ru rt)"

lemma begin_lease_inv:
  assumes "begin_lease c = (c', r)" "controller_inv c"
  shows "controller_inv c'" and "cw_identity c' = cw_identity c" "cw_capacity c' = cw_capacity c"
    and "r \<noteq> Panic" "\<not> is_ok r \<Longrightarrow> \<not> cw_active c \<Longrightarrow> \<not> cw_active c'"
proof -
  obtain c1 r1 where 1: "begin_acquire c = (c1, r1)" by fastforce
  have i1: "controller_inv c1" using controller_step_inv [OF acquire assms(2)] 1 by simp
  show "controller_inv c'"
  proof (cases r1)
    case (Ok u)
    then have "0 < cw_starting c1" using 1 by (auto simp: begin_acquire_def split: if_splits)
    from controller_step_inv [OF enter [OF this] i1] assms(1) 1 Ok show ?thesis
      by (auto simp: begin_lease_def split: prod.splits res.splits)
  qed (use assms(1) 1 i1 in \<open>auto simp: begin_lease_def\<close>)
qed (use assms in \<open>auto simp: begin_lease_def begin_acquire_def begin_epoch_def split: if_splits option.splits\<close>)

lemma install_owner_ok:
  assumes "runtime_ok ru rt" "install_owner (rt_cache rt) (fw_model (ru_forward ru)) = Ok c"
  shows "controller_inv c" "\<not> cw_active c" "owned_by (fw_model (ru_forward ru)) c"
proof -
  have "controller_inv c \<and> \<not> cw_active c \<and> owned_by (fw_model (ru_forward ru)) c"
  proof (cases "gk_owner (rt_cache rt)")
    case None
    then have n: "new_controller (vm_identity (fw_model (ru_forward ru))) (vm_state (fw_model (ru_forward ru))) = Ok c"
      using assms(2) by (simp add: install_owner_def)
    have "controller_inv c" by (rule reachable_inv [OF controller_reachable.initial [OF n]])
    then show ?thesis using n by (auto simp: new_controller_def owned_by_def)
  next
    case (Some d)
    then show ?thesis using assms by (auto simp: install_owner_def runtime_ok_def runtime_free_def split: if_splits)
  qed
  then show "controller_inv c" "\<not> cw_active c" "owned_by (fw_model (ru_forward ru)) c" by blast+
qed

lemma new_controller_no_panic: "new_controller ident spec \<noteq> Panic"
  unfolding new_controller_def spec_budget_def shadow_bytes_def Let_def
  by (intro and_then_no_panic if_no_panic ok_or_no_panic res.distinct)

lemma begin_for_plan_keeps:
  assumes rt: "runtime_ok ru rt"
  shows "case begin_for_plan (rt_cache rt) (fw_model (ru_forward ru)) n of
      (g, Ok i) \<Rightarrow> cache_matches g (vm_state (fw_model (ru_forward ru))) \<and>
        (\<exists>c. gk_owner g = Some c \<and> lease_held i c \<and> owned_by (fw_model (ru_forward ru)) c)
    | (g, Err e) \<Rightarrow> runtime_ok ru (rt\<lparr>rt_cache := g\<rparr>)
    | (g, Panic) \<Rightarrow> False"
proof -
  let ?v = "fw_model (ru_forward ru)" and ?g = "rt_cache rt"
  have m: "cache_matches ?g (vm_state ?v)" using rt by (simp add: runtime_ok_def runtime_free_def)
  show ?thesis
  proof (cases "gk_packed ?g")
    case True
    then show ?thesis using rt m by (simp add: begin_for_plan_def)
  next
    case False
    show ?thesis
    proof (cases "install_owner ?g ?v")
      case (Ok c)
      note o = install_owner_ok [OF rt Ok]
      obtain c1 r1 where b: "begin_lease c = (c1, r1)" by fastforce
      note bi = begin_lease_inv [OF b o(1)]
      have own: "owned_by ?v c1" using bi(2,3) o(3) by (simp add: owned_by_def)
      show ?thesis
      proof (cases r1)
        case r1: (Ok i)
        note bo = begin_lease_Ok [OF b [unfolded r1]]
        have i: "i < length (cw_leases c1)" "cw_leases c1 ! i = new_lease (cw_epoch c1)" using bo by simp_all
        have held: "lease_held i c1" unfolding lease_held_def using i bi(1) by (simp add: busy_if_open_def new_lease_def)
        have plan: "begin_for_plan ?g ?v n =
            (case snd (start_prefill (cw_capacity c1) n (cw_leases c1 ! i)) of
               Ok _ \<Rightarrow> (cache_reset (?g\<lparr>gk_owner := Some (lease_call i (LO_Start_Prefill n) c1)\<rparr>), Ok i)
             | Err e \<Rightarrow> (?g\<lparr>gk_owner := Some (lease_call i LO_Drop c1)\<rparr>, Err e)
             | Panic \<Rightarrow> (?g\<lparr>gk_owner := Some c1\<rparr>, Panic))"
          using m False Ok b r1 by (simp add: begin_for_plan_def)
        have "snd (start_prefill (cw_capacity c1) n (cw_leases c1 ! i)) \<noteq> Panic" by (simp add: start_prefill_def)
        moreover have "\<not> cw_active (lease_call i LO_Drop c1)"
          by (rule lease_call_closes [OF i(1)]) (simp_all add: i(2) new_lease_def drop_lease_def abort_def close_lease_def)
        moreover have "lease_held i (lease_call i op c1)" "owned_by ?v (lease_call i op c1)" for op
          using lease_call_held [OF held] own by (simp_all add: owned_by_def)
        ultimately show ?thesis unfolding plan using m rt
          by (cases "snd (start_prefill (cw_capacity c1) n (cw_leases c1 ! i))")
            (simp_all add: runtime_ok_def runtime_free_def lease_held_def)
      next
        case (Err e)
        then have "\<not> cw_active c1" using bi(5) o(2) by simp
        then show ?thesis using m False Ok b Err bi(1) own rt by (simp add: begin_for_plan_def runtime_ok_def runtime_free_def)
      qed (use bi(4) in simp)
    next
      case (Err e)
      then show ?thesis using rt m False by (simp add: begin_for_plan_def)
    next
      case Panic
      then have False using new_controller_no_panic by (auto simp: install_owner_def split: option.splits if_splits)
      then show ?thesis ..
    qed
  qed
qed

lemma begin_request_keeps:
  assumes "runtime_ok ru rt"
  shows "case begin_request (rt_bound rt) (rt_cache rt) (fw_model (ru_forward ru)) n of
      ((b, g), Ok i) \<Rightarrow> in_session ru i (rt\<lparr>rt_bound := b, rt_cache := g\<rparr>)
    | ((b, g), Err e) \<Rightarrow> runtime_ok ru (rt\<lparr>rt_bound := b, rt_cache := g\<rparr>)
    | ((b, g), Panic) \<Rightarrow> False"
proof -
  have b: "rt_bound rt = None" "\<not> rt_panicked rt" using assms by (simp_all add: runtime_ok_def runtime_free_def)
  obtain g r where p: "begin_for_plan (rt_cache rt) (fw_model (ru_forward ru)) n = (g, r)" by fastforce
  from begin_for_plan_keeps [OF assms, of n] b show ?thesis unfolding p
    by (cases r) (auto simp: begin_request_def p in_session_def runtime_ok_def runtime_free_def)
qed

lemma drop_request_frees:
  assumes "in_session ru i rt" "drop_request i (rt_bound rt) (rt_cache rt) = (b, g)"
  shows "runtime_free ru (rt\<lparr>rt_bound := b, rt_cache := g\<rparr>)"
proof -
  from assms(1) obtain c br where c: "gk_owner (rt_cache rt) = Some c" "rt_bound rt = Some br" "br_lease br = i" "lease_held i c"
    "owned_by (fw_model (ru_forward ru)) c" "cache_matches (rt_cache rt) (vm_state (fw_model (ru_forward ru)))"
    unfolding in_session_def by blast
  have "\<not> cw_active (lease_call i LO_Abort c)" using abort_releases c(4) by (simp add: lease_held_def)
  moreover have "controller_inv (lease_call i LO_Abort c)" using lease_call_held [OF c(4)] by (simp add: lease_held_def)
  ultimately show ?thesis using c assms(2) by (auto simp: drop_request_def runtime_free_def owned_by_def)
qed

lemma session_started:
  "fold fabric_assert (prompt_facts ids) (fabric_new (session_state ids g eos extra budget) w) =
     started [] ids g eos extra budget w"
  by (simp add: started_def session_fabric_def assert_tensor_facts_def)

text \<open>
  How a session may end: with an answer of at most \<open>max_tokens\<close> tokens, an error that is not the
  scheduler's, or a panic.
\<close>

definition session_outcome :: "u32 list \<Rightarrow> nat \<Rightarrow> (run_error, generation_output) res \<Rightarrow> bool" where
  "session_outcome ids max_tokens r =
     (case r of
        Ok out \<Rightarrow> gn_prompt_tokens out = length ids \<and> gn_completion_tokens out \<le> max_tokens
      | Err e \<Rightarrow> \<forall>code detail. e \<noteq> RE_Execution (EX_Scheduler code detail)
      | Panic \<Rightarrow> True)"

text \<open>The errors the closures record are those of the GPU or of the request.\<close>

definition recorded_error_ok :: "'x runtime \<Rightarrow> bool" where
  "recorded_error_ok rt = (\<forall>code detail. rt_error rt \<noteq> Some (EX_Scheduler code detail))"

lemma first_error_ok: "recorded_error_ok rt \<Longrightarrow> (\<And>c d. e \<noteq> EX_Scheduler c d) \<Longrightarrow> recorded_error_ok (first_error e rt)"
  by (auto simp: recorded_error_ok_def first_error_def split: option.split)

lemma error_ok_fields [simp]:
  "recorded_error_ok (rt\<lparr>rt_cache := g\<rparr>) = recorded_error_ok rt" "recorded_error_ok (rt\<lparr>rt_rng := r\<rparr>) = recorded_error_ok rt"
  "recorded_error_ok (rt\<lparr>rt_ext := x\<rparr>) = recorded_error_ok rt" "recorded_error_ok (panicked rt) = recorded_error_ok rt"
  "recorded_error_ok (rt\<lparr>rt_error := None\<rparr>)" "recorded_error_ok (rt\<lparr>rt_error := Some (EX_Request a1 a2)\<rparr>)"
  by (simp_all add: recorded_error_ok_def panicked_def)

lemma read_result_error_ok: "recorded_error_ok rt \<Longrightarrow> recorded_error_ok (fst (read_result r rt))"
  by (cases r) (auto simp: read_result_def first_error_ok split: prod.splits)

lemma set_extent_error_ok: "recorded_error_ok (set_extent i rt) = recorded_error_ok rt"
  by (simp add: set_extent_def split: option.split res.split)

lemma pass_error_ok: "recorded_error_ok rt \<Longrightarrow> recorded_error_ok (fst (pass ru i chunk rt embd pos))"
  by (simp add: pass_def case_prod_beta Let_def read_result_error_ok set_extent_error_ok split: option.split)

lemma dequant_error_ok: "recorded_error_ok rt \<Longrightarrow> recorded_error_ok (fst (dequant_row ru rt t d))"
  by (simp add: dequant_row_def split: prod.split option.split)

interpretation errors: kept_by_closures "session_closures ru p h i" recorded_error_ok
  for ru :: "'x gpu_runtime" and p h i
proof (unfold_locales, unfold closure_selectors)
  fix w :: "'x runtime" and m logits
  assume "recorded_error_ok w" "Some (\<lambda>rt logits. unwound (\<lambda>rt. mask_call h rt logits) logits rt) = Some m"
  then show "recorded_error_ok (fst (m w logits))"
    by (auto simp: unwound_def mask_call_def case_prod_beta Let_def first_error_ok split: option.split)
next
  fix w :: "'x runtime" and c candidate so_far step ids n
  assume "recorded_error_ok w" "Some (\<lambda>rt candidate txt step ids kv_len.
    unwound (\<lambda>rt. control_call ru h rt candidate txt step ids kv_len) CD_EarlyExit rt) = Some c"
  then show "recorded_error_ok (fst (c w candidate so_far step ids n))"
    by (auto simp: unwound_def control_call_def case_prod_beta Let_def first_error_ok split: option.split gate_decision.split)
qed (auto simp: unwound_def dequant_error_ok prefill_call_def pass_error_ok forward_call_def decode_call_def on_ext_def sample_call_def
    case_prod_beta Let_def split: res.split)

lemma run_session_keeps:
  assumes eng: "\<And>cl. engine_ok cl (dz cl)" and rel: "sorts ru" and s: "in_session ru i rt" and live: "\<not> rt_panicked rt"
    and ids: "ids \<noteq> []" and n: "0 < sp_max_tokens p" "sp_max_tokens p < 2 ^ 32"
  shows "case run_session ru dz p h ids i rt of
    (rt', r) \<Rightarrow> in_session ru i rt' \<and> session_outcome ids (sp_max_tokens p) r \<and> rt_panicked rt' = (r = Panic)"
proof -
  let ?rt = "rt\<lparr>rt_error := None, rt_rng := rng_new (sp_seed p)\<rparr>"
  let ?cl = "session_closures ru p h i" and ?g = "word_of_nat (sp_max_tokens p) :: u32"
  let ?extra = "List.map_filter (stop_token ru) (sp_extra_stop_tokens p)"
  let ?fb = "started [] ids ?g (ru_eos_token ru) ?extra (ru_tdr_budget_ms ru) ?rt"
  have g: "unat ?g = sp_max_tokens p" using n(2) by (simp add: unat_word_of_nat_small)
  have store: "fb_store (session_fabric [] ids ?g (ru_eos_token ru) ?extra (ru_tdr_budget_ms ru) ?rt) = []"
    using session_fabric_props(1) [of "[]"] by (metis (no_types, lifting) Collect_empty_eq empty_iff empty_set set_empty)
  show ?thesis
  proof (cases "request_run_budget (length ids) (sp_max_tokens p) 0")
    case (Ok b)
    then have "request_run_budget (length ids) (unat ?g)
        (length (fb_store (session_fabric [] ids ?g (ru_eos_token ru) ?extra (ru_tdr_budget_ms ru) ?rt))) = Ok b"
      by (simp only: g store list.size)
    from run_saturates [OF eng ids this, where cl = ?cl] obtain fb' k where
      run: "dz ?cl b ?fb = Ok (fb', k, True)" "processes ?cl k ?fb fb'" "fb_pending fb' = []" by blast
    obtain l where "fabric_inv fst ids ?g (log_fabric l fb')" by (rule run_recorded [OF run(2) ids])
    then have inv: "isf_inv ids ?g (set (fb_store fb')) {} (fb_state fb') l" using run(3) by (simp add: fabric_inv_def)
    obtain gen m where e: "run_ended ids ?g gen m {} (fb_state fb') l" by (rule saturated_ended [OF inv ids])
    have world: "fb_world ?fb = ?rt" by (rule started_props(4))
    have s': "in_session ru i (fb_world fb')"
      using session.processes_keeps [OF run(2)] rel s unfolding world session_inv_def by simp
    have err: "recorded_error_ok (fb_world fb')"
      using errors.processes_keeps [OF run(2)] unfolding world by simp
    have rs: "run_session ru dz p h ids i rt = (if rt_panicked (fb_world fb') then (fb_world fb', Panic)
        else finish_session i ids (fb_state fb') k True b (fb_world fb'))"
      by (simp add: run_session_def Let_def session_started Ok run(1))
    obtain c where c: "gk_owner (rt_cache (fb_world fb')) = Some c" "lease_held i c"
      "owned_by (fw_model (ru_forward ru)) c" using s' unfolding in_session_def by blast
    moreover have "in_session ru i ((fb_world fb')\<lparr>rt_cache := cache_reset ((rt_cache (fb_world fb'))\<lparr>gk_owner := Some (lease_call i LO_Finish c)\<rparr>)\<rparr>)"
      using s' c lease_call_held [OF c(2)] by (auto simp: in_session_def owned_by_def)
    moreover have "length (is_all_token_ids (fb_state fb')) - length ids \<le> sp_max_tokens p" "is_halt (fb_state fb') \<noteq> None"
      using e n(1) g by (auto simp: run_ended_def)
    moreover have "snd (finish (cw_leases c ! i)) \<noteq> Panic" by (rule lease_operations_no_panic)
    ultimately show ?thesis using s' err unfolding rs
      by (auto simp: finish_session_def session_outcome_def recorded_error_ok_def split: option.split res.split)
  next
    case (Err e)
    then show ?thesis using s live by (simp add: run_session_def Let_def session_outcome_def request_error_def)
  next
    case Panic
    then show ?thesis by (simp add: budget_cases split: if_splits)
  qed
qed

lemma check_request_Ok:
  assumes "check_request ru inp p = Ok ids"
  shows "ids \<noteq> []" "sp_max_tokens p < 2 ^ 32" "length ids + (sp_max_tokens p - 1) \<le> n_ctx (ru_spec ru)"
    "\<forall>t\<in>set ids. unat t < n_vocab (ru_spec ru)"
  using assms by (auto simp: check_request_def checked_add_def list_ex_iff not_le split: if_splits option.splits)

lemma map_err_Err: "(map_err f r = Err e) = (\<exists>e'. r = Err e' \<and> e = f e')"
  by (cases r) auto

lemma check_request_outcome:
  "check_request ru inp p = Panic \<Longrightarrow> external_panics ru"
  "check_request ru inp p = Err e \<Longrightarrow> e \<noteq> RE_Execution (EX_Scheduler code detail)"
proof -
  show "external_panics ru" if panic: "check_request ru inp p = Panic"
  proof (rule ccontr)
    assume "\<not> external_panics ru"
    then have e: "ru_encode ru s \<noteq> Panic" for s by (auto simp: external_panics_def)
    have p: "prompt_of ru inp \<noteq> Panic"
      by (auto simp: prompt_of_def map_err_no_panic e and_then_eq_Panic validate_prompt_ids_def split: generation_input.split)
    have "check_request ru inp p \<noteq> Panic"
      unfolding check_request_def
      by (intro and_then_no_panic map_err_no_panic forward_checks_no_panic if_no_panic p) (auto split: option.split)
    then show False using panic by simp
  qed
  show "check_request ru inp p = Err e \<Longrightarrow> e \<noteq> RE_Execution (EX_Scheduler code detail)"
    by (auto simp: check_request_def prompt_of_def request_error_def and_then_eq_Err map_err_Err
        split: if_splits option.splits generation_input.splits)
qed

text \<open>
  C1: A generation never corrupts the runtime. From a runtime with no request bound and its
  controller free, whatever the request, the model, the GPU, the hooks and the order of the
  rules do (the hooks return, and the sort of the standard library permutes), generating ends
  with nothing bound, the controller consistent and free and the cache the plan's, also when
  it panics. It panics only if the GPU's execution, the dequantisation of a row or the
  tokenizer can; it then poisons the runtime's gate, and a poisoned runtime refuses every
  generation and stays as it is. Otherwise an answer counts the prompt's tokens, has at most
  \<open>max_tokens\<close> more and fits the context, and the errors of the scheduler never occur.
\<close>

theorem generate_keeps_runtime:
  assumes "\<And>cl. engine_ok cl (dz cl)" and "sorts ru" and "runtime_free ru rt"
  shows "case generate_input ru dz inp p h rt of (rt', r) \<Rightarrow>
    runtime_free ru rt' \<and>
    (if rt_panicked rt then rt' = rt \<and> r = Err (RE_Execution (EX_Gpu ''runtime generation lock poisoned''))
     else rt_panicked rt' = (r = Panic)) \<and>
    (case r of
       Ok out \<Rightarrow> 0 < gn_prompt_tokens out \<and> gn_completion_tokens out \<le> sp_max_tokens p \<and>
         gn_prompt_tokens out + (sp_max_tokens p - 1) \<le> n_ctx (ru_spec ru)
     | Err e \<Rightarrow> \<forall>code detail. e \<noteq> RE_Execution (EX_Scheduler code detail)
     | Panic \<Rightarrow> external_panics ru)"
proof (cases "rt_panicked rt")
  case True
  then show ?thesis using assms(3) by (simp add: generate_input_def)
next
  case live: False
  then have ready: "runtime_ok ru rt" using assms(3) by (simp add: runtime_ok_def)
  show ?thesis
  proof (cases "check_request ru inp p")
    case (Ok ids)
    note c = check_request_Ok [OF Ok]
    show ?thesis
    proof (cases "sp_max_tokens p = 0")
      case True
      then show ?thesis using Ok c assms(3) live by (simp add: generate_input_def)
    next
      case False
      obtain b g r where b: "begin_request (rt_bound rt) (rt_cache rt) (fw_model (ru_forward ru)) (length ids) = ((b, g), r)"
        by (metis surj_pair)
      note br = begin_request_keeps [OF ready, of "length ids", unfolded b]
      show ?thesis
      proof (cases r)
        case r: (Ok i)
        let ?rt = "rt\<lparr>rt_bound := b, rt_cache := g\<rparr>"
        obtain rt1 out where run: "run_session ru dz p h ids i ?rt = (rt1, out)" by fastforce
        have s: "in_session ru i ?rt" using br r by simp
        have k: "in_session ru i rt1" "session_outcome ids (sp_max_tokens p) out" "rt_panicked rt1 = (out = Panic)"
          using run_session_keeps [OF assms(1,2) s _ c(1) _ c(2), of h] False run live by simp_all
        obtain b' g' where d: "drop_request i (rt_bound rt1) (rt_cache rt1) = (b', g')" by fastforce
        have "runtime_free ru (rt1\<lparr>rt_bound := b', rt_cache := g'\<rparr>)" by (rule drop_request_frees [OF k(1) d])
        moreover have "generate_input ru dz inp p h rt = (rt1\<lparr>rt_bound := b', rt_cache := g'\<rparr>, out)"
          using Ok False b r run d live by (simp add: generate_input_def Let_def)
        moreover have "out = Panic \<Longrightarrow> external_panics ru" using k(1,3) by (simp add: in_session_def)
        ultimately show ?thesis using k(2,3) c(1,3) live
          by (auto simp: session_outcome_def split: res.split)
      next
        case (Err e)
        then show ?thesis using br Ok False b live by (simp add: generate_input_def runtime_ok_def)
      qed (use br in simp)
    qed
  next
    case (Err e)
    then show ?thesis using assms(3) live check_request_outcome(2) [OF Err] by (simp add: generate_input_def)
  next
    case Panic
    then show ?thesis using assms(3) live check_request_outcome(1) [OF Panic]
      by (simp add: generate_input_def panicked_def runtime_free_def)
  qed
qed

text \<open>A small runtime: rows of width 2, a GPU that counts its passes, a greedy request of two tokens.\<close>

definition sample_runtime :: "model_descriptor \<Rightarrow> bindless_metadata \<Rightarrow> nat gpu_runtime" where
  "sample_runtime d bm =
     \<lparr>ru_forward = sample_forward d bm, ru_exec = (\<lambda>x embd pos n. (Suc x, Ok ([f32_one], [f32_one, 0]))),
      ru_dequant = (\<lambda>x off dim1. (x, Some [f32_one, f32_one])), ru_spec = tinylama_base\<lparr>n_embd := 2\<rparr>,
      ru_encode = (\<lambda>s. Ok [7, 8]), ru_encode_stop = (\<lambda>s. None), ru_decode = (\<lambda>t. Some ''x''), ru_eos_token = 2,
      ru_embd_offset = 0, ru_row_bytes = 8, ru_tdr_budget_ms = 30000, ru_exp = (\<lambda>x. f32_one), ru_sort_desc = (\<lambda>xs. xs),
      ru_elapsed_ms = (\<lambda>x y. 3)\<rparr>"

definition sample_request :: sampling_params where
  "sample_request = \<lparr>sp_max_tokens = 3, sp_temperature = 0, sp_top_p = f32_one, sp_repetition_penalty = f32_one,
     sp_seed = 1, sp_extra_stop_tokens = []\<rparr>"

definition no_hooks :: "nat session_hooks" where
  "no_hooks = \<lparr>hk_modify_logits = None, hk_control = Some (chain_control [noop_control]), hk_trace = None, hk_on_token = None\<rparr>"

definition idle_runtime :: "nat runtime" where
  "idle_runtime = \<lparr>rt_cache = sample_cache, rt_bound = None, rt_error = None, rt_rng = 1, rt_panicked = False, rt_ext = 0\<rparr>"

lemma sample_runtime_ok: "reliable (sample_runtime d bm)" "runtime_ok (sample_runtime d bm) idle_runtime"
  by (simp_all add: reliable_def external_panics_def exec_panics_def sorts_def sample_runtime_def runtime_ok_def runtime_free_def
      idle_runtime_def sample_forward_def cache_matches_def sample_cache_def sample_validated_def)

text \<open>A GPU that is lost at the first pass.\<close>

definition lost_runtime :: "model_descriptor \<Rightarrow> bindless_metadata \<Rightarrow> nat gpu_runtime" where
  "lost_runtime d bm = (sample_runtime d bm)\<lparr>ru_exec := (\<lambda>x embd pos n. (Suc x, Panic))\<rparr>"

lemma lost_runtime_free: "runtime_free (lost_runtime d bm) idle_runtime" "sorts (lost_runtime d bm)"
  using sample_runtime_ok [of d bm] by (simp_all add: runtime_ok_def runtime_free_def lost_runtime_def sorts_def reliable_def)

lemma generate_keeps_runtime_witness:
  "\<forall>d bm. (\<exists>rt' r. generate_input (sample_runtime d bm) fifo_engine (GI_Text ''Hi'') sample_request no_hooks idle_runtime = (rt', r) \<and>
       runtime_ok (sample_runtime d bm) rt' \<and> r \<noteq> Panic) \<and>
     runtime_free (lost_runtime d bm)
       (fst (generate_input (lost_runtime d bm) fifo_engine (GI_Text ''Hi'') sample_request no_hooks idle_runtime))"
proof (intro allI)
  fix d bm
  let ?run = "generate_input (sample_runtime d bm) fifo_engine (GI_Text ''Hi'') sample_request no_hooks idle_runtime"
  have ok: "sorts (sample_runtime d bm)" "runtime_free (sample_runtime d bm) idle_runtime" "\<not> external_panics (sample_runtime d bm)"
    using sample_runtime_ok [of d bm] by (simp_all add: reliable_def runtime_ok_def)
  obtain rt' r where g: "?run = (rt', r)" by (metis surj_pair)
  from generate_keeps_runtime [OF fifo_engine_ok ok(1,2), where inp = "GI_Text ''Hi''" and p = sample_request and h = no_hooks, unfolded g]
  have "runtime_ok (sample_runtime d bm) rt' \<and> r \<noteq> Panic"
    using ok(3) by (auto simp: runtime_ok_def idle_runtime_def)
  moreover from generate_keeps_runtime [OF fifo_engine_ok lost_runtime_free(2,1) [of d bm], where
      inp = "GI_Text ''Hi''" and p = sample_request and h = no_hooks]
  have "runtime_free (lost_runtime d bm)
      (fst (generate_input (lost_runtime d bm) fifo_engine (GI_Text ''Hi'') sample_request no_hooks idle_runtime))"
    by (simp add: case_prod_beta)
  ultimately show "(\<exists>rt' r. ?run = (rt', r) \<and> runtime_ok (sample_runtime d bm) rt' \<and> r \<noteq> Panic) \<and>
     runtime_free (lost_runtime d bm)
       (fst (generate_input (lost_runtime d bm) fifo_engine (GI_Text ''Hi'') sample_request no_hooks idle_runtime))"
    using g by blast
qed

end
