(* ===== verification/Delivery.thy ===== *)
theory Delivery
  imports Session
begin

text \<open>
  A generation on a GPU that delivers: when every execution returns finite logits, the
  device admits the frames and no hook objects, every forward pass of the session is
  accepted by the lease protocol, and the request is answered. The steps of the fabric
  (Generation), the passes (Forward) and the closures (Session) meet here.
\<close>

section \<open>A pass that succeeds\<close>

text \<open>The lease of a request whose committed extent is \<open>start\<close>.\<close>

definition extent_at :: "nat \<Rightarrow> nat \<Rightarrow> nat \<Rightarrow> controller \<Rightarrow> bool" where
  "extent_at i start prompt c =
     (i < length (cw_leases c) \<and> 0 < prompt \<and>
      cw_leases c ! i = \<lparr>sl_epoch = cw_epoch c, sl_phase = (if start < prompt then Prefill else Ready),
        sl_processed = start, sl_prompt = prompt, sl_pending = None, sl_closed = False\<rparr>)"

lemma open_extent: "open_at i start prompt c \<Longrightarrow> extent_at i start prompt c"
  by (simp add: open_at_def extent_at_def)

text \<open>An execution that always returns a value of \<open>V\<close>.\<close>

definition returns :: "('r \<Rightarrow> bool) \<Rightarrow> ('w, 'r) execution \<Rightarrow> bool" where
  "returns V exec = (\<forall>w e p n. \<exists>w' v. exec w e p n = (w', Ok v) \<and> V v)"

lemma decode_chunk:
  assumes acc: "access_ok fw spec kv i start 1" and embd: "length embd = n_embd spec" "n_embd spec \<noteq> 0"
    and pos: "unat pos = start" "unat seq_len = start + 1"
    and lease: "extent_at i start prompt c" "prompt \<le> start" "start + 1 \<le> cw_capacity c" "start + 1 < u64_range"
    and ident: "cw_identity c = vm_identity (fw_model fw)" and ex: "exec w embd pos seq_len = (w', Ok v)"
  shows "\<exists>c'. run_forward fw exec spec embd pos seq_len kv (c, w) = ((c', w'), Ok v) \<and> extent_at i (start + 1) prompt c' \<and>
    cw_identity c' = cw_identity c \<and> cw_capacity c' = cw_capacity c"
proof -
  let ?w = "\<lparr>sw_epoch = cw_epoch c, sw_start = start, sw_count = 1, sw_phase = Decode\<rparr>"
  let ?c = "lease_call i (LO_Prepare_Decode start) c"
  have a: "for_each (check_frame (fw_max_binding fw) 1) (frame_widths spec) = Ok ()"
    "validate_state_access fw spec 1 start (start + 1) kv = Ok (Some i)" using acc by (simp_all add: access_ok_def)
  have rows: "length embd div n_embd spec = 1" "\<not> (n_embd spec = 0 \<or> length embd mod n_embd spec \<noteq> 0)" using embd by simp_all
  have i: "i < length (cw_leases c)" and l: "cw_leases c ! i = \<lparr>sl_epoch = cw_epoch c, sl_phase = Ready, sl_processed = start,
      sl_prompt = prompt, sl_pending = None, sl_closed = False\<rparr>" using lease(1,2) by (simp_all add: extent_at_def)
  have prep: "prepare_decode (cw_capacity c) start (cw_leases c ! i) = ((cw_leases c ! i)\<lparr>sl_phase := Decode, sl_pending := Some ?w\<rparr>, Ok ?w)"
    using lease(3,4) by (simp add: l prepare_decode_def prepare_def checked_add_def Let_def)
  have res: "reserve_write fw i start 1 c = (?c, Ok ?w)"
    unfolding reserve_write_def Let_def prep using ident
    by (simp add: l check_identity_def require_read_def del: and_then_eq_Ok)
  have l1: "cw_leases ?c ! i = (cw_leases c ! i)\<lparr>sl_phase := Decode, sl_pending := Some ?w\<rparr>" using i prep by simp
  have com: "commit ?w (cw_leases ?c ! i) = ((cw_leases c ! i)\<lparr>sl_processed := start + 1\<rparr>, Ok ())"
    unfolding l1 using lease(4) by (simp add: l commit_def Let_def wadd_def)
  have set: "settle_write fw i ?w (Ok v) ?c = (lease_call i (LO_Commit ?w) ?c, Ok v)"
    unfolding settle_write_def res.case com by simp
  have "cw_leases (lease_call i (LO_Commit ?w) ?c) ! i = (cw_leases c ! i)\<lparr>sl_processed := start + 1\<rparr>"
    using lease_call_nth [of i ?c "LO_Commit ?w"] i com by (simp only: lease_step.simps lease_call_fields fst_conv)
  then have "extent_at i (start + 1) prompt (lease_call i (LO_Commit ?w) ?c)"
    using i lease(1,2) by (simp add: extent_at_def l)
  moreover have "run_forward fw exec spec embd pos seq_len kv (c, w) = ((lease_call i (LO_Commit ?w) ?c, w'), Ok v)"
    unfolding run_forward_def Let_def prod.case if_not_P [OF rows(2)] rows(1) pos a and_then.simps res.case option.case
      res ex set ..
  ultimately show ?thesis by simp
qed

lemma chunk_loop_succeeds:
  assumes acc: "access_ok fw spec kv i s0 R" and dim: "n_embd spec \<noteq> 0"
    and cap: "prompt \<le> ss_capacity (vm_state (fw_model fw))" "prompt < 2 ^ 32"
    and ex: "returns V exec"
    and chs: "\<forall>ch\<in>set chs. ch \<noteq> [] \<and> length ch mod n_embd spec = 0 \<and> length ch div n_embd spec \<le> R"
    and start: "unat pos + unat processed = start" "start + sum_list (map (\<lambda>ch. length ch div n_embd spec) chs) = prompt"
    and lease: "open_at i start prompt c" and ident: "cw_identity c = vm_identity (fw_model fw)"
    and last_r: "\<forall>v. last_r = Some v \<longrightarrow> V v" "chs = [] \<longrightarrow> last_r \<noteq> None"
  shows "\<exists>c' w' v. chunk_loop fw exec spec pos kv chs processed last_r (c, w) = ((c', w'), Ok (Some v)) \<and> V v \<and>
    open_at i prompt prompt c' \<and> cw_identity c' = cw_identity c \<and> cw_capacity c' = cw_capacity c"
  using chs start lease ident last_r
proof (induction chs arbitrary: processed start c w last_r)
  case Nil
  then show ?case by auto
next
  case (Cons ch chs)
  let ?rows = "length ch div n_embd spec"
  let ?here = "pos + processed" and ?n = "word_of_nat ?rows :: u32"
  let ?rest = "sum_list (map (\<lambda>ch. length ch div n_embd spec) chs)"
  have rows: "0 < ?rows" "?rows \<le> R" "length ch mod n_embd spec = 0"
    using Cons.prems(1) dim by (auto simp: div_greater_zero_iff mod_eq_0_iff_dvd intro: dvd_imp_le)
  have tot: "start + ?rows + ?rest = prompt" using Cons.prems(3) by simp
  have here: "unat ?here = start"
    using Cons.prems(2) tot cap(2) by (intro trans [OF unat_add_small]) simp_all
  have n: "unat ?n = ?rows" using tot cap(2) by (intro unat_word_of_nat_small) simp
  have stop: "unat (?here + ?n) = start + ?rows"
    using here n tot cap(2) by (intro trans [OF unat_add_small]) simp_all
  have proc: "unat (processed + ?n) = unat processed + ?rows"
    using Cons.prems(2) n tot cap(2) by (intro trans [OF unat_add_small]) simp_all
  have acc': "access_ok fw spec kv i start ?rows"
    using acc rows tot cap by (intro access_mono [OF acc]) (simp_all add: u64_range_def)
  obtain w1 v1 where e: "exec w ch ?here (?here + ?n) = (w1, Ok v1)" "V v1" using ex unfolding returns_def by blast
  have "start + ?rows \<le> prompt" "prompt < u64_range" using tot cap(2) by (simp_all add: u64_range_def)
  from forward_chunk [where exec = exec and w = w, OF acc' refl dim rows(3) here stop Cons.prems(4) rows(1) this Cons.prems(5) e(1)]
  obtain c1 where c1: "run_forward fw exec spec ch ?here (?here + ?n) kv (c, w) = ((c1, w1), Ok v1)"
    "open_at i (start + ?rows) prompt c1" "cw_identity c1 = cw_identity c" "cw_capacity c1 = cw_capacity c"
    by (auto simp: pass_outcome_def)
  have "\<forall>ch\<in>set chs. ch \<noteq> [] \<and> length ch mod n_embd spec = 0 \<and> length ch div n_embd spec \<le> R"
    "unat pos + unat (processed + ?n) = start + ?rows" using Cons.prems(1,2) proc by simp_all
  from Cons.IH [OF this tot c1(2) c1(3) [unfolded Cons.prems(5)], of "Some v1" w1] e(2)
  obtain c' w' v where "chunk_loop fw exec spec pos kv chs (processed + ?n) (Some v1) (c1, w1) = ((c', w'), Ok (Some v))" "V v"
    "open_at i prompt prompt c'" "cw_identity c' = cw_identity c1" "cw_capacity c' = cw_capacity c1" by auto
  then show ?case using c1 by (simp add: Let_def)
qed

lemma prefill_succeeds:
  assumes acc: "access_ok fw spec kv i 0 n" and embd: "length embd = n * n_embd spec" "n_embd spec \<noteq> 0" "0 < n"
    and chunk: "chunk \<noteq> 0" and cap: "n \<le> ss_capacity (vm_state (fw_model fw))" "n < 2 ^ 32" "n_embd spec < 2 ^ 32"
    and ex: "returns V exec" and lease: "open_at i 0 n c" and ident: "cw_identity c = vm_identity (fw_model fw)"
  shows "\<exists>c' w' v. run_prefill_chunked fw exec spec embd 0 kv chunk (c, w) = ((c', w'), Ok v) \<and> V v \<and>
    open_at i n n c' \<and> cw_identity c' = cw_identity c \<and> cw_capacity c' = cw_capacity c"
proof -
  let ?d = "n_embd spec" and ?k = "unat chunk * n_embd spec"
  have len: "length embd div ?d = n" "length embd mod ?d = 0" "embd \<noteq> []" using embd by auto
  have k: "0 < ?k" "?k mod ?d = 0" using chunk embd(2) by (simp_all add: unat_gt_0)
  have kr: "?k < u64_range"
  proof -
    have "?k < 2 ^ 32 * 2 ^ 32"
      using mult_strict_mono [of "unat chunk" "2 ^ 32" ?d "2 ^ 32"] unsigned_less [of chunk, where ?'a = nat] cap(3) by simp
    then show ?thesis by (simp add: u64_range_def)
  qed
  let ?chs = "chunks ?k embd"
  have chs: "\<forall>ch\<in>set ?chs. ch \<noteq> [] \<and> length ch mod ?d = 0 \<and> length ch div ?d \<le> n"
    using chunks_props(2) [OF k(1), of embd] chunks_props(3) [OF k(1,2) len(2)] len(1) by (auto dest: div_le_mono [of _ _ ?d])
  have "sum_list (map (\<lambda>ch. length ch div ?d) ?chs) = length (concat ?chs) div ?d"
    by (rule rows_concat) (use chs in blast)
  then have s: "sum_list (map (\<lambda>ch. length ch div ?d) ?chs) = n" using chunks_props(1) [OF k(1), of embd] len(1) by simp
  have ne: "?chs \<noteq> []" using len(3) k(1) by (simp add: chunks.simps [of ?k embd])
  have "\<exists>c' w' v. chunk_loop fw exec spec 0 kv ?chs 0 None (c, w) = ((c', w'), Ok (Some v)) \<and> V v \<and>
      open_at i n n c' \<and> cw_identity c' = cw_identity c \<and> cw_capacity c' = cw_capacity c"
    by (rule chunk_loop_succeeds [OF acc embd(2) cap(1,2) ex chs _ _ lease ident]) (use s ne in simp_all)
  moreover have "check_forward (fw_model fw) spec n 0 n = Ok ()"
    using acc by (auto simp: access_ok_def validate_state_access_def)
  ultimately show ?thesis using len embd(2) chunk kr cap(2)
    by (simp add: run_prefill_chunked_def Let_def checked_add_def checked_mul_def u64_range_def res_simps del: and_then_eq_Ok) auto
qed

lemma decode_succeeds:
  assumes acc: "access_ok fw spec kv i start 1" and embd: "length embd = n_embd spec" "n_embd spec \<noteq> 0" "n_embd spec < 2 ^ 32"
    and pos: "unat pos = start" "start + 1 < 2 ^ 32" and lease: "extent_at i start prompt c" "prompt \<le> start" "start + 1 \<le> cw_capacity c"
    and ident: "cw_identity c = vm_identity (fw_model fw)" and ex: "returns V exec"
  shows "\<exists>c' w' v. run_prefill_chunked fw exec spec embd pos kv 1 (c, w) = ((c', w'), Ok v) \<and> V v \<and>
    extent_at i (start + 1) prompt c' \<and> cw_identity c' = cw_identity c \<and> cw_capacity c' = cw_capacity c"
proof -
  have len: "embd \<noteq> []" "length embd div n_embd spec = 1" "length embd mod n_embd spec = 0" using embd by auto
  have seq: "unat (pos + 1) = start + 1" using pos by (intro trans [OF unat_add_small]) simp_all
  obtain w' v where e: "exec w embd pos (pos + 1) = (w', Ok v)" "V v" using ex unfolding returns_def by blast
  have "start + 1 < u64_range" using pos(2) by (simp add: u64_range_def)
  from decode_chunk [where exec = exec, OF acc embd(1,2) pos(1) seq lease this ident e(1)]
  obtain c' where c': "run_forward fw exec spec embd pos (pos + 1) kv (c, w) = ((c', w'), Ok v)" "extent_at i (start + 1) prompt c'"
    "cw_identity c' = cw_identity c" "cw_capacity c' = cw_capacity c" by blast
  have chs: "chunks (n_embd spec) embd = [embd]"
    using embd(1,2) len(1) by (simp add: chunks.simps [of _ embd] chunks.simps [of _ "[]"])
  have "check_forward (fw_model fw) spec 1 start (start + 1) = Ok ()"
    using acc by (auto simp: access_ok_def validate_state_access_def)
  then show ?thesis using len embd(2,3) pos(2) c' e(2)
    by (simp add: run_prefill_chunked_def Let_def checked_add_def checked_mul_def u64_range_def res_simps pos(1) chs del: and_then_eq_Ok)
qed

section \<open>The passes of a session\<close>

definition clean_logits :: "f32 list \<Rightarrow> bool" where
  "clean_logits logits = (logits \<noteq> [] \<and> list_all f32_is_finite logits)"

text \<open>The GPU returns finite logits and rows of the width it is asked for.\<close>

definition delivers :: "'x gpu_runtime \<Rightarrow> bool" where
  "delivers ru = (returns (\<lambda>(hidden, logits). clean_logits logits) (ru_exec ru) \<and>
     (\<forall>x off dim1. case snd (ru_dequant ru x off dim1) of Some row \<Rightarrow> length row = unat dim1 | None \<Rightarrow> False))"

lemma delivers_row:
  assumes "delivers ru"
  obtains x row where "dequant_row ru rt t dim1 = (rt\<lparr>rt_ext := x\<rparr>, row)" and "length row = unat dim1"
proof -
  obtain x r where r: "ru_dequant ru (rt_ext rt) (row_offset ru t) dim1 = (x, r)" by fastforce
  have "case snd (ru_dequant ru (rt_ext rt) (row_offset ru t) dim1) of Some row \<Rightarrow> length row = unat dim1 | None \<Rightarrow> False"
    using assms unfolding delivers_def by blast
  then obtain row where "r = Some row" "length row = unat dim1" unfolding r by (auto split: option.splits)
  with r that show thesis by (simp add: dequant_row_def)
qed

text \<open>The device and the plan admit a frame of \<open>n\<close> rows, apart from the request's lease.\<close>

definition admits :: "'x gpu_runtime \<Rightarrow> nat \<Rightarrow> bool" where
  "admits ru n =
     (for_each (check_frame (fw_max_binding (ru_forward ru)) n) (frame_widths (ru_spec ru)) = Ok () \<and>
      validate_state_access (ru_forward ru) (ru_spec ru) n 0 n None = Ok None)"

lemma admits_access:
  fixes b :: bound_request
  assumes "admits ru n" "0 < rows" "rows \<le> n" "start + rows \<le> ss_capacity (vm_state (fw_model (ru_forward ru)))"
    and "start + rows < u64_range" and b: "br_lease b = i" "br_k b = k" "br_v b = v"
  shows "access_ok ((ru_forward ru)\<lparr>fw_bound := Some b\<rparr>) (ru_spec ru) (Some (k, v)) i start rows"
proof -
  have "access_ok ((ru_forward ru)\<lparr>fw_bound := Some b\<rparr>) (ru_spec ru) (Some (k, v)) i 0 n"
    using assms(1) b by (auto simp: admits_def access_ok_def validate_state_access_def split: if_splits)
  from access_mono [OF this assms(2,3)] assms(4,5) show ?thesis by simp
qed

text \<open>The session before the prefill (\<open>None\<close>) or after \<open>m\<close> decoded tokens, without an error.\<close>

definition stage_ok :: "'x gpu_runtime \<Rightarrow> nat \<Rightarrow> nat \<Rightarrow> nat option \<Rightarrow> 'x runtime \<Rightarrow> bool" where
  "stage_ok ru i n st rt =
     (\<not> rt_panicked rt \<and> in_session ru i rt \<and> rt_error rt = None \<and>
      (\<exists>c b. gk_owner (rt_cache rt) = Some c \<and> rt_bound rt = Some b \<and> br_lease b = i \<and>
        br_k b = gk_k (rt_cache rt) \<and> br_v b = gk_v (rt_cache rt) \<and>
        (case st of None \<Rightarrow> open_at i 0 n c | Some m \<Rightarrow> extent_at i (n + m) n c)))"

lemma set_extent_eq:
  assumes "in_session ru i rt" "\<not> rt_panicked rt"
  shows "\<exists>len. set_extent i rt = rt\<lparr>rt_cache := (rt_cache rt)\<lparr>gk_seq_len := len\<rparr>\<rparr>"
proof -
  have "\<not> rt_panicked (set_extent i rt)" using set_extent_keeps(2) [OF assms(1)] assms(2) by simp
  moreover from assms obtain c where "gk_owner (rt_cache rt) = Some c" unfolding in_session_def by blast
  ultimately show ?thesis
    by (auto simp: set_extent_def panicked_def cache_set_seq_len_def split: if_splits res.splits)
qed

lemma pass_stage:
  assumes st: "stage_ok ru i n st rt"
    and run: "\<And>c b. \<lbrakk>gk_owner (rt_cache rt) = Some c; rt_bound rt = Some b; br_lease b = i; br_k b = gk_k (rt_cache rt);
        br_v b = gk_v (rt_cache rt); cw_identity c = vm_identity (fw_model (ru_forward ru));
        cw_capacity c = ss_capacity (vm_state (fw_model (ru_forward ru)));
        case st of None \<Rightarrow> open_at i 0 n c | Some m \<Rightarrow> extent_at i (n + m) n c\<rbrakk> \<Longrightarrow>
      \<exists>c' x hidden logits. run_prefill_chunked ((ru_forward ru)\<lparr>fw_bound := Some b\<rparr>) (ru_exec ru) (ru_spec ru) embd pos
          (Some (gk_k (rt_cache rt), gk_v (rt_cache rt))) chunk (c, rt_ext rt) = ((c', x), Ok (hidden, logits)) \<and>
        clean_logits logits \<and> extent_at i (n + m') n c'"
  obtains rt' hidden logits where "pass ru i chunk rt embd pos = (rt', hidden, logits)" "clean_logits logits"
    "stage_ok ru i n (Some m') rt'"
proof -
  from st obtain c b where c: "gk_owner (rt_cache rt) = Some c" "rt_bound rt = Some b" "br_lease b = i"
    "br_k b = gk_k (rt_cache rt)" "br_v b = gk_v (rt_cache rt)" "rt_error rt = None" "in_session ru i rt"
    "case st of None \<Rightarrow> open_at i 0 n c | Some m \<Rightarrow> extent_at i (n + m) n c"
    unfolding stage_ok_def by blast
  have own: "cw_identity c = vm_identity (fw_model (ru_forward ru))" "cw_capacity c = ss_capacity (vm_state (fw_model (ru_forward ru)))"
    "lease_held i c"
    using c(1,7) by (auto simp: in_session_def owned_by_def)
  obtain c' x hidden logits where r: "run_prefill_chunked ((ru_forward ru)\<lparr>fw_bound := Some b\<rparr>) (ru_exec ru) (ru_spec ru) embd pos
      (Some (gk_k (rt_cache rt), gk_v (rt_cache rt))) chunk (c, rt_ext rt) = ((c', x), Ok (hidden, logits))"
    "clean_logits logits" "extent_at i (n + m') n c'" using run [OF c(1-5) own(1,2) c(8)] by blast
  let ?rt = "rt\<lparr>rt_cache := (rt_cache rt)\<lparr>gk_owner := Some c'\<rparr>, rt_ext := x\<rparr>"
  have np: "\<not> rt_panicked rt" using st by (simp add: stage_ok_def)
  then have p: "pass ru i chunk rt embd pos = (set_extent i ?rt, hidden, logits)"
    using r(1,2) c(1,2) by (simp add: pass_def read_result_def clean_logits_def)
  have "only_calls i c c'"
    using prefill_only_calls [of "(ru_forward ru)\<lparr>fw_bound := Some b\<rparr>" b i, OF _ c(3), where exec = "ru_exec ru" and c = c and
      spec = "ru_spec ru" and embd = embd and pos = pos and kv = "(gk_k (rt_cache rt), gk_v (rt_cache rt))" and chunk = chunk and
      w = "rt_ext rt"] unfolding r(1) by simp
  then have held: "lease_held i c'" "owned_by (fw_model (ru_forward ru)) c'"
    using only_calls_held own by (auto simp: owned_by_def)
  then have s: "in_session ru i ?rt" using c(2,3,7) by (simp add: in_session_def)
  moreover have np': "\<not> rt_panicked ?rt" using np by simp
  ultimately obtain len where len: "set_extent i ?rt = ?rt\<lparr>rt_cache := (rt_cache ?rt)\<lparr>gk_seq_len := len\<rparr>\<rparr>" using set_extent_eq by blast
  have "stage_ok ru i n (Some m') (set_extent i ?rt)"
    using set_extent_keeps [OF s] np' c r(3) unfolding stage_ok_def len by simp
  with p r(2) that show thesis by blast
qed

lemma prefill_stage:
  assumes "delivers ru" "admits ru n" "stage_ok ru i n None rt"
    and n: "0 < n" "n \<le> ss_capacity (vm_state (fw_model (ru_forward ru)))" "n < 2 ^ 32"
    and d: "n_embd (ru_spec ru) \<noteq> 0" "n_embd (ru_spec ru) < 2 ^ 32" "length batched = n * n_embd (ru_spec ru)"
    and chunk: "prefill_chunk (fw_env (ru_forward ru)) \<noteq> 0"
  obtains rt' hidden logits where "prefill_call ru i rt batched k = (rt', hidden, logits)" "clean_logits logits"
    "stage_ok ru i n (Some 0) rt'"
proof (rule pass_stage [OF assms(3), where embd = batched and pos = 0 and chunk = "prefill_chunk (fw_env (ru_forward ru))" and m' = 0])
  fix c :: controller and b :: bound_request
  assume b: "br_lease b = i" "br_k b = gk_k (rt_cache rt)" "br_v b = gk_v (rt_cache rt)"
    and c: "cw_identity c = vm_identity (fw_model (ru_forward ru))" "case None of None \<Rightarrow> open_at i 0 n c | Some m \<Rightarrow> extent_at i (n + m) n c"
  let ?fw = "(ru_forward ru)\<lparr>fw_bound := Some b\<rparr>"
  have acc: "access_ok ?fw (ru_spec ru) (Some (gk_k (rt_cache rt), gk_v (rt_cache rt))) i 0 n"
    by (rule admits_access [OF assms(2) n(1) _ _ _ b]) (use n in \<open>simp_all add: u64_range_def\<close>)
  have op: "open_at i 0 n c" using c(2) by simp
  have ret: "returns (\<lambda>(hidden, logits). clean_logits logits) (ru_exec ru)" using assms(1) by (simp add: delivers_def)
  have m: "fw_model ?fw = fw_model (ru_forward ru)" by simp
  from prefill_succeeds [where w = "rt_ext rt", OF acc d(3,1) n(1) chunk _ n(3) d(2) ret op] n(2) c(1)
  obtain c' x v where r: "run_prefill_chunked ?fw (ru_exec ru) (ru_spec ru) batched 0
      (Some (gk_k (rt_cache rt), gk_v (rt_cache rt))) (prefill_chunk (fw_env (ru_forward ru))) (c, rt_ext rt) = ((c', x), Ok v)"
    "(\<lambda>(hidden, logits). clean_logits logits) v" "open_at i n n c'" unfolding m by blast
  then show "\<exists>c' x hidden logits. run_prefill_chunked ?fw (ru_exec ru) (ru_spec ru) batched 0
      (Some (gk_k (rt_cache rt), gk_v (rt_cache rt))) (prefill_chunk (fw_env (ru_forward ru))) (c, rt_ext rt) =
      ((c', x), Ok (hidden, logits)) \<and> clean_logits logits \<and> extent_at i (n + 0) n c'"
    by (cases v) (auto dest: open_extent)
qed (use that in \<open>simp add: prefill_call_def\<close>)

lemma forward_stage:
  assumes "delivers ru" "admits ru n" "stage_ok ru i n (Some m) rt"
    and n: "0 < n" "n + m + 1 \<le> ss_capacity (vm_state (fw_model (ru_forward ru)))" "n + m + 1 < 2 ^ 32"
    and d: "n_embd (ru_spec ru) \<noteq> 0" "n_embd (ru_spec ru) < 2 ^ 32" and pos: "unat pos = n + m"
  obtains rt' hidden logits where "forward_call ru i rt [val] pos = (rt', hidden, logits)" "clean_logits logits"
    "stage_ok ru i n (Some (m + 1)) rt'"
proof -
  obtain x row where dq: "dequant_row ru rt (f32_as_u32 val) (word_of_nat (n_embd (ru_spec ru))) = (rt\<lparr>rt_ext := x\<rparr>, row)"
    and "length row = unat (word_of_nat (n_embd (ru_spec ru)) :: u32)" by (rule delivers_row [OF assms(1)])
  then have len: "length row = n_embd (ru_spec ru)" using d(2) by (simp add: unat_word_of_nat_small)
  let ?rt = "rt\<lparr>rt_ext := x\<rparr>"
  have np: "\<not> rt_panicked ?rt" using assms(3) by (simp add: stage_ok_def)
  have st: "stage_ok ru i n (Some m) ?rt" using assms(3) by (simp add: stage_ok_def)
  show thesis
  proof (rule pass_stage [OF st, where embd = row and pos = pos and chunk = 1 and m' = "m + 1"])
    fix c :: controller and b :: bound_request
    assume b: "br_lease b = i" "br_k b = gk_k (rt_cache ?rt)" "br_v b = gk_v (rt_cache ?rt)"
      and c: "cw_identity c = vm_identity (fw_model (ru_forward ru))" "cw_capacity c = ss_capacity (vm_state (fw_model (ru_forward ru)))"
        "case Some m of None \<Rightarrow> open_at i 0 n c | Some m \<Rightarrow> extent_at i (n + m) n c"
    let ?fw = "(ru_forward ru)\<lparr>fw_bound := Some b\<rparr>"
    have acc: "access_ok ?fw (ru_spec ru) (Some (gk_k (rt_cache ?rt), gk_v (rt_cache ?rt))) i (n + m) 1"
      by (rule admits_access [OF assms(2) _ _ _ _ b]) (use n in \<open>simp_all add: u64_range_def\<close>)
    have ext: "extent_at i (n + m) n c" using c(3) by simp
    have ret: "returns (\<lambda>(hidden, logits). clean_logits logits) (ru_exec ru)" using assms(1) by (simp add: delivers_def)
    have cap: "n + m + 1 \<le> cw_capacity c" using n(2) c(2) by simp
    have ident: "cw_identity c = vm_identity (fw_model ?fw)" using c(1) by simp
    from decode_succeeds [where w = "rt_ext ?rt", OF acc len d pos n(3) ext _ cap ident ret]
    obtain c' x' v where "run_prefill_chunked ?fw (ru_exec ru) (ru_spec ru) row pos
        (Some (gk_k (rt_cache ?rt), gk_v (rt_cache ?rt))) 1 (c, rt_ext ?rt) = ((c', x'), Ok v)"
      "(\<lambda>(hidden, logits). clean_logits logits) v" "extent_at i (n + m + 1) n c'" by auto
    then show "\<exists>c' x hidden logits. run_prefill_chunked ?fw (ru_exec ru) (ru_spec ru) row pos
        (Some (gk_k (rt_cache ?rt), gk_v (rt_cache ?rt))) 1 (c, rt_ext ?rt) =
        ((c', x), Ok (hidden, logits)) \<and> clean_logits logits \<and> extent_at i (n + (m + 1)) n c'"
      by (cases v) auto
  qed (use that np in \<open>simp add: forward_call_def dq\<close>)
qed

section \<open>Closures that never object\<close>

text \<open>
  Closures that keep \<open>J\<close>, the passes apart, with a mask asked for clean logits only and a
  control that never blocks. A rule then keeps \<open>J\<close>, records no reason to block, and does not
  derive that the prefill is complete.
\<close>

locale delivering =
  fixes cl :: "'w closures" and J :: "'w \<Rightarrow> bool"
  assumes dequant_J: "J w \<Longrightarrow> J (fst (ic_dequant cl w token_id (ic_dim cl)))"
    and sample_J: "J w \<Longrightarrow> J (fst (ic_sample cl w logits recent))"
    and decode_J: "J w \<Longrightarrow> J (fst (ic_decode cl w token_id))"
    and increment_J: "J w \<Longrightarrow> J (ic_kv_increment cl w)"
    and mask_J: "J w \<Longrightarrow> clean_logits logits \<Longrightarrow> J (fst (apply_mask cl w logits))"
    and control_J: "J w \<Longrightarrow> J (fst (apply_control cl w candidate txt step ids kv_len))"
    and control_passes: "J w \<Longrightarrow> snd (apply_control cl w candidate txt step ids kv_len) \<noteq> CD_Block reason"
    and trace_J: "J w \<Longrightarrow> J (apply_trace cl w step logits ms)"
    and token_J: "J w \<Longrightarrow> J (emit_piece cl w piece)"
begin

definition good_fired :: "'w fired \<Rightarrow> bool" where
  "good_fired r = (case r of Ok (fs, s, w) \<Rightarrow> J w \<and> is_block_reason s = None \<and> (\<forall>q. PrefillComplete q \<notin> set fs) | _ \<Rightarrow> True)"

lemma halt_good: "J w \<Longrightarrow> is_block_reason s = None \<Longrightarrow> good_fired (halt_with reason s w)"
  by (simp add: good_fired_def halt_with_def)

lemma first_token_good: "J w \<Longrightarrow> is_block_reason s = None \<Longrightarrow> good_fired (first_token cl token_id s w)"
  unfolding first_token_def Let_def case_prod_beta
  by (auto intro: halt_good) (simp add: good_fired_def decode_J token_J)

lemma next_token_good:
  "J w \<Longrightarrow> is_block_reason s = None \<Longrightarrow> good_fired (next_token cl step position logits rb sb ms token_id s w)"
  unfolding next_token_def Let_def case_prod_beta
  by (auto intro: halt_good) (simp add: good_fired_def decode_J token_J)

lemma decided_good:
  assumes "J w" and "\<And>token_id w. J w \<Longrightarrow> good_fired (next token_id w)" and "\<And>w. J w \<Longrightarrow> good_fired (stop w)"
  shows "good_fired (case snd (apply_control cl w candidate txt step ids kv_len) of
      CD_Allow \<Rightarrow> next token_id (fst (apply_control cl w candidate txt step ids kv_len))
    | CD_Force t \<Rightarrow> next (word_of_nat t) (fst (apply_control cl w candidate txt step ids kv_len))
    | CD_EarlyExit \<Rightarrow> stop (fst (apply_control cl w candidate txt step ids kv_len))
    | CD_Block r \<Rightarrow> refuse r)"
  using control_passes [OF assms(1)] control_J [OF assms(1)] assms(2,3)
  by (simp split: control_decision.split)

lemma prefill_complete_good:
  assumes "J w" "is_block_reason s = None" "clean_logits (is_logits s)"
  shows "good_fired (rule_prefill_complete cl s w)"
  unfolding rule_prefill_complete_def Let_def case_prod_beta
  by (rule decided_good) (use assms in \<open>auto intro!: sample_J mask_J first_token_good halt_good\<close>)

lemma decode_good:
  assumes "is_block_reason s = None" and "is_max_tokens s \<le> step + 1 \<Longrightarrow> J w"
    and "\<not> is_max_tokens s \<le> step + 1 \<Longrightarrow> ic_forward cl w [f32_of_int (uint token_id)] position = (w1, hidden, logits) \<and>
      J w1 \<and> clean_logits logits"
  shows "good_fired (rule_decode_step cl (DecodeStep step token_id position) s w)"
proof (cases "is_max_tokens s \<le> step + 1")
  case True
  then show ?thesis using assms(1,2) halt_good by (simp add: rule_decode_step_def)
next
  case False
  with assms(3) have f: "ic_forward cl w [f32_of_int (uint token_id)] position = (w1, hidden, logits)" "J w1" "clean_logits logits"
    by blast+
  have ne: "logits \<noteq> []" using f(3) by (simp add: clean_logits_def)
  show ?thesis
    unfolding rule_decode_step_def inference_fact.case if_not_P [OF False] Let_def f(1) case_prod_beta fst_conv snd_conv if_not_P [OF ne]
    by (rule decided_good) (use assms(1) f in \<open>auto intro!: sample_J trace_J mask_J next_token_good halt_good\<close>)
qed

lemma other_rules_good:
  assumes "J w" "is_block_reason s = None" "\<not> isf_driver ft"
  shows "good_fired (isf_program cl ft s w) \<and>
    (\<forall>fs s' w'. isf_program cl ft s w = Ok (fs, s', w') \<longrightarrow> is_logits s' = is_logits s)"
proof (cases "triggers ft")
  case True
  then show ?thesis
    using assms increment_J dequant_J
    by (cases ft) (auto simp: triggers_def isf_driver_def program_simps program_rules good_fired_def rule_embedding_request_def
        rule_embedding_ready_def rule_dispatch_completed_def tensor_fact_dispatch_rule_def case_prod_beta Let_def
        split: option.splits)
qed (use assms in \<open>simp add: program_quiet good_fired_def\<close>)

end

text \<open>The facts that drive a run, pending under the invariant of a run, tell its phase.\<close>

lemma pending_driver:
  assumes inv: "isf_inv ids g S Q s calls" and ft: "ft \<in> Q" "isf_driver ft"
  shows "drivers Q = {ft}"
    and "ft = PrefillBatchReady k \<Longrightarrow> prefill_due ids S Q s calls \<and> k = is_prompt_len s"
    and "ft = PrefillComplete q \<Longrightarrow> after_prefill ids S s calls \<and> sample_due ids S Q s calls"
    and "ft = DecodeStep k t pos \<Longrightarrow> after_prefill ids S s calls \<and> pos = is_prompt_len s + k \<and>
      (\<exists>gen. decode_due ids g k gen S Q s calls)"
proof -
  have QS: "Q \<subseteq> S" and ph: "run_phase ids g S Q s calls" using inv by (auto simp: isf_inv_def)
  have d: "ft \<in> drivers Q" "drivers Q \<subseteq> drivers S" using ft QS by (auto simp: drivers_def)
  from ph consider (before) "drivers S = {}" | (due) "prefill_due ids S Q s calls"
    | (sample) "after_prefill ids S s calls" "sample_due ids S Q s calls"
    | (decode) j gen where "after_prefill ids S s calls" "decode_due ids g j gen S Q s calls" | (ended) "drivers Q = {}"
    unfolding run_phase_def before_prefill_def run_ended_def by blast
  then have "drivers Q = {ft} \<and>
      (ft = PrefillBatchReady (is_prompt_len s) \<and> prefill_due ids S Q s calls \<or>
       ft = PrefillComplete (is_prompt_len s) \<and> after_prefill ids S s calls \<and> sample_due ids S Q s calls \<or>
       (\<exists>j gen. ft = DecodeStep j (last gen) (is_prompt_len s + j) \<and> after_prefill ids S s calls \<and> decode_due ids g j gen S Q s calls))"
  proof cases
    case due
    then have "drivers S = {PrefillBatchReady (is_prompt_len s)}" by (simp add: prefill_due_def)
    then have "ft = PrefillBatchReady (is_prompt_len s)" "drivers Q = {ft}" using d by auto
    with due show ?thesis by simp
  next
    case sample
    then have "drivers Q = {PrefillComplete (is_prompt_len s)}" by (simp add: sample_due_def)
    with d(1) sample show ?thesis by simp
  next
    case (decode j gen)
    then have "drivers Q = {DecodeStep j (last gen) (is_prompt_len s + j)}" by (simp add: decode_due_def)
    with d(1) decode show ?thesis by auto
  qed (use d in auto)
  then have drv: "drivers Q = {ft}"
    and alt: "ft = PrefillBatchReady (is_prompt_len s) \<and> prefill_due ids S Q s calls \<or>
       ft = PrefillComplete (is_prompt_len s) \<and> after_prefill ids S s calls \<and> sample_due ids S Q s calls \<or>
       (\<exists>j gen. ft = DecodeStep j (last gen) (is_prompt_len s + j) \<and> after_prefill ids S s calls \<and> decode_due ids g j gen S Q s calls)"
    by simp_all
  show "drivers Q = {ft}" by (rule drv)
  show "prefill_due ids S Q s calls \<and> k = is_prompt_len s" if "ft = PrefillBatchReady k" using alt unfolding that by simp
  show "after_prefill ids S s calls \<and> sample_due ids S Q s calls" if "ft = PrefillComplete q" using alt unfolding that by simp
  show "after_prefill ids S s calls \<and> pos = is_prompt_len s + k \<and> (\<exists>gen. decode_due ids g k gen S Q s calls)"
    if "ft = DecodeStep k t pos" using alt unfolding that by auto
qed

section \<open>The session meets the fabric\<close>

text \<open>Hooks that let a generation go on: some token is left permitted, nothing is blocked.\<close>

definition permissive :: "'x gpu_runtime \<Rightarrow> 'x session_hooks \<Rightarrow> bool" where
  "permissive ru h =
     ((\<forall>m x logits. hk_modify_logits h = Some m \<longrightarrow> clean_logits logits \<longrightarrow>
         \<not> list_ex (\<lambda>v. f32_is_nan v \<or> f32_eq v f32_infinity) (snd (m x logits)) \<and> list_ex f32_is_finite (snd (m x logits))) \<and>
      (\<forall>c x candidate txt step ids n. hk_control h = Some c \<longrightarrow>
         (case snd (c x candidate txt step ids n) of
            BlockAndTerminate _ \<Rightarrow> False | ForceToken t \<Rightarrow> t < n_vocab (ru_spec ru) | _ \<Rightarrow> True)))"

definition stage_of :: "(f32 list \<times> u32) list \<Rightarrow> (f32 list \<times> u32) list \<Rightarrow> nat option" where
  "stage_of pre fwd = (if pre = [] then None else Some (length fwd))"

definition delivery_ok :: "'x gpu_runtime \<Rightarrow> 'x session_hooks \<Rightarrow> nat \<Rightarrow> nat \<Rightarrow> bool" where
  "delivery_ok ru h n tot =
     (reliable ru \<and> delivers ru \<and> permissive ru h \<and> admits ru n \<and> 0 < n \<and> n \<le> tot \<and>
      tot \<le> ss_capacity (vm_state (fw_model (ru_forward ru))) \<and> tot < 2 ^ 32 \<and>
      n_embd (ru_spec ru) \<noteq> 0 \<and> n_embd (ru_spec ru) < 2 ^ 32 \<and> prefill_chunk (fw_env (ru_forward ru)) \<noteq> 0)"

definition at_stage ::
    "'x gpu_runtime \<Rightarrow> 'x session_hooks \<Rightarrow> nat \<Rightarrow> nat \<Rightarrow> nat \<Rightarrow> (f32 list \<times> u32) list \<Rightarrow> (f32 list \<times> u32) list \<Rightarrow>
     isf_call list \<times> 'x runtime \<Rightarrow> bool" where
  "at_stage ru h i n tot pre fwd lw =
     (delivery_ok ru h n tot \<and> prefills (fst lw) = pre \<and> forwards (fst lw) = fwd \<and>
      (\<forall>d\<in>set (dequants (fst lw)). length (snd d) = n_embd (ru_spec ru)) \<and>
      stage_ok ru i n (stage_of pre fwd) (snd lw))"

lemma stage_fields [simp]:
  "stage_ok ru i n st (rt\<lparr>rt_ext := x\<rparr>) = stage_ok ru i n st rt" "stage_ok ru i n st (rt\<lparr>rt_rng := r\<rparr>) = stage_ok ru i n st rt"
  by (simp_all add: stage_ok_def)

lemma finite_not_infinite: "f32_is_finite v \<Longrightarrow> \<not> f32_is_nan v \<and> \<not> f32_eq v f32_infinity"
proof -
  assume "f32_is_finite v"
  then obtain s m e where v: "decode v = FFin s m e" by (auto simp: f32_is_finite_def split: fdec.splits)
  have "decode f32_infinity = FInf False" by (simp add: f32_infinity_def decode_def)
  with v show ?thesis by (simp add: f32_is_nan_def f32_eq_def f32_lt_def)
qed

lemma mask_stage:
  assumes "permissive ru h" "clean_logits logits" "stage_ok ru i n st rt"
  shows "stage_ok ru i n st (fst (mask_call h rt logits))"
proof (cases "hk_modify_logits h")
  case None
  have "\<not> list_ex (\<lambda>v. f32_is_nan v \<or> f32_eq v f32_infinity) logits" "list_ex f32_is_finite logits"
    using assms(2) finite_not_infinite by (cases logits; auto simp: clean_logits_def list_ex_iff list_all_iff)+
  then show ?thesis using None assms(3) by (simp add: mask_call_def)
next
  case (Some m)
  obtain x l where l: "m (rt_ext rt) logits = (x, l)" by fastforce
  have "\<not> list_ex (\<lambda>v. f32_is_nan v \<or> f32_eq v f32_infinity) (snd (m (rt_ext rt) logits)) \<and>
      list_ex f32_is_finite (snd (m (rt_ext rt) logits))"
    using assms(1,2) Some unfolding permissive_def by blast
  then show ?thesis using Some assms(3) by (simp add: mask_call_def l)
qed

lemma control_stage:
  assumes "permissive ru h" "stage_ok ru i n st rt"
  shows "stage_ok ru i n st (fst (control_call ru h rt candidate so_far step ids k)) \<and>
    snd (control_call ru h rt candidate so_far step ids k) \<noteq> CD_Block r"
proof -
  have e: "rt_error rt = None" using assms(2) by (simp add: stage_ok_def)
  show ?thesis
  proof (cases "hk_control h")
    case (Some c)
    obtain x d where d: "c (rt_ext rt) candidate so_far step ids k = (x, d)" by fastforce
    have "case snd (c (rt_ext rt) candidate so_far step ids k) of
        BlockAndTerminate _ \<Rightarrow> False | ForceToken t \<Rightarrow> t < n_vocab (ru_spec ru) | _ \<Rightarrow> True"
      using assms(1) Some unfolding permissive_def by blast
    then show ?thesis using Some assms(2) e by (cases d) (simp_all add: control_call_def d)
  qed (use assms(2) e in \<open>simp add: control_call_def\<close>)
qed

lemma session_hooks_applied:
  assumes "\<not> rt_panicked rt"
  shows "apply_mask (session_closures ru p h i) rt logits = mask_call h rt logits"
    and "apply_control (session_closures ru p h i) rt candidate so_far step ids k = control_call ru h rt candidate so_far step ids k"
    and "apply_trace (session_closures ru p h i) rt step logits ms =
      (case hk_trace h of Some t \<Rightarrow> on_ext (\<lambda>x. t x step logits ms) rt | None \<Rightarrow> rt)"
    and "emit_piece (session_closures ru p h i) rt piece =
      (case hk_on_token h of Some f \<Rightarrow> on_ext (\<lambda>x. f x piece) rt | None \<Rightarrow> rt)"
  using assms
  by (simp_all add: apply_mask_def apply_control_def apply_trace_def emit_piece_def closure_selectors unwound_live split: option.split)

lemma hook_stage:
  assumes "stage_ok ru i n st rt"
  shows "stage_ok ru i n st (apply_trace (session_closures ru p h i) rt step logits ms)"
    and "stage_ok ru i n st (emit_piece (session_closures ru p h i) rt piece)"
  using assms session_hooks_applied(3,4) [of rt] by (auto simp: stage_ok_def on_ext_def split: option.split)

lemma sample_stage:
  assumes "reliable ru" "stage_ok ru i n st rt"
  shows "stage_ok ru i n st (fst (sample_call ru p rt logits recent))"
proof -
  have "\<And>xs. mset (ru_sort_desc ru xs) = mset xs" using assms(1) by (simp add: reliable_def sorts_def)
  then obtain t l g where "sample_token (ru_exp ru) (ru_sort_desc ru) logits (sp_temperature p) (sp_top_p p)
      (sp_repetition_penalty p) recent (rt_rng rt) = Ok (t, l, g)" by (rule sample_total)
  then show ?thesis using assms(2) by (simp add: sample_call_def)
qed

lemma dequant_length:
  assumes "delivery_ok ru h n tot" "stage_ok ru i n st rt"
  shows "length (snd (dequant_row ru rt t (word_of_nat (n_embd (ru_spec ru))))) = n_embd (ru_spec ru) \<and>
    stage_ok ru i n st (fst (dequant_row ru rt t (word_of_nat (n_embd (ru_spec ru)))))"
proof -
  have "delivers ru" using assms(1) by (simp add: delivery_ok_def)
  then obtain x row where "dequant_row ru rt t (word_of_nat (n_embd (ru_spec ru))) = (rt\<lparr>rt_ext := x\<rparr>, row)"
    "length row = unat (word_of_nat (n_embd (ru_spec ru)) :: u32)" by (rule delivers_row)
  then show ?thesis using assms by (simp add: delivery_ok_def unat_word_of_nat_small)
qed

interpretation delivery: delivering "logging (session_closures ru p h i)" "at_stage ru h i n tot pre fwd"
  for ru :: "'x gpu_runtime" and p h i n tot pre fwd
proof (unfold_locales)
  fix lw :: "isf_call list \<times> 'x runtime"
  assume at: "at_stage ru h i n tot pre fwd lw"
  obtain l rt where lw: "lw = (l, rt)" by fastforce
  from at have l: "prefills l = pre" "forwards l = fwd" "\<forall>d\<in>set (dequants l). length (snd d) = n_embd (ru_spec ru)"
    and ok: "delivery_ok ru h n tot" and st: "stage_ok ru i n (stage_of pre fwd) rt" by (simp_all add: at_stage_def lw)
  have rel: "reliable ru" and perm: "permissive ru h" using ok by (simp_all add: delivery_ok_def)
  have np: "\<not> rt_panicked rt" using st by (simp add: stage_ok_def)
  note log = logging_simps [of "session_closures ru p h i", unfolded closure_selectors] unwound_live [OF np]
  show "at_stage ru h i n tot pre fwd (fst (ic_dequant (logging (session_closures ru p h i)) lw t (ic_dim (logging (session_closures ru p h i)))))" for t
  proof -
    have d: "ic_dim (session_closures ru p h i) = word_of_nat (n_embd (ru_spec ru))" by (simp add: session_closures_def)
    show ?thesis using l ok dequant_length [OF ok st] by (simp add: lw log d at_stage_def)
  qed
  show "at_stage ru h i n tot pre fwd (fst (ic_sample (logging (session_closures ru p h i)) lw logits recent))" for logits recent
    using l ok sample_stage [OF rel st] by (simp add: lw log at_stage_def)
  show "at_stage ru h i n tot pre fwd (fst (ic_decode (logging (session_closures ru p h i)) lw t))" for t
    using l ok st by (simp add: lw log at_stage_def decode_call_def)
  show "at_stage ru h i n tot pre fwd (ic_kv_increment (logging (session_closures ru p h i)) lw)"
    using l ok st by (simp add: lw log at_stage_def)
  show "at_stage ru h i n tot pre fwd (fst (apply_mask (logging (session_closures ru p h i)) lw logits))" if "clean_logits logits" for logits
    using l ok mask_stage [OF perm that st] by (simp add: lw log at_stage_def session_hooks_applied [OF np])
  show "at_stage ru h i n tot pre fwd (fst (apply_control (logging (session_closures ru p h i)) lw candidate so_far step ids k))"
    for candidate so_far step ids k
    using l ok control_stage [OF perm st] by (simp add: lw log at_stage_def session_hooks_applied [OF np])
  show "snd (apply_control (logging (session_closures ru p h i)) lw candidate so_far step ids k) \<noteq> CD_Block r"
    for candidate so_far step ids k r
    using control_stage [OF perm st] by (simp add: lw log session_hooks_applied [OF np])
  show "at_stage ru h i n tot pre fwd (apply_trace (logging (session_closures ru p h i)) lw step logits ms)" for step logits ms
    using l ok hook_stage(1) [OF st] by (simp add: lw log at_stage_def)
  show "at_stage ru h i n tot pre fwd (emit_piece (logging (session_closures ru p h i)) lw piece)" for piece
    using l ok hook_stage(2) [OF st] by (simp add: lw log at_stage_def)
qed

text \<open>What holds of a delivering session between the rules of its fabric.\<close>

definition delivery_inv ::
    "'x gpu_runtime \<Rightarrow> 'x session_hooks \<Rightarrow> nat \<Rightarrow> nat \<Rightarrow> nat \<Rightarrow> (isf_call list \<times> 'x runtime) fabric \<Rightarrow> bool" where
  "delivery_inv ru h i n tot fb =
     (at_stage ru h i n tot (prefills (fst (fb_world fb))) (forwards (fst (fb_world fb))) (fb_world fb) \<and>
      is_block_reason (fb_state fb) = None \<and>
      (\<forall>q. PrefillComplete q \<in> set (fb_pending fb) \<longrightarrow> clean_logits (is_logits (fb_state fb))))"

lemma delivery_invI:
  assumes "at_stage ru h i n tot pre fwd (fb_world fb)" and "is_block_reason (fb_state fb) = None"
    and "\<And>q. PrefillComplete q \<in> set (fb_pending fb) \<Longrightarrow> clean_logits (is_logits (fb_state fb))"
  shows "delivery_inv ru h i n tot fb"
  using assms by (auto simp: delivery_inv_def at_stage_def)

text \<open>A rule that keeps the stage and derives nothing that asks for logits.\<close>

lemma deliver_rule:
  assumes fire: "fire cl ft fb = Ok fb'" and inv: "delivery_inv ru h i n tot fb" and ft: "ft \<in> set (fb_pending fb)"
    and good: "\<And>fs s' w'. isf_program cl ft (fb_state fb) (fb_world fb) = Ok (fs, s', w') \<Longrightarrow>
      at_stage ru h i n tot pre fwd w' \<and> is_block_reason s' = None \<and> (\<forall>q. PrefillComplete q \<notin> set fs) \<and>
      (is_logits s' = is_logits (fb_state fb) \<or> (\<forall>q. PrefillComplete q \<in> set (fb_pending fb) \<longrightarrow> PrefillComplete q = ft))"
  shows "delivery_inv ru h i n tot fb'"
proof -
  obtain fs s' w' where r: "isf_program cl ft (fb_state fb) (fb_world fb) = Ok (fs, s', w')" "fb_state fb' = s'" "fb_world fb' = w'"
    "set (fb_store fb') = set (fb_store fb) \<union> set fs"
    "set (fb_pending fb') = (set (fb_pending fb) - {ft}) \<union> (set fs - set (fb_store fb))"
    by (rule fireE [OF fire])
  note g = good [OF r(1)]
  show ?thesis
  proof (rule delivery_invI)
    show "at_stage ru h i n tot pre fwd (fb_world fb')" "is_block_reason (fb_state fb') = None" using g r by simp_all
  next
    fix q assume q: "PrefillComplete q \<in> set (fb_pending fb')"
    then have "PrefillComplete q \<in> set (fb_pending fb)" "PrefillComplete q \<noteq> ft" using g r(5) by auto
    then show "clean_logits (is_logits (fb_state fb'))" using g inv r(2) unfolding delivery_inv_def by metis
  qed
qed

lemma deliver_step:
  fixes fb :: "(isf_call list \<times> 'x runtime) fabric"
  assumes inv: "delivery_inv ru h i (length ids) tot fb" and fab: "fabric_inv fst ids g fb" and ids: "ids \<noteq> []"
    and tot: "tot = length ids + (unat g - 1)" and ft: "ft \<in> set (fb_pending fb)"
    and fire: "fire (logging (session_closures ru p h i)) ft fb = Ok fb'"
  shows "delivery_inv ru h i (length ids) tot fb'"
proof -
  let ?cl = "logging (session_closures ru p h i)" and ?n = "length ids" and ?d = "n_embd (ru_spec ru)"
  obtain l rt where w: "fb_world fb = (l, rt)" by fastforce
  note isf = fab [unfolded fabric_inv_def]
  have at: "at_stage ru h i ?n tot (prefills l) (forwards l) (l, rt)" and bl: "is_block_reason (fb_state fb) = None"
    and clean: "\<And>q. PrefillComplete q \<in> set (fb_pending fb) \<Longrightarrow> clean_logits (is_logits (fb_state fb))"
    using inv by (auto simp: delivery_inv_def w)
  have ok: "delivery_ok ru h ?n tot" and st: "stage_ok ru i ?n (stage_of (prefills l) (forwards l)) rt"
    and dl: "\<forall>d\<in>set (dequants l). length (snd d) = ?d" using at by (simp_all add: at_stage_def)
  note ok' = ok [unfolded delivery_ok_def]
  have np: "\<not> rt_panicked rt" using st by (simp add: stage_ok_def)
  have req: "is_prompt_len (fb_state fb) = word_of_nat ?n" "is_max_tokens (fb_state fb) = g"
    using isf by (simp_all add: isf_inv_def request_inv_def)
  show ?thesis
  proof (cases "isf_driver ft")
    case False
    show ?thesis
    proof (rule deliver_rule [OF fire inv ft])
      fix fs s' w' assume r: "isf_program ?cl ft (fb_state fb) (fb_world fb) = Ok (fs, s', w')"
      note o = delivery.other_rules_good [OF at bl False, of p, folded w, unfolded delivery.good_fired_def r res.case prod.case]
      from o r show "at_stage ru h i ?n tot (prefills l) (forwards l) w' \<and> is_block_reason s' = None \<and> (\<forall>q. PrefillComplete q \<notin> set fs) \<and>
        (is_logits s' = is_logits (fb_state fb) \<or> (\<forall>q. PrefillComplete q \<in> set (fb_pending fb) \<longrightarrow> PrefillComplete q = ft))"
        by simp
    qed
  next
    case drv: True
    note only = pending_driver(1) [OF isf ft drv]
    have pc: "PrefillComplete q = ft" if "PrefillComplete q \<in> set (fb_pending fb)" for q
    proof -
      have "PrefillComplete q \<in> drivers (set (fb_pending fb))" using that by (simp add: drivers_def isf_driver_def)
      then show ?thesis unfolding only by simp
    qed
    have plen: "unat (word_of_nat ?n :: u32) = ?n" using ok' by (intro unat_word_of_nat_small) simp
    from drv consider (prefill) k where "ft = PrefillBatchReady k" | (complete) q where "ft = PrefillComplete q"
      | (decode) k t pos where "ft = DecodeStep k t pos" by (cases ft) (auto simp: isf_driver_def)
    then show ?thesis
    proof cases
      case (prefill k)
      note due = pending_driver(2) [OF isf ft drv prefill, unfolded w fst_conv]
      have P: "prefills l = []" "forwards l = []" using due by (simp_all add: prefill_due_def)
      obtain fs s' w' where r: "isf_program ?cl (PrefillBatchReady k) (fb_state fb) (l, rt) = Ok (fs, s', w')"
        "fb_state fb' = s'" "fb_world fb' = w'" by (rule fireE [OF fire [unfolded prefill]]) (simp add: w)
      obtain b hidden ls where b: "batched_embeddings (fb_state fb) = (Ok b :: (string, f32 list) res)"
        "ic_prefill ?cl (l, rt) b k = (w', hidden, ls)" "s' = (fb_state fb)\<lparr>is_logits := ls\<rparr>"
        by (rule prefill_rule_Ok [OF r(1)])
      have "(batched_embeddings (fb_state fb) :: (string, f32 list) res) = Ok (concat (map (\<lambda>i. the (is_embedding_cache (fb_state fb) i)) ids))"
        by (rule batched_prompt [OF _ ids]) (use due isf in \<open>simp_all add: isf_inv_def request_inv_def prefill_due_def\<close>)
      then have bc: "b = concat (map (\<lambda>i. the (is_embedding_cache (fb_state fb) i)) ids)" using b(1) by simp
      have mo: "map_of (dequants l) = is_embedding_cache (fb_state fb)"
        using isf unfolding isf_inv_def embed_inv_def w fst_conv by (elim conjE) assumption
      have "length (the (is_embedding_cache (fb_state fb) i)) = ?d" if "i \<in> set ids" for i
      proof -
        have "is_embedding_cache (fb_state fb) i \<noteq> None" using due that by (simp add: prefill_due_def all_cached_def)
        then obtain v where v: "map_of (dequants l) i = Some v" unfolding mo by blast
        from map_of_SomeD [OF v] dl show ?thesis unfolding mo [symmetric] v by auto
      qed
      then have len: "length b = ?n * ?d" unfolding bc by (subst length_concat_uniform [where k = ?d]) auto
      obtain rt' hidden' logits where call: "prefill_call ru i rt b k = (rt', hidden', logits)" "clean_logits logits"
        "stage_ok ru i ?n (Some 0) rt'"
        by (rule prefill_stage [where k = k and batched = b, OF _ _ st [unfolded P stage_of_def if_P [OF refl]]])
          (use ok' len that in auto)
      then have res: "w' = (l @ [Call_Prefill b k], rt')" "ls = logits"
        using b(2) by (simp_all add: logging_simps closure_selectors unwound_live [OF np])
      show ?thesis
      proof (rule delivery_invI)
        show "at_stage ru h i ?n tot [(b, k)] [] (fb_world fb')"
          using ok dl P call(3) by (simp add: at_stage_def r res stage_of_def)
        show "is_block_reason (fb_state fb') = None" using bl r b(3) by simp
        show "clean_logits (is_logits (fb_state fb'))" using call(2) r b(3) res by simp
      qed
    next
      case (complete q)
      show ?thesis
      proof (rule deliver_rule [OF fire inv ft])
        fix fs s' w' assume r: "isf_program ?cl ft (fb_state fb) (fb_world fb) = Ok (fs, s', w')"
        have "clean_logits (is_logits (fb_state fb))" using clean ft complete by blast
        note g = delivery.prefill_complete_good [OF at bl this, of p, folded w program_simps(3) [of _ q], folded complete,
            unfolded delivery.good_fired_def r res.case prod.case]
        from g pc show "at_stage ru h i ?n tot (prefills l) (forwards l) w' \<and> is_block_reason s' = None \<and>
          (\<forall>q. PrefillComplete q \<notin> set fs) \<and>
          (is_logits s' = is_logits (fb_state fb) \<or> (\<forall>q. PrefillComplete q \<in> set (fb_pending fb) \<longrightarrow> PrefillComplete q = ft))"
          by simp
      qed
    next
      case (decode k t pos)
      from pending_driver(4) [OF isf ft drv decode] obtain gen where
        due: "after_prefill ids (set (fb_store fb)) (fb_state fb) l" "pos = is_prompt_len (fb_state fb) + k"
          "decode_due ids g k gen (set (fb_store fb)) (set (fb_pending fb)) (fb_state fb) l" by (auto simp: w)
      have P: "prefills l \<noteq> []" using due(1) by (simp add: after_prefill_def)
      have F: "length (forwards l) = unat k" "k = 0 \<or> k < g"
        using due(3) by (simp_all add: decode_due_def expected_forwards_def)
      have S: "stage_ok ru i ?n (Some (unat k)) rt" using st P by (simp add: stage_of_def F)
      define fwd where "fwd = (if g \<le> k + 1 then forwards l else forwards l @ [([f32_of_int (uint t)], pos)])"
      have good: "delivering.good_fired (at_stage ru h i ?n tot (prefills l) fwd) (rule_decode_step ?cl (DecodeStep k t pos) (fb_state fb) (l, rt))"
      proof (cases "g \<le> k + 1")
        case True
        show ?thesis
          by (rule delivery.decode_good [OF bl]) (use True at req in \<open>simp_all add: fwd_def\<close>)
      next
        case False
        then have lt: "unat k + 1 < unat g"
          using next_step [OF F(2)] by (simp add: word_less_nat_alt not_le)
        have up: "unat pos = ?n + unat k"
          unfolding due(2) req using plen lt ok' tot by (intro trans [OF unat_add_small]) auto
        obtain rt' hidden logits where call: "forward_call ru i rt [f32_of_int (uint t)] pos = (rt', hidden, logits)"
          "clean_logits logits" "stage_ok ru i ?n (Some (unat k + 1)) rt'"
          by (rule forward_stage [where val = "f32_of_int (uint t)", OF _ _ S _ _ _ _ _ up]) (use ok' lt tot that in auto)
        have "ic_forward ?cl (l, rt) [f32_of_int (uint t)] pos = ((l @ [Call_Forward [f32_of_int (uint t)] pos], rt'), hidden, logits)"
          by (simp add: logging_simps closure_selectors unwound_live [OF np] call(1))
        moreover have "at_stage ru h i ?n tot (prefills l) fwd (l @ [Call_Forward [f32_of_int (uint t)] pos], rt')"
          using ok dl P F(1) False call(3) by (simp add: at_stage_def fwd_def stage_of_def)
        ultimately show ?thesis using False call(2) req
          by (intro delivery.decode_good [OF bl, where ?w1.0 = "(l @ [Call_Forward [f32_of_int (uint t)] pos], rt')"]) auto
      qed
      show ?thesis
      proof (rule deliver_rule [OF fire inv ft])
        fix fs s' w' assume r: "isf_program ?cl ft (fb_state fb) (fb_world fb) = Ok (fs, s', w')"
        note g = good [folded program_rules(3) [of ?cl k t pos], folded w decode, unfolded delivery.good_fired_def r res.case prod.case]
        from g pc show "at_stage ru h i ?n tot (prefills l) fwd w' \<and> is_block_reason s' = None \<and>
          (\<forall>q. PrefillComplete q \<notin> set fs) \<and>
          (is_logits s' = is_logits (fb_state fb) \<or> (\<forall>q. PrefillComplete q \<in> set (fb_pending fb) \<longrightarrow> PrefillComplete q = ft))"
          by simp
      qed
    qed
  qed
qed

lemma deliver_run:
  assumes "processes (logging (session_closures ru p h i)) k fb fb'" and "delivery_inv ru h i (length ids) tot fb"
    and "fabric_inv fst ids g fb" and "ids \<noteq> []" and "tot = length ids + (unat g - 1)"
  shows "delivery_inv ru h i (length ids) tot fb' \<and> fabric_inv fst ids g fb'"
  using assms
proof (induction rule: processes.induct)
  case (processes_one ft fb fb' k fb'')
  have "delivery_inv ru h i (length ids) tot fb'"
    by (rule deliver_step [OF processes_one(5,6,7,8,1,2)])
  moreover have "fabric_inv fst ids g fb'" by (rule logged.fire_inv [OF processes_one(6,7,1,2)])
  ultimately show ?case using processes_one(4,7,8) by blast
qed blast

lemma begun_stage:
  assumes rt: "runtime_ok ru rt"
    and b: "begin_request (rt_bound rt) (rt_cache rt) (fw_model (ru_forward ru)) n = ((b, g), Ok i)"
  shows "stage_ok ru i n None (rt\<lparr>rt_bound := b, rt_cache := g, rt_error := None, rt_rng := r\<rparr>)"
proof -
  have s: "in_session ru i (rt\<lparr>rt_bound := b, rt_cache := g\<rparr>)"
    using begin_request_keeps [OF rt, of n] by (simp add: b)
  have p: "begin_for_plan (rt_cache rt) (fw_model (ru_forward ru)) n = (g, Ok i)" "b = Some \<lparr>br_lease = i, br_k = gk_k g, br_v = gk_v g\<rparr>"
    using b by (auto simp: begin_request_def split: if_splits prod.splits res.splits)
  obtain c where "gk_owner g = Some c" "open_at i 0 n c" by (rule begin_for_plan_Ok [OF p(1)])
  moreover have "\<not> rt_panicked rt" using rt by (simp add: runtime_ok_def)
  ultimately show ?thesis using s p(2) by (simp add: stage_ok_def in_session_def)
qed

lemma session_delivers:
  assumes eng: "\<And>cl. engine_ok cl (dz cl)" and st: "\<And>r. stage_ok ru i (length ids) None (rt\<lparr>rt_error := None, rt_rng := r\<rparr>)"
    and ids: "ids \<noteq> []" and n: "0 < sp_max_tokens p" "length ids * 6 + sp_max_tokens p * 16 + 64 < 2 ^ 32"
    and ok: "delivery_ok ru h (length ids) (length ids + (sp_max_tokens p - 1))"
  shows "\<exists>rt' out. run_session ru dz p h ids i rt = (rt', Ok out) \<and> gn_prompt_tokens out = length ids \<and>
    gn_completion_tokens out \<le> sp_max_tokens p"
proof -
  let ?rt = "rt\<lparr>rt_error := None, rt_rng := rng_new (sp_seed p)\<rparr>"
  let ?cl = "session_closures ru p h i" and ?g = "word_of_nat (sp_max_tokens p) :: u32"
  let ?extra = "List.map_filter (stop_token ru) (sp_extra_stop_tokens p)"
  let ?start = "started [] ids ?g (ru_eos_token ru) ?extra (ru_tdr_budget_ms ru)"
  have g: "unat ?g = sp_max_tokens p" using n(2) by (intro unat_word_of_nat_small) simp
  have store: "fb_store (session_fabric [] ids ?g (ru_eos_token ru) ?extra (ru_tdr_budget_ms ru) ?rt) = []"
    using session_fabric_props(1) [of "[]"] by (metis (no_types, lifting) Collect_empty_eq empty_iff empty_set set_empty)
  obtain b where b: "request_run_budget (length ids) (sp_max_tokens p) 0 = Ok b" using n(2) by (simp add: budget_cases)
  then have "request_run_budget (length ids) (unat ?g)
      (length (fb_store (session_fabric [] ids ?g (ru_eos_token ru) ?extra (ru_tdr_budget_ms ru) ?rt))) = Ok b"
    by (simp only: g store list.size)
  from run_saturates [OF eng ids this, where cl = ?cl] obtain fb' k where
    run: "dz ?cl b (?start ?rt) = Ok (fb', k, True)" "processes ?cl k (?start ?rt) fb'" "fb_pending fb' = []" by blast
  obtain l where l: "processes (logging ?cl) k (?start ([], ?rt)) (log_fabric l fb')"
    using recorded_run [OF run(2), of "[]"] unfolding log_session by blast
  have fab: "fabric_inv fst ids ?g (?start ([], ?rt))" by (rule started_inv [OF ids]) simp
  have "delivery_inv ru h i (length ids) (length ids + (unat ?g - 1)) (?start ([], ?rt))"
  proof (rule delivery_invI)
    show "at_stage ru h i (length ids) (length ids + (unat ?g - 1)) [] [] (fb_world (?start ([], ?rt)))"
      using ok st by (simp add: started_props(4) at_stage_def stage_of_def g)
    show "is_block_reason (fb_state (?start ([], ?rt))) = None"
      by (simp add: started_props(3) session_state_def isf_state_new_def)
    show "clean_logits (is_logits (fb_state (?start ([], ?rt))))"
      if "PrefillComplete q \<in> set (fb_pending (?start ([], ?rt)))" for q
      using that prompt_facts_props(2) [of "PrefillComplete q" ids] by (auto simp: started_props(1,2))
  qed
  from deliver_run [OF l this fab ids refl]
  have d: "delivery_inv ru h i (length ids) (length ids + (unat ?g - 1)) (log_fabric l fb')"
    and f: "fabric_inv fst ids ?g (log_fabric l fb')" by blast+
  have inv: "isf_inv ids ?g (set (fb_store fb')) {} (fb_state fb') l" using f run(3) by (simp add: fabric_inv_def)
  obtain gen m where e: "after_prefill ids (set (fb_store fb')) (fb_state fb') l" "run_ended ids ?g gen m {} (fb_state fb') l"
    by (rule saturated_ended [OF inv ids])
  have "prefills l \<noteq> []" using e(1) by (simp add: after_prefill_def)
  then have s: "stage_ok ru i (length ids) (Some (length (forwards l))) (fb_world fb')" and bl: "is_block_reason (fb_state fb') = None"
    using d by (simp_all add: delivery_inv_def at_stage_def stage_of_def)
  then obtain c where c: "gk_owner (rt_cache (fb_world fb')) = Some c" "extent_at i (length ids + length (forwards l)) (length ids) c"
    "rt_error (fb_world fb') = None" "\<not> rt_panicked (fb_world fb')"
    by (auto simp: stage_ok_def in_session_def)
  have fin: "snd (finish (cw_leases c ! i)) = Ok ()" using c(2) by (simp add: extent_at_def finish_def)
  have "run_session ru dz p h ids i rt = finish_session i ids (fb_state fb') k True b (fb_world fb')"
    using c(4) by (simp add: run_session_def Let_def session_started b run(1))
  moreover have "length (is_all_token_ids (fb_state fb')) - length ids \<le> sp_max_tokens p" "is_halt (fb_state fb') \<noteq> None"
    using e(2) n(1) g by (auto simp: run_ended_def)
  ultimately show ?thesis using c(1,3) bl fin by (auto simp: finish_session_def)
qed

lemma generate_answers:
  assumes "\<And>cl. engine_ok cl (dz cl)" and "runtime_ok ru rt" and "check_request ru inp p = Ok ids"
    and "0 < sp_max_tokens p" and "length ids * 6 + sp_max_tokens p * 16 + 64 < 2 ^ 32"
    and "begin_request (rt_bound rt) (rt_cache rt) (fw_model (ru_forward ru)) (length ids) = (bg, Ok i)"
    and "delivery_ok ru h (length ids) (length ids + (sp_max_tokens p - 1))"
  shows "\<exists>rt' out. generate_input ru dz inp p h rt = (rt', Ok out) \<and> gn_prompt_tokens out = length ids \<and>
    gn_completion_tokens out \<le> sp_max_tokens p"
proof -
  obtain b g where bg: "bg = (b, g)" by fastforce
  have st: "stage_ok ru i (length ids) None ((rt\<lparr>rt_bound := b, rt_cache := g\<rparr>)\<lparr>rt_error := None, rt_rng := r\<rparr>)" for r
    using begun_stage [OF assms(2) assms(6) [unfolded bg], of r] by simp
  have "ids \<noteq> []" by (rule check_request_Ok(1) [OF assms(3)])
  from session_delivers [OF assms(1) st this assms(4,5,7)] obtain rt' out where
    "run_session ru dz p h ids i (rt\<lparr>rt_bound := b, rt_cache := g\<rparr>) = (rt', Ok out)" "gn_prompt_tokens out = length ids"
    "gn_completion_tokens out \<le> sp_max_tokens p" by blast
  moreover have "\<not> rt_panicked rt" using assms(2) by (simp add: runtime_ok_def)
  ultimately show ?thesis using assms(3,4,6) by (simp add: generate_input_def bg Let_def case_prod_beta)
qed

text \<open>
  C2: A granted request is answered. When the GPU returns finite logits, the device and the
  plan admit the frame, the hooks leave a permitted token and do not block, and prompt and
  answer fit the state, every forward pass is accepted by the lease protocol at its position
  and the generation returns an answer of at most \<open>max_tokens\<close> tokens.
\<close>

theorem generate_delivers:
  assumes "\<And>cl. engine_ok cl (dz cl)" and "runtime_ok ru rt" and "check_request ru inp p = Ok ids"
    and "0 < sp_max_tokens p" and "length ids * 6 + sp_max_tokens p * 16 + 64 < 2 ^ 32"
    and "begin_request (rt_bound rt) (rt_cache rt) (fw_model (ru_forward ru)) (length ids) = (bg, Ok i)"
    and "delivery_ok ru h (length ids) (length ids + (sp_max_tokens p - 1))"
  shows "\<exists>rt' out. generate_input ru dz inp p h rt = (rt', Ok out) \<and> gn_prompt_tokens out = length ids \<and>
    gn_completion_tokens out \<le> sp_max_tokens p"
  by (rule generate_answers [OF assms])

text \<open>A small runtime that delivers: the rows have the width they are asked for.\<close>

definition delivering_runtime :: "model_descriptor \<Rightarrow> bindless_metadata \<Rightarrow> nat gpu_runtime" where
  "delivering_runtime d bm = (sample_runtime d bm)\<lparr>ru_dequant := (\<lambda>x off dim1. (x, Some (replicate (unat dim1) f32_one)))\<rparr>"

lemma delivering_runtime_fields:
  "ru_forward (delivering_runtime d bm) = sample_forward d bm" "ru_spec (delivering_runtime d bm) = tinylama_base\<lparr>n_embd := 2\<rparr>"
  by (simp_all add: delivering_runtime_def sample_runtime_def)

lemma delivering_runtime_ok:
  "reliable (delivering_runtime d bm)" "runtime_ok (delivering_runtime d bm) idle_runtime"
  using sample_runtime_ok [of d bm] by (auto simp: delivering_runtime_def reliable_def external_panics_def sorts_def runtime_ok_def runtime_free_def)

lemma delivering_runtime_admits: "admits (delivering_runtime d bm) 2"
proof -
  have cfg: "validate_kernel_configuration (\<lambda>_. None) (\<lambda>_. Env_NotPresent) = Ok ()"
    by (simp add: validate_kernel_configuration_def check_flag_def flag_set_def env_is_def env_or_else_def res_simps
        del: and_then_eq_Ok)
  have "check_forward (fw_model (sample_forward d bm)) (tinylama_base\<lparr>n_embd := 2\<rparr>) 1 0 (Suc 0) = Ok ()"
    using sample_forward_access [of 0 d bm] by (auto simp: access_ok_def validate_state_access_def)
  then have fwd: "check_forward (fw_model (sample_forward d bm)) (tinylama_base\<lparr>n_embd := 2\<rparr>) 2 0 2 = Ok ()"
    by (simp add: check_forward_Ok sample_forward_def sample_validated_def u64_range_def)
  have frames: "for_each (check_frame 1048576 2) (frame_widths (tinylama_base\<lparr>n_embd := 2\<rparr>)) = Ok ()"
    by (simp add: frame_widths_def check_frame_Ok u64_range_def tinylama_base_def)
  have "validate_state_access (sample_forward d bm) (tinylama_base\<lparr>n_embd := 2\<rparr>) 2 0 2 None = Ok None"
    using fwd by (simp add: validate_state_access_def sample_forward_def cfg compile_def sample_validated_def)
  with frames show ?thesis
    by (simp add: admits_def delivering_runtime_fields) (simp add: sample_forward_def del: for_each_Ok)
qed

lemma delivering_runtime_delivers: "delivers (delivering_runtime d bm)"
  by (simp add: delivers_def returns_def delivering_runtime_def sample_runtime_def clean_logits_def f32_is_finite_def
      f32_one_def decode_def)

lemma no_hooks_permissive: "permissive (delivering_runtime d bm) no_hooks"
  by (simp add: permissive_def no_hooks_def noop_control_def)

lemma delivering_request: "check_request (delivering_runtime d bm) (GI_Token_Ids [7, 8]) sample_request = Ok [7, 8]"
proof -
  have cfg: "validate_kernel_configuration (\<lambda>_. None) (\<lambda>_. Env_NotPresent) = Ok ()"
    by (simp add: validate_kernel_configuration_def check_flag_def flag_set_def env_is_def env_or_else_def res_simps
        del: and_then_eq_Ok)
  have env: "fw_env (sample_forward d bm) = (\<lambda>_. Env_NotPresent)" "fw_parse_f32 (sample_forward d bm) = (\<lambda>_. None)"
    by (simp_all add: sample_forward_def)
  have fl: "f32_is_finite 0" "\<not> f32_lt 0 0" "f32_is_finite f32_one" "\<not> f32_le f32_one 0" "\<not> f32_lt f32_one f32_one"
    by (simp_all add: f32_is_finite_def f32_lt_def f32_le_def f32_eq_def f32_is_nan_def f32_one_def decode_def scaled_def sgn_val_def)
  show ?thesis
    by (simp add: check_request_def delivering_runtime_fields env cfg prompt_of_def validate_prompt_ids_def sample_request_def fl
        checked_add_def u64_range_def res_simps tinylama_base_def del: and_then_eq_Ok)
qed

lemma sample_cache_begins:
  fixes v :: validated_model
  assumes "vm_identity v = sample_identity" "vm_state v = vm_state (sample_validated d)"
  shows "\<exists>bg. begin_request None sample_cache v 2 = (bg, Ok 0)"
proof -
  have match: "cache_matches sample_cache (vm_state v)" using sample_cache_matches [of d] by (simp add: assms(2))
  have new: "new_controller (vm_identity v) (vm_state v) = Ok \<lparr>cw_identity = sample_identity, cw_capacity = 4,
      cw_epoch = 0, cw_active = False, cw_starting = 0, cw_leases = []\<rparr>"
    unfolding assms
    by (simp add: new_controller_def spec_budget_def sample_validated_def checked_mul_def u64_range_def res_simps
        del: and_then_eq_Ok)
  show ?thesis
    using match
    by (simp add: begin_request_def begin_for_plan_def install_owner_def sample_cache_def new begin_lease_def begin_acquire_def
        begin_epoch_def checked_add_def u64_range_def new_lease_def start_prefill_def lease_call_def cache_reset_def)
qed

lemma sample_request_fields: "sp_max_tokens sample_request = 3"
  by (simp add: sample_request_def)

lemma generate_delivers_witness:
  "\<forall>d bm. \<exists>rt' out. generate_input (delivering_runtime d bm) fifo_engine (GI_Token_Ids [7, 8]) sample_request no_hooks idle_runtime =
     (rt', Ok out) \<and> gn_prompt_tokens out = 2 \<and> gn_completion_tokens out \<le> 3"
proof (intro allI)
  fix d bm
  let ?ru = "delivering_runtime d bm"
  have m: "vm_identity (fw_model (ru_forward ?ru)) = sample_identity"
    "vm_state (fw_model (ru_forward ?ru)) = vm_state (sample_validated d)"
    by (simp_all add: delivering_runtime_fields sample_forward_def sample_validated_def)
  from sample_cache_begins [OF m] obtain bg where
    "begin_request (rt_bound idle_runtime) (rt_cache idle_runtime) (fw_model (ru_forward ?ru)) (length [7, 8 :: u32]) = (bg, Ok 0)"
    by (auto simp: idle_runtime_def numeral_2_eq_2)
  moreover have "delivery_ok ?ru no_hooks 2 4"
  proof -
    have "n_embd (ru_spec ?ru) = 2" "prefill_chunk (fw_env (ru_forward ?ru)) = 512" "ss_capacity (vm_state (fw_model (ru_forward ?ru))) = 4"
      by (simp_all add: delivering_runtime_fields sample_forward_def sample_validated_def prefill_chunk_def)
    then show ?thesis
      using delivering_runtime_ok delivering_runtime_delivers no_hooks_permissive delivering_runtime_admits [of d bm]
      by (simp add: delivery_ok_def)
  qed
  moreover have "length [7, 8 :: u32] = 2" "length [7, 8 :: u32] + (sp_max_tokens sample_request - 1) = 4"
    by (simp_all add: sample_request_def)
  moreover have "0 < sp_max_tokens sample_request" "length [7, 8 :: u32] * 6 + sp_max_tokens sample_request * 16 + 64 < 2 ^ 32"
    by (simp_all add: sample_request_def)
  ultimately show "\<exists>rt' out. generate_input ?ru fifo_engine (GI_Token_Ids [7, 8]) sample_request no_hooks idle_runtime = (rt', Ok out) \<and>
      gn_prompt_tokens out = 2 \<and> gn_completion_tokens out \<le> 3"
    using generate_delivers [OF fifo_engine_ok delivering_runtime_ok(2) delivering_request] by (metis sample_request_fields)
qed

end
