(* ===== verification/Grammar_Control.thy ===== *)
theory Grammar_Control
  imports Delivery
begin

text \<open>
  Constrained decoding: the mask and the control of \<open>src/src/grammar.rs\<close> and
  \<open>src/src/schoolmarm_control.rs\<close>, which share one state of the external crate schoolmarm.
  The crate is a parameter (\<open>'s grammar\<close>); the mask reads the state, the control advances it.
  What a generation with these hooks writes is then read off the run of the fabric.
\<close>

section \<open>The hooks\<close>

text \<open>
  \<open>GrammarState\<close>: \<open>accept_token\<close> returns the state it leaves and its error, if any,
  \<open>is_accepting\<close>, and \<open>allowed_tokens\<close> for a vocabulary.
\<close>

record 's grammar =
  gr_accept :: "'s \<Rightarrow> string \<Rightarrow> 's \<times> string option"
  gr_accepting :: "'s \<Rightarrow> bool"
  gr_allowed :: "'s \<Rightarrow> string list \<Rightarrow> bool list"

text \<open>\<open>TokenizerDecoder\<close>, over the tokenizer's \<open>decode_single\<close>.\<close>

definition tokenizer_decoder :: "(u32 \<Rightarrow> string option) \<Rightarrow> nat \<Rightarrow> string" where
  "tokenizer_decoder decode_single token =
     (case decode_single (word_of_nat token) of Some piece \<Rightarrow> piece | None \<Rightarrow> [])"

definition schoolmarm_intervene :: "'s grammar \<Rightarrow> (nat \<Rightarrow> string) \<Rightarrow> 's \<Rightarrow> nat \<Rightarrow> 's \<times> gate_decision" where
  "schoolmarm_intervene gr decoder g candidate =
     (case gr_accept gr g (decoder candidate) of
        (g', Some err) \<Rightarrow> (g', BlockAndTerminate (''Grammar rejected token: '' @ err))
      | (g', None) \<Rightarrow> (g', if gr_accepting gr g' then EarlyExit else Allow))"

text \<open>An index of a logit is set only when it is in range.\<close>

definition set_logit :: "u32 \<Rightarrow> f32 list \<Rightarrow> f32 list" where
  "set_logit t logits = (if unat t < length logits then logits[unat t := 0] else logits)"

definition grammar_mask :: "'s grammar \<Rightarrow> string list \<Rightarrow> u32 \<Rightarrow> u32 option \<Rightarrow> 's \<Rightarrow> f32 list \<Rightarrow> f32 list" where
  "grammar_mask gr vocab eos_token im_end_token g logits =
     (let allowed = gr_allowed gr g vocab;
          logits = map (\<lambda>(idx, l). if length allowed \<le> idx \<or> \<not> allowed ! idx then f32_neg_infinity else l) (enumerate 0 logits)
      in if gr_accepting gr g
         then (case im_end_token of
             None \<Rightarrow> set_logit eos_token logits
           | Some im \<Rightarrow> set_logit im (set_logit eos_token logits))
         else logits)"

definition newline :: string where "newline = [char_of (10 :: nat)]"
definition quoted :: "string \<Rightarrow> string" where "quoted s = char_of (34 :: nat) # s @ [char_of (34 :: nat)]"
definition escape :: "string \<Rightarrow> string" where "escape s = char_of (92 :: nat) # s"

definition developer_mode_grammar :: string where
  "developer_mode_grammar =
     newline @ ''root ::= start body end'' @ newline @
     ''start ::= '' @ quoted ''fn '' @ '' | '' @ quoted ''use '' @ '' | '' @ quoted ''struct '' @ '' | '' @
       quoted ''enum '' @ '' | '' @ quoted ''impl '' @ newline @
     ''body ::= ['' @ escape ''x09'' @ escape ''x0A'' @ escape ''x0D'' @ escape ''x20-'' @ escape ''x7E]*'' @ newline @
     ''end ::= '' @ quoted ''// END_RUST_FILE'' @ newline"

text \<open>
  \<open>parse\<close> stands for \<open>Grammar::new\<close> followed by \<open>GrammarState::new\<close>. The state is returned
  beside the hooks that share it.
\<close>

definition grammar_hooks ::
    "'s grammar \<Rightarrow> (string \<Rightarrow> 's option) \<Rightarrow> string \<Rightarrow> (u32 \<Rightarrow> string option) \<Rightarrow> nat \<Rightarrow> u32 \<Rightarrow> u32 option \<Rightarrow>
     ('s \<times> ('s \<Rightarrow> f32 list \<Rightarrow> f32 list) \<times> ('s \<Rightarrow> nat \<Rightarrow> 's \<times> gate_decision)) option" where
  "grammar_hooks gr parse mode decode_single vocab_len eos_token im_end_token =
     (if mode \<noteq> ''developer'' then None
      else (case parse developer_mode_grammar of
          None \<Rightarrow> None
        | Some g \<Rightarrow>
            (let vocab = map (tokenizer_decoder decode_single) [0..<vocab_len] in
             Some (g, grammar_mask gr vocab eos_token im_end_token, schoolmarm_intervene gr (tokenizer_decoder decode_single)))))"

text \<open>A session with the two hooks: the grammar's state is the first part of what the hooks keep.\<close>

definition with_grammar ::
    "('s \<Rightarrow> f32 list \<Rightarrow> f32 list) \<Rightarrow> ('s \<Rightarrow> nat \<Rightarrow> 's \<times> gate_decision) \<Rightarrow> ('s \<times> 'y) session_hooks \<Rightarrow> ('s \<times> 'y) session_hooks" where
  "with_grammar mask_hook control_hook h = h\<lparr>
     hk_modify_logits := Some (\<lambda>x logits. (x, mask_hook (fst x) logits)),
     hk_control := Some (\<lambda>x candidate txt step ids kv_len.
       let (g, d) = control_hook (fst x) candidate in ((g, snd x), d))\<rparr>"

section \<open>What the grammar reads\<close>

text \<open>Pieces the grammar accepts one after the other, without completing a sentence.\<close>

fun gr_run :: "'s grammar \<Rightarrow> 's \<Rightarrow> string list \<Rightarrow> 's option" where
  "gr_run gr g [] = Some g"
| "gr_run gr g (piece # pieces) =
     (case gr_accept gr g piece of
        (g', None) \<Rightarrow> if gr_accepting gr g' then None else gr_run gr g' pieces
      | (g', Some _) \<Rightarrow> None)"

lemma gr_run_snoc:
  "gr_run gr g ps = Some g' \<Longrightarrow> gr_accept gr g' piece = (g'', None) \<Longrightarrow> \<not> gr_accepting gr g'' \<Longrightarrow>
   gr_run gr g (ps @ [piece]) = Some g''"
  by (induction gr g ps rule: gr_run.induct) (auto split: prod.splits option.splits if_splits)

text \<open>The GPU and the other hooks do not touch the grammar's state.\<close>

definition leaves_grammar :: "('s \<times> 'y) gpu_runtime \<Rightarrow> ('s \<times> 'y) session_hooks \<Rightarrow> bool" where
  "leaves_grammar ru h =
     ((\<forall>x e p n. fst (fst (ru_exec ru x e p n)) = fst x) \<and>
      (\<forall>x off d. fst (fst (ru_dequant ru x off d)) = fst x) \<and>
      (\<forall>t x step logits ms. hk_trace h = Some t \<longrightarrow> fst (t x step logits ms) = fst x) \<and>
      (\<forall>f x piece. hk_on_token h = Some f \<longrightarrow> fst (f x piece) = fst x))"

lemma forward_world:
  assumes "\<And>w e p n. P w \<Longrightarrow> P (fst (exec w e p n))" and "P (snd st)"
  shows "P (snd (fst (run_forward fw exec spec embd pos n kv st)))"
  using assms by (cases st) (auto simp: run_forward_def Let_def case_prod_beta split: res.split option.split)

lemma chunk_world:
  assumes "\<And>w e p n. P w \<Longrightarrow> P (fst (exec w e p n))" and "P (snd st)"
  shows "P (snd (fst (chunk_loop fw exec spec pos kv chs processed last_r st)))"
  using assms(2)
proof (induction chs arbitrary: processed last_r st)
  case (Cons ch chs)
  let ?n = "word_of_nat (length ch div n_embd spec) :: u32"
  obtain st1 r1 where r: "run_forward fw exec spec ch (pos + processed) (pos + processed + ?n) kv st = (st1, r1)" by fastforce
  have "P (snd st1)"
    using forward_world [of P exec st fw spec ch "pos + processed" "pos + processed + ?n" kv, OF assms(1) Cons.prems] r by simp
  then show ?case using Cons.IH by (cases r1) (simp_all add: Let_def r)
qed simp

lemma prefill_world:
  assumes "\<And>w e p n. P w \<Longrightarrow> P (fst (exec w e p n))" and "P (snd st)"
  shows "P (snd (fst (run_prefill_chunked fw exec spec embd pos kv chunk st)))"
  using chunk_world [of P exec st, OF assms]
  by (auto simp: run_prefill_chunked_def Let_def assms(2) split: res.split prod.split)
     (metis fst_conv snd_conv)+

definition grammar_of :: "('s \<times> 'y) runtime \<Rightarrow> 's" where
  "grammar_of rt = fst (rt_ext rt)"

lemma pass_grammar:
  assumes "leaves_grammar ru h"
  shows "grammar_of (fst (pass ru i chunk rt embd pos)) = grammar_of rt"
proof (cases "gk_owner (rt_cache rt)")
  case (Some c)
  obtain c' x r where r: "run_prefill_chunked ((ru_forward ru)\<lparr>fw_bound := rt_bound rt\<rparr>) (ru_exec ru) (ru_spec ru) embd pos
      (Some (gk_k (rt_cache rt), gk_v (rt_cache rt))) chunk (c, rt_ext rt) = ((c', x), r)" by (metis surj_pair)
  have x: "fst x = fst (rt_ext rt)"
    using prefill_world [of "\<lambda>w. fst w = fst (rt_ext rt)" "ru_exec ru" "(c, rt_ext rt)"
        "(ru_forward ru)\<lparr>fw_bound := rt_bound rt\<rparr>" "ru_spec ru" embd pos "Some (gk_k (rt_cache rt), gk_v (rt_cache rt))" chunk]
      assms r by (auto simp: leaves_grammar_def)
  have rr: "rt_ext (fst (read_result r rt')) = rt_ext rt'" for rt' :: "('s \<times> 'y) runtime"
    by (auto simp: read_result_def first_error_def panicked_def split: res.split option.split)
  have se: "rt_ext (set_extent i rt') = rt_ext rt'" for rt' :: "('s \<times> 'y) runtime"
    by (auto simp: set_extent_def panicked_def split: res.split option.split)
  show ?thesis by (simp add: pass_def Some r Let_def case_prod_beta grammar_of_def rr se x)
qed (simp add: pass_def panicked_def grammar_of_def)

lemma dequant_grammar: "leaves_grammar ru h \<Longrightarrow> grammar_of (fst (dequant_row ru rt t d)) = grammar_of rt"
  by (auto simp: leaves_grammar_def dequant_row_def grammar_of_def panicked_def simp del: split_paired_All
      split: prod.split option.split) (metis fst_conv)+

lemma grammar_fields [simp]:
  "grammar_of (rt\<lparr>rt_rng := r\<rparr>) = grammar_of rt" "grammar_of (rt\<lparr>rt_error := e\<rparr>) = grammar_of rt"
  "grammar_of (rt\<lparr>rt_bound := b\<rparr>) = grammar_of rt" "grammar_of (rt\<lparr>rt_cache := c\<rparr>) = grammar_of rt"
  "grammar_of (rt\<lparr>rt_ext := x\<rparr>) = fst x" "grammar_of (panicked rt) = grammar_of rt" "grammar_of (first_error er rt) = grammar_of rt"
  by (simp_all add: grammar_of_def panicked_def first_error_def split: option.split)

lemma forward_grammar:
  assumes "leaves_grammar ru h"
  shows "grammar_of (fst (forward_call ru i rt d pos)) = grammar_of rt" "grammar_of (fst (prefill_call ru i rt b n)) = grammar_of rt"
  using pass_grammar [OF assms] dequant_grammar [OF assms]
  by (simp_all add: forward_call_def prefill_call_def case_prod_beta Let_def split: list.split)

lemma sample_grammar: "grammar_of (fst (sample_call ru p rt logits recent)) = grammar_of rt"
  by (auto simp: sample_call_def split: res.split)

lemma leaves_hooks:
  "leaves_grammar ru h \<Longrightarrow> hk_trace h = Some t \<Longrightarrow> fst (t x step logits ms) = fst x"
  "leaves_grammar ru h \<Longrightarrow> hk_on_token h = Some f \<Longrightarrow> fst (f x piece) = fst x"
  by (simp_all add: leaves_grammar_def del: split_paired_All)

lemma closures_grammar:
  assumes "leaves_grammar ru h"
  shows "grammar_of (fst (ic_dequant (session_closures ru p h' i) rt t d)) = grammar_of rt"
    and "grammar_of (fst (ic_prefill (session_closures ru p h' i) rt b n)) = grammar_of rt"
    and "grammar_of (fst (ic_forward (session_closures ru p h' i) rt v pos)) = grammar_of rt"
    and "grammar_of (fst (ic_sample (session_closures ru p h' i) rt logits recent)) = grammar_of rt"
  using dequant_grammar [OF assms] forward_grammar [OF assms]
  by (simp_all add: closure_selectors unwound_def sample_grammar)

lemma hooks_grammar:
  assumes "leaves_grammar ru h"
  shows "grammar_of (fst (apply_mask (session_closures ru p (with_grammar m c h) i) rt logits)) = grammar_of rt"
    and "grammar_of (apply_trace (session_closures ru p (with_grammar m c h) i) rt step logits ms) = grammar_of rt"
    and "grammar_of (emit_piece (session_closures ru p (with_grammar m c h) i) rt piece) = grammar_of rt"
proof -
  show "grammar_of (fst (apply_mask (session_closures ru p (with_grammar m c h) i) rt logits)) = grammar_of rt"
    by (simp add: apply_mask_def closure_selectors unwound_def mask_call_def with_grammar_def Let_def grammar_of_def [symmetric])
  show "grammar_of (apply_trace (session_closures ru p (with_grammar m c h) i) rt step logits ms) = grammar_of rt"
    "grammar_of (emit_piece (session_closures ru p (with_grammar m c h) i) rt piece) = grammar_of rt"
    using leaves_hooks [OF assms]
    by (auto simp: apply_trace_def emit_piece_def closure_selectors on_ext_def with_grammar_def grammar_of_def split: option.split)
qed

text \<open>A candidate the control lets through has been read by the grammar, and completes no sentence.\<close>

lemma control_grammar:
  assumes "apply_control (session_closures ru p (with_grammar m (schoolmarm_intervene gr decoder) h) i) rt candidate txt step ids n = (rt', d)"
  shows "d \<noteq> CD_Force t"
    and "d = CD_Allow \<Longrightarrow> gr_accept gr (grammar_of rt) (decoder candidate) = (grammar_of rt', None) \<and> \<not> gr_accepting gr (grammar_of rt')"
proof -
  obtain g' e where a: "gr_accept gr (grammar_of rt) (decoder candidate) = (g', e)" by fastforce
  have c: "d = CD_EarlyExit \<or> control_call ru (with_grammar m (schoolmarm_intervene gr decoder) h) rt candidate txt step ids n = (rt', d)"
    using assms by (auto simp: apply_control_def closure_selectors unwound_def split: if_splits)
  have k: "hk_control (with_grammar m (schoolmarm_intervene gr decoder) h) = Some (\<lambda>x candidate txt step ids kv_len.
      let (g, d) = schoolmarm_intervene gr decoder (fst x) candidate in ((g, snd x), d))" by (simp add: with_grammar_def)
  have v: "schoolmarm_intervene gr decoder (fst (rt_ext rt)) candidate =
      (g', case e of Some err \<Rightarrow> BlockAndTerminate (''Grammar rejected token: '' @ err) | None \<Rightarrow> if gr_accepting gr g' then EarlyExit else Allow)"
    using a by (simp add: schoolmarm_intervene_def grammar_of_def split: option.split)
  show "d \<noteq> CD_Force t"
    using c by (cases e) (auto simp: control_call_def k v Let_def split: if_splits)
  show "gr_accept gr (grammar_of rt) (decoder candidate) = (grammar_of rt', None) \<and> \<not> gr_accepting gr (grammar_of rt')"
    if "d = CD_Allow"
    using c that a by (cases e) (auto simp: control_call_def k v Let_def split: if_splits)
qed

section \<open>What a generation writes\<close>

text \<open>
  The text is the concatenation of pieces the grammar has read, and while the generation
  goes on the grammar's state is the one they lead to.
\<close>

definition grammar_at :: "'s grammar \<Rightarrow> 's \<Rightarrow> isf_state \<Rightarrow> ('s \<times> 'y) runtime \<Rightarrow> bool" where
  "grammar_at gr g0 s rt =
     (\<exists>ps g. is_generated_text s = concat ps \<and> gr_run gr g0 ps = Some g \<and> (is_halt s = None \<longrightarrow> grammar_of rt = g))"

definition grammar_fired :: "'s grammar \<Rightarrow> 's \<Rightarrow> ('s \<times> 'y) runtime fired \<Rightarrow> bool" where
  "grammar_fired gr g0 r = (case r of Ok (fs, s, rt) \<Rightarrow> grammar_at gr g0 s rt | _ \<Rightarrow> True)"

lemma grammar_halt:
  "grammar_at gr g0 s rt \<Longrightarrow> grammar_fired gr g0 (halt_with r s rt')"
  "grammar_at gr g0 s rt \<Longrightarrow> is_generated_text s' = is_generated_text s \<Longrightarrow> grammar_fired gr g0 (halt_with r s' rt')"
  by (auto simp: grammar_fired_def halt_with_def grammar_at_def)

lemma grammar_append:
  assumes "grammar_at gr g0 s rt" "is_halt s = None" "grammar_of w = grammar_of rt"
    and "gr_accept gr (grammar_of w) piece = (grammar_of w', None)" "\<not> gr_accepting gr (grammar_of w')"
    and "is_generated_text s' = is_generated_text s @ piece" "grammar_of w'' = grammar_of w'"
  shows "grammar_at gr g0 s' w''"
proof -
  from assms(1,2) obtain ps where ps: "is_generated_text s = concat ps" "gr_run gr g0 ps = Some (grammar_of rt)"
    by (auto simp: grammar_at_def)
  have "gr_run gr g0 (ps @ [piece]) = Some (grammar_of w')"
    using gr_run_snoc [OF ps(2)] assms(3-5) by simp
  then show ?thesis using ps(1) assms(6,7) unfolding grammar_at_def by (intro exI [of _ "ps @ [piece]"]) simp
qed

text \<open>The closures of a session whose control is the grammar's.\<close>

abbreviation grammar_closures ::
    "('s \<times> 'y) gpu_runtime \<Rightarrow> sampling_params \<Rightarrow> 's grammar \<Rightarrow> ('s \<Rightarrow> f32 list \<Rightarrow> f32 list) \<Rightarrow> ('s \<times> 'y) session_hooks \<Rightarrow> nat \<Rightarrow>
     ('s \<times> 'y) runtime closures" where
  "grammar_closures ru p gr m h i \<equiv>
     session_closures ru p (with_grammar m (schoolmarm_intervene gr (tokenizer_decoder (ru_decode ru))) h) i"

lemma decode_piece: "ic_decode (session_closures ru p h i) rt t = (rt, tokenizer_decoder (ru_decode ru) (unat t))"
  by (simp add: closure_selectors decode_call_def tokenizer_decoder_def)

lemma first_token_grammar:
  assumes "leaves_grammar ru h" "grammar_at gr g0 s rt" "is_halt s = None" "grammar_of w = grammar_of rt"
    and "gr_accept gr (grammar_of w) (tokenizer_decoder (ru_decode ru) (unat t)) = (grammar_of w', None)" "\<not> gr_accepting gr (grammar_of w')"
    and "is_generated_text s' = is_generated_text s" "is_halt s' = None"
  shows "grammar_fired gr g0 (first_token (grammar_closures ru p gr m h i) t s' w')"
proof -
  have "grammar_at gr g0 (s'\<lparr>is_recent_tokens := r, is_all_token_ids := a, is_generated_text := is_generated_text s' @
      tokenizer_decoder (ru_decode ru) (unat t)\<rparr>) (emit_piece (grammar_closures ru p gr m h i) w' (tokenizer_decoder (ru_decode ru) (unat t)))" for r a
    by (rule grammar_append [OF assms(2-6)]) (use assms(7) hooks_grammar(3) [OF assms(1)] in simp_all)
  then show ?thesis
    unfolding first_token_def Let_def decode_piece prod.case
    using assms(2,7) by (auto intro!: grammar_halt(2)) (simp add: grammar_fired_def)
qed

lemma next_token_grammar:
  assumes "leaves_grammar ru h" "grammar_at gr g0 s rt" "is_halt s = None" "grammar_of w = grammar_of rt"
    and "gr_accept gr (grammar_of w) (tokenizer_decoder (ru_decode ru) (unat t)) = (grammar_of w', None)" "\<not> gr_accepting gr (grammar_of w')"
  shows "grammar_fired gr g0 (next_token (grammar_closures ru p gr m h i) step position logits rb sb ms t s w')"
proof -
  have "grammar_at gr g0 (s\<lparr>is_generated_text := is_generated_text s @ tokenizer_decoder (ru_decode ru) (unat t),
      is_logits := l, is_recent_tokens := r, is_all_token_ids := a\<rparr>)
      (emit_piece (grammar_closures ru p gr m h i) w' (tokenizer_decoder (ru_decode ru) (unat t)))" for l r a
    by (rule grammar_append [OF assms(2-6)]) (use hooks_grammar(3) [OF assms(1)] in simp_all)
  then show ?thesis
    unfolding next_token_def Let_def decode_piece prod.case
    using assms(2) by (auto intro!: grammar_halt(2)) (simp add: grammar_fired_def)
qed

text \<open>What follows a decision of the control.\<close>

lemma decided_grammar:
  assumes "leaves_grammar ru h" "grammar_at gr g0 s rt"
    and "apply_control (grammar_closures ru p gr m h i) w (unat t) txt step ids n = (w', d)"
    and "d = CD_Allow \<Longrightarrow> gr_accept gr (grammar_of w) (tokenizer_decoder (ru_decode ru) (unat t)) = (grammar_of w', None) \<Longrightarrow>
      \<not> gr_accepting gr (grammar_of w') \<Longrightarrow> grammar_fired gr g0 (next w')"
    and "is_generated_text s' = is_generated_text s"
  shows "grammar_fired gr g0 (case d of CD_Allow \<Rightarrow> next w' | CD_Force t \<Rightarrow> forced t w' | CD_EarlyExit \<Rightarrow> halt_with ControlHalt s' w'
      | CD_Block r \<Rightarrow> halt_with ControlHalt (s'\<lparr>is_block_reason := Some r\<rparr>) w')"
  using control_grammar [OF assms(3)] assms(2,4,5) by (cases d) (auto intro: grammar_halt(2))

lemma prefill_complete_grammar:
  assumes "leaves_grammar ru h" "grammar_at gr g0 s rt" "is_halt s = None"
  shows "grammar_fired gr g0 (rule_prefill_complete (grammar_closures ru p gr m h i) s rt)"
proof -
  let ?cl = "grammar_closures ru p gr m h i"
  obtain rt1 l1 where m: "apply_mask ?cl rt (is_logits s) = (rt1, l1)" by fastforce
  obtain rt2 l2 t where sm: "ic_sample ?cl rt1 l1 (is_recent_tokens s) = (rt2, l2, t)" by (metis surj_pair)
  let ?s = "s\<lparr>is_logits := l2\<rparr>"
  obtain rt3 d where c: "apply_control ?cl rt2 (unat t) (is_generated_text ?s) 0 (is_all_token_ids ?s) (unat (is_prompt_len ?s)) = (rt3, d)"
    by fastforce
  have g: "grammar_of rt2 = grammar_of rt"
    using hooks_grammar(1) [OF assms(1), of p m "schoolmarm_intervene gr (tokenizer_decoder (ru_decode ru))" i rt "is_logits s"]
      closures_grammar(4) [OF assms(1), of p _ i rt1 l1 "is_recent_tokens s"] sm unfolding m by (metis fst_conv)
  show ?thesis
    unfolding rule_prefill_complete_def m sm Let_def prod.case c
    by (rule decided_grammar [OF assms(1,2) c]) (use first_token_grammar [OF assms g, of t rt3 ?s] assms(3) in simp_all)
qed

lemma decode_grammar:
  assumes "leaves_grammar ru h" "grammar_at gr g0 s rt" "is_halt s = None"
  shows "grammar_fired gr g0 (rule_decode_step (grammar_closures ru p gr m h i) (DecodeStep step token_id position) s rt)"
proof -
  let ?cl = "grammar_closures ru p gr m h i"
  obtain rt1 hidden l1 where f: "ic_forward ?cl rt [f32_of_int (uint token_id)] position = (rt1, hidden, l1)" by (metis surj_pair)
  obtain rt2 l2 where m: "apply_mask ?cl rt1 l1 = (rt2, l2)" by fastforce
  let ?ms = "ic_elapsed_ms ?cl rt rt1"
  let ?rt3 = "apply_trace ?cl rt2 (tokens_so_far s) l2 ?ms"
  obtain rt4 l4 t where sm: "ic_sample ?cl ?rt3 l2 (is_recent_tokens s) = (rt4, l4, t)" by (metis surj_pair)
  obtain rt5 d where c: "apply_control ?cl rt4 (unat t) (is_generated_text s) (tokens_so_far s) (is_all_token_ids s)
      (length (is_all_token_ids s)) = (rt5, d)" by fastforce
  have "grammar_of rt1 = grammar_of rt" using closures_grammar(3) [OF assms(1)] f by (metis fst_conv)
  moreover have "grammar_of rt2 = grammar_of rt1"
    using hooks_grammar(1) [OF assms(1), of p m "schoolmarm_intervene gr (tokenizer_decoder (ru_decode ru))" i rt1 l1] unfolding m by simp
  moreover have "grammar_of rt4 = grammar_of ?rt3"
    using closures_grammar(4) [OF assms(1)] sm by (metis fst_conv)
  ultimately have g: "grammar_of rt4 = grammar_of rt" by (simp add: hooks_grammar(2) [OF assms(1)])
  let ?next = "\<lambda>t w. next_token ?cl step position l4 (rms l2) (checksum l2) ?ms t s w"
  have fired: "grammar_fired gr g0 (case d of CD_Allow \<Rightarrow> ?next t rt5 | CD_Force t \<Rightarrow> ?next (word_of_nat t) rt5
      | CD_EarlyExit \<Rightarrow> halt_with ControlHalt s rt5 | CD_Block r \<Rightarrow> halt_with ControlHalt (s\<lparr>is_block_reason := Some r\<rparr>) rt5)"
    by (rule decided_grammar [OF assms(1,2) c, where forced = "\<lambda>t. ?next (word_of_nat t)"])
      (use next_token_grammar [OF assms g, of t rt5] in simp_all)
  show ?thesis
    unfolding rule_decode_step_def inference_fact.case f Let_def prod.case m sm c
    using fired by (simp add: grammar_halt [OF assms(2)])
qed

text \<open>Every other rule leaves the text, the halt and the grammar's state alone.\<close>

lemma quiet_grammar:
  assumes "leaves_grammar ru h" "grammar_at gr g0 s rt"
    and "\<And>q. ft \<noteq> PrefillComplete q" "\<And>k t q. ft \<noteq> DecodeStep k t q"
  shows "grammar_fired gr g0 (isf_program (session_closures ru p h' i) ft s rt)"
proof (cases "triggers ft")
  case True
  have keep: "grammar_at gr g0 s' rt'" if "is_generated_text s' = is_generated_text s" "is_halt s' = is_halt s" "grammar_of rt' = grammar_of rt"
    for s' rt' using that assms(2) by (simp add: grammar_at_def)
  show ?thesis
  proof (cases ft)
    case (PrefillBatchReady k)
    show ?thesis
    proof (cases "isf_program (session_closures ru p h' i) (PrefillBatchReady k) s rt")
      case (Ok r)
      obtain fs s' rt' where r: "r = (fs, s', rt')" by (metis surj_pair)
      obtain b hidden ls where "ic_prefill (session_closures ru p h' i) rt b k = (rt', hidden, ls)" "s' = s\<lparr>is_logits := ls\<rparr>"
        by (rule prefill_rule_Ok [OF Ok [unfolded r]])
      then have "grammar_at gr g0 s' rt'"
        using closures_grammar(2) [OF assms(1)] by (intro keep) (simp_all, metis fst_conv)
      then show ?thesis by (simp add: PrefillBatchReady Ok r grammar_fired_def)
    qed (simp_all add: PrefillBatchReady grammar_fired_def)
  qed (use True assms closures_grammar(1) [OF assms(1)] in \<open>simp_all add: keep triggers_def program_simps program_rules grammar_fired_def
      rule_embedding_request_def rule_embedding_ready_def rule_dispatch_completed_def case_prod_beta Let_def closure_selectors(6)\<close>)
qed (use assms(2) in \<open>simp add: program_quiet grammar_fired_def\<close>)

lemma grammar_fire:
  assumes "leaves_grammar ru h" and "grammar_at gr g0 (fb_state fb) (fb_world fb)" and "ft \<in> set (fb_pending fb)"
    and inv: "fabric_inv fst ids g (log_fabric l fb)" and fire: "fire (grammar_closures ru p gr m h i) ft fb = Ok fb'"
  shows "grammar_at gr g0 (fb_state fb') (fb_world fb')"
proof -
  note isf = inv [unfolded fabric_inv_def log_fabric_simps fst_conv]
  have "grammar_fired gr g0 (isf_program (grammar_closures ru p gr m h i) ft (fb_state fb) (fb_world fb))"
  proof (cases ft)
    case (PrefillComplete q)
    have "is_halt (fb_state fb) = None"
      using pending_driver(3) [OF isf assms(3) _ PrefillComplete] PrefillComplete by (auto simp: sample_due_def)
    then show ?thesis using prefill_complete_grammar [OF assms(1,2)] by (simp add: PrefillComplete program_simps)
  next
    case (DecodeStep k t q)
    have "is_halt (fb_state fb) = None"
      using pending_driver(4) [OF isf assms(3) _ DecodeStep] DecodeStep by (auto simp: decode_due_def)
    then show ?thesis using decode_grammar [OF assms(1,2)] by (simp add: DecodeStep program_rules)
  qed (use quiet_grammar [OF assms(1,2), of ft p _ i] in simp_all)
  moreover obtain fs s w where "isf_program (grammar_closures ru p gr m h i) ft (fb_state fb) (fb_world fb) = Ok (fs, s, w)"
    "fb_state fb' = s" "fb_world fb' = w" by (rule fireE [OF fire])
  ultimately show ?thesis by (simp add: grammar_fired_def)
qed

lemma grammar_processes:
  assumes "processes (grammar_closures ru p gr m h i) k fb fb'" and "leaves_grammar ru h"
    and "grammar_at gr g0 (fb_state fb) (fb_world fb)" and "fabric_inv fst ids g (log_fabric l fb)" and "ids \<noteq> []"
  shows "grammar_at gr g0 (fb_state fb') (fb_world fb')"
  using assms
proof (induction arbitrary: l rule: processes.induct)
  case (processes_one ft fb fb' k fb'')
  obtain l' where l': "fire (logging (grammar_closures ru p gr m h i)) ft (log_fabric l fb) = Ok (log_fabric l' fb')"
    using recorded_fire(1) [OF processes_one(2)] by blast
  have "fabric_inv fst ids g (log_fabric l' fb')"
    by (rule logged.fire_inv [OF processes_one(7,8) _ l']) (use processes_one(1) in simp)
  moreover have "grammar_at gr g0 (fb_state fb') (fb_world fb')"
    by (rule grammar_fire [OF processes_one(5,6,1,7,2)])
  ultimately show ?case using processes_one(4,5,8) by blast
qed

lemma session_text_read:
  assumes eng: "\<And>cl. engine_ok cl (dz cl)" and "leaves_grammar ru h" and ids: "ids \<noteq> []"
    and run: "run_session ru dz p (with_grammar m (schoolmarm_intervene gr (tokenizer_decoder (ru_decode ru))) h) ids i rt = (rt', Ok out)"
  shows "\<exists>ps g. gn_text out = concat ps \<and> gr_run gr (grammar_of rt) ps = Some g"
proof -
  let ?rt = "rt\<lparr>rt_error := None, rt_rng := rng_new (sp_seed p)\<rparr>" and ?cl = "grammar_closures ru p gr m h i"
  let ?g = "word_of_nat (sp_max_tokens p) :: u32" and ?extra = "List.map_filter (stop_token ru) (sp_extra_stop_tokens p)"
  let ?start = "started [] ids ?g (ru_eos_token ru) ?extra (ru_tdr_budget_ms ru)"
  obtain b where b: "request_run_budget (length ids) (sp_max_tokens p) 0 = Ok b"
    using run by (auto simp: run_session_def Let_def split: res.splits)
  obtain fb' k sat where dz: "dz ?cl b (?start ?rt) = Ok (fb', k, sat)"
    using run by (auto simp: run_session_def Let_def session_started b split: res.splits)
  then have fin: "finish_session i ids (fb_state fb') k sat b (fb_world fb') = (rt', Ok out)"
    using run by (auto simp: run_session_def Let_def session_started b split: if_splits)
  have proc: "processes ?cl k (?start ?rt) fb'" 
    using spec [OF spec [OF eng [of ?cl, unfolded engine_ok_def], of b], of "?start ?rt"] unfolding dz by simp
  have "fabric_inv fst ids ?g (?start ([], ?rt))" by (rule started_inv [OF ids]) simp
  then have inv: "fabric_inv fst ids ?g (log_fabric [] (?start ?rt))" by (simp only: log_session)
  have "grammar_at gr (grammar_of rt) (fb_state (?start ?rt)) (fb_world (?start ?rt))"
    unfolding grammar_at_def by (intro exI [of _ "[]"]) (simp add: started_props(3,4) session_state_def isf_state_new_def)
  from grammar_processes [OF proc assms(2) this inv ids] obtain ps g where
    ps: "is_generated_text (fb_state fb') = concat ps" "gr_run gr (grammar_of rt) ps = Some g" by (auto simp: grammar_at_def)
  moreover have "gn_text out = is_generated_text (fb_state fb')"
    using fin by (auto simp: finish_session_def split: option.splits if_splits res.splits)
  ultimately show ?thesis by auto
qed

text \<open>
  C17: Constrained decoding writes only what the grammar reads. Whatever the GPU, the sampler
  and the schedule do, as long as the GPU and the other hooks leave the grammar's state alone, the text of an answered generation with the grammar's hooks is cut
  into pieces that the grammar accepts one after the other from its start, and no prefix of
  them completes a sentence: the token that completes one ends the generation and is not
  written.
\<close>

theorem grammar_text_read:
  assumes "\<And>cl. engine_ok cl (dz cl)"
    and "grammar_hooks gr parse mode (ru_decode ru) vocab_len eos_token im_end_token = Some (g0, mask_hook, control_hook)"
    and "leaves_grammar ru h" and "fst (rt_ext rt) = g0"
    and "generate_input ru dz inp p (with_grammar mask_hook control_hook h) rt = (rt', Ok out)"
  shows "\<exists>ps g. gn_text out = concat ps \<and> gr_run gr g0 ps = Some g"
proof -
  have ctl: "control_hook = schoolmarm_intervene gr (tokenizer_decoder (ru_decode ru))"
    using assms(2) by (auto simp: grammar_hooks_def Let_def split: if_splits option.splits)
  obtain ids where ids: "check_request ru inp p = Ok ids" using assms(5) by (auto simp: generate_input_def split: res.splits if_splits)
  show ?thesis
  proof (cases "sp_max_tokens p = 0")
    case True
    then show ?thesis using assms(5) ids by (intro exI [of _ "[]"]) (auto simp: generate_input_def split: if_splits)
  next
    case False
    obtain b g i where "begin_request (rt_bound rt) (rt_cache rt) (fw_model (ru_forward ru)) (length ids) = ((b, g), Ok i)"
      using assms(5) False ids by (auto simp: generate_input_def split: prod.splits res.splits if_splits)
    then obtain rt2 where "run_session ru dz p (with_grammar mask_hook control_hook h) ids i (rt\<lparr>rt_bound := b, rt_cache := g\<rparr>) = (rt2, Ok out)"
      using assms(5) False ids by (auto simp: generate_input_def Let_def split: prod.splits if_splits)
    from session_text_read [OF assms(1,3) check_request_Ok(1) [OF ids] this [unfolded ctl]] assms(4)
    show ?thesis by (simp add: grammar_of_def)
  qed
qed

text \<open>A runtime that delivers, whose hooks keep a grammar's state: a grammar that counts pieces.\<close>

definition count_grammar :: "nat grammar" where
  "count_grammar = \<lparr>gr_accept = (\<lambda>g piece. (Suc g, None)), gr_accepting = (\<lambda>g. False),
     gr_allowed = (\<lambda>g vocab. replicate (length vocab) True)\<rparr>"

definition grammar_runtime :: "model_descriptor \<Rightarrow> bindless_metadata \<Rightarrow> (nat \<times> nat) gpu_runtime" where
  "grammar_runtime d bm =
     \<lparr>ru_forward = sample_forward d bm, ru_exec = (\<lambda>x embd pos n. ((fst x, Suc (snd x)), Ok ([f32_one], [f32_one, 0]))),
      ru_dequant = (\<lambda>x off dim1. (x, Some (replicate (unat dim1) f32_one))), ru_spec = tinylama_base\<lparr>n_embd := 2\<rparr>,
      ru_encode = (\<lambda>s. Ok [7, 8]), ru_encode_stop = (\<lambda>s. None), ru_decode = (\<lambda>t. Some ''x''), ru_eos_token = 2,
      ru_embd_offset = 0, ru_row_bytes = 8, ru_tdr_budget_ms = 30000, ru_exp = (\<lambda>x. f32_one), ru_sort_desc = (\<lambda>xs. xs),
      ru_elapsed_ms = (\<lambda>x y. 3)\<rparr>"

definition grammar_idle :: "(nat \<times> nat) runtime" where
  "grammar_idle = \<lparr>rt_cache = sample_cache, rt_bound = None, rt_error = None, rt_rng = 1, rt_panicked = False, rt_ext = (0, 0)\<rparr>"

definition bare_hooks :: "(nat \<times> nat) session_hooks" where
  "bare_hooks = \<lparr>hk_modify_logits = None, hk_control = None, hk_trace = None, hk_on_token = None\<rparr>"

definition counting_hooks :: "(nat \<times> nat) session_hooks" where
  "counting_hooks = with_grammar (grammar_mask count_grammar [''x'', ''x''] 2 None)
     (schoolmarm_intervene count_grammar (tokenizer_decoder (\<lambda>t. Some ''x''))) bare_hooks"

lemma grammar_runtime_fields:
  "ru_forward (grammar_runtime d bm) = sample_forward d bm" "ru_spec (grammar_runtime d bm) = tinylama_base\<lparr>n_embd := 2\<rparr>"
  "ru_decode (grammar_runtime d bm) = (\<lambda>t. Some ''x'')"
  by (simp_all add: grammar_runtime_def)

lemma grammar_runtime_ok: "reliable (grammar_runtime d bm)" "runtime_ok (grammar_runtime d bm) grammar_idle"
  "delivers (grammar_runtime d bm)" "leaves_grammar (grammar_runtime d bm) bare_hooks"
proof -
  show "reliable (grammar_runtime d bm)"
    by (simp add: reliable_def external_panics_def exec_panics_def sorts_def grammar_runtime_def)
  show "runtime_ok (grammar_runtime d bm) grammar_idle"
    using sample_runtime_ok(2) [of d bm]
    by (simp add: runtime_ok_def runtime_free_def grammar_idle_def idle_runtime_def grammar_runtime_def sample_runtime_def)
  show "delivers (grammar_runtime d bm)"
    by (simp add: delivers_def returns_def grammar_runtime_def clean_logits_def f32_is_finite_def f32_one_def decode_def)
  show "leaves_grammar (grammar_runtime d bm) bare_hooks"
    by (simp add: leaves_grammar_def grammar_runtime_def bare_hooks_def)
qed

lemma counting_hooks_permissive: "permissive (grammar_runtime d bm) counting_hooks"
proof -
  have inf: "\<not> f32_is_nan f32_neg_infinity" "\<not> f32_eq f32_neg_infinity f32_infinity"
    by (simp_all add: f32_is_nan_def f32_eq_def f32_lt_def decode_neg_infinity) (simp add: f32_infinity_def decode_def)
  have mask: "grammar_mask count_grammar [''x'', ''x''] 2 None g logits =
      map (\<lambda>(idx, l). if 2 \<le> idx then f32_neg_infinity else l) (enumerate 0 logits)" for g logits
    by (auto simp: grammar_mask_def count_grammar_def Let_def less_Suc_eq numeral_2_eq_2 nth_Cons split: nat.splits)
  have ok: "\<not> list_ex (\<lambda>v. f32_is_nan v \<or> f32_eq v f32_infinity) (grammar_mask count_grammar [''x'', ''x''] 2 None g logits) \<and>
      list_ex f32_is_finite (grammar_mask count_grammar [''x'', ''x''] 2 None g logits)" if "clean_logits logits" for g logits
  proof -
    let ?m = "grammar_mask count_grammar [''x'', ''x''] 2 None g logits"
    have fin: "f32_is_finite (logits ! k)" if "k < length logits" for k
      using that \<open>clean_logits logits\<close> by (simp add: clean_logits_def list_all_iff)
    have "\<not> f32_is_nan v \<and> \<not> f32_eq v f32_infinity" if "v \<in> set ?m" for v
      using that fin finite_not_infinite inf unfolding mask
      by (auto simp: in_set_enumerate_eq split: if_splits)
    moreover have z: "(0, logits ! 0) \<in> set (enumerate 0 logits)"
      using that by (simp add: clean_logits_def in_set_enumerate_eq)
    then have "logits ! 0 \<in> set ?m" unfolding mask by force
    moreover have "f32_is_finite (logits ! 0)" using that fin [of 0] by (simp add: clean_logits_def)
    ultimately show ?thesis by (auto simp: list_ex_iff)
  qed
  have "schoolmarm_intervene count_grammar dec g t = (Suc g, Allow)" for dec g t
    by (simp add: schoolmarm_intervene_def count_grammar_def)
  then show ?thesis using ok by (simp add: permissive_def counting_hooks_def with_grammar_def Let_def)
qed

lemma grammar_request: "check_request (grammar_runtime d bm) (GI_Token_Ids [7, 8]) sample_request = Ok [7, 8]"
proof -
  have "check_request (grammar_runtime d bm) (GI_Token_Ids [7, 8]) sample_request =
      check_request (delivering_runtime d bm) (GI_Token_Ids [7, 8]) sample_request"
    by (simp only: check_request_def prompt_of_def generation_input.case grammar_runtime_fields delivering_runtime_fields)
  then show ?thesis by (simp only: delivering_request)
qed

lemma counting_run:
  "\<exists>rt' out. generate_input (grammar_runtime d bm) fifo_engine (GI_Token_Ids [7, 8]) sample_request counting_hooks grammar_idle =
     (rt', Ok out)"
proof -
  let ?ru = "grammar_runtime d bm"
  have m: "vm_identity (fw_model (ru_forward ?ru)) = sample_identity"
    "vm_state (fw_model (ru_forward ?ru)) = vm_state (sample_validated d)"
    by (simp_all add: grammar_runtime_fields sample_forward_def sample_validated_def)
  from sample_cache_begins [OF m] obtain bg where
    bg: "begin_request (rt_bound grammar_idle) (rt_cache grammar_idle) (fw_model (ru_forward ?ru)) (length [7, 8 :: u32]) = (bg, Ok 0)"
    by (auto simp: grammar_idle_def numeral_2_eq_2)
  have "admits ?ru 2"
    using delivering_runtime_admits [of d bm] by (simp add: admits_def grammar_runtime_fields delivering_runtime_fields del: for_each_Ok)
  moreover have "n_embd (ru_spec ?ru) = 2" "prefill_chunk (fw_env (ru_forward ?ru)) = 512" "ss_capacity (vm_state (fw_model (ru_forward ?ru))) = 4"
    by (simp_all add: grammar_runtime_fields sample_forward_def sample_validated_def prefill_chunk_def)
  ultimately have "delivery_ok ?ru counting_hooks 2 4"
    using grammar_runtime_ok counting_hooks_permissive by (simp add: delivery_ok_def)
  then have ok: "delivery_ok ?ru counting_hooks (length [7, 8 :: u32]) (length [7, 8 :: u32] + (sp_max_tokens sample_request - 1))"
    by (simp only: length_Cons list.size sample_request_fields) (simp add: numeral_2_eq_2 numeral_Bit0)
  have "0 < sp_max_tokens sample_request" "length [7, 8 :: u32] * 6 + sp_max_tokens sample_request * 16 + 64 < 2 ^ 32"
    by (simp_all add: sample_request_def)
  from generate_answers [OF fifo_engine_ok grammar_runtime_ok(2) grammar_request this bg ok] show ?thesis by blast
qed

lemma grammar_text_read_witness:
  "\<forall>d bm. \<exists>rt' out ps n. generate_input (grammar_runtime d bm) fifo_engine (GI_Token_Ids [7, 8]) sample_request counting_hooks grammar_idle =
     (rt', Ok out) \<and> gn_text out = concat ps \<and> gr_run count_grammar 0 ps = Some n"
proof (intro allI)
  fix d bm
  obtain rt' out where run: "generate_input (grammar_runtime d bm) fifo_engine (GI_Token_Ids [7, 8]) sample_request counting_hooks grammar_idle =
     (rt', Ok out)" using counting_run by blast
  have "grammar_hooks count_grammar (\<lambda>_. Some 0) ''developer'' (ru_decode (grammar_runtime d bm)) 2 2 None =
      Some (0, grammar_mask count_grammar [''x'', ''x''] 2 None, schoolmarm_intervene count_grammar (tokenizer_decoder (\<lambda>t. Some ''x'')))"
    by (simp add: grammar_hooks_def grammar_runtime_fields tokenizer_decoder_def upt_rec Let_def)
  from grammar_text_read [OF fifo_engine_ok this grammar_runtime_ok(4) _ run [unfolded counting_hooks_def]] run
  show "\<exists>rt' out ps n. generate_input (grammar_runtime d bm) fifo_engine (GI_Token_Ids [7, 8]) sample_request counting_hooks grammar_idle =
     (rt', Ok out) \<and> gn_text out = concat ps \<and> gr_run count_grammar 0 ps = Some n"
    by (auto simp: grammar_idle_def)
qed

section \<open>The mask and the control agree\<close>

text \<open>What is relied on of \<open>allowed_tokens\<close>: a token is allowed when \<open>accept_token\<close> accepts it.\<close>

definition grammar_ok :: "'s grammar \<Rightarrow> bool" where
  "grammar_ok gr =
     (\<forall>g vocab. length (gr_allowed gr g vocab) = length vocab \<and>
        (\<forall>idx<length vocab. gr_allowed gr g vocab ! idx \<longleftrightarrow> snd (gr_accept gr g (vocab ! idx)) = None))"

lemma grammar_mask_nth:
  assumes "grammar_ok gr" "\<not> gr_accepting gr g" "k < length logits"
  shows "grammar_mask gr (map decoder [0..<n]) eos im g logits ! k =
    (if k < n \<and> snd (gr_accept gr g (decoder k)) = None then logits ! k else f32_neg_infinity)"
  using assms by (auto simp: grammar_mask_def grammar_ok_def Let_def nth_enumerate_eq)

lemma grammar_mask_length: "length (grammar_mask gr vocab eos im g logits) = length logits"
  by (simp add: grammar_mask_def set_logit_def Let_def split: option.split)

text \<open>
  The mask and the control of constrained decoding agree. While the grammar's state is not
  accepting, if the grammar allows exactly the tokens it accepts, some masked logit is finite
  and the scaling does not overflow, then the token sampled from the masked logits is one whose
  piece the grammar accepts and whose logit was finite before the mask, and the control does
  not block it.
\<close>

theorem grammar_choice_accepted:
  assumes "exp_ok expf" and "sort_ok srt" and "f32_is_finite penalty" and "f32_lt 0 penalty"
    and "length logits < 2 ^ 24" and "grammar_ok gr" and "\<not> gr_accepting gr g"
    and masked: "grammar_mask gr (map decoder [0..<vocab_len]) eos_token im_end_token g logits = masked"
    and "v \<in> set (apply_penalty penalty recent masked)" and "f32_is_finite v"
    and "\<And>l. \<not> f32_lt temperature f32_1e_7 \<Longrightarrow> l \<in> set (apply_penalty penalty recent masked) \<Longrightarrow>
      f32_is_finite l \<Longrightarrow> f32_is_finite (f32_mul l (f32_div f32_one temperature))"
  shows "case sample_token expf srt masked temperature top_p penalty recent rng of
      Ok (t, _, _) \<Rightarrow> unat t < vocab_len \<and> f32_is_finite (logits ! unat t) \<and>
        (\<exists>g'. gr_accept gr g (decoder (unat t)) = (g', None) \<and>
          schoolmarm_intervene gr decoder g (unat t) = (g', if gr_accepting gr g' then EarlyExit else Allow))
    | _ \<Rightarrow> False"
proof -
  have len: "length masked = length logits" by (simp add: masked [symmetric] grammar_mask_length)
  then have "length masked < 2 ^ 24" using assms(5) by simp
  note s = sample_allowed [OF assms(1-4) this assms(9-11), of top_p rng]
  show ?thesis
  proof (cases "sample_token expf srt masked temperature top_p penalty recent rng")
    case (Ok r)
    obtain t l rng' where r: "r = (t, l, rng')" by (metis surj_pair)
    from s have t: "unat t < length logits" "f32_is_finite (masked ! unat t)" by (simp_all add: Ok r len)
    note m = grammar_mask_nth [OF assms(6,7) t(1), of decoder vocab_len eos_token im_end_token, unfolded masked]
    then have a: "unat t < vocab_len" "snd (gr_accept gr g (decoder (unat t))) = None" "masked ! unat t = logits ! unat t"
      using t(2) neg_infinity_facts(1) by (auto split: if_splits)
    then obtain g' where "gr_accept gr g (decoder (unat t)) = (g', None)" by (metis prod.collapse)
    then show ?thesis using a t(2) by (simp add: Ok r schoolmarm_intervene_def)
  qed (use s in simp_all)
qed

text \<open>The grammar of the sentence \<open>ab\<close>, read letter by letter.\<close>

definition ab_grammar :: "string grammar" where
  "ab_grammar = \<lparr>gr_accept = (\<lambda>s piece. (s @ piece, if s @ piece \<in> {''a'', ''ab''} then None else Some ''unexpected'')),
     gr_accepting = (\<lambda>s. s = ''ab''),
     gr_allowed = (\<lambda>s vocab. map (\<lambda>piece. s @ piece \<in> {''a'', ''ab''}) vocab)\<rparr>"

lemma ab_grammar_ok: "grammar_ok ab_grammar"
  by (simp add: grammar_ok_def ab_grammar_def)

lemma grammar_choice_accepted_witness:
  "case sample_token sample_exp sample_sort
      (grammar_mask ab_grammar (map (\<lambda>t. if t = 1 then ''a'' else ''b'') [0..<2]) 0 None [] [f32_one, f32_one]) 0 f32_one f32_one [] 43 of
     Ok (t, _, _) \<Rightarrow> schoolmarm_intervene ab_grammar (\<lambda>t. if t = 1 then ''a'' else ''b'') [] (unat t) = (''a'', Allow)
   | _ \<Rightarrow> False"
proof -
  let ?dec = "\<lambda>t :: nat. if t = 1 then ''a'' else ''b''"
  have one: "f32_is_finite f32_one" "f32_lt 0 f32_one"
    using nonneg_finite [of f32_one] nonneg_finite [of 0] by (simp_all add: lt_real)
  have zero: "f32_lt 0 f32_1e_7" by (simp add: f32_lt_def f32_1e_7_def decode_def Let_def scaled_def sgn_val_def)
  have m: "grammar_mask ab_grammar (map ?dec [0..<2]) 0 None [] [f32_one, f32_one] = [f32_neg_infinity, f32_one]"
    by (simp add: grammar_mask_def ab_grammar_def upt_rec)
  have pen: "apply_penalty f32_one [] [f32_neg_infinity, f32_one] = [f32_neg_infinity, f32_one]" by (simp add: apply_penalty_def)
  have "case sample_token sample_exp sample_sort [f32_neg_infinity, f32_one] 0 f32_one f32_one [] 43 of
      Ok (t, _, _) \<Rightarrow> unat t < 2 \<and> f32_is_finite ([f32_one, f32_one] ! unat t) \<and>
        (\<exists>g'. gr_accept ab_grammar [] (?dec (unat t)) = (g', None) \<and>
          schoolmarm_intervene ab_grammar ?dec [] (unat t) = (g', if gr_accepting ab_grammar g' then EarlyExit else Allow))
    | _ \<Rightarrow> False"
    by (rule grammar_choice_accepted [OF sample_exp_ok sample_sort_ok one(1,2) _ ab_grammar_ok _ m, where v = f32_one])
      (use zero one in \<open>simp_all add: pen ab_grammar_def\<close>)
  then show ?thesis unfolding m by (auto simp: ab_grammar_def split: res.splits if_splits)
qed

end
