(* ===== verification/Math_Control.thy ===== *)
theory Math_Control
  imports Policy_Scan "HOL-Library.Signed_Division"
begin

text \<open>
  \<open>src/src/math_bypass_control.rs\<close>: a control that looks for an arithmetic phrase in the
  prompt, computes its value, and then forces the tokens of the value one by one and ends
  the generation. A prompt is the list of its bytes in UTF-8. The lower-casing of the
  standard library and the tokenizer are parameters.
\<close>

section \<open>Reading a prompt\<close>

text \<open>\<open>i64::checked_add\<close> and its like, on the exact result.\<close>

definition checked_i64 :: "int \<Rightarrow> int option" where
  "checked_i64 r = (if - (2 ^ 63) \<le> r \<and> r < 2 ^ 63 then Some r else None)"

text \<open>Operands are read from digits and so not negative: the division does not overflow.\<close>

definition checked_quotient :: "int \<Rightarrow> int \<Rightarrow> int option" where
  "checked_quotient a b = (if b = 0 then None else Some (a sdiv b))"

type_synonym math_op = "string \<times> (int \<Rightarrow> int \<Rightarrow> int option)"

definition math_ops :: "math_op list" where
  "math_ops =
     [(''multiplied by'', \<lambda>a b. checked_i64 (a * b)),
      (''divided by'', checked_quotient),
      (''added to'', \<lambda>a b. checked_i64 (a + b)),
      (''subtracted'', \<lambda>a b. checked_i64 (a - b)),
      (''times'', \<lambda>a b. checked_i64 (a * b)),
      (''plus'', \<lambda>a b. checked_i64 (a + b)),
      (''minus'', \<lambda>a b. checked_i64 (a - b)),
      ([char_of (195 :: nat), char_of (183 :: nat)], checked_quotient),
      ([char_of (195 :: nat), char_of (151 :: nat)], \<lambda>a b. checked_i64 (a * b))]"

text \<open>\<open>str::find\<close>: the first place where the phrase occurs.\<close>

fun find_phrase :: "string \<Rightarrow> string \<Rightarrow> nat option" where
  "find_phrase p [] = (if p = [] then Some 0 else None)"
| "find_phrase p (c # s) = (if prefix p (c # s) then Some 0 else map_option Suc (find_phrase p s))"

text \<open>\<open>str::parse::<i64>\<close> of a string of digits.\<close>

definition parse_digits :: "string \<Rightarrow> int option" where
  "parse_digits ds = (if ds = [] \<or> 2 ^ 63 \<le> undec ds then None else Some (int (undec ds)))"

definition last_integer :: "string \<Rightarrow> int option" where
  "last_integer s = parse_digits (rev (takeWhile is_digit (dropWhile (\<lambda>c. \<not> is_digit c) (rev s))))"

definition first_integer :: "string \<Rightarrow> int option" where
  "first_integer s =
     (let rest = dropWhile (\<lambda>c. \<not> is_digit c) s in
      if rest = [] then None else parse_digits (takeWhile is_digit rest))"

definition try_op :: "string \<Rightarrow> math_op \<Rightarrow> int option" where
  "try_op s op =
     (case find_phrase (fst op) s of
        None \<Rightarrow> None
      | Some pos \<Rightarrow>
          (case (last_integer (take pos s), first_integer (drop (pos + length (fst op)) s)) of
             (Some a, Some b) \<Rightarrow> snd op a b
           | _ \<Rightarrow> None))"

fun try_ops :: "string \<Rightarrow> math_op list \<Rightarrow> int option" where
  "try_ops s [] = None"
| "try_ops s (op # ops) = (case try_op s op of Some r \<Rightarrow> Some r | None \<Rightarrow> try_ops s ops)"

definition detect_and_compute :: "(string \<Rightarrow> string) \<Rightarrow> string \<Rightarrow> int option" where
  "detect_and_compute lower prompt = try_ops (lower prompt) math_ops"

section \<open>The control\<close>

record bypass_state =
  bp_queue :: "nat list"
  bp_armed :: bool

definition show_i64 :: "int \<Rightarrow> string" where
  "show_i64 r = (if r < 0 then CHR ''-'' # dec (nat (- r)) else dec (nat r))"

definition compute_bypass_tokens :: "(string \<Rightarrow> string) \<Rightarrow> (string \<Rightarrow> u32 list option) \<Rightarrow> string \<Rightarrow> u32 list" where
  "compute_bypass_tokens lower enc prompt =
     (case detect_and_compute lower prompt of
        None \<Rightarrow> []
      | Some answer \<Rightarrow> (case enc (show_i64 answer) of Some ids \<Rightarrow> ids | None \<Rightarrow> []))"

definition bypass_new :: "(string \<Rightarrow> string) \<Rightarrow> (string \<Rightarrow> u32 list option) \<Rightarrow> string \<Rightarrow> bypass_state" where
  "bypass_new lower enc prompt =
     (let q = (case detect_and_compute lower prompt of
          None \<Rightarrow> []
        | Some answer \<Rightarrow> (case enc (show_i64 answer) of Some ids \<Rightarrow> map unat ids | None \<Rightarrow> []))
      in \<lparr>bp_queue = q, bp_armed = (q \<noteq> [])\<rparr>)"

definition bypass_intervene :: "bypass_state \<Rightarrow> bypass_state \<times> gate_decision" where
  "bypass_intervene b =
     (case bp_queue b of
        t # q \<Rightarrow> (b\<lparr>bp_queue := q\<rparr>, ForceToken t)
      | [] \<Rightarrow> (b, if bp_armed b then EarlyExit else Allow))"

fun bypass_run :: "nat \<Rightarrow> bypass_state \<Rightarrow> gate_decision list" where
  "bypass_run 0 b = []"
| "bypass_run (Suc n) b = (case bypass_intervene b of (b', d) \<Rightarrow> d # bypass_run n b')"

section \<open>What a prompt asks\<close>

text \<open>A maximal run of digits, of a value that fits 63 bits.\<close>

definition number :: "string \<Rightarrow> int \<Rightarrow> bool" where
  "number ds n = (ds \<noteq> [] \<and> list_all is_digit ds \<and> n = int (undec ds) \<and> n < 2 ^ 63)"

text \<open>
  The first occurrence of the phrase stands between a number and a number, with no digit
  between the phrase and either, and the operation is defined on them.
\<close>

definition asks :: "string \<Rightarrow> math_op \<Rightarrow> int \<Rightarrow> bool" where
  "asks s op r =
     (\<exists>u ds g h es v a b. s = (u @ ds @ g) @ fst op @ (h @ es @ v) \<and>
        (\<forall>m<length (u @ ds @ g). \<not> prefix (fst op) (drop m s)) \<and>
        number ds a \<and> number es b \<and> list_all (\<lambda>c. \<not> is_digit c) g \<and> list_all (\<lambda>c. \<not> is_digit c) h \<and>
        (u = [] \<or> \<not> is_digit (last u)) \<and> (v = [] \<or> \<not> is_digit (hd v)) \<and> snd op a b = Some r)"

text \<open>The value asked for: of the first operation in the table that the prompt asks.\<close>

definition answer_of :: "string \<Rightarrow> int \<Rightarrow> bool" where
  "answer_of s r = (\<exists>k<length math_ops. asks s (math_ops ! k) r \<and> (\<forall>j<k. \<forall>r'. \<not> asks s (math_ops ! j) r'))"

lemma find_phrase_Some:
  "find_phrase p s = Some n \<longleftrightarrow> n \<le> length s \<and> prefix p (drop n s) \<and> (\<forall>m<n. \<not> prefix p (drop m s))"
proof (induction p s arbitrary: n rule: find_phrase.induct)
  case (2 p c s)
  show ?case
  proof (cases n)
    case (Suc k)
    have all: "(\<forall>m<Suc k. \<not> prefix p (drop m (c # s))) \<longleftrightarrow> \<not> prefix p (c # s) \<and> (\<forall>m<k. \<not> prefix p (drop m s))"
      by (simp add: All_less_Suc2)
    then show ?thesis using 2 Suc by (auto simp: all)
  qed (auto simp: 2)
qed auto

lemma parse_digits_Some: "list_all is_digit ds \<Longrightarrow> parse_digits ds = Some n \<longleftrightarrow> number ds n"
  by (auto simp: parse_digits_def number_def not_le)

lemma takeWhile_digits: "list_all is_digit (takeWhile is_digit s)"
  by (induction s) auto

lemma skip_to_digits:
  assumes "list_all (\<lambda>c. \<not> is_digit c) h" "ds \<noteq> []" "list_all is_digit ds" "v = [] \<or> \<not> is_digit (hd v)"
  shows "dropWhile (\<lambda>c. \<not> is_digit c) (h @ ds @ v) = ds @ v" and "takeWhile is_digit (ds @ v) = ds"
proof -
  show "dropWhile (\<lambda>c. \<not> is_digit c) (h @ ds @ v) = ds @ v"
    using assms(1-3) by (subst dropWhile_append2) (auto simp: list_all_iff dropWhile_append neq_Nil_conv)
  show "takeWhile is_digit (ds @ v) = ds"
    using assms(3,4) by (subst takeWhile_append2) (auto simp: list_all_iff takeWhile_eq_Nil_iff)
qed

lemma first_integer_Some:
  "first_integer s = Some n \<longleftrightarrow>
     (\<exists>h ds v. s = h @ ds @ v \<and> list_all (\<lambda>c. \<not> is_digit c) h \<and> number ds n \<and> (v = [] \<or> \<not> is_digit (hd v)))"
  (is "_ \<longleftrightarrow> ?rhs")
proof
  let ?rest = "dropWhile (\<lambda>c. \<not> is_digit c) s"
  assume "first_integer s = Some n"
  then have n: "number (takeWhile is_digit ?rest) n"
    by (simp add: first_integer_def Let_def parse_digits_Some [OF takeWhile_digits] split: if_splits)
  have v: "dropWhile is_digit ?rest = [] \<or> \<not> is_digit (hd (dropWhile is_digit ?rest))"
    using hd_dropWhile [of is_digit ?rest] by blast
  have h: "list_all (\<lambda>c. \<not> is_digit c) (takeWhile (\<lambda>c. \<not> is_digit c) s)"
    by (auto simp: list_all_iff dest: set_takeWhileD)
  have "s = takeWhile (\<lambda>c. \<not> is_digit c) s @ takeWhile is_digit ?rest @ dropWhile is_digit ?rest" by simp
  then show ?rhs using n v h by blast
next
  assume ?rhs
  then obtain h ds v where s: "s = h @ ds @ v" "list_all (\<lambda>c. \<not> is_digit c) h" "number ds n" "v = [] \<or> \<not> is_digit (hd v)"
    by blast
  from s(3) have ds: "ds \<noteq> []" "list_all is_digit ds" by (simp_all add: number_def)
  note run = skip_to_digits [OF s(2) ds s(4)]
  show "first_integer s = Some n" using run ds s(3) by (simp add: s(1) first_integer_def parse_digits_Some)
qed

lemma last_integer_Some:
  "last_integer s = Some n \<longleftrightarrow>
     (\<exists>u ds g. s = u @ ds @ g \<and> list_all (\<lambda>c. \<not> is_digit c) g \<and> number ds n \<and> (u = [] \<or> \<not> is_digit (last u)))"
  (is "_ \<longleftrightarrow> ?rhs")
proof
  let ?rest = "dropWhile (\<lambda>c. \<not> is_digit c) (rev s)"
  assume "last_integer s = Some n"
  then have n: "number (rev (takeWhile is_digit ?rest)) n"
    using takeWhile_digits [of ?rest] by (simp add: last_integer_def parse_digits_Some list_all_rev del: rev_rev_ident)
  have v: "rev (dropWhile is_digit ?rest) = [] \<or> \<not> is_digit (last (rev (dropWhile is_digit ?rest)))"
    using hd_dropWhile [of is_digit ?rest] by (auto simp: last_rev)
  have g: "list_all (\<lambda>c. \<not> is_digit c) (rev (takeWhile (\<lambda>c. \<not> is_digit c) (rev s)))"
    by (auto simp: list_all_iff dest: set_takeWhileD)
  have "rev s = takeWhile (\<lambda>c. \<not> is_digit c) (rev s) @ takeWhile is_digit ?rest @ dropWhile is_digit ?rest" by simp
  then have "s = rev (dropWhile is_digit ?rest) @ rev (takeWhile is_digit ?rest) @ rev (takeWhile (\<lambda>c. \<not> is_digit c) (rev s))"
    by (metis append.assoc rev_append rev_rev_ident)
  then show ?rhs using n v g by blast
next
  assume ?rhs
  then obtain u ds g where s: "s = u @ ds @ g" "list_all (\<lambda>c. \<not> is_digit c) g" "number ds n" "u = [] \<or> \<not> is_digit (last u)"
    by blast
  from s(3) have ds: "rev ds \<noteq> []" "list_all is_digit (rev ds)" by (simp_all add: number_def list_all_rev)
  have u: "rev u = [] \<or> \<not> is_digit (hd (rev u))" using s(4) by (auto simp: hd_rev)
  have g: "list_all (\<lambda>c. \<not> is_digit c) (rev g)" using s(2) by (simp add: list_all_rev)
  note run = skip_to_digits [OF g ds u]
  show "last_integer s = Some n" using run ds s(3) by (simp add: s(1) last_integer_def parse_digits_Some list_all_rev)
qed

lemma try_op_Some: "try_op s op = Some r \<longleftrightarrow> asks s op r"
proof
  assume "try_op s op = Some r"
  then obtain pos a b where t: "find_phrase (fst op) s = Some pos" "last_integer (take pos s) = Some a"
    "first_integer (drop (pos + length (fst op)) s) = Some b" "snd op a b = Some r"
    by (auto simp: try_op_def split: option.splits)
  from t(1) have p: "pos \<le> length s" "prefix (fst op) (drop pos s)" "\<forall>m<pos. \<not> prefix (fst op) (drop m s)"
    by (simp_all add: find_phrase_Some)
  then have "drop pos s = fst op @ drop (pos + length (fst op)) s"
    by (metis add.commute append_eq_conv_conj drop_drop prefixE)
  then have s: "s = take pos s @ fst op @ drop (pos + length (fst op)) s" by (metis append_take_drop_id)
  from t(2) obtain u ds g where u: "take pos s = u @ ds @ g" "list_all (\<lambda>c. \<not> is_digit c) g" "number ds a" "u = [] \<or> \<not> is_digit (last u)"
    by (auto simp: last_integer_Some)
  from t(3) obtain h es v where h: "drop (pos + length (fst op)) s = h @ es @ v" "list_all (\<lambda>c. \<not> is_digit c) h" "number es b"
    "v = [] \<or> \<not> is_digit (hd v)"
    by (auto simp: first_integer_Some)
  have "length (u @ ds @ g) = pos" unfolding u(1) [symmetric] using p(1) by simp
  moreover have "s = (u @ ds @ g) @ fst op @ (h @ es @ v)" using s unfolding u(1) h(1) .
  ultimately show "asks s op r" unfolding asks_def using u(2-4) h(2-4) p(3) t(4) by blast
next
  assume "asks s op r"
  then obtain u ds g h es v a b where s: "s = (u @ ds @ g) @ fst op @ (h @ es @ v)" "\<forall>m<length (u @ ds @ g). \<not> prefix (fst op) (drop m s)"
    and n: "number ds a" "number es b" "list_all (\<lambda>c. \<not> is_digit c) g" "list_all (\<lambda>c. \<not> is_digit c) h"
    "u = [] \<or> \<not> is_digit (last u)" "v = [] \<or> \<not> is_digit (hd v)" "snd op a b = Some r" unfolding asks_def by blast
  let ?pos = "length (u @ ds @ g)"
  have "drop ?pos s = fst op @ (h @ es @ v)" "take ?pos s = u @ ds @ g" unfolding s(1) by simp_all
  moreover from this have "drop (?pos + length (fst op)) s = h @ es @ v"
    by (metis add.commute append_eq_conv_conj drop_drop)
  moreover have "find_phrase (fst op) s = Some ?pos"
    unfolding find_phrase_Some using s calculation(1) by (simp only: s(2) prefixI) simp
  moreover have "last_integer (u @ ds @ g) = Some a" using n last_integer_Some by blast
  moreover have "first_integer (h @ es @ v) = Some b" using n first_integer_Some by blast
  ultimately show "try_op s op = Some r" using n(7) by (simp add: try_op_def)
qed

lemma try_ops_Some:
  "try_ops s ops = Some r \<longleftrightarrow> (\<exists>k<length ops. asks s (ops ! k) r \<and> (\<forall>j<k. \<forall>r'. \<not> asks s (ops ! j) r'))"
proof (induction ops)
  case (Cons op ops)
  show ?case
  proof (cases "try_op s op")
    case None
    then have "\<not> asks s op r'" for r' using try_op_Some [of s op r'] by simp
    then show ?thesis using None Cons by (simp add: Ex_less_Suc2 All_less_Suc2)
  next
    case (Some r')
    then have "asks s op r''\<longleftrightarrow> r'' = r'" for r'' using try_op_Some [of s op r''] by auto
    then show ?thesis using Some by (auto simp: Ex_less_Suc2 All_less_Suc2)
  qed
qed simp

lemma bypass_drains:
  "bypass_run n \<lparr>bp_queue = q, bp_armed = a\<rparr> = take n (map ForceToken q @ replicate n (if a then EarlyExit else Allow))"
proof (induction n arbitrary: q)
  case (Suc n)
  then show ?case by (cases q) (simp_all add: bypass_intervene_def replicate_Suc [symmetric] del: replicate_Suc)
qed simp

text \<open>
  C40: The arithmetic control answers what the prompt asks. A value is computed exactly when
  the lower-cased prompt has, at the first occurrence of one of the nine phrases, a number
  before and a number after it on which the operation is defined, the earlier phrases of the
  table giving none; the control then forces the tokens of that value, one per intervention,
  and ends the generation. Without such a value, or when the tokenizer fails on its text or
  returns no token, it allows every token. The phrases, and what each computes, are those of
  the table \<open>math_ops\<close>.
\<close>

theorem math_control_answers:
  "(detect_and_compute lower prompt = Some r \<longleftrightarrow> answer_of (lower prompt) r) \<and>
   bypass_run n (bypass_new lower enc prompt) =
     (let ids = compute_bypass_tokens lower enc prompt in
      take n (map (\<lambda>t. ForceToken (unat t)) ids @ replicate n (if ids = [] then Allow else EarlyExit)))"
proof -
  have "bypass_new lower enc prompt = \<lparr>bp_queue = map unat (compute_bypass_tokens lower enc prompt),
      bp_armed = (compute_bypass_tokens lower enc prompt \<noteq> [])\<rparr>"
    by (simp add: bypass_new_def compute_bypass_tokens_def Let_def split: option.split)
  then show ?thesis
    by (simp add: detect_and_compute_def try_ops_Some answer_of_def bypass_drains Let_def comp_def)
qed

lemma math_control_answers_witness:
  "answer_of ''37 times 4?'' 148 \<and>
   bypass_run 4 (bypass_new (\<lambda>s. s) (\<lambda>s. Some (map (\<lambda>c. word_of_nat (of_char c)) s)) ''37 times 4?'') =
     [ForceToken 49, ForceToken 52, ForceToken 56, EarlyExit]"
proof -
  let ?p = "''37 times 4?''" and ?enc = "\<lambda>s :: string. Some (map (\<lambda>c. word_of_nat (of_char c)) s :: u32 list)"
  have d: "detect_and_compute (\<lambda>s. s) ?p = Some 148"
    by (simp add: detect_and_compute_def math_ops_def try_op_def last_integer_def first_integer_def is_digit_def parse_digits_def
        undec_def checked_i64_def Let_def)
  then have t: "compute_bypass_tokens (\<lambda>s. s) ?enc ?p = [49, 52, 56]"
    by (simp add: compute_bypass_tokens_def show_i64_def dec.simps)
  have four: "replicate (4 :: nat) x = [x, x, x, x]" for x :: gate_decision by (simp add: numeral_eq_Suc)
  note m = math_control_answers [of "\<lambda>s. s" ?p 148 4 ?enc, unfolded t Let_def d]
  show ?thesis
  proof
    show "answer_of ?p 148" using m by blast
    show "bypass_run 4 (bypass_new (\<lambda>s. s) ?enc ?p) = [ForceToken 49, ForceToken 52, ForceToken 56, EarlyExit]"
      unfolding m [THEN conjunct2] four by simp
  qed
qed

end
