(* ===== verification/Spec2Isabelle.thy ===== *)
theory Spec2Isabelle
  imports Kv_Cache Grammar_Control Math_Control
begin

text \<open>
  A verification development for airframe, a GPU runtime for GGUF language models
  (\<open>src/src\<close>, with the crates \<open>airframe_observe\<close> and \<open>libfse\<close> of \<open>src/crates\<close>).

  \<^bold>\<open>The program.\<close> A model file is read into a manifest of metadata and tensors (the crate
  shimmytok). \<open>model_descriptor.rs\<close> decides whether the file is a dense model the runtime
  supports; \<open>execution/plan.rs\<close> compiles the accepted descriptor to a list of operators;
  \<open>execution/operators.rs\<close> states what each operator demands of its operands;
  \<open>execution/admission.rs\<close> ties these to the specification (\<open>core/spec.rs\<close>), the layer table
  (\<open>backend/bindless/metadata.rs\<close>), the rotary tables (\<open>preflight.rs\<close>) and the device limits,
  and yields the model that may be run. The file is uploaded in chunks (\<open>loader.rs\<close>) and each
  dispatch binds a window of them (\<open>pipeline/mod.rs\<close>, \<open>matmul.rs\<close>). A generation request
  takes a lease on the key-value state (\<open>runtime/state.rs\<close>, \<open>kv_cache.rs\<close>); forward passes
  (\<open>pipeline/inference.rs\<close>) reserve and commit writes on it; the inference fabric
  (\<open>airframe_observe/isf.rs\<close>) drives prefill, sampling and decoding by rules over facts, with
  the closures that \<open>generate\<close> of \<open>runtime/gpu.rs\<close> gives it: the passes, the sampler
  (\<open>gpu.rs\<close>, \<open>runtime/sampling.rs\<close>), the caller's mask and control. The control that
  watches the text runs a compiled policy (\<open>fse_control.rs\<close>, the crate \<open>libfse\<close>); another forces the
  value of an arithmetic prompt (\<open>math_bypass_control.rs\<close>); a grammar constrains the tokens by a
  mask and a control that share its state (\<open>grammar.rs\<close>, \<open>schoolmarm_control.rs\<close>). Beside
  it stand a CPU path (\<open>core/model.rs\<close>, \<open>core/dequant\<close>, \<open>runtime/kvcache.rs\<close>) and the registry
  of quantization formulas (\<open>quant_formula.rs\<close>).

  \<^bold>\<open>Conventions.\<close> A fallible function returns \<open>res\<close> (Prelude): \<open>Ok\<close>, \<open>Err\<close> or \<open>Panic\<close>, so every
  early return, \<open>?\<close>, assertion, index and \<open>unwrap\<close> is a branch. \<open>u32\<close>, \<open>u64\<close> are machine words;
  \<open>usize\<close> is a natural number below \<open>2 ^ 64\<close>, its arithmetic written with \<open>wadd\<close>, \<open>wmul\<close> or the
  checked operations of the source. \<open>f32\<close> is the 32 bits of an IEEE number, with the operations
  of Float32 and Float_Div; an accumulator is a state passed explicitly; a buffer is the list of
  its bytes or, where only its identity matters, a number. A hash map whose order of iteration
  matters is a list of its entries.

  \<^bold>\<open>The theories.\<close>
  \<^item> Prelude: results, checked arithmetic, bytes, decimal printing, list lemmas.
    Float32, Float_Div: single precision (addition, multiplication, comparison, conversion;
    division, remainder-free square root). Float_Order: comparison is a total order on the
    numbers that are not NaN, and operations that keep it. Errors: \<open>core/error.rs\<close>.
  \<^item> Ggml_Types, Tensor, Weight_Id: \<open>core/ggml_types.rs\<close>, \<open>tensor.rs\<close>, \<open>weight_id.rs\<close>.
    Dequant: the block readers of \<open>core/dequant\<close>. Quant_Formula: the registry, and the canonical
    block formulas the readers are proved equal to. Loading: \<open>load_tensor_by_type\<close>,
    \<open>load_required_weights\<close> of \<open>core/model.rs\<close>.
  \<^item> Kv_Cache: \<open>runtime/kvcache.rs\<close>, the CPU cache, as operations on its buffers, with the
    abstraction to a list of rows per layer. State_Lease: \<open>runtime/state.rs\<close>; the controller and
    its leases as atomic steps (\<open>lease_call\<close>, \<open>begin_acquire\<close>, \<open>begin_epoch\<close>) that may interleave,
    with reachability and an invariant; the abstract specification of a lease is the prefix of
    positions it has committed.
  \<^item> Window, Layer_Window, Kernel_Policy: the chunk plan, the windows, the packing of offsets, the
    layer and half-layer planners, the LM-head tiles and the choices of kernels of \<open>loader.rs\<close>,
    \<open>pipeline/mod.rs\<close>, \<open>matmul.rs\<close>, \<open>tdr_calibration.rs\<close>, \<open>invariant_ppt.rs\<close>; a shader's read is
    modelled as \<open>read_blob\<close> reads it.
  \<^item> Manifest, Descriptor, Plan, Operators: the manifest as shimmytok gives it, \<open>from_manifest\<close>,
    \<open>compile\<close>, \<open>validate_legacy\<close>. Model_Spec, Metadata, Preflight: \<open>core/spec.rs\<close>, \<open>metadata.rs\<close>,
    \<open>preflight.rs\<close>. Admission: \<open>execution/admission.rs\<close> (\<open>inspect_model\<close>, \<open>check_device\<close>,
    \<open>check_forward\<close>, \<open>checked_operators\<close>, \<open>load\<close>).
  \<^item> Forward: the GPU cache's binding to a plan, requests and their drop, the checks, reservation
    and settlement of a forward pass, chunked prefill.
  \<^item> Facts, Fabric, Generation: \<open>facts.rs\<close>, \<open>isf.rs\<close> and what holds of every run of the rules.
  \<^item> Sampling: the sampler and its generator. Policy_Scan: the compiler of policies and the scanner
    of \<open>libfse\<close>, and the control over them (\<open>fse_intervene\<close>). Math_Control: the arithmetic
    control, with a declarative reading of what a prompt asks (\<open>answer_of\<close>).
  \<^item> Session: \<open>generate\<close> as one function of the runtime's state (\<open>generate_input\<close>): the checks of a
    request, the closures, the run of the fabric, the reading of its result, the drop of the
    request. Delivery: its liveness, where the fabric, the passes and the leases meet.
    Grammar_Control: the hooks of constrained decoding, and what a generation with them writes.

  \<^bold>\<open>What the properties show.\<close> Admission of a model is sound: the descriptor, the compiled
  layer table, the operators, the specification and the rotary tables all describe the one file
  (\<open>descriptor_sound\<close>, \<open>compiled_table_exact\<close>, \<open>accepted_plan_checks\<close>, \<open>load_consistent\<close>,
  \<open>norm_bank_exact\<close>). What is dispatched reads the right bytes (\<open>layer_window_covers_tensors\<close>,
  \<open>lm_head_window_covers\<close>, \<open>window_reads_file\<close>, \<open>device_check_binds_layers\<close>), and the CPU readers
  compute the canonical formulas (\<open>load_equals_registry\<close>). The state is never corrupted: leases
  are exclusive, their committed prefix is exact, a prefill is all or nothing and a dropped
  request frees the state. Generation completes within its bound in every schedule and makes the
  calls of a sequential loop. A generation leaves the runtime free and consistent whatever the
  GPU, the hooks and the schedule do, also when the GPU panics (\<open>generate_keeps_runtime\<close>), and is
  answered when nothing outside the runtime fails (\<open>generate_delivers\<close>); a masked token is not
  sampled unless the scaling by the temperature overflows (\<open>sample_respects_mask\<close>), and a policy's control stops a text exactly when the policy's patterns
  occur in it (\<open>fse_run_decides\<close>); the arithmetic control forces the value the prompt asks for
  (\<open>math_control_answers\<close>), and a constrained generation writes only what its grammar reads
  (\<open>grammar_text_read\<close>).

  \<^bold>\<open>Interfaces.\<close> Locales state what one part relies on of another, each interpreted on the
  model's own definitions in the theory that provides it. \<open>block_format\<close> (Dequant) is what the
  loader relies on of a block reader; \<open>invariant_component\<close> (Prelude) an invariant that every
  operation of a state keeps; \<open>recorded\<close> (Generation) the closures of a session with a log of
  their calls, interpreted by \<open>logging\<close>; \<open>kept_by_closures\<close> (Session) an invariant of the world
  that every closure keeps; \<open>delivering\<close> (Delivery) closures that never object.

  \<^bold>\<open>Parameters.\<close> The engine dzero is a parameter with the contract \<open>engine_ok\<close> (it processes
  pending facts in any order within the budget), satisfied by \<open>fifo_engine\<close>. The GPU pass, the
  dequantisation of a row, the tokenizer and the hooks are functions on a world of their own. The
  first three may panic, which unwinds the generation and poisons its gate; the hooks return. For
  liveness none of the three panics (\<open>reliable\<close>), and all succeed (\<open>delivers\<close>, \<open>admits\<close>,
  \<open>permissive\<close>). The automaton of aho-corasick
  is a parameter with the contract \<open>dfa_ok\<close>; \<open>exp\<close> and the sort of the standard library are
  arguments of the sampler, its lower-casing of the arithmetic control. The grammar engine schoolmarm is a record of
  functions on a state of its own (\<open>grammar\<close>, with the contract \<open>grammar_ok\<close>). \<open>half::f16\<close>,
  \<open>powf\<close>, \<open>sin\<close>, \<open>cos\<close>, SHA-256, the manifest reader and the text of values (\<open>to_string\<close>) are
  arguments of the definitions that use them.

  \<^bold>\<open>Bounds and termination.\<close> No definition runs out of fuel: loops are structural, or \<open>function\<close>
  with a measure (\<open>chunks\<close>, \<open>head_tiles\<close>); the work bound of a request is the code's own and
  \<open>generation_completes\<close> proves that no run reaches it.

  \<^bold>\<open>Not modelled.\<close> The WGSL shaders and what surrounds their dispatch (bind groups, command
  encoding, readback, device setup) are effects of the GPU; the probes under \<open>src/bin\<close> and the
  stage tests of \<open>pipeline/layer.rs\<close>, \<open>dequant.rs\<close>, \<open>pipeline_shift.rs\<close> drive them for
  diagnosis. Logging and profiling change no decision. Validation and conformance write reports.
\<close>

end
